(* ===== verification/Kv_Prelude.thy ===== *)
theory Kv_Prelude
  imports Main "HOL-Library.Word" "HOL-Library.AList"
begin

text \<open>
  What the components share: the machine types of the code, the two collections of facts the
  component proofs are run with, and generic lemmas on lists.

  A byte is an \<^verbatim>\<open>uint8_t\<close>; a \<^verbatim>\<open>std::string\<close>, a \<^verbatim>\<open>std::vector<uint8_t>\<close> and a
  \<^verbatim>\<open>std::span<const uint8_t>\<close> are all lists of bytes, so the \<^verbatim>\<open>reinterpret_cast\<close>s between them
  are the identity.  \<open>ascii\<close> turns a literal of the source into its bytes.
\<close>

unbundle bit_operations_syntax

type_synonym byte = "8 word"
type_synonym str = "byte list"
type_synonym u16 = "16 word"
type_synonym u32 = "32 word"
type_synonym u64 = "64 word"

definition ascii :: "string \<Rightarrow> str" where
  "ascii s = map of_char s"

text \<open>
  \<open>kv_defs\<close> collects the unfoldings of small operations, \<open>kv_inv\<close> the facts that an operation keeps
  its component's invariant.
\<close>

named_theorems kv_defs \<open>unfoldings of operations that are one case distinction\<close>
named_theorems kv_inv \<open>an operation keeps the invariant of its component\<close>

section \<open>Lists\<close>

lemma list_update_in_concat:
  "i < length xss \<Longrightarrow>
   concat (xss[i := ys]) = concat (take i xss) @ ys @ concat (drop (Suc i) xss)"
  by (simp add: upd_conv_take_nth_drop)

lemma concat_split_nth:
  "i < length xss \<Longrightarrow> concat xss = concat (take i xss) @ xss ! i @ concat (drop (Suc i) xss)"
  by (metis append_take_drop_id concat.simps(2) concat_append Cons_nth_drop_Suc)

lemma sum_list_update_nat:
  fixes f :: "'a \<Rightarrow> nat"
  assumes "i < length xs"
  shows "sum_list (map f (xs[i := y])) + f (xs ! i) = sum_list (map f xs) + f y"
  using assms by (induction xs arbitrary: i) (auto split: nat.splits)

lemma last_conv_take: "xs \<noteq> [] \<Longrightarrow> xs = take (length xs - 1) xs @ [last xs]"
  by (metis append_butlast_last_id butlast_conv_take)

lemma take_drop_middle: "i \<le> j \<Longrightarrow> take i xs @ take (j - i) (drop i xs) = take j xs"
  by (metis le_add_diff_inverse take_add)

lemma map_nth_upt: "b \<le> length xs \<Longrightarrow> map ((!) xs) [a..<b] = take (b - a) (drop a xs)"
  by (rule nth_equalityI) auto

section \<open>Words\<close>

lemma unat_succ:
  fixes w :: "'a::len word"
  assumes "w \<noteq> - 1"
  shows "unat (w + 1) = unat w + 1"
proof -
  have "w + 1 \<noteq> 0" using assms eq_neg_iff_add_eq_0 by blast
  moreover have "(of_nat (unat w + 1) :: 'a word) = w + 1" by simp
  moreover have "(of_nat (2 ^ LENGTH('a)) :: 'a word) = 0" by simp
  ultimately have "unat w + 1 \<noteq> 2 ^ LENGTH('a)" by metis
  moreover have "unat w < 2 ^ LENGTH('a)" by (rule unsigned_less)
  ultimately have "unat w + 1 < 2 ^ LENGTH('a)" by linarith
  then show ?thesis by (simp add: unat_word_ariths)
qed

lemma word_less_succ:
  fixes w :: "'a::len word"
  shows "w \<noteq> - 1 \<Longrightarrow> w < w + 1"
  by (simp add: word_less_nat_alt unat_succ)

end
