(* ===== verification/BPlus_Node.thy ===== *)
theory BPlus_Node
  imports Kv_Prelude
begin

text \<open>
  \<^verbatim>\<open>src/zset/bplustree_internal.hpp\<close>: the nodes of the B+ tree behind the sorted sets.  A node's 256 bytes
  (key slots, child pointers, subtree count) become the lists and the 32-bit count they encode; the
  \<^verbatim>\<open>memmove\<close>s between slots become list slices.  Items sit in inner nodes as well as in leaves.  The
  capacities are computed from the layout for the 16-byte element of the sorted sets.

  For the proofs a node is the alternation of its \<open>parts\<close> (what is stored below each child; nothing,
  for a leaf) and its keys, which \<open>weave\<close> puts in order; every operation on a node is an operation
  on these two lists.
\<close>

section \<open>Layout\<close>

definition kBPNodeSize :: nat where "kBPNodeSize = 256"
definition kKeyOffset :: nat where "kKeyOffset = 4"
definition kSubTreeLen :: nat where "kSubTreeLen = 4"
definition kKeySize :: nat where "kKeySize = 16"
definition kPointerSize :: nat where "kPointerSize = 8"

definition kMaxLeafKeys :: nat where
  "kMaxLeafKeys = (kBPNodeSize - kKeyOffset) div kKeySize"

definition kMinLeafKeys :: nat where
  "kMinLeafKeys = kMaxLeafKeys div 2"

definition kMaxInnerKeys :: nat where
  "kMaxInnerKeys = (kBPNodeSize - kPointerSize - kKeyOffset - kSubTreeLen) div (kKeySize + kPointerSize)"

definition kMinInnerKeys :: nat where
  "kMinInnerKeys = kMaxInnerKeys div 2"

lemma capacities [simp]:
  "kMaxLeafKeys = 15" "kMinLeafKeys = 7" "kMaxInnerKeys = 10" "kMinInnerKeys = 5"
  by (simp_all add: kMaxLeafKeys_def kMinLeafKeys_def kMaxInnerKeys_def kMinInnerKeys_def
      kBPNodeSize_def kKeyOffset_def kSubTreeLen_def kKeySize_def kPointerSize_def)

section \<open>Nodes\<close>

datatype 'a node =
    is_leaf: Leaf (node_keys: "'a list")
  | Inner (node_keys: "'a list") (node_children: "'a node list") (inner_count: u32)
where
  "node_children (Leaf ks) = []"

definition num_items :: "'a node \<Rightarrow> nat" where
  "num_items n = length (node_keys n)"

definition child :: "'a node \<Rightarrow> nat \<Rightarrow> 'a node" where
  "child n i = node_children n ! i"

definition max_items :: "'a node \<Rightarrow> nat" where
  "max_items n = (if is_leaf n then kMaxLeafKeys else kMaxInnerKeys)"

definition min_items :: "'a node \<Rightarrow> nat" where
  "min_items n = (if is_leaf n then kMinLeafKeys else kMinInnerKeys)"

definition available_slots :: "'a node \<Rightarrow> nat" where
  "available_slots n = max_items n - num_items n"

definition tree_count :: "'a node \<Rightarrow> u32" where
  "tree_count n = (if is_leaf n then of_nat (num_items n) else inner_count n)"

fun set_keys :: "'a list \<Rightarrow> 'a node \<Rightarrow> 'a node" where
  "set_keys ks (Leaf _) = Leaf ks"
| "set_keys ks (Inner _ cs c) = Inner ks cs c"

fun set_children :: "'a node list \<Rightarrow> 'a node \<Rightarrow> 'a node" where
  "set_children cs (Leaf ks) = Leaf ks"
| "set_children cs (Inner ks _ c) = Inner ks cs c"

fun set_tree_count :: "u32 \<Rightarrow> 'a node \<Rightarrow> 'a node" where
  "set_tree_count c (Leaf ks) = Leaf ks"
| "set_tree_count c (Inner ks cs _) = Inner ks cs c"

definition set_key :: "nat \<Rightarrow> 'a \<Rightarrow> 'a node \<Rightarrow> 'a node" where
  "set_key i x n = set_keys ((node_keys n)[i := x]) n"

definition set_child :: "nat \<Rightarrow> 'a node \<Rightarrow> 'a node \<Rightarrow> 'a node" where
  "set_child i c n = set_children ((node_children n)[i := c]) n"

definition increase_tree_count :: "u32 \<Rightarrow> 'a node \<Rightarrow> 'a node" where
  "increase_tree_count d n = set_tree_count (inner_count n + d) n"

section \<open>Search\<close>

text \<open>
  \<^verbatim>\<open>BSearch\<close>: the comparator gives the sign of query minus key.  The node must have a key.
\<close>

function bsearch_loop :: "('a \<Rightarrow> int) \<Rightarrow> 'a list \<Rightarrow> nat \<Rightarrow> nat \<Rightarrow> nat \<times> bool" where
  "bsearch_loop cmp_op ks lo hi =
     (if lo < hi then
        (let mid = (lo + hi) div 2; cmp_res = cmp_op (ks ! mid) in
         if cmp_res = 0 then (mid, True)
         else if cmp_res < 0 then bsearch_loop cmp_op ks lo mid
         else bsearch_loop cmp_op ks (mid + 1) hi)
      else (hi, False))"
  by auto
termination by (relation "measure (\<lambda>(_, _, lo, hi). hi - lo)") auto

declare bsearch_loop.simps [simp del]

definition bsearch :: "('a \<Rightarrow> int) \<Rightarrow> 'a node \<Rightarrow> nat \<times> bool" where
  "bsearch cmp_op n =
     (let hi = num_items n; cmp_res = cmp_op (node_keys n ! (hi - 1)) in
      if cmp_res \<ge> 0 then (if cmp_res > 0 then (hi, False) else (hi - 1, True))
      else bsearch_loop cmp_op (node_keys n) 0 (hi - 1))"

section \<open>Inserting and erasing in one node\<close>

text \<open>\<^verbatim>\<open>InsertItem\<close>: \<^verbatim>\<open>ShiftRight\<close> opens the slot, the item is put into it.\<close>

definition leaf_insert :: "nat \<Rightarrow> 'a \<Rightarrow> 'a node \<Rightarrow> 'a node" where
  "leaf_insert i x n = set_keys (take i (node_keys n) @ x # drop i (node_keys n)) n"

text \<open>\<^verbatim>\<open>InnerInsert\<close>: the children from \<open>i\<close> on move with the keys, child \<open>i\<close> stays, the new one is \<open>i + 1\<close>.\<close>

definition inner_insert :: "nat \<Rightarrow> 'a \<Rightarrow> 'a node \<Rightarrow> 'a node \<Rightarrow> 'a node" where
  "inner_insert i x c n =
     set_children (take (i + 1) (node_children n) @ c # drop (i + 1) (node_children n))
       (set_keys (take i (node_keys n) @ x # drop i (node_keys n)) n)"

text \<open>
  \<^verbatim>\<open>ShiftLeft(index, child_step_right)\<close>.  When the last key goes, no child is moved and the last child
  falls off the end.
\<close>

definition shift_left :: "nat \<Rightarrow> bool \<Rightarrow> 'a node \<Rightarrow> 'a node" where
  "shift_left i child_step_right n =
     (let ks = node_keys n; cs = node_children n;
          j = (if i + 1 < length ks then i + of_bool child_step_right else length ks)
      in set_children (take j cs @ drop (j + 1) cs) (set_keys (take i ks @ drop (i + 1) ks) n))"

definition leaf_erase_right :: "'a node \<Rightarrow> 'a node" where
  "leaf_erase_right n = set_keys (butlast (node_keys n)) n"

section \<open>Moving items between siblings\<close>

text \<open>
  \<^verbatim>\<open>RebalanceChildToLeft\<close> on the two siblings and the key between them: \<open>dest\<close> takes that key and the
  first \<open>count - 1\<close> keys of \<open>src\<close>, the next one goes between them; the children before it move along and
  both counts are adjusted by the items moved.
\<close>

definition move_to_left :: "nat \<Rightarrow> 'a node \<Rightarrow> 'a \<Rightarrow> 'a node \<Rightarrow> 'a node \<times> 'a \<times> 'a node" where
  "move_to_left cnt dest sep src =
     (let dest1 = set_keys (node_keys dest @ sep # take (cnt - 1) (node_keys src)) dest;
          src1 = set_keys (drop cnt (node_keys src)) src;
          sep' = node_keys src ! (cnt - 1)
      in if is_leaf src then (dest1, sep', src1)
         else
           (let moved = take cnt (node_children src);
                src_move_count = sum_list (map tree_count moved)
            in (set_tree_count (tree_count dest + src_move_count + of_nat cnt)
                  (set_children (node_children dest @ moved) dest1),
                sep',
                set_tree_count (tree_count src - src_move_count - of_nat cnt)
                  (set_children (drop cnt (node_children src)) src1))))"

definition rebalance_child_to_left :: "nat \<Rightarrow> nat \<Rightarrow> 'a node \<Rightarrow> 'a node" where
  "rebalance_child_to_left child_pos cnt n =
     (let (dest, sep, src) =
        move_to_left cnt (child n (child_pos - 1)) (node_keys n ! (child_pos - 1)) (child n child_pos)
      in set_child child_pos src (set_child (child_pos - 1) dest (set_key (child_pos - 1) sep n)))"

definition move_to_right :: "nat \<Rightarrow> 'a node \<Rightarrow> 'a \<Rightarrow> 'a node \<Rightarrow> 'a node \<times> 'a \<times> 'a node" where
  "move_to_right cnt src sep dest =
     (let n = num_items src;
          new_delim = node_keys src ! (n - cnt);
          dest1 = set_keys (drop (n - cnt + 1) (node_keys src) @ sep # node_keys dest) dest;
          src1 = set_keys (take (n - cnt) (node_keys src)) src
      in if is_leaf src then (src1, new_delim, dest1)
         else
           (let moved = drop (n - (cnt - 1)) (node_children src);
                src_move_count = sum_list (map tree_count moved)
            in (set_tree_count (tree_count src - src_move_count - of_nat cnt)
                  (set_children (take (n - (cnt - 1)) (node_children src)) src1),
                new_delim,
                set_tree_count (tree_count dest + src_move_count + of_nat cnt)
                  (set_children (moved @ node_children dest) dest1))))"

definition rebalance_child_to_right :: "nat \<Rightarrow> nat \<Rightarrow> 'a node \<Rightarrow> 'a node" where
  "rebalance_child_to_right child_pos cnt n =
     (let (src, sep, dest) =
        move_to_right cnt (child n child_pos) (node_keys n ! child_pos) (child n (child_pos + 1))
      in set_child (child_pos + 1) dest (set_child child_pos src (set_key child_pos sep n)))"

text \<open>
  \<^verbatim>\<open>RebalanceChild\<close> for a full child.  The result is the node, the position of the child to insert into
  and the position in it; \<open>None\<close> is the null pointer.
\<close>

definition moves_for_insert :: "nat \<Rightarrow> bool \<Rightarrow> nat" where
  "moves_for_insert dest_free at_end =
     (if dest_free > 0 then
        (if at_end then dest_free else if dest_free > 1 then dest_free div 2 else 0)
      else 0)"

definition rebalance_right :: "nat \<Rightarrow> nat \<Rightarrow> 'a node \<Rightarrow> ('a node \<times> nat \<times> nat) option" where
  "rebalance_right pos insert_pos n =
     (if pos < num_items n then
        (let to_move = moves_for_insert (available_slots (child n (pos + 1))) (insert_pos = 0) in
         if to_move \<noteq> 0 then
           (let n' = rebalance_child_to_right pos to_move n; k = num_items (child n' pos) in
            Some (if insert_pos > k then (n', pos + 1, insert_pos - (k + 1)) else (n', pos, insert_pos)))
         else None)
      else None)"

definition rebalance_child :: "nat \<Rightarrow> nat \<Rightarrow> 'a node \<Rightarrow> ('a node \<times> nat \<times> nat) option" where
  "rebalance_child pos insert_pos n =
     (if pos > 0 then
        (let left = child n (pos - 1);
             to_move = moves_for_insert (available_slots left) (insert_pos = num_items (child n pos)) in
         if to_move \<noteq> 0 then
           (let n' = rebalance_child_to_left pos to_move n in
            Some (if insert_pos < to_move then (n', pos - 1, num_items left + insert_pos + 1)
                  else (n', pos, insert_pos - to_move)))
         else rebalance_right pos insert_pos n)
      else rebalance_right pos insert_pos n)"

section \<open>Splitting and merging\<close>

definition split_node :: "'a node \<Rightarrow> 'a node \<times> 'a \<times> 'a node" where
  "split_node n =
     (let mid = num_items n div 2;
          median = node_keys n ! mid;
          right_keys = drop (mid + 1) (node_keys n)
      in if is_leaf n then (Leaf (take mid (node_keys n)), median, Leaf right_keys)
         else
           (let right_children = drop (mid + 1) (node_children n);
                right_subtree_count = of_nat (length right_keys) + sum_list (map tree_count right_children)
            in (Inner (take mid (node_keys n)) (take (mid + 1) (node_children n))
                  (inner_count n + - (right_subtree_count + 1)),
                median, Inner right_keys right_children right_subtree_count)))"

definition merge_from_right :: "'a \<Rightarrow> 'a node \<Rightarrow> 'a node \<Rightarrow> 'a node" where
  "merge_from_right key right n =
     (let n1 = set_keys (node_keys n @ key # node_keys right) n in
      if is_leaf n then n1
      else increase_tree_count (tree_count right + 1)
        (set_children (node_children n @ node_children right) n1))"

text \<open>
  \<^verbatim>\<open>MergeOrRebalanceChild\<close>; the flag says that a child was merged away (the retired node is returned).
  The merged left node replaces the child to the left of the key that came down.
\<close>

definition merge_or_rebalance_child :: "nat \<Rightarrow> 'a node \<Rightarrow> 'a node \<times> bool" where
  "merge_or_rebalance_child pos n =
     (let node = child n pos; left = child n (pos - 1); right = child n (pos + 1) in
      if pos > 0 \<and> num_items left + 1 + num_items node \<le> max_items left then
        (shift_left (pos - 1) True
           (set_child (pos - 1) (merge_from_right (node_keys n ! (pos - 1)) node left) n), True)
      else if pos < num_items n then
        (if num_items node + 1 + num_items right \<le> max_items right then
           (shift_left pos True (set_child pos (merge_from_right (node_keys n ! pos) right node) n), True)
         else (rebalance_child_to_left (pos + 1) ((num_items right - num_items node) div 2) n, False))
      else (rebalance_child_to_right (pos - 1) ((num_items left - num_items node) div 2) n, False))"

section \<open>What a node stores\<close>

text \<open>Lists and keys in alternation, a list first.\<close>

fun weave :: "'a list list \<Rightarrow> 'a list \<Rightarrow> 'a list" where
  "weave [] ks = []"
| "weave (xs # xss) [] = xs"
| "weave (xs # xss) (k # ks) = xs @ k # weave xss ks"

fun inorder :: "'a node \<Rightarrow> 'a list" where
  "inorder (Leaf ks) = ks"
| "inorder (Inner ks cs c) = weave (map inorder cs) ks"

definition parts :: "'a node \<Rightarrow> 'a list list" where
  "parts n = (if is_leaf n then replicate (Suc (num_items n)) [] else map inorder (node_children n))"

lemma weave_join:
  "length xss = Suc (length ks) \<Longrightarrow> weave (xss @ yss) (ks @ k # ls) = weave xss ks @ k # weave yss ls"
proof (induction xss ks rule: weave.induct)
  case (2 xs xss)
  then show ?case by simp
qed auto

lemma weave_empty: "weave (replicate (Suc (length ks)) []) ks = ks"
  by (induction ks) auto

lemma weave_at:
  "i < length xss \<Longrightarrow> length xss = Suc (length ks) \<Longrightarrow>
   weave (xss[i := zs @ z # zs']) ks = weave (take i xss @ zs # zs' # drop (Suc i) xss) (take i ks @ z # drop i ks)"
proof (induction xss ks arbitrary: i rule: weave.induct)
  case (3 xs xss k ks)
  then show ?case by (cases i) auto
qed auto

lemma weave_slot:
  assumes "i < length xss" and "length xss = Suc (length ks)"
  shows "\<exists>a b. \<forall>z. weave (xss[i := z]) ks = a @ z @ b"
  using assms
proof (induction xss ks arbitrary: i rule: weave.induct)
  case (3 xs xss k ks)
  show ?case
  proof (cases i)
    case 0
    then show ?thesis by (auto intro: exI[of _ "[]"])
  next
    case (Suc j)
    have "\<exists>a b. \<forall>z. weave (xss[j := z]) ks = a @ z @ b"
      using "3.IH"[of j] "3.prems" Suc by simp
    then obtain a b where "\<forall>z. weave (xss[j := z]) ks = a @ z @ b" by blast
    then have "\<forall>z. weave ((xs # xss)[i := z]) (k # ks) = (xs @ k # a) @ z @ b" using Suc by simp
    then show ?thesis by blast
  qed
qed (auto intro: exI[of _ "[]"])

lemma inorder_weave: "inorder n = weave (parts n) (node_keys n)"
  by (cases n) (simp_all add: parts_def num_items_def weave_empty del: replicate_Suc)

section \<open>Well-formed nodes\<close>

text \<open>
  A node of height \<open>h\<close> whose stored subtree count is \<open>d\<close> above the number of items really below it: all
  leaves at the same depth, one child more than keys, and every node below it filled and exactly
  counted.  The offset \<open>d\<close> is what an insertion leaves behind while a split travels up.
\<close>

definition filled :: "'a node \<Rightarrow> bool" where
  "filled n \<longleftrightarrow> (if is_leaf n then 7 else 4) \<le> num_items n \<and> num_items n \<le> max_items n"

fun node_ok :: "nat \<Rightarrow> u32 \<Rightarrow> 'a node \<Rightarrow> bool" where
  "node_ok 0 d n \<longleftrightarrow> is_leaf n \<and> d = 0"
| "node_ok (Suc h) d n \<longleftrightarrow> \<not> is_leaf n \<and> length (node_children n) = Suc (num_items n)
     \<and> inner_count n = of_nat (length (inorder n)) + d
     \<and> (\<forall>c \<in> set (node_children n). node_ok h 0 c \<and> filled c)"

lemma length_parts: "node_ok h d n \<Longrightarrow> length (parts n) = Suc (num_items n)"
  by (cases h) (simp_all add: parts_def)

lemma tree_count_ok: "node_ok h d n \<Longrightarrow> tree_count n = of_nat (length (inorder n)) + d"
  by (cases h; cases n) (simp_all add: tree_count_def num_items_def)

lemma length_weave:
  "length xss = Suc (length ks) \<Longrightarrow> length (weave xss ks) = sum_list (map length xss) + length ks"
  by (induction xss ks rule: weave.induct) auto

lemma sum_tree_counts:
  "\<forall>c \<in> set cs. node_ok h 0 c \<Longrightarrow> sum_list (map tree_count cs) = of_nat (sum_list (map (length \<circ> inorder) cs))"
  by (induction cs) (auto dest: tree_count_ok)

lemma node_sel_simps [simp]:
  "node_keys (set_keys ks n) = ks" "node_children (set_keys ks n) = node_children n"
  "node_keys (set_children cs n) = node_keys n" "node_keys (set_tree_count c n) = node_keys n"
  "node_children (set_tree_count c n) = node_children n"
  "is_leaf (set_keys ks n) = is_leaf n" "is_leaf (set_children cs n) = is_leaf n"
  "is_leaf (set_tree_count c n) = is_leaf n"
  "\<not> is_leaf n \<Longrightarrow> inner_count (set_keys ks n) = inner_count n"
  "\<not> is_leaf n \<Longrightarrow> inner_count (set_children cs n) = inner_count n"
  "\<not> is_leaf n \<Longrightarrow> inner_count (set_tree_count c n) = c"
  "\<not> is_leaf n \<Longrightarrow> node_children (set_children cs n) = cs"
  "is_leaf n \<Longrightarrow> node_children n = []"
  by (cases n; simp)+

lemma num_items_simps [simp]:
  "num_items (set_keys ks n) = length ks" "num_items (set_children cs n) = num_items n"
  "num_items (set_tree_count c n) = num_items n" "num_items (Leaf ks) = length ks"
  "num_items (Inner ks cs c) = length ks"
  by (simp_all add: num_items_def)

lemma inorder_inner: "\<not> is_leaf n \<Longrightarrow> inorder n = weave (map inorder (node_children n)) (node_keys n)"
  by (cases n) simp_all

lemma inorder_leaf: "is_leaf n \<Longrightarrow> inorder n = node_keys n"
  by (cases n) simp_all

text \<open>An inner node is well-formed when its children are and its count is the sum.\<close>

lemma node_ok_inner:
  assumes "\<not> is_leaf n" and "length (node_children n) = Suc (num_items n)"
    and "\<forall>c \<in> set (node_children n). node_ok h 0 c \<and> filled c"
    and "inner_count n = sum_list (map tree_count (node_children n)) + of_nat (num_items n) + d"
  shows "node_ok (Suc h) d n"
proof -
  have "length (inorder n) = sum_list (map (length \<circ> inorder) (node_children n)) + num_items n"
    using assms(2) by (simp add: inorder_inner[OF assms(1)] length_weave num_items_def)
  then show ?thesis
    using assms sum_tree_counts[of "node_children n" h] by simp
qed

lemma inner_count_sum:
  assumes "node_ok (Suc h) d n"
  shows "inner_count n = sum_list (map tree_count (node_children n)) + of_nat (num_items n) + d"
proof -
  have "length (inorder n) = sum_list (map (length \<circ> inorder) (node_children n)) + num_items n"
    using assms by (simp add: inorder_inner length_weave num_items_def)
  then show ?thesis
    using assms sum_tree_counts[of "node_children n" h] by simp
qed

lemma increase_count_ok:
  assumes "node_ok (Suc h) d n"
  shows "node_ok (Suc h) (d + e) (increase_tree_count e n)"
    and "inorder (increase_tree_count e n) = inorder n" and "num_items (increase_tree_count e n) = num_items n"
    and "node_children (increase_tree_count e n) = node_children n"
    and "filled (increase_tree_count e n) = filled n"
  using assms by (cases n; simp add: increase_tree_count_def filled_def max_items_def)+

section \<open>Filling a slot\<close>

text \<open>The items of a node when what is below child \<open>i\<close> (or between the keys of a leaf) is replaced by \<open>z\<close>.\<close>

definition slot :: "'a node \<Rightarrow> nat \<Rightarrow> 'a list \<Rightarrow> 'a list" where
  "slot n i z = weave ((parts n)[i := z]) (node_keys n)"

lemma slot_split:
  assumes "node_ok h d n" and "i \<le> num_items n"
  obtains a b where "\<And>z. slot n i z = a @ z @ b"
  using weave_slot[of i "parts n" "node_keys n"] length_parts[OF assms(1)] assms(2)
  by (auto simp: slot_def num_items_def)

lemma slot_same: "node_ok h d n \<Longrightarrow> i \<le> num_items n \<Longrightarrow> slot n i (parts n ! i) = inorder n"
  by (simp add: slot_def inorder_weave[symmetric])

lemma parts_inner: "\<not> is_leaf n \<Longrightarrow> parts n = map inorder (node_children n)"
  by (simp add: parts_def)

lemma parts_leaf: "is_leaf n \<Longrightarrow> parts n = replicate (Suc (num_items n)) []"
  by (simp add: parts_def)

lemma leaf_insert_spec:
  assumes "is_leaf n" and "i \<le> num_items n"
  shows "inorder (leaf_insert i x n) = slot n i [x]" and "is_leaf (leaf_insert i x n)"
    and "num_items (leaf_insert i x n) = Suc (num_items n)"
proof -
  have "slot n i [x] = weave (take i (parts n) @ [] # [] # drop (Suc i) (parts n)) (take i (node_keys n) @ x # drop i (node_keys n))"
    using weave_at[of i "parts n" "node_keys n" "[]" x "[]"] assms by (simp add: slot_def parts_leaf num_items_def del: replicate_Suc)
  also have "take i (parts n) @ [] # [] # drop (Suc i) (parts n)
      = replicate (Suc (length (take i (node_keys n) @ x # drop i (node_keys n)))) []"
    using assms by (simp add: parts_leaf num_items_def min_def replicate_add[symmetric] replicate_app_Cons_same flip: replicate_Suc)
  finally show "inorder (leaf_insert i x n) = slot n i [x]"
    using assms weave_empty[of "take i (node_keys n) @ x # drop i (node_keys n)"]
    by (simp add: inorder_leaf leaf_insert_def del: replicate_Suc)
qed (use assms in \<open>simp_all add: leaf_insert_def num_items_def\<close>)

lemma inner_insert_spec:
  assumes "node_ok (Suc h) d n" and "i \<le> num_items n" and "node_ok h 0 r" and "filled r"
  shows "inorder (inner_insert i x r n) = slot n i (inorder (child n i) @ x # inorder r)"
    and "node_ok (Suc h) (d - tree_count r - 1) (inner_insert i x r n)"
    and "num_items (inner_insert i x r n) = Suc (num_items n)"
    and "is_leaf (inner_insert i x r n) = is_leaf n"
proof -
  let ?cs = "node_children n" and ?ks = "node_keys n"
  have n: "\<not> is_leaf n" "length ?cs = Suc (length ?ks)" "i < length ?cs" "i \<le> length ?ks"
    using assms by (simp_all add: num_items_def)
  show items: "num_items (inner_insert i x r n) = Suc (num_items n)"
    using n by (simp add: inner_insert_def num_items_def)
  show "inorder (inner_insert i x r n) = slot n i (inorder (child n i) @ x # inorder r)"
    using n weave_at[of i "map inorder ?cs" ?ks "inorder (?cs ! i)" x "inorder r"]
    by (simp add: inorder_inner inner_insert_def slot_def parts_inner child_def take_map drop_map
        take_Suc_conv_app_nth)
  have count: "sum_list (map tree_count ?cs) = sum_list (map tree_count (take (i + 1) ?cs))
      + sum_list (map tree_count (drop (i + 1) ?cs))"
    by (metis append_take_drop_id map_append sum_list_append)
  show "node_ok (Suc h) (d - tree_count r - 1) (inner_insert i x r n)"
  proof (rule node_ok_inner)
    show "\<forall>c \<in> set (node_children (inner_insert i x r n)). node_ok h 0 c \<and> filled c"
      using n assms by (auto simp: inner_insert_def dest: in_set_takeD in_set_dropD)
    show "inner_count (inner_insert i x r n) = sum_list (map tree_count (node_children (inner_insert i x r n)))
        + of_nat (num_items (inner_insert i x r n)) + (d - tree_count r - 1)"
      using n inner_count_sum[OF assms(1)] count items by (simp add: inner_insert_def)
  qed (use n in \<open>simp_all add: inner_insert_def num_items_def\<close>)
  show "is_leaf (inner_insert i x r n) = is_leaf n" using n by (simp add: inner_insert_def)
qed

section \<open>Moving items between siblings\<close>

lemma weave_move_left:
  assumes "length xss = Suc (length ks)" and "length yss = Suc (length ls)" and "1 \<le> c" and "c \<le> length ls"
  shows "weave (xss @ take c yss) (ks @ k # take (c - 1) ls) @ ls ! (c - 1) # weave (drop c yss) (drop c ls)
    = weave xss ks @ k # weave yss ls"
proof -
  have "weave (take c yss @ drop c yss) (take (c - 1) ls @ ls ! (c - 1) # drop c ls)
      = weave (take c yss) (take (c - 1) ls) @ ls ! (c - 1) # weave (drop c yss) (drop c ls)"
    using assms by (intro weave_join) simp
  moreover have "take (c - 1) ls @ ls ! (c - 1) # drop c ls = ls"
    using assms id_take_nth_drop[of "c - 1" ls] by simp
  ultimately show ?thesis
    using assms by (simp add: weave_join)
qed

lemma weave_move_right:
  assumes "length xss = Suc (length ks)" and "length yss = Suc (length ls)" and "m < length ks"
  shows "weave (take (Suc m) xss) (take m ks) @ ks ! m # weave (drop (Suc m) xss @ yss) (drop (Suc m) ks @ k # ls)
    = weave xss ks @ k # weave yss ls"
proof -
  have "weave (take (Suc m) xss @ drop (Suc m) xss) (take m ks @ ks ! m # drop (Suc m) ks)
      = weave (take (Suc m) xss) (take m ks) @ ks ! m # weave (drop (Suc m) xss) (drop (Suc m) ks)"
    using assms by (intro weave_join) simp
  moreover have "take m ks @ ks ! m # drop (Suc m) ks = ks"
    using assms id_take_nth_drop[of m ks] by simp
  ultimately show ?thesis
    using assms by (simp add: weave_join)
qed

lemma sum_split: "sum_list (map f xs) = sum_list (map f (take c xs)) + sum_list (map f (drop c xs))"
  for f :: "'a \<Rightarrow> 'b::comm_monoid_add"
  by (metis append_take_drop_id map_append sum_list_append)

lemma move_to_left_spec:
  assumes "node_ok h dl l" and "node_ok h dr r" and "1 \<le> c" and "c \<le> num_items r"
    and "move_to_left c l k r = (l', k', r')"
  shows "node_keys l' = node_keys l @ k # take (c - 1) (node_keys r)" and "parts l' = parts l @ take c (parts r)"
    and "node_keys r' = drop c (node_keys r)" and "parts r' = drop c (parts r)" and "k' = node_keys r ! (c - 1)"
    and "node_ok h dl l'" and "node_ok h dr r'"
    and "is_leaf l' = is_leaf l" and "is_leaf r' = is_leaf r"
    and "node_children l' = node_children l @ take c (node_children r)"
    and "node_children r' = drop c (node_children r)"
proof -
  have leaves: "is_leaf l = is_leaf r" using assms(1,2) by (cases h) simp_all
  have ks: "node_keys l' = node_keys l @ k # take (c - 1) (node_keys r)" "node_keys r' = drop c (node_keys r)"
      "k' = node_keys r ! (c - 1)" "is_leaf l' = is_leaf l" "is_leaf r' = is_leaf r"
    using assms(5) by (auto simp: move_to_left_def Let_def split: if_splits)
  have cs: "node_children l' = node_children l @ take c (node_children r)" "node_children r' = drop c (node_children r)"
    using assms(5) leaves by (auto simp: move_to_left_def Let_def split: if_splits)
  have ps: "parts l' = parts l @ take c (parts r)" "parts r' = drop c (parts r)"
    using assms(3,4) leaves ks cs
    by (auto simp: parts_def num_items_def take_map drop_map Suc_diff_le replicate_add[symmetric]
        simp flip: replicate_Suc)
  have ok: "node_ok h dl l' \<and> node_ok h dr r'"
  proof (cases h)
    case 0
    then show ?thesis using assms(1,2) ks by simp
  next
    case (Suc h')
    have in_l: "\<not> is_leaf l" "length (node_children l) = Suc (num_items l)"
        "\<forall>c \<in> set (node_children l). node_ok h' 0 c \<and> filled c"
      and in_r: "\<not> is_leaf r" "length (node_children r) = Suc (num_items r)"
        "\<forall>c \<in> set (node_children r). node_ok h' 0 c \<and> filled c"
      using assms(1,2) Suc by simp_all
    have counts: "inner_count l' = tree_count l + sum_list (map tree_count (take c (node_children r))) + of_nat c"
        "inner_count r' = tree_count r - sum_list (map tree_count (take c (node_children r))) - of_nat c"
      using assms(5) in_l in_r by (auto simp: move_to_left_def Let_def)
    have "node_ok (Suc h') dl l'"
    proof (rule node_ok_inner)
      show "inner_count l' = sum_list (map tree_count (node_children l')) + of_nat (num_items l') + dl"
        using counts in_l inner_count_sum[of h' dl l] assms(1,3,4) Suc ks cs
        by (simp add: tree_count_def num_items_def of_nat_diff)
    qed (use in_l in_r assms(3,4) ks cs in \<open>auto simp: num_items_def dest: in_set_takeD\<close>)
    moreover have "node_ok (Suc h') dr r'"
    proof (rule node_ok_inner)
      show "inner_count r' = sum_list (map tree_count (node_children r')) + of_nat (num_items r') + dr"
        using counts in_r inner_count_sum[of h' dr r] assms(2,3,4) Suc ks cs
          sum_split[of tree_count "node_children r" c]
        by (simp add: tree_count_def num_items_def of_nat_diff)
    qed (use in_r assms(3,4) ks cs in \<open>auto simp: num_items_def dest: in_set_dropD\<close>)
    ultimately show ?thesis using Suc by simp
  qed
  show "node_keys l' = node_keys l @ k # take (c - 1) (node_keys r)" "parts l' = parts l @ take c (parts r)"
    "node_keys r' = drop c (node_keys r)" "parts r' = drop c (parts r)" "k' = node_keys r ! (c - 1)"
    "node_ok h dl l'" "node_ok h dr r'" "is_leaf l' = is_leaf l" "is_leaf r' = is_leaf r"
    "node_children l' = node_children l @ take c (node_children r)"
    "node_children r' = drop c (node_children r)"
    using ks cs ps ok by simp_all
qed

lemma move_to_right_spec:
  assumes "node_ok h dl l" and "node_ok h dr r" and "1 \<le> c" and "c \<le> num_items l"
    and "move_to_right c l k r = (l', k', r')"
  defines "m \<equiv> num_items l - c"
  shows "node_keys l' = take m (node_keys l)" and "parts l' = take (Suc m) (parts l)"
    and "node_keys r' = drop (Suc m) (node_keys l) @ k # node_keys r"
    and "parts r' = drop (Suc m) (parts l) @ parts r" and "k' = node_keys l ! m"
    and "node_ok h dl l'" and "node_ok h dr r'"
    and "is_leaf l' = is_leaf l" and "is_leaf r' = is_leaf r"
    and "node_children l' = take (Suc m) (node_children l)"
    and "node_children r' = drop (Suc m) (node_children l) @ node_children r"
proof -
  have leaves: "is_leaf l = is_leaf r" using assms(1,2) by (cases h) simp_all
  have m: "num_items l - (c - 1) = Suc m" "num_items l - c + 1 = Suc m" "m < num_items l" "num_items l - m = c"
    using assms(3,4) by (auto simp: m_def)
  have ks: "node_keys l' = take m (node_keys l)" "node_keys r' = drop (Suc m) (node_keys l) @ k # node_keys r"
      "k' = node_keys l ! m" "is_leaf l' = is_leaf l" "is_leaf r' = is_leaf r"
    using assms(5) m by (auto simp: move_to_right_def Let_def m_def split: if_splits)
  have cs: "node_children l' = take (Suc m) (node_children l)"
      "node_children r' = drop (Suc m) (node_children l) @ node_children r"
    using assms(5) leaves m by (auto simp: move_to_right_def Let_def split: if_splits)
  have ps: "parts l' = take (Suc m) (parts l)" "parts r' = drop (Suc m) (parts l) @ parts r"
    using m leaves ks cs
    by (auto simp: parts_def num_items_def take_map drop_map min_def replicate_add[symmetric]
        simp flip: replicate_Suc)
  have ok: "node_ok h dl l' \<and> node_ok h dr r'"
  proof (cases h)
    case 0
    then show ?thesis using assms(1,2) ks by simp
  next
    case (Suc h')
    have in_l: "\<not> is_leaf l" "length (node_children l) = Suc (num_items l)"
        "\<forall>c \<in> set (node_children l). node_ok h' 0 c \<and> filled c"
      and in_r: "\<not> is_leaf r" "length (node_children r) = Suc (num_items r)"
        "\<forall>c \<in> set (node_children r). node_ok h' 0 c \<and> filled c"
      using assms(1,2) Suc by simp_all
    have counts: "inner_count l' = tree_count l - sum_list (map tree_count (drop (Suc m) (node_children l))) - of_nat c"
        "inner_count r' = tree_count r + sum_list (map tree_count (drop (Suc m) (node_children l))) + of_nat c"
      using assms(5) in_l in_r m by (auto simp: move_to_right_def Let_def)
    have "num_items l = m + c" using m(3,4) by linarith
    then have nl: "of_nat (num_items l) = of_nat m + (of_nat c :: u32)" by (simp only: of_nat_add)
    have "node_ok (Suc h') dl l'"
    proof (rule node_ok_inner)
      show "inner_count l' = sum_list (map tree_count (node_children l')) + of_nat (num_items l') + dl"
        using counts in_l inner_count_sum[of h' dl l] assms(1) Suc ks cs nl m
          sum_split[of tree_count "node_children l" "Suc m"]
        by (simp add: tree_count_def num_items_def min_def)
    qed (use in_l m ks cs in \<open>auto simp: num_items_def dest: in_set_takeD\<close>)
    moreover have "node_ok (Suc h') dr r'"
    proof (rule node_ok_inner)
      have "num_items r' = num_items r + c" using ks m by (simp add: num_items_def)
      then show "inner_count r' = sum_list (map tree_count (node_children r')) + of_nat (num_items r') + dr"
        using counts in_r inner_count_sum[of h' dr r] assms(2) Suc ks cs by (simp add: tree_count_def)
    qed (use in_l in_r m ks cs in \<open>auto simp: num_items_def dest: in_set_dropD\<close>)
    ultimately show ?thesis using Suc by simp
  qed
  show "node_keys l' = take m (node_keys l)" "parts l' = take (Suc m) (parts l)"
    "node_keys r' = drop (Suc m) (node_keys l) @ k # node_keys r"
    "parts r' = drop (Suc m) (parts l) @ parts r" "k' = node_keys l ! m"
    "node_ok h dl l'" "node_ok h dr r'" "is_leaf l' = is_leaf l" "is_leaf r' = is_leaf r"
    "node_children l' = take (Suc m) (node_children l)"
    "node_children r' = drop (Suc m) (node_children l) @ node_children r"
    using ks cs ps ok by simp_all
qed

text \<open>What the moves do to the items, also when one slot is filled with something else.\<close>

lemma move_to_left_items:
  assumes "node_ok h dl l" and "node_ok h dr r" and "1 \<le> c" and "c \<le> num_items r"
    and "move_to_left c l k r = (l', k', r')"
  shows "inorder l' @ k' # inorder r' = inorder l @ k # inorder r"
    and "i < c \<Longrightarrow> slot l' (num_items l + 1 + i) z @ k' # inorder r' = inorder l @ k # slot r i z"
    and "c \<le> i \<Longrightarrow> i \<le> num_items r \<Longrightarrow> inorder l' @ k' # slot r' (i - c) z = inorder l @ k # slot r i z"
    and "num_items l' = num_items l + c" and "num_items r' = num_items r - c"
proof -
  note spec = move_to_left_spec[OF assms]
  note lens = length_parts[OF assms(1)] length_parts[OF assms(2)]
  have weave: "weave (parts l @ take c yss) (node_keys l @ k # take (c - 1) (node_keys r))
        @ node_keys r ! (c - 1) # weave (drop c yss) (drop c (node_keys r)) = inorder l @ k # weave yss (node_keys r)"
    if "length yss = length (parts r)" for yss
    using weave_move_left[of "parts l" "node_keys l" yss "node_keys r" c k] that lens assms(3,4)
    by (simp add: inorder_weave num_items_def)
  show "inorder l' @ k' # inorder r' = inorder l @ k # inorder r"
    using weave[of "parts r"] spec by (simp add: inorder_weave)
  show "slot l' (num_items l + 1 + i) z @ k' # inorder r' = inorder l @ k # slot r i z" if "i < c"
    using weave[of "(parts r)[i := z]"] spec that lens
    by (simp add: slot_def inorder_weave[of r'] list_update_append take_update_swap)
  show "inorder l' @ k' # slot r' (i - c) z = inorder l @ k # slot r i z" if "c \<le> i" "i \<le> num_items r"
    using weave[of "(parts r)[i := z]"] spec that lens
    by (simp add: slot_def inorder_weave[of l'] drop_update_swap)
  show "num_items l' = num_items l + c" "num_items r' = num_items r - c"
    using spec(1,3) assms(3,4) by (simp_all add: num_items_def)
qed

lemma move_to_right_items:
  assumes "node_ok h dl l" and "node_ok h dr r" and "1 \<le> c" and "c \<le> num_items l"
    and "move_to_right c l k r = (l', k', r')"
  shows "inorder l' @ k' # inorder r' = inorder l @ k # inorder r"
    and "i \<le> num_items l' \<Longrightarrow> slot l' i z @ k' # inorder r' = slot l i z @ k # inorder r"
    and "num_items l' < i \<Longrightarrow> i \<le> num_items l \<Longrightarrow>
      inorder l' @ k' # slot r' (i - (num_items l' + 1)) z = slot l i z @ k # inorder r"
    and "num_items l' = num_items l - c" and "num_items r' = num_items r + c"
proof -
  note spec = move_to_right_spec[OF assms]
  note lens = length_parts[OF assms(1)] length_parts[OF assms(2)]
  let ?m = "num_items l - c"
  have weave: "weave (take (Suc ?m) xss) (take ?m (node_keys l)) @ node_keys l ! ?m
        # weave (drop (Suc ?m) xss @ parts r) (drop (Suc ?m) (node_keys l) @ k # node_keys r)
      = weave xss (node_keys l) @ k # inorder r"
    if "length xss = length (parts l)" for xss
    using weave_move_right[of xss "node_keys l" "parts r" "node_keys r" ?m k] that lens assms(3,4)
    by (simp add: inorder_weave num_items_def)
  show items: "num_items l' = ?m" "num_items r' = num_items r + c"
    using spec(1,3) assms(3,4) by (simp_all add: num_items_def)
  show "inorder l' @ k' # inorder r' = inorder l @ k # inorder r"
    using weave[of "parts l"] spec by (simp add: inorder_weave)
  show "slot l' i z @ k' # inorder r' = slot l i z @ k # inorder r" if "i \<le> num_items l'"
    using weave[of "(parts l)[i := z]"] spec that lens items
    by (simp add: slot_def inorder_weave[of r'] take_update_swap)
  show "inorder l' @ k' # slot r' (i - (num_items l' + 1)) z = slot l i z @ k # inorder r"
    if "num_items l' < i" "i \<le> num_items l"
  proof -
    have "i - Suc ?m < num_items l - ?m" using that items assms(3,4) by linarith
    then show ?thesis
      using weave[of "(parts l)[i := z]"] spec that lens items
      by (simp add: slot_def inorder_weave[of l'] drop_update_swap list_update_append)
  qed
qed

section \<open>Two neighbours in their parent\<close>

text \<open>Children \<open>p\<close>, \<open>p + 1\<close> and the key between them, replaced.\<close>

definition put_pair :: "nat \<Rightarrow> 'a node \<Rightarrow> 'a \<Rightarrow> 'a node \<Rightarrow> 'a node \<Rightarrow> 'a node" where
  "put_pair p l k r n = set_child (Suc p) r (set_child p l (set_key p k n))"

text \<open>The items of the parent as a function of those of the two children and the key.\<close>

definition pair_slot :: "'a node \<Rightarrow> nat \<Rightarrow> 'a list \<Rightarrow> 'a list" where
  "pair_slot n p z = weave (take p (parts n) @ z # drop (p + 2) (parts n))
     (take p (node_keys n) @ drop (Suc p) (node_keys n))"

definition is_inner :: "'a node \<Rightarrow> bool" where
  "is_inner n \<longleftrightarrow> \<not> is_leaf n \<and> length (node_children n) = Suc (num_items n)"

lemma is_inner_simps [simp]:
  "is_inner n \<Longrightarrow> \<not> is_leaf n" "is_inner n \<Longrightarrow> length (node_children n) = Suc (num_items n)"
  "is_inner n \<Longrightarrow> length (node_keys n) = num_items n" "is_inner n \<Longrightarrow> length (parts n) = Suc (num_items n)"
  by (simp_all add: is_inner_def num_items_def parts_inner)

lemma weave_pair:
  "Suc p < length xss \<Longrightarrow> length xss = Suc (length ks) \<Longrightarrow>
   weave (xss[p := a, Suc p := b]) (ks[p := k])
     = weave (take p xss @ (a @ k # b) # drop (p + 2) xss) (take p ks @ drop (Suc p) ks)"
proof (induction xss ks arbitrary: p rule: weave.induct)
  case (3 xs xss k' ks)
  show ?case
  proof (cases p)
    case 0
    then show ?thesis using 3 by (cases xss; cases ks) auto
  next
    case (Suc j)
    then show ?thesis using "3.IH"[of j] "3.prems" by simp
  qed
qed auto

lemma put_pair_sel:
  assumes "is_inner n"
  shows "node_children (put_pair p l k r n) = (node_children n)[p := l, Suc p := r]"
    and "node_keys (put_pair p l k r n) = (node_keys n)[p := k]"
    and "inner_count (put_pair p l k r n) = inner_count n" and "num_items (put_pair p l k r n) = num_items n"
    and "is_inner (put_pair p l k r n)"
    and "parts (put_pair p l k r n) = (parts n)[p := inorder l, Suc p := inorder r]"
  using assms by (cases n; simp add: put_pair_def set_child_def set_key_def is_inner_def parts_def map_update)+

lemma put_pair_id:
  assumes "is_inner n" and "p < num_items n"
  shows "put_pair p (child n p) (node_keys n ! p) (child n (Suc p)) n = n"
  using assms by (cases n) (simp_all add: put_pair_def set_child_def set_key_def child_def)

lemma put_pair_slots:
  assumes "is_inner n" and "p < num_items n"
  shows "slot (put_pair p l k r n) p z = pair_slot n p (z @ k # inorder r)"
    and "slot (put_pair p l k r n) (Suc p) z = pair_slot n p (inorder l @ k # z)"
    and "inorder (put_pair p l k r n) = pair_slot n p (inorder l @ k # inorder r)"
proof -
  have w: "weave ((parts n)[p := a, Suc p := b]) ((node_keys n)[p := k]) = pair_slot n p (a @ k # b)" for a b
    unfolding pair_slot_def using assms by (intro weave_pair) simp_all
  show "slot (put_pair p l k r n) p z = pair_slot n p (z @ k # inorder r)"
    using w[of z "inorder r"] by (simp add: slot_def put_pair_sel[OF assms(1)] list_update_swap)
  show "slot (put_pair p l k r n) (Suc p) z = pair_slot n p (inorder l @ k # z)"
    using w[of "inorder l" z] by (simp add: slot_def put_pair_sel[OF assms(1)])
  show "inorder (put_pair p l k r n) = pair_slot n p (inorder l @ k # inorder r)"
    using w[of "inorder l" "inorder r"] by (simp add: inorder_weave[of "put_pair p l k r n"] put_pair_sel[OF assms(1)])
qed

lemma pair_slots:
  assumes "is_inner n" and "p < num_items n"
  shows "slot n p z = pair_slot n p (z @ node_keys n ! p # inorder (child n (Suc p)))"
    and "slot n (Suc p) z = pair_slot n p (inorder (child n p) @ node_keys n ! p # z)"
    and "inorder n = pair_slot n p (inorder (child n p) @ node_keys n ! p # inorder (child n (Suc p)))"
  using put_pair_slots[OF assms, of "child n p" "node_keys n ! p" "child n (Suc p)"]
  unfolding put_pair_id[OF assms] by simp_all

lemma child_put_pair:
  assumes "is_inner n" and "p < num_items n"
  shows "child (put_pair p l k r n) p = l" and "child (put_pair p l k r n) (Suc p) = r"
    and "i \<noteq> p \<Longrightarrow> i \<noteq> Suc p \<Longrightarrow> child (put_pair p l k r n) i = child n i"
  using assms by (simp_all add: child_def put_pair_sel)

lemma rebalance_to_left_pair:
  "rebalance_child_to_left (Suc p) c n =
     (let (l, k, r) = move_to_left c (child n p) (node_keys n ! p) (child n (Suc p)) in put_pair p l k r n)"
  by (simp add: rebalance_child_to_left_def put_pair_def)

lemma rebalance_to_right_pair:
  "rebalance_child_to_right p c n =
     (let (l, k, r) = move_to_right c (child n p) (node_keys n ! p) (child n (Suc p)) in put_pair p l k r n)"
  by (simp add: rebalance_child_to_right_def put_pair_def)

section \<open>Rebalancing a full child\<close>

text \<open>An inner node whose child \<open>pos\<close> has count offset \<open>d\<close>, all else in order.\<close>

definition family :: "nat \<Rightarrow> u32 \<Rightarrow> nat \<Rightarrow> 'a node \<Rightarrow> bool" where
  "family h d pos n \<longleftrightarrow> is_inner n \<and> pos \<le> num_items n
     \<and> (\<forall>i \<le> num_items n. node_ok h (if i = pos then d else 0) (child n i) \<and> (i \<noteq> pos \<longrightarrow> filled (child n i)))"

text \<open>Has room for an item and is filled once it has it.\<close>

definition near_filled :: "'a node \<Rightarrow> bool" where
  "near_filled n \<longleftrightarrow> (if is_leaf n then 7 else 4) \<le> Suc (num_items n) \<and> num_items n < max_items n"

text \<open>
  The contract of \<^verbatim>\<open>RebalanceChild\<close>: the slot it returns is the slot it was given, seen from the
  rebalanced parent, and lies in a node with room.
\<close>

definition rebalanced :: "nat \<Rightarrow> u32 \<Rightarrow> nat \<Rightarrow> nat \<Rightarrow> 'a node \<Rightarrow> 'a node \<Rightarrow> nat \<Rightarrow> nat \<Rightarrow> bool" where
  "rebalanced h d pos i n n' q j \<longleftrightarrow>
     is_inner n' \<and> num_items n' = num_items n \<and> inner_count n' = inner_count n
     \<and> q \<le> num_items n \<and> j \<le> num_items (child n' q) \<and> near_filled (child n' q)
     \<and> (\<forall>p \<le> num_items n. node_ok h (if p = pos then d else 0) (child n' p) \<and> (p \<noteq> q \<longrightarrow> filled (child n' p)))
     \<and> (\<forall>z. slot n' q (slot (child n' q) j z) = slot n pos (slot (child n pos) i z))
     \<and> (\<not> is_leaf (child n pos) \<longrightarrow> child (child n' q) j = child (child n pos) i)
     \<and> is_leaf (child n' q) = is_leaf (child n pos)"

lemma moves_for_insert_bounds:
  "moves_for_insert free e \<noteq> 0 \<Longrightarrow>
     1 \<le> moves_for_insert free e \<and> moves_for_insert free e \<le> free
     \<and> (\<not> e \<longrightarrow> moves_for_insert free e = free div 2)"
  by (auto simp: moves_for_insert_def split: if_splits)

lemma familyD:
  assumes "family h d pos n"
  shows "is_inner n" "pos \<le> num_items n" "node_ok h d (child n pos)"
    and "i \<le> num_items n \<Longrightarrow> i \<noteq> pos \<Longrightarrow> node_ok h 0 (child n i) \<and> filled (child n i)"
  using assms by (auto simp: family_def)

lemma leaf_height: "node_ok h d n \<Longrightarrow> is_leaf n \<longleftrightarrow> h = 0"
  by (cases h) simp_all

text \<open>
  The sizes: with the capacities at hand, a full node gives up \<open>c\<close> items to a sibling of \<open>a\<close> and both
  stay filled.
\<close>

lemma sizes_after_move:
  fixes a c mx lo :: nat
  assumes "lo = 7 \<and> mx = 15 \<or> lo = 4 \<and> mx = 10" and "lo \<le> a" and "1 \<le> c" and "c \<le> mx - a"
    and "e \<or> c = (mx - a) div 2"
  shows "a + c \<le> mx \<and> lo \<le> Suc (mx - c) \<and> mx - c < mx"
    and "\<not> e \<Longrightarrow> a + c < mx \<and> lo \<le> mx - c"
proof -
  show "a + c \<le> mx \<and> lo \<le> Suc (mx - c) \<and> mx - c < mx" using assms(1-4) by auto
  assume "\<not> e"
  then have "2 * c \<le> mx - a" using assms(5) by simp
  then show "a + c < mx \<and> lo \<le> mx - c" using assms(1-4) by auto
qed

lemma rebalance_left_spec:
  assumes fam: "family h d (Suc p) n" and full: "num_items (child n (Suc p)) = max_items (child n (Suc p))"
    and i: "i \<le> num_items (child n (Suc p))"
    and c: "c = moves_for_insert (available_slots (child n p)) (i = num_items (child n (Suc p)))" "c \<noteq> 0"
    and n': "n' = rebalance_child_to_left (Suc p) c n"
  shows "if i < c then rebalanced h d (Suc p) i n n' p (num_items (child n p) + i + 1)
    else rebalanced h d (Suc p) i n n' (Suc p) (i - c)"
proof -
  let ?l = "child n p" and ?r = "child n (Suc p)" and ?k = "node_keys n ! p"
  obtain l k r where mv: "move_to_left c ?l ?k ?r = (l, k, r)" by (cases "move_to_left c ?l ?k ?r")
  have n: "is_inner n" "p < num_items n" using familyD[OF fam] by simp_all
  have ok: "node_ok h 0 ?l" "filled ?l" "node_ok h d ?r" using familyD[OF fam] n by simp_all
  have leaf: "is_leaf ?l \<longleftrightarrow> h = 0" "is_leaf ?r \<longleftrightarrow> h = 0" using ok leaf_height by blast+
  have cb: "1 \<le> c" "c \<le> available_slots ?l" "i \<noteq> num_items ?r \<Longrightarrow> c = available_slots ?l div 2"
    using moves_for_insert_bounds c by blast+
  have "c \<le> num_items ?r" "num_items ?l + c \<le> max_items ?l"
    using cb ok(2) full leaf by (auto simp: available_slots_def filled_def max_items_def)
  note spec = move_to_left_spec[OF ok(1,3) cb(1) this(1) mv]
    and items = move_to_left_items[OF ok(1,3) cb(1) this(1) mv] and room = this(2)
  have eq: "n' = put_pair p l k r n" using n' mv by (simp add: rebalance_to_left_pair)
  note sel = put_pair_sel[OF n(1), of p l k r] and ch = child_put_pair[OF n, where l = l and k = k and r = r]
  have leaves: "is_leaf l \<longleftrightarrow> h = 0" "is_leaf r \<longleftrightarrow> h = 0" using spec leaf by simp_all
  define lo mx where "lo = (if h = 0 then 7 else 4 :: nat)" and "mx = (if h = 0 then 15 else 10 :: nat)"
  have sz: "lo = 7 \<and> mx = 15 \<or> lo = 4 \<and> mx = 10" "max_items ?l = mx" "max_items ?r = mx" "max_items l = mx" "max_items r = mx"
    using leaf leaves by (auto simp: lo_def mx_def max_items_def)
  have lower: "lo \<le> num_items ?l" "filled m \<longleftrightarrow> lo \<le> num_items m \<and> num_items m \<le> mx"
    "near_filled m \<longleftrightarrow> lo \<le> Suc (num_items m) \<and> num_items m < mx" if "is_leaf m \<longleftrightarrow> h = 0" for m
    using ok(2) leaf that by (auto simp: lo_def mx_def filled_def near_filled_def max_items_def)
  have av: "c \<le> mx - num_items ?l" and half: "i = num_items ?r \<or> c = (mx - num_items ?l) div 2"
    using cb sz by (auto simp: available_slots_def)
  note szs = sizes_after_move[OF sz(1) lower(1)[OF leaves(1)] cb(1) av half]
  have nums: "num_items l = num_items ?l + c" "num_items r = mx - c" "num_items ?r = mx"
    using items(4,5) full sz(3) by simp_all
  have fill: "if i < c then near_filled l \<and> filled r else filled l \<and> near_filled r"
  proof (cases "i < c")
    case True
    then have "i \<noteq> num_items ?r" using av nums(3) by linarith
    from szs(1) szs(2)[OF this] lower(1)[OF leaves(1)] True show ?thesis
      unfolding lower(2,3)[OF leaves(1)] lower(2,3)[OF leaves(2)] nums(1,2) by auto
  next
    case False
    from szs(1) lower(1)[OF leaves(1)] False show ?thesis
      unfolding lower(2,3)[OF leaves(1)] lower(2,3)[OF leaves(2)] nums(1,2) by auto
  qed
  have chn: "child n' p = l" "child n' (Suc p) = r"
    and seln: "is_inner n'" "num_items n' = num_items n" "inner_count n' = inner_count n"
    using ch sel by (simp_all add: eq)
  have others: "node_ok h (if q = Suc p then d else 0) (child n' q)
      \<and> (q \<noteq> p \<longrightarrow> q \<noteq> Suc p \<longrightarrow> filled (child n' q))" if "q \<le> num_items n" for q
    using familyD(4)[OF fam, of q] spec(6,7) ch(1,2) ch(3)[of q] that
    by (cases "q = p"; cases "q = Suc p") (simp_all add: eq)
  show ?thesis
  proof (cases "i < c")
    case True
    have "child l (num_items ?l + i + 1) = child ?r i" if "\<not> is_leaf ?r"
    proof -
      have "length (node_children ?l) = Suc (num_items ?l)" using ok(1) leaf that by (cases h) simp_all
      then show ?thesis using True spec(10) by (simp add: child_def nth_append)
    qed
    moreover have "slot n' p (slot l (num_items ?l + i + 1) z) = slot n (Suc p) (slot ?r i z)" for z
      using items(2)[OF True, of z] put_pair_slots(1)[OF n] pair_slots(2)[OF n] by (simp add: eq)
    moreover have "q \<noteq> p \<longrightarrow> filled (child n' q)" if "q \<le> num_items n" for q
      using others[OF that] fill True chn by (cases "q = Suc p") simp_all
    moreover have "near_filled l" using fill True by simp
    ultimately show ?thesis
      using True n seln others leaf leaves chn items(4) by (simp add: rebalanced_def)
  next
    case False
    have "child r (i - c) = child ?r i" if "\<not> is_leaf ?r"
      using False i spec(11) that ok(3) leaf by (cases h) (simp_all add: child_def)
    moreover have "slot n' (Suc p) (slot r (i - c) z) = slot n (Suc p) (slot ?r i z)" for z
      using items(3)[of i z] False i put_pair_slots(2)[OF n] pair_slots(2)[OF n] by (simp add: eq)
    moreover have "q \<noteq> Suc p \<longrightarrow> filled (child n' q)" if "q \<le> num_items n" for q
      using others[OF that] fill False chn by (cases "q = p") simp_all
    moreover have "near_filled r" using fill False by simp
    moreover have "i - c \<le> num_items r" using i items(5) by simp
    ultimately show ?thesis
      using False n seln others leaf leaves chn by (simp add: rebalanced_def)
  qed
qed

lemma rebalance_right_spec:
  assumes fam: "family h d p n" and p: "p < num_items n" and full: "num_items (child n p) = max_items (child n p)"
    and i: "i \<le> num_items (child n p)"
    and c: "c = moves_for_insert (available_slots (child n (Suc p))) (i = 0)" "c \<noteq> 0"
    and n': "n' = rebalance_child_to_right p c n"
  shows "if i > num_items (child n' p) then rebalanced h d p i n n' (Suc p) (i - (num_items (child n' p) + 1))
    else rebalanced h d p i n n' p i"
proof -
  let ?l = "child n p" and ?r = "child n (Suc p)" and ?k = "node_keys n ! p"
  obtain l k r where mv: "move_to_right c ?l ?k ?r = (l, k, r)" by (cases "move_to_right c ?l ?k ?r")
  have n: "is_inner n" "p < num_items n" using familyD[OF fam] p by simp_all
  have ok: "node_ok h d ?l" "node_ok h 0 ?r" "filled ?r" using familyD[OF fam] n by simp_all
  have leaf: "is_leaf ?l \<longleftrightarrow> h = 0" "is_leaf ?r \<longleftrightarrow> h = 0" using ok leaf_height by blast+
  have cb: "1 \<le> c" "c \<le> available_slots ?r" "i \<noteq> 0 \<Longrightarrow> c = available_slots ?r div 2"
    using moves_for_insert_bounds c by blast+
  have "c \<le> num_items ?l"
    using cb ok(3) full leaf by (auto simp: available_slots_def filled_def max_items_def)
  note spec = move_to_right_spec[OF ok(1,2) cb(1) this mv]
    and items = move_to_right_items[OF ok(1,2) cb(1) this mv]
  have eq: "n' = put_pair p l k r n" using n' mv by (simp add: rebalance_to_right_pair)
  note sel = put_pair_sel[OF n(1), of p l k r] and ch = child_put_pair[OF n, where l = l and k = k and r = r]
  have leaves: "is_leaf l \<longleftrightarrow> h = 0" "is_leaf r \<longleftrightarrow> h = 0" using spec leaf by simp_all
  define lo mx where "lo = (if h = 0 then 7 else 4 :: nat)" and "mx = (if h = 0 then 15 else 10 :: nat)"
  have sz: "lo = 7 \<and> mx = 15 \<or> lo = 4 \<and> mx = 10" "max_items ?l = mx" "max_items ?r = mx"
    using leaf by (auto simp: lo_def mx_def max_items_def)
  have lower: "lo \<le> num_items ?r" "filled m \<longleftrightarrow> lo \<le> num_items m \<and> num_items m \<le> mx"
    "near_filled m \<longleftrightarrow> lo \<le> Suc (num_items m) \<and> num_items m < mx" if "is_leaf m \<longleftrightarrow> h = 0" for m
    using ok(3) leaf that by (auto simp: lo_def mx_def filled_def near_filled_def max_items_def)
  have av: "c \<le> mx - num_items ?r" and half: "i = 0 \<or> c = (mx - num_items ?r) div 2"
    using cb sz by (auto simp: available_slots_def)
  note szs = sizes_after_move[OF sz(1) lower(1)[OF leaves(1)] cb(1) av half]
  have nums: "num_items l = mx - c" "num_items r = num_items ?r + c" "num_items ?l = mx"
    using items(4,5) full sz(2) by simp_all
  have chn: "child n' p = l" "child n' (Suc p) = r"
    and seln: "is_inner n'" "num_items n' = num_items n" "inner_count n' = inner_count n"
    using ch sel by (simp_all add: eq)
  have fill: "if i > num_items l then filled l \<and> near_filled r else near_filled l \<and> filled r"
  proof (cases "i > num_items l")
    case True
    then have "i \<noteq> 0" by simp
    from szs(1) szs(2)[OF this] lower(1)[OF leaves(1)] True show ?thesis
      unfolding lower(2,3)[OF leaves(1)] lower(2,3)[OF leaves(2)] nums(1,2) by auto
  next
    case False
    from szs(1) lower(1)[OF leaves(1)] False show ?thesis
      unfolding lower(2,3)[OF leaves(1)] lower(2,3)[OF leaves(2)] nums(1,2) by auto
  qed
  have others: "node_ok h (if q = p then d else 0) (child n' q)
      \<and> (q \<noteq> p \<longrightarrow> q \<noteq> Suc p \<longrightarrow> filled (child n' q))" if "q \<le> num_items n" for q
    using familyD(4)[OF fam, of q] spec(6,7) ch(1,2) ch(3)[of q] that
    by (cases "q = p"; cases "q = Suc p") (simp_all add: eq)
  show ?thesis
  proof (cases "i > num_items l")
    case True
    have "child r (i - (num_items l + 1)) = child ?l i" if "\<not> is_leaf ?l"
    proof -
      have len: "length (node_children ?l) = Suc (num_items ?l)" using ok(1) leaf that by (cases h) simp_all
      have "i - (num_items l + 1) < length (drop (Suc (num_items ?l - c)) (node_children ?l))"
        using True i nums len by simp
      then show ?thesis using True spec(11) nums i len by (simp add: child_def nth_append)
    qed
    moreover have "slot n' (Suc p) (slot r (i - (num_items l + 1)) z) = slot n p (slot ?l i z)" for z
      using items(3)[of i z] True i put_pair_slots(2)[OF n] pair_slots(1)[OF n] by (simp add: eq)
    moreover have "q \<noteq> Suc p \<longrightarrow> filled (child n' q)" if "q \<le> num_items n" for q
      using others[OF that] fill True chn by (cases "q = p") simp_all
    moreover have "near_filled r" using fill True by simp
    moreover have "i - (num_items l + 1) \<le> num_items r" using i nums szs(1) by linarith
    ultimately show ?thesis
      using True n seln others leaf leaves chn by (simp add: rebalanced_def)
  next
    case False
    have "child l i = child ?l i"
      using False spec(10) nums by (simp add: child_def)
    moreover have "slot n' p (slot l i z) = slot n p (slot ?l i z)" for z
      using items(2)[of i z] False put_pair_slots(1)[OF n] pair_slots(1)[OF n] by (simp add: eq)
    moreover have "q \<noteq> p \<longrightarrow> filled (child n' q)" if "q \<le> num_items n" for q
      using others[OF that] fill False chn by (cases "q = Suc p") simp_all
    moreover have "near_filled l" using fill False by simp
    ultimately show ?thesis
      using False n seln others leaf leaves chn by (simp add: rebalanced_def)
  qed
qed

lemma rebalance_child_spec:
  assumes fam: "family h d pos n" and full: "num_items (child n pos) = max_items (child n pos)"
    and i: "i \<le> num_items (child n pos)" and some: "rebalance_child pos i n = Some (n', q, j)"
  shows "rebalanced h d pos i n n' q j"
proof -
  have right: "rebalanced h d pos i n n' q j" if "rebalance_right pos i n = Some (n', q, j)"
  proof -
    define c where "c = moves_for_insert (available_slots (child n (pos + 1))) (i = 0)"
    define m where "m = rebalance_child_to_right pos c n"
    have "rebalance_right pos i n = (if pos < num_items n then if c \<noteq> 0 then
        Some (if i > num_items (child m pos) then (m, pos + 1, i - (num_items (child m pos) + 1)) else (m, pos, i))
        else None else None)"
      unfolding rebalance_right_def Let_def m_def c_def by (rule refl)
    then have "pos < num_items n" "c \<noteq> 0"
      "(if i > num_items (child m pos) then (m, pos + 1, i - (num_items (child m pos) + 1)) else (m, pos, i)) = (n', q, j)"
      using that by (simp_all split: if_splits)
    then show ?thesis
      using rebalance_right_spec[OF fam _ full i c_def[unfolded Suc_eq_plus1[symmetric]] _ m_def]
      by (cases "i > num_items (child m pos)") auto
  qed
  show ?thesis
  proof (cases pos)
    case 0
    then show ?thesis using some right by (simp add: rebalance_child_def)
  next
    case (Suc p)
    define c where "c = moves_for_insert (available_slots (child n (pos - 1))) (i = num_items (child n pos))"
    define m where "m = rebalance_child_to_left pos c n"
    have eq: "rebalance_child pos i n = (if pos > 0 then if c \<noteq> 0 then
        Some (if i < c then (m, pos - 1, num_items (child n (pos - 1)) + i + 1) else (m, pos, i - c))
        else rebalance_right pos i n else rebalance_right pos i n)"
      unfolding rebalance_child_def Let_def m_def c_def by (rule refl)
    show ?thesis
    proof (cases "c = 0")
      case True
      then show ?thesis using some right eq by (simp split: if_splits)
    next
      case False
      have "c = moves_for_insert (available_slots (child n p)) (i = num_items (child n (Suc p)))"
        and "m = rebalance_child_to_left (Suc p) c n"
        using Suc by (simp_all add: c_def m_def)
      from rebalance_left_spec[OF fam[unfolded Suc] full[unfolded Suc] i[unfolded Suc] this(1) False this(2)]
      show ?thesis
        using some eq False Suc by (cases "i < c") auto
    qed
  qed
qed

section \<open>Splitting a full node\<close>

lemma weave_split:
  assumes "length xss = Suc (length ks)" and "m < length ks"
  shows "weave (take (Suc m) xss) (take m ks) @ ks ! m # weave (drop (Suc m) xss) (drop (Suc m) ks) = weave xss ks"
proof -
  have "weave (take (Suc m) xss @ drop (Suc m) xss) (take m ks @ ks ! m # drop (Suc m) ks)
      = weave (take (Suc m) xss) (take m ks) @ ks ! m # weave (drop (Suc m) xss) (drop (Suc m) ks)"
    using assms by (intro weave_join) simp
  then show ?thesis using assms(2) id_take_nth_drop[of m ks] by simp
qed

lemma split_node_spec:
  assumes ok: "node_ok h d n" and full: "num_items n = max_items n" and split: "split_node n = (l, k, r)"
  shows "node_ok h d l" and "node_ok h 0 r" and "is_leaf l = is_leaf n" and "is_leaf r = is_leaf n"
    and "inorder l @ k # inorder r = inorder n"
    and "i \<le> num_items l \<Longrightarrow> slot l i z @ k # inorder r = slot n i z"
    and "i \<le> num_items l \<Longrightarrow> child l i = child n i"
    and "num_items l < i \<Longrightarrow> i \<le> num_items n \<Longrightarrow> inorder l @ k # slot r (i - num_items l - 1) z = slot n i z"
    and "num_items l < i \<Longrightarrow> i \<le> num_items n \<Longrightarrow> \<not> is_leaf n \<Longrightarrow> child r (i - num_items l - 1) = child n i"
    and "near_filled l" and "near_filled r" and "filled l" and "filled r"
    and "num_items l + num_items r + 1 = num_items n"
proof -
  let ?m = "num_items n div 2"
  have m: "?m < num_items n" using full by (simp add: max_items_def split: if_splits)
  have lens: "length (parts n) = Suc (length (node_keys n))" using length_parts[OF ok] by (simp add: num_items_def)
  have ks: "node_keys l = take ?m (node_keys n)" "node_keys r = drop (Suc ?m) (node_keys n)" "k = node_keys n ! ?m"
      "is_leaf l = is_leaf n" "is_leaf r = is_leaf n"
    using split by (auto simp: split_node_def Let_def split: if_splits)
  have cs: "node_children l = take (Suc ?m) (node_children n)" "node_children r = drop (Suc ?m) (node_children n)"
    using split by (auto simp: split_node_def Let_def split: if_splits)
  have ps: "parts l = take (Suc ?m) (parts n)" "parts r = drop (Suc ?m) (parts n)"
    using m ks cs
    by (auto simp: parts_def num_items_def take_map drop_map min_def Suc_diff_Suc simp flip: replicate_Suc)
  have nums: "num_items l = ?m" "num_items r = num_items n - Suc ?m"
    using ks m by (simp_all add: num_items_def)
  have weave: "weave (take (Suc ?m) xss) (node_keys l) @ k # weave (drop (Suc ?m) xss) (node_keys r) = weave xss (node_keys n)"
    if "length xss = length (parts n)" for xss
    using weave_split[of xss "node_keys n" ?m] that lens m ks by (simp add: num_items_def)
  have ok2: "node_ok h d l \<and> node_ok h 0 r"
  proof (cases h)
    case 0
    then show ?thesis using ok ks by simp
  next
    case (Suc h')
    have inn: "\<not> is_leaf n" "length (node_children n) = Suc (num_items n)"
        "\<forall>c \<in> set (node_children n). node_ok h' 0 c \<and> filled c"
      using ok Suc by simp_all
    have counts: "inner_count r = of_nat (num_items r) + sum_list (map tree_count (node_children r))"
        "inner_count l = inner_count n - inner_count r - 1"
      using split inn(1) ks(2) by (auto simp: split_node_def Let_def num_items_def)
    have "node_ok (Suc h') 0 r"
      using inn ks cs m nums counts by (intro node_ok_inner) (auto dest: in_set_dropD)
    moreover have "num_items n = ?m + num_items r + 1" using nums m by simp
    then have "of_nat (num_items n) = of_nat ?m + of_nat (num_items r) + (1 :: u32)"
      by (metis of_nat_1 of_nat_add)
    then have "inner_count l = sum_list (map tree_count (node_children l)) + of_nat (num_items l) + d"
      using counts inner_count_sum[of h' d n] ok Suc sum_split[of tree_count "node_children n" "Suc ?m"] cs nums by simp
    then have "node_ok (Suc h') d l"
      using inn ks cs m nums by (intro node_ok_inner) (auto dest: in_set_takeD)
    ultimately show ?thesis using Suc by simp
  qed
  show "inorder l @ k # inorder r = inorder n"
    using weave[of "parts n"] ps by (simp add: inorder_weave)
  show "slot l i z @ k # inorder r = slot n i z" if "i \<le> num_items l"
    using weave[of "(parts n)[i := z]"] ps that nums by (simp add: slot_def inorder_weave[of r] take_update_swap)
  show "inorder l @ k # slot r (i - num_items l - 1) z = slot n i z" if "num_items l < i" "i \<le> num_items n"
    using weave[of "(parts n)[i := z]"] ps that nums by (simp add: slot_def inorder_weave[of l] drop_update_swap)
  show "child l i = child n i" if "i \<le> num_items l"
    using that nums cs by (simp add: child_def)
  show "child r (i - num_items l - 1) = child n i" if "num_items l < i" "i \<le> num_items n" "\<not> is_leaf n"
  proof -
    have "length (node_children n) = Suc (num_items n)" using ok that(3) by (cases h) simp_all
    then show ?thesis using that nums cs m by (simp add: child_def)
  qed
  show "near_filled l" "near_filled r" "filled l" "filled r"
    using full nums ks(4,5) by (auto simp: near_filled_def filled_def max_items_def split: if_splits)
  show "num_items l + num_items r + 1 = num_items n" using nums m by simp
  show "node_ok h d l" "node_ok h 0 r" "is_leaf l = is_leaf n" "is_leaf r = is_leaf n" using ok2 ks by simp_all
qed

section \<open>Merging or refilling an underfull child\<close>

lemma shift_left_pair:
  fixes m n :: "'a node"
  assumes "is_inner n" and "p < num_items n"
  defines "n' \<equiv> shift_left p True (set_child p m n)"
  shows "inorder n' = pair_slot n p (inorder m)" and "is_inner n'" and "num_items n' = num_items n - 1"
    and "inner_count n' = inner_count n"
    and "\<And>i. i \<le> num_items n' \<Longrightarrow> child n' i = (if i < p then child n i else if i = p then m else child n (Suc i))"
proof -
  obtain ks cs c where n: "n = Inner ks cs c" using assms(1) by (cases n) (simp_all add: is_inner_def)
  have len: "length cs = Suc (length ks)" "p < length ks" using assms(1,2) by (simp_all add: n is_inner_def)
  have n': "n' = Inner (take p ks @ drop (Suc p) ks) (take (Suc p) (cs[p := m]) @ drop (Suc (Suc p)) cs) c"
  proof (cases "Suc p < length ks")
    case False
    then have "length ks = Suc p" using len by simp
    then show ?thesis using len by (simp add: n'_def n shift_left_def set_child_def Let_def)
  qed (use len in \<open>simp add: n'_def n shift_left_def set_child_def Let_def\<close>)
  have cs: "take (Suc p) (cs[p := m]) = take p cs @ [m]" using len by (simp add: take_Suc_conv_app_nth)
  show "inorder n' = pair_slot n p (inorder m)"
    using len by (simp add: n' n pair_slot_def parts_def cs take_map drop_map)
  show "is_inner n'" "num_items n' = num_items n - 1" "inner_count n' = inner_count n"
    using len by (simp_all add: n' n is_inner_def)
  show "child n' i = (if i < p then child n i else if i = p then m else child n (Suc i))" if "i \<le> num_items n'" for i
  proof (cases "p < i")
    case True
    then obtain j where "i = Suc p + j" using le_Suc_ex[of "Suc p" i] by auto
    then show ?thesis using len that by (simp add: n' n child_def cs nth_append)
  qed (use len that in \<open>auto simp: n' n child_def cs nth_append\<close>)
qed

lemma merge_from_right_spec:
  assumes "node_ok h 0 l" and "node_ok h 0 r"
  shows "inorder (merge_from_right k r l) = inorder l @ k # inorder r" and "node_ok h 0 (merge_from_right k r l)"
    and "num_items (merge_from_right k r l) = num_items l + 1 + num_items r"
    and "is_leaf (merge_from_right k r l) = is_leaf l"
proof -
  have "inorder (merge_from_right k r l) = inorder l @ k # inorder r \<and> node_ok h 0 (merge_from_right k r l)
    \<and> num_items (merge_from_right k r l) = num_items l + 1 + num_items r
    \<and> is_leaf (merge_from_right k r l) = is_leaf l"
  proof (cases h)
    case 0
    then show ?thesis
      using assms by (cases l; cases r) (simp_all add: merge_from_right_def)
  next
    case (Suc h')
    obtain ks cs c where l: "l = Inner ks cs c" using assms(1) Suc by (cases l) simp_all
    obtain ls ds e where r: "r = Inner ls ds e" using assms(2) Suc by (cases r) simp_all
    have len: "length cs = Suc (length ks)" "length ds = Suc (length ls)" using assms Suc by (simp_all add: l r)
    have m: "merge_from_right k r l = Inner (ks @ k # ls) (cs @ ds) (c + (e + 1))"
      by (simp add: merge_from_right_def l r increase_tree_count_def tree_count_def)
    have "node_ok (Suc h') 0 (Inner (ks @ k # ls) (cs @ ds) (c + (e + 1)))"
    proof (rule node_ok_inner)
      show "inner_count (Inner (ks @ k # ls) (cs @ ds) (c + (e + 1)))
          = sum_list (map tree_count (node_children (Inner (ks @ k # ls) (cs @ ds) (c + (e + 1)))))
            + of_nat (num_items (Inner (ks @ k # ls) (cs @ ds) (c + (e + 1)))) + 0"
        using inner_count_sum[of h' 0 l] inner_count_sum[of h' 0 r] assms Suc by (simp add: l r)
    qed (use assms Suc len in \<open>auto simp: l r\<close>)
    then show ?thesis using Suc len unfolding m by (simp add: l r weave_join)
  qed
  then show "inorder (merge_from_right k r l) = inorder l @ k # inorder r" "node_ok h 0 (merge_from_right k r l)"
    "num_items (merge_from_right k r l) = num_items l + 1 + num_items r"
    "is_leaf (merge_from_right k r l) = is_leaf l" by blast+
qed

text \<open>
  An underfull child: one item below the filling, as a deletion leaves it, or (an inner node as a split
  leaves it) at the filling but below the code's minimum.
\<close>

definition underfull :: "'a node \<Rightarrow> bool" where
  "underfull n \<longleftrightarrow> (if is_leaf n then 7 else 4) \<le> Suc (num_items n) \<and> num_items n < min_items n"

definition all_filled :: "nat \<Rightarrow> 'a node \<Rightarrow> bool" where
  "all_filled h n \<longleftrightarrow> (\<forall>i \<le> num_items n. node_ok h 0 (child n i) \<and> filled (child n i))"

lemma merge_pair:
  assumes n: "is_inner n" "p < num_items n" and ok: "\<forall>i \<le> num_items n. node_ok h 0 (child n i)"
    and fit: "num_items (child n p) + 1 + num_items (child n (Suc p)) \<le> max_items (child n p)"
    and big: "filled (child n p) \<or> filled (child n (Suc p))"
    and rest: "\<forall>i \<le> num_items n. i \<noteq> p \<longrightarrow> i \<noteq> Suc p \<longrightarrow> filled (child n i)"
  defines "n' \<equiv> shift_left p True (set_child p (merge_from_right (node_keys n ! p) (child n (Suc p)) (child n p)) n)"
  shows "inorder n' = inorder n \<and> is_inner n' \<and> inner_count n' = inner_count n
    \<and> num_items n' = num_items n - 1 \<and> all_filled h n'"
proof -
  have oks: "node_ok h 0 (child n p)" "node_ok h 0 (child n (Suc p))" using ok n by simp_all
  let ?m = "merge_from_right (node_keys n ! p) (child n (Suc p)) (child n p)"
  note m = merge_from_right_spec[OF oks, of "node_keys n ! p"]
  note s = shift_left_pair[OF n, where m = ?m, folded n'_def]
  have leaf: "is_leaf (child n p) = is_leaf (child n (Suc p))" using leaf_height[OF oks(1)] leaf_height[OF oks(2)] by simp
  have "filled ?m" using m(3,4) fit big leaf by (auto simp: filled_def max_items_def)
  then have "all_filled h n'"
    using s(3,5) m(2) ok rest by (auto simp: all_filled_def)
  then show ?thesis
    using s m(1) pair_slots(3)[OF n] by simp
qed

text \<open>When two siblings do not fit into one node, sharing their difference fills both.\<close>

lemma shared_sizes:
  fixes a b mx :: nat
  assumes "lo = 7 \<and> mx = 15 \<and> mn = 7 \<or> lo = 4 \<and> mx = 10 \<and> mn = (5 :: nat)"
    and "lo \<le> Suc a" and "a < mn" and "b \<le> mx" and "mx < a + 1 + b"
  defines "c \<equiv> (b - a) div 2"
  shows "1 \<le> c \<and> c \<le> b \<and> lo \<le> a + c \<and> a + c \<le> mx \<and> lo \<le> b - c \<and> b - c \<le> mx"
proof -
  have c: "2 * c \<le> b - a" "b - a \<le> 2 * c + 1" by (simp_all add: c_def)
  show ?thesis
    using assms(1)
  proof
    assume "lo = 7 \<and> mx = 15 \<and> mn = 7"
    then have "a = 6" "9 \<le> b" using assms(2-5) by auto
    then show ?thesis using c assms(4) \<open>lo = 7 \<and> mx = 15 \<and> mn = 7\<close> by auto
  next
    assume *: "lo = 4 \<and> mx = 10 \<and> mn = 5"
    then have "a = 3 \<and> 7 \<le> b \<or> a = 4 \<and> 6 \<le> b" using assms(2-5) by auto
    then show ?thesis using c assms(4) * by auto
  qed
qed

lemma share_pair:
  assumes n: "is_inner n" "p < num_items n" and ok: "\<forall>i \<le> num_items n. node_ok h 0 (child n i)"
    and rest: "\<forall>i \<le> num_items n. i \<noteq> p \<longrightarrow> i \<noteq> Suc p \<longrightarrow> filled (child n i)"
    and n': "n' = put_pair p l k r n"
    and new: "node_ok h 0 l" "node_ok h 0 r" "filled l" "filled r"
    and items: "inorder l @ k # inorder r = inorder (child n p) @ node_keys n ! p # inorder (child n (Suc p))"
  shows "inorder n' = inorder n \<and> is_inner n' \<and> inner_count n' = inner_count n
    \<and> num_items n' = num_items n \<and> all_filled h n'"
proof -
  note sel = put_pair_sel[OF n(1), of p l k r] and ch = child_put_pair[OF n, where l = l and k = k and r = r]
  have "node_ok h 0 (child n' i) \<and> filled (child n' i)" if "i \<le> num_items n" for i
    using ok rest new ch(1,2) ch(3)[of i] that by (cases "i = p"; cases "i = Suc p") (simp_all add: n')
  then show ?thesis
    using sel put_pair_slots(3)[OF n] pair_slots(3)[OF n] items by (simp add: n' all_filled_def)
qed

lemma underfull_sizes:
  assumes "node_ok h 0 m" and "node_ok h 0 s" and "underfull m" and "filled s"
    and "max_items s < num_items m + 1 + num_items s"
  defines "c \<equiv> (num_items s - num_items m) div 2"
  shows "1 \<le> c \<and> c \<le> num_items s"
    and "is_leaf x = is_leaf m \<Longrightarrow> num_items x = num_items m + c \<Longrightarrow> filled x"
    and "is_leaf x = is_leaf m \<Longrightarrow> num_items x = num_items s - c \<Longrightarrow> filled x"
proof -
  have leaf: "is_leaf m = is_leaf s" using leaf_height[OF assms(1)] leaf_height[OF assms(2)] by simp
  define lo mx mn where "lo = (if is_leaf m then 7 else 4 :: nat)" and "mx = (if is_leaf m then 15 else 10 :: nat)"
    and "mn = (if is_leaf m then 7 else 5 :: nat)"
  have "1 \<le> c \<and> c \<le> num_items s \<and> lo \<le> num_items m + c \<and> num_items m + c \<le> mx
      \<and> lo \<le> num_items s - c \<and> num_items s - c \<le> mx"
    unfolding c_def
  proof (rule shared_sizes)
    show "lo = 7 \<and> mx = 15 \<and> mn = 7 \<or> lo = 4 \<and> mx = 10 \<and> mn = 5" by (simp add: lo_def mx_def mn_def)
    show "lo \<le> Suc (num_items m)" "num_items m < mn"
      using assms(3) by (simp_all add: underfull_def lo_def mn_def min_items_def split: if_splits)
    show "num_items s \<le> mx" "mx < num_items m + 1 + num_items s"
      using assms(4,5) leaf by (simp_all add: filled_def max_items_def mx_def split: if_splits)
  qed
  then show "1 \<le> c \<and> c \<le> num_items s"
    and "is_leaf x = is_leaf m \<Longrightarrow> num_items x = num_items m + c \<Longrightarrow> filled x"
    and "is_leaf x = is_leaf m \<Longrightarrow> num_items x = num_items s - c \<Longrightarrow> filled x"
    by (auto simp: lo_def mx_def filled_def max_items_def)
qed

lemma merge_or_rebalance_child_spec:
  assumes n: "is_inner n" "pos \<le> num_items n" "1 \<le> num_items n"
    and ok: "\<forall>i \<le> num_items n. node_ok h 0 (child n i) \<and> (i \<noteq> pos \<longrightarrow> filled (child n i))"
    and under: "underfull (child n pos)" and res: "merge_or_rebalance_child pos n = (n', b)"
  shows "inorder n' = inorder n \<and> is_inner n' \<and> inner_count n' = inner_count n
    \<and> num_items n' = num_items n - of_bool b \<and> all_filled h n'"
proof -
  let ?node = "child n pos" and ?left = "child n (pos - 1)" and ?right = "child n (pos + 1)"
  have oks: "\<forall>i \<le> num_items n. node_ok h 0 (child n i)" using ok by blast
  have same: "max_items (child n i) = max_items (child n j)" if "i \<le> num_items n" "j \<le> num_items n" for i j
    using oks leaf_height[of h 0 "child n i"] leaf_height[of h 0 "child n j"] that by (simp add: max_items_def)
  consider (ml) "pos > 0" "num_items ?left + 1 + num_items ?node \<le> max_items ?left"
    | (mr) "pos < num_items n" "num_items ?node + 1 + num_items ?right \<le> max_items ?right"
        "\<not> (pos > 0 \<and> num_items ?left + 1 + num_items ?node \<le> max_items ?left)"
    | (sr) "pos < num_items n" "max_items ?right < num_items ?node + 1 + num_items ?right"
        "\<not> (pos > 0 \<and> num_items ?left + 1 + num_items ?node \<le> max_items ?left)"
    | (sl) "pos > 0" "pos = num_items n" "max_items ?left < num_items ?node + 1 + num_items ?left"
    using n by linarith
  then show ?thesis
  proof cases
    case ml
    then have p: "Suc (pos - 1) = pos" "pos - 1 < num_items n" using n by simp_all
    have "n' = shift_left (pos - 1) True (set_child (pos - 1) (merge_from_right (node_keys n ! (pos - 1)) ?node ?left) n)" "b"
      using ml res by (simp_all add: merge_or_rebalance_child_def Let_def)
    then show ?thesis
      using merge_pair[OF n(1) p(2) oks] ml ok p n by simp
  next
    case mr
    then have "n' = shift_left pos True (set_child pos (merge_from_right (node_keys n ! pos) ?right ?node) n)" "b"
      using res unfolding merge_or_rebalance_child_def Let_def by (simp_all only: if_False if_True prod.inject)
    then show ?thesis
      using merge_pair[OF n(1) mr(1) oks] mr ok same[of pos "Suc pos"] by simp
  next
    case sr
    let ?c = "(num_items ?right - num_items ?node) div 2"
    have n': "n' = rebalance_child_to_left (Suc pos) ?c n" "\<not> b"
      using sr res unfolding merge_or_rebalance_child_def Let_def by (simp_all split: if_splits)
    obtain l k r where mv: "move_to_left ?c ?node (node_keys n ! pos) ?right = (l, k, r)"
      by (cases "move_to_left ?c ?node (node_keys n ! pos) ?right")
    have okp: "node_ok h 0 ?node" "node_ok h 0 ?right" "filled ?right" using ok sr by simp_all
    note sz = underfull_sizes[OF okp(1,2) under okp(3) sr(2)]
    note spec = move_to_left_spec[OF okp(1,2) _ _ mv] and items = move_to_left_items[OF okp(1,2) _ _ mv]
    have "filled l" "filled r"
      using sz(2)[of l] sz(3)[of r] sz(1) spec(8,9) items(4,5) leaf_height[OF okp(1)] leaf_height[OF okp(2)] by simp_all
    then show ?thesis
      using share_pair[OF n(1) sr(1) oks _ _ spec(6,7)] n' mv ok items(1) sz(1) by (simp add: rebalance_to_left_pair)
  next
    case sl
    then have p: "Suc (pos - 1) = pos" "pos - 1 < num_items n" using n by simp_all
    let ?c = "(num_items ?left - num_items ?node) div 2"
    have n': "n' = rebalance_child_to_right (pos - 1) ?c n" "\<not> b"
      using sl res unfolding merge_or_rebalance_child_def Let_def by (simp_all split: if_splits)
    obtain l k r where mv: "move_to_right ?c ?left (node_keys n ! (pos - 1)) ?node = (l, k, r)"
      by (cases "move_to_right ?c ?left (node_keys n ! (pos - 1)) ?node")
    have okp: "node_ok h 0 ?left" "node_ok h 0 ?node" "filled ?left" using ok sl p by simp_all
    note sz = underfull_sizes[OF okp(2,1) under okp(3) sl(3)]
    note spec = move_to_right_spec[OF okp(1,2) _ _ mv] and items = move_to_right_items[OF okp(1,2) _ _ mv]
    have "filled l" "filled r"
      using sz(3)[of l] sz(2)[of r] sz(1) spec(8,9) items(4,5) leaf_height[OF okp(1)] leaf_height[OF okp(2)] by simp_all
    then show ?thesis
      using share_pair[OF n(1) p(2) oks _ _ spec(6,7)] n' mv ok items(1) sz(1) p by (simp add: rebalance_to_right_pair)
  qed
qed

end
