(* ===== verification/Linked_List.thy ===== *)
theory Linked_List
  imports Kv_Prelude
begin

text \<open>
  \<^verbatim>\<open>src/linked_list.hpp\<close>: the list type of the store, a \<^verbatim>\<open>std::vector\<close> while it is small and a
  \<^verbatim>\<open>std::deque\<close> once it has held more than \<open>kListVectorThreshold\<close> elements.  The state is the flag and
  the two containers; \<open>ll_list\<close> is the list the caller sees, and every operation is shown to act on it
  as the list operation it stands for, in either representation.  Indices are \<^verbatim>\<open>int64_t\<close>: every sum
  the code forms is of a size and a negative index, or of an index below the size and 1, so no
  computation leaves the range and they are kept as \<open>int\<close>.
\<close>

section \<open>The interface: a list with two ends\<close>

locale two_ended =
  fixes invar :: "'q \<Rightarrow> bool"
    and items :: "'q \<Rightarrow> 'a list"
    and fresh :: "'q"
    and push_l :: "'a \<Rightarrow> 'q \<Rightarrow> 'q"
    and push_r :: "'a \<Rightarrow> 'q \<Rightarrow> 'q"
    and pop_l :: "'q \<Rightarrow> 'a option \<times> 'q"
    and pop_r :: "'q \<Rightarrow> 'a option \<times> 'q"
  assumes items_fresh: "items fresh = []"
    and invar_fresh: "invar fresh"
    and items_push_l: "invar q \<Longrightarrow> items (push_l x q) = x # items q"
    and items_push_r: "invar q \<Longrightarrow> items (push_r x q) = items q @ [x]"
    and invar_push_l: "invar q \<Longrightarrow> invar (push_l x q)"
    and invar_push_r: "invar q \<Longrightarrow> invar (push_r x q)"
    and pop_l_items: "invar q \<Longrightarrow> pop_l q = (r, q') \<Longrightarrow>
      items q' = tl (items q) \<and> r = (if items q = [] then None else Some (hd (items q))) \<and> invar q'"
    and pop_r_items: "invar q \<Longrightarrow> pop_r q = (r, q') \<Longrightarrow>
      items q' = butlast (items q) \<and> r = (if items q = [] then None else Some (last (items q))) \<and> invar q'"
begin

text \<open>Taking \<open>n\<close> elements from one end, as a client that drains the list does.\<close>

primrec drain :: "('q \<Rightarrow> 'a option \<times> 'q) \<Rightarrow> nat \<Rightarrow> 'q \<Rightarrow> 'a option list \<times> 'q" where
  "drain pop 0 q = ([], q)"
| "drain pop (Suc n) q = (let (r, q') = pop q; (rs, q'') = drain pop n q' in (r # rs, q''))"

lemma push_all:
  "invar q \<Longrightarrow> items (fold push_r xs q) = items q @ xs \<and> invar (fold push_r xs q)"
  by (induction xs arbitrary: q) (auto simp: items_push_r invar_push_r)

lemma drain_l:
  assumes "invar q" and "n \<le> length (items q)"
  shows "fst (drain pop_l n q) = map Some (take n (items q))
    \<and> items (snd (drain pop_l n q)) = drop n (items q) \<and> invar (snd (drain pop_l n q))"
  using assms
proof (induction n arbitrary: q)
  case 0
  then show ?case by simp
next
  case (Suc n)
  obtain r q' where pop: "pop_l q = (r, q')" by fastforce
  from Suc.prems pop_l_items[OF _ pop] obtain x xs where
      q: "items q = x # xs" and q': "items q' = xs" and r: "r = Some x" and inv: "invar q'"
    by (cases "items q") auto
  show ?case
    using Suc.IH[OF inv] Suc.prems q q' r by (simp add: pop split_beta)
qed

lemma drain_r:
  assumes "invar q" and "n \<le> length (items q)"
  shows "fst (drain pop_r n q) = map Some (take n (rev (items q)))
    \<and> items (snd (drain pop_r n q)) = take (length (items q) - n) (items q) \<and> invar (snd (drain pop_r n q))"
  using assms
proof (induction n arbitrary: q)
  case 0
  then show ?case by simp
next
  case (Suc n)
  obtain r q' where pop: "pop_r q = (r, q')" by fastforce
  from Suc.prems pop_r_items[OF _ pop] obtain x xs where
      q: "items q = xs @ [x]" and q': "items q' = xs" and r: "r = Some x" and inv: "invar q'"
    by (cases "items q" rule: rev_cases) auto
  show ?case
    using Suc.IH[OF inv] Suc.prems q q' r by (simp add: pop split_beta)
qed

end

section \<open>\<^verbatim>\<open>LinkedList<T>\<close>\<close>

definition kListVectorThreshold :: nat where
  "kListVectorThreshold = 256"

record 'a linked_list =
  use_vector :: bool
  vec :: "'a list"
  deq :: "'a list"

definition ll_new :: "'a linked_list" where
  "ll_new = \<lparr>use_vector = True, vec = [], deq = []\<rparr>"

definition check_convert_to_deque :: "'a linked_list \<Rightarrow> 'a linked_list" where
  "check_convert_to_deque l =
     (if use_vector l \<and> length (vec l) > kListVectorThreshold
      then l\<lparr>deq := deq l @ vec l, vec := [], use_vector := False\<rparr>
      else l)"

definition push_left :: "'a \<Rightarrow> 'a linked_list \<Rightarrow> 'a linked_list" where
  "push_left value l =
     (if use_vector l then check_convert_to_deque (l\<lparr>vec := value # vec l\<rparr>)
      else l\<lparr>deq := value # deq l\<rparr>)"

definition push_right :: "'a \<Rightarrow> 'a linked_list \<Rightarrow> 'a linked_list" where
  "push_right value l =
     (if use_vector l then check_convert_to_deque (l\<lparr>vec := vec l @ [value]\<rparr>)
      else l\<lparr>deq := deq l @ [value]\<rparr>)"

definition pop_left :: "'a linked_list \<Rightarrow> 'a option \<times> 'a linked_list" where
  "pop_left l =
     (if use_vector l then
        (case vec l of [] \<Rightarrow> (None, l) | x # xs \<Rightarrow> (Some x, l\<lparr>vec := xs\<rparr>))
      else
        (case deq l of [] \<Rightarrow> (None, l) | x # xs \<Rightarrow> (Some x, l\<lparr>deq := xs\<rparr>)))"

definition pop_right :: "'a linked_list \<Rightarrow> 'a option \<times> 'a linked_list" where
  "pop_right l =
     (if use_vector l then
        (if vec l = [] then (None, l) else (Some (last (vec l)), l\<lparr>vec := butlast (vec l)\<rparr>))
      else
        (if deq l = [] then (None, l) else (Some (last (deq l)), l\<lparr>deq := butlast (deq l)\<rparr>)))"

definition ll_size :: "'a linked_list \<Rightarrow> nat" where
  "ll_size l = (if use_vector l then length (vec l) else length (deq l))"

definition ll_empty :: "'a linked_list \<Rightarrow> bool" where
  "ll_empty l = (if use_vector l then vec l = [] else deq l = [])"

definition ll_clear :: "'a linked_list \<Rightarrow> 'a linked_list" where
  "ll_clear l = (if use_vector l then l\<lparr>vec := []\<rparr> else l\<lparr>deq := []\<rparr>)"

definition ll_index :: "int \<Rightarrow> 'a linked_list \<Rightarrow> 'a option" where
  "ll_index index l =
     (let sz = int (ll_size l) in
      if sz = 0 then None
      else
        let index = (if index < 0 then (if sz + index < 0 then 0 else sz + index) else index) in
        if index \<ge> sz then None
        else if use_vector l then Some (vec l ! nat index)
        else Some (deq l ! nat index))"

definition ll_set :: "int \<Rightarrow> 'a \<Rightarrow> 'a linked_list \<Rightarrow> bool \<times> 'a linked_list" where
  "ll_set index value l =
     (let sz = int (ll_size l) in
      if sz = 0 then (False, l)
      else
        let index' = (if index < 0 then sz + index else index) in
        if index < 0 \<and> index' < 0 then (False, l)
        else if index' \<ge> sz then (False, l)
        else if use_vector l then (True, l\<lparr>vec := (vec l)[nat index' := value]\<rparr>)
        else (True, l\<lparr>deq := (deq l)[nat index' := value]\<rparr>))"

text \<open>
  The bounds \<^verbatim>\<open>Range\<close> and \<^verbatim>\<open>Trim\<close> compute with the same statements: negative positions count from
  the end, a start before the list is its head, a stop before it is \<open>-1\<close>, a stop past it is its last.
\<close>

definition norm_start :: "int \<Rightarrow> int \<Rightarrow> int" where
  "norm_start sz start = (if start < 0 then (if sz + start < 0 then 0 else sz + start) else start)"

definition norm_stop :: "int \<Rightarrow> int \<Rightarrow> int" where
  "norm_stop sz stop =
     (let stop = (if stop < 0 then (if sz + stop < 0 then -1 else sz + stop) else stop)
      in if stop \<ge> sz then sz - 1 else stop)"

definition ll_range :: "int \<Rightarrow> int \<Rightarrow> 'a linked_list \<Rightarrow> 'a list" where
  "ll_range start stop l =
     (let sz = int (ll_size l) in
      if sz = 0 then []
      else
        let start = norm_start sz start; stop' = norm_stop sz stop in
        if start \<ge> sz then []
        else if start > stop' then []
        else take (nat (stop' + 1 - start)) (drop (nat start) (if use_vector l then vec l else deq l)))"

definition ll_trim :: "int \<Rightarrow> int \<Rightarrow> 'a linked_list \<Rightarrow> 'a linked_list" where
  "ll_trim start stop l =
     (let sz = int (ll_size l) in
      if sz = 0 then l
      else
        let start = norm_start sz start; stop' = norm_stop sz stop in
        if start \<ge> sz then ll_clear l
        else if start > stop' then ll_clear l
        else if use_vector l then l\<lparr>vec := drop (nat start) (take (nat (stop' + 1)) (vec l))\<rparr>
        else l\<lparr>deq := drop (nat start) (take (nat (stop' + 1)) (deq l))\<rparr>)"

text \<open>The erasing loop of \<^verbatim>\<open>Remove\<close>: the rest of the container, and how many were removed so far.\<close>

fun remove_loop :: "'a \<Rightarrow> int \<Rightarrow> nat \<Rightarrow> 'a list \<Rightarrow> 'a list \<times> nat" where
  "remove_loop value cnt removed [] = ([], removed)"
| "remove_loop value cnt removed (x # xs) =
     (if x = value then
        (if cnt > 0 \<and> int (removed + 1) \<ge> cnt then (xs, removed + 1)
         else remove_loop value cnt (removed + 1) xs)
      else (let (ys, r) = remove_loop value cnt removed xs in (x # ys, r)))"

definition ll_remove :: "'a \<Rightarrow> int \<Rightarrow> 'a linked_list \<Rightarrow> nat \<times> 'a linked_list" where
  "ll_remove value cnt l =
     (if use_vector l
      then (let (ys, removed) = remove_loop value cnt 0 (vec l) in (removed, l\<lparr>vec := ys\<rparr>))
      else (let (ys, removed) = remove_loop value cnt 0 (deq l) in (removed, l\<lparr>deq := ys\<rparr>)))"

definition insert_at :: "nat \<Rightarrow> 'a \<Rightarrow> 'a list \<Rightarrow> 'a list" where
  "insert_at i x xs = take i xs @ x # drop i xs"

definition ll_insert :: "int \<Rightarrow> 'a \<Rightarrow> bool \<Rightarrow> 'a linked_list \<Rightarrow> bool \<times> 'a linked_list" where
  "ll_insert pivot_index value before l =
     (let sz = int (ll_size l) in
      if sz = 0 then (False, l)
      else
        let p = (if pivot_index < 0 then sz + pivot_index else pivot_index) in
        if pivot_index < 0 \<and> p < 0 then (False, l)
        else if p \<ge> sz then (False, l)
        else
          let i = (if before then nat p else nat p + 1) in
          if use_vector l then (True, check_convert_to_deque (l\<lparr>vec := insert_at i value (vec l)\<rparr>))
          else (True, l\<lparr>deq := insert_at i value (deq l)\<rparr>))"

text \<open>
  \<^verbatim>\<open>MemoryUsage\<close>; the capacity of the vector and \<^verbatim>\<open>sizeof(T)\<close> are the standard library's.
\<close>

definition ll_memory_usage :: "nat \<Rightarrow> nat \<Rightarrow> 'a linked_list \<Rightarrow> nat" where
  "ll_memory_usage sizeof_T capacity l =
     (if use_vector l then capacity * sizeof_T
      else length (deq l) * sizeof_T + length (deq l) * 8)"

section \<open>The list it stands for\<close>

definition ll_list :: "'a linked_list \<Rightarrow> 'a list" where
  "ll_list l = (if use_vector l then vec l else deq l)"

text \<open>Only one container is in use, and the vector never holds more than the threshold.\<close>

definition ll_ok :: "'a linked_list \<Rightarrow> bool" where
  "ll_ok l \<longleftrightarrow>
     (if use_vector l then deq l = [] \<and> length (vec l) \<le> kListVectorThreshold else vec l = [])"

lemmas ll_defs = push_left_def push_right_def pop_left_def pop_right_def check_convert_to_deque_def
  ll_list_def ll_ok_def

lemma ll_size_list [simp]: "ll_size l = length (ll_list l)"
  by (simp add: ll_size_def ll_list_def)

lemma check_convert_list:
  "deq l = [] \<or> \<not> use_vector l \<Longrightarrow> ll_list (check_convert_to_deque l) = ll_list l"
  by (auto simp: ll_defs)

lemma check_convert_ok: "use_vector l \<and> deq l = [] \<Longrightarrow> ll_ok (check_convert_to_deque l)"
  by (auto simp: ll_defs)

interpretation ll: two_ended ll_ok ll_list ll_new push_left push_right pop_left pop_right
proof unfold_locales
  show "ll_ok ll_new" and "ll_list ll_new = []"
    by (simp_all add: ll_defs ll_new_def)
next
  fix q :: "'a linked_list" and x :: 'a
  assume "ll_ok q"
  then show "ll_list (push_left x q) = x # ll_list q" and "ll_list (push_right x q) = ll_list q @ [x]"
    and "ll_ok (push_left x q)" and "ll_ok (push_right x q)"
    by (auto simp: ll_defs)
next
  fix q q' :: "'a linked_list" and r
  assume q: "ll_ok q"
  show "pop_left q = (r, q') \<Longrightarrow>
      ll_list q' = tl (ll_list q) \<and> r = (if ll_list q = [] then None else Some (hd (ll_list q))) \<and> ll_ok q'"
    using q by (auto simp: ll_defs split: if_splits list.splits)
  show "pop_right q = (r, q') \<Longrightarrow>
      ll_list q' = butlast (ll_list q) \<and> r = (if ll_list q = [] then None else Some (last (ll_list q))) \<and> ll_ok q'"
    using q by (auto simp: ll_defs split: if_splits)
qed

section \<open>Positions\<close>

text \<open>The position a Redis index names: negative ones count from the end.\<close>

definition at_index :: "int \<Rightarrow> int \<Rightarrow> int" where
  "at_index sz i = (if i < 0 then sz + i else i)"

lemma upt_between:
  "filter (\<lambda>i. a \<le> i \<and> i < b) [0..<n] = [a..<min b n]"
proof (induction n)
  case (Suc n)
  then show ?case by (auto simp: min_def not_le le_Suc_eq)
qed simp

lemma filter_index_range:
  assumes "0 \<le> a" and "a \<le> b" and "b < int (length xs)"
  shows "map ((!) xs) (filter (\<lambda>i. a \<le> int i \<and> int i \<le> b) [0..<length xs])
    = take (nat (b + 1 - a)) (drop (nat a) xs)"
proof -
  have "filter (\<lambda>i. a \<le> int i \<and> int i \<le> b) [0..<length xs]
      = filter (\<lambda>i. nat a \<le> i \<and> i < nat (b + 1)) [0..<length xs]"
    using assms by (intro filter_cong) auto
  also have "\<dots> = [nat a..<nat (b + 1)]"
    using assms by (simp only: upt_between) (simp add: min_def nat_le_iff)
  finally have "filter (\<lambda>i. a \<le> int i \<and> int i \<le> b) [0..<length xs] = [nat a..<nat (b + 1)]" .
  moreover have "nat (b + 1) - nat a = nat (b + 1 - a)"
    using assms by (simp add: nat_diff_distrib)
  ultimately show ?thesis
    using assms map_nth_upt[of "nat (b + 1)" xs "nat a"] by simp
qed

lemma ll_range_filter:
  "ll_range start stop l =
     map ((!) (ll_list l))
       (filter (\<lambda>i. at_index (int (ll_size l)) start \<le> int i \<and> int i \<le> at_index (int (ll_size l)) stop)
          [0..<ll_size l])"
proof -
  let ?xs = "ll_list l" and ?n = "int (length (ll_list l))"
  let ?a = "norm_start ?n start" and ?b = "norm_stop ?n stop"
  have range: "ll_range start stop l =
      (if ?n = 0 \<or> ?a \<ge> ?n \<or> ?a > ?b then [] else take (nat (?b + 1 - ?a)) (drop (nat ?a) ?xs))"
    by (simp add: ll_range_def Let_def ll_list_def)
  have a: "0 \<le> ?a" and b: "?n > 0 \<Longrightarrow> ?b < ?n"
    by (auto simp: norm_start_def norm_stop_def Let_def)
  have same: "(at_index ?n start \<le> int i \<and> int i \<le> at_index ?n stop) = (?a \<le> int i \<and> int i \<le> ?b)"
    if "i < length ?xs" for i
    using that by (auto simp: at_index_def norm_start_def norm_stop_def Let_def)
  have "filter (\<lambda>i. at_index ?n start \<le> int i \<and> int i \<le> at_index ?n stop) [0..<length ?xs]
      = filter (\<lambda>i. ?a \<le> int i \<and> int i \<le> ?b) [0..<length ?xs]" (is "?L = ?R")
    using same by (intro filter_cong) auto
  moreover have "?R = []" if "?n = 0 \<or> ?a \<ge> ?n \<or> ?a > ?b"
    using that by (auto simp: filter_empty_conv)
  moreover have "map ((!) ?xs) ?R = take (nat (?b + 1 - ?a)) (drop (nat ?a) ?xs)"
    if "\<not> (?n = 0 \<or> ?a \<ge> ?n \<or> ?a > ?b)"
    using that a b by (intro filter_index_range) auto
  ultimately show ?thesis
    by (simp add: range)
qed

text \<open>
  \<^verbatim>\<open>Range(start, stop)\<close> returns exactly the elements whose positions lie between the positions the
  two arguments name, in order, whichever container holds the list and however far outside the list
  the arguments point.
\<close>

theorem ll_range_positions:
  "ll_range start stop l =
     map ((!) (ll_list l))
       (filter (\<lambda>i. at_index (int (ll_size l)) start \<le> int i \<and> int i \<le> at_index (int (ll_size l)) stop)
          [0..<ll_size l])"
  by (rule ll_range_filter)

lemma ll_range_all: "ll_range 0 (-1) l = ll_list l"
proof -
  have "filter (\<lambda>i. at_index (int n) 0 \<le> int i \<and> int i \<le> at_index (int n) (-1)) [0..<n] = [0..<n]" for n
    by (auto simp: at_index_def filter_id_conv)
  then show ?thesis by (simp add: ll_range_filter map_nth)
qed

text \<open>\<^verbatim>\<open>Trim\<close> keeps what \<^verbatim>\<open>Range\<close> with the same arguments returns.\<close>

lemma ll_trim_range: "ll_list (ll_trim start stop l) = ll_range start stop l"
proof -
  let ?n = "int (length (ll_list l))"
  have a: "0 \<le> norm_start ?n start"
    by (simp add: norm_start_def)
  have *: "drop (nat a) (take (nat (b + 1)) xs) = take (nat (b + 1 - a)) (drop (nat a) xs)"
    if "0 \<le> a" "a \<le> b" for a b :: int and xs :: "'a list"
    using that by (simp add: drop_take nat_diff_distrib)
  show ?thesis
    using a by (auto simp: ll_trim_def ll_range_def Let_def ll_list_def ll_clear_def * not_le not_less)
qed

lemma ll_trim_ok [kv_inv]: "ll_ok l \<Longrightarrow> ll_ok (ll_trim start stop l)"
  by (auto simp: ll_trim_def Let_def ll_ok_def ll_clear_def)

text \<open>
  Trimming a list leaves it well formed and holding what \<^verbatim>\<open>Range\<close> would have returned for the same
  arguments; in particular an empty or inverted window empties it.
\<close>

theorem ll_trim_keeps_range:
  assumes "ll_ok l"
  shows "ll_ok (ll_trim start stop l) \<and> ll_list (ll_trim start stop l) = ll_range start stop l
    \<and> ll_range 0 (-1) (ll_trim start stop l) = ll_range start stop l"
  using assms by (simp add: ll_trim_ok ll_trim_range ll_range_all)

theorem ll_trim_keeps_range_witness:
  "ll_list (ll_trim (-2) 5 \<lparr>use_vector = True, vec = [1, 2, 3 :: nat], deq = []\<rparr>) = [2, 3]"
proof -
  let ?l = "\<lparr>use_vector = True, vec = [1, 2, 3 :: nat], deq = []\<rparr>"
  have "ll_ok ?l" by (simp add: ll_ok_def kListVectorThreshold_def)
  from ll_trim_keeps_range[OF this, of "-2" 5] have "ll_list (ll_trim (-2) 5 ?l) = ll_range (-2) 5 ?l"
    by blast
  also have "\<dots> = [2, 3]"
    by (simp add: ll_range_def ll_list_def norm_start_def norm_stop_def Let_def)
  finally show ?thesis .
qed

section \<open>Removing, inserting, indexing\<close>

lemma remove_loop_all:
  "cnt \<le> 0 \<Longrightarrow> remove_loop v cnt r xs = (filter (\<lambda>x. x \<noteq> v) xs, r + count_list xs v)"
  by (induction xs arbitrary: r) (auto simp: Let_def)

lemma remove1_pow_Nil: "(remove1 v ^^ n) [] = []"
  by (induction n) auto

lemma remove1_pow_Cons:
  "(remove1 v ^^ n) (x # xs) =
     (case n of 0 \<Rightarrow> x # xs | Suc m \<Rightarrow> if x = v then (remove1 v ^^ m) xs else x # (remove1 v ^^ n) xs)"
proof (induction n arbitrary: x xs)
  case (Suc n)
  then show ?case
    by (cases n) (auto simp: funpow_swap1)
qed simp

lemma remove_loop_some:
  assumes "int r < cnt"
  shows "remove_loop v cnt r xs =
    ((remove1 v ^^ nat (cnt - int r)) xs, r + min (nat (cnt - int r)) (count_list xs v))"
  using assms
proof (induction xs arbitrary: r)
  case Nil
  then show ?case by (simp add: remove1_pow_Nil)
next
  case (Cons x xs)
  obtain m where m: "nat (cnt - int r) = Suc m"
    using Cons.prems by (cases "nat (cnt - int r)") auto
  then have m': "nat (cnt - int (r + 1)) = m" by simp
  have pow: "(remove1 v ^^ nat (cnt - int r)) (x # xs) =
      (if x = v then (remove1 v ^^ m) xs else x # (remove1 v ^^ nat (cnt - int r)) xs)"
    using remove1_pow_Cons[of "Suc m" v x xs] by (simp only: m nat.case)
  consider "x = v" "int (r + 1) < cnt" | "x = v" "m = 0" "int (r + 1) = cnt" | "x \<noteq> v"
    using m m' Cons.prems by linarith
  then show ?case
  proof cases
    case 1
    then show ?thesis
      unfolding pow using Cons.IH[of "r + 1"] m m' by simp
  next
    case 2
    then show ?thesis unfolding pow using m by simp
  next
    case 3
    then show ?thesis unfolding pow using Cons.IH[OF Cons.prems] by simp
  qed
qed

lemma ll_remove_list:
  "ll_list (snd (ll_remove v cnt l)) =
     (if cnt \<le> 0 then filter (\<lambda>x. x \<noteq> v) (ll_list l) else (remove1 v ^^ nat cnt) (ll_list l))"
  "fst (ll_remove v cnt l) =
     (if cnt \<le> 0 then count_list (ll_list l) v else min (nat cnt) (count_list (ll_list l) v))"
  using remove_loop_some[of 0 cnt v] remove_loop_all[of cnt v 0]
  by (auto simp: ll_remove_def ll_list_def Let_def not_le split_beta)

lemma length_remove1_pow: "length ((remove1 v ^^ n) xs) \<le> length xs"
  by (induction n) (auto simp: length_remove1 intro: le_trans)

lemma ll_remove_ok [kv_inv]:
  assumes "ll_ok l"
  shows "ll_ok (snd (ll_remove v cnt l))"
proof -
  have "use_vector (snd (ll_remove v cnt l)) = use_vector l"
    and "use_vector l \<Longrightarrow> deq (snd (ll_remove v cnt l)) = deq l"
    and "\<not> use_vector l \<Longrightarrow> vec (snd (ll_remove v cnt l)) = vec l"
    by (simp_all add: ll_remove_def Let_def split_beta)
  moreover have "length (ll_list (snd (ll_remove v cnt l))) \<le> length (ll_list l)"
    using length_remove1_pow[where v = v and xs = "ll_list l"] by (auto simp: ll_remove_list)
  ultimately show ?thesis
    using assms by (auto simp: ll_ok_def ll_list_def split: if_splits)
qed

text \<open>
  \<^verbatim>\<open>Remove(value, count)\<close> on a list: with \<open>count \<le> 0\<close> every occurrence goes, otherwise the first
  \<open>count\<close> occurrences (or as many as there are) go and everything else keeps its place; the result is
  the number removed, and the list stays well formed.
\<close>

theorem ll_remove_spec:
  assumes "ll_ok l"
  shows "ll_ok (snd (ll_remove v cnt l))
    \<and> ll_list (snd (ll_remove v cnt l)) =
        (if cnt \<le> 0 then filter (\<lambda>x. x \<noteq> v) (ll_list l) else (remove1 v ^^ nat cnt) (ll_list l))
    \<and> fst (ll_remove v cnt l) =
        (if cnt \<le> 0 then count_list (ll_list l) v else min (nat cnt) (count_list (ll_list l) v))"
  by (simp add: ll_remove_ok[OF assms] ll_remove_list)

theorem ll_remove_spec_witness:
  "ll_list (snd (ll_remove 1 2 \<lparr>use_vector = True, vec = [1, 2, 1, 1 :: nat], deq = []\<rparr>)) = [2, 1]"
proof -
  let ?l = "\<lparr>use_vector = True, vec = [1, 2, 1, 1 :: nat], deq = []\<rparr>"
  have "ll_ok ?l" by (simp add: ll_ok_def kListVectorThreshold_def)
  from ll_remove_spec[OF this, of 1 2] show ?thesis
    by (simp add: ll_list_def numeral_2_eq_2)
qed

lemma ll_insert_spec:
  fixes i :: int
  assumes "ll_ok l"
  defines "p \<equiv> at_index (int (ll_size l)) i"
  shows "fst (ll_insert i v before l) = (0 \<le> p \<and> p < int (ll_size l))"
    and "ll_list (snd (ll_insert i v before l)) =
      (if 0 \<le> p \<and> p < int (ll_size l)
       then insert_at (if before then nat p else nat p + 1) v (ll_list l) else ll_list l)"
    and "ll_ok (snd (ll_insert i v before l))"
  using assms
  by (auto simp: ll_insert_def Let_def at_index_def ll_defs ll_size_def insert_at_def)

lemma ll_set_spec:
  fixes i :: int
  assumes "ll_ok l"
  defines "p \<equiv> at_index (int (ll_size l)) i"
  shows "fst (ll_set i v l) = (0 \<le> p \<and> p < int (ll_size l))"
    and "ll_list (snd (ll_set i v l)) =
      (if 0 \<le> p \<and> p < int (ll_size l) then (ll_list l)[nat p := v] else ll_list l)"
    and "ll_ok (snd (ll_set i v l))"
  using assms by (auto simp: ll_set_def Let_def at_index_def ll_defs ll_size_def)

text \<open>
  \<^verbatim>\<open>Set\<close> then \<^verbatim>\<open>Index\<close>: where \<^verbatim>\<open>Set\<close> accepts a position, \<^verbatim>\<open>Index\<close> reads the value back and every
  other position that names an element is unchanged; a negative position before the head is refused by
  \<^verbatim>\<open>Set\<close>, while \<^verbatim>\<open>Index\<close> answers it with the head of the list.
\<close>

theorem ll_set_index:
  assumes "ll_ok l"
  shows "(fst (ll_set i v l) \<longrightarrow> ll_index i (snd (ll_set i v l)) = Some v)
    \<and> (\<forall>j. 0 \<le> j \<and> j \<noteq> at_index (int (ll_size l)) i \<longrightarrow> ll_index j (snd (ll_set i v l)) = ll_index j l)
    \<and> (i < - int (ll_size l) \<and> ll_size l \<noteq> 0 \<longrightarrow>
         \<not> fst (ll_set i v l) \<and> ll_index i l = Some (hd (ll_list l)))"
proof -
  have idx: "ll_index j m = (let sz = int (length (ll_list m)); j = (if j < 0 then max 0 (sz + j) else j)
      in if sz = 0 \<or> j \<ge> sz then None else Some (ll_list m ! nat j))" for j :: int and m :: "'a linked_list"
    by (auto simp: ll_index_def ll_list_def Let_def)
  show ?thesis
    using ll_set_spec[OF assms, of i v]
    by (auto simp: idx Let_def at_index_def nth_list_update hd_conv_nth)
qed

theorem ll_set_index_witness:
  "ll_index (-2) (snd (ll_set (-2) 9 \<lparr>use_vector = True, vec = [1, 2, 3 :: nat], deq = []\<rparr>)) = Some 9"
proof -
  let ?l = "\<lparr>use_vector = True, vec = [1, 2, 3 :: nat], deq = []\<rparr>"
  have "ll_ok ?l" by (simp add: ll_ok_def kListVectorThreshold_def)
  moreover have "fst (ll_set (-2) 9 ?l)" by (simp add: ll_set_def ll_list_def Let_def)
  ultimately show ?thesis using ll_set_index[of ?l "-2" 9] by blast
qed

lemma use_vector_push_right:
  "ll_ok l \<Longrightarrow> use_vector (push_right x l) = (use_vector l \<and> ll_size l < kListVectorThreshold)"
  by (auto simp: ll_defs ll_size_def)

text \<open>
  A list is a queue and a stack across the conversion of its representation: after any pushes at
  the right of a fresh list, popping as many at the left gives them in order, and popping them at the
  right gives them in reverse.
\<close>

theorem ll_queue_and_stack:
  "fst (ll.drain pop_left (length xs) (fold push_right xs ll_new)) = map Some xs
   \<and> fst (ll.drain pop_right (length xs) (fold push_right xs ll_new)) = map Some (rev xs)
   \<and> use_vector (fold push_right xs ll_new) = (length xs \<le> kListVectorThreshold)"
proof -
  have all: "ll_list (fold push_right xs ll_new) = xs" "ll_ok (fold push_right xs ll_new)"
    using ll.push_all[OF ll.invar_fresh, of xs] by (simp_all add: ll.items_fresh)
  have "use_vector (fold push_right xs ll_new) = (length xs \<le> kListVectorThreshold)"
  proof (induction xs rule: rev_induct)
    case Nil
    then show ?case by (simp add: ll_new_def)
  next
    case (snoc x xs)
    then show ?case
      using ll.push_all[OF ll.invar_fresh, of xs]
      by (auto simp: use_vector_push_right ll.items_fresh)
  qed
  then show ?thesis
    using ll.drain_l[OF all(2), of "length xs"] ll.drain_r[OF all(2), of "length xs"] all(1) by simp
qed

end
