(* ===== verification/Number_Text.thy ===== *)
theory Number_Text
  imports Kv_Prelude
begin

text \<open>
  Decimal text in both directions, as the C++ library does it for the code: \<^verbatim>\<open>std::to_string\<close>,
  \<^verbatim>\<open>strtoull\<close> and \<^verbatim>\<open>strtoll\<close> in base 10 (leading white space, one optional sign, the longest run of
  digits, saturation on overflow, negation modulo \<open>2^64\<close> for the unsigned one), and the reading back
  of what was printed.
\<close>

section \<open>Printing\<close>

fun nat_digits :: "nat \<Rightarrow> str" where
  "nat_digits n = (if n < 10 then [of_nat (48 + n)] else nat_digits (n div 10) @ [of_nat (48 + n mod 10)])"

declare nat_digits.simps [simp del]

definition to_string_u64 :: "u64 \<Rightarrow> str" where
  "to_string_u64 w = nat_digits (unat w)"

definition to_string_int :: "int \<Rightarrow> str" where
  "to_string_int i = (if i < 0 then 45 # nat_digits (nat (- i)) else nat_digits (nat i))"

section \<open>Scanning\<close>

definition is_space :: "byte \<Rightarrow> bool" where
  "is_space c = (c = 32 \<or> 9 \<le> c \<and> c \<le> 13)"

definition is_digit :: "byte \<Rightarrow> bool" where
  "is_digit c = (48 \<le> c \<and> c \<le> 57)"

text \<open>The value of the leading digits, continuing from \<open>acc\<close>.\<close>

fun scan_digits :: "nat \<Rightarrow> str \<Rightarrow> nat" where
  "scan_digits acc [] = acc"
| "scan_digits acc (c # cs) = (if is_digit c then scan_digits (acc * 10 + (unat c - 48)) cs else acc)"

definition scan_sign :: "str \<Rightarrow> bool \<times> str" where
  "scan_sign s =
     (case s of
        c # cs \<Rightarrow> if c = 45 then (True, cs) else if c = 43 then (False, cs) else (False, s)
      | [] \<Rightarrow> (False, []))"

definition strtoull :: "str \<Rightarrow> u64" where
  "strtoull s =
     (let (neg, ds) = scan_sign (dropWhile is_space s);
          n = scan_digits 0 ds
      in if n \<ge> 2 ^ 64 then - 1 else if neg then - of_nat n else of_nat n)"

definition strtoll :: "str \<Rightarrow> int" where
  "strtoll s =
     (let (neg, ds) = scan_sign (dropWhile is_space s);
          n = int (scan_digits 0 ds)
      in if neg then max (- (2 ^ 63)) (- n) else min (2 ^ 63 - 1) n)"

section \<open>Reading back what was printed\<close>

lemma is_digit_code: "d < 10 \<Longrightarrow> is_digit (of_nat (48 + d)) \<and> unat (of_nat (48 + d) :: byte) = 48 + d"
proof -
  assume d: "d < 10"
  have "unat (of_nat (48 + d) :: byte) = 48 + d"
    using d by (simp only: unat_of_nat) (simp add: take_bit_eq_mod)
  then show ?thesis
    using d by (simp add: is_digit_def word_le_nat_alt)
qed

lemma nat_digits_nonempty [simp]: "nat_digits n \<noteq> []"
  by (subst nat_digits.simps) simp

lemma nat_digits_are_digits: "c \<in> set (nat_digits n) \<Longrightarrow> is_digit c"
proof (induction n rule: nat_digits.induct)
  case (1 n)
  show ?case
  proof (cases "n < 10")
    case True
    with 1(2) have "c = of_nat (48 + n)" by (subst (asm) nat_digits.simps) simp
    then show ?thesis using is_digit_code[OF True] by simp
  next
    case False
    with 1(2) have "c \<in> set (nat_digits (n div 10)) \<or> c = of_nat (48 + n mod 10)"
      by (subst (asm) nat_digits.simps) auto
    then show ?thesis using 1(1)[OF False] is_digit_code[of "n mod 10"] by auto
  qed
qed

text \<open>A suffix that does not start with a digit stops the scan.\<close>

definition stops :: "str \<Rightarrow> bool" where
  "stops s = (case s of [] \<Rightarrow> True | c # _ \<Rightarrow> \<not> is_digit c)"

lemma scan_stops [simp]: "stops s \<Longrightarrow> scan_digits acc s = acc"
  by (cases s) (simp_all add: stops_def)

lemma scan_nat_digits: "scan_digits 0 (nat_digits n @ rest) = scan_digits n rest"
proof (induction n arbitrary: rest rule: nat_digits.induct)
  case (1 n)
  show ?case
  proof (cases "n < 10")
    case True
    then show ?thesis using is_digit_code[OF True] by (subst nat_digits.simps) simp
  next
    case False
    have "scan_digits 0 (nat_digits n @ rest) = scan_digits (n div 10) (of_nat (48 + n mod 10) # rest)"
      using False 1(1)[OF False, of "of_nat (48 + n mod 10) # rest"] by (subst nat_digits.simps) simp
    also have "\<dots> = scan_digits (n div 10 * 10 + n mod 10) rest"
      using is_digit_code[of "n mod 10"] by simp
    finally show ?thesis by simp
  qed
qed

lemma digit_class: "is_digit c \<Longrightarrow> \<not> is_space c \<and> c \<noteq> 45 \<and> c \<noteq> 43"
  by (auto simp: is_digit_def is_space_def word_le_nat_alt)

lemma sign_nat_digits: "scan_sign (dropWhile is_space (nat_digits n @ rest)) = (False, nat_digits n @ rest)"
proof -
  obtain c cs where cs: "nat_digits n = c # cs" by (cases "nat_digits n") auto
  then have "is_digit c" using nat_digits_are_digits[of c n] by simp
  then show ?thesis using digit_class[of c] by (simp add: cs scan_sign_def)
qed

lemma strtoull_to_string: "stops rest \<Longrightarrow> strtoull (to_string_u64 w @ rest) = w"
  using unsigned_less[of w, where ?'a = nat]
  by (simp add: strtoull_def to_string_u64_def sign_nat_digits scan_nat_digits not_le)

lemma strtoll_to_string:
  assumes "- (2 ^ 63) \<le> i" and "i < 2 ^ 63"
  shows "strtoll (to_string_int i) = i"
proof (cases "i < 0")
  case True
  have "dropWhile is_space (45 # ds) = 45 # ds" for ds by (simp add: is_space_def)
  then show ?thesis
    using True assms scan_nat_digits[of "nat (- i)" "[]"]
    by (simp add: strtoll_def to_string_int_def scan_sign_def)
next
  case False
  then show ?thesis
    using assms scan_nat_digits[of "nat i" "[]"] sign_nat_digits[of "nat i" "[]"]
    by (simp add: strtoll_def to_string_int_def)
qed

end
