(* ===== verification/Stream_Data.thy ===== *)
theory Stream_Data
  imports Number_Text "HOL-Library.Product_Lexorder"
begin

text \<open>
  \<^verbatim>\<open>src/stream_data.cpp\<close>: a stream is a deque of entries and the last timestamp and sequence number it
  gave out or took in.  An entry's identifier stays the text it was added under; its place in the
  stream's order is the pair of numbers \<^verbatim>\<open>compare_ids\<close> reads from it.  The clock of
  \<^verbatim>\<open>auto_generate_id\<close> is the argument \<open>now_ms\<close> of \<open>xadd\<close>.
\<close>

section \<open>State and operations\<close>

record stream_entry =
  entry_id :: str
  entry_fields :: "(str \<times> str) list"

record stream_data =
  stream_entries :: "stream_entry list"
  last_ms :: u64
  last_seq :: u64

definition stream_new :: stream_data where
  "stream_new = \<lparr>stream_entries = [], last_ms = 0, last_seq = 0\<rparr>"

text \<open>\<^verbatim>\<open>std::string::find('-')\<close>.\<close>

definition find_dash :: "str \<Rightarrow> nat option" where
  "find_dash s = (if 45 \<in> set s then Some (length (takeWhile (\<lambda>c. c \<noteq> 45) s)) else None)"

definition auto_generate_id :: "u64 \<Rightarrow> stream_data \<Rightarrow> str \<times> stream_data" where
  "auto_generate_id now s =
     (let now_ms = (if now < last_ms s then last_ms s else now);
          s' = (if now_ms = last_ms s then s\<lparr>last_seq := last_seq s + 1\<rparr>
                else s\<lparr>last_ms := now_ms, last_seq := 0\<rparr>)
      in (to_string_u64 (last_ms s') @ ascii ''-'' @ to_string_u64 (last_seq s'), s'))"

definition parse_id :: "str \<Rightarrow> u64 \<times> u64" where
  "parse_id s =
     (case find_dash s of
        None \<Rightarrow> (0, 0)
      | Some dash \<Rightarrow> (strtoull s, strtoull (drop (dash + 1) s)))"

definition compare_ids :: "str \<Rightarrow> str \<Rightarrow> int" where
  "compare_ids a b =
     (let (ms1, seq1) = parse_id a; (ms2, seq2) = parse_id b in
      if ms1 \<noteq> ms2 then (if ms1 < ms2 then -1 else 1)
      else if seq1 \<noteq> seq2 then (if seq1 < seq2 then -1 else 1)
      else 0)"

definition push_entry :: "str \<Rightarrow> (str \<times> str) list \<Rightarrow> stream_data \<Rightarrow> stream_data" where
  "push_entry new_id flds s =
     s\<lparr>stream_entries := stream_entries s @ [\<lparr>entry_id = new_id, entry_fields = flds\<rparr>]\<rparr>"

definition xadd :: "u64 \<Rightarrow> str \<Rightarrow> (str \<times> str) list \<Rightarrow> stream_data \<Rightarrow> str \<times> stream_data" where
  "xadd now_ms ident flds s =
     (if ident = ascii ''*'' then
        (let (new_id, s') = auto_generate_id now_ms s in (new_id, push_entry new_id flds s'))
      else if stream_entries s \<noteq> [] \<and> compare_ids ident (entry_id (last (stream_entries s))) \<le> 0 then
        ([], s)
      else
        (let s' = (case find_dash ident of
                     None \<Rightarrow> s
                   | Some dash \<Rightarrow> s\<lparr>last_ms := strtoull ident, last_seq := strtoull (drop (dash + 1) ident)\<rparr>)
         in (ident, push_entry ident flds s')))"

text \<open>The loops of \<^verbatim>\<open>XRead\<close> and \<^verbatim>\<open>XRange\<close>; \<open>res\<close> is the result vector so far.\<close>

fun xread_loop :: "str \<Rightarrow> int \<Rightarrow> stream_entry list \<Rightarrow> stream_entry list \<Rightarrow> stream_entry list" where
  "xread_loop start_id cnt res [] = res"
| "xread_loop start_id cnt res (e # es) =
     (if compare_ids (entry_id e) start_id > 0 then
        (let res' = res @ [e] in
         if cnt > 0 \<and> int (length res') \<ge> cnt then res' else xread_loop start_id cnt res' es)
      else xread_loop start_id cnt res es)"

definition xread :: "str \<Rightarrow> int \<Rightarrow> stream_data \<Rightarrow> stream_entry list" where
  "xread start_id cnt s = xread_loop start_id cnt [] (stream_entries s)"

fun xrange_loop :: "str \<Rightarrow> str \<Rightarrow> int \<Rightarrow> stream_entry list \<Rightarrow> stream_entry list \<Rightarrow> stream_entry list" where
  "xrange_loop start_id end_id cnt res [] = res"
| "xrange_loop start_id end_id cnt res (e # es) =
     (if compare_ids (entry_id e) start_id < 0 then xrange_loop start_id end_id cnt res es
      else if compare_ids (entry_id e) end_id > 0 then res
      else
        (let res' = res @ [e] in
         if cnt > 0 \<and> int (length res') \<ge> cnt then res' else xrange_loop start_id end_id cnt res' es))"

definition xrange :: "str \<Rightarrow> str \<Rightarrow> int \<Rightarrow> stream_data \<Rightarrow> stream_entry list" where
  "xrange start_id end_id cnt s = xrange_loop start_id end_id cnt [] (stream_entries s)"

definition xlen :: "stream_data \<Rightarrow> nat" where
  "xlen s = length (stream_entries s)"

fun erase_id :: "str \<Rightarrow> stream_entry list \<Rightarrow> bool \<times> stream_entry list" where
  "erase_id ident [] = (False, [])"
| "erase_id ident (e # es) =
     (if entry_id e = ident then (True, es) else (let (b, es') = erase_id ident es in (b, e # es')))"

definition xdel :: "str \<Rightarrow> stream_data \<Rightarrow> bool \<times> stream_data" where
  "xdel ident s = (let (b, es) = erase_id ident (stream_entries s) in (b, s\<lparr>stream_entries := es\<rparr>))"

fun xtrim_loop :: "int \<Rightarrow> nat \<Rightarrow> stream_entry list \<Rightarrow> nat \<times> stream_entry list" where
  "xtrim_loop maxlen removed [] = (removed, [])"
| "xtrim_loop maxlen removed (e # es) =
     (if int (length (e # es)) > maxlen then xtrim_loop maxlen (removed + 1) es else (removed, e # es))"

definition xtrim :: "int \<Rightarrow> stream_data \<Rightarrow> nat \<times> stream_data" where
  "xtrim maxlen s =
     (let (removed, es) = xtrim_loop maxlen 0 (stream_entries s) in (removed, s\<lparr>stream_entries := es\<rparr>))"

definition stream_memory_usage :: "stream_data \<Rightarrow> nat" where
  "stream_memory_usage s =
     sum_list (map (\<lambda>e. length (entry_id e) + 16
       + sum_list (map (\<lambda>(f, v). length f + length v + 32) (entry_fields e))) (stream_entries s))"

section \<open>The order of the stream\<close>

definition entry_key :: "stream_entry \<Rightarrow> u64 \<times> u64" where
  "entry_key e = parse_id (entry_id e)"

text \<open>
  Well-formed: the entries' keys increase strictly, and the last of them is not above the pair the
  next generated identifier continues from.
\<close>

definition stream_ok :: "stream_data \<Rightarrow> bool" where
  "stream_ok s \<longleftrightarrow>
     sorted_wrt (<) (map entry_key (stream_entries s)) \<and>
     (\<forall>e \<in> set (stream_entries s). entry_key e \<le> (last_ms s, last_seq s))"

lemma compare_ids_less [simp]: "compare_ids a b < 0 \<longleftrightarrow> parse_id a < parse_id b"
  and compare_ids_greater [simp]: "0 < compare_ids a b \<longleftrightarrow> parse_id b < parse_id a"
  and compare_ids_le [simp]: "compare_ids a b \<le> 0 \<longleftrightarrow> parse_id a \<le> parse_id b"
  by (auto simp: compare_ids_def less_prod_def less_eq_prod_def Let_def split: prod.splits)

lemma find_dash_generated: "find_dash (to_string_u64 a @ 45 # to_string_u64 b) = Some (length (to_string_u64 a))"
proof -
  have "\<forall>c \<in> set (to_string_u64 a). c \<noteq> 45"
    using nat_digits_are_digits digit_class by (auto simp: to_string_u64_def)
  then show ?thesis by (simp add: find_dash_def takeWhile_append2)
qed

text \<open>An identifier the stream generates reads back as the numbers it was made from.\<close>

lemma parse_generated: "parse_id (to_string_u64 a @ ascii ''-'' @ to_string_u64 b) = (a, b)"
  using strtoull_to_string[of "45 # to_string_u64 b" a] strtoull_to_string[of "[]" b]
  by (simp add: parse_id_def ascii_def find_dash_generated stops_def is_digit_def)

lemma parse_explicit:
  "parse_id ident = (case find_dash ident of None \<Rightarrow> (0, 0)
     | Some dash \<Rightarrow> (strtoull ident, strtoull (drop (dash + 1) ident)))"
  by (simp add: parse_id_def)

text \<open>The next pair \<^verbatim>\<open>auto_generate_id\<close> gives out is above the last one unless the sequence number wraps.\<close>

definition seq_room :: "u64 \<Rightarrow> stream_data \<Rightarrow> bool" where
  "seq_room now s = (last_ms s < now \<or> last_seq s \<noteq> - 1)"

lemma auto_generate_above:
  assumes "seq_room now s"
  shows "(last_ms s, last_seq s) < (last_ms (snd (auto_generate_id now s)), last_seq (snd (auto_generate_id now s)))"
proof -
  have "w < w + 1" if "w \<noteq> - 1" for w :: u64
    using that by (rule word_less_succ)
  then show ?thesis
    using assms by (auto simp: auto_generate_id_def seq_room_def Let_def less_prod_def)
qed

lemma auto_generate_id_parse:
  "parse_id (fst (auto_generate_id now s)) = (last_ms (snd (auto_generate_id now s)), last_seq (snd (auto_generate_id now s)))"
  by (simp add: auto_generate_id_def Let_def parse_generated)

section \<open>What each operation does to the order\<close>

lemma push_ok:
  assumes "stream_ok s" and "\<forall>e \<in> set (stream_entries s). entry_key e < parse_id ident"
    and "parse_id ident \<le> (ms, sq)"
  shows "stream_ok (push_entry ident flds (s\<lparr>last_ms := ms, last_seq := sq\<rparr>))"
proof -
  have "entry_key e \<le> (ms, sq)" if "e \<in> set (stream_entries s)" for e
    using assms(2,3) that by (meson less_imp_le order.trans)
  then show ?thesis
    using assms by (auto simp: stream_ok_def push_entry_def sorted_wrt_append entry_key_def)
qed

lemma below_last:
  assumes "stream_ok s" and "stream_entries s \<noteq> []" and "e \<in> set (stream_entries s)"
  shows "entry_key e \<le> entry_key (last (stream_entries s))"
proof -
  let ?es = "stream_entries s"
  have "?es = butlast ?es @ [last ?es]" using assms(2) by simp
  then have "e \<in> set (butlast ?es) \<or> e = last ?es" using assms(3)
    by (metis Un_iff empty_iff insert_iff list.set(1) list.simps(15) set_append)
  moreover have "sorted_wrt (<) (map entry_key (butlast ?es @ [last ?es]))"
    using assms by (simp add: stream_ok_def)
  ultimately show ?thesis by (auto simp: sorted_wrt_append less_imp_le)
qed

definition accepts :: "str \<Rightarrow> stream_data \<Rightarrow> bool" where
  "accepts ident s \<longleftrightarrow> ident = ascii ''*'' \<or> (\<forall>e \<in> set (stream_entries s). entry_key e < parse_id ident)"

lemma refused_iff:
  assumes "stream_ok s" and "ident \<noteq> ascii ''*''"
  shows "(stream_entries s \<noteq> [] \<and> compare_ids ident (entry_id (last (stream_entries s))) \<le> 0)
    \<longleftrightarrow> \<not> accepts ident s"
proof -
  have "(\<exists>e \<in> set (stream_entries s). parse_id ident \<le> entry_key e)
      \<longleftrightarrow> stream_entries s \<noteq> [] \<and> parse_id ident \<le> entry_key (last (stream_entries s))"
    using below_last[OF assms(1)] order.trans by fastforce
  then show ?thesis
    using assms(2) by (auto simp: accepts_def entry_key_def not_less)
qed

lemma xadd_generated:
  fixes flds :: "(str \<times> str) list"
  assumes "stream_ok s" and "seq_room now s"
  defines "r \<equiv> xadd now (ascii ''*'') flds s"
  shows "stream_ok (snd r) \<and> fst r \<noteq> [] \<and> (\<forall>e \<in> set (stream_entries s). entry_key e < parse_id (fst r))
    \<and> stream_entries (snd r) = stream_entries s @ [\<lparr>entry_id = fst r, entry_fields = flds\<rparr>]"
proof -
  let ?g = "auto_generate_id now s"
  have same: "snd ?g = s\<lparr>last_ms := last_ms (snd ?g), last_seq := last_seq (snd ?g)\<rparr>"
    by (simp add: auto_generate_id_def Let_def)
  have above: "\<forall>e \<in> set (stream_entries s). entry_key e < parse_id (fst ?g)"
    using assms(1) auto_generate_above[OF assms(2)]
    by (auto simp: auto_generate_id_parse stream_ok_def intro: le_less_trans)
  have "stream_ok (push_entry (fst ?g) flds (snd ?g))"
    by (subst same) (rule push_ok[OF assms(1) above], simp add: auto_generate_id_parse)
  moreover have "stream_entries (snd ?g) = stream_entries s" by (subst same) simp
  ultimately show ?thesis
    using above by (simp add: r_def xadd_def case_prod_beta push_entry_def)
      (simp add: auto_generate_id_def Let_def to_string_u64_def)
qed

lemma xadd_explicit:
  assumes "stream_ok s" and "ident \<noteq> ascii ''*''"
  shows "\<not> accepts ident s \<Longrightarrow> xadd now ident flds s = ([], s)"
    and "accepts ident s \<Longrightarrow> fst (xadd now ident flds s) = ident \<and> stream_ok (snd (xadd now ident flds s))
      \<and> stream_entries (snd (xadd now ident flds s)) = stream_entries s @ [\<lparr>entry_id = ident, entry_fields = flds\<rparr>]"
proof -
  show "\<not> accepts ident s \<Longrightarrow> xadd now ident flds s = ([], s)"
    using refused_iff[OF assms] assms(2) by (simp add: xadd_def)
next
  assume acc: "accepts ident s"
  let ?s = "case find_dash ident of None \<Rightarrow> s
      | Some dash \<Rightarrow> s\<lparr>last_ms := strtoull ident, last_seq := strtoull (drop (dash + 1) ident)\<rparr>"
  have eq: "xadd now ident flds s = (ident, push_entry ident flds ?s)"
    using refused_iff[OF assms] acc assms(2) unfolding xadd_def Let_def by (simp only: if_False not_True_eq_False)
  have below: "\<forall>e \<in> set (stream_entries s). entry_key e < parse_id ident"
    using acc assms(2) by (simp add: accepts_def)
  have "stream_ok (push_entry ident flds ?s)"
  proof (cases "find_dash ident")
    case None
    then show ?thesis
      using push_ok[OF assms(1) below, of "last_ms s" "last_seq s"] by (simp add: parse_explicit less_eq_prod_def)
  next
    case (Some dash)
    then show ?thesis
      using push_ok[OF assms(1) below] by (simp add: parse_explicit)
  qed
  then show "fst (xadd now ident flds s) = ident \<and> stream_ok (snd (xadd now ident flds s))
      \<and> stream_entries (snd (xadd now ident flds s)) = stream_entries s @ [\<lparr>entry_id = ident, entry_fields = flds\<rparr>]"
    by (simp add: eq push_entry_def split: option.splits)
qed

lemma erase_id_spec:
  "erase_id ident es = (if \<exists>e \<in> set es. entry_id e = ident
     then (True, takeWhile (\<lambda>e. entry_id e \<noteq> ident) es @ tl (dropWhile (\<lambda>e. entry_id e \<noteq> ident) es))
     else (False, es))"
  by (induction es) (auto simp: case_prod_beta)

lemma erase_id_keeps: "\<exists>us ws vs. es = us @ ws @ vs \<and> snd (erase_id ident es) = us @ vs"
proof (induction es)
  case (Cons e es)
  then obtain us ws vs where "es = us @ ws @ vs" "snd (erase_id ident es) = us @ vs" by blast
  then have "e # es = (e # us) @ ws @ vs \<and> (entry_id e \<noteq> ident \<longrightarrow> snd (erase_id ident (e # es)) = (e # us) @ vs)"
    by (simp add: case_prod_beta)
  moreover have "e # es = [] @ [e] @ es \<and> (entry_id e = ident \<longrightarrow> snd (erase_id ident (e # es)) = [] @ es)"
    by simp
  ultimately show ?case by blast
qed simp

lemma xtrim_loop_spec:
  "xtrim_loop maxlen r es = (r + (length es - nat maxlen), drop (length es - nat maxlen) es)"
  by (induction es arbitrary: r) (auto simp: Suc_diff_le)

lemma stream_ok_sub:
  assumes "stream_ok s" and "stream_entries s = us @ ws @ vs"
  shows "stream_ok (s\<lparr>stream_entries := us @ vs\<rparr>)"
  using assms by (auto simp: stream_ok_def sorted_wrt_append)

lemma xdel_ok [kv_inv]: "stream_ok s \<Longrightarrow> stream_ok (snd (xdel ident s))"
  using erase_id_keeps[of "stream_entries s" ident] stream_ok_sub[of s]
  by (auto simp: xdel_def case_prod_beta)

lemma xtrim_ok [kv_inv]:
  assumes "stream_ok s"
  shows "stream_ok (snd (xtrim maxlen s))"
  using stream_ok_sub[OF assms, of "[]" "take (length (stream_entries s) - nat maxlen) (stream_entries s)"]
  by (simp add: xtrim_def xtrim_loop_spec)

section \<open>Properties\<close>

text \<open>
  The states a stream can reach: any calls of \<^verbatim>\<open>XAdd\<close>, \<^verbatim>\<open>XDel\<close> and \<^verbatim>\<open>XTrim\<close> in any order with any
  clock, also one that runs backwards.  The flag says whether one of the generated identifiers wrapped the sequence
  number: the clock had not passed the last timestamp, and the last sequence number was the greatest.
\<close>

inductive stream_reachable :: "bool \<Rightarrow> stream_data \<Rightarrow> bool" where
  start: "stream_reachable False stream_new"
| add: "stream_reachable wrapped s \<Longrightarrow>
    stream_reachable (wrapped \<or> ident = ascii ''*'' \<and> \<not> seq_room now s) (snd (xadd now ident flds s))"
| del: "stream_reachable wrapped s \<Longrightarrow> stream_reachable wrapped (snd (xdel ident s))"
| trim: "stream_reachable wrapped s \<Longrightarrow> stream_reachable wrapped (snd (xtrim maxlen s))"

text \<open>What a wrap leaves of the order: the timestamps do not decrease, and none is above the last one.\<close>

definition ms_ok :: "stream_data \<Rightarrow> bool" where
  "ms_ok s \<longleftrightarrow> sorted (map (fst \<circ> entry_key) (stream_entries s)) \<and> (\<forall>e \<in> set (stream_entries s). fst (entry_key e) \<le> last_ms s)"

lemma ms_ok_sub: "ms_ok s \<Longrightarrow> stream_entries s = us @ ws @ vs \<Longrightarrow> ms_ok (s\<lparr>stream_entries := us @ vs\<rparr>)"
  by (auto simp: ms_ok_def sorted_append)

lemma ms_ok_push:
  "ms_ok s \<Longrightarrow> \<forall>e \<in> set (stream_entries s). fst (entry_key e) \<le> ms \<Longrightarrow> fst (parse_id ident) \<le> ms \<Longrightarrow>
   \<forall>e \<in> set (stream_entries s). fst (entry_key e) \<le> fst (parse_id ident) \<Longrightarrow>
   ms_ok (push_entry ident flds (s\<lparr>last_ms := ms, last_seq := sq\<rparr>))"
  by (auto simp: ms_ok_def push_entry_def sorted_append entry_key_def)

lemma ms_below_last:
  assumes "ms_ok s" "e \<in> set (stream_entries s)"
  shows "fst (entry_key e) \<le> fst (entry_key (last (stream_entries s)))"
proof (cases "stream_entries s" rule: rev_cases)
  case (snoc es l)
  then show ?thesis using assms by (auto simp: ms_ok_def sorted_append)
qed (use assms(2) in simp)

lemma xadd_ms_ok:
  assumes "ms_ok s"
  shows "ms_ok (snd (xadd now ident flds s))"
proof (cases "ident = ascii ''*''")
  case True
  let ?g = "auto_generate_id now s"
  have same: "snd ?g = s\<lparr>last_ms := last_ms (snd ?g), last_seq := last_seq (snd ?g)\<rparr>"
    by (simp add: auto_generate_id_def Let_def)
  have "last_ms s \<le> last_ms (snd ?g)" by (auto simp: auto_generate_id_def Let_def)
  then have above: "\<forall>e \<in> set (stream_entries s). fst (entry_key e) \<le> last_ms (snd ?g)"
    using assms by (auto simp: ms_ok_def intro: order.trans)
  have "ms_ok (push_entry (fst ?g) flds (snd ?g))"
    by (subst same) (rule ms_ok_push[OF assms above]; use above in \<open>simp add: auto_generate_id_parse\<close>)
  then show ?thesis using True by (simp add: xadd_def split_beta)
next
  case False
  show ?thesis
  proof (cases "stream_entries s \<noteq> [] \<and> compare_ids ident (entry_id (last (stream_entries s))) \<le> 0")
    case True
    then show ?thesis using False assms by (simp add: xadd_def)
  next
    case accepted: False
    have above: "fst (entry_key e) \<le> fst (parse_id ident)" if "e \<in> set (stream_entries s)" for e
    proof -
      have "parse_id (entry_id (last (stream_entries s))) < parse_id ident"
        using accepted that by (auto simp: compare_ids_le)
      then show ?thesis using ms_below_last[OF assms that] by (auto simp: entry_key_def less_prod_def)
    qed
    show ?thesis
    proof (cases "find_dash ident")
      case None
      then have "stream_entries s = []"
        using accepted by (auto simp: compare_ids_le parse_explicit less_eq_prod_def)
      then have "ms_ok (push_entry ident flds (s\<lparr>last_ms := last_ms s, last_seq := last_seq s\<rparr>))"
        using assms None by (intro ms_ok_push) (simp_all add: parse_explicit)
      then show ?thesis using False accepted None unfolding xadd_def by (simp only: if_False) simp
    next
      case (Some dash)
      then have "ms_ok (push_entry ident flds (s\<lparr>last_ms := strtoull ident, last_seq := strtoull (drop (dash + 1) ident)\<rparr>))"
        using above by (intro ms_ok_push[OF assms]) (auto simp: parse_explicit)
      then show ?thesis using False accepted Some unfolding xadd_def by (simp only: if_False) simp
    qed
  qed
qed

lemma reachable_ms_ok: "stream_reachable wrapped s \<Longrightarrow> ms_ok s"
proof (induction rule: stream_reachable.induct)
  case start
  show ?case by (simp add: ms_ok_def stream_new_def)
next
  case (del wrapped s ident)
  then show ?case
    using erase_id_keeps[of "stream_entries s" ident] ms_ok_sub[of s] by (auto simp: xdel_def case_prod_beta)
next
  case (trim wrapped s maxlen)
  then show ?case
    using ms_ok_sub[of s "[]" "take (length (stream_entries s) - nat maxlen) (stream_entries s)"] by (simp add: xtrim_def xtrim_loop_spec)
qed (rule xadd_ms_ok)

lemma xadd_ok [kv_inv]:
  assumes "stream_ok s" and "ident = ascii ''*'' \<longrightarrow> seq_room now s"
  shows "stream_ok (snd (xadd now ident flds s))"
  using xadd_generated[OF assms(1)] xadd_explicit[OF assms(1), of ident] assms
  by (cases "ident = ascii ''*''"; cases "accepts ident s") auto

lemma reachable_stream_ok: "stream_reachable wrapped s \<Longrightarrow> \<not> wrapped \<Longrightarrow> stream_ok s"
  by (induction rule: stream_reachable.induct) (auto simp: kv_inv, simp add: stream_ok_def stream_new_def)

text \<open>
  C25. In a stream reached without a wrap of the sequence number, the entries stand in strictly increasing order of the number
  pairs their identifiers denote, none above the pair the next generated identifier continues from; so no two entries have
  the same identifier.  After a wrap that is lost, as \<open>xadd_appends_above\<close> says; what every reachable stream keeps is that the
  timestamps do not decrease and none is above the last one.
\<close>

theorem stream_reachable_ordered:
  assumes "stream_reachable wrapped s"
  shows "(\<not> wrapped \<longrightarrow> stream_ok s \<and> distinct (map entry_id (stream_entries s)))
    \<and> sorted (map (fst \<circ> entry_key) (stream_entries s)) \<and> (\<forall>e \<in> set (stream_entries s). fst (entry_key e) \<le> last_ms s)"
proof -
  have "distinct (map entry_id (stream_entries s))" if "stream_ok s"
  proof -
    have "distinct (map entry_key (stream_entries s))" using that by (simp add: stream_ok_def strict_sorted_iff)
    then show ?thesis by (simp add: distinct_map inj_on_def entry_key_def)
  qed
  then show ?thesis using reachable_stream_ok[OF assms] reachable_ms_ok[OF assms] by (simp add: ms_ok_def)
qed

text \<open>Two entries under a clock that runs backwards, and two with a wrap between them.\<close>

theorem stream_reachable_ordered_witness:
  "distinct (map entry_id (stream_entries (snd (xadd 5 (ascii ''*'') [] (snd (xadd 7 (ascii ''*'') [] stream_new))))))
   \<and> sorted (map (fst \<circ> entry_key) (stream_entries (snd (xadd 7 (ascii ''*'') [] (snd (xadd 7 (ascii ''7-18446744073709551615'') [] stream_new))))))"
proof -
  let ?s = "snd (xadd 7 (ascii ''*'') [] stream_new)"
  have "seq_room 7 stream_new" by (simp add: seq_room_def stream_new_def)
  then have "stream_reachable False ?s" using add[OF start, of "ascii ''*''" 7] by simp
  moreover have "seq_room 5 ?s"
    by (simp add: seq_room_def xadd_def auto_generate_id_def push_entry_def stream_new_def)
  ultimately have "stream_reachable False (snd (xadd 5 (ascii ''*'') [] ?s))"
    using add[of False ?s "ascii ''*''" 5] by simp
  moreover obtain wrapped where
    "stream_reachable wrapped (snd (xadd 7 (ascii ''*'') [] (snd (xadd 7 (ascii ''7-18446744073709551615'') [] stream_new))))"
    using add[OF add[OF start]] by blast
  ultimately show ?thesis using stream_reachable_ordered by blast
qed

text \<open>
  C27. \<^verbatim>\<open>XAdd\<close> on every branch.  An explicit identifier is taken exactly when its pair is above those of
  all entries, and is then appended; otherwise the empty string is returned and nothing
  changes.  \<^verbatim>\<open>"*"\<close> always appends, under a fresh identifier above all entries, unless the clock has not
  passed the last timestamp and the sequence number is at its maximum: then the sequence number
  wraps to 0 and the identifier falls back to the start of that millisecond.
\<close>

theorem xadd_appends_above:
  assumes "stream_ok s"
  shows "(ident \<noteq> ascii ''*'' \<and> \<not> accepts ident s \<longrightarrow> xadd now ident flds s = ([], s))
    \<and> (ident \<noteq> ascii ''*'' \<and> accepts ident s \<longrightarrow> fst (xadd now ident flds s) = ident
        \<and> stream_entries (snd (xadd now ident flds s)) = stream_entries s @ [\<lparr>entry_id = ident, entry_fields = flds\<rparr>])
    \<and> (seq_room now s \<longrightarrow>
        (let (new_id, s') = xadd now (ascii ''*'') flds s in
           stream_entries s' = stream_entries s @ [\<lparr>entry_id = new_id, entry_fields = flds\<rparr>]
           \<and> (\<forall>e \<in> set (stream_entries s). entry_key e < parse_id new_id)
           \<and> parse_id new_id = (last_ms s', last_seq s') \<and> max now (last_ms s) = last_ms s'))
    \<and> (\<not> seq_room now s \<longrightarrow> parse_id (fst (xadd now (ascii ''*'') flds s)) = (last_ms s, 0))"
proof -
  have ids: "parse_id (fst (xadd now (ascii ''*'') flds s))
        = (last_ms (snd (xadd now (ascii ''*'') flds s)), last_seq (snd (xadd now (ascii ''*'') flds s)))
      \<and> max now (last_ms s) = last_ms (snd (xadd now (ascii ''*'') flds s))
      \<and> (\<not> seq_room now s \<longrightarrow> last_ms (snd (xadd now (ascii ''*'') flds s)) = last_ms s
          \<and> last_seq (snd (xadd now (ascii ''*'') flds s)) = 0)"
    by (auto simp: xadd_def case_prod_beta auto_generate_id_parse push_entry_def)
      (auto simp: auto_generate_id_def seq_room_def max_def Let_def)
  have wrap: "\<not> seq_room now s \<longrightarrow> parse_id (fst (xadd now (ascii ''*'') flds s)) = (last_ms s, 0)"
    using ids by simp
  show ?thesis
    unfolding Let_def case_prod_beta
    using ids wrap xadd_explicit(1)[OF assms, of ident now flds]
      xadd_explicit(2)[OF assms, of ident now flds] xadd_generated[OF assms, of now flds] by blast
qed

theorem xadd_appends_above_witness:
  "xadd 9 (ascii ''3-1'') [] (snd (xadd 9 (ascii ''3-1'') [] stream_new)) = ([], snd (xadd 9 (ascii ''3-1'') [] stream_new))"
proof -
  let ?s = "snd (xadd 9 (ascii ''3-1'') [] stream_new)"
  have neq: "ascii ''3-1'' \<noteq> ascii ''*''" by (simp add: ascii_def)
  have ok: "stream_ok ?s"
    using neq by (intro xadd_ok) (simp_all add: stream_ok_def stream_new_def)
  have "stream_entries ?s = [\<lparr>entry_id = ascii ''3-1'', entry_fields = []\<rparr>]"
    using neq by (simp add: xadd_def stream_new_def push_entry_def split: option.splits)
  then have "\<not> accepts (ascii ''3-1'') ?s"
    using neq by (simp add: accepts_def entry_key_def)
  then show ?thesis
    using xadd_appends_above[OF ok, of "ascii ''3-1''" 9 "[]"] neq by blast
qed

lemma xread_loop_spec:
  assumes "cnt > 0 \<Longrightarrow> int (length res) < cnt"
  shows "xread_loop a cnt res es =
    res @ (let hits = filter (\<lambda>e. parse_id a < entry_key e) es
           in if cnt > 0 then take (nat cnt - length res) hits else hits)"
  using assms
proof (induction es arbitrary: res)
  case (Cons e es)
  show ?case
    using Cons.IH[of "res @ [e]"] Cons.IH[of res] Cons.prems
    by (auto simp: Let_def entry_key_def take_Cons' Suc_diff_Suc)
qed simp

lemma xread_spec:
  "xread a cnt s = (let hits = filter (\<lambda>e. parse_id a < entry_key e) (stream_entries s)
     in if cnt > 0 then take (nat cnt) hits else hits)"
  by (simp add: xread_def xread_loop_spec Let_def)

lemma xrange_loop_spec:
  assumes "cnt > 0 \<Longrightarrow> int (length res) < cnt" and "sorted_wrt (<) (map entry_key es)"
  shows "xrange_loop a b cnt res es =
    res @ (let hits = filter (\<lambda>e. parse_id a \<le> entry_key e \<and> entry_key e \<le> parse_id b) es
           in if cnt > 0 then take (nat cnt - length res) hits else hits)"
  using assms
proof (induction es arbitrary: res)
  case (Cons e es)
  have past: "filter (\<lambda>e. parse_id a \<le> entry_key e \<and> entry_key e \<le> parse_id b) (e # es) = []"
    if "parse_id b < entry_key e"
    using Cons.prems(2) that by (auto simp: filter_empty_conv)
  have sorted: "sorted_wrt (<) (map entry_key es)" using Cons.prems(2) by simp
  consider "entry_key e < parse_id a" | "\<not> entry_key e < parse_id a" "parse_id b < entry_key e"
    | "\<not> entry_key e < parse_id a" "\<not> parse_id b < entry_key e" by blast
  then show ?case
  proof cases
    case 1
    then show ?thesis using Cons.IH[of res] Cons.prems(1) sorted by (auto simp: entry_key_def[symmetric] not_le)
  next
    case 2
    then show ?thesis using past by (simp add: entry_key_def Let_def)
  next
    case 3
    then show ?thesis
      using Cons.IH[of "res @ [e]"] Cons.prems(1) sorted
      by (auto simp: Let_def entry_key_def[symmetric] take_Cons' Suc_diff_Suc)
  qed
qed simp

lemma erase_id_filter:
  assumes "sorted_wrt (<) (map entry_key es)"
  shows "snd (erase_id ident es) = filter (\<lambda>e. entry_id e \<noteq> ident) es"
  using assms
proof (induction es)
  case (Cons e es)
  have "filter (\<lambda>x. entry_id x \<noteq> entry_id e) es = es"
    using Cons.prems by (auto simp: filter_id_conv entry_key_def)
  then show ?case using Cons by (auto simp: case_prod_beta)
qed simp

text \<open>In an increasing list, what is above the last of the first \<open>m\<close> elements is the rest.\<close>

lemma filter_above_take:
  fixes f :: "'a \<Rightarrow> 'b::linorder"
  assumes "sorted_wrt (<) (map f xs)" and "take m xs \<noteq> []"
  shows "filter (\<lambda>x. f (last (take m xs)) < f x) xs = drop m xs"
proof -
  let ?t = "take m xs"
  have s: "sorted_wrt (<) (map f (?t @ drop m xs))" using assms(1) by simp
  have "f x \<le> f (last ?t)" if "x \<in> set ?t" for x
  proof -
    have "?t = butlast ?t @ [last ?t]" using assms(2) by simp
    then have "sorted_wrt (<) (map f (butlast ?t @ [last ?t]))" and "x \<in> set (butlast ?t @ [last ?t])"
      using assms(1) that sorted_wrt_take[OF assms(1), of m] by (simp_all add: take_map)
    then show ?thesis by (auto simp: sorted_wrt_append less_imp_le)
  qed
  then have "filter (\<lambda>x. f (last ?t) < f x) ?t = []" by (auto simp: filter_empty_conv not_less)
  moreover have "\<forall>x \<in> set ?t. \<forall>y \<in> set (drop m xs). f x < f y"
    using s unfolding map_append sorted_wrt_append by simp
  then have "filter (\<lambda>x. f (last ?t) < f x) (drop m xs) = drop m xs"
    using last_in_set[OF assms(2)] by (simp add: filter_id_conv)
  ultimately have "filter (\<lambda>x. f (last ?t) < f x) (?t @ drop m xs) = drop m xs"
    by (simp only: filter_append) simp
  then show ?thesis by simp
qed

text \<open>
  C28. \<^verbatim>\<open>XRange(a, b, count)\<close> on an ordered stream returns the entries whose pairs lie between those of
  \<open>a\<close> and \<open>b\<close>, in order, the first \<open>count\<close> of them when \<open>count\<close> is positive, although its loop stops
  at the first entry past \<open>b\<close>; \<^verbatim>\<open>XDel\<close> and \<^verbatim>\<open>XTrim\<close> remove the entry named and the oldest entries beyond
  \<open>maxlen\<close>, and report what they removed.
\<close>

theorem xrange_window:
  assumes "stream_ok s"
  shows "xrange a b cnt s =
      (let hits = filter (\<lambda>e. parse_id a \<le> entry_key e \<and> entry_key e \<le> parse_id b) (stream_entries s)
       in if cnt > 0 then take (nat cnt) hits else hits)
    \<and> stream_entries (snd (xdel ident s)) = filter (\<lambda>e. entry_id e \<noteq> ident) (stream_entries s)
    \<and> fst (xdel ident s) = (\<exists>e \<in> set (stream_entries s). entry_id e = ident)
    \<and> stream_entries (snd (xtrim maxlen s)) = drop (fst (xtrim maxlen s)) (stream_entries s)
    \<and> xlen (snd (xtrim maxlen s)) = min (xlen s) (nat maxlen)"
proof -
  have sorted: "sorted_wrt (<) (map entry_key (stream_entries s))"
    using assms by (simp add: stream_ok_def)
  have "n - (n - k) = min n k" for n k :: nat by (simp add: min_def)
  then show ?thesis
    using sorted erase_id_filter[OF sorted, of ident] xrange_loop_spec[of cnt "[]" "stream_entries s" a b]
    by (simp add: xrange_def xdel_def case_prod_beta xlen_def xtrim_def xtrim_loop_spec erase_id_spec Let_def)
qed

theorem xrange_window_witness:
  "xrange (ascii ''0-0'') (ascii ''7-0'') 0 (snd (xadd 8 (ascii ''*'') [] (snd (xadd 7 (ascii ''*'') [] stream_new))))
    = [\<lparr>entry_id = ascii ''7-0'', entry_fields = []\<rparr>]"
proof -
  let ?s = "snd (xadd 8 (ascii ''*'') [] (snd (xadd 7 (ascii ''*'') [] stream_new)))"
  let ?e = "\<lambda>ms. \<lparr>entry_id = to_string_u64 ms @ ascii ''-'' @ to_string_u64 0, entry_fields = []\<rparr>"
  have es: "stream_entries ?s = [?e 7, ?e 8]"
    by (simp add: xadd_def auto_generate_id_def push_entry_def stream_new_def)
  have key: "entry_key (?e ms) = (ms, 0)" for ms
    by (simp add: entry_key_def parse_generated)
  have ok: "stream_ok ?s"
    by (intro xadd_ok)
      (simp_all add: stream_ok_def stream_new_def seq_room_def xadd_def auto_generate_id_def push_entry_def)
  have "parse_id (ascii ''0-0'') = (0, 0)" and "parse_id (ascii ''7-0'') = (7, 0)"
    by (simp_all add: parse_id_def find_dash_def ascii_def strtoull_def is_space_def is_digit_def scan_sign_def)
  then have "xrange (ascii ''0-0'') (ascii ''7-0'') 0 ?s = [?e 7]"
    using xrange_window[OF ok, of "ascii ''0-0''" "ascii ''7-0''" 0]
    by (simp add: es key less_eq_prod_def less_prod_def)
  then show ?thesis
    by (simp add: to_string_u64_def nat_digits.simps ascii_def)
qed

text \<open>
  Reading a stream in pages: asking again with the identifier of the last entry received returns what
  comes next, so that two reads of \<open>m\<close> and \<open>n\<close> entries return what one read of \<open>m + n\<close> entries
  would have, without loss or repetition.
\<close>

theorem xread_pages:
  assumes "stream_ok s" and "0 < m" and "0 < n" and "xread a m s \<noteq> []"
  shows "xread a (m + n) s = xread a m s @ xread (entry_id (last (xread a m s))) n s"
proof -
  let ?H = "filter (\<lambda>e. parse_id a < entry_key e) (stream_entries s)"
  have page: "xread b k s = take (nat k) (filter (\<lambda>e. parse_id b < entry_key e) (stream_entries s))" if "0 < k" for b k
    using that by (simp add: xread_spec)
  have ne: "take (nat m) ?H \<noteq> []" using assms page by simp
  let ?K = "entry_key (last (take (nat m) ?H))"
  have "parse_id a < ?K"
    using last_in_set[OF ne] by (auto dest: in_set_takeD)
  then have "filter (\<lambda>e. ?K < entry_key e) (stream_entries s) = filter (\<lambda>e. ?K < entry_key e) ?H"
    by (auto intro: filter_cong)
  also have "\<dots> = drop (nat m) ?H"
    using assms(1) ne by (intro filter_above_take) (simp_all add: stream_ok_def sorted_wrt_map sorted_wrt_filter)
  finally have "xread (entry_id (last (xread a m s))) n s = take (nat n) (drop (nat m) ?H)"
    using assms(2,3) by (simp add: page entry_key_def)
  then show ?thesis
    using assms(2,3) by (simp add: page take_add nat_add_distrib)
qed

theorem xread_pages_witness:
  "(let s = snd (xadd 8 (ascii ''*'') [] (snd (xadd 7 (ascii ''*'') [] stream_new))) in
    map entry_key (xread (ascii ''0-0'') 2 s) = [(7, 0), (8, 0)])"
proof -
  let ?s1 = "snd (xadd 7 (ascii ''*'') [] stream_new)"
  let ?s = "snd (xadd 8 (ascii ''*'') [] ?s1)"
  let ?e = "\<lambda>ms. \<lparr>entry_id = to_string_u64 ms @ ascii ''-'' @ to_string_u64 0, entry_fields = []\<rparr>"
  have es: "stream_entries ?s = [?e 7, ?e 8]"
    by (simp add: xadd_def auto_generate_id_def push_entry_def stream_new_def)
  have key: "entry_key (?e ms) = (ms, 0)" for ms
    by (simp add: entry_key_def parse_generated)
  have ok: "stream_ok ?s"
    by (intro xadd_ok)
      (simp_all add: stream_ok_def stream_new_def seq_room_def xadd_def auto_generate_id_def push_entry_def)
  have zero: "parse_id (ascii ''0-0'') = (0, 0)"
    by (simp add: parse_id_def find_dash_def ascii_def strtoull_def is_space_def is_digit_def scan_sign_def)
  have one: "xread (ascii ''0-0'') 1 ?s = [?e 7]"
    by (simp add: xread_spec es key zero less_prod_def)
  have nxt: "xread (entry_id (?e 7)) 1 ?s = [?e 8]"
    by (simp add: xread_spec es key parse_generated less_prod_def)
  show ?thesis
    using xread_pages[OF ok, of 1 1 "ascii ''0-0''"] one nxt by (simp add: key)
qed

end
