(* ===== verification/Dash_Map.thy ===== *)
theory Dash_Map
  imports Kv_Prelude
begin

text \<open>
  \<^verbatim>\<open>src/dash_map.hpp\<close>: the hash map every component of the engine is built on.  The shard maps are
  \<^verbatim>\<open>absl::flat_hash_map\<close>s, which are not part of the repository: they are used through their
  documented contract, a finite map with one entry per key, kept here as an association list whose
  keys are distinct.  The two things their code decides and the program can see are parameters of the
  operations that depend on them: the hash of a key (\<open>h\<close>, \<^verbatim>\<open>absl::Hash\<close>) and the order in which an
  iteration visits the keys of one shard (\<open>ord\<close>, about which only \<open>visits_all\<close> is ever assumed).

  \<^verbatim>\<open>ThreadSafe=true\<close> is the record \<open>dashmap\<close> (shards and an atomic counter); \<^verbatim>\<open>ThreadSafe=false\<close> is
  \<open>singlemap\<close>.  Both interpret the interface \<open>counted_map\<close>, on whose lemmas the clients rest.  A call
  holds its shard's lock throughout, so each operation is one atomic step on the state.
\<close>

section \<open>The interface\<close>

locale counted_map =
  fixes invar :: "'m \<Rightarrow> bool"
    and lookup :: "'k \<Rightarrow> 'm \<Rightarrow> 'v option"
    and insert :: "'k \<Rightarrow> 'v \<Rightarrow> 'm \<Rightarrow> bool \<times> 'm"
    and remove :: "'k \<Rightarrow> 'm \<Rightarrow> bool \<times> 'm"
    and count :: "'m \<Rightarrow> nat"
  assumes finite_keys: "invar m \<Longrightarrow> finite {k. lookup k m \<noteq> None}"
    and count_card: "invar m \<Longrightarrow> count m = card {k. lookup k m \<noteq> None}"
    and lookup_insert: "invar m \<Longrightarrow> lookup k' (snd (insert k v m)) = (if k' = k then Some v else lookup k' m)"
    and insert_fresh: "invar m \<Longrightarrow> fst (insert k v m) = (lookup k m = None)"
    and invar_insert: "invar m \<Longrightarrow> invar (snd (insert k v m))"
    and lookup_remove: "invar m \<Longrightarrow> lookup k' (snd (remove k m)) = (if k' = k then None else lookup k' m)"
    and remove_found: "invar m \<Longrightarrow> fst (remove k m) = (lookup k m \<noteq> None)"
    and invar_remove: "invar m \<Longrightarrow> invar (snd (remove k m))"
begin

lemma insert_idem:
  "invar m \<Longrightarrow> lookup k' (snd (insert k v (snd (insert k w m)))) = lookup k' (snd (insert k v m))"
  by (simp add: lookup_insert invar_insert)

lemma remove_insert:
  "invar m \<Longrightarrow> lookup k' (snd (remove k (snd (insert k v m)))) = lookup k' (snd (remove k m))"
  by (simp add: lookup_insert lookup_remove invar_insert)

lemma count_insert:
  assumes "invar m"
  shows "count (snd (insert k v m)) = (if lookup k m = None then Suc (count m) else count m)"
proof -
  have "{k'. lookup k' (snd (insert k v m)) \<noteq> None} = Set.insert k {k'. lookup k' m \<noteq> None}"
    using assms by (auto simp: lookup_insert)
  then show ?thesis
    using assms finite_keys[OF assms]
    by (auto simp: count_card invar_insert card_insert_if)
qed

lemma count_remove:
  assumes "invar m"
  shows "count (snd (remove k m)) = (if lookup k m = None then count m else count m - 1)"
proof -
  have "{k'. lookup k' (snd (remove k m)) \<noteq> None} = {k'. lookup k' m \<noteq> None} - {k}"
    using assms by (auto simp: lookup_remove)
  then show ?thesis
    using assms finite_keys[OF assms]
    by (auto simp: count_card invar_remove card_Diff_singleton_if)
qed

text \<open>Writing a sequence of entries: the last one for a key counts.\<close>

lemma insert_all:
  assumes "invar m"
  shows "invar (fold (\<lambda>(k, v) m. snd (insert k v m)) es m)
    \<and> lookup k (fold (\<lambda>(k, v) m. snd (insert k v m)) es m)
      = (case map_of (rev es) k of None \<Rightarrow> lookup k m | Some v \<Rightarrow> Some v)"
  using assms
proof (induction es rule: rev_induct)
  case (snoc e es)
  then show ?case by (cases e) (auto simp: lookup_insert invar_insert)
qed simp

lemma count_zero: "invar m \<Longrightarrow> count m = 0 \<longleftrightarrow> (\<forall>k. lookup k m = None)"
  using finite_keys[of m] by (auto simp: count_card)

end

section \<open>One shard: the contract of \<^verbatim>\<open>absl::flat_hash_map\<close>\<close>

type_synonym ('k, 'v) shard = "('k \<times> 'v) list"

text \<open>Equality of keys is \<^verbatim>\<open>StringEqual\<close>: equality of the strings' bytes.\<close>

definition shard_ok :: "('k, 'v) shard \<Rightarrow> bool" where
  "shard_ok s \<longleftrightarrow> distinct (map fst s)"

definition visits_all :: "('k list \<Rightarrow> 'k list) \<Rightarrow> bool" where
  "visits_all ord \<longleftrightarrow> (\<forall>ks. distinct ks \<longrightarrow> set (ord ks) = set ks \<and> distinct (ord ks))"

text \<open>The keys of a shard in the order an iteration meets them.\<close>

definition shard_keys :: "('k list \<Rightarrow> 'k list) \<Rightarrow> ('k, 'v) shard \<Rightarrow> 'k list" where
  "shard_keys ord s = ord (map fst s)"

definition shard_entries :: "('k list \<Rightarrow> 'k list) \<Rightarrow> ('k, 'v) shard \<Rightarrow> ('k \<times> 'v) list" where
  "shard_entries ord s = map (\<lambda>k. (k, the (map_of s k))) (shard_keys ord s)"

section \<open>\<^verbatim>\<open>DashMap<Key, Value, true>\<close>\<close>

record ('k, 'v) dashmap =
  dm_shards :: "('k, 'v) shard list"
  dm_count :: nat

definition dm_new :: "nat \<Rightarrow> ('k, 'v) dashmap" where
  "dm_new num_shards = \<lparr>dm_shards = replicate num_shards [], dm_count = 0\<rparr>"

text \<open>\<^verbatim>\<open>ShardIndex\<close>; the remainder by 0 shards is undefined in C++ and outside the invariant.\<close>

definition shard_index :: "('k \<Rightarrow> u64) \<Rightarrow> ('k, 'v) dashmap \<Rightarrow> 'k \<Rightarrow> nat" where
  "shard_index h m k = unat (h k) mod length (dm_shards m)"

definition dm_insert :: "('k \<Rightarrow> u64) \<Rightarrow> 'k \<Rightarrow> 'v \<Rightarrow> ('k, 'v) dashmap \<Rightarrow> bool \<times> ('k, 'v) dashmap" where
  "dm_insert h k v m =
     (let idx = shard_index h m k;
          s = dm_shards m ! idx;
          inserted = (map_of s k = None);
          m' = m\<lparr>dm_shards := (dm_shards m)[idx := AList.update k v s]\<rparr>
      in (inserted, if inserted then m'\<lparr>dm_count := dm_count m' + 1\<rparr> else m'))"

definition dm_get :: "('k \<Rightarrow> u64) \<Rightarrow> 'k \<Rightarrow> ('k, 'v) dashmap \<Rightarrow> 'v option" where
  "dm_get h k m = map_of (dm_shards m ! shard_index h m k) k"

definition dm_remove :: "('k \<Rightarrow> u64) \<Rightarrow> 'k \<Rightarrow> ('k, 'v) dashmap \<Rightarrow> bool \<times> ('k, 'v) dashmap" where
  "dm_remove h k m =
     (let idx = shard_index h m k;
          s = dm_shards m ! idx;
          erased = (map_of s k \<noteq> None);
          m' = m\<lparr>dm_shards := (dm_shards m)[idx := AList.delete k s]\<rparr>
      in if erased then (True, m'\<lparr>dm_count := dm_count m' - 1\<rparr>) else (False, m'))"

definition dm_contains :: "('k \<Rightarrow> u64) \<Rightarrow> 'k \<Rightarrow> ('k, 'v) dashmap \<Rightarrow> bool" where
  "dm_contains h k m = (map_of (dm_shards m ! shard_index h m k) k \<noteq> None)"

definition dm_size :: "('k, 'v) dashmap \<Rightarrow> nat" where
  "dm_size m = dm_count m"

definition dm_is_empty :: "('k, 'v) dashmap \<Rightarrow> bool" where
  "dm_is_empty m = (dm_size m = 0)"

definition dm_clear :: "('k, 'v) dashmap \<Rightarrow> ('k, 'v) dashmap" where
  "dm_clear m = m\<lparr>dm_shards := map (\<lambda>_. []) (dm_shards m), dm_count := 0\<rparr>"

text \<open>The bulk reads visit the shards in order and each shard in the order of its own table.\<close>

definition dm_all_keys :: "('k list \<Rightarrow> 'k list) \<Rightarrow> ('k, 'v) dashmap \<Rightarrow> 'k list" where
  "dm_all_keys ord m = concat (map (shard_keys ord) (dm_shards m))"

definition dm_all_entries :: "('k list \<Rightarrow> 'k list) \<Rightarrow> ('k, 'v) dashmap \<Rightarrow> ('k \<times> 'v) list" where
  "dm_all_entries ord m = concat (map (shard_entries ord) (dm_shards m))"

text \<open>\<^verbatim>\<open>ForEach\<close>: the callback is a state transformer, run under each shard's reader lock.\<close>

definition dm_for_each ::
    "('k list \<Rightarrow> 'k list) \<Rightarrow> ('k \<Rightarrow> 'v \<Rightarrow> 's \<Rightarrow> 's) \<Rightarrow> ('k, 'v) dashmap \<Rightarrow> 's \<Rightarrow> 's" where
  "dm_for_each ord callback m acc =
     fold (\<lambda>s a. fold (\<lambda>(k, v). callback k v) (shard_entries ord s) a) (dm_shards m) acc"

definition dm_num_shards :: "('k, 'v) dashmap \<Rightarrow> nat" where
  "dm_num_shards m = length (dm_shards m)"

text \<open>
  The overloads for a \<^verbatim>\<open>string_view\<close>: the writers make a string of it, the readers hash the view itself (\<open>hv\<close>, another
  instance of \<^verbatim>\<open>absl::Hash\<close>) and look it up in the shard that hash selects.
\<close>

definition dm_insert_view :: "('k \<Rightarrow> u64) \<Rightarrow> 'k \<Rightarrow> 'v \<Rightarrow> ('k, 'v) dashmap \<Rightarrow> bool \<times> ('k, 'v) dashmap" where
  "dm_insert_view h k v m = dm_insert h k v m"

definition dm_get_view :: "('k \<Rightarrow> u64) \<Rightarrow> 'k \<Rightarrow> ('k, 'v) dashmap \<Rightarrow> 'v option" where
  "dm_get_view hv k m = map_of (dm_shards m ! (unat (hv k) mod length (dm_shards m))) k"

definition dm_remove_view :: "('k \<Rightarrow> u64) \<Rightarrow> 'k \<Rightarrow> ('k, 'v) dashmap \<Rightarrow> bool \<times> ('k, 'v) dashmap" where
  "dm_remove_view h k m = dm_remove h k m"

definition dm_contains_view :: "('k \<Rightarrow> u64) \<Rightarrow> 'k \<Rightarrow> ('k, 'v) dashmap \<Rightarrow> bool" where
  "dm_contains_view hv k m = (map_of (dm_shards m ! (unat (hv k) mod length (dm_shards m))) k \<noteq> None)"

section \<open>\<^verbatim>\<open>DashMap<Key, Value, false>\<close>\<close>

record ('k, 'v) singlemap =
  single :: "('k, 'v) shard"
  size_unlocked :: nat

definition sm_new :: "('k, 'v) singlemap" where
  "sm_new = \<lparr>single = [], size_unlocked = 0\<rparr>"

definition sm_insert :: "'k \<Rightarrow> 'v \<Rightarrow> ('k, 'v) singlemap \<Rightarrow> bool \<times> ('k, 'v) singlemap" where
  "sm_insert k v m =
     (let inserted = (map_of (single m) k = None);
          m' = m\<lparr>single := AList.update k v (single m)\<rparr>
      in (inserted, if inserted then m'\<lparr>size_unlocked := size_unlocked m' + 1\<rparr> else m'))"

definition sm_get :: "'k \<Rightarrow> ('k, 'v) singlemap \<Rightarrow> 'v option" where
  "sm_get k m = map_of (single m) k"

definition sm_remove :: "'k \<Rightarrow> ('k, 'v) singlemap \<Rightarrow> bool \<times> ('k, 'v) singlemap" where
  "sm_remove k m =
     (let erased = (map_of (single m) k \<noteq> None);
          m' = m\<lparr>single := AList.delete k (single m)\<rparr>
      in if erased then (True, m'\<lparr>size_unlocked := size_unlocked m' - 1\<rparr>) else (False, m'))"

definition sm_size :: "('k, 'v) singlemap \<Rightarrow> nat" where
  "sm_size m = size_unlocked m"

definition sm_clear :: "('k, 'v) singlemap \<Rightarrow> ('k, 'v) singlemap" where
  "sm_clear m = m\<lparr>single := [], size_unlocked := 0\<rparr>"

definition sm_all_keys :: "('k list \<Rightarrow> 'k list) \<Rightarrow> ('k, 'v) singlemap \<Rightarrow> 'k list" where
  "sm_all_keys ord m = shard_keys ord (single m)"

definition sm_contains :: "'k \<Rightarrow> ('k, 'v) singlemap \<Rightarrow> bool" where
  "sm_contains k m = (map_of (single m) k \<noteq> None)"

definition sm_all_entries :: "('k list \<Rightarrow> 'k list) \<Rightarrow> ('k, 'v) singlemap \<Rightarrow> ('k \<times> 'v) list" where
  "sm_all_entries ord m = shard_entries ord (single m)"

definition sm_for_each ::
    "('k list \<Rightarrow> 'k list) \<Rightarrow> ('k \<Rightarrow> 'v \<Rightarrow> 's \<Rightarrow> 's) \<Rightarrow> ('k, 'v) singlemap \<Rightarrow> 's \<Rightarrow> 's" where
  "sm_for_each ord callback m acc = fold (\<lambda>(k, v). callback k v) (shard_entries ord (single m)) acc"

section \<open>Shards\<close>

lemma shard_ok_update [simp]: "shard_ok s \<Longrightarrow> shard_ok (AList.update k v s)"
  by (simp add: shard_ok_def distinct_update)

lemma shard_ok_delete [simp]: "shard_ok s \<Longrightarrow> shard_ok (AList.delete k s)"
  by (simp add: shard_ok_def distinct_delete)

lemma shard_ok_Nil [simp]: "shard_ok []"
  by (simp add: shard_ok_def)

lemma map_of_update_shard [simp]:
  "map_of (AList.update k v s) k' = (if k' = k then Some v else map_of s k')"
  by (simp add: update_conv')

lemma map_of_delete_shard [simp]:
  "map_of (AList.delete k s) k' = (if k' = k then None else map_of s k')"
  by (simp add: delete_conv')

lemma dom_map_of_card: "shard_ok s \<Longrightarrow> card (dom (map_of s)) = length s"
  using distinct_card[of "map fst s"] by (simp add: shard_ok_def dom_map_of_conv_image_fst)

lemma length_update_shard:
  assumes "shard_ok s"
  shows "length (AList.update k v s) = (if map_of s k = None then Suc (length s) else length s)"
proof -
  have "dom (map_of (AList.update k v s)) = Set.insert k (dom (map_of s))"
    by (auto simp: dom_def)
  then have "length (AList.update k v s) = card (Set.insert k (dom (map_of s)))"
    using assms by (simp flip: dom_map_of_card)
  also have "\<dots> = (if map_of s k = None then Suc (length s) else length s)"
    using assms by (auto simp: dom_map_of_card[symmetric] card_insert_if finite_dom_map_of)
  finally show ?thesis .
qed

lemma length_delete_shard:
  assumes "shard_ok s"
  shows "length (AList.delete k s) = (if map_of s k = None then length s else length s - 1)"
proof -
  have "dom (map_of (AList.delete k s)) = dom (map_of s) - {k}"
    by (auto simp: dom_def)
  then have "length (AList.delete k s) = card (dom (map_of s) - {k})"
    using assms by (simp flip: dom_map_of_card)
  also have "\<dots> = (if map_of s k = None then length s else length s - 1)"
    using assms by (auto simp: dom_map_of_card[symmetric] card_Diff_singleton_if finite_dom_map_of)
  finally show ?thesis .
qed

lemma visits_all_set: "visits_all ord \<Longrightarrow> shard_ok s \<Longrightarrow> set (shard_keys ord s) = dom (map_of s)"
  by (simp add: visits_all_def shard_ok_def shard_keys_def dom_map_of_conv_image_fst)

lemma visits_all_distinct: "visits_all ord \<Longrightarrow> shard_ok s \<Longrightarrow> distinct (shard_keys ord s)"
  by (simp add: visits_all_def shard_ok_def shard_keys_def)

lemma visits_all_id: "visits_all (\<lambda>ks. ks)" and visits_all_rev: "visits_all rev"
  by (simp_all add: visits_all_def)

section \<open>The sharded map implements the interface\<close>

text \<open>
  The invariant: there is a shard, every shard has distinct keys, a key is only ever in the shard its
  hash selects, and the counter is the number of entries over all shards.
\<close>

definition dm_ok :: "('k \<Rightarrow> u64) \<Rightarrow> ('k, 'v) dashmap \<Rightarrow> bool" where
  "dm_ok h m \<longleftrightarrow>
     dm_shards m \<noteq> [] \<and>
     (\<forall>i < length (dm_shards m).
        shard_ok (dm_shards m ! i) \<and> (\<forall>k \<in> dom (map_of (dm_shards m ! i)). shard_index h m k = i)) \<and>
     dm_count m = sum_list (map length (dm_shards m))"

lemma dm_okD:
  assumes "dm_ok h m"
  shows "shard_index h m k < length (dm_shards m)"
    and "i < length (dm_shards m) \<Longrightarrow> shard_ok (dm_shards m ! i)"
    and "i < length (dm_shards m) \<Longrightarrow> map_of (dm_shards m ! i) k \<noteq> None \<Longrightarrow> shard_index h m k = i"
    and "dm_count m = sum_list (map length (dm_shards m))"
  using assms by (auto simp: dm_ok_def shard_index_def)

lemma shard_index_cong: "length (dm_shards m') = length (dm_shards m) \<Longrightarrow> shard_index h m' k = shard_index h m k"
  by (simp add: shard_index_def)

text \<open>Changing one key's entry in its own shard keeps the invariant, and only that lookup changes.\<close>

lemma dm_ok_change:
  assumes ok: "dm_ok h m" and i: "i = shard_index h m k" and s: "shard_ok s"
    and s_lookup: "\<And>k'. k' \<noteq> k \<Longrightarrow> map_of s k' = map_of (dm_shards m ! i) k'"
    and n: "n + length (dm_shards m ! i) = dm_count m + length s"
  shows "dm_ok h \<lparr>dm_shards = (dm_shards m)[i := s], dm_count = n\<rparr>"
    and "dm_get h k' \<lparr>dm_shards = (dm_shards m)[i := s], dm_count = n\<rparr> =
         (if k' = k then map_of s k else dm_get h k' m)"
proof -
  let ?m' = "\<lparr>dm_shards = (dm_shards m)[i := s], dm_count = n\<rparr>"
  have idx: "shard_index h \<lparr>dm_shards = (dm_shards m)[i := s], dm_count = c\<rparr> k' = shard_index h m k'" for c k'
    by (rule shard_index_cong) simp
  have il: "i < length (dm_shards m)"
    using dm_okD(1)[OF ok] i by simp
  have "n = sum_list (map length ((dm_shards m)[i := s]))"
    using n sum_list_update_nat[OF il, of length s] dm_okD(4)[OF ok] by simp
  moreover have "shard_ok ((dm_shards m)[i := s] ! j) \<and>
      (\<forall>k \<in> dom (map_of ((dm_shards m)[i := s] ! j)). shard_index h m k = j)"
    if j: "j < length (dm_shards m)" for j
  proof (cases "j = i")
    case True
    have "shard_index h m k' = i" if "map_of s k' \<noteq> None" for k'
      using that i s_lookup[of k'] dm_okD(3)[OF ok il, of k'] by (cases "k' = k") auto
    then show ?thesis using True il s by auto
  next
    case False
    then show ?thesis
      using dm_okD(2,3)[OF ok j] by auto
  qed
  ultimately show "dm_ok h ?m'"
    using ok by (auto simp: dm_ok_def idx)
  show "dm_get h k' ?m' = (if k' = k then map_of s k else dm_get h k' m)"
    unfolding dm_get_def idx using il s_lookup[of k'] i by (auto simp: nth_list_update)
qed

lemma dm_insert_eq:
  "dm_insert h k v m =
     (let i = shard_index h m k; s = dm_shards m ! i
      in (map_of s k = None,
          \<lparr>dm_shards = (dm_shards m)[i := AList.update k v s],
           dm_count = (if map_of s k = None then dm_count m + 1 else dm_count m)\<rparr>))"
  by (cases m) (simp add: dm_insert_def Let_def shard_index_def)

lemma dm_remove_eq:
  "dm_remove h k m =
     (let i = shard_index h m k; s = dm_shards m ! i
      in (map_of s k \<noteq> None,
          \<lparr>dm_shards = (dm_shards m)[i := AList.delete k s],
           dm_count = (if map_of s k = None then dm_count m else dm_count m - 1)\<rparr>))"
  by (cases m) (simp add: dm_remove_def Let_def shard_index_def)

lemma dm_count_ge: "dm_ok h m \<Longrightarrow> i < length (dm_shards m) \<Longrightarrow> length (dm_shards m ! i) \<le> dm_count m"
  by (simp add: dm_ok_def member_le_sum_list)

lemma dm_insert_spec:
  assumes "dm_ok h m"
  shows "dm_ok h (snd (dm_insert h k v m))"
    and "dm_get h k' (snd (dm_insert h k v m)) = (if k' = k then Some v else dm_get h k' m)"
    and "fst (dm_insert h k v m) = (dm_get h k m = None)"
  using dm_ok_change[OF assms refl, of "AList.update k v (dm_shards m ! shard_index h m k)" k
      "if map_of (dm_shards m ! shard_index h m k) k = None then dm_count m + 1 else dm_count m"]
    dm_okD(1,2)[OF assms]
  by (auto simp: dm_insert_eq Let_def length_update_shard dm_get_def)

lemma dm_remove_spec:
  assumes "dm_ok h m"
  shows "dm_ok h (snd (dm_remove h k m))"
    and "dm_get h k' (snd (dm_remove h k m)) = (if k' = k then None else dm_get h k' m)"
    and "fst (dm_remove h k m) = (dm_get h k m \<noteq> None)"
proof -
  let ?s = "dm_shards m ! shard_index h m k"
  have "map_of ?s k \<noteq> None \<Longrightarrow> ?s \<noteq> []" by auto
  moreover have "length ?s \<le> dm_count m"
    using dm_count_ge[OF assms dm_okD(1)[OF assms]] .
  ultimately have "(if map_of ?s k = None then dm_count m else dm_count m - 1) + length ?s
      = dm_count m + length (AList.delete k ?s)"
    using dm_okD(1)[OF assms, of k] length_delete_shard[OF dm_okD(2)[OF assms], of "shard_index h m k" k]
    by (cases ?s) auto
  note * = dm_ok_change[OF assms refl _ _ this, simplified]
  show "dm_ok h (snd (dm_remove h k m))"
    and "dm_get h k' (snd (dm_remove h k m)) = (if k' = k then None else dm_get h k' m)"
    using * dm_okD(2)[OF assms dm_okD(1)[OF assms]] by (auto simp: dm_remove_eq Let_def)
  show "fst (dm_remove h k m) = (dm_get h k m \<noteq> None)"
    by (auto simp: dm_remove_eq Let_def dm_get_def)
qed

text \<open>The keys, and that the counter counts them.\<close>

lemma dm_get_conv_nth:
  assumes "dm_ok h m"
  shows "dm_get h k m \<noteq> None \<longleftrightarrow> (\<exists>i < length (dm_shards m). k \<in> dom (map_of (dm_shards m ! i)))"
proof
  show "dm_get h k m \<noteq> None \<Longrightarrow> \<exists>i < length (dm_shards m). k \<in> dom (map_of (dm_shards m ! i))"
    using dm_okD(1)[OF assms] by (auto simp: dm_get_def)
  show "\<exists>i < length (dm_shards m). k \<in> dom (map_of (dm_shards m ! i)) \<Longrightarrow> dm_get h k m \<noteq> None"
    using dm_okD(3)[OF assms] unfolding dm_get_def by blast
qed

lemma dm_keys_card:
  assumes ok: "dm_ok h m"
  shows "finite {k. dm_get h k m \<noteq> None}" and "dm_size m = card {k. dm_get h k m \<noteq> None}"
proof -
  let ?D = "\<lambda>i. dom (map_of (dm_shards m ! i))" and ?I = "{..<length (dm_shards m)}"
  have keys: "{k. dm_get h k m \<noteq> None} = (\<Union>i \<in> ?I. ?D i)"
    using dm_get_conv_nth[OF ok] by auto
  show "finite {k. dm_get h k m \<noteq> None}"
    unfolding keys by (simp add: finite_dom_map_of)
  have "card (\<Union>i \<in> ?I. ?D i) = (\<Sum>i \<in> ?I. card (?D i))"
  proof (rule card_UN_disjoint)
    show "\<forall>i\<in>?I. \<forall>j\<in>?I. i \<noteq> j \<longrightarrow> ?D i \<inter> ?D j = {}"
    proof (intro ballI impI)
      fix i j assume "i \<in> ?I" "j \<in> ?I" "i \<noteq> j"
      then show "?D i \<inter> ?D j = {}"
        using dm_okD(3)[OF ok, of i] dm_okD(3)[OF ok, of j] by auto
    qed
  qed (auto simp: finite_dom_map_of)
  also have "\<dots> = (\<Sum>i \<in> ?I. length (dm_shards m ! i))"
    using dm_okD(2)[OF ok] by (intro sum.cong) (auto simp: dom_map_of_card)
  also have "\<dots> = sum_list (map length (dm_shards m))"
    by (simp add: sum_list_sum_nth atLeast0LessThan)
  finally show "dm_size m = card {k. dm_get h k m \<noteq> None}"
    using dm_okD(4)[OF ok] unfolding keys by (simp add: dm_size_def)
qed

lemma dm_new_spec: "0 < n \<Longrightarrow> dm_ok h (dm_new n)" and dm_get_new: "0 < n \<Longrightarrow> dm_get h k (dm_new n) = None"
  by (auto simp: dm_ok_def dm_new_def dm_get_def shard_index_def)

interpretation dm: counted_map "dm_ok h" "dm_get h" "dm_insert h" "dm_remove h" dm_size
  for h :: "'k \<Rightarrow> u64"
  by unfold_locales (assumption | rule dm_insert_spec dm_remove_spec dm_keys_card)+

interpretation sm: counted_map "\<lambda>m. shard_ok (single m) \<and> size_unlocked m = length (single m)"
    sm_get sm_insert sm_remove sm_size
proof unfold_locales
  fix m :: "('k, 'v) singlemap"
  assume "shard_ok (single m) \<and> size_unlocked m = length (single m)"
  then show "finite {k. sm_get k m \<noteq> None}" and "sm_size m = card {k. sm_get k m \<noteq> None}"
    using dom_map_of_card[of "single m"] finite_dom_map_of[of "single m"]
    by (simp_all add: sm_get_def sm_size_def dom_def)
qed (auto simp: sm_insert_def sm_get_def sm_remove_def Let_def length_update_shard length_delete_shard)

lemma dm_ok_insert [kv_inv, simp]: "dm_ok h m \<Longrightarrow> dm_ok h (snd (dm_insert h k v m))"
  by (rule dm.invar_insert)

lemma dm_ok_remove [kv_inv, simp]: "dm_ok h m \<Longrightarrow> dm_ok h (snd (dm_remove h k m))"
  by (rule dm.invar_remove)

lemma dm_contains_get: "dm_contains h k m = (dm_get h k m \<noteq> None)"
  by (simp add: dm_contains_def dm_get_def)

lemma dm_clear_spec:
  assumes "dm_ok h m"
  shows "dm_ok h (dm_clear m)" and "dm_get h k (dm_clear m) = None"
  using assms by (auto simp: dm_ok_def dm_clear_def dm_get_def shard_index_def)

section \<open>Bulk reads\<close>

lemma dm_get_shard:
  assumes "dm_ok h m" and "i < length (dm_shards m)"
  shows "map_of (dm_shards m ! i) k = Some v \<longleftrightarrow> shard_index h m k = i \<and> dm_get h k m = Some v"
  using dm_okD(3)[OF assms, of k] by (auto simp: dm_get_def)

lemma set_shard_entries:
  assumes "visits_all ord" and "shard_ok s"
  shows "(k, v) \<in> set (shard_entries ord s) \<longleftrightarrow> map_of s k = Some v"
  using visits_all_set[OF assms] by (auto simp: shard_entries_def)

lemma map_fst_entries: "map fst (dm_all_entries ord m) = dm_all_keys ord m"
  by (simp add: dm_all_entries_def dm_all_keys_def shard_entries_def map_concat comp_def)

lemma set_all_entries:
  assumes ord: "visits_all ord" and ok: "dm_ok h m"
  shows "(k, v) \<in> set (dm_all_entries ord m) \<longleftrightarrow> dm_get h k m = Some v"
proof -
  have "(k, v) \<in> set (dm_all_entries ord m)
      \<longleftrightarrow> (\<exists>i < length (dm_shards m). (k, v) \<in> set (shard_entries ord (dm_shards m ! i)))"
    by (auto simp: dm_all_entries_def in_set_conv_nth[of _ "dm_shards m"]) (metis nth_mem)
  also have "\<dots> \<longleftrightarrow> (\<exists>i < length (dm_shards m). map_of (dm_shards m ! i) k = Some v)"
    using set_shard_entries[OF ord dm_okD(2)[OF ok]] by auto
  also have "\<dots> \<longleftrightarrow> dm_get h k m = Some v"
    using dm_get_shard[OF ok] dm_okD(1)[OF ok, of k] by blast
  finally show ?thesis .
qed

lemma set_all_keys:
  assumes "visits_all ord" and "dm_ok h m"
  shows "set (dm_all_keys ord m) = {k. dm_get h k m \<noteq> None}"
proof -
  have "set (dm_all_keys ord m) = fst ` set (dm_all_entries ord m)"
    by (metis map_fst_entries set_map)
  then show ?thesis using set_all_entries[OF assms] by force
qed

lemma length_all_keys:
  assumes ord: "visits_all ord" and ok: "dm_ok h m"
  shows "length (dm_all_keys ord m) = dm_size m"
proof -
  have "length (shard_keys ord s) = length s" if "s \<in> set (dm_shards m)" for s
  proof -
    have s: "shard_ok s" using that dm_okD(2)[OF ok] by (auto simp: in_set_conv_nth)
    have "length (shard_keys ord s) = card (dom (map_of s))"
      using visits_all_set[OF ord s] distinct_card[OF visits_all_distinct[OF ord s]] by simp
    then show ?thesis by (simp add: dom_map_of_card s)
  qed
  then show ?thesis
    using dm_okD(4)[OF ok]
    by (simp add: dm_all_keys_def dm_size_def length_concat comp_def cong: map_cong)
qed

lemma distinct_all_keys:
  assumes "visits_all ord" and "dm_ok h m"
  shows "distinct (dm_all_keys ord m)"
  using length_all_keys[OF assms] dm.count_card[OF assms(2)]
  by (intro card_distinct) (simp add: set_all_keys[OF assms])

lemma length_all_entries:
  "visits_all ord \<Longrightarrow> dm_ok h m \<Longrightarrow> length (dm_all_entries ord m) = dm_size m"
  by (metis length_all_keys length_map map_fst_entries)

lemma dm_for_each_fold:
  "dm_for_each ord f m acc = fold (\<lambda>(k, v). f k v) (dm_all_entries ord m) acc"
proof -
  have "fold (\<lambda>s a. fold g (shard_entries ord s) a) ss acc = fold g (concat (map (shard_entries ord) ss)) acc"
    for g ss by (induction ss arbitrary: acc) auto
  then show ?thesis by (simp add: dm_for_each_def dm_all_entries_def)
qed

text \<open>
  The readers of a view find what the readers of a string find as long as both hashes agree on the key, and on a map of one
  shard in any case; otherwise they may look in a shard that does not hold it.
\<close>

lemma view_agrees:
  "hv k = h k \<or> length (dm_shards m) = 1 \<Longrightarrow> dm_get_view hv k m = dm_get h k m \<and> dm_contains_view hv k m = dm_contains h k m"
  by (auto simp: dm_get_view_def dm_get_def dm_contains_view_def dm_contains_def shard_index_def)

lemma view_misses:
  assumes "dm_ok h m" "unat (hv k) mod length (dm_shards m) \<noteq> shard_index h m k"
  shows "dm_get_view hv k m = None"
proof (rule ccontr)
  assume found: "dm_get_view hv k m \<noteq> None"
  have "0 < length (dm_shards m)" using dm_okD(1)[OF assms(1), of k] by linarith
  then have "unat (hv k) mod length (dm_shards m) < length (dm_shards m)" by simp
  from dm_okD(3)[OF assms(1) this, of k] found assms(2) show False by (simp add: dm_get_view_def)
qed

section \<open>Sharding is transparent\<close>

text \<open>A sequence of writes, run on the sharded map and on the single-table map.\<close>

datatype ('k, 'v) map_write = Write_Insert 'k 'v | Write_Remove 'k

fun dm_writes :: "('k \<Rightarrow> u64) \<Rightarrow> ('k, 'v) map_write list \<Rightarrow> ('k, 'v) dashmap \<Rightarrow> bool list \<times> ('k, 'v) dashmap" where
  "dm_writes h [] m = ([], m)"
| "dm_writes h (w # ws) m =
     (let (r, m') = (case w of Write_Insert k v \<Rightarrow> dm_insert h k v m | Write_Remove k \<Rightarrow> dm_remove h k m);
          (rs, m'') = dm_writes h ws m'
      in (r # rs, m''))"

fun sm_writes :: "('k, 'v) map_write list \<Rightarrow> ('k, 'v) singlemap \<Rightarrow> bool list \<times> ('k, 'v) singlemap" where
  "sm_writes [] m = ([], m)"
| "sm_writes (w # ws) m =
     (let (r, m') = (case w of Write_Insert k v \<Rightarrow> sm_insert k v m | Write_Remove k \<Rightarrow> sm_remove k m);
          (rs, m'') = sm_writes ws m'
      in (r # rs, m''))"

definition sm_ok :: "('k, 'v) singlemap \<Rightarrow> bool" where
  "sm_ok m \<longleftrightarrow> shard_ok (single m) \<and> size_unlocked m = length (single m)"

lemma same_map_writes:
  assumes "dm_ok h m" and "sm_ok s" and "\<forall>k. dm_get h k m = sm_get k s"
  shows "fst (dm_writes h ws m) = fst (sm_writes ws s)
    \<and> dm_ok h (snd (dm_writes h ws m)) \<and> sm_ok (snd (sm_writes ws s))
    \<and> (\<forall>k. dm_get h k (snd (dm_writes h ws m)) = sm_get k (snd (sm_writes ws s)))"
  using assms
proof (induction ws arbitrary: m s)
  case Nil
  then show ?case by simp
next
  case (Cons w ws)
  let ?m = "snd (case w of Write_Insert k v \<Rightarrow> dm_insert h k v m | Write_Remove k \<Rightarrow> dm_remove h k m)"
  let ?s = "snd (case w of Write_Insert k v \<Rightarrow> sm_insert k v s | Write_Remove k \<Rightarrow> sm_remove k s)"
  have step: "dm_ok h ?m" "sm_ok ?s" "\<forall>k. dm_get h k ?m = sm_get k ?s"
    using Cons.prems sm.invar_insert[of s] sm.invar_remove[of s]
    by (auto simp: sm_ok_def dm.lookup_insert dm.lookup_remove sm.lookup_insert sm.lookup_remove
        split: map_write.splits)
  have ret: "fst (case w of Write_Insert k v \<Rightarrow> dm_insert h k v m | Write_Remove k \<Rightarrow> dm_remove h k m)
      = fst (case w of Write_Insert k v \<Rightarrow> sm_insert k v s | Write_Remove k \<Rightarrow> sm_remove k s)"
    using Cons.prems
    by (auto simp: sm_ok_def dm.insert_fresh dm.remove_found sm.insert_fresh sm.remove_found
        split: map_write.splits)
  show ?case
    using Cons.IH[OF step] ret by (simp add: split_beta Let_def)
qed

text \<open>
  C23. Sharding is transparent: whatever hash function and number of shards, a sequence of inserts and
  removes run on a fresh \<^verbatim>\<open>DashMap<K, V, true>\<close> returns the same flags as on a fresh
  \<^verbatim>\<open>DashMap<K, V, false>\<close>, and afterwards every lookup and the two size counters agree.
\<close>

theorem sharding_transparent:
  assumes "0 < n"
  shows "fst (dm_writes h ws (dm_new n)) = fst (sm_writes ws sm_new)
    \<and> dm_get h k (snd (dm_writes h ws (dm_new n))) = sm_get k (snd (sm_writes ws sm_new))
    \<and> dm_size (snd (dm_writes h ws (dm_new n))) = sm_size (snd (sm_writes ws sm_new))"
proof -
  have new: "dm_ok h (dm_new n)" "sm_ok sm_new" "\<forall>k. dm_get h k (dm_new n) = sm_get k sm_new"
    using assms by (auto simp: dm_new_spec dm_get_new sm_ok_def sm_new_def sm_get_def)
  note same = same_map_writes[OF new, of ws]
  then show ?thesis
    using dm.count_card[of h "snd (dm_writes h ws (dm_new n))"]
      sm.count_card[of "snd (sm_writes ws sm_new)"] by (simp add: sm_ok_def)
qed

theorem sharding_transparent_witness:
  "dm_size (snd (dm_writes (\<lambda>k :: u64. k) [Write_Insert 1 True, Write_Insert 5 False, Write_Remove 1] (dm_new 4)))
   = sm_size (snd (sm_writes [Write_Insert (1 :: u64) True, Write_Insert 5 False, Write_Remove 1] sm_new))"
  using sharding_transparent[of 4 "\<lambda>k. k" "[Write_Insert 1 True, Write_Insert 5 False, Write_Remove 1]" 1]
  by simp
end
