(* ===== verification/Byte_Codec.thy ===== *)
theory Byte_Codec
  imports Linked_List Stream_Data Dash_Map
begin

text \<open>
  The byte formats under which the engine stores lists, hashes, sets and streams in RocksDB: the
  static \<^verbatim>\<open>serialize_*\<close> and \<^verbatim>\<open>deserialize_*\<close> functions of \<^verbatim>\<open>src/engine.cpp\<close>.  All lengths and counts are
  \<^verbatim>\<open>uint32_t\<close>, copied in the byte order of the machine, taken to be little endian; a container or a
  string of \<open>2^32\<close> elements or more is truncated by the casts, and the buffer, sized for the full
  data, then ends in the zero bytes \<^verbatim>\<open>resize\<close> put there.  Every reader consumes a count and then that many
  items, adding each to the container as it goes, so a malformed text leaves the items read so far.
\<close>

section \<open>Numbers as bytes\<close>

fun le_bytes :: "nat \<Rightarrow> nat \<Rightarrow> str" where
  "le_bytes 0 x = []"
| "le_bytes (Suc k) x = of_nat x # le_bytes k (x div 256)"

fun le_value :: "str \<Rightarrow> nat" where
  "le_value [] = 0"
| "le_value (b # bs) = unat b + 256 * le_value bs"

definition put_u32 :: "u32 \<Rightarrow> str" where
  "put_u32 w = le_bytes 4 (unat w)"

definition get_u32 :: "str \<Rightarrow> (u32 \<times> str) option" where
  "get_u32 d = (if length d < 4 then None else Some (of_nat (le_value (take 4 d)), drop 4 d))"

lemma length_le_bytes [simp]: "length (le_bytes k x) = k"
  by (induction k arbitrary: x) auto

lemma le_value_bytes: "le_value (le_bytes k x) = x mod 256 ^ k"
proof (induction k arbitrary: x)
  case (Suc k)
  have "unat (of_nat x :: byte) = x mod 256" by (simp add: unat_of_nat)
  then show ?case using Suc by (simp add: mod_mult2_eq)
qed simp

lemma length_put_u32 [simp]: "length (put_u32 w) = 4"
  by (simp add: put_u32_def)

lemma get_put_u32 [simp]: "get_u32 (put_u32 w @ rest) = Some (w, rest)"
proof -
  have "unat w < 2 ^ LENGTH(32)" by (rule unsigned_less)
  then have "unat w < 256 ^ 4" by simp
  then show ?thesis by (simp add: get_u32_def put_u32_def le_value_bytes)
qed

lemma get_u32_short [simp]: "length d < 4 \<Longrightarrow> get_u32 d = None"
  by (simp add: get_u32_def)

section \<open>Strings with their length\<close>

text \<open>A length and the bytes; the copy takes as many bytes as the 32-bit length says.\<close>

definition put_blob :: "str \<Rightarrow> str" where
  "put_blob s = (let n = of_nat (length s) :: u32 in put_u32 n @ take (unat n) s)"

text \<open>
  The readers' guard: four bytes for the length, then the string and \<open>extra\<close> bytes that the caller is
  going to read next.
\<close>

definition get_blob :: "nat \<Rightarrow> str \<Rightarrow> (str \<times> str) option" where
  "get_blob extra d =
     (case get_u32 d of
        None \<Rightarrow> None
      | Some (n, d') \<Rightarrow> if length d' < unat n + extra then None else Some (take (unat n) d', drop (unat n) d'))"

definition fits32 :: "'a list \<Rightarrow> bool" where
  "fits32 xs \<longleftrightarrow> length xs < 2 ^ 32"

lemma unat_length32 [simp]: "fits32 xs \<Longrightarrow> unat (of_nat (length xs) :: u32) = length xs"
  by (simp add: fits32_def unat_of_nat take_bit_nat_eq_self)

lemma length_put_blob [simp]: "fits32 s \<Longrightarrow> length (put_blob s) = 4 + length s"
  by (simp add: put_blob_def)

lemma get_put_blob [simp]:
  "fits32 s \<Longrightarrow> extra \<le> length rest \<Longrightarrow> get_blob extra (put_blob s @ rest) = Some (s, rest)"
  by (simp add: get_blob_def put_blob_def)

lemma get_blob_short:
  assumes "fits32 s" and "length p < length (put_blob s) + extra" and "p = take i (put_blob s @ rest)"
  shows "get_blob extra p = None"
proof (cases "length p < 4")
  case False
  then have "4 \<le> i" using assms(3) by simp
  then have "p = put_u32 (of_nat (length s)) @ take (i - 4) (s @ rest)"
    using assms(1,3) by (simp add: put_blob_def)
  then show ?thesis using assms(1,2) by (simp add: get_blob_def)
qed (simp add: get_blob_def)

section \<open>Counted sequences\<close>

text \<open>
  The loop all readers share: \<open>count\<close> items, each read by \<open>get\<close> and added to the container by \<open>add\<close>.
\<close>

fun read_items :: "(str \<Rightarrow> ('a \<times> str) option) \<Rightarrow> ('a \<Rightarrow> 's \<Rightarrow> 's) \<Rightarrow> nat \<Rightarrow> str \<Rightarrow> 's \<Rightarrow> bool \<times> 's" where
  "read_items get_item add 0 d s = (True, s)"
| "read_items get_item add (Suc n) d s =
     (case get_item d of
        None \<Rightarrow> (False, s)
      | Some (x, d') \<Rightarrow> read_items get_item add n d' (add x s))"

definition read_counted :: "(str \<Rightarrow> ('a \<times> str) option) \<Rightarrow> ('a \<Rightarrow> 's \<Rightarrow> 's) \<Rightarrow> str \<Rightarrow> 's \<Rightarrow> bool \<times> 's" where
  "read_counted get_item add d s =
     (case get_u32 d of
        None \<Rightarrow> (False, s)
      | Some (n, d') \<Rightarrow> read_items get_item add (unat n) d' s)"

text \<open>
  An item format: what is written is read back, with what follows untouched, and no proper prefix of
  a written item is accepted.
\<close>

locale item_format =
  fixes put :: "'a \<Rightarrow> str" and get :: "str \<Rightarrow> ('a \<times> str) option" and ok :: "'a \<Rightarrow> bool"
  assumes get_put: "ok x \<Longrightarrow> get (put x @ rest) = Some (x, rest)"
    and get_prefix: "ok x \<Longrightarrow> i < length (put x) \<Longrightarrow> get (take i (put x)) = None"
begin

lemma read_items_put:
  "\<forall>x \<in> set xs. ok x \<Longrightarrow>
   read_items get add (length xs) (concat (map put xs) @ rest) s = (True, fold add xs s)"
  by (induction xs arbitrary: s) (auto simp: get_put)

lemma read_items_prefix:
  "\<forall>x \<in> set xs. ok x \<Longrightarrow> i < length (concat (map put xs)) \<Longrightarrow>
   \<not> fst (read_items get add (length xs) (take i (concat (map put xs))) s)"
proof (induction xs arbitrary: i s)
  case (Cons x xs)
  show ?case
  proof (cases "i < length (put x)")
    case True
    then show ?thesis using Cons.prems get_prefix by simp
  next
    case False
    then have "take i (concat (map put (x # xs))) = put x @ take (i - length (put x)) (concat (map put xs))"
      by simp
    then show ?thesis
      using Cons False by (simp add: get_put)
  qed
qed simp

lemma read_counted_put:
  assumes "fits32 xs" and "\<forall>x \<in> set xs. ok x"
  shows "read_counted get add (put_u32 (of_nat (length xs)) @ concat (map put xs) @ rest) s = (True, fold add xs s)"
  using assms by (simp add: read_counted_def read_items_put)

lemma read_counted_prefix:
  assumes "fits32 xs" and "\<forall>x \<in> set xs. ok x"
    and "i < length (put_u32 (of_nat (length xs)) @ concat (map put xs))"
  shows "\<not> fst (read_counted get add (take i (put_u32 (of_nat (length xs)) @ concat (map put xs))) s)"
proof (cases "i < 4")
  case False
  then have "take i (put_u32 (of_nat (length xs)) @ concat (map put xs))
      = put_u32 (of_nat (length xs)) @ take (i - 4) (concat (map put xs))"
    by simp
  then show ?thesis
    using assms False read_items_prefix[of xs "i - 4" add s] by (simp add: read_counted_def)
qed (simp add: read_counted_def)

end

section \<open>The formats of the containers\<close>

text \<open>
  The buffer is sized with the full lengths before anything is written; what the writes do not reach
  stays zero.
\<close>

definition pad :: "nat \<Rightarrow> str \<Rightarrow> str" where
  "pad sz out = out @ replicate (sz - length out) 0"

definition put_pair :: "str \<times> str \<Rightarrow> str" where
  "put_pair p = (case p of (f, v) \<Rightarrow> put_blob f @ put_blob v)"

text \<open>
  Two strings in a row.  The reader of a stream's fields asks for the four bytes of the second length
  together with the first string (\<open>extra = 4\<close>), the reader of a hash asks for them afterwards
  (\<open>extra = 0\<close>).
\<close>

definition get_pair :: "nat \<Rightarrow> str \<Rightarrow> ((str \<times> str) \<times> str) option" where
  "get_pair extra d =
     (case get_blob extra d of
        None \<Rightarrow> None
      | Some (f, d') \<Rightarrow>
          (case get_blob 0 d' of
             None \<Rightarrow> None
           | Some (v, d'') \<Rightarrow> Some ((f, v), d'')))"

definition put_entry :: "stream_entry \<Rightarrow> str" where
  "put_entry e =
     (let fc = of_nat (length (entry_fields e)) :: u32
      in put_blob (entry_id e) @ put_u32 fc @ concat (map put_pair (entry_fields e)))"

text \<open>The fields of one entry, collected in the order read.\<close>

fun read_fields :: "nat \<Rightarrow> str \<Rightarrow> (str \<times> str) list \<Rightarrow> ((str \<times> str) list \<times> str) option" where
  "read_fields 0 d fs = Some (fs, d)"
| "read_fields (Suc n) d fs =
     (case get_pair 4 d of
        None \<Rightarrow> None
      | Some (fv, d') \<Rightarrow> read_fields n d' (fs @ [fv]))"

definition get_entry :: "str \<Rightarrow> (stream_entry \<times> str) option" where
  "get_entry d =
     (case get_blob 4 d of
        None \<Rightarrow> None
      | Some (ident, d') \<Rightarrow>
          (case get_u32 d' of
             None \<Rightarrow> None
           | Some (fc, d'') \<Rightarrow>
               (case read_fields (unat fc) d'' [] of
                  None \<Rightarrow> None
                | Some (fs, d3) \<Rightarrow> Some (\<lparr>entry_id = ident, entry_fields = fs\<rparr>, d3))))"

definition serialize_list :: "str linked_list \<Rightarrow> str" where
  "serialize_list lst =
     (let range = ll_range 0 (-1) lst;
          sz = 4 + sum_list (map (\<lambda>item. 4 + length item) range)
      in pad sz (put_u32 (of_nat (length range)) @ concat (map put_blob range)))"

definition deserialize_list :: "str \<Rightarrow> str linked_list \<Rightarrow> bool \<times> str linked_list" where
  "deserialize_list data lst = read_counted (get_blob 0) push_right data lst"

definition serialize_hash :: "(str list \<Rightarrow> str list) \<Rightarrow> (str, str) dashmap \<Rightarrow> str" where
  "serialize_hash ord m =
     (let all = dm_all_entries ord m;
          sz = 4 + sum_list (map (\<lambda>(f, v). 4 + length f + 4 + length v) all)
      in pad sz (put_u32 (of_nat (length all)) @ concat (map put_pair all)))"

definition deserialize_hash :: "(str \<Rightarrow> u64) \<Rightarrow> str \<Rightarrow> (str, str) dashmap \<Rightarrow> bool \<times> (str, str) dashmap" where
  "deserialize_hash h data m = read_counted (get_pair 0) (\<lambda>(f, v) m. snd (dm_insert h f v m)) data m"

definition serialize_set :: "(str list \<Rightarrow> str list) \<Rightarrow> (str, byte) dashmap \<Rightarrow> str" where
  "serialize_set ord m =
     (let keys = dm_all_keys ord m;
          sz = 4 + sum_list (map (\<lambda>member. 4 + length member) keys)
      in pad sz (put_u32 (of_nat (length keys)) @ concat (map put_blob keys)))"

definition deserialize_set :: "(str \<Rightarrow> u64) \<Rightarrow> str \<Rightarrow> (str, byte) dashmap \<Rightarrow> bool \<times> (str, byte) dashmap" where
  "deserialize_set h data m = read_counted (get_blob 0) (\<lambda>member m. snd (dm_insert h member 0 m)) data m"

definition serialize_stream :: "stream_data \<Rightarrow> str" where
  "serialize_stream s =
     (let all = stream_entries s;
          sz = 4 + sum_list (map (\<lambda>e. 4 + length (entry_id e) + 4
                    + sum_list (map (\<lambda>(f, v). 4 + length f + 4 + length v) (entry_fields e))) all)
      in pad sz (put_u32 (of_nat (length all)) @ concat (map put_entry all)))"

text \<open>The clock is read when a stored identifier is \<^verbatim>\<open>"*"\<close>, which no stored entry has.\<close>

definition deserialize_stream :: "u64 \<Rightarrow> str \<Rightarrow> stream_data \<Rightarrow> bool \<times> stream_data" where
  "deserialize_stream now data s =
     read_counted get_entry (\<lambda>e s. snd (xadd now (entry_id e) (entry_fields e) s)) data s"

section \<open>The item formats\<close>

lemma get_blob_prefix: "fits32 s \<Longrightarrow> i < length (put_blob s) + extra \<Longrightarrow> i \<le> length (put_blob s @ r) \<Longrightarrow>
    get_blob extra (take i (put_blob s @ r)) = None"
  by (rule get_blob_short[of s _ extra i r]) simp_all

interpretation blob_format: item_format put_blob "get_blob 0" fits32
proof
  show "get_blob 0 (take i (put_blob x)) = None" if "fits32 x" "i < length (put_blob x)" for x i
    using get_blob_prefix[of x i 0 "[]"] that by simp
qed simp

definition pair_fits :: "str \<times> str \<Rightarrow> bool" where
  "pair_fits p = (fits32 (fst p) \<and> fits32 (snd p))"

lemma get_put_pair: "pair_fits p \<Longrightarrow> extra \<le> 4 \<Longrightarrow> get_pair extra (put_pair p @ rest) = Some (p, rest)"
  by (cases p) (simp add: get_pair_def put_pair_def pair_fits_def)

lemma get_pair_prefix:
  assumes "pair_fits p" and "extra \<le> 4" and "i < length (put_pair p)"
  shows "get_pair extra (take i (put_pair p)) = None"
proof -
  obtain f v where p: "p = (f, v)" by (cases p)
  have fits: "fits32 f" "fits32 v" using assms(1) by (simp_all add: p pair_fits_def)
  have len: "i \<le> length (put_blob f @ put_blob v)" using assms(3) by (simp add: p put_pair_def)
  show ?thesis
  proof (cases "i < length (put_blob f) + extra")
    case True
    then show ?thesis
      using get_blob_prefix[OF fits(1) True len] by (simp add: p put_pair_def get_pair_def del: take_append)
  next
    case False
    then have t: "take i (put_blob f @ put_blob v) = put_blob f @ take (i - length (put_blob f)) (put_blob v)"
      by simp
    show ?thesis
      using False fits assms(3) len get_blob_prefix[OF fits(2), of "i - length (put_blob f)" 0 "[]"]
      by (simp add: p put_pair_def get_pair_def t del: take_append)
  qed
qed

interpretation pair_format: item_format put_pair "get_pair 0" pair_fits
  by unfold_locales (simp_all add: get_put_pair get_pair_prefix)

definition entry_fits :: "stream_entry \<Rightarrow> bool" where
  "entry_fits e = (fits32 (entry_id e) \<and> fits32 (entry_fields e) \<and> (\<forall>p \<in> set (entry_fields e). pair_fits p))"

lemma read_fields_put:
  "\<forall>p \<in> set ps. pair_fits p \<Longrightarrow> read_fields (length ps) (concat (map put_pair ps) @ rest) fs = Some (fs @ ps, rest)"
  by (induction ps arbitrary: fs) (simp_all add: get_put_pair)

lemma read_fields_prefix:
  "\<forall>p \<in> set ps. pair_fits p \<Longrightarrow> i < length (concat (map put_pair ps)) \<Longrightarrow>
   read_fields (length ps) (take i (concat (map put_pair ps))) fs = None"
proof (induction ps arbitrary: i fs)
  case (Cons p ps)
  show ?case
  proof (cases "i < length (put_pair p)")
    case True
    then show ?thesis using Cons.prems by (simp add: get_pair_prefix)
  next
    case False
    then have "take i (concat (map put_pair (p # ps))) = put_pair p @ take (i - length (put_pair p)) (concat (map put_pair ps))"
      by simp
    then show ?thesis using Cons False by (simp add: get_put_pair del: take_append)
  qed
qed simp

lemma get_entry_prefix:
  assumes "entry_fits e" and "i < length (put_entry e)"
  shows "get_entry (take i (put_entry e)) = None"
proof -
  let ?id = "put_blob (entry_id e)" and ?n = "put_u32 (of_nat (length (entry_fields e)))"
    and ?fs = "concat (map put_pair (entry_fields e))"
  have fits: "fits32 (entry_id e)" "fits32 (entry_fields e)" "\<forall>p \<in> set (entry_fields e). pair_fits p"
    using assms(1) by (simp_all add: entry_fits_def)
  have put: "put_entry e = ?id @ ?n @ ?fs" by (simp add: put_entry_def)
  show ?thesis
  proof (cases "i < length ?id + 4")
    case True
    then show ?thesis
      using get_blob_prefix[OF fits(1) True, of "?n @ ?fs"] assms(2) by (simp add: put get_entry_def del: take_append)
  next
    case False
    then have "take i (put_entry e) = ?id @ ?n @ take (i - length ?id - 4) ?fs" by (simp add: put)
    moreover have "i - length ?id - 4 < length ?fs" using False assms(2) by (simp add: put)
    ultimately show ?thesis
      using fits by (simp add: get_entry_def read_fields_prefix)
  qed
qed

interpretation entry_format: item_format put_entry get_entry entry_fits
  by unfold_locales
    (simp_all add: get_entry_prefix, simp add: get_entry_def put_entry_def entry_fits_def read_fields_put)

section \<open>Sizes\<close>

lemma sized_concat:
  assumes "\<And>x. x \<in> set xs \<Longrightarrow> length (f x) = g x"
  shows "length (concat (map f xs)) = sum_list (map g xs)"
  using assms by (induction xs) auto

lemma pad_exact: "length out = n \<Longrightarrow> pad n out = out"
  by (simp add: pad_def)

definition pair_size :: "str \<times> str \<Rightarrow> nat" where
  "pair_size = (\<lambda>(f, v). 4 + length f + 4 + length v)"

definition entry_size :: "stream_entry \<Rightarrow> nat" where
  "entry_size = (\<lambda>e. 4 + length (entry_id e) + 4 + sum_list (map pair_size (entry_fields e)))"

lemma pair_length: "pair_fits p \<Longrightarrow> length (put_pair p) = pair_size p"
  by (cases p) (simp add: put_pair_def pair_fits_def pair_size_def)

lemma entry_length:
  assumes "entry_fits e"
  shows "length (put_entry e) = entry_size e"
  using assms sized_concat[of "entry_fields e" put_pair pair_size]
  by (simp add: put_entry_def entry_fits_def entry_size_def pair_length)

text \<open>When everything fits its 32-bit length, the buffer is exactly what was written.\<close>

lemma serialize_list_exact:
  assumes "\<forall>x \<in> set (ll_list l). fits32 x"
  shows "serialize_list l = put_u32 (of_nat (length (ll_list l))) @ concat (map put_blob (ll_list l))"
  using assms sized_concat[of "ll_list l" put_blob "\<lambda>item. 4 + length item"]
  by (simp add: serialize_list_def Let_def ll_range_all pad_exact)

lemma serialize_hash_exact:
  assumes "\<forall>p \<in> set (dm_all_entries ord m). pair_fits p"
  shows "serialize_hash ord m = put_u32 (of_nat (length (dm_all_entries ord m)))
    @ concat (map put_pair (dm_all_entries ord m))"
  using assms sized_concat[of "dm_all_entries ord m" put_pair pair_size]
  unfolding serialize_hash_def Let_def pair_size_def[symmetric]
  by (intro pad_exact) (simp add: pair_length)

lemma serialize_set_exact:
  assumes "\<forall>x \<in> set (dm_all_keys ord m). fits32 x"
  shows "serialize_set ord m = put_u32 (of_nat (length (dm_all_keys ord m)))
    @ concat (map put_blob (dm_all_keys ord m))"
  using assms sized_concat[of "dm_all_keys ord m" put_blob "\<lambda>member. 4 + length member"]
  by (simp add: serialize_set_def Let_def pad_exact)

lemma serialize_stream_exact:
  assumes "\<forall>e \<in> set (stream_entries s). entry_fits e"
  shows "serialize_stream s = put_u32 (of_nat (length (stream_entries s)))
    @ concat (map put_entry (stream_entries s))"
  using assms sized_concat[of "stream_entries s" put_entry entry_size]
  unfolding serialize_stream_def Let_def pair_size_def[symmetric] entry_size_def[symmetric]
  by (intro pad_exact) (simp add: entry_length)

section \<open>Properties\<close>

lemma deserialize_serialize_list:
  assumes "fits32 (ll_list l)" and "\<forall>x \<in> set (ll_list l). fits32 x"
  shows "deserialize_list (serialize_list l) ll_new = (True, fold push_right (ll_list l) ll_new)"
  using blob_format.read_counted_put[OF assms, of push_right "[]" ll_new]
  by (simp add: deserialize_list_def serialize_list_exact[OF assms(2)])

text \<open>
  C20. A list written to its byte form and read into an empty list comes back with the same elements in the
  same order and well formed; the form is as long as its header says, and no proper prefix
  of it, as a torn write would leave, is accepted.
\<close>

theorem list_roundtrip:
  assumes "fits32 (ll_list l)" and "\<forall>x \<in> set (ll_list l). fits32 x"
  shows "fst (deserialize_list (serialize_list l) ll_new)
    \<and> ll_list (snd (deserialize_list (serialize_list l) ll_new)) = ll_list l
    \<and> ll_ok (snd (deserialize_list (serialize_list l) ll_new))
    \<and> (\<forall>i < length (serialize_list l). \<not> fst (deserialize_list (take i (serialize_list l)) ll_new))"
proof -
  have "deserialize_list (serialize_list l) ll_new = (True, fold push_right (ll_list l) ll_new)"
    by (rule deserialize_serialize_list[OF assms])
  moreover have "\<forall>i < length (serialize_list l). \<not> fst (deserialize_list (take i (serialize_list l)) ll_new)"
    unfolding deserialize_list_def serialize_list_exact[OF assms(2)]
    by (intro allI impI) (rule blob_format.read_counted_prefix[OF assms])
  ultimately show ?thesis
    using ll.push_all[OF ll.invar_fresh, of "ll_list l"] by (simp add: ll.items_fresh)
qed

theorem list_roundtrip_witness:
  "ll_list (snd (deserialize_list (serialize_list (push_right [7, 8] (push_right [] ll_new))) ll_new)) = [[], [7, 8]]"
proof -
  have l: "ll_list (push_right [7, 8] (push_right [] ll_new)) = [[], [7, 8 :: byte]]"
    by (simp add: ll.items_push_r ll.invar_push_r ll.invar_fresh ll.items_fresh)
  show ?thesis
    using list_roundtrip[of "push_right [7, 8] (push_right [] ll_new)"] unfolding l by (simp add: fits32_def)
qed

lemma entries_fit:
  assumes ok: "dm_ok h m" and ord: "visits_all ord" and small: "dm_size m < 2 ^ 32"
    and fit: "\<forall>f v. dm_get h f m = Some v \<longrightarrow> fits32 f \<and> fits32 v"
  shows "fits32 (dm_all_entries ord m)" and "\<forall>p \<in> set (dm_all_entries ord m). pair_fits p"
proof -
  show "fits32 (dm_all_entries ord m)"
    using small length_all_entries[OF ord ok] by (simp add: fits32_def)
  show "\<forall>p \<in> set (dm_all_entries ord m). pair_fits p"
    using fit set_all_entries[OF ord ok] by (auto simp: pair_fits_def)
qed

lemma map_of_entries:
  assumes ok: "dm_ok h m" and ord: "visits_all ord"
  shows "map_of (rev (dm_all_entries ord m)) k = dm_get h k m"
proof -
  have "distinct (map fst (rev (dm_all_entries ord m)))"
    using distinct_all_keys[OF ord ok] by (simp add: rev_map[symmetric] map_fst_entries)
  then have "map_of (rev (dm_all_entries ord m)) k = Some v \<longleftrightarrow> dm_get h k m = Some v" for v
    using set_all_entries[OF ord ok] by simp
  then show ?thesis by (cases "dm_get h k m"; cases "map_of (rev (dm_all_entries ord m)) k") auto
qed

text \<open>
  C19. A hash or a set written to its byte form, in whatever order its shards are iterated, and read into
  an empty one, comes back with the same lookups and the same size, also under another hash
  function (the process that reads need not use the seed of the one that wrote).
\<close>

theorem hash_set_roundtrip:
  assumes "dm_ok h m" and "visits_all ord" and "dm_size m < 2 ^ 32"
    and "\<forall>f v. dm_get h f m = Some v \<longrightarrow> fits32 f \<and> fits32 v"
    and "dm_ok h s" and "dm_size s < 2 ^ 32"
    and "\<forall>f v. dm_get h f s = Some v \<longrightarrow> fits32 f"
  shows "fst (deserialize_hash h' (serialize_hash ord m) (dm_new 16))
    \<and> dm_get h' k (snd (deserialize_hash h' (serialize_hash ord m) (dm_new 16))) = dm_get h k m
    \<and> fst (deserialize_set h' (serialize_set ord s) (dm_new 16))
    \<and> dm_contains h' k (snd (deserialize_set h' (serialize_set ord s) (dm_new 16))) = dm_contains h k s
    \<and> dm_size (snd (deserialize_hash h' (serialize_hash ord m) (dm_new 16))) = dm_size m"
proof -
  note fit = entries_fit[OF assms(1-4)]
  have new: "dm_ok h' (dm_new 16 :: (str, 'b) dashmap)" for h' by (simp add: dm_new_spec)
  let ?m = "fold (\<lambda>(f, v) m. snd (dm_insert h' f v m)) (dm_all_entries ord m) (dm_new 16)"
  have m: "deserialize_hash h' (serialize_hash ord m) (dm_new 16) = (True, ?m)"
    using pair_format.read_counted_put[OF fit, of "\<lambda>(f, v) m. snd (dm_insert h' f v m)" "[]" "dm_new 16"]
    by (simp add: deserialize_hash_def serialize_hash_exact[OF fit(2)])
  have ok: "dm_ok h' ?m" and get: "dm_get h' k ?m = dm_get h k m" for k
    using dm.insert_all[OF new, where es = "dm_all_entries ord m" and k = k]
    by (auto simp: map_of_entries[OF assms(1,2)] dm_get_new split: option.splits)
  have sfit: "fits32 (dm_all_keys ord s)" "\<forall>x \<in> set (dm_all_keys ord s). fits32 x"
    using assms(6,7) length_all_keys[OF assms(2,5)] set_all_keys[OF assms(2,5)] by (auto simp: fits32_def)
  let ?s = "fold (\<lambda>member m. snd (dm_insert h' member 0 m)) (dm_all_keys ord s) (dm_new 16 :: (str, byte) dashmap)"
  have s: "deserialize_set h' (serialize_set ord s) (dm_new 16) = (True, ?s)"
    using blob_format.read_counted_put[OF sfit, of "\<lambda>member m. snd (dm_insert h' member 0 m)" "[]" "dm_new 16"]
    by (simp add: deserialize_set_def serialize_set_exact[OF sfit(2)])
  have as_entries: "fold (\<lambda>member m. snd (dm_insert h' member 0 m)) ks m0
      = fold (\<lambda>(k, v) m. snd (dm_insert h' k v m)) (map (\<lambda>k. (k, 0)) ks) m0" for ks m0
    by (induction ks arbitrary: m0) auto
  have const: "map_of (rev (map (\<lambda>k. (k, 0 :: byte)) ks)) k = (if k \<in> set ks then Some 0 else None)" for ks
    by (simp add: rev_map map_of_map_restrict)
  have "dm_get h' k ?s \<noteq> None \<longleftrightarrow> k \<in> set (dm_all_keys ord s)"
    using dm.insert_all[OF new, where es = "map (\<lambda>k. (k, 0 :: byte)) (dm_all_keys ord s)" and k = k]
    unfolding as_entries const by (simp add: dm_get_new split: option.splits)
  then show ?thesis
    using m s ok get dm.count_card[OF ok] dm.count_card[OF assms(1)]
    by (simp add: dm_contains_get set_all_keys[OF assms(2,5)])
qed

theorem hash_set_roundtrip_witness:
  "dm_get (\<lambda>_. 3) [1] (snd (deserialize_hash (\<lambda>_. 3)
     (serialize_hash rev (snd (dm_insert (\<lambda>_. 5) [1] [2, 3] (dm_new 16)))) (dm_new 16))) = Some [2, 3]"
proof -
  let ?m = "snd (dm_insert (\<lambda>_. 5) [1 :: byte] [2, 3 :: byte] (dm_new 16))"
  have ok: "dm_ok (\<lambda>_. 5) ?m" and get: "dm_get (\<lambda>_. 5) k ?m = (if k = [1] then Some [2, 3] else None)" for k
    by (simp_all add: dm_new_spec dm.lookup_insert dm_get_new)
  have size: "dm_size ?m = 1"
    by (simp add: dm.count_insert dm_new_spec dm_get_new) (simp add: dm_size_def dm_new_def)
  have "dm_ok (\<lambda>_. 5) (dm_new 16 :: (str, byte) dashmap)" and "dm_size (dm_new 16 :: (str, byte) dashmap) < 2 ^ 32"
    and "\<forall>f v. dm_get (\<lambda>_. 5) f (dm_new 16 :: (str, byte) dashmap) = Some v \<longrightarrow> fits32 f"
    by (simp_all add: dm_new_spec dm_get_new dm_size_def) (simp add: dm_new_def)
  then show ?thesis
    using hash_set_roundtrip[OF ok visits_all_rev, where h' = "\<lambda>_. 3" and k = "[1]"
        and s = "dm_new 16"] size by (simp add: get fits32_def)
qed

text \<open>A stored stream entry never has \<^verbatim>\<open>"*"\<close> as its identifier: \<^verbatim>\<open>XAdd\<close> replaces it.\<close>

lemma generated_not_star: "fst (auto_generate_id now s) \<noteq> ascii ''*''"
proof -
  have "a @ 45 # b \<noteq> [42]" for a b :: str by (cases a) auto
  then show ?thesis by (simp add: auto_generate_id_def Let_def ascii_def)
qed

lemma auto_generate_entries [simp]: "stream_entries (snd (auto_generate_id now s)) = stream_entries s"
  by (simp add: auto_generate_id_def Let_def)

lemma xadd_entries:
  "set (stream_entries (snd (xadd now ident flds s))) \<subseteq>
     Set.insert \<lparr>entry_id = (if ident = ascii ''*'' then fst (auto_generate_id now s) else ident), entry_fields = flds\<rparr>
       (set (stream_entries s))"
  by (cases "ident = ascii ''*''") (auto simp: xadd_def push_entry_def Let_def case_prod_beta split: option.splits if_splits)

definition no_star :: "stream_data \<Rightarrow> bool" where
  "no_star s = (\<forall>e \<in> set (stream_entries s). entry_id e \<noteq> ascii ''*'')"

lemma reachable_no_star: "stream_reachable wrapped s \<Longrightarrow> no_star s"
proof (induction rule: stream_reachable.induct)
  case (add wrapped s ident now flds)
  then show ?case
    using xadd_entries[of now ident flds s] generated_not_star[of now s]
    by (auto simp: no_star_def split: if_splits)
next
  case (del wrapped s ident)
  obtain us ws vs where "stream_entries s = us @ ws @ vs" "snd (erase_id ident (stream_entries s)) = us @ vs"
    using erase_id_keeps by blast
  then show ?case using del by (auto simp: no_star_def xdel_def case_prod_beta)
next
  case (trim wrapped s maxlen)
  then show ?case by (auto simp: no_star_def xtrim_def xtrim_loop_spec dest: in_set_dropD)
qed (simp add: no_star_def stream_new_def)

lemma replay_entries:
  assumes "sorted_wrt (<) (map entry_key (stream_entries s @ es))" and "\<forall>e \<in> set es. entry_id e \<noteq> ascii ''*''"
    and "stream_ok s"
  shows "stream_entries (fold (\<lambda>e s. snd (xadd now (entry_id e) (entry_fields e) s)) es s) = stream_entries s @ es
    \<and> stream_ok (fold (\<lambda>e s. snd (xadd now (entry_id e) (entry_fields e) s)) es s)"
  using assms
proof (induction es arbitrary: s)
  case (Cons e es)
  have "accepts (entry_id e) s"
    using Cons.prems(1) by (simp add: accepts_def sorted_wrt_append entry_key_def)
  then have step: "stream_entries (snd (xadd now (entry_id e) (entry_fields e) s)) = stream_entries s @ [e]"
      "stream_ok (snd (xadd now (entry_id e) (entry_fields e) s))"
    using xadd_explicit(2)[OF Cons.prems(3), of "entry_id e" now "entry_fields e"] Cons.prems(2) by auto
  show ?case
    using Cons.IH[of "snd (xadd now (entry_id e) (entry_fields e) s)"] Cons.prems step by simp
qed simp

text \<open>
  C21. A stream reached without a wrap of the sequence number, written to its byte form and read into an empty stream, comes
  back with the same entries, in order and with their fields, because every identifier is accepted again; a torn form is
  rejected.  After a wrap an identifier may be below the one before it, and reading would refuse it.
\<close>

theorem stream_roundtrip:
  assumes "stream_reachable False s" and "fits32 (stream_entries s)" and "\<forall>e \<in> set (stream_entries s). entry_fits e"
  shows "fst (deserialize_stream now (serialize_stream s) stream_new)
    \<and> stream_entries (snd (deserialize_stream now (serialize_stream s) stream_new)) = stream_entries s
    \<and> stream_ok (snd (deserialize_stream now (serialize_stream s) stream_new))
    \<and> (\<forall>i < length (serialize_stream s). \<not> fst (deserialize_stream now (take i (serialize_stream s)) stream_new))"
proof -
  have ok: "stream_ok s" using reachable_stream_ok[OF assms(1)] by simp
  have new: "stream_ok stream_new" "stream_entries stream_new = []" by (simp_all add: stream_ok_def stream_new_def)
  let ?add = "\<lambda>e s. snd (xadd now (entry_id e) (entry_fields e) s)"
  have "deserialize_stream now (serialize_stream s) stream_new = (True, fold ?add (stream_entries s) stream_new)"
    using entry_format.read_counted_put[OF assms(2,3), of ?add "[]" stream_new]
    by (simp add: deserialize_stream_def serialize_stream_exact[OF assms(3)])
  moreover have "\<forall>i < length (serialize_stream s). \<not> fst (deserialize_stream now (take i (serialize_stream s)) stream_new)"
    unfolding deserialize_stream_def serialize_stream_exact[OF assms(3)]
    by (intro allI impI) (rule entry_format.read_counted_prefix[OF assms(2,3)])
  ultimately show ?thesis
    using replay_entries[of stream_new "stream_entries s" now] reachable_no_star[OF assms(1)] ok new
    by (simp add: no_star_def stream_ok_def)
qed

theorem stream_roundtrip_witness:
  "stream_entries (snd (deserialize_stream 0 (serialize_stream (snd (xadd 7 (ascii ''*'') [([1], [2])] stream_new))) stream_new))
    = [\<lparr>entry_id = ascii ''7-0'', entry_fields = [([1], [2])]\<rparr>]"
proof -
  let ?s = "snd (xadd 7 (ascii ''*'') [([1], [2])] stream_new)"
  have "seq_room 7 stream_new" by (simp add: seq_room_def stream_new_def)
  then have "stream_reachable False ?s" using add[OF start, of "ascii ''*''" 7] by simp
  moreover have es: "stream_entries ?s = [\<lparr>entry_id = ascii ''7-0'', entry_fields = [([1], [2])]\<rparr>]"
    by (simp add: xadd_def auto_generate_id_def push_entry_def stream_new_def to_string_u64_def nat_digits.simps ascii_def)
  ultimately show ?thesis
    using stream_roundtrip[of ?s 0] by (simp add: fits32_def entry_fits_def pair_fits_def ascii_def)
qed

end
