(* ===== verification/Node_Memory.thy ===== *)
theory Node_Memory
  imports BPlus_Node Byte_Codec
begin

text \<open>
  The memory of the B+ tree nodes (\<^verbatim>\<open>src/zset/bplustree_internal.hpp\<close>).  A node is a block of 256 bytes: four bytes of bit
  fields, the key slots, and in an inner node the subtree count and the child pointers after the room for ten keys.  Keys are
  their sixteen bytes, pointers are addresses of blocks.  Every access is a \<^verbatim>\<open>memcpy\<close> or \<^verbatim>\<open>memmove\<close> on the block; the
  operations on blocks are shown to be the operations on nodes of \<^verbatim>\<open>BPlus_Node\<close>.
\<close>

section \<open>Copying bytes\<close>

definition peek :: "nat \<Rightarrow> nat \<Rightarrow> str \<Rightarrow> str" where
  "peek off n mem = take n (drop off mem)"

definition poke :: "nat \<Rightarrow> str \<Rightarrow> str \<Rightarrow> str" where
  "poke off bs mem = take off mem @ bs @ drop (off + length bs) mem"

definition move_bytes :: "nat \<Rightarrow> nat \<Rightarrow> nat \<Rightarrow> str \<Rightarrow> str" where
  "move_bytes dest src n mem = poke dest (peek src n mem) mem"

lemma length_poke [simp]: "off + length bs \<le> length mem \<Longrightarrow> length (poke off bs mem) = length mem"
  by (simp add: poke_def)

lemma length_peek [simp]: "off + n \<le> length mem \<Longrightarrow> length (peek off n mem) = n"
  by (simp add: peek_def)

lemma peek_poke_out:
  "off + length bs \<le> length mem \<Longrightarrow> a + n \<le> off \<or> off + length bs \<le> a \<Longrightarrow> peek a n (poke off bs mem) = peek a n mem"
  by (rule nth_equalityI) (auto simp: peek_def poke_def nth_append)

lemma peek_poke_in:
  "off + length bs \<le> length mem \<Longrightarrow> off \<le> a \<Longrightarrow> a + n \<le> off + length bs \<Longrightarrow>
     peek a n (poke off bs mem) = take n (drop (a - off) bs)"
  by (simp add: peek_def poke_def)

lemma peek_poke_same: "off + length bs \<le> length mem \<Longrightarrow> peek off (length bs) (poke off bs mem) = bs"
  by (simp add: peek_poke_in)

lemma peek_poke_slot:
  assumes "off + w * i + w \<le> length mem" "length x = w"
  shows "peek (off + w * j) w (poke (off + w * i) x mem) = (if j = i then x else peek (off + w * j) w mem)"
proof (cases j i rule: linorder_cases)
  case less
  then have "w * j + w \<le> w * i" by (metis Suc_leI mult_Suc_right mult_le_mono2 add.commute)
  then show ?thesis using assms less by (simp add: peek_poke_out)
next
  case equal
  then show ?thesis using assms by (simp add: peek_poke_in)
next
  case greater
  then have "w * i + w \<le> w * j" by (metis Suc_leI mult_Suc_right mult_le_mono2 add.commute)
  then show ?thesis using assms greater by (simp add: peek_poke_out)
qed

lemma peek_peek: "k + n \<le> m \<Longrightarrow> take n (drop k (peek a m mem)) = peek (a + k) n mem"
  by (simp add: peek_def drop_take min_def add.commute)

lemma nth_poke: "off + length bs \<le> length mem \<Longrightarrow> i < off \<Longrightarrow> poke off bs mem ! i = mem ! i"
  by (simp add: poke_def nth_append)

lemma peek_move:
  assumes "dest + n \<le> length mem" "src + n \<le> length mem"
  shows "dest \<le> a \<Longrightarrow> a + k \<le> dest + n \<Longrightarrow> peek a k (move_bytes dest src n mem) = peek (src + (a - dest)) k mem"
    and "a + k \<le> dest \<or> dest + n \<le> a \<Longrightarrow> peek a k (move_bytes dest src n mem) = peek a k mem"
    and "length (move_bytes dest src n mem) = length mem"
    and "i < dest \<Longrightarrow> move_bytes dest src n mem ! i = mem ! i"
  using assms by (simp_all add: move_bytes_def peek_poke_in peek_poke_out peek_peek nth_poke)

section \<open>Layout\<close>

definition key_ptr :: "nat \<Rightarrow> nat" where
  "key_ptr index = kKeyOffset + kKeySize * index"

definition tree_count_ptr :: nat where
  "tree_count_ptr = kKeyOffset + kKeySize * kMaxInnerKeys"

definition children_start :: nat where
  "children_start = tree_count_ptr + kSubTreeLen"

lemmas layout = key_ptr_def tree_count_ptr_def children_start_def kKeyOffset_def kKeySize_def kSubTreeLen_def kPointerSize_def

lemma layout_values:
  "key_ptr i = 4 + 16 * i" "tree_count_ptr = 164" "children_start = 168" "kKeySize = 16" "kPointerSize = 8"
  by (simp_all add: layout)

text \<open>The bit fields: seven bits of the number of items, one bit for leaves; the other bytes of the word are not used.\<close>

definition nb_num_items :: "str \<Rightarrow> nat" where
  "nb_num_items mem = unat (mem ! 0 AND 0x7F)"

definition nb_is_leaf :: "str \<Rightarrow> bool" where
  "nb_is_leaf mem = bit (mem ! 0) 7"

definition nb_set_num :: "nat \<Rightarrow> str \<Rightarrow> str" where
  "nb_set_num n mem = mem[0 := (mem ! 0 AND 0x80) OR (of_nat n AND 0x7F)]"

definition nb_set_leaf :: "bool \<Rightarrow> str \<Rightarrow> str" where
  "nb_set_leaf leaf mem = mem[0 := (mem ! 0 AND 0x7F) OR (if leaf then 0x80 else 0)]"

definition nb_new :: "bool \<Rightarrow> str \<Rightarrow> str" where
  "nb_new leaf mem = nb_set_leaf leaf (nb_set_num 0 mem)"

definition nb_key :: "nat \<Rightarrow> str \<Rightarrow> str" where
  "nb_key index mem = peek (key_ptr index) kKeySize mem"

definition nb_set_key :: "nat \<Rightarrow> str \<Rightarrow> str \<Rightarrow> str" where
  "nb_set_key index item mem = poke (key_ptr index) item mem"

definition nb_init_single :: "str \<Rightarrow> str \<Rightarrow> str" where
  "nb_init_single key mem = nb_set_num 1 (nb_set_key 0 key mem)"

definition nb_child :: "nat \<Rightarrow> str \<Rightarrow> u64" where
  "nb_child i mem = of_nat (le_value (peek (children_start + kPointerSize * i) kPointerSize mem))"

definition put_pointer :: "u64 \<Rightarrow> str" where
  "put_pointer p = le_bytes 8 (unat p)"

definition nb_set_child :: "nat \<Rightarrow> u64 \<Rightarrow> str \<Rightarrow> str" where
  "nb_set_child i p mem = poke (children_start + kPointerSize * i) (put_pointer p) mem"

definition nb_inner_count :: "str \<Rightarrow> u32" where
  "nb_inner_count mem = of_nat (le_value (peek tree_count_ptr 4 mem))"

definition nb_set_tree_count :: "u32 \<Rightarrow> str \<Rightarrow> str" where
  "nb_set_tree_count cnt mem = poke tree_count_ptr (put_u32 cnt) mem"

definition nb_increase_tree_count :: "u32 \<Rightarrow> str \<Rightarrow> str" where
  "nb_increase_tree_count delta mem = nb_set_tree_count (nb_inner_count mem + delta) mem"

definition nb_tree_count :: "str \<Rightarrow> u32" where
  "nb_tree_count mem = (if nb_is_leaf mem then of_nat (nb_num_items mem) else nb_inner_count mem)"

definition nb_max_items :: "str \<Rightarrow> nat" where
  "nb_max_items mem = (if nb_is_leaf mem then kMaxLeafKeys else kMaxInnerKeys)"

definition nb_min_items :: "str \<Rightarrow> nat" where
  "nb_min_items mem = (if nb_is_leaf mem then kMinLeafKeys else kMinInnerKeys)"

definition nb_available_slots :: "str \<Rightarrow> nat" where
  "nb_available_slots mem = nb_max_items mem - nb_num_items mem"

section \<open>Operations on one block\<close>

definition nb_shift_right :: "nat \<Rightarrow> str \<Rightarrow> str" where
  "nb_shift_right index mem =
     (let num_items_to_shift = nb_num_items mem - index;
          mem' =
            (if num_items_to_shift > 0 then
               (let ptr = key_ptr index;
                    mem' = move_bytes (ptr + kKeySize) ptr (num_items_to_shift * kKeySize) mem
                in if nb_is_leaf mem then mem'
                   else (let src = children_start + index * kPointerSize
                         in move_bytes (src + kPointerSize) src ((num_items_to_shift + 1) * kPointerSize) mem'))
             else mem)
      in nb_set_num (nb_num_items mem + 1) mem')"

definition nb_shift_left :: "nat \<Rightarrow> bool \<Rightarrow> str \<Rightarrow> str" where
  "nb_shift_left index child_step_right mem =
     (let num_items_to_shift = nb_num_items mem - index - 1;
          mem' =
            (if num_items_to_shift > 0 then
               (let mem' = move_bytes (key_ptr index) (key_ptr (index + 1)) (num_items_to_shift * kKeySize) mem
                in if nb_is_leaf mem then mem'
                   else (let index' = index + of_bool child_step_right; n = nb_num_items mem - index'
                         in if n > 0
                            then (let dest = children_start + index' * kPointerSize
                                  in move_bytes dest (dest + kPointerSize) (n * kPointerSize) mem')
                            else mem'))
             else mem)
      in nb_set_num (nb_num_items mem - 1) mem')"

definition nb_insert_item :: "nat \<Rightarrow> str \<Rightarrow> str \<Rightarrow> str" where
  "nb_insert_item index item mem = nb_set_key index item (nb_shift_right index mem)"

definition nb_leaf_insert :: "nat \<Rightarrow> str \<Rightarrow> str \<Rightarrow> str" where
  "nb_leaf_insert index item mem = nb_insert_item index item mem"

definition nb_inner_insert :: "nat \<Rightarrow> str \<Rightarrow> u64 \<Rightarrow> str \<Rightarrow> str" where
  "nb_inner_insert index item c mem = nb_set_child (index + 1) c (nb_insert_item index item mem)"

definition nb_leaf_erase_right :: "str \<Rightarrow> str" where
  "nb_leaf_erase_right mem = nb_set_num (nb_num_items mem - 1) mem"

function nb_bsearch_loop :: "(str \<Rightarrow> int) \<Rightarrow> str \<Rightarrow> nat \<Rightarrow> nat \<Rightarrow> nat \<times> bool" where
  "nb_bsearch_loop cmp_op mem lo hi =
     (if lo < hi then
        (let mid = (lo + hi) div 2; cmp_res = cmp_op (nb_key mid mem) in
         if cmp_res = 0 then (mid, True)
         else if cmp_res < 0 then nb_bsearch_loop cmp_op mem lo mid
         else nb_bsearch_loop cmp_op mem (mid + 1) hi)
      else (hi, False))"
  by auto
termination by (relation "measure (\<lambda>(_, _, lo, hi). hi - lo)") auto

declare nb_bsearch_loop.simps [simp del]

definition nb_bsearch :: "(str \<Rightarrow> int) \<Rightarrow> str \<Rightarrow> nat \<times> bool" where
  "nb_bsearch cmp_op mem =
     (let hi = nb_num_items mem; cmp_res = cmp_op (nb_key (hi - 1) mem) in
      if cmp_res \<ge> 0 then (if cmp_res > 0 then (hi, False) else (hi - 1, True))
      else nb_bsearch_loop cmp_op mem 0 (hi - 1))"

section \<open>Reading after writing\<close>

lemma get_put_pointer: "of_nat (le_value (put_pointer p)) = p"
proof -
  have "unat p < 256 ^ 8" using unsigned_less[of p] by simp
  then show ?thesis by (simp add: put_pointer_def le_value_bytes)
qed

lemma get_put_count: "of_nat (le_value (put_u32 c)) = c"
proof -
  have "unat c < 256 ^ 4" using unsigned_less[of c] by simp
  then show ?thesis by (simp add: put_u32_def le_value_bytes)
qed

lemma length_put_pointer [simp]: "length (put_pointer p) = 8"
  by (simp add: put_pointer_def)

text \<open>The writes of one field, seen through every field.\<close>

lemma after_set_key:
  assumes "length mem = 256" "length x = 16" "i < 15"
  shows "length (nb_set_key i x mem) = 256"
    and "j < 15 \<Longrightarrow> nb_key j (nb_set_key i x mem) = (if j = i then x else nb_key j mem)"
    and "i < 10 \<Longrightarrow> j < 11 \<Longrightarrow> nb_child j (nb_set_key i x mem) = nb_child j mem"
    and "i < 10 \<Longrightarrow> nb_inner_count (nb_set_key i x mem) = nb_inner_count mem"
    and "nb_num_items (nb_set_key i x mem) = nb_num_items mem" "nb_is_leaf (nb_set_key i x mem) = nb_is_leaf mem"
  using assms
  by (simp_all add: nb_set_key_def nb_key_def nb_child_def nb_inner_count_def nb_num_items_def nb_is_leaf_def layout_values
      peek_poke_slot peek_poke_out nth_poke)

lemma after_set_child:
  assumes "length mem = 256" "i < 11"
  shows "length (nb_set_child i p mem) = 256"
    and "j < 10 \<Longrightarrow> nb_key j (nb_set_child i p mem) = nb_key j mem"
    and "j < 11 \<Longrightarrow> nb_child j (nb_set_child i p mem) = (if j = i then p else nb_child j mem)"
    and "nb_inner_count (nb_set_child i p mem) = nb_inner_count mem"
    and "nb_num_items (nb_set_child i p mem) = nb_num_items mem" "nb_is_leaf (nb_set_child i p mem) = nb_is_leaf mem"
  using assms
  by (simp_all add: nb_set_child_def nb_key_def nb_child_def nb_inner_count_def nb_num_items_def nb_is_leaf_def layout_values
      peek_poke_slot peek_poke_out nth_poke get_put_pointer)

lemma after_set_count:
  assumes "length mem = 256"
  shows "length (nb_set_tree_count c mem) = 256"
    and "j < 10 \<Longrightarrow> nb_key j (nb_set_tree_count c mem) = nb_key j mem"
    and "j < 11 \<Longrightarrow> nb_child j (nb_set_tree_count c mem) = nb_child j mem"
    and "nb_inner_count (nb_set_tree_count c mem) = c"
    and "nb_num_items (nb_set_tree_count c mem) = nb_num_items mem" "nb_is_leaf (nb_set_tree_count c mem) = nb_is_leaf mem"
  using assms
  by (simp_all add: nb_set_tree_count_def nb_key_def nb_child_def nb_inner_count_def nb_num_items_def nb_is_leaf_def layout_values
      peek_poke_in peek_poke_out nth_poke get_put_count)

lemma peek_update_meta: "0 < off \<Longrightarrow> peek off n (mem[0 := b]) = peek off n mem"
  by (simp add: peek_def drop_update_cancel)

lemma bit_low_mask: "bit (0x7F :: byte) n \<longleftrightarrow> n < 7" and bit_high_mask: "bit (0x80 :: byte) n \<longleftrightarrow> n = 7"
proof -
  have m: "(0x7F :: byte) = mask 7" and e: "(0x80 :: byte) = 2 ^ 7" by (simp_all add: mask_eq_exp_minus_1)
  show "bit (0x7F :: byte) n \<longleftrightarrow> n < 7" unfolding m bit_mask_iff by auto
  show "bit (0x80 :: byte) n \<longleftrightarrow> n = 7" unfolding e bit_exp_iff by auto
qed

lemma low_bits:
  assumes "n < 128"
  shows "unat (((b AND 0x80) OR (of_nat n AND 0x7F)) AND 0x7F :: byte) = n" "bit ((b AND 0x80) OR (of_nat n AND 0x7F) :: byte) 7 = bit b 7"
    "unat (((b AND 0x7F) OR (if lf then 0x80 else 0)) AND 0x7F :: byte) = unat (b AND 0x7F)"
    "bit ((b AND 0x7F) OR (if lf then 0x80 else 0) :: byte) 7 = lf"
proof -
  have "((b AND 0x80) OR (of_nat n AND 0x7F)) AND 0x7F = (of_nat n AND 0x7F :: byte)"
    by (rule bit_word_eqI) (simp only: bit_and_iff bit_or_iff bit_low_mask bit_high_mask, auto)
  moreover have "unat (of_nat n AND 0x7F :: byte) = n"
  proof -
    have m: "(0x7F :: byte) = mask 7" by (simp add: mask_eq_exp_minus_1)
    show ?thesis unfolding m take_bit_eq_mask[symmetric]
      using assms by (simp only: unsigned_take_bit_eq unat_of_nat) (simp add: take_bit_eq_mod)
  qed
  ultimately show "unat (((b AND 0x80) OR (of_nat n AND 0x7F)) AND 0x7F :: byte) = n" by simp
  show "bit ((b AND 0x80) OR (of_nat n AND 0x7F) :: byte) 7 = bit b 7" by (simp add: bit_low_mask bit_high_mask bit_and_iff bit_or_iff)
  have "((b AND 0x7F) OR (if lf then 0x80 else 0)) AND 0x7F = (b AND 0x7F :: byte)"
  proof (cases lf)
    case True
    then show ?thesis
      by (intro bit_word_eqI) (simp only: if_True bit_and_iff bit_or_iff bit_low_mask bit_high_mask, auto)
  qed (simp add: and.assoc)
  then show "unat (((b AND 0x7F) OR (if lf then 0x80 else 0)) AND 0x7F :: byte) = unat (b AND 0x7F)" by simp
  show "bit ((b AND 0x7F) OR (if lf then 0x80 else 0) :: byte) 7 = lf"
    by (simp add: bit_low_mask bit_high_mask bit_and_iff bit_or_iff)
qed

lemma after_set_num:
  assumes "length mem = 256"
  shows "length (nb_set_num n mem) = 256" "nb_key j (nb_set_num n mem) = nb_key j mem" "nb_child j (nb_set_num n mem) = nb_child j mem"
    "nb_inner_count (nb_set_num n mem) = nb_inner_count mem" "n < 128 \<Longrightarrow> nb_num_items (nb_set_num n mem) = n"
    "nb_is_leaf (nb_set_num n mem) = nb_is_leaf mem"
  using assms low_bits(1,2)[of n "mem ! 0"] low_bits(2)[of 0 "mem ! 0"]
  by (simp_all add: nb_set_num_def nb_key_def nb_child_def nb_inner_count_def nb_num_items_def nb_is_leaf_def layout_values peek_update_meta)
     (simp_all add: bit_low_mask bit_high_mask bit_and_iff bit_or_iff)

lemma after_set_leaf:
  assumes "length mem = 256"
  shows "length (nb_set_leaf lf mem) = 256" "nb_key j (nb_set_leaf lf mem) = nb_key j mem" "nb_child j (nb_set_leaf lf mem) = nb_child j mem"
    "nb_inner_count (nb_set_leaf lf mem) = nb_inner_count mem" "nb_num_items (nb_set_leaf lf mem) = nb_num_items mem"
    "nb_is_leaf (nb_set_leaf lf mem) = lf"
  using assms low_bits(3,4)[of 0 "mem ! 0" lf]
  by (simp_all add: nb_set_leaf_def nb_key_def nb_child_def nb_inner_count_def nb_num_items_def nb_is_leaf_def layout_values peek_update_meta)

lemmas after_write = after_set_key after_set_child after_set_count after_set_num after_set_leaf

lemma after_move_keys:
  assumes "length mem = 256" "d + k \<le> 15" "s + k \<le> 15"
  defines "mem' \<equiv> move_bytes (key_ptr d) (key_ptr s) (k * kKeySize) mem"
  shows "length mem' = 256"
    and "nb_key j mem' = (if d \<le> j \<and> j < d + k then nb_key (s + (j - d)) mem else nb_key j mem)"
    and "d + k \<le> 10 \<Longrightarrow> nb_child i mem' = nb_child i mem"
    and "d + k \<le> 10 \<Longrightarrow> nb_inner_count mem' = nb_inner_count mem"
    and "nb_num_items mem' = nb_num_items mem" "nb_is_leaf mem' = nb_is_leaf mem"
proof -
  have inside: "peek (4 + 16 * j) 16 mem' = peek (4 + 16 * (s + (j - d))) 16 mem" if "d \<le> j" "j < d + k"
  proof -
    have "4 + 16 * s + (4 + 16 * j - (4 + 16 * d)) = 4 + 16 * (s + (j - d))" using that(1) by simp
    then show ?thesis using peek_move(1)[of "4 + 16 * d" "k * 16" mem "4 + 16 * s" "4 + 16 * j" 16] assms that
      by (simp add: mem'_def layout_values)
  qed
  have outside: "peek (4 + 16 * j) 16 mem' = peek (4 + 16 * j) 16 mem" if "\<not> (d \<le> j \<and> j < d + k)"
    unfolding mem'_def layout_values by (rule peek_move(2)) (use assms that in auto)
  show "nb_key j mem' = (if d \<le> j \<and> j < d + k then nb_key (s + (j - d)) mem else nb_key j mem)"
    using inside outside by (simp add: nb_key_def layout_values)
  show "length mem' = 256" "nb_num_items mem' = nb_num_items mem" "nb_is_leaf mem' = nb_is_leaf mem"
    "d + k \<le> 10 \<Longrightarrow> nb_child i mem' = nb_child i mem" "d + k \<le> 10 \<Longrightarrow> nb_inner_count mem' = nb_inner_count mem"
    using assms by (simp_all add: nb_num_items_def nb_is_leaf_def nb_child_def nb_inner_count_def layout_values peek_move)
qed

lemma after_move_children:
  assumes "length mem = 256" "d + k \<le> 11" "s + k \<le> 11"
  defines "mem' \<equiv> move_bytes (children_start + d * kPointerSize) (children_start + s * kPointerSize) (k * kPointerSize) mem"
  shows "length mem' = 256"
    and "nb_child j mem' = (if d \<le> j \<and> j < d + k then nb_child (s + (j - d)) mem else nb_child j mem)"
    and "i < 10 \<Longrightarrow> nb_key i mem' = nb_key i mem" "nb_inner_count mem' = nb_inner_count mem"
    and "nb_num_items mem' = nb_num_items mem" "nb_is_leaf mem' = nb_is_leaf mem"
proof -
  have inside: "peek (168 + 8 * j) 8 mem' = peek (168 + 8 * (s + (j - d))) 8 mem" if "d \<le> j" "j < d + k"
  proof -
    have "168 + 8 * s + (168 + 8 * j - (168 + 8 * d)) = 168 + 8 * (s + (j - d))" using that(1) by simp
    then show ?thesis using peek_move(1)[of "168 + 8 * d" "k * 8" mem "168 + 8 * s" "168 + 8 * j" 8] assms that
      by (simp add: mem'_def layout_values mult.commute)
  qed
  have outside: "peek (168 + 8 * j) 8 mem' = peek (168 + 8 * j) 8 mem" if "\<not> (d \<le> j \<and> j < d + k)"
    unfolding mem'_def layout_values by (rule peek_move(2)) (use assms that in auto)
  show "nb_child j mem' = (if d \<le> j \<and> j < d + k then nb_child (s + (j - d)) mem else nb_child j mem)"
    using inside outside by (simp add: nb_child_def layout_values)
  show "length mem' = 256" "nb_num_items mem' = nb_num_items mem" "nb_is_leaf mem' = nb_is_leaf mem"
    "i < 10 \<Longrightarrow> nb_key i mem' = nb_key i mem" "nb_inner_count mem' = nb_inner_count mem"
    using assms by (simp_all add: nb_num_items_def nb_is_leaf_def nb_key_def nb_inner_count_def layout_values peek_move)
qed

section \<open>Blocks that store nodes\<close>

definition block :: "bool \<Rightarrow> str list \<Rightarrow> u64 list \<Rightarrow> u32 \<Rightarrow> str \<Rightarrow> bool" where
  "block leaf ks ps c mem \<longleftrightarrow>
     length mem = 256 \<and> nb_is_leaf mem = leaf \<and> nb_num_items mem = length ks \<and>
     length ks \<le> (if leaf then 15 else 10) \<and> (\<forall>i < length ks. nb_key i mem = ks ! i) \<and>
     (if leaf then ps = [] \<and> c = 0
      else nb_inner_count mem = c \<and> length ps = Suc (length ks) \<and> (\<forall>i < length ps. nb_child i mem = ps ! i))"

lemma blockD:
  assumes "block leaf ks ps c mem"
  shows "length mem = 256" "nb_is_leaf mem = leaf" "nb_num_items mem = length ks" "length ks \<le> 15" "\<not> leaf \<Longrightarrow> length ks \<le> 10"
    "i < length ks \<Longrightarrow> nb_key i mem = ks ! i"
    "\<not> leaf \<Longrightarrow> nb_inner_count mem = c" "\<not> leaf \<Longrightarrow> length ps = Suc (length ks)"
    "\<not> leaf \<Longrightarrow> i \<le> length ks \<Longrightarrow> nb_child i mem = ps ! i"
  using assms by (auto simp: block_def split: if_splits)

lemma nth_insert_at: "i \<le> length xs \<Longrightarrow> j \<le> length xs \<Longrightarrow>
    (take i xs @ x # drop i xs) ! j = (if j < i then xs ! j else if j = i then x else xs ! (j - 1))"
  by (auto simp: nth_append min_def nth_Cons')

lemma nth_delete_at: "i < length xs \<Longrightarrow> j < length xs - 1 \<Longrightarrow>
    (take i xs @ drop (i + 1) xs) ! j = (if j < i then xs ! j else xs ! (j + 1))"
  by (auto simp: nth_append min_def)

lemma shift_right_leaf:
  assumes "block True ks ps c mem" "i \<le> length ks" "length ks < 15"
  shows "length (nb_shift_right i mem) = 256" "nb_is_leaf (nb_shift_right i mem)" "nb_num_items (nb_shift_right i mem) = Suc (length ks)"
    "j < 15 \<Longrightarrow> nb_key j (nb_shift_right i mem) = (if i < j \<and> j \<le> length ks then ks ! (j - 1) else nb_key j mem)"
proof -
  note b = blockD[OF assms(1)]
  let ?k = "length ks - i"
  have eq: "nb_shift_right i mem = nb_set_num (Suc (length ks)) (if i < length ks then move_bytes (key_ptr (Suc i)) (key_ptr i) (?k * kKeySize) mem else mem)"
    by (simp add: nb_shift_right_def b Let_def key_ptr_def algebra_simps)
  note mv = after_move_keys[OF b(1), where d = "Suc i" and s = i and k = ?k]
  show "length (nb_shift_right i mem) = 256" "nb_is_leaf (nb_shift_right i mem)" "nb_num_items (nb_shift_right i mem) = Suc (length ks)"
    using mv assms(2,3) b by (simp_all add: eq after_set_num)
  show "nb_key j (nb_shift_right i mem) = (if i < j \<and> j \<le> length ks then ks ! (j - 1) else nb_key j mem)" if "j < 15"
    using mv(1) mv(2)[of j] assms(2,3) b by (auto simp: eq after_set_num Suc_le_eq less_Suc_eq_le)
qed

lemma block_leaf_insert:
  assumes "block True ks [] c mem" "i \<le> length ks" "length ks < 15" "length x = 16"
  shows "block True (take i ks @ x # drop i ks) [] c (nb_leaf_insert i x mem)"
proof -
  note b = blockD[OF assms(1)] and sh = shift_right_leaf[OF assms(1-3)]
  have c: "c = 0" using assms(1) by (simp add: block_def)
  have "nb_key j (nb_leaf_insert i x mem) = (take i ks @ x # drop i ks) ! j" if "j \<le> length ks" for j
    using that assms(2-4) b(6)[of j] sh after_set_key(2)[OF sh(1) assms(4), of i j]
    by (subst nth_insert_at) (auto simp: nb_leaf_insert_def nb_insert_item_def)
  then show ?thesis
    using assms(2-4) sh(1-3) after_set_key[OF sh(1) assms(4), of i] c
    by (simp add: block_def nb_leaf_insert_def nb_insert_item_def)
qed

lemma shift_right_inner:
  assumes "block False ks ps c mem" "i \<le> length ks" "length ks < 10"
  shows "length (nb_shift_right i mem) = 256" "\<not> nb_is_leaf (nb_shift_right i mem)" "nb_num_items (nb_shift_right i mem) = Suc (length ks)"
    "nb_inner_count (nb_shift_right i mem) = c"
    "j < 10 \<Longrightarrow> nb_key j (nb_shift_right i mem) = (if i < j \<and> j \<le> length ks then ks ! (j - 1) else nb_key j mem)"
    "j \<le> Suc (length ks) \<Longrightarrow> j \<noteq> Suc i \<Longrightarrow> nb_child j (nb_shift_right i mem) = (if i < j then ps ! (j - 1) else ps ! j)"
proof -
  note b = blockD[OF assms(1)]
  let ?k = "length ks - i"
  define m1 where "m1 = move_bytes (key_ptr (Suc i)) (key_ptr i) (?k * kKeySize) mem"
  define m2 where "m2 = move_bytes (children_start + Suc i * kPointerSize) (children_start + i * kPointerSize) (Suc ?k * kPointerSize) m1"
  have eq: "nb_shift_right i mem = nb_set_num (Suc (length ks)) (if i < length ks then m2 else mem)"
    by (simp add: nb_shift_right_def b Let_def key_ptr_def m1_def m2_def algebra_simps)
  note mv = after_move_keys[OF b(1), where d = "Suc i" and s = i and k = ?k, folded m1_def]
  note mv' = after_move_children[of m1, where d = "Suc i" and s = i and k = "Suc ?k", folded m2_def]
  have keys: "nb_key j m2 = (if i < j \<and> j \<le> length ks then ks ! (j - 1) else nb_key j mem)" if "i < length ks" "j < 10" for j
    using that assms(2,3) b(6) mv(1) mv(2)[of j] mv'(3)[of j] by (auto simp: Suc_le_eq less_Suc_eq_le)
  have children: "nb_child j m2 = (if i < j then ps ! (j - 1) else ps ! j)" if "i < length ks" "j \<le> Suc (length ks)" for j
    using that assms(2,3) b(9) mv(1) mv(3) mv'(2)[of j] by (auto simp: Suc_le_eq less_Suc_eq_le)
  show "length (nb_shift_right i mem) = 256" "\<not> nb_is_leaf (nb_shift_right i mem)" "nb_num_items (nb_shift_right i mem) = Suc (length ks)"
    "nb_inner_count (nb_shift_right i mem) = c"
    using mv mv' assms(2,3) b by (simp_all add: eq after_set_num)
  show "nb_key j (nb_shift_right i mem) = (if i < j \<and> j \<le> length ks then ks ! (j - 1) else nb_key j mem)" if "j < 10"
    using keys[OF _ that] mv(1) mv'(1) assms(2,3) b(1) by (auto simp: eq after_set_num)
  show "nb_child j (nb_shift_right i mem) = (if i < j then ps ! (j - 1) else ps ! j)" if "j \<le> Suc (length ks)" "j \<noteq> Suc i"
    using children[OF _ that(1)] that mv(1) mv'(1) assms(2,3) b(1) b(9)[of j] by (auto simp: eq after_set_num)
qed

lemma block_inner_insert:
  assumes "block False ks ps c mem" "i \<le> length ks" "length ks < 10" "length x = 16"
  shows "block False (take i ks @ x # drop i ks) (take (Suc i) ps @ p # drop (Suc i) ps) c (nb_inner_insert i x p mem)"
proof -
  note b = blockD[OF assms(1)] and sh = shift_right_inner[OF assms(1-3)]
  define m1 where "m1 = nb_set_key i x (nb_shift_right i mem)"
  note m1 = after_set_key[OF sh(1) assms(4), of i, folded m1_def]
  note m2 = after_set_child[where mem = m1 and i = "Suc i" and p = p]
  have eq: "nb_inner_insert i x p mem = nb_set_child (Suc i) p m1"
    by (simp add: nb_inner_insert_def nb_insert_item_def m1_def)
  have "nb_key j (nb_inner_insert i x p mem) = (take i ks @ x # drop i ks) ! j" if "j \<le> length ks" for j
    using that assms(2,3) b(6)[of j] sh(5)[where j = j] m1(1) m1(2)[where j = j] m2(2)[where j = j] unfolding eq by (subst nth_insert_at) auto
  moreover have "nb_child j (nb_inner_insert i x p mem) = (take (Suc i) ps @ p # drop (Suc i) ps) ! j" if "j \<le> Suc (length ks)" for j
    using that assms(2,3) b(8) sh(6)[where j = j] m1(1) m1(3)[where j = j] m2(3)[where j = j] unfolding eq by (subst nth_insert_at) auto
  ultimately show ?thesis
    using assms(2,3) sh(1-4) m1 m2 b(8) by (simp add: block_def eq)
qed

lemma block_shift_left_leaf:
  assumes "block True ks [] c mem" "i < length ks"
  shows "block True (take i ks @ drop (Suc i) ks) [] c (nb_shift_left i s mem)"
proof -
  note b = blockD[OF assms(1)]
  have c: "c = 0" using assms(1) by (simp add: block_def)
  let ?k = "length ks - Suc i"
  have eq: "nb_shift_left i s mem = nb_set_num (length ks - 1) (if Suc i < length ks then move_bytes (key_ptr i) (key_ptr (Suc i)) (?k * kKeySize) mem else mem)"
    by (auto simp add: nb_shift_left_def b Let_def)
  note mv = after_move_keys[OF b(1), where d = i and s = "Suc i" and k = ?k]
  have "nb_key j (nb_shift_left i s mem) = (take i ks @ drop (Suc i) ks) ! j" if "j < length ks - 1" for j
    using that assms(2) b(4) b(6)[of j] b(6)[of "Suc j"] mv(1) mv(2)[of j] b(1)
    by (simp only: Suc_eq_plus1 nth_delete_at[of i ks j]) (auto simp: eq after_set_num)
  moreover have "length (nb_shift_left i s mem) = 256 \<and> nb_is_leaf (nb_shift_left i s mem) \<and> nb_num_items (nb_shift_left i s mem) = length ks - 1"
    using mv b assms(2) by (simp add: eq after_set_num)
  ultimately show ?thesis using b(4) assms(2) c by (auto simp: block_def)
qed

lemma block_shift_left_inner:
  fixes s :: bool
  assumes "block False ks ps c mem" "i < length ks"
  defines "e \<equiv> (if Suc i < length ks then i + of_bool s else length ks)"
  shows "block False (take i ks @ drop (Suc i) ks) (take e ps @ drop (Suc e) ps) c (nb_shift_left i s mem)"
proof -
  note b = blockD[OF assms(1)]
  let ?k = "length ks - Suc i"
  define m1 where "m1 = move_bytes (key_ptr i) (key_ptr (Suc i)) (?k * kKeySize) mem"
  define m2 where "m2 = move_bytes (children_start + e * kPointerSize) (children_start + Suc e * kPointerSize) ((length ks - e) * kPointerSize) m1"
  have e: "e < length ks" if "Suc i < length ks" using that by (auto simp: e_def)
  have eq: "nb_shift_left i s mem = nb_set_num (length ks - 1) (if Suc i < length ks then m2 else mem)"
    using e by (auto simp: nb_shift_left_def b Let_def m1_def m2_def e_def algebra_simps)
  note mv = after_move_keys[OF b(1), where d = i and s = "Suc i" and k = ?k, folded m1_def]
  note mv' = after_move_children[of m1, where d = e and s = "Suc e" and k = "length ks - e", folded m2_def]
  have all: "length (nb_shift_left i s mem) = 256" "\<not> nb_is_leaf (nb_shift_left i s mem)"
    "nb_num_items (nb_shift_left i s mem) = length ks - 1" "nb_inner_count (nb_shift_left i s mem) = c"
    using mv mv' e b(1-5,7) assms(2) by (cases "Suc i < length ks"; simp add: eq after_set_num)+
  have keys: "nb_key j m2 = (if i \<le> j then ks ! Suc j else ks ! j)" if "Suc i < length ks" "Suc j < length ks" for j
    using that e b(5) b(6)[of j] b(6)[of "Suc j"] mv(1) mv(2)[of j] mv'(3)[of j] by (auto simp: Suc_le_eq less_Suc_eq_le)
  have children: "nb_child j m2 = (if e \<le> j then ps ! Suc j else ps ! j)" if "Suc i < length ks" "j < length ks" for j
    using that e b(5) b(9)[of j] b(9)[of "Suc j"] mv(1) mv(3)[of j] mv(3)[of "Suc j"] mv'(2)[of j] by (auto simp: Suc_le_eq less_Suc_eq_le)
  have "nb_key j (nb_shift_left i s mem) = (take i ks @ drop (Suc i) ks) ! j" if "j < length ks - 1" for j
    using that assms(2) b(1,4) b(6)[of j] e keys[of j] mv(1) mv'(1) b(5)
    by (simp only: Suc_eq_plus1 nth_delete_at[of i ks j]) (auto simp: eq after_set_num)
  moreover have "nb_child j (nb_shift_left i s mem) = (take e ps @ drop (Suc e) ps) ! j" if "j < length ks" for j
  proof -
    have "(take e ps @ drop (Suc e) ps) ! j = (if j < e then ps ! j else ps ! (j + 1))"
      using that b(8) nth_delete_at[of e ps j] by (simp add: e_def)
    then show ?thesis
      using that assms(2) b(1) b(9)[of j] e children[of j] mv(1) mv'(1) b(5) by (auto simp: eq after_set_num e_def)
  qed
  ultimately show ?thesis using b(5,8) all assms(2) by (auto simp: block_def e_def)
qed

lemma block_leaf_erase_right:
  assumes "block True ks [] c mem" "ks \<noteq> []"
  shows "block True (butlast ks) [] c (nb_leaf_erase_right mem)"
  using assms blockD[OF assms(1)] by (auto simp: nb_leaf_erase_right_def block_def after_set_num nth_butlast)

lemma block_init_single:
  assumes "length mem = 256" "length x = 16"
  shows "block True [x] [] 0 (nb_init_single x (nb_new True mem))" "block True [] [] 0 (nb_new True mem)"
proof -
  have new: "length (nb_new True mem) = 256" "nb_is_leaf (nb_new True mem)" "nb_num_items (nb_new True mem) = 0"
    using assms by (simp_all add: nb_new_def after_set_leaf after_set_num)
  show "block True [] [] 0 (nb_new True mem)" using new by (simp add: block_def)
  show "block True [x] [] 0 (nb_init_single x (nb_new True mem))"
    using new assms(2) by (simp add: block_def nb_init_single_def after_set_num after_set_key)
qed

lemma nb_bsearch_loop_list:
  assumes "\<And>j. j < hi \<Longrightarrow> nb_key j mem = ks ! j"
  shows "nb_bsearch_loop cmp_op mem lo hi = bsearch_loop cmp_op ks lo hi"
  using assms
proof (induction cmp_op mem lo hi rule: nb_bsearch_loop.induct)
  case (1 cmp_op mem lo hi)
  show ?case
    using 1 by (subst nb_bsearch_loop.simps, subst bsearch_loop.simps) (auto simp: Let_def)
qed

lemma block_bsearch:
  assumes "block leaf ks ps c mem" "ks \<noteq> []" "node_keys n = ks"
  shows "nb_bsearch cmp_op mem = bsearch cmp_op n"
proof -
  note b = blockD[OF assms(1)]
  have "nb_bsearch_loop cmp_op mem 0 (length ks - 1) = bsearch_loop cmp_op ks 0 (length ks - 1)"
    by (rule nb_bsearch_loop_list) (use b(6) in simp)
  then show ?thesis
    using assms(2,3) b(3) b(6)[of "length ks - 1"] by (simp add: nb_bsearch_def bsearch_def Let_def num_items_def)
qed

end
