(* ===== verification/Node_Heap.thy ===== *)
theory Node_Heap
  imports Node_Memory
begin

text \<open>
  Operations that move items between nodes (\<^verbatim>\<open>Split\<close>, \<^verbatim>\<open>MergeFromRight\<close>, \<^verbatim>\<open>RebalanceChildToLeft\<close>,
  \<^verbatim>\<open>RebalanceChildToRight\<close> and the operations that choose between them, in \<^verbatim>\<open>src/zset/bplustree_internal.hpp\<close>), on a heap
  of blocks: loops that copy keys and pointers from block to block, reading the subtree counts of the children through their
  pointers.  A tree with the addresses of its nodes says what a heap stores; the operations on the heap are shown to be the
  operations of \<^verbatim>\<open>BPlus_Node\<close> on the tree without the addresses, and to write to the nodes they are about only.
\<close>

section \<open>Loops over slots\<close>

text \<open>
  What the loops rely on: the slots of a block (keys or child pointers) are read back as written, and the \<open>rest\<close> of the block is
  kept.
\<close>

locale slots =
  fixes rd :: "nat \<Rightarrow> str \<Rightarrow> 'x" and wr :: "nat \<Rightarrow> 'x \<Rightarrow> str \<Rightarrow> str" and bound :: nat and fits :: "'x \<Rightarrow> bool" and rest :: "str \<Rightarrow> 'f"
  assumes rd_wr: "length mem = 256 \<Longrightarrow> i < bound \<Longrightarrow> j < bound \<Longrightarrow> fits x \<Longrightarrow> rd j (wr i x mem) = (if j = i then x else rd j mem)"
    and length_wr: "length mem = 256 \<Longrightarrow> i < bound \<Longrightarrow> fits x \<Longrightarrow> length (wr i x mem) = 256"
    and rest_wr: "length mem = 256 \<Longrightarrow> i < bound \<Longrightarrow> fits x \<Longrightarrow> rest (wr i x mem) = rest mem"
    and fits_rd: "length mem = 256 \<Longrightarrow> i < bound \<Longrightarrow> fits (rd i mem)"
begin

lemmas wr_simps = rd_wr length_wr rest_wr fits_rd

lemma copy_in:
  assumes "length mem = 256" "d + k \<le> bound" "\<And>i. i < k \<Longrightarrow> fits (f i)"
  defines "m \<equiv> fold (\<lambda>i. wr (d + i) (f i)) [0..<k] mem"
  shows "length m = 256 \<and> rest m = rest mem \<and> (\<forall>j < bound. rd j m = (if d \<le> j \<and> j < d + k then f (j - d) else rd j mem))"
  using assms(2,3) unfolding m_def
proof (induction k)
  case 0
  then show ?case using assms(1) by auto
next
  case (Suc k)
  then show ?case by (auto simp: wr_simps)
qed

lemma shift_down:
  assumes "length mem = 256" "c + k \<le> bound"
  defines "m \<equiv> fold (\<lambda>i m. wr (i - c) (rd i m) m) [c..<c + k] mem"
  shows "length m = 256 \<and> rest m = rest mem \<and> (\<forall>j < bound. rd j m = (if j < k then rd (c + j) mem else rd j mem))"
  using assms(2) unfolding m_def
proof (induction k)
  case 0
  then show ?case using assms(1) by auto
next
  case (Suc k)
  then show ?case using assms(1) by (auto simp: wr_simps less_Suc_eq)
qed

lemma shift_down_clear:
  assumes "length mem = 256" "c + k \<le> bound" "0 < c" "fits z"
  defines "m \<equiv> fold (\<lambda>i m. wr i z (wr (i - c) (rd i m) m)) [c..<c + k] mem"
  shows "length m = 256 \<and> rest m = rest mem \<and> (\<forall>j < k. rd j m = rd (c + j) mem) \<and> (\<forall>j < bound. c + k \<le> j \<longrightarrow> rd j m = rd j mem)"
  using assms(2) unfolding m_def
proof (induction k)
  case 0
  then show ?case using assms(1) by auto
next
  case (Suc k)
  then show ?case using assms(1,3,4) by (auto simp: wr_simps less_Suc_eq)
qed

lemma shift_up:
  assumes "length mem = 256" "c + k \<le> bound"
  defines "m \<equiv> fold (\<lambda>i m. wr (i + c) (rd i m) m) (rev [0..<k]) mem"
  shows "length m = 256 \<and> rest m = rest mem \<and> (\<forall>j < bound. rd j m = (if c \<le> j \<and> j < c + k then rd (j - c) mem else rd j mem))"
  using assms(1,2) unfolding m_def
proof (induction k arbitrary: mem)
  case 0
  then show ?case by auto
next
  case (Suc k)
  show ?case using Suc.IH[of "wr (k + c) (rd k mem) mem"] Suc.prems by (auto simp: wr_simps less_Suc_eq)
qed

end

text \<open>The key slots (an inner node has fewer than a leaf), and the child pointers.\<close>

definition key_slots :: "bool \<Rightarrow> nat" where
  "key_slots leaf = (if leaf then kMaxLeafKeys else kMaxInnerKeys)"

definition key_rest :: "bool \<Rightarrow> str \<Rightarrow> nat \<times> bool \<times> (u32 \<times> u64 list) option" where
  "key_rest leaf mem =
     (nb_num_items mem, nb_is_leaf mem, if leaf then None else Some (nb_inner_count mem, map (\<lambda>i. nb_child i mem) [0..<11]))"

definition child_rest :: "str \<Rightarrow> nat \<times> bool \<times> u32 \<times> str list" where
  "child_rest mem = (nb_num_items mem, nb_is_leaf mem, nb_inner_count mem, map (\<lambda>i. nb_key i mem) [0..<10])"

lemma key_slots_15: "i < key_slots leaf \<Longrightarrow> i < 15"
  by (simp add: key_slots_def split: if_splits)

interpretation ks: slots nb_key nb_set_key "key_slots leaf" "\<lambda>x. length x = 16" "key_rest leaf" for leaf
proof
  fix mem x :: str and i j :: nat
  assume mem: "length mem = 256" "i < key_slots leaf"
  show "length (nb_key i mem) = 16" using mem key_slots_15[OF mem(2)] by (simp add: nb_key_def layout_values)
  assume x: "length x = 16"
  show "length (nb_set_key i x mem) = 256" using mem x key_slots_15[OF mem(2)] by (simp add: after_set_key)
  show "key_rest leaf (nb_set_key i x mem) = key_rest leaf mem"
    using mem x key_slots_15[OF mem(2)] by (cases leaf) (simp_all add: key_rest_def after_set_key key_slots_def)
  assume j: "j < key_slots leaf"
  show "nb_key j (nb_set_key i x mem) = (if j = i then x else nb_key j mem)"
    using mem x key_slots_15[OF mem(2)] key_slots_15[OF j] by (simp add: after_set_key)
qed

interpretation ch: slots nb_child nb_set_child 11 "\<lambda>_. True" child_rest
  by unfold_locales (simp_all add: after_set_child child_rest_def)

lemma key_restD:
  assumes "key_rest leaf m = key_rest leaf mem"
  shows "nb_num_items m = nb_num_items mem" "nb_is_leaf m = nb_is_leaf mem" "\<not> leaf \<Longrightarrow> nb_inner_count m = nb_inner_count mem"
    "\<not> leaf \<Longrightarrow> i < 11 \<Longrightarrow> nb_child i m = nb_child i mem"
  using assms by (auto simp: key_rest_def)

lemma child_restD:
  assumes "child_rest m = child_rest mem"
  shows "nb_num_items m = nb_num_items mem" "nb_is_leaf m = nb_is_leaf mem" "nb_inner_count m = nb_inner_count mem"
    "i < 10 \<Longrightarrow> nb_key i m = nb_key i mem"
  using assms by (auto simp: child_rest_def)

section \<open>Operations on the heap\<close>

type_synonym heap = "u64 \<Rightarrow> str"

definition nh_split :: "u64 \<Rightarrow> u64 \<Rightarrow> heap \<Rightarrow> str \<times> heap" where
  "nh_split this right h =
     (let mid = nb_num_items (h this) div 2;
          median = nb_key mid (h this);
          h = h(right := nb_set_leaf (nb_is_leaf (h this)) (h right));
          h = h(right := nb_set_num (nb_num_items (h this) - (mid + 1)) (h right));
          n = nb_num_items (h right);
          h = h(right := poke (key_ptr 0) (peek (key_ptr (mid + 1)) (n * kKeySize) (h this)) (h right));
          h = (if nb_is_leaf (h this) then h
               else
                 (let (right_subtree_count, h) =
                        fold (\<lambda>i (cnt, h).
                          (cnt + nb_tree_count (h (nb_child (mid + 1 + i) (h this))),
                           h(right := nb_set_child i (nb_child (mid + 1 + i) (h this)) (h right)))) [0..<n + 1] (of_nat n, h);
                      h = h(right := nb_set_tree_count right_subtree_count (h right))
                  in h(this := nb_increase_tree_count (- (right_subtree_count + 1)) (h this))))
      in (median, h(this := nb_set_num mid (h this))))"

definition nh_merge_from_right :: "u64 \<Rightarrow> str \<Rightarrow> u64 \<Rightarrow> heap \<Rightarrow> heap" where
  "nh_merge_from_right this key right h =
     (let dest_items = nb_num_items (h this);
          h = h(this := nb_set_key dest_items key (h this));
          h = fold (\<lambda>i h. h(this := nb_set_key (dest_items + 1 + i) (nb_key i (h right)) (h this)))
                [0..<nb_num_items (h right)] h;
          h = (if nb_is_leaf (h this) then h
               else
                 (let h = fold (\<lambda>i h. h(this := nb_set_child (dest_items + 1 + i) (nb_child i (h right)) (h this)))
                            [0..<nb_num_items (h right) + 1] h
                  in h(this := nb_increase_tree_count (nb_tree_count (h right) + 1) (h this))));
          h = h(this := nb_set_num (nb_num_items (h this) + (1 + nb_num_items (h right))) (h this))
      in h(right := nb_set_num 0 (h right)))"

definition nh_set_child_count :: "u64 \<Rightarrow> nat \<Rightarrow> u32 \<Rightarrow> heap \<Rightarrow> heap" where
  "nh_set_child_count this i cnt h =
     (let c = nb_child i (h this) in h(c := nb_set_tree_count cnt (h c)))"

definition nh_move_counts :: "u64 \<Rightarrow> nat \<Rightarrow> nat \<Rightarrow> u32 \<Rightarrow> heap \<Rightarrow> heap" where
  "nh_move_counts this to from moved h =
     (let to_count = nb_tree_count (h (nb_child to (h this)));
          from_count = nb_tree_count (h (nb_child from (h this)))
      in nh_set_child_count this from (from_count - moved) (nh_set_child_count this to (to_count + moved) h))"

definition nh_rebalance_child_to_left :: "u64 \<Rightarrow> nat \<Rightarrow> nat \<Rightarrow> heap \<Rightarrow> heap" where
  "nh_rebalance_child_to_left this child_pos cnt h =
     (let src = nb_child child_pos (h this);
          dest = nb_child (child_pos - 1) (h this);
          dest_items = nb_num_items (h dest);
          h = h(dest := nb_set_key dest_items (nb_key (child_pos - 1) (h this)) (h dest));
          h = fold (\<lambda>i h. h(dest := nb_set_key (dest_items + i) (nb_key (i - 1) (h src)) (h dest))) [1..<cnt] h;
          h = h(this := nb_set_key (child_pos - 1) (nb_key (cnt - 1) (h src)) (h this));
          h = fold (\<lambda>i h. h(src := nb_set_key (i - cnt) (nb_key i (h src)) (h src))) [cnt..<nb_num_items (h src)] h;
          h = (if nb_is_leaf (h src) then h
               else
                 (let (src_move_count, h) =
                        fold (\<lambda>i (c, h).
                          (c + nb_tree_count (h (nb_child i (h src))),
                           h(dest := nb_set_child (1 + nb_num_items (h dest) + i) (nb_child i (h src)) (h dest)))) [0..<cnt] (0, h);
                      h = nh_move_counts this (child_pos - 1) child_pos (src_move_count + of_nat cnt) h
                  in fold (\<lambda>i h. h(src := nb_set_child i 0 (nb_set_child (i - cnt) (nb_child i (h src)) (h src))))
                       [cnt..<nb_num_items (h src) + 1] h));
          h = h(dest := nb_set_num (nb_num_items (h dest) + cnt) (h dest))
      in h(src := nb_set_num (nb_num_items (h src) - cnt) (h src)))"

definition nh_rebalance_child_to_right :: "u64 \<Rightarrow> nat \<Rightarrow> nat \<Rightarrow> heap \<Rightarrow> heap" where
  "nh_rebalance_child_to_right this child_pos cnt h =
     (let src = nb_child child_pos (h this);
          dest = nb_child (child_pos + 1) (h this);
          dest_items = nb_num_items (h dest);
          h = fold (\<lambda>i h. h(dest := nb_set_key (i + cnt) (nb_key i (h dest)) (h dest))) (rev [0..<dest_items]) h;
          new_delim = nb_key (nb_num_items (h src) - cnt) (h src);
          h = fold (\<lambda>i h. h(dest := nb_set_key (i - 1) (nb_key (nb_num_items (h src) - cnt + i) (h src)) (h dest))) [1..<cnt] h;
          h = h(dest := nb_set_key (cnt - 1) (nb_key child_pos (h this)) (h dest));
          h = h(this := nb_set_key child_pos new_delim (h this));
          h = (if nb_is_leaf (h src) then h
               else
                 (let h = fold (\<lambda>i h. h(dest := nb_set_child (i + cnt) (nb_child i (h dest)) (h dest))) (rev [0..<dest_items + 1]) h;
                      (src_move_count, h) =
                        fold (\<lambda>i (c, h).
                          (let src_id = nb_num_items (h src) - (cnt - 1) + i;
                               c' = c + nb_tree_count (h (nb_child src_id (h src)));
                               h = h(dest := nb_set_child i (nb_child src_id (h src)) (h dest))
                           in (c', h(src := nb_set_child src_id 0 (h src))))) [0..<cnt] (0, h)
                  in nh_move_counts this (child_pos + 1) child_pos (src_move_count + of_nat cnt) h));
          h = h(dest := nb_set_num (nb_num_items (h dest) + cnt) (h dest))
      in h(src := nb_set_num (nb_num_items (h src) - cnt) (h src)))"

section \<open>Loops over the heap\<close>

lemma fold_write:
  assumes "\<And>i m. i \<in> set xs \<Longrightarrow> W i (h(dst := m)) = W i h"
  shows "fold (\<lambda>i h. h(dst := W i h (h dst))) xs h = h(dst := fold (\<lambda>i. W i h) xs (h dst))"
  using assms
proof (induction xs arbitrary: h)
  case (Cons x xs)
  have "fold (\<lambda>i. W i (h(dst := m))) xs b = fold (\<lambda>i. W i h) xs b" for m b
    by (rule fold_cong) (simp_all add: Cons.prems)
  then show ?case using Cons.IH[of "h(dst := W x h (h dst))"] Cons.prems by (simp add: fun_upd_same del: fun_upd_apply)
qed simp

lemma fold_count_write:
  fixes F :: "'i \<Rightarrow> heap \<Rightarrow> u32"
  assumes "\<And>i m. i \<in> set xs \<Longrightarrow> W i (h(dst := m)) = W i h" "\<And>i m. i \<in> set xs \<Longrightarrow> F i (h(dst := m)) = F i h"
  shows "fold (\<lambda>i (c, h). (c + F i h, h(dst := W i h (h dst)))) xs (c, h) =
    (c + sum_list (map (\<lambda>i. F i h) xs), h(dst := fold (\<lambda>i. W i h) xs (h dst)))"
  using assms
proof (induction xs arbitrary: h c)
  case (Cons x xs)
  have "fold (\<lambda>i. W i (h(dst := m))) xs b = fold (\<lambda>i. W i h) xs b" "(\<Sum>i\<leftarrow>xs. F i (h(dst := m))) = (\<Sum>i\<leftarrow>xs. F i h)" for m b
    by (rule fold_cong, simp_all add: Cons.prems cong: map_cong)
  then show ?case using Cons.IH[of "h(dst := W x h (h dst))"] Cons.prems by (simp add: fun_upd_same add.assoc del: fun_upd_apply)
qed simp

section \<open>One operation at a time\<close>

lemma block_nth:
  assumes "block leaf ks ps c mem"
  shows "length ks \<le> key_slots leaf" "x \<in> set ks \<Longrightarrow> length x = 16" "i < length ks \<Longrightarrow> length (ks ! i) = 16"
proof -
  show slots: "length ks \<le> key_slots leaf" using assms by (simp add: block_def key_slots_def split: if_splits)
  show "length (ks ! i) = 16" if "i < length ks" for i
    using ks.fits_rd[OF blockD(1)[OF assms], of i leaf] that slots blockD(6)[OF assms that] by simp
  then show "length x = 16" if "x \<in> set ks" using that by (metis in_set_conv_nth)
qed

lemma merge_blocks:
  assumes "block leaf ks ps c (h this)" "block leaf ks' ps' c' (h right)" "this \<noteq> right" "length key = 16"
    "length ks + 1 + length ks' \<le> key_slots leaf"
  shows "\<exists>m m'. nh_merge_from_right this key right h = h(this := m, right := m') \<and> length m' = 256 \<and>
    block leaf (ks @ key # ks') (ps @ ps') (if leaf then 0 else c + (c' + 1)) m"
proof -
  note b = blockD[OF assms(1)] and b' = blockD[OF assms(2)]
  let ?d = "length ks"
  define m1 where "m1 = nb_set_key ?d key (h this)"
  define m2 where "m2 = fold (\<lambda>i. nb_set_key (?d + 1 + i) (nb_key i (h right))) [0..<length ks'] m1"
  define m3 where "m3 = fold (\<lambda>i. nb_set_child (?d + 1 + i) (nb_child i (h right))) [0..<length ks' + 1] m2"
  define m4 where "m4 = (if leaf then m2 else nb_increase_tree_count (c' + 1) m3)"
  have m1: "length m1 = 256" "key_rest leaf m1 = key_rest leaf (h this)"
    "\<And>j. j < key_slots leaf \<Longrightarrow> nb_key j m1 = (if j = ?d then key else nb_key j (h this))"
    using assms(4,5) b(1) by (simp_all add: m1_def ks.wr_simps[where leaf = leaf])
  have m2: "length m2 = 256" "key_rest leaf m2 = key_rest leaf m1"
    "\<And>j. j < key_slots leaf \<Longrightarrow> nb_key j m2 = (if ?d + 1 \<le> j \<and> j < ?d + 1 + length ks' then nb_key (j - (?d + 1)) (h right) else nb_key j m1)"
    using ks.copy_in[of m1 "?d + 1" "length ks'" leaf "\<lambda>i. nb_key i (h right)"] m1(1) assms(5) b'(1) ks.fits_rd[of "h right" _ leaf]
    by (simp_all add: m2_def)
  note r2 = key_restD[OF trans[OF m2(2) m1(2)]]
  have m3: "length m3 = 256" "child_rest m3 = child_rest m2"
    "\<And>j. j < 11 \<Longrightarrow> nb_child j m3 = (if ?d + 1 \<le> j \<and> j < ?d + 1 + (length ks' + 1) then nb_child (j - (?d + 1)) (h right) else nb_child j m2)"
    if "\<not> leaf"
    using ch.copy_in[of m2 "?d + 1" "length ks' + 1" "\<lambda>i. nb_child i (h right)"] m2(1) assms(5) that
    by (simp_all add: m3_def key_slots_def)
  have keys: "nb_key j m2 = (ks @ key # ks') ! j" if "j < length (ks @ key # ks')" for j
    using that m2(3)[of j] m1(3)[of j] b(6)[of j] b'(6)[of "j - (?d + 1)"] assms(5)
    by (auto simp: nth_append nth_Cons')
  have children: "nb_child j m3 = (ps @ ps') ! j" if "j < length (ps @ ps')" "\<not> leaf" for j
    using that m3(3)[of j] r2(4)[of j] b(8) b(9)[of j] b'(8) b'(9)[of "j - (?d + 1)"] assms(5)
    by (auto simp: nth_append key_slots_def)
  have k1: "fold (\<lambda>i h. h(this := nb_set_key (Suc (?d + i)) (nb_key i (h right)) (h this))) [0..<length ks'] (h(this := m1)) = h(this := m2)"
    and k2: "fold (\<lambda>i h. h(this := nb_set_child (Suc (?d + i)) (nb_child i (h right)) (h this))) [0..<Suc (length ks')] (h(this := m2)) = h(this := m3)"
    using assms(3) by (subst fold_write; simp add: m2_def m3_def del: upt_Suc)+
  have leaf: "nb_is_leaf m1 = leaf" "nb_is_leaf m2 = leaf" "nb_num_items m2 = ?d" "\<not> leaf \<Longrightarrow> nb_tree_count (h right) = c'"
    using key_restD(2)[OF m1(2)] r2 b b' by (simp_all add: nb_tree_count_def)
  have "nh_merge_from_right this key right h =
     h(this := nb_set_num (nb_num_items m4 + (1 + length ks')) m4, right := nb_set_num 0 (h right))"
    using assms(3) leaf b'(3) b(3) k2
    by (cases leaf) (simp_all add: nh_merge_from_right_def Let_def m1_def[symmetric] k1 k2 m4_def del: upt_Suc)
  moreover have "block leaf (ks @ key # ks') (ps @ ps') (if leaf then 0 else c + (c' + 1)) (nb_set_num (nb_num_items m4 + (1 + length ks')) m4)"
  proof (cases leaf)
    case True
    then show ?thesis using m2(1) leaf keys assms(1,2,5) by (auto simp: m4_def block_def after_set_num key_slots_def)
  next
    case False
    then have "length m4 = 256" "\<not> nb_is_leaf m4" "nb_num_items m4 = ?d" "nb_inner_count m4 = c + (c' + 1)"
      "\<And>j. j < length (ks @ key # ks') \<Longrightarrow> nb_key j m4 = (ks @ key # ks') ! j" "\<And>j. j < length (ps @ ps') \<Longrightarrow> nb_child j m4 = (ps @ ps') ! j"
      using m3 child_restD[OF m3(2)] r2 b b' leaf keys children assms(5)
      by (simp_all add: m4_def nb_increase_tree_count_def after_set_count key_slots_def)
    then show ?thesis using False assms(5) b(8) b'(8) by (simp add: block_def after_set_num key_slots_def)
  qed
  moreover have "length (nb_set_num 0 (h right)) = 256" using b'(1) by (simp add: after_set_num)
  ultimately show ?thesis by blast
qed

lemma after_copy_keys:
  assumes "length mem = 256" "length mem' = 256" "s + k \<le> 15"
  defines "m \<equiv> poke (key_ptr 0) (peek (key_ptr s) (k * kKeySize) mem) mem'"
  shows "length m = 256" "j < k \<Longrightarrow> nb_key j m = nb_key (s + j) mem" "nb_num_items m = nb_num_items mem'" "nb_is_leaf m = nb_is_leaf mem'"
proof -
  have "take 16 (drop (16 * j) (peek (4 + 16 * s) (k * 16) mem)) = peek (4 + 16 * s + 16 * j) 16 mem" if "j < k"
    by (rule peek_peek) (use that in simp)
  then show "nb_key j m = nb_key (s + j) mem" if "j < k"
    using assms that by (simp add: m_def nb_key_def layout_values peek_poke_in add.assoc)
  show "length m = 256" "nb_num_items m = nb_num_items mem'" "nb_is_leaf m = nb_is_leaf mem'"
    using assms by (simp_all add: m_def nb_num_items_def nb_is_leaf_def layout_values nth_poke)
qed

lemma split_blocks:
  assumes "block leaf ks ps c (h this)" "length (h right) = 256" "right \<noteq> this" "right \<notin> set ps" "ks \<noteq> []"
  defines "mid \<equiv> length ks div 2"
  defines "cnt \<equiv> of_nat (length ks - (mid + 1)) + sum_list (map (\<lambda>p. nb_tree_count (h p)) (drop (mid + 1) ps))"
  shows "\<exists>m m'. nh_split this right h = (ks ! mid, h(right := m', this := m)) \<and>
    block leaf (take mid ks) (take (mid + 1) ps) (if leaf then 0 else c - (cnt + 1)) m \<and>
    block leaf (drop (mid + 1) ks) (drop (mid + 1) ps) (if leaf then 0 else cnt) m'"
proof -
  note b = blockD[OF assms(1)]
  let ?k = "length ks - Suc mid"
  have mid: "mid < length ks" using assms(5) by (simp add: mid_def)
  define r0 where "r0 = nb_set_num ?k (nb_set_leaf leaf (h right))"
  define r1 where "r1 = poke (key_ptr 0) (peek (key_ptr (Suc mid)) (?k * kKeySize) (h this)) r0"
  define r2 where "r2 = fold (\<lambda>i. nb_set_child i (nb_child (Suc (mid + i)) (h this))) [0..<Suc ?k] r1"
  have e0: "leaf \<Longrightarrow> nb_set_num ?k (nb_set_leaf True (h right)) = r0" "\<not> leaf \<Longrightarrow> nb_set_num ?k (nb_set_leaf False (h right)) = r0"
    by (simp_all add: r0_def)
  have r0: "length r0 = 256" "nb_is_leaf r0 = leaf" "nb_num_items r0 = ?k"
    using assms(2) b(4) by (simp_all add: r0_def after_set_num after_set_leaf)
  have r1: "length r1 = 256" "nb_is_leaf r1 = leaf" "nb_num_items r1 = ?k" "\<And>j. j < ?k \<Longrightarrow> nb_key j r1 = drop (Suc mid) ks ! j"
    using after_copy_keys[OF b(1) r0(1), where s = "Suc mid" and k = ?k, folded r1_def] r0 b(4,6) mid by simp_all
  have r2: "length r2 = 256" "child_rest r2 = child_rest r1" "\<And>j. j \<le> ?k \<Longrightarrow> nb_child j r2 = nb_child (Suc (mid + j)) (h this)"
    if "\<not> leaf"
    using ch.copy_in[of r1 0 "Suc ?k" "\<lambda>i. nb_child (Suc (mid + i)) (h this)"] r1(1) mid b(5) that
    by (simp_all add: r2_def less_Suc_eq_le)
  have far: "nb_child (Suc (mid + i)) (h this) \<noteq> right" if "i \<le> ?k" "\<not> leaf" for i
    using that b(8) b(9)[of "Suc (mid + i)"] mid assms(4) nth_mem[of "Suc (mid + i)" ps] by auto
  have children: "map (\<lambda>i. nb_child (Suc (mid + i)) (h this)) [0..<Suc ?k] = drop (Suc mid) ps" if "\<not> leaf"
    by (rule nth_equalityI) (use that b(8,9) mid in \<open>auto simp del: upt_Suc\<close>)
  have counts: "of_nat ?k + sum_list (map (\<lambda>i. nb_tree_count (h (nb_child (Suc (mid + i)) (h this)))) [0..<Suc ?k]) = cnt" if "\<not> leaf"
    using arg_cong[OF children[OF that], of "\<lambda>xs. sum_list (map (\<lambda>p. nb_tree_count (h p)) xs)"]
    by (simp add: cnt_def comp_def del: upt_Suc)
  have loop: "fold (\<lambda>i (c, h'). (c + nb_tree_count (h' (nb_child (Suc (mid + i)) (h' this))),
        h'(right := nb_set_child i (nb_child (Suc (mid + i)) (h' this)) (h' right)))) [0..<Suc ?k] (of_nat ?k, h(right := r1))
      = (cnt, h(right := r2))" if "\<not> leaf"
  proof -
    have "(\<Sum>i\<leftarrow>[0..<Suc ?k]. nb_tree_count ((h(right := r1)) (nb_child (Suc (mid + i)) (h this))))
        = (\<Sum>i\<leftarrow>[0..<Suc ?k]. nb_tree_count (h (nb_child (Suc (mid + i)) (h this))))"
      by (intro arg_cong[where f = sum_list] map_cong) (use far that in \<open>simp_all add: less_Suc_eq_le del: upt_Suc\<close>)
    then show ?thesis
      using assms(3) far that counts[OF that] by (subst fold_count_write) (auto simp: r2_def simp del: upt_Suc)
  qed
  have "nh_split this right h = (ks ! mid, h(right := (if leaf then r1 else nb_set_tree_count cnt r2),
      this := nb_set_num mid (if leaf then h this else nb_increase_tree_count (- (cnt + 1)) (h this))))"
    using assms(3) b(2,3) b(6)[OF mid] r0 loop
    by (cases leaf) (simp_all add: nh_split_def Let_def mid_def[symmetric] e0 r1_def[symmetric] del: upt_Suc)
  moreover have "block leaf (take mid ks) (take (mid + 1) ps) (if leaf then 0 else c - (cnt + 1))
      (nb_set_num mid (if leaf then h this else nb_increase_tree_count (- (cnt + 1)) (h this)))"
    using assms(1) b mid by (auto simp: block_def after_set_num nb_increase_tree_count_def after_set_count split: if_splits)
  moreover have "block leaf (drop (mid + 1) ks) (drop (mid + 1) ps) (if leaf then 0 else cnt)
      (if leaf then r1 else nb_set_tree_count cnt r2)"
    using assms(1) b mid r1 r2 child_restD[of r2 r1] by (auto simp: block_def after_set_num after_set_count split: if_splits)
  ultimately show ?thesis by blast
qed

lemma sum_slots:
  fixes f :: "'x \<Rightarrow> u32"
  assumes "\<And>i. i < n \<Longrightarrow> g i = f (xs ! (s + i))" "s + n \<le> length xs"
  shows "(\<Sum>i\<leftarrow>[0..<n]. g i) = sum_list (map f (take n (drop s xs)))"
proof -
  have "map g [0..<n] = map f (take n (drop s xs))" by (rule nth_equalityI) (use assms in auto)
  then show ?thesis by (rule arg_cong)
qed

lemma fold_from_1: "fold g [Suc 0..<n] = fold (\<lambda>i. g (Suc i)) [0..<n - 1]"
  by (cases n) (simp_all add: map_Suc_upt[symmetric] fold_map comp_def del: upt_Suc)

lemma block_finish:
  assumes "length m = 256" "nb_is_leaf m = leaf" "length ks \<le> key_slots leaf" "\<And>j. j < length ks \<Longrightarrow> nb_key j m = ks ! j"
    "leaf \<Longrightarrow> ps = []" "\<not> leaf \<Longrightarrow> nb_inner_count m = c" "\<not> leaf \<Longrightarrow> length ps = Suc (length ks)"
    "\<And>j. \<not> leaf \<Longrightarrow> j \<le> length ks \<Longrightarrow> nb_child j m = ps ! j"
  shows "block leaf ks ps (if leaf then 0 else c) (nb_set_num (length ks) m)"
  using assms by (auto simp: block_def after_set_num key_slots_def less_Suc_eq_le)

lemma block_empty: "block leaf ks ps c mem \<Longrightarrow> leaf \<Longrightarrow> ps = []"
  by (simp add: block_def)

lemma left_dest:
  assumes "block leaf kd pd cd mem" "0 < cnt" "length kd + cnt \<le> key_slots leaf" "cnt \<le> length ks" "length sep = 16"
    "\<And>i. i < length ks \<Longrightarrow> length (ks ! i) = 16" "leaf \<Longrightarrow> ps = []" "\<not> leaf \<Longrightarrow> cnt \<le> length ps"
  defines "m2 \<equiv> fold (\<lambda>i. nb_set_key (length kd + i) (ks ! (i - 1))) [Suc 0..<cnt] (nb_set_key (length kd) sep mem)"
  defines "m3 \<equiv> fold (\<lambda>i. nb_set_child (Suc (length kd) + i) (ps ! i)) [0..<cnt] m2"
  shows "length m2 = 256" "key_rest leaf m2 = key_rest leaf mem" "\<not> leaf \<Longrightarrow> length m3 = 256" "\<not> leaf \<Longrightarrow> child_rest m3 = child_rest m2"
    "block leaf (kd @ sep # take (cnt - 1) ks) (pd @ take cnt ps) (if leaf then 0 else t)
       (nb_set_num (length kd + cnt) (if leaf then m2 else nb_set_tree_count t m3))"
proof -
  note b = blockD[OF assms(1)]
  define m1 where "m1 = nb_set_key (length kd) sep mem"
  have m1: "length m1 = 256" "key_rest leaf m1 = key_rest leaf mem"
    "\<And>j. j < key_slots leaf \<Longrightarrow> nb_key j m1 = (if j = length kd then sep else nb_key j mem)"
    using assms(2,3,5) b(1) by (simp_all add: m1_def ks.wr_simps[where leaf = leaf])
  have m2: "length m2 = 256" "key_rest leaf m2 = key_rest leaf m1" "\<And>j. j < key_slots leaf \<Longrightarrow>
      nb_key j m2 = (if Suc (length kd) \<le> j \<and> j < Suc (length kd) + (cnt - 1) then ks ! (j - Suc (length kd)) else nb_key j m1)"
    using ks.copy_in[of m1 "Suc (length kd)" "cnt - 1" leaf "\<lambda>i. ks ! i"] m1(1) assms(2,3,4,6)
    by (simp_all add: m2_def fold_from_1 m1_def)
  show all: "length m2 = 256" "key_rest leaf m2 = key_rest leaf mem" using m1 m2 by simp_all
  note r = key_restD[OF all(2)]
  have m3: "length m3 = 256" "child_rest m3 = child_rest m2" "\<And>j. j < 11 \<Longrightarrow>
      nb_child j m3 = (if Suc (length kd) \<le> j \<and> j < Suc (length kd) + cnt then ps ! (j - Suc (length kd)) else nb_child j m2)"
    if "\<not> leaf"
    using ch.copy_in[of m2 "Suc (length kd)" cnt "\<lambda>i. ps ! i"] m2(1) assms(3) that by (simp_all add: m3_def key_slots_def)
  show "length m3 = 256" "child_rest m3 = child_rest m2" if "\<not> leaf" using m3 that by simp_all
  note r3 = child_restD[OF m3(2)]
  let ?m = "if leaf then m2 else nb_set_tree_count t m3"
  have keys: "nb_key j m2 = (kd @ sep # take (cnt - 1) ks) ! j" if "j < length kd + cnt" for j
    using that m2(3)[of j] m1(3)[of j] b(6)[of j] assms(3,4) by (auto simp: nth_append nth_Cons')
  have children: "nb_child j m3 = (pd @ take cnt ps) ! j" if "j \<le> length kd + cnt" "\<not> leaf" for j
    using that m3(3)[of j] r(4)[of j] b(8) b(9)[of j] assms(3,8) by (auto simp: nth_append key_slots_def)
  have "block leaf (kd @ sep # take (cnt - 1) ks) (pd @ take cnt ps) (if leaf then 0 else t)
      (nb_set_num (length (kd @ sep # take (cnt - 1) ks)) ?m)"
    by (rule block_finish)
      (use all m3 r r3 b assms(2-4,7,8) keys children block_empty[OF assms(1)] in \<open>auto simp: after_set_count key_slots_def\<close>)
  then show "block leaf (kd @ sep # take (cnt - 1) ks) (pd @ take cnt ps) (if leaf then 0 else t) (nb_set_num (length kd + cnt) ?m)"
    using assms(2,4) by simp
qed

lemma left_src:
  fixes t :: u32
  assumes "block leaf ks ps c mem" "0 < cnt" "cnt \<le> length ks"
  defines "m1 \<equiv> fold (\<lambda>i m. nb_set_key (i - cnt) (nb_key i m) m) [cnt..<length ks] mem"
  defines "m3 \<equiv> fold (\<lambda>i m. nb_set_child i 0 (nb_set_child (i - cnt) (nb_child i m) m)) [cnt..<Suc (length ks)] (nb_set_tree_count t m1)"
  shows "length m1 = 256" "key_rest leaf m1 = key_rest leaf mem" "\<not> leaf \<Longrightarrow> nb_num_items m3 = length ks"
    "block leaf (drop cnt ks) (drop cnt ps) (if leaf then 0 else t) (nb_set_num (length ks - cnt) (if leaf then m1 else m3))"
proof -
  note b = blockD[OF assms(1)] and n = block_nth[OF assms(1)]
  have m1: "length m1 = 256" "key_rest leaf m1 = key_rest leaf mem" "\<And>j. j < length ks - cnt \<Longrightarrow> nb_key j m1 = ks ! (cnt + j)"
    using ks.shift_down[of mem cnt "length ks - cnt" leaf] b(1,6) n(1) assms(3) by (simp_all add: m1_def)
  then show "length m1 = 256" "key_rest leaf m1 = key_rest leaf mem" by simp_all
  note r = key_restD[OF m1(2)]
  define m2 where "m2 = nb_set_tree_count t m1"
  note m2 = after_set_count[OF m1(1), where c = t, folded m2_def]
  have m3: "length m3 = 256" "child_rest m3 = child_rest m2" "\<And>j. j \<le> length ks - cnt \<Longrightarrow> nb_child j m3 = ps ! (cnt + j)" if "\<not> leaf"
    using ch.shift_down_clear[of m2 cnt "Suc (length ks) - cnt" 0] m2(1,3) r(4) b(5,9) assms(2,3) that
    by (simp_all add: m3_def m2_def[symmetric] Suc_diff_le less_Suc_eq_le del: upt_Suc)
  note r3 = child_restD[OF m3(2)]
  show "nb_num_items m3 = length ks" if "\<not> leaf" using that r r3 m2 b by simp
  have "block leaf (drop cnt ks) (drop cnt ps) (if leaf then 0 else t) (nb_set_num (length (drop cnt ks)) (if leaf then m1 else m3))"
    by (rule block_finish) (use m1 m2 m3 r r3 b n(1) assms(3) block_empty[OF assms(1)] in \<open>auto simp: key_slots_def\<close>)
  then show "block leaf (drop cnt ks) (drop cnt ps) (if leaf then 0 else t) (nb_set_num (length ks - cnt) (if leaf then m1 else m3))"
    by simp
qed

text \<open>The heap seen as the parent, the two siblings and the other blocks.\<close>

definition three :: "heap \<Rightarrow> u64 \<Rightarrow> u64 \<Rightarrow> u64 \<Rightarrow> str \<Rightarrow> str \<Rightarrow> str \<Rightarrow> heap" where
  "three h this dest src p d s = h(this := p, dest := d, src := s)"

lemma three:
  assumes "distinct [this, dest, src]"
  shows "three h this dest src p d s this = p" "three h this dest src p d s dest = d" "three h this dest src p d s src = s"
    "(three h this dest src p d s)(this := p') = three h this dest src p' d s"
    "(three h this dest src p d s)(dest := d') = three h this dest src p d' s"
    "(three h this dest src p d s)(src := s') = three h this dest src p d s'"
    "three h this dest src (h this) (h dest) (h src) = h"
    "q \<noteq> this \<Longrightarrow> q \<noteq> dest \<Longrightarrow> q \<noteq> src \<Longrightarrow> three h this dest src p d s q = h q"
  using assms by (auto simp: three_def)

lemma fold_grow_children:
  assumes "length m = 256" "nb_num_items m = n" "\<And>i. i \<in> set xs \<Longrightarrow> Suc (n + i) < 11"
  shows "fold (\<lambda>i m. nb_set_child (Suc (nb_num_items m + i)) (f i) m) xs m = fold (\<lambda>i. nb_set_child (Suc n + i) (f i)) xs m"
  using assms by (induction xs arbitrary: m) (simp_all add: after_set_child)

lemma three_move_counts:
  assumes "distinct [this, dest, src]" "nb_child to p = dest" "nb_child from p = src"
  shows "nh_move_counts this to from moved (three h this dest src p d s) =
    three h this dest src p (nb_set_tree_count (nb_tree_count d + moved) d) (nb_set_tree_count (nb_tree_count s - moved) s)"
  using assms(2,3) by (simp add: nh_move_counts_def nh_set_child_count_def Let_def three[OF assms(1)] del: fun_upd_apply)

lemma rebalance_left_blocks:
  fixes h :: heap and this dest src :: u64
  assumes "distinct [this, dest, src]" "block False kp pp cp (h this)" "block leaf kd pd cd (h dest)" "block leaf ks ps c (h src)"
    "0 < pos" "pos \<le> length kp" "pp ! (pos - 1) = dest" "pp ! pos = src" "set ps \<inter> {this, dest, src} = {}"
    "0 < cnt" "cnt \<le> length ks" "length kd + cnt \<le> key_slots leaf"
  defines "moved \<equiv> sum_list (map (\<lambda>p. nb_tree_count (h p)) (take cnt ps)) + of_nat cnt"
  shows "\<exists>p d s. nh_rebalance_child_to_left this pos cnt h = three h this dest src p d s \<and>
    block False (kp[pos - 1 := ks ! (cnt - 1)]) pp cp p \<and>
    block leaf (kd @ kp ! (pos - 1) # take (cnt - 1) ks) (pd @ take cnt ps) (if leaf then 0 else cd + moved) d \<and>
    block leaf (drop cnt ks) (drop cnt ps) (if leaf then 0 else c - moved) s"
proof -
  note b = blockD[OF assms(2)] and bd = blockD[OF assms(3)] and bs = blockD[OF assms(4)] and T = three[OF assms(1)]
  let ?H = "three h this dest src"
  define p1 where "p1 = nb_set_key (pos - 1) (ks ! (cnt - 1)) (h this)"
  define d2 where "d2 = fold (\<lambda>i. nb_set_key (length kd + i) (ks ! (i - 1))) [Suc 0..<cnt] (nb_set_key (length kd) (kp ! (pos - 1)) (h dest))"
  define d3 where "d3 = fold (\<lambda>i. nb_set_child (Suc (length kd) + i) (ps ! i)) [0..<cnt] d2"
  define s1 where "s1 = fold (\<lambda>i m. nb_set_key (i - cnt) (nb_key i m) m) [cnt..<length ks] (h src)"
  define s3 where "s3 = fold (\<lambda>i m. nb_set_child i 0 (nb_set_child (i - cnt) (nb_child i m) m)) [cnt..<Suc (length ks)] (nb_set_tree_count (c - moved) s1)"
  have sep: "length (kp ! (pos - 1)) = 16" using block_nth(3)[OF assms(2)] assms(5,6) by simp
  have len: "\<not> leaf \<Longrightarrow> cnt \<le> length ps" using bs(8) assms(11) by simp
  have dest: "length d2 = 256" "key_rest leaf d2 = key_rest leaf (h dest)" "\<not> leaf \<Longrightarrow> length d3 = 256" "\<not> leaf \<Longrightarrow> child_rest d3 = child_rest d2"
    "block leaf (kd @ kp ! (pos - 1) # take (cnt - 1) ks) (pd @ take cnt ps) (if leaf then 0 else cd + moved)
       (nb_set_num (length kd + cnt) (if leaf then d2 else nb_set_tree_count (cd + moved) d3))"
    unfolding d2_def d3_def
    by (rule left_dest[OF assms(3,10,12,11) sep block_nth(3)[OF assms(4)] block_empty[OF assms(4)] len]; assumption)+
  have src: "length s1 = 256" "key_rest leaf s1 = key_rest leaf (h src)" "\<not> leaf \<Longrightarrow> nb_num_items s3 = length ks"
    "block leaf (drop cnt ks) (drop cnt ps) (if leaf then 0 else c - moved) (nb_set_num (length ks - cnt) (if leaf then s1 else s3))"
    unfolding s1_def s3_def
    by (rule left_src(1,2)[OF assms(4,10,11)] left_src(3,4)[OF assms(4,10,11), where t = "c - moved"]; assumption)+
  note rd = key_restD[OF dest(2)] and rs = key_restD[OF src(2)] and rd3 = child_restD[OF dest(4)]
  have parent: "block False (kp[pos - 1 := ks ! (cnt - 1)]) pp cp p1" "nb_child pos p1 = src" "nb_child (pos - 1) p1 = dest"
  proof -
    have "length (ks ! (cnt - 1)) = 16" using block_nth(3)[OF assms(4)] assms(10,11) by simp
    then show "block False (kp[pos - 1 := ks ! (cnt - 1)]) pp cp p1" "nb_child pos p1 = src" "nb_child (pos - 1) p1 = dest"
      using b assms(5-8) by (auto simp: p1_def block_def after_set_key)
  qed
  have L1: "fold (\<lambda>i h. h(dest := nb_set_key (length kd + i) (nb_key (i - Suc 0) (h src)) (h dest))) [Suc 0..<cnt]
      (?H (h this) (nb_set_key (length kd) (kp ! (pos - 1)) (h dest)) (h src)) = ?H (h this) d2 (h src)"
  proof -
    have "fold (\<lambda>i. nb_set_key (length kd + i) (nb_key (i - Suc 0) (h src))) [Suc 0..<cnt] m = fold (\<lambda>i. nb_set_key (length kd + i) (ks ! (i - 1))) [Suc 0..<cnt] m" for m
      by (rule fold_cong) (use bs(6) assms(11) in auto)
    then show ?thesis by (subst fold_write) (simp_all add: T d2_def)
  qed
  have L2: "fold (\<lambda>i h. h(src := nb_set_key (i - cnt) (nb_key i (h src)) (h src))) [cnt..<length ks] (?H p1 d2 (h src)) = ?H p1 d2 s1"
    by (subst fold_write[where W = "\<lambda>i _ m. nb_set_key (i - cnt) (nb_key i m) m"]) (simp_all add: T s1_def)
  have L3: "fold (\<lambda>i (c, h). (c + nb_tree_count (h (nb_child i (h src))),
        h(dest := nb_set_child (Suc (nb_num_items (h dest) + i)) (nb_child i (h src)) (h dest)))) [0..<cnt] (0, ?H p1 d2 s1)
      = (moved - of_nat cnt, ?H p1 d3 s1)" if "\<not> leaf"
  proof -
    have child: "nb_child i s1 = ps ! i" "ps ! i \<notin> {this, dest, src}" if "i < cnt" for i
      using that \<open>\<not> leaf\<close> rs(4)[of i] bs(5,8) bs(9)[of i] assms(9,11) nth_mem[of i ps] by auto
    have "fold (\<lambda>i m. nb_set_child (Suc (nb_num_items m + i)) (nb_child i s1) m) [0..<cnt] d2 = fold (\<lambda>i m. nb_set_child (Suc (nb_num_items m + i)) (ps ! i) m) [0..<cnt] d2"
      by (rule fold_cong) (use child in auto)
    also have "\<dots> = d3"
      unfolding d3_def by (rule fold_grow_children) (use dest(1) rd(1) bd(3) assms(12) that in \<open>auto simp: key_slots_def\<close>)
    finally have d3: "fold (\<lambda>i m. nb_set_child (Suc (nb_num_items m + i)) (nb_child i s1) m) [0..<cnt] d2 = d3" .
    have "(\<Sum>i\<leftarrow>[0..<cnt]. nb_tree_count (?H p1 d2 s1 (nb_child i s1))) = sum_list (map (\<lambda>p. nb_tree_count (h p)) (take cnt (drop 0 ps)))"
      by (rule sum_slots) (use child len that in \<open>auto simp: T\<close>)
    then have sum: "(\<Sum>i\<leftarrow>[0..<cnt]. nb_tree_count (?H p1 d2 s1 (nb_child i s1))) = moved - of_nat cnt"
      by (simp add: moved_def)
    show ?thesis
      by (subst fold_count_write[where W = "\<lambda>i h m. nb_set_child (Suc (nb_num_items m + i)) (nb_child i (h src)) m"])
        (use child in \<open>simp_all add: T d3 sum\<close>)
  qed
  have L4: "fold (\<lambda>i h. h(src := nb_set_child i 0 (nb_set_child (i - cnt) (nb_child i (h src)) (h src)))) [cnt..<Suc (length ks)]
      (?H p1 d (nb_set_tree_count (c - moved) s1)) = ?H p1 d s3" for d
    by (subst fold_write[where W = "\<lambda>i _ m. nb_set_child i 0 (nb_set_child (i - cnt) (nb_child i m) m)"])
      (simp_all add: T s3_def del: upt_Suc)
  have counts: "nb_tree_count d3 = cd" "nb_tree_count s1 = c" if "\<not> leaf"
    using that rd rd3 rs bd bs by (simp_all add: nb_tree_count_def)
  have "nh_rebalance_child_to_left this pos cnt (?H (h this) (h dest) (h src)) = ?H p1
      (nb_set_num (length kd + cnt) (if leaf then d2 else nb_set_tree_count (cd + moved) d3)) (nb_set_num (length ks - cnt) (if leaf then s1 else s3))"
    using b(6)[of "pos - 1"] b(9)[of "pos - 1"] b(9)[of pos] bd bs(2,3) bs(6)[of "cnt - 1"] assms(5-8,10,11) parent src(1,3) rd rs rd3 dest(1,3)
      three_move_counts[OF assms(1) parent(3,2)] counts L3 L4
    by (cases leaf) (simp_all add: nh_rebalance_child_to_left_def Let_def T(1-6) L1[unfolded One_nat_def] L2 p1_def[symmetric, unfolded One_nat_def] after_set_count del: fun_upd_apply upt_Suc)
  then show ?thesis unfolding T(7) using parent(1) dest(5) src(4) by blast
qed

lemma right_dest:
  fixes t :: u32
  assumes "block leaf kd pd cd mem" "0 < cnt" "length kd + cnt \<le> key_slots leaf" "cnt \<le> length ks" "length sep = 16"
    "\<And>i. i < length ks \<Longrightarrow> length (ks ! i) = 16" "leaf \<Longrightarrow> ps = []" "\<not> leaf \<Longrightarrow> length ps = Suc (length ks)"
  defines "m1 \<equiv> fold (\<lambda>i m. nb_set_key (i + cnt) (nb_key i m) m) (rev [0..<length kd]) mem"
  defines "m2 \<equiv> fold (\<lambda>i. nb_set_key (i - 1) (ks ! (length ks - cnt + i))) [Suc 0..<cnt] m1"
  defines "m3 \<equiv> nb_set_key (cnt - 1) sep m2"
  defines "m4 \<equiv> fold (\<lambda>i m. nb_set_child (i + cnt) (nb_child i m) m) (rev [0..<Suc (length kd)]) m3"
  defines "m5 \<equiv> fold (\<lambda>i. nb_set_child i (ps ! (length ks - (cnt - 1) + i))) [0..<cnt] m4"
  shows "length m3 = 256" "key_rest leaf m3 = key_rest leaf mem" "\<not> leaf \<Longrightarrow> length m5 = 256" "\<not> leaf \<Longrightarrow> child_rest m5 = child_rest m3"
    "block leaf (drop (length ks - cnt + 1) ks @ sep # kd) (drop (length ks - (cnt - 1)) ps @ pd) (if leaf then 0 else t)
       (nb_set_num (length kd + cnt) (if leaf then m3 else nb_set_tree_count t m5))"
proof -
  note b = blockD[OF assms(1)] and n = block_nth[OF assms(1)]
  have m1: "length m1 = 256" "key_rest leaf m1 = key_rest leaf mem" "\<And>j. cnt \<le> j \<Longrightarrow> j < cnt + length kd \<Longrightarrow> nb_key j m1 = kd ! (j - cnt)"
    using ks.shift_up[of mem cnt "length kd" leaf] b(1) b(6) assms(3) by (simp_all add: m1_def add.commute)
  have fits: "length (ks ! (length ks - cnt + Suc i)) = 16" if "i < cnt - 1" for i
    using that assms(4) by (intro assms(6)) simp
  have m2: "length m2 = 256" "key_rest leaf m2 = key_rest leaf m1"
    "\<And>j. j < key_slots leaf \<Longrightarrow> nb_key j m2 = (if j < cnt - 1 then ks ! (length ks - cnt + Suc j) else nb_key j m1)"
    using ks.copy_in[of m1 0 "cnt - 1" leaf "\<lambda>i. ks ! (length ks - cnt + Suc i)", OF m1(1) _ fits] assms(3)
    by (simp_all add: m2_def fold_from_1)
  have m3: "length m3 = 256" "key_rest leaf m3 = key_rest leaf m2"
    "\<And>j. j < key_slots leaf \<Longrightarrow> nb_key j m3 = (if j = cnt - 1 then sep else nb_key j m2)"
    using assms(2,3,5) m2(1) by (simp_all add: m3_def ks.wr_simps[where leaf = leaf])
  show all: "length m3 = 256" "key_rest leaf m3 = key_rest leaf mem" using m1 m2 m3 by simp_all
  note r = key_restD[OF all(2)]
  have m4: "length m4 = 256" "child_rest m4 = child_rest m3" "\<And>j. cnt \<le> j \<Longrightarrow> j \<le> cnt + length kd \<Longrightarrow> nb_child j m4 = pd ! (j - cnt)"
    if "\<not> leaf"
    using ch.shift_up[of m3 cnt "Suc (length kd)"] m3(1) r(4) b(9) assms(3) that
    by (simp_all add: m4_def key_slots_def less_Suc_eq_le del: upt_Suc)
  have m5: "length m5 = 256" "child_rest m5 = child_rest m4"
    "\<And>j. j < 11 \<Longrightarrow> nb_child j m5 = (if j < cnt then ps ! (length ks - (cnt - 1) + j) else nb_child j m4)" if "\<not> leaf"
    using ch.copy_in[of m4 0 cnt "\<lambda>i. ps ! (length ks - (cnt - 1) + i)"] m4(1) assms(3) that by (simp_all add: m5_def key_slots_def)
  show c5: "length m5 = 256" "child_rest m5 = child_rest m3" if "\<not> leaf" using m4 m5 that by simp_all
  note r5 = child_restD[OF c5(2)]
  let ?m = "if leaf then m3 else nb_set_tree_count t m5"
  let ?ks = "drop (length ks - cnt + 1) ks @ sep # kd" and ?ps = "drop (length ks - (cnt - 1)) ps @ pd"
  have keys: "nb_key j m3 = ?ks ! j" if "j < length kd + cnt" for j
    using that m3(3)[of j] m2(3)[of j] m1(3)[of j] assms(2,3,4) by (auto simp: nth_append nth_Cons')
  have children: "nb_child j m5 = ?ps ! j" if "j \<le> length kd + cnt" "\<not> leaf" for j
    using that m5(3)[of j] m4(3)[of j] b(8) assms(2,3,4,8) by (auto simp: nth_append key_slots_def)
  have "block leaf ?ks ?ps (if leaf then 0 else t) (nb_set_num (length ?ks) ?m)"
    by (rule block_finish)
      (use all c5 r r5 b assms(2-4,7,8) keys children block_empty[OF assms(1)] in \<open>auto simp: after_set_count key_slots_def\<close>)
  then show "block leaf ?ks ?ps (if leaf then 0 else t) (nb_set_num (length kd + cnt) ?m)"
    using assms(2,4) by (simp add: add.commute)
qed

lemma right_src:
  fixes t :: u32
  assumes "block leaf ks ps c mem" "0 < cnt" "cnt \<le> length ks"
  defines "m1 \<equiv> fold (\<lambda>i. nb_set_child (length ks - (cnt - 1) + i) 0) [0..<cnt] mem"
  shows "\<not> leaf \<Longrightarrow> length m1 = 256" "\<not> leaf \<Longrightarrow> child_rest m1 = child_rest mem"
    "block leaf (take (length ks - cnt) ks) (take (length ks - (cnt - 1)) ps) (if leaf then 0 else t)
       (nb_set_num (length ks - cnt) (if leaf then mem else nb_set_tree_count t m1))"
proof -
  note b = blockD[OF assms(1)] and n = block_nth[OF assms(1)]
  have m1: "length m1 = 256" "child_rest m1 = child_rest mem" "\<And>j. j < length ks - (cnt - 1) \<Longrightarrow> nb_child j m1 = nb_child j mem"
    if "\<not> leaf"
    using ch.copy_in[of mem "length ks - (cnt - 1)" cnt "\<lambda>_. 0"] b(1,5) assms(2,3) that by (simp_all add: m1_def)
  then show "length m1 = 256" "child_rest m1 = child_rest mem" if "\<not> leaf" using that by simp_all
  note r1 = child_restD[OF m1(2)]
  have "block leaf (take (length ks - cnt) ks) (take (length ks - (cnt - 1)) ps) (if leaf then 0 else t)
      (nb_set_num (length (take (length ks - cnt) ks)) (if leaf then mem else nb_set_tree_count t m1))"
    by (rule block_finish) (use m1 r1 b n(1) assms(2,3) block_empty[OF assms(1)] in \<open>auto simp: after_set_count key_slots_def\<close>)
  then show "block leaf (take (length ks - cnt) ks) (take (length ks - (cnt - 1)) ps) (if leaf then 0 else t)
      (nb_set_num (length ks - cnt) (if leaf then mem else nb_set_tree_count t m1))"
    by simp
qed

text \<open>The loop that takes the children out of the left node, clearing them there.\<close>

lemma take_children:
  assumes "distinct [this, dest, src]" "length s = 256" "nb_num_items s - (cnt - Suc 0) = b" "b + k \<le> 11"
    "\<And>i. i < k \<Longrightarrow> nb_child (b + i) s = f i" "\<And>i. i < k \<Longrightarrow> f i \<notin> {this, dest, src}"
  shows "fold (\<lambda>i (c, h). (c + nb_tree_count (h (nb_child (nb_num_items (h src) - (cnt - Suc 0) + i) (h src))),
        h(dest := nb_set_child i (nb_child (nb_num_items (h src) - (cnt - Suc 0) + i) (h src)) (h dest),
          src := nb_set_child (nb_num_items (h src) - (cnt - Suc 0) + i) 0 (h src)))) [0..<k] (0, three h this dest src p d s)
    = (\<Sum>i\<leftarrow>[0..<k]. nb_tree_count (h (f i)),
       three h this dest src p (fold (\<lambda>i. nb_set_child i (f i)) [0..<k] d) (fold (\<lambda>i. nb_set_child (b + i) 0) [0..<k] s))"
  using assms(4-6)
proof (induction k)
  case 0
  then show ?case by simp
next
  case (Suc k)
  note T = three[OF assms(1)]
  let ?s = "fold (\<lambda>i. nb_set_child (b + i) 0) [0..<k] s"
  have s: "length ?s = 256 \<and> child_rest ?s = child_rest s \<and> nb_child (b + k) ?s = f k"
    using ch.copy_in[of s b k "\<lambda>_. 0"] assms(2) Suc.prems by simp
  then have "nb_num_items ?s - (cnt - Suc 0) = b" using assms(3) child_restD(1)[of ?s s] by simp
  then show ?case using Suc.IH Suc.prems s by (simp add: T del: fun_upd_apply)
qed

lemma rebalance_right_blocks:
  fixes h :: heap and this dest src :: u64
  assumes "distinct [this, dest, src]" "block False kp pp cp (h this)" "block leaf kd pd cd (h dest)" "block leaf ks ps c (h src)"
    "pos < length kp" "pp ! Suc pos = dest" "pp ! pos = src" "set ps \<inter> {this, dest, src} = {}"
    "0 < cnt" "cnt \<le> length ks" "length kd + cnt \<le> key_slots leaf"
  defines "moved \<equiv> sum_list (map (\<lambda>p. nb_tree_count (h p)) (drop (length ks - (cnt - 1)) ps)) + of_nat cnt"
  shows "\<exists>p d s. nh_rebalance_child_to_right this pos cnt h = three h this dest src p d s \<and>
    block False (kp[pos := ks ! (length ks - cnt)]) pp cp p \<and>
    block leaf (drop (length ks - cnt + 1) ks @ kp ! pos # kd) (drop (length ks - (cnt - 1)) ps @ pd) (if leaf then 0 else cd + moved) d \<and>
    block leaf (take (length ks - cnt) ks) (take (length ks - (cnt - 1)) ps) (if leaf then 0 else c - moved) s"
proof -
  note b = blockD[OF assms(2)] and bd = blockD[OF assms(3)] and bs = blockD[OF assms(4)] and T = three[OF assms(1)]
  let ?H = "three h this dest src" and ?b = "length ks - (cnt - Suc 0)"
  define p1 where "p1 = nb_set_key pos (ks ! (length ks - cnt)) (h this)"
  define d1 where "d1 = fold (\<lambda>i m. nb_set_key (i + cnt) (nb_key i m) m) (rev [0..<length kd]) (h dest)"
  define d2 where "d2 = fold (\<lambda>i. nb_set_key (i - Suc 0) (ks ! (length ks - cnt + i))) [Suc 0..<cnt] d1"
  define d3 where "d3 = nb_set_key (cnt - Suc 0) (kp ! pos) d2"
  define d4 where "d4 = fold (\<lambda>i m. nb_set_child (i + cnt) (nb_child i m) m) (rev [0..<Suc (length kd)]) d3"
  define d5 where "d5 = fold (\<lambda>i. nb_set_child i (ps ! (?b + i))) [0..<cnt] d4"
  define s1 where "s1 = fold (\<lambda>i. nb_set_child (?b + i) 0) [0..<cnt] (h src)"
  have sep: "length (kp ! pos) = 16" using block_nth(3)[OF assms(2)] assms(5) by simp
  note dest = right_dest[OF assms(3,9,11,10) sep block_nth(3)[OF assms(4)] block_empty[OF assms(4)] bs(8), unfolded One_nat_def,
      folded d1_def, folded d2_def, folded d3_def, folded d4_def, folded d5_def]
  note src = right_src[OF assms(4,9,10), unfolded One_nat_def, folded s1_def]
  note rd = key_restD[OF dest(2)] and rd5 = child_restD[OF dest(4)] and rs = child_restD[OF src(2)]
  have parent: "block False (kp[pos := ks ! (length ks - cnt)]) pp cp p1" "nb_child pos p1 = src" "nb_child (Suc pos) p1 = dest"
  proof -
    have "length (ks ! (length ks - cnt)) = 16" using block_nth(3)[OF assms(4)] assms(9,10) by simp
    then show "block False (kp[pos := ks ! (length ks - cnt)]) pp cp p1" "nb_child pos p1 = src" "nb_child (Suc pos) p1 = dest"
      using b assms(5-7) by (auto simp: p1_def block_def after_set_key)
  qed
  have L1: "fold (\<lambda>i h. h(dest := nb_set_key (i + cnt) (nb_key i (h dest)) (h dest))) (rev [0..<length kd]) (?H (h this) (h dest) (h src))
      = ?H (h this) d1 (h src)"
    by (subst fold_write[where W = "\<lambda>i _ m. nb_set_key (i + cnt) (nb_key i m) m"]) (simp_all add: T(1-6,8) d1_def)
  have L2: "fold (\<lambda>i h. h(dest := nb_set_key (i - Suc 0) (nb_key (nb_num_items (h src) - cnt + i) (h src)) (h dest))) [Suc 0..<cnt] (?H (h this) d1 (h src))
      = ?H (h this) d2 (h src)"
  proof -
    have "fold (\<lambda>i. nb_set_key (i - Suc 0) (nb_key (nb_num_items (h src) - cnt + i) (h src))) [Suc 0..<cnt] m = fold (\<lambda>i. nb_set_key (i - Suc 0) (ks ! (length ks - cnt + i))) [Suc 0..<cnt] m" for m
      by (rule fold_cong) (use bs(3,6) assms(10) in auto)
    then show ?thesis by (subst fold_write) (simp_all add: T d2_def)
  qed
  have L3: "fold (\<lambda>i h. h(dest := nb_set_child (i + cnt) (nb_child i (h dest)) (h dest))) (rev [0..<Suc (length kd)]) (?H p1 d3 (h src))
      = ?H p1 d4 (h src)"
    by (subst fold_write[where W = "\<lambda>i _ m. nb_set_child (i + cnt) (nb_child i m) m"]) (simp_all add: T d4_def del: upt_Suc)
  have L4: "fold (\<lambda>i (c, h). (c + nb_tree_count (h (nb_child (nb_num_items (h src) - (cnt - Suc 0) + i) (h src))),
        h(dest := nb_set_child i (nb_child (nb_num_items (h src) - (cnt - Suc 0) + i) (h src)) (h dest),
          src := nb_set_child (nb_num_items (h src) - (cnt - Suc 0) + i) 0 (h src)))) [0..<cnt] (0, ?H p1 d4 (h src))
      = (moved - of_nat cnt, ?H p1 d5 s1)" if "\<not> leaf"
  proof -
    have k: "?b + cnt = length ps" "?b + cnt \<le> 11" using assms(9,10) bs(5,8) that by simp_all
    have child: "nb_child (?b + i) (h src) = ps ! (?b + i)" "ps ! (?b + i) \<notin> {this, dest, src}" if "i < cnt" for i
      using that k bs(8) bs(9)[of "?b + i"] \<open>\<not> leaf\<close> assms(8) nth_mem[of "?b + i" ps] by auto
    have "(\<Sum>i\<leftarrow>[0..<cnt]. nb_tree_count (h (ps ! (?b + i)))) = sum_list (map (\<lambda>p. nb_tree_count (h p)) (take cnt (drop ?b ps)))"
      by (rule sum_slots) (use k in simp_all)
    then have "(\<Sum>i\<leftarrow>[0..<cnt]. nb_tree_count (h (ps ! (?b + i)))) = moved - of_nat cnt"
      using k(1)[symmetric] by (simp add: moved_def)
    then show ?thesis
      using take_children[OF assms(1) bs(1) _ k(2) child, where cnt = cnt and h = h and p = p1 and d = d4] bs(3)
      by (simp add: d5_def s1_def)
  qed
  have counts: "nb_tree_count d5 = cd" "nb_tree_count s1 = c" if "\<not> leaf"
    using that rd rd5 rs bd bs by (simp_all add: nb_tree_count_def)
  have delim: "nb_key (length ks - cnt) (h src) = ks ! (length ks - cnt)" and far: "src \<noteq> dest"
    using assms(1,9,10) by (auto intro: bs(6))
  have "nh_rebalance_child_to_right this pos cnt (?H (h this) (h dest) (h src)) = ?H p1
      (nb_set_num (length kd + cnt) (if leaf then d3 else nb_set_tree_count (cd + moved) d5))
      (nb_set_num (length ks - cnt) (if leaf then h src else nb_set_tree_count (c - moved) s1))"
    using b(6)[of pos] b(9)[of pos] b(9)[of "Suc pos"] bd bs(1,2,3) delim far assms(5-7) parent rd rs rd5 dest(1,3) src(1)
      three_move_counts[OF assms(1) parent(3,2)] counts L4
    by (cases leaf) (simp_all add: nh_rebalance_child_to_right_def Let_def T(1-6) L1 L2 L3 d3_def[symmetric] p1_def[symmetric] after_set_count fun_upd_other
        del: fun_upd_apply upt_Suc)
  then show ?thesis unfolding T(7) One_nat_def using parent(1) dest(5)[of "cd + moved"] src(3)[of "c - moved"] by blast
qed

end
