(* ===== verification/Node_Trees.thy ===== *)
theory Node_Trees
  imports Node_Heap "HOL-Library.Multiset"
begin

text \<open>
  Trees in a heap of node blocks: a tree whose nodes carry the addresses of their blocks is stored in a heap when every block is
  the node's and no block is used twice.  Without the addresses it is a node of \<^verbatim>\<open>BPlus_Node\<close>.  The operations on blocks and
  on the heap, with the two that choose between moving and merging (\<^verbatim>\<open>RebalanceChild\<close>, \<^verbatim>\<open>MergeOrRebalanceChild\<close> of
  \<^verbatim>\<open>src/zset/bplustree_internal.hpp\<close>), are shown to implement the operations on nodes.
\<close>

section \<open>Choosing an operation\<close>

text \<open>The pointer is the node to insert into; 0 is the null pointer.\<close>

definition nh_rebalance_right :: "u64 \<Rightarrow> nat \<Rightarrow> nat \<Rightarrow> heap \<Rightarrow> heap \<times> u64 \<times> nat" where
  "nh_rebalance_right this pos insert_pos h =
     (if pos < nb_num_items (h this) then
        (let node = nb_child pos (h this);
             right = nb_child (pos + 1) (h this);
             to_move = moves_for_insert (nb_available_slots (h right)) (insert_pos = 0) in
         if to_move \<noteq> 0 then
           (let h = nh_rebalance_child_to_right this pos to_move h in
            if insert_pos > nb_num_items (h node) then (h, right, insert_pos - (nb_num_items (h node) + 1))
            else (h, node, insert_pos))
         else (h, 0, 0))
      else (h, 0, 0))"

definition nh_rebalance_child :: "u64 \<Rightarrow> nat \<Rightarrow> nat \<Rightarrow> heap \<Rightarrow> heap \<times> u64 \<times> nat" where
  "nh_rebalance_child this pos insert_pos h =
     (if pos > 0 then
        (let node = nb_child pos (h this);
             left = nb_child (pos - 1) (h this);
             to_move = moves_for_insert (nb_available_slots (h left)) (insert_pos = nb_num_items (h node)) in
         if to_move \<noteq> 0 then
           (let dest_old_count = nb_num_items (h left);
                h = nh_rebalance_child_to_left this pos to_move h in
            if insert_pos < to_move then (h, left, dest_old_count + insert_pos + 1)
            else (h, node, insert_pos - to_move))
         else nh_rebalance_right this pos insert_pos h)
      else nh_rebalance_right this pos insert_pos h)"

text \<open>The pointer is the retired node, 0 when none is.\<close>

definition nh_merge_or_rebalance_child :: "u64 \<Rightarrow> nat \<Rightarrow> heap \<Rightarrow> heap \<times> u64" where
  "nh_merge_or_rebalance_child this pos h =
     (let node = nb_child pos (h this);
          left = nb_child (pos - 1) (h this);
          right = nb_child (pos + 1) (h this) in
      if pos > 0 \<and> nb_num_items (h left) + 1 + nb_num_items (h node) \<le> nb_max_items (h left) then
        (let h = nh_merge_from_right left (nb_key (pos - 1) (h this)) node h
         in (h(this := nb_shift_left (pos - 1) True (h this)), node))
      else if pos < nb_num_items (h this) then
        (if nb_num_items (h node) + 1 + nb_num_items (h right) \<le> nb_max_items (h right) then
           (let h = nh_merge_from_right node (nb_key pos (h this)) right h
            in (h(this := nb_shift_left pos True (h this)), right))
         else (nh_rebalance_child_to_left this (pos + 1) ((nb_num_items (h right) - nb_num_items (h node)) div 2) h, 0))
      else (nh_rebalance_child_to_right this (pos - 1) ((nb_num_items (h left) - nb_num_items (h node)) div 2) h, 0))"

section \<open>Trees with addresses\<close>

datatype ptree = PNode (addr: u64) (pleaf: bool) (pkeys: "str list") (pchildren: "ptree list") (pcount: u32)

fun addrs :: "ptree \<Rightarrow> u64 list" where
  "addrs (PNode a leaf ks cs c) = a # concat (map addrs cs)"

fun in_heap :: "heap \<Rightarrow> ptree \<Rightarrow> bool" where
  "in_heap h (PNode a leaf ks cs c) \<longleftrightarrow> block leaf ks (map addr cs) c (h a) \<and> (\<forall>t \<in> set cs. in_heap h t)"

fun erase :: "ptree \<Rightarrow> str node" where
  "erase (PNode a leaf ks cs c) = (if leaf then Leaf ks else Inner ks (map erase cs) c)"

definition stored :: "heap \<Rightarrow> ptree \<Rightarrow> bool" where
  "stored h t \<longleftrightarrow> in_heap h t \<and> distinct (addrs t)"

lemma addr_in [simp]: "addr t \<in> set (addrs t)"
  by (cases t) simp

lemma in_heap_frame:
  assumes "in_heap h t" "\<And>a. a \<in> set (addrs t) \<Longrightarrow> h' a = h a"
  shows "in_heap h' t"
  using assms
proof (induction t)
  case (PNode a leaf ks cs c)
  have "in_heap h' t" if "t \<in> set cs" for t
    using PNode.IH[OF that] PNode.prems that by auto
  then show ?case using PNode.prems by simp
qed

lemma in_heap_write: "in_heap h t \<Longrightarrow> a \<notin> set (addrs t) \<Longrightarrow> in_heap (h(a := m)) t"
  by (erule in_heap_frame) auto

lemma in_heap_root: "in_heap h t \<Longrightarrow> block (pleaf t) (pkeys t) (map addr (pchildren t)) (pcount t) (h (addr t))"
  by (cases t) simp

lemma in_heap_sizes:
  assumes "in_heap h t"
  shows "nb_num_items (h (addr t)) = num_items (erase t)" "nb_is_leaf (h (addr t)) = is_leaf (erase t)"
    "nb_max_items (h (addr t)) = max_items (erase t)" "nb_available_slots (h (addr t)) = available_slots (erase t)"
    "nb_tree_count (h (addr t)) = tree_count (erase t)" "pleaf t = is_leaf (erase t)" "length (pkeys t) = num_items (erase t)"
    "key_slots (pleaf t) = max_items (erase t)"
  using assms blockD[OF in_heap_root[OF assms]]
  by (cases t; simp add: num_items_def nb_max_items_def max_items_def nb_available_slots_def available_slots_def nb_tree_count_def
      tree_count_def key_slots_def)+

lemma distinct_mset: "mset xs = mset ys \<Longrightarrow> distinct xs \<Longrightarrow> distinct ys"
  using mset_eq_imp_distinct_iff by blast

lemma stored_pair:
  assumes "stored h (PNode a False ks (xs @ l # r # ys) c)"
  shows "in_heap h l" "in_heap h r" "distinct [a, addr l, addr r]" "distinct [a, addr r, addr l]"
    "set (map addr (pchildren l)) \<inter> {a, addr l, addr r} = {}" "set (map addr (pchildren r)) \<inter> {a, addr l, addr r} = {}"
    "block False ks (map addr (xs @ l # r # ys)) c (h a)" "length ks = Suc (length xs + length ys)"
proof -
  show "in_heap h l" "in_heap h r" "block False ks (map addr (xs @ l # r # ys)) c (h a)"
    using assms by (simp_all add: stored_def)
  then show "length ks = Suc (length xs + length ys)" by (auto simp: block_def)
  have d: "a \<notin> set (addrs l) \<union> set (addrs r)" "distinct (addrs l)" "distinct (addrs r)" "set (addrs l) \<inter> set (addrs r) = {}"
    using assms by (auto simp: stored_def)
  show "distinct [a, addr l, addr r]" "distinct [a, addr r, addr l]" using d addr_in[of l] addr_in[of r] by (auto simp del: addr_in)
  have "addr ` set (pchildren l) \<subseteq> set (addrs l) - {addr l}" "addr ` set (pchildren r) \<subseteq> set (addrs r) - {addr r}"
    using d(2,3) by (cases l; cases r; auto)+
  then show "set (map addr (pchildren l)) \<inter> {a, addr l, addr r} = {}" "set (map addr (pchildren r)) \<inter> {a, addr l, addr r} = {}"
    using d(1,4) addr_in[of l] addr_in[of r] by (auto simp del: addr_in)
qed

lemma stored_siblings:
  fixes l r :: ptree
  assumes "stored h (PNode a False ks (xs @ l # r # ys) c)"
    "block False ks' (map addr (xs @ l # r # ys)) c p" "block leaf kl (map addr cl) nl ml" "block leaf kr (map addr cr) nr mr"
    "cl @ cr = pchildren l @ pchildren r"
  defines "t' \<equiv> PNode a False ks' (xs @ PNode (addr l) leaf kl cl nl # PNode (addr r) leaf kr cr nr # ys) c"
  shows "stored (h(a := p, addr l := ml, addr r := mr)) t'"
    "mset (addrs t') = mset (addrs (PNode a False ks (xs @ l # r # ys) c))"
proof -
  have split: "addrs l = addr l # concat (map addrs (pchildren l))" "addrs r = addr r # concat (map addrs (pchildren r))"
    by (cases l, simp) (cases r, simp)
  have "concat (map addrs cl) @ concat (map addrs cr) = concat (map addrs (pchildren l)) @ concat (map addrs (pchildren r))"
    using assms(5) by (metis concat_append map_append)
  then have "mset (concat (map addrs cl)) + mset (concat (map addrs cr)) =
      mset (concat (map addrs (pchildren l))) + mset (concat (map addrs (pchildren r)))"
    by (metis mset_append)
  then show m: "mset (addrs t') = mset (addrs (PNode a False ks (xs @ l # r # ys) c))"
    by (simp add: t'_def split ac_simps)
  have d: "distinct (addrs t')" using m assms(1) by (metis distinct_mset stored_def)
  have old: "in_heap h t" if "t \<in> set cl \<union> set cr \<union> set xs \<union> set ys" for t
  proof (cases "t \<in> set xs \<union> set ys")
    case True
    then show ?thesis using assms(1) by (auto simp: stored_def)
  next
    case False
    then have "t \<in> set (pchildren l @ pchildren r)" using that unfolding assms(5)[symmetric] by auto
    then show ?thesis using stored_pair(1,2)[OF assms(1)] by (cases l; cases r; auto)
  qed
  have far: "set (addrs t) \<inter> {a, addr l, addr r} = {}" if "t \<in> set cl \<union> set cr \<union> set xs \<union> set ys" for t
    using d that by (auto simp: t'_def)
  have kids: "in_heap (h(a := p, addr l := ml, addr r := mr)) t" if "t \<in> set cl \<union> set cr \<union> set xs \<union> set ys" for t
    using far[OF that] by (intro in_heap_write old that) auto
  show "stored (h(a := p, addr l := ml, addr r := mr)) t'"
    using assms(2-4) d kids stored_pair(3)[OF assms(1)] by (simp add: stored_def t'_def ball_Un)
qed

section \<open>Moving between siblings\<close>

lemma child_counts:
  assumes "in_heap h t"
  shows "map (\<lambda>p. nb_tree_count (h p)) (map addr (pchildren t)) = map tree_count (map erase (pchildren t))"
  using assms by (cases t) (auto intro: in_heap_sizes(5))

text \<open>
  A step at two neighbouring siblings: the parent keeps its address and its other children, the siblings theirs, the blocks of the
  tree are the same, and only the three blocks are written.
\<close>

definition pair_step :: "heap \<Rightarrow> heap \<Rightarrow> ptree \<Rightarrow> ptree list \<Rightarrow> ptree \<Rightarrow> ptree \<Rightarrow> ptree list \<Rightarrow> ptree \<Rightarrow> bool" where
  "pair_step h h' t xs l r ys t' \<longleftrightarrow>
     pchildren t = xs @ l # r # ys \<and>
     (\<exists>ks' l' r'. t' = PNode (addr t) False ks' (xs @ l' # r' # ys) (pcount t) \<and> length ks' = length (pkeys t) \<and>
        addr l' = addr l \<and> addr r' = addr r \<and> pleaf l' = pleaf l \<and> pleaf r' = pleaf r) \<and>
     stored h' t' \<and> mset (addrs t') = mset (addrs t) \<and> (\<forall>b. b \<notin> {addr t, addr l, addr r} \<longrightarrow> h' b = h b)"

lemma left_stored:
  assumes "stored h t" "t = PNode a False ks (xs @ l # r # ys) c" "pleaf l = pleaf r" "0 < cnt" "cnt \<le> num_items (erase r)"
    "num_items (erase l) + cnt \<le> max_items (erase l)"
  shows "\<exists>t'. pair_step h (nh_rebalance_child_to_left a (Suc (length xs)) cnt h) t xs l r ys t' \<and>
    erase t' = rebalance_child_to_left (Suc (length xs)) cnt (erase t)"
proof -
  note st = assms(1)[unfolded assms(2)]
  note s = stored_pair[OF st]
  let ?moved = "sum_list (map (\<lambda>p. nb_tree_count (h p)) (take cnt (map addr (pchildren r)))) + of_nat cnt"
  have moved: "?moved = sum_list (map tree_count (take cnt (map erase (pchildren r)))) + of_nat cnt"
    using arg_cong[OF child_counts[OF s(2)], of "\<lambda>xs. sum_list (take cnt xs)"] by (simp add: take_map)
  have "\<exists>p d s. nh_rebalance_child_to_left a (Suc (length xs)) cnt h = three h a (addr l) (addr r) p d s \<and>
      block False (ks[Suc (length xs) - 1 := pkeys r ! (cnt - 1)]) (map addr (xs @ l # r # ys)) c p \<and>
      block (pleaf r) (pkeys l @ ks ! (Suc (length xs) - 1) # take (cnt - 1) (pkeys r))
        (map addr (pchildren l) @ take cnt (map addr (pchildren r))) (if pleaf r then 0 else pcount l + ?moved) d \<and>
      block (pleaf r) (drop cnt (pkeys r)) (drop cnt (map addr (pchildren r))) (if pleaf r then 0 else pcount r - ?moved) s"
    by (rule rebalance_left_blocks[OF s(3) s(7) in_heap_root[OF s(1), unfolded assms(3)] in_heap_root[OF s(2)]])
      (use s(6,8) assms(3-6) in_heap_sizes(7,8)[OF s(1)] in_heap_sizes(7)[OF s(2)] in \<open>simp_all add: nth_append\<close>)
  then obtain p d m where new: "nh_rebalance_child_to_left a (Suc (length xs)) cnt h = h(a := p, addr l := d, addr r := m)"
      "block False (ks[length xs := pkeys r ! (cnt - 1)]) (map addr (xs @ l # r # ys)) c p"
      "block (pleaf r) (pkeys l @ ks ! length xs # take (cnt - 1) (pkeys r))
        (map addr (pchildren l @ take cnt (pchildren r))) (if pleaf r then 0 else pcount l + ?moved) d"
      "block (pleaf r) (drop cnt (pkeys r)) (map addr (drop cnt (pchildren r))) (if pleaf r then 0 else pcount r - ?moved) m"
    by (auto simp: three_def take_map drop_map)
  have kids: "(pchildren l @ take cnt (pchildren r)) @ drop cnt (pchildren r) = pchildren l @ pchildren r" by simp
  note sib = stored_siblings[OF st new(2-4) kids]
  let ?l = "PNode (addr l) (pleaf r) (pkeys l @ ks ! length xs # take (cnt - 1) (pkeys r)) (pchildren l @ take cnt (pchildren r))
    (if pleaf r then 0 else pcount l + ?moved)"
  let ?r = "PNode (addr r) (pleaf r) (drop cnt (pkeys r)) (drop cnt (pchildren r)) (if pleaf r then 0 else pcount r - ?moved)"
  let ?t = "PNode a False (ks[length xs := pkeys r ! (cnt - 1)]) (xs @ ?l # ?r # ys) c"
  have "pair_step h (nh_rebalance_child_to_left a (Suc (length xs)) cnt h) t xs l r ys ?t"
    using sib s(3) assms(3) unfolding pair_step_def new(1) assms(2) by auto
  moreover have "erase ?t = rebalance_child_to_left (Suc (length xs)) cnt (erase t)"
    unfolding moved using assms(3)
    by (cases l; cases r; cases "pleaf r")
      (auto simp: assms(2) rebalance_child_to_left_def move_to_left_def child_def set_child_def set_key_def nth_append list_update_append
        tree_count_def take_map drop_map add.assoc diff_diff_eq comp_def Let_def)
  ultimately show ?thesis by blast
qed

lemma right_stored:
  assumes "stored h t" "t = PNode a False ks (xs @ l # r # ys) c" "pleaf l = pleaf r" "0 < cnt" "cnt \<le> num_items (erase l)"
    "num_items (erase r) + cnt \<le> max_items (erase r)"
  shows "\<exists>t'. pair_step h (nh_rebalance_child_to_right a (length xs) cnt h) t xs l r ys t' \<and>
    erase t' = rebalance_child_to_right (length xs) cnt (erase t)"
proof -
  note st = assms(1)[unfolded assms(2)]
  note s = stored_pair[OF st]
  define n where "n = length (pkeys l)"
  have n: "num_items (erase l) = n" using in_heap_sizes(7)[OF s(1)] by (simp add: n_def)
  let ?moved = "sum_list (map (\<lambda>p. nb_tree_count (h p)) (drop (n - (cnt - 1)) (map addr (pchildren l)))) + of_nat cnt"
  have moved: "?moved = sum_list (map tree_count (drop (n - (cnt - 1)) (map erase (pchildren l)))) + of_nat cnt"
    using arg_cong[OF child_counts[OF s(1)], of "\<lambda>xs. sum_list (drop (n - (cnt - 1)) xs)"] by (simp add: drop_map)
  have "\<exists>p d s. nh_rebalance_child_to_right a (length xs) cnt h = three h a (addr r) (addr l) p d s \<and>
      block False (ks[length xs := pkeys l ! (n - cnt)]) (map addr (xs @ l # r # ys)) c p \<and>
      block (pleaf r) (drop (n - cnt + 1) (pkeys l) @ ks ! length xs # pkeys r)
        (drop (n - (cnt - 1)) (map addr (pchildren l)) @ map addr (pchildren r)) (if pleaf r then 0 else pcount r + ?moved) d \<and>
      block (pleaf r) (take (n - cnt) (pkeys l)) (take (n - (cnt - 1)) (map addr (pchildren l))) (if pleaf r then 0 else pcount l - ?moved) s"
    unfolding n_def
    by (rule rebalance_right_blocks[OF s(4) s(7) in_heap_root[OF s(2)] in_heap_root[OF s(1), unfolded assms(3)]])
      (use s(5,8) assms(3-6) n in_heap_sizes(7,8)[OF s(2)] in \<open>auto simp: nth_append n_def\<close>)
  then obtain p d m where new: "nh_rebalance_child_to_right a (length xs) cnt h = three h a (addr r) (addr l) p d m"
      "block False (ks[length xs := pkeys l ! (n - cnt)]) (map addr (xs @ l # r # ys)) c p"
      "block (pleaf r) (take (n - cnt) (pkeys l)) (map addr (take (n - (cnt - 1)) (pchildren l))) (if pleaf r then 0 else pcount l - ?moved) m"
      "block (pleaf r) (drop (n - cnt + 1) (pkeys l) @ ks ! length xs # pkeys r)
        (map addr (drop (n - (cnt - 1)) (pchildren l) @ pchildren r)) (if pleaf r then 0 else pcount r + ?moved) d"
    unfolding take_map drop_map map_append by blast
  have heap: "nh_rebalance_child_to_right a (length xs) cnt h = h(a := p, addr l := m, addr r := d)"
    using new(1) s(3) by (auto simp: three_def fun_eq_iff)
  have kids: "take (n - (cnt - 1)) (pchildren l) @ drop (n - (cnt - 1)) (pchildren l) @ pchildren r = pchildren l @ pchildren r" by simp
  note sib = stored_siblings[OF st new(2-4) kids]
  let ?l = "PNode (addr l) (pleaf r) (take (n - cnt) (pkeys l)) (take (n - (cnt - 1)) (pchildren l)) (if pleaf r then 0 else pcount l - ?moved)"
  let ?r = "PNode (addr r) (pleaf r) (drop (n - cnt + 1) (pkeys l) @ ks ! length xs # pkeys r) (drop (n - (cnt - 1)) (pchildren l) @ pchildren r)
    (if pleaf r then 0 else pcount r + ?moved)"
  let ?t = "PNode a False (ks[length xs := pkeys l ! (n - cnt)]) (xs @ ?l # ?r # ys) c"
  have "pair_step h (nh_rebalance_child_to_right a (length xs) cnt h) t xs l r ys ?t"
    using sib s(3) assms(3) unfolding pair_step_def heap assms(2) by auto
  moreover have "erase ?t = rebalance_child_to_right (length xs) cnt (erase t)"
    unfolding moved using assms(3) n
    by (cases l; cases r; cases "pleaf r")
      (auto simp: assms(2) rebalance_child_to_right_def move_to_right_def child_def set_child_def set_key_def nth_append list_update_append
        tree_count_def take_map drop_map add.assoc diff_diff_eq comp_def Let_def num_items_def)
  ultimately show ?thesis by blast
qed

section \<open>Merging and splitting\<close>

lemma addrs_parts: "addrs t = addr t # concat (map addrs (pchildren t))"
  by (cases t) simp

lemma in_heap_children: "in_heap h t \<Longrightarrow> s \<in> set (pchildren t) \<Longrightarrow> in_heap h s"
  by (cases t) simp

lemma stored_merged:
  fixes l r :: ptree
  assumes "stored h (PNode a False ks (xs @ l # r # ys) c)"
    "block False ks' (map addr (xs @ l # ys)) c p" "block leaf kl (map addr (pchildren l @ pchildren r)) nl ml"
  defines "t' \<equiv> PNode a False ks' (xs @ PNode (addr l) leaf kl (pchildren l @ pchildren r) nl # ys) c"
  shows "stored (h(addr l := ml, addr r := mr, a := p)) t'"
    "mset (addrs (PNode a False ks (xs @ l # r # ys) c)) = add_mset (addr r) (mset (addrs t'))"
proof -
  show m: "mset (addrs (PNode a False ks (xs @ l # r # ys) c)) = add_mset (addr r) (mset (addrs t'))"
    by (simp add: t'_def addrs_parts[of l] addrs_parts[of r] ac_simps)
  have d: "distinct (addr r # addrs t')" using m assms(1) by (metis distinct_mset mset.simps(2) stored_def)
  let ?T = "set (pchildren l) \<union> set (pchildren r) \<union> set xs \<union> set ys"
  have old: "in_heap h t" if "t \<in> ?T" for t
    using that assms(1) stored_pair(1,2)[OF assms(1)] in_heap_children by (auto simp: stored_def)
  have far: "set (addrs t) \<inter> {a, addr l, addr r} = {}" if "t \<in> ?T" for t
    using d that by (auto simp: t'_def)
  have kids: "in_heap (h(addr l := ml, addr r := mr, a := p)) t" if "t \<in> ?T" for t
    using far[OF that] by (intro in_heap_write old that) auto
  show "stored (h(addr l := ml, addr r := mr, a := p)) t'"
    using assms(2,3) d kids stored_pair(3)[OF assms(1)] by (auto simp: stored_def t'_def)
qed

lemma merge_stored:
  fixes h :: heap
  assumes "stored h t" "t = PNode a False ks (xs @ l # r # ys) c" "pleaf l = pleaf r" "num_items (erase l) + 1 + num_items (erase r) \<le> max_items (erase l)"
  defines "h1 \<equiv> nh_merge_from_right (addr l) (ks ! length xs) (addr r) h"
  shows "\<exists>t'. stored (h1(a := nb_shift_left (length xs) True (h1 a))) t' \<and> addr t' = a \<and> mset (addrs t) = add_mset (addr r) (mset (addrs t')) \<and>
    erase t' = shift_left (length xs) True (set_child (length xs) (merge_from_right (ks ! length xs) (erase r) (erase l)) (erase t)) \<and>
    (\<forall>b. b \<notin> {a, addr l, addr r} \<longrightarrow> h1 b = h b)"
proof -
  note st = assms(1)[unfolded assms(2)]
  note s = stored_pair[OF st]
  let ?key = "ks ! length xs"
  have "\<exists>m m'. nh_merge_from_right (addr l) ?key (addr r) h = h(addr l := m, addr r := m') \<and> length m' = 256 \<and>
      block (pleaf r) (pkeys l @ ?key # pkeys r) (map addr (pchildren l) @ map addr (pchildren r)) (if pleaf r then 0 else pcount l + (pcount r + 1)) m"
    by (rule merge_blocks[OF in_heap_root[OF s(1), unfolded assms(3)] in_heap_root[OF s(2)]])
      (use s(3,8) assms(3,4) block_nth(3)[OF s(7)] in_heap_sizes(7,8)[OF s(1)] in_heap_sizes(7)[OF s(2)] in auto)
  then obtain m m' where new: "h1 = h(addr l := m, addr r := m')"
      "block (pleaf r) (pkeys l @ ?key # pkeys r) (map addr (pchildren l @ pchildren r)) (if pleaf r then 0 else pcount l + (pcount r + 1)) m"
    unfolding h1_def map_append by blast
  have e: "(if Suc (length xs) < length ks then length xs + of_bool True else length ks) = Suc (length xs)" using s(8) by simp
  have parent: "block False (take (length xs) ks @ drop (Suc (length xs)) ks) (map addr (xs @ l # ys)) c (nb_shift_left (length xs) True (h a))"
    using block_shift_left_inner[OF s(7), of "length xs" True] s(8) unfolding e by simp
  note merged = stored_merged(1)[OF st parent new(2), where mr = m'] stored_merged(2)[OF st parent new(2)]
  let ?l = "PNode (addr l) (pleaf r) (pkeys l @ ?key # pkeys r) (pchildren l @ pchildren r) (if pleaf r then 0 else pcount l + (pcount r + 1))"
  let ?t = "PNode a False (take (length xs) ks @ drop (Suc (length xs)) ks) (xs @ ?l # ys) c"
  have "h1 a = h a" "\<forall>b. b \<notin> {a, addr l, addr r} \<longrightarrow> h1 b = h b" using s(3) by (auto simp: new(1))
  then have "stored (h1(a := nb_shift_left (length xs) True (h1 a))) ?t" "mset (addrs t) = add_mset (addr r) (mset (addrs ?t))"
    "\<forall>b. b \<notin> {a, addr l, addr r} \<longrightarrow> h1 b = h b"
    using merged by (simp_all add: new(1) assms(2) del: fun_upd_apply)
  moreover have "erase ?t = shift_left (length xs) True (set_child (length xs) (merge_from_right ?key (erase r) (erase l)) (erase t))"
    using assms(3) s(8)
    by (cases l; cases r; cases "pleaf r")
      (auto simp: assms(2) shift_left_def merge_from_right_def set_child_def increase_tree_count_def tree_count_def list_update_append Let_def)
  ultimately show ?thesis by (intro exI[of _ ?t]) simp
qed

lemma mset_take_drop: "mset (concat (map f (take n xs))) + mset (concat (map f (drop n xs))) = mset (concat (map f xs))"
  by (metis append_take_drop_id concat_append map_append mset_append)

lemma split_stored:
  fixes h :: heap
  assumes "stored h t" "right \<notin> set (addrs t)" "length (h right) = 256" "0 < num_items (erase t)"
  shows "\<exists>m h' l r. nh_split (addr t) right h = (m, h') \<and> split_node (erase t) = (erase l, m, erase r) \<and>
    addr l = addr t \<and> addr r = right \<and> in_heap h' l \<and> in_heap h' r \<and>
    distinct (addrs l @ addrs r) \<and> mset (addrs l @ addrs r) = add_mset right (mset (addrs t)) \<and>
    (\<forall>b. b \<noteq> addr t \<longrightarrow> b \<noteq> right \<longrightarrow> h' b = h b)"
proof -
  have t: "in_heap h t" "distinct (addrs t)" using assms(1) by (simp_all add: stored_def)
  let ?mid = "length (pkeys t) div 2" and ?ps = "map addr (pchildren t)"
  let ?cnt = "of_nat (length (pkeys t) - (?mid + 1)) + sum_list (map (\<lambda>p. nb_tree_count (h p)) (drop (?mid + 1) ?ps)) :: u32"
  have ne: "right \<noteq> addr t" "right \<notin> set ?ps" "pkeys t \<noteq> []"
    using assms(2,4) in_heap_sizes(7)[OF t(1)] addr_in by (auto simp: addrs_parts[of t])
  obtain m m' where new: "nh_split (addr t) right h = (pkeys t ! ?mid, h(right := m', addr t := m))"
      "block (pleaf t) (take ?mid (pkeys t)) (map addr (take (?mid + 1) (pchildren t))) (if pleaf t then 0 else pcount t - (?cnt + 1)) m"
      "block (pleaf t) (drop (?mid + 1) (pkeys t)) (map addr (drop (?mid + 1) (pchildren t))) (if pleaf t then 0 else ?cnt) m'"
    using split_blocks[OF in_heap_root[OF t(1)] assms(3) ne] unfolding take_map drop_map by blast
  let ?l = "PNode (addr t) (pleaf t) (take ?mid (pkeys t)) (take (?mid + 1) (pchildren t)) (if pleaf t then 0 else pcount t - (?cnt + 1))"
  let ?r = "PNode right (pleaf t) (drop (?mid + 1) (pkeys t)) (drop (?mid + 1) (pchildren t)) (if pleaf t then 0 else ?cnt)"
  have m: "mset (addrs ?l @ addrs ?r) = add_mset right (mset (addrs t))"
    using mset_take_drop[of addrs "?mid + 1" "pchildren t"] by (simp add: addrs_parts[of t] ac_simps)
  have d: "distinct (addrs ?l @ addrs ?r)" using m assms(2) t(2) by (metis distinct.simps(2) distinct_mset mset.simps(2))
  have kids: "in_heap (h(right := m', addr t := m)) s" if "s \<in> set (pchildren t)" for s
    using that assms(2) t by (intro in_heap_write in_heap_children[OF t(1)]) (auto simp: addrs_parts[of t])
  have "in_heap (h(right := m', addr t := m)) ?l" "in_heap (h(right := m', addr t := m)) ?r"
    using new(2,3) kids ne(1) by (auto dest: in_set_takeD in_set_dropD)
  moreover have sums: "sum_list (map (\<lambda>p. nb_tree_count (h p)) (drop (?mid + 1) ?ps)) = sum_list (map tree_count (drop (?mid + 1) (map erase (pchildren t))))"
    using arg_cong[OF child_counts[OF t(1)], of "\<lambda>xs. sum_list (drop (?mid + 1) xs)"] by (simp add: drop_map)
  have "split_node (erase t) = (erase ?l, pkeys t ! ?mid, erase ?r)"
    unfolding sums by (cases t) (simp add: split_node_def num_items_def Let_def take_map drop_map algebra_simps)
  ultimately show ?thesis using new(1) m d by (intro exI[of _ ?l] exI[of _ ?r] exI) auto
qed

section \<open>Edits of one block\<close>

text \<open>Writing one block of a stored tree gives a stored tree with the same blocks: the edited node.\<close>

definition edits :: "heap \<Rightarrow> ptree \<Rightarrow> str \<Rightarrow> str node \<Rightarrow> bool" where
  "edits h t mem n \<longleftrightarrow> (\<exists>t'. stored (h(addr t := mem)) t' \<and> erase t' = n \<and> addrs t' = addrs t)"

lemma stored_edit:
  assumes "stored h (PNode a leaf ks cs c)" "block leaf ks' (map addr cs) c' mem"
  shows "stored (h(a := mem)) (PNode a leaf ks' cs c')"
proof -
  have "in_heap (h(a := mem)) t" if "t \<in> set cs" for t
    using that assms(1) by (intro in_heap_write) (auto simp: stored_def)
  then show ?thesis using assms by (auto simp: stored_def)
qed

lemma editsI:
  assumes "stored h t" "block (pleaf t) ks' (map addr (pchildren t)) c' mem"
    "erase (PNode (addr t) (pleaf t) ks' (pchildren t) c') = n"
  shows "edits h t mem n"
  unfolding edits_def
  by (intro exI[of _ "PNode (addr t) (pleaf t) ks' (pchildren t) c'"] conjI)
    (use stored_edit[of h "addr t" "pleaf t" "pkeys t" "pchildren t" "pcount t" ks' c' mem] assms addrs_parts[of t] in simp_all)

lemma block_set_key:
  assumes "block leaf ks ps c mem" "i < length ks" "length x = 16"
  shows "block leaf (ks[i := x]) ps c (nb_set_key i x mem)"
proof -
  note b = blockD[OF assms(1)]
  show ?thesis using assms b after_set_key[OF b(1) assms(3)] by (cases leaf) (auto simp: block_def)
qed

lemma block_increase_count:
  assumes "block False ks ps c mem"
  shows "block False ks ps (c + d) (nb_increase_tree_count d mem)"
  using assms blockD[OF assms] by (auto simp: block_def nb_increase_tree_count_def after_set_count)

lemma leaf_block:
  assumes "stored h t" "is_leaf (erase t)"
  shows "block True (pkeys t) [] 0 (h (addr t))" "pleaf t" "pchildren t = []" "pcount t = 0" "num_items (erase t) = length (pkeys t)"
    "erase t = Leaf (pkeys t)"
proof -
  have t: "in_heap h t" using assms(1) by (simp add: stored_def)
  show "pleaf t" using in_heap_sizes(6)[OF t] assms(2) by simp
  then show "block True (pkeys t) [] 0 (h (addr t))" "pchildren t = []" "pcount t = 0" "num_items (erase t) = length (pkeys t)"
    "erase t = Leaf (pkeys t)"
    using in_heap_root[OF t] by (cases t; auto simp: block_def num_items_def)+
qed

lemma leaf_edits:
  assumes "stored h t" "is_leaf (erase t)"
  shows "i \<le> num_items (erase t) \<Longrightarrow> num_items (erase t) < kMaxLeafKeys \<Longrightarrow> length x = 16 \<Longrightarrow>
      edits h t (nb_leaf_insert i x (h (addr t))) (leaf_insert i x (erase t))"
    and "i < num_items (erase t) \<Longrightarrow> edits h t (nb_shift_left i s (h (addr t))) (shift_left i s (erase t))"
    and "0 < num_items (erase t) \<Longrightarrow> edits h t (nb_leaf_erase_right (h (addr t))) (leaf_erase_right (erase t))"
proof -
  note l = leaf_block[OF assms]
  show "edits h t (nb_leaf_insert i x (h (addr t))) (leaf_insert i x (erase t))"
    if "i \<le> num_items (erase t)" "num_items (erase t) < kMaxLeafKeys" "length x = 16"
    by (rule editsI[OF assms(1), where c' = 0])
      (use that l block_leaf_insert[OF l(1), of i x] in \<open>simp_all add: leaf_insert_def\<close>)
  show "edits h t (nb_shift_left i s (h (addr t))) (shift_left i s (erase t))" if "i < num_items (erase t)"
    by (rule editsI[OF assms(1), where c' = 0])
      (use that l block_shift_left_leaf[OF l(1), of i s] in \<open>simp_all add: shift_left_def Let_def\<close>)
  show "edits h t (nb_leaf_erase_right (h (addr t))) (leaf_erase_right (erase t))" if "0 < num_items (erase t)"
    by (rule editsI[OF assms(1), where c' = 0])
      (use that l block_leaf_erase_right[OF l(1)] in \<open>simp_all add: leaf_erase_right_def\<close>)
qed

lemma count_edits:
  assumes "stored h t" "\<not> is_leaf (erase t)"
  shows "edits h t (nb_increase_tree_count d (h (addr t))) (increase_tree_count d (erase t))"
proof -
  have t: "in_heap h t" using assms(1) by (simp add: stored_def)
  show ?thesis
    by (rule editsI[OF assms(1), where ks' = "pkeys t" and c' = "pcount t + d"])
      (use assms(2) in_heap_root[OF t] in_heap_sizes(6)[OF t] block_increase_count in \<open>(cases t, simp add: increase_tree_count_def)+\<close>)
qed

lemma stored_set_key:
  assumes "stored h t" "i < length (pkeys t)" "length x = 16"
  shows "stored (h(addr t := nb_set_key i x (h (addr t)))) (PNode (addr t) (pleaf t) ((pkeys t)[i := x]) (pchildren t) (pcount t))"
    "erase (PNode (addr t) (pleaf t) ((pkeys t)[i := x]) (pchildren t) (pcount t)) = set_key i x (erase t)"
proof -
  have t: "in_heap h t" "stored h (PNode (addr t) (pleaf t) (pkeys t) (pchildren t) (pcount t))" using assms(1) by (simp_all add: stored_def)
  show "stored (h(addr t := nb_set_key i x (h (addr t)))) (PNode (addr t) (pleaf t) ((pkeys t)[i := x]) (pchildren t) (pcount t))"
    by (rule stored_edit[OF t(2) block_set_key[OF in_heap_root[OF t(1)] assms(2,3)]])
  show "erase (PNode (addr t) (pleaf t) ((pkeys t)[i := x]) (pchildren t) (pcount t)) = set_key i x (erase t)"
    by (cases t) (simp add: set_key_def)
qed

lemma inner_insert_stored:
  assumes "stored h t" "stored h s" "set (addrs t) \<inter> set (addrs s) = {}" "\<not> is_leaf (erase t)" "i \<le> num_items (erase t)"
    "num_items (erase t) < kMaxInnerKeys" "length x = 16"
  shows "\<exists>t'. stored (h(addr t := nb_inner_insert i x (addr s) (h (addr t)))) t' \<and> erase t' = inner_insert i x (erase s) (erase t) \<and>
    addr t' = addr t \<and> mset (addrs t') = mset (addrs t @ addrs s)"
proof (cases t)
  case (PNode a leaf ks cs c)
  let ?mem = "nb_inner_insert i x (addr s) (h a)" and ?ks = "take i ks @ x # drop i ks" and ?cs = "take (Suc i) cs @ s # drop (Suc i) cs"
  have leaf: "\<not> leaf" and b: "block False ks (map addr cs) c (h a)" and i: "i \<le> length ks" "length ks < 10"
    using assms PNode by (auto simp: stored_def num_items_def split: if_splits)
  have new: "block False ?ks (map addr ?cs) c ?mem"
    using block_inner_insert[OF b i assms(7), of "addr s"] by (simp add: take_map drop_map)
  have "mset (addrs (PNode a False ?ks ?cs c)) = mset (addrs t @ addrs s)"
    using mset_take_drop[of addrs "Suc i" cs] by (simp add: PNode ac_simps)
  moreover have "distinct (addrs t @ addrs s)" using assms(1-3) by (simp add: stored_def)
  ultimately have d: "mset (addrs (PNode a False ?ks ?cs c)) = mset (addrs t @ addrs s)" "distinct (addrs (PNode a False ?ks ?cs c))"
    by (metis distinct_mset)+
  have kids: "in_heap (h(a := ?mem)) r" if "r \<in> set cs \<union> {s}" for r
    using that assms(1-3) by (intro in_heap_write) (auto simp: PNode stored_def)
  have "stored (h(a := ?mem)) (PNode a False ?ks ?cs c)"
    using new kids d(2) by (auto simp: stored_def dest: in_set_takeD in_set_dropD)
  moreover have "erase (PNode a False ?ks ?cs c) = inner_insert i x (erase s) (erase t)"
    using leaf by (simp add: PNode inner_insert_def take_map drop_map)
  ultimately show ?thesis using d(1) by (intro exI[of _ "PNode a False ?ks ?cs c"]) (simp add: PNode)
qed

section \<open>Rebalancing a full child\<close>

text \<open>
  The result on the heap against the result on the node: nothing moved and no node, or the tree of the result is stored in the same
  blocks, with the children of the same addresses and kinds, and the pointer is the child that was chosen.
\<close>

definition same_shape :: "ptree \<Rightarrow> ptree \<Rightarrow> bool" where
  "same_shape t t' \<longleftrightarrow> map addr (pchildren t') = map addr (pchildren t) \<and> map pleaf (pchildren t') = map pleaf (pchildren t) \<and>
     length (pkeys t') = length (pkeys t)"

definition child_moved :: "heap \<Rightarrow> ptree \<Rightarrow> (str node \<times> nat \<times> nat) option \<Rightarrow> heap \<times> u64 \<times> nat \<Rightarrow> bool" where
  "child_moved h t res out \<longleftrightarrow>
     (case res of None \<Rightarrow> out = (h, 0, 0)
      | Some (n, p, i) \<Rightarrow>
          (\<exists>h' t'. out = (h', addr (pchildren t' ! p), i) \<and> p < length (pchildren t') \<and> stored h' t' \<and> erase t' = n \<and>
             addr t' = addr t \<and> mset (addrs t') = mset (addrs t) \<and> (\<forall>b. b \<notin> set (addrs t) \<longrightarrow> h' b = h b) \<and> same_shape t t'))"

definition same_level :: "ptree \<Rightarrow> bool" where
  "same_level t \<longleftrightarrow> (\<forall>x \<in> set (pchildren t). \<forall>y \<in> set (pchildren t). pleaf x = pleaf y)"

lemma pair_at:
  assumes "Suc i < length cs"
  obtains xs l r ys where "cs = xs @ l # r # ys" "length xs = i" "cs ! i = l" "cs ! Suc i = r"
proof -
  have "cs = take i cs @ cs ! i # cs ! Suc i # drop (Suc (Suc i)) cs"
    using assms by (metis Cons_nth_drop_Suc Suc_lessD append_take_drop_id)
  then show ?thesis using that[of "take i cs" "cs ! i" "cs ! Suc i"] assms by simp
qed

lemma moves_le: "moves_for_insert free e \<le> free"
  by (simp add: moves_for_insert_def)

text \<open>What the code reads of an inner node and its children.\<close>

lemma inner_reads:
  assumes "stored h t" "\<not> is_leaf (erase t)"
  shows "t = PNode (addr t) False (pkeys t) (pchildren t) (pcount t)" "in_heap h t"
    "nb_num_items (h (addr t)) = num_items (erase t)" "length (pchildren t) = Suc (num_items (erase t))"
    "i \<le> num_items (erase t) \<Longrightarrow> nb_child i (h (addr t)) = addr (pchildren t ! i)"
    "i \<le> num_items (erase t) \<Longrightarrow> child (erase t) i = erase (pchildren t ! i)"
    "i \<le> num_items (erase t) \<Longrightarrow> in_heap h (pchildren t ! i)"
    "i < num_items (erase t) \<Longrightarrow> nb_key i (h (addr t)) = pkeys t ! i"
    "node_keys (erase t) = pkeys t"
proof -
  show t: "in_heap h t" using assms(1) by (simp add: stored_def)
  have leaf: "\<not> pleaf t" using in_heap_sizes(6)[OF t] assms(2) by simp
  then show "t = PNode (addr t) False (pkeys t) (pchildren t) (pcount t)" by (cases t) simp
  note b = blockD[OF in_heap_root[OF t]] and n = in_heap_sizes(7)[OF t]
  show "nb_num_items (h (addr t)) = num_items (erase t)" "length (pchildren t) = Suc (num_items (erase t))"
    "i < num_items (erase t) \<Longrightarrow> nb_key i (h (addr t)) = pkeys t ! i"
    using b leaf n by simp_all
  show "node_keys (erase t) = pkeys t" using leaf by (cases t) simp
  assume i: "i \<le> num_items (erase t)"
  then show "nb_child i (h (addr t)) = addr (pchildren t ! i)" using b(8) b(9)[of i] leaf n by simp
  show "child (erase t) i = erase (pchildren t ! i)" "in_heap h (pchildren t ! i)"
    using i b(8) leaf n t by (cases t; auto simp: child_def)+
qed

lemma pair_step_rebalanced:
  assumes "pair_step h h' t xs l r ys t'" "l \<in> set (pchildren t)" "r \<in> set (pchildren t)"
  shows "stored h' t'" "mset (addrs t') = mset (addrs t)" "addr t' = addr t" "\<not> pleaf t'"
    "length (pchildren t') = Suc (Suc (length xs + length ys))"
    "addr (pchildren t' ! length xs) = addr l" "addr (pchildren t' ! Suc (length xs)) = addr r"
    "b \<notin> set (addrs t) \<Longrightarrow> h' b = h b" "same_shape t t'"
proof -
  have "addr l \<in> set (addrs t)" "addr r \<in> set (addrs t)" "addr t \<in> set (addrs t)"
    using assms(2,3) addr_in[of l] addr_in[of r] by (auto simp: addrs_parts[of t] simp del: addr_in)
  moreover have "\<forall>b. b \<notin> {addr t, addr l, addr r} \<longrightarrow> h' b = h b" using assms(1) unfolding pair_step_def by (elim conjE)
  ultimately show "b \<notin> set (addrs t) \<Longrightarrow> h' b = h b" by (metis insert_iff empty_iff)
qed (use assms(1) in \<open>auto simp: pair_step_def nth_append same_shape_def\<close>)

lemma rebalancedI:
  assumes "pair_step h h' t xs l r ys t'" "l \<in> set (pchildren t)" "r \<in> set (pchildren t)"
  shows "child_moved h t (Some (erase t', length xs, i)) (h', addr l, i)"
    "child_moved h t (Some (erase t', Suc (length xs), i)) (h', addr r, i)"
  unfolding child_moved_def option.case prod.case using pair_step_rebalanced[OF assms]
  by (intro exI[of _ h'] exI[of _ t']; simp)+

text \<open>Two neighbouring children, as the tree and the code see them.\<close>

definition siblings :: "heap \<Rightarrow> ptree \<Rightarrow> ptree list \<Rightarrow> ptree \<Rightarrow> ptree \<Rightarrow> ptree list \<Rightarrow> bool" where
  "siblings h t xs l r ys \<longleftrightarrow> pchildren t = xs @ l # r # ys \<and> in_heap h l \<and> in_heap h r \<and> pleaf l = pleaf r"

lemma siblings_at:
  assumes "stored h t" "\<not> is_leaf (erase t)" "same_level t" "Suc i \<le> num_items (erase t)"
  obtains xs l r ys where "length xs = i" "siblings h t xs l r ys"
proof -
  note r = inner_reads[OF assms(1,2)]
  obtain xs l q ys where cs: "pchildren t = xs @ l # q # ys" "length xs = i" "pchildren t ! i = l" "pchildren t ! Suc i = q"
    using r(4) assms(4) by (metis Suc_le_mono le_imp_less_Suc pair_at)
  have "l \<in> set (pchildren t)" "q \<in> set (pchildren t)" unfolding cs(1) by simp_all
  then have "pleaf l = pleaf q" using assms(3) unfolding same_level_def by blast
  moreover have "in_heap h l" "in_heap h q" using r(7)[of i] r(7)[of "Suc i"] assms(4) cs(3,4) by simp_all
  ultimately show ?thesis using that[OF cs(2)] cs(1) by (simp add: siblings_def)
qed

lemma siblingsD:
  assumes "stored h t" "\<not> is_leaf (erase t)" "siblings h t xs l r ys"
  shows "t = PNode (addr t) False (pkeys t) (xs @ l # r # ys) (pcount t)" "nb_num_items (h (addr t)) = num_items (erase t)"
    "in_heap h l" "in_heap h r" "pleaf l = pleaf r" "nb_child (length xs) (h (addr t)) = addr l" "nb_child (Suc (length xs)) (h (addr t)) = addr r"
    "child (erase t) (length xs) = erase l" "child (erase t) (Suc (length xs)) = erase r"
    "max_items (erase l) = max_items (erase r)" "num_items (erase r) \<le> max_items (erase r)" "l \<in> set (pchildren t)" "r \<in> set (pchildren t)"
    "nb_available_slots (h (addr l)) = available_slots (erase l)" "nb_available_slots (h (addr r)) = available_slots (erase r)"
    "nb_num_items (h (addr l)) = num_items (erase l)" "nb_num_items (h (addr r)) = num_items (erase r)"
    "nb_max_items (h (addr l)) = max_items (erase l)" "nb_max_items (h (addr r)) = max_items (erase r)"
    "num_items (erase l) \<le> max_items (erase l)" "nb_key (length xs) (h (addr t)) = pkeys t ! length xs"
    "node_keys (erase t) = pkeys t" "num_items (erase t) = Suc (length xs + length ys)"
proof -
  note i = inner_reads[OF assms(1,2)]
  have cs: "pchildren t = xs @ l # r # ys" and lr: "in_heap h l" "in_heap h r" "pleaf l = pleaf r" using assms(3) by (simp_all add: siblings_def)
  note sl = in_heap_sizes[OF lr(1)] and sr = in_heap_sizes[OF lr(2)]
  show "t = PNode (addr t) False (pkeys t) (xs @ l # r # ys) (pcount t)" using i(1) unfolding cs .
  show n: "num_items (erase t) = Suc (length xs + length ys)" using i(4) by (simp add: cs)
  show "l \<in> set (pchildren t)" "r \<in> set (pchildren t)" by (simp_all add: cs)
  show "max_items (erase l) = max_items (erase r)" using sl(8) sr(8) lr(3) by simp
  show "num_items (erase l) \<le> max_items (erase l)" "num_items (erase r) \<le> max_items (erase r)"
    using block_nth(1)[OF in_heap_root[OF lr(1)]] block_nth(1)[OF in_heap_root[OF lr(2)]] sl(7,8) sr(7,8) by simp_all
  show "nb_child (length xs) (h (addr t)) = addr l" "nb_child (Suc (length xs)) (h (addr t)) = addr r"
    "child (erase t) (length xs) = erase l" "child (erase t) (Suc (length xs)) = erase r"
    using i(5,6)[of "length xs"] i(5,6)[of "Suc (length xs)"] n by (simp_all add: cs nth_append)
  show "nb_key (length xs) (h (addr t)) = pkeys t ! length xs" using i(8) n by simp
qed (use assms(3) inner_reads[OF assms(1,2)] in \<open>simp_all add: siblings_def in_heap_sizes\<close>)

lemma right_rebalanced:
  assumes "stored h t" "\<not> is_leaf (erase t)" "same_level t" "pos \<le> num_items (erase t)"
    "num_items (child (erase t) pos) = max_items (child (erase t) pos)"
  shows "child_moved h t (rebalance_right pos ipos (erase t)) (nh_rebalance_right (addr t) pos ipos h)"
proof (cases "pos < num_items (erase t)")
  case True
  then have "Suc pos \<le> num_items (erase t)" by simp
  then obtain xs l q ys where cs: "length xs = pos" and lq: "siblings h t xs l q ys"
    using siblings_at[OF assms(1-3)] by metis
  note L = siblingsD[OF assms(1,2) lq, unfolded cs]
  define k where "k = moves_for_insert (available_slots (erase q)) (ipos = 0)"
  have full: "num_items (erase l) = max_items (erase l)" using assms(5) L(8) by simp
  have bounds: "k \<le> num_items (erase l)" "num_items (erase q) + k \<le> max_items (erase q)"
    using moves_le[of "available_slots (erase q)" "ipos = 0"] full L(10,11) by (simp_all add: available_slots_def k_def)
  show ?thesis
  proof (cases "k = 0")
    case True
    then show ?thesis
      using L \<open>pos < num_items (erase t)\<close>
      by (simp add: child_moved_def nh_rebalance_right_def rebalance_right_def Let_def k_def)
  next
    case False
    obtain t' where t': "pair_step h (nh_rebalance_child_to_right (addr t) (length xs) k h) t xs l q ys t'"
        "erase t' = rebalance_child_to_right (length xs) k (erase t)"
      using right_stored[OF assms(1) L(1,5) _ bounds] False by auto
    note p = pair_step_rebalanced[OF t'(1) L(12,13)]
    have "\<not> is_leaf (erase t')" using p(1,4) in_heap_sizes(6)[of _ t'] by (auto simp: stored_def)
    note r' = inner_reads[OF p(1) this]
    let ?h = "nh_rebalance_child_to_right (addr t) pos k h" and ?m = "num_items (child (erase t') pos)"
    have num: "nb_num_items (?h (addr l)) = ?m"
      using in_heap_sizes(1)[OF r'(7)[of pos]] r'(4) r'(6)[of pos] p(5,6) cs by simp
    have "rebalance_right pos ipos (erase t) =
        Some (if ipos > ?m then (erase t', pos + 1, ipos - (?m + 1)) else (erase t', pos, ipos))"
      using True False L
      by (simp add: rebalance_right_def Let_def k_def[symmetric] t'(2)[symmetric, unfolded cs] split del: if_split)
    moreover have "nh_rebalance_right (addr t) pos ipos h =
        (if ipos > nb_num_items (?h (addr l)) then (?h, addr q, ipos - (nb_num_items (?h (addr l)) + 1)) else (?h, addr l, ipos))"
      using True False L
      by (simp add: nh_rebalance_right_def Let_def k_def[symmetric] split del: if_split)
    ultimately show ?thesis
      using rebalancedI[OF t'(1) L(12,13)] cs num by simp
  qed
next
  case False
  then show ?thesis using inner_reads(3)[OF assms(1,2)] by (simp add: child_moved_def nh_rebalance_right_def rebalance_right_def)
qed

lemma left_rebalanced:
  assumes "stored h t" "\<not> is_leaf (erase t)" "same_level t" "0 < pos" "pos \<le> num_items (erase t)"
    "num_items (child (erase t) pos) = max_items (child (erase t) pos)"
  shows "child_moved h t (rebalance_child pos ipos (erase t)) (nh_rebalance_child (addr t) pos ipos h)"
proof -
  obtain i where i: "pos = Suc i" using assms(4) gr0_implies_Suc by blast
  with assms(5) have "Suc i \<le> num_items (erase t)" by simp
  then obtain xs l q ys where cs: "length xs = i" and lq: "siblings h t xs l q ys"
    using siblings_at[OF assms(1-3)] by metis
  note L = siblingsD[OF assms(1,2) lq, unfolded cs]
  define k where "k = moves_for_insert (available_slots (erase l)) (ipos = num_items (erase q))"
  have full: "num_items (erase q) = max_items (erase q)" using assms(6) L(9) i by simp
  have bounds: "k \<le> num_items (erase q)" "num_items (erase l) + k \<le> max_items (erase l)"
    using moves_le[of "available_slots (erase l)" "ipos = num_items (erase q)"] full L(10,20) by (simp_all add: available_slots_def k_def)
  show ?thesis
  proof (cases "k = 0")
    case True
    have "rebalance_child pos ipos (erase t) = rebalance_right pos ipos (erase t)"
      using True L i by (simp add: rebalance_child_def Let_def k_def[symmetric])
    moreover have "nh_rebalance_child (addr t) pos ipos h = nh_rebalance_right (addr t) pos ipos h"
      using True L i by (simp add: nh_rebalance_child_def Let_def k_def[symmetric])
    ultimately show ?thesis using right_rebalanced[OF assms(1,2,3,5,6)] by simp
  next
    case False
    obtain t' where t': "pair_step h (nh_rebalance_child_to_left (addr t) (Suc (length xs)) k h) t xs l q ys t'"
        "erase t' = rebalance_child_to_left (Suc (length xs)) k (erase t)"
      using left_stored[OF assms(1) L(1,5) _ bounds] False by auto
    let ?h = "nh_rebalance_child_to_left (addr t) pos k h"
    have "rebalance_child pos ipos (erase t) =
        Some (if ipos < k then (erase t', i, num_items (erase l) + ipos + 1) else (erase t', pos, ipos - k))"
      using False L i by (cases "ipos < k") (simp_all add: rebalance_child_def Let_def k_def[symmetric] t'(2)[symmetric, unfolded cs])
    moreover have "nh_rebalance_child (addr t) pos ipos h =
        (if ipos < k then (?h, addr l, num_items (erase l) + ipos + 1) else (?h, addr q, ipos - k))"
      using False L i by (cases "ipos < k") (simp_all add: nh_rebalance_child_def Let_def k_def[symmetric])
    ultimately show ?thesis
      using rebalancedI[OF t'(1) L(12,13)] cs i by simp
  qed
qed

section \<open>Merging or refilling a small child\<close>

text \<open>
  The retired block leaves the tree when two children are merged; else the blocks are the same and no pointer is returned.
\<close>

definition child_merged :: "heap \<Rightarrow> ptree \<Rightarrow> str node \<times> bool \<Rightarrow> heap \<times> u64 \<Rightarrow> bool" where
  "child_merged h t res out \<longleftrightarrow>
     (\<exists>t'. stored (fst out) t' \<and> erase t' = fst res \<and> addr t' = addr t \<and>
        (if snd res then mset (addrs t) = add_mset (snd out) (mset (addrs t'))
         else mset (addrs t') = mset (addrs t) \<and> snd out = 0) \<and>
        (\<forall>b. b \<notin> set (addrs t) \<longrightarrow> fst out b = h b))"

lemma mergedI:
  assumes "stored h t" "\<not> is_leaf (erase t)" "siblings h t xs l r ys" "num_items (erase l) + 1 + num_items (erase r) \<le> max_items (erase l)"
  defines "h1 \<equiv> nh_merge_from_right (addr l) (pkeys t ! length xs) (addr r) h"
  shows "child_merged h t
    (shift_left (length xs) True (set_child (length xs) (merge_from_right (pkeys t ! length xs) (erase r) (erase l)) (erase t)), True)
    (h1(addr t := nb_shift_left (length xs) True (h1 (addr t))), addr r)"
proof -
  note L = siblingsD[OF assms(1-3)]
  have "addr l \<in> set (addrs t)" "addr r \<in> set (addrs t)"
    using L(12,13) addr_in[of l] addr_in[of r] by (auto simp: addrs_parts[of t] simp del: addr_in)
  then show ?thesis
    using merge_stored[OF assms(1) L(1,5) assms(4)] addr_in[of t] unfolding child_merged_def h1_def fst_conv snd_conv if_True
    by (metis fun_upd_other insert_iff empty_iff)
qed

lemma mergedI_pair:
  assumes "pair_step h h' t xs l r ys t'" "l \<in> set (pchildren t)" "r \<in> set (pchildren t)"
  shows "child_merged h t (erase t', False) (h', 0)"
  unfolding child_merged_def using pair_step_rebalanced[OF assms] by (intro exI[of _ t']) simp

lemma refill_bounds:
  assumes "num_items n < min_items n" "is_leaf n = is_leaf m" "max_items m < num_items n + 1 + num_items m" "num_items m \<le> max_items m"
  defines "k \<equiv> (num_items m - num_items n) div 2"
  shows "0 < k" "k \<le> num_items m" "num_items n + k \<le> max_items n"
  using assms by (cases "is_leaf m"; simp add: min_items_def max_items_def; linarith)+

text \<open>A child with too few items is refilled from the sibling on its right, or on its left.\<close>

lemma refill_merged:
  assumes "stored h t" "\<not> is_leaf (erase t)" "siblings h t xs l r ys" "max_items (erase l) < num_items (erase l) + 1 + num_items (erase r)"
  defines "k \<equiv> (num_items (erase r) - num_items (erase l)) div 2" and "k' \<equiv> (num_items (erase l) - num_items (erase r)) div 2"
  shows "num_items (erase l) < min_items (erase l) \<Longrightarrow>
      child_merged h t (rebalance_child_to_left (Suc (length xs)) k (erase t), False) (nh_rebalance_child_to_left (addr t) (Suc (length xs)) k h, 0)"
    and "num_items (erase r) < min_items (erase r) \<Longrightarrow>
      child_merged h t (rebalance_child_to_right (length xs) k' (erase t), False) (nh_rebalance_child_to_right (addr t) (length xs) k' h, 0)"
proof -
  note L = siblingsD[OF assms(1-3)]
  have leaf: "is_leaf (erase l) = is_leaf (erase r)" using in_heap_sizes(6)[OF L(3)] in_heap_sizes(6)[OF L(4)] L(5) by simp
  show "child_merged h t (rebalance_child_to_left (Suc (length xs)) k (erase t), False) (nh_rebalance_child_to_left (addr t) (Suc (length xs)) k h, 0)"
    if few: "num_items (erase l) < min_items (erase l)"
  proof -
    have "0 < k" "k \<le> num_items (erase r)" "num_items (erase l) + k \<le> max_items (erase l)"
      using refill_bounds[OF few leaf] assms(4) L(10,11) by (simp_all add: k_def)
    then show ?thesis using left_stored[OF assms(1) L(1,5)] mergedI_pair[OF _ L(12,13)] by metis
  qed
  show "child_merged h t (rebalance_child_to_right (length xs) k' (erase t), False) (nh_rebalance_child_to_right (addr t) (length xs) k' h, 0)"
    if few: "num_items (erase r) < min_items (erase r)"
  proof -
    have "0 < k'" "k' \<le> num_items (erase l)" "num_items (erase r) + k' \<le> max_items (erase r)"
      using refill_bounds[OF few leaf[symmetric]] assms(4) L(10,20) by (simp_all add: k'_def)
    then show ?thesis using right_stored[OF assms(1) L(1,5)] mergedI_pair[OF _ L(12,13)] by metis
  qed
qed

lemma merge_left:
  assumes "stored h t" "\<not> is_leaf (erase t)" "same_level t" "Suc i \<le> num_items (erase t)"
    "num_items (child (erase t) (Suc i)) < min_items (child (erase t) (Suc i))"
    "Suc i < num_items (erase t) \<Longrightarrow>
      num_items (child (erase t) i) + 1 + num_items (child (erase t) (Suc i)) \<le> max_items (child (erase t) i)"
  shows "child_merged h t (merge_or_rebalance_child (Suc i) (erase t)) (nh_merge_or_rebalance_child (addr t) (Suc i) h)"
proof -
  obtain xs l q ys where cs: "length xs = i" and lq: "siblings h t xs l q ys"
    using siblings_at[OF assms(1-4)] by metis
  note L = siblingsD[OF assms(1,2) lq, unfolded cs]
  show ?thesis
  proof (cases "num_items (erase l) + 1 + num_items (erase q) \<le> max_items (erase l)")
    case True
    then show ?thesis
      using mergedI[OF assms(1,2) lq] L cs by (simp add: merge_or_rebalance_child_def nh_merge_or_rebalance_child_def Let_def)
  next
    case False
    then have "\<not> Suc i < num_items (erase t)" using assms(6) L(8,9) by auto
    then show ?thesis
      using refill_merged(2)[OF assms(1,2) lq] assms(5) L cs False
      by (simp add: merge_or_rebalance_child_def nh_merge_or_rebalance_child_def Let_def)
  qed
qed

lemma merge_right:
  assumes "stored h t" "\<not> is_leaf (erase t)" "same_level t" "pos < num_items (erase t)"
    "num_items (child (erase t) pos) < min_items (child (erase t) pos)"
    "0 < pos \<Longrightarrow> max_items (child (erase t) (pos - 1)) < num_items (child (erase t) (pos - 1)) + 1 + num_items (child (erase t) pos)"
  shows "child_merged h t (merge_or_rebalance_child pos (erase t)) (nh_merge_or_rebalance_child (addr t) pos h)"
proof -
  note r = inner_reads[OF assms(1,2)]
  obtain xs l q ys where cs: "length xs = pos" and lq: "siblings h t xs l q ys"
    using siblings_at[OF assms(1-3) Suc_leI[OF assms(4)]] by metis
  note L = siblingsD[OF assms(1,2) lq, unfolded cs]
  have prev: "\<not> (0 < pos \<and> nb_num_items (h (nb_child (pos - 1) (h (addr t)))) + 1 + num_items (erase l) \<le> nb_max_items (h (nb_child (pos - 1) (h (addr t)))))"
    using assms(4,6) r(5,6,7)[of "pos - 1"] in_heap_sizes(1,3)[OF r(7)[of "pos - 1"]] L(8) by auto
  show ?thesis
  proof (cases "num_items (erase l) + 1 + num_items (erase q) \<le> max_items (erase l)")
    case True
    then show ?thesis
      using mergedI[OF assms(1,2) lq] L cs assms(4,6) prev
      by (auto simp: merge_or_rebalance_child_def nh_merge_or_rebalance_child_def Let_def)
  next
    case False
    then show ?thesis
      using refill_merged(1)[OF assms(1,2) lq] L cs assms(4-6) prev
      by (auto simp: merge_or_rebalance_child_def nh_merge_or_rebalance_child_def Let_def)
  qed
qed

lemma merge_child:
  assumes "stored h t" "\<not> is_leaf (erase t)" "same_level t" "0 < num_items (erase t)" "pos \<le> num_items (erase t)"
    "num_items (child (erase t) pos) < min_items (child (erase t) pos)"
  shows "child_merged h t (merge_or_rebalance_child pos (erase t)) (nh_merge_or_rebalance_child (addr t) pos h)"
proof (cases "0 < pos \<and> (pos < num_items (erase t) \<longrightarrow>
    num_items (child (erase t) (pos - 1)) + 1 + num_items (child (erase t) pos) \<le> max_items (child (erase t) (pos - 1)))")
  case True
  then obtain i where "pos = Suc i" by (cases pos) auto
  then show ?thesis using merge_left[OF assms(1-3), of i] assms(5,6) True by simp
next
  case False
  then show ?thesis using merge_right[OF assms(1-3), of pos] assms(4-6) by auto
qed

section \<open>Blocks built from nothing\<close>

text \<open>Fresh blocks filled one item after the other, as the tree fills them: they store the items.\<close>

definition leaf_image :: "str list \<Rightarrow> str" where
  "leaf_image xs = fold (\<lambda>x m. nb_leaf_insert (nb_num_items m) x m) xs (nb_new True (replicate 256 0))"

definition inner_image :: "u64 \<Rightarrow> (str \<times> u64) list \<Rightarrow> u32 \<Rightarrow> str" where
  "inner_image p xps c =
     fold (\<lambda>(x, q) m. nb_inner_insert (nb_num_items m) x q m) xps (nb_set_tree_count c (nb_set_child 0 p (nb_new False (replicate 256 0))))"

lemma leaf_image: "length xs \<le> 15 \<Longrightarrow> (\<forall>x \<in> set xs. length x = 16) \<Longrightarrow> block True xs [] 0 (leaf_image xs)"
proof (induction xs rule: rev_induct)
  case Nil
  then show ?case using block_init_single(2)[of "replicate 256 0" "replicate 16 0"] by (simp add: leaf_image_def)
next
  case (snoc x xs)
  then have "block True xs [] 0 (leaf_image xs)" by simp
  then show ?case
    using block_leaf_insert[of xs 0 "leaf_image xs" "length xs" x] blockD(3) snoc.prems by (simp add: leaf_image_def)
qed

lemma inner_image:
  "length xps \<le> 10 \<Longrightarrow> (\<forall>xp \<in> set xps. length (fst xp) = 16) \<Longrightarrow> block False (map fst xps) (p # map snd xps) c (inner_image p xps c)"
proof (induction xps rule: rev_induct)
  case Nil
  let ?new = "nb_new False (replicate 256 0)"
  have "length ?new = 256" "nb_num_items ?new = 0" "\<not> nb_is_leaf ?new"
    by (simp_all add: nb_new_def after_set_leaf after_set_num)
  then show ?case by (simp add: inner_image_def block_def after_set_child after_set_count)
next
  case (snoc xp xps)
  then have "block False (map fst xps) (p # map snd xps) c (inner_image p xps c)" by simp
  then show ?case
    using block_inner_insert[of "map fst xps" "p # map snd xps" c "inner_image p xps c" "length xps" "fst xp" "snd xp"]
      blockD(3) snoc.prems by (simp add: inner_image_def split_beta)
qed

definition sample_key :: "nat \<Rightarrow> str" where
  "sample_key k = replicate 16 (of_nat k)"

text \<open>A parent with two leaves, the left one with \<open>m\<close> items and the right one with \<open>n\<close>.\<close>

definition sample_tree :: "nat \<Rightarrow> nat \<Rightarrow> ptree" where
  "sample_tree m n = PNode 1 False [sample_key m]
     [PNode 2 True (map sample_key [0..<m]) [] 0, PNode 3 True (map sample_key [m + 1..<m + 1 + n]) [] 0] (of_nat (m + 1 + n))"

definition sample_heap :: "nat \<Rightarrow> nat \<Rightarrow> heap" where
  "sample_heap m n =
     (\<lambda>_. replicate 256 0)(1 := inner_image 2 [(sample_key m, 3)] (of_nat (m + 1 + n)),
       2 := leaf_image (map sample_key [0..<m]), 3 := leaf_image (map sample_key [m + 1..<m + 1 + n]))"

lemma sample_stored:
  assumes "m \<le> 15" "n \<le> 15"
  shows "stored (sample_heap m n) (sample_tree m n)"
proof -
  have "block False [sample_key m] [2, 3] (of_nat (m + 1 + n)) (inner_image 2 [(sample_key m, 3)] (of_nat (m + 1 + n)))"
    using inner_image[of "[(sample_key m, 3)]" 2] by (simp add: sample_key_def)
  moreover have "block True (map sample_key xs) [] 0 (leaf_image (map sample_key xs))" if "length xs \<le> 15" for xs
    using leaf_image[of "map sample_key xs"] that by (simp add: sample_key_def)
  ultimately show ?thesis using assms by (simp add: stored_def sample_tree_def sample_heap_def)
qed

section \<open>Properties\<close>

text \<open>
  C11. The edits of one block are the edits of the node.  In a heap that stores a tree, inserting into a leaf, shifting items of a leaf to
  the left, dropping the last one, writing a key of any node, adding to the count of an inner node, and inserting a key and a child
  into an inner node give a heap that stores the tree of the operation on nodes, in the same blocks (and those of the new child); the
  binary search over the bytes is the search over the keys.
\<close>
theorem node_edits_in_memory:
  assumes "stored h t" "length x = 16"
  shows "(is_leaf (erase t) \<and> i \<le> num_items (erase t) \<and> num_items (erase t) < kMaxLeafKeys \<longrightarrow>
           edits h t (nb_leaf_insert i x (h (addr t))) (leaf_insert i x (erase t))) \<and>
    (is_leaf (erase t) \<and> i < num_items (erase t) \<longrightarrow>
           edits h t (nb_shift_left i s (h (addr t))) (shift_left i s (erase t))) \<and>
    (is_leaf (erase t) \<and> 0 < num_items (erase t) \<longrightarrow>
           edits h t (nb_leaf_erase_right (h (addr t))) (leaf_erase_right (erase t))) \<and>
    (i < num_items (erase t) \<longrightarrow> edits h t (nb_set_key i x (h (addr t))) (set_key i x (erase t))) \<and>
    (\<not> is_leaf (erase t) \<longrightarrow> edits h t (nb_increase_tree_count d (h (addr t))) (increase_tree_count d (erase t))) \<and>
    (0 < num_items (erase t) \<longrightarrow> nb_bsearch cmp_op (h (addr t)) = bsearch cmp_op (erase t)) \<and>
    (\<not> is_leaf (erase t) \<and> i \<le> num_items (erase t) \<and> num_items (erase t) < kMaxInnerKeys \<and>
       stored h t2 \<and> set (addrs t) \<inter> set (addrs t2) = {} \<longrightarrow>
         (\<exists>t'. stored (h(addr t := nb_inner_insert i x (addr t2) (h (addr t)))) t' \<and>
            erase t' = inner_insert i x (erase t2) (erase t) \<and> addr t' = addr t \<and> mset (addrs t') = mset (addrs t @ addrs t2)))"
proof (intro conjI impI)
  have t: "in_heap h t" using assms(1) by (simp add: stored_def)
  note root = in_heap_root[OF t] and n = in_heap_sizes(7)[OF t]
  show "edits h t (nb_set_key i x (h (addr t))) (set_key i x (erase t))" if "i < num_items (erase t)"
    using stored_set_key[OF assms(1) _ assms(2), of i] that n addrs_parts[of t]
    by (auto simp: edits_def intro!: exI[of _ "PNode (addr t) (pleaf t) ((pkeys t)[i := x]) (pchildren t) (pcount t)"] simp del: erase.simps)
  show "edits h t (nb_increase_tree_count d (h (addr t))) (increase_tree_count d (erase t))" if inner: "\<not> is_leaf (erase t)"
    by (rule count_edits[OF assms(1) inner])
  show "nb_bsearch cmp_op (h (addr t)) = bsearch cmp_op (erase t)" if "0 < num_items (erase t)"
  proof (rule block_bsearch[OF root])
    show "pkeys t \<noteq> []" using that n by auto
  qed (cases t, simp)
qed (use leaf_edits[OF assms(1)] inner_insert_stored[OF assms(1), of t2 i x] assms(2) in blast)+

theorem node_edits_in_memory_witness:
  "edits (sample_heap 2 0) (PNode 2 True (map sample_key [0..<2]) [] 0)
     (nb_leaf_insert 2 (sample_key 7) (sample_heap 2 0 2)) (Leaf (map sample_key [0, 1, 7])) \<and>
   nb_bsearch (\<lambda>_. 0) (sample_heap 2 0 2) = (1, True)"
proof -
  let ?t = "PNode 2 True (map sample_key [0..<2]) [] 0"
  have st: "stored (sample_heap 2 0) ?t" using sample_stored[of 2 0] by (simp add: stored_def sample_tree_def)
  have x: "length (sample_key 7) = 16" by (simp add: sample_key_def)
  show ?thesis
    using node_edits_in_memory[OF st x, of 2 False 0 "\<lambda>_. 0" ?t]
    by (simp add: num_items_def leaf_insert_def bsearch_def Let_def numeral_2_eq_2 upt_rec)
qed

text \<open>
  Split over a fresh block: the heap stores the left node in the old block and the right one in the fresh block, they share no block,
  the key between them is returned, and no other block is written.
\<close>
theorem split_in_memory:
  assumes "stored h t" "right \<notin> set (addrs t)" "length (h right) = 256" "0 < num_items (erase t)"
  shows "\<exists>m h' l r. nh_split (addr t) right h = (m, h') \<and> split_node (erase t) = (erase l, m, erase r) \<and>
    addr l = addr t \<and> addr r = right \<and> stored h' l \<and> stored h' r \<and>
    set (addrs l) \<inter> set (addrs r) = {} \<and> mset (addrs l @ addrs r) = add_mset right (mset (addrs t)) \<and>
    (\<forall>b. b \<noteq> addr t \<longrightarrow> b \<noteq> right \<longrightarrow> h' b = h b)"
  using split_stored[OF assms] unfolding stored_def distinct_append by blast

theorem split_in_memory_witness:
  "\<exists>m h' l r. nh_split 1 9 (sample_heap 7 6) = (m, h') \<and>
     split_node (erase (sample_tree 7 6)) = (erase l, m, erase r) \<and> stored h' l \<and> stored h' r"
proof -
  have "stored (sample_heap 7 6) (sample_tree 7 6)" by (rule sample_stored) simp_all
  moreover have "addr (sample_tree 7 6) = 1" "9 \<notin> set (addrs (sample_tree 7 6))" "length (sample_heap 7 6 9) = 256"
    "0 < num_items (erase (sample_tree 7 6))"
    by (simp_all add: sample_tree_def sample_heap_def num_items_def)
  ultimately show ?thesis using split_in_memory[of "sample_heap 7 6" "sample_tree 7 6" 9] by metis
qed

text \<open>
  C10. Moving and merging children in memory.  RebalanceChild on a full child and MergeOrRebalanceChild on one with too few items, run on
  a heap that stores the parent's tree, give a heap that stores the tree of the operation on nodes: the same result, the same position,
  the pointer of the child that was chosen, the same blocks except for the one that was retired, and no write outside of them.  The
  null pointer says that nothing was done, or that no block was retired.
\<close>
theorem children_move_in_memory:
  assumes "stored h t" "\<not> is_leaf (erase t)" "same_level t" "0 < num_items (erase t)" "pos \<le> num_items (erase t)"
  shows "(num_items (child (erase t) pos) = max_items (child (erase t) pos) \<longrightarrow>
      child_moved h t (rebalance_child pos ipos (erase t)) (nh_rebalance_child (addr t) pos ipos h)) \<and>
    (num_items (child (erase t) pos) < min_items (child (erase t) pos) \<longrightarrow>
      child_merged h t (merge_or_rebalance_child pos (erase t)) (nh_merge_or_rebalance_child (addr t) pos h))"
proof (intro conjI impI)
  show "child_moved h t (rebalance_child pos ipos (erase t)) (nh_rebalance_child (addr t) pos ipos h)"
    if full: "num_items (child (erase t) pos) = max_items (child (erase t) pos)"
    using left_rebalanced[OF assms(1-3) _ assms(5) full] right_rebalanced[OF assms(1-3,5) full]
    by (cases "pos = 0") (simp_all add: rebalance_child_def nh_rebalance_child_def)
qed (rule merge_child[OF assms])

theorem children_move_in_memory_witness:
  "child_moved (sample_heap 7 15) (sample_tree 7 15) (rebalance_child 1 15 (erase (sample_tree 7 15))) (nh_rebalance_child 1 1 15 (sample_heap 7 15)) \<and>
   rebalance_child 1 15 (erase (sample_tree 7 15)) \<noteq> None \<and>
   child_merged (sample_heap 7 6) (sample_tree 7 6) (merge_or_rebalance_child 1 (erase (sample_tree 7 6))) (nh_merge_or_rebalance_child 1 1 (sample_heap 7 6))"
proof -
  let ?t = "sample_tree 7 15" and ?u = "sample_tree 7 6"
  have "stored (sample_heap 7 15) ?t" "stored (sample_heap 7 6) ?u" by (rule sample_stored; simp)+
  moreover have "\<not> is_leaf (erase ?t)" "same_level ?t" "0 < num_items (erase ?t)" "1 \<le> num_items (erase ?t)" "addr ?t = 1"
    "num_items (child (erase ?t) 1) = max_items (child (erase ?t) 1)" "available_slots (child (erase ?t) 0) = 8"
    "num_items (child (erase ?t) 1) = 15" "\<not> is_leaf (erase ?u)" "same_level ?u" "0 < num_items (erase ?u)" "1 \<le> num_items (erase ?u)"
    "addr ?u = 1" "num_items (child (erase ?u) 1) < min_items (child (erase ?u) 1)"
    by (simp_all add: sample_tree_def same_level_def num_items_def child_def max_items_def min_items_def available_slots_def)
  ultimately show ?thesis
    using children_move_in_memory[of "sample_heap 7 15" ?t 1 15] children_move_in_memory[of "sample_heap 7 6" ?u 1 15]
    by (simp add: rebalance_child_def moves_for_insert_def Let_def)
qed

end
