(* ===== verification/BPlus_Tree.thy ===== *)
theory BPlus_Tree
  imports BPlus_Node
begin

text \<open>
  \<^verbatim>\<open>src/zset/bplustree.hpp\<close> and the paths of \<^verbatim>\<open>bplustree_internal.hpp\<close>: locating, inserting and deleting
  an item.  A path is the list of its records with the last one first, so \<^verbatim>\<open>Push\<close> and \<^verbatim>\<open>Pop\<close> are cons and
  tail.  The code changes the nodes a path points to in place; here the changed node is put back into
  its parent, record by record, which yields the new root.
\<close>

section \<open>State\<close>

type_synonym 'a path = "('a node \<times> nat) list"

record 'a bptree =
  bt_root :: "'a node option"
  bt_count :: u32
  bt_height :: u32
  bt_nodes :: u32

definition bt_new :: "'a bptree" where
  "bt_new = \<lparr>bt_root = None, bt_count = 0, bt_height = 0, bt_nodes = 0\<rparr>"

text \<open>The three-way comparators of both policies: query on the left, key on the right.\<close>

definition compare_to :: "('a \<Rightarrow> 'a \<Rightarrow> bool) \<Rightarrow> 'a \<Rightarrow> 'a \<Rightarrow> int" where
  "compare_to lt a b = (if lt a b then -1 else if lt b a then 1 else 0)"

section \<open>Paths\<close>

lemma child_smaller: "i < length (node_children n) \<Longrightarrow> size (child n i) < size n"
proof (cases n)
  case (Inner ks cs c)
  assume "i < length (node_children n)"
  then have "child n i \<in> set cs" by (simp add: Inner child_def)
  moreover have "x \<in> set cs \<Longrightarrow> size x < Suc (length ks + size_list size cs)" for x :: "'a node"
    by (induction cs) auto
  ultimately show ?thesis by (simp add: Inner)
qed simp

text \<open>
  \<^verbatim>\<open>Locate\<close> below a node.  (An index beyond the children, which the code asserts away, ends the search.)
\<close>

function locate_from :: "('a \<Rightarrow> int) \<Rightarrow> 'a node \<Rightarrow> 'a path \<Rightarrow> bool \<times> 'a path" where
  "locate_from cmp node path =
     (let (i, found) = bsearch cmp node; path' = (node, i) # path in
      if found then (True, path')
      else if is_leaf node then (False, path')
      else if i < length (node_children node) then locate_from cmp (child node i) path'
      else (False, path'))"
  by auto
termination by (relation "measure (\<lambda>(_, n, _). size n)") (auto intro: child_smaller)

declare locate_from.simps [simp del]

text \<open>\<^verbatim>\<open>DigRight\<close> from a child: always the rightmost child, ending on the last key of the leaf.\<close>

function dig_right :: "'a node \<Rightarrow> 'a path \<Rightarrow> 'a path" where
  "dig_right node path =
     (if is_leaf node then (node, num_items node - 1) # path
      else if num_items node < length (node_children node)
        then dig_right (child node (num_items node)) ((node, num_items node) # path)
      else (node, num_items node) # path)"
  by auto
termination by (relation "measure (\<lambda>(n, _). size n)") (auto intro: child_smaller)

declare dig_right.simps [simp del]

text \<open>
  A changed node goes back into its parent, and \<^verbatim>\<open>IncreaseSubtreeCounts\<close> adjusts every ancestor.
\<close>

fun rebuild :: "u32 \<Rightarrow> 'a path \<Rightarrow> 'a node \<Rightarrow> 'a node" where
  "rebuild d [] n = n"
| "rebuild d ((p, i) # ups) n = rebuild d ups (increase_tree_count d (set_child i n p))"

section \<open>Insert\<close>

text \<open>\<^verbatim>\<open>RebalanceLeafAndInsert\<close> and the update of the ancestors' counts.\<close>

definition rebalance_leaf_and_insert :: "'a path \<Rightarrow> 'a \<Rightarrow> nat \<Rightarrow> 'a node option" where
  "rebalance_leaf_and_insert ups item insert_pos =
     (case ups of
        [] \<Rightarrow> None
      | (parent, pos) # ups' \<Rightarrow>
          (case rebalance_child pos insert_pos parent of
             None \<Rightarrow> None
           | Some (parent', q, j) \<Rightarrow>
               Some (rebuild 1 ups' (increase_tree_count 1
                 (set_child q (leaf_insert j item (child parent' q)) parent')))))"

text \<open>
  A full inner node, rebalanced via its parent so that \<open>median\<close> and \<open>right\<close> find room, in it or in the
  sibling the slot moved to; in that case both counts are corrected for \<open>right\<close>.
\<close>

definition insert_rebalanced :: "'a path \<Rightarrow> 'a node \<Rightarrow> nat \<Rightarrow> 'a \<Rightarrow> 'a node \<Rightarrow> 'a node option" where
  "insert_rebalanced ups node pos median right =
     (case ups of
        [] \<Rightarrow> None
      | (parent, parent_pos) # ups' \<Rightarrow>
          (case rebalance_child parent_pos pos (set_child parent_pos node parent) of
             None \<Rightarrow> None
           | Some (parent', q, inner_pos) \<Rightarrow>
               (let new_node = inner_insert inner_pos median right (child parent' q);
                    parent'' =
                      (if q \<noteq> parent_pos then
                         set_child q (increase_tree_count (tree_count right + 1) new_node)
                           (set_child parent_pos
                             (increase_tree_count (- tree_count right) (child parent' parent_pos)) parent')
                       else set_child q (increase_tree_count 1 new_node) parent')
                in Some (rebuild 1 ups' (increase_tree_count 1 parent'')))))"

text \<open>
  The loop of \<^verbatim>\<open>InsertToFullLeaf\<close>: the last node was split into itself (\<open>left\<close>), \<open>median\<close> and \<open>right\<close>.
  The result is the new root, the number of nodes created and whether the tree grew.
\<close>

fun insert_up :: "'a path \<Rightarrow> 'a node \<Rightarrow> 'a \<Rightarrow> 'a node \<Rightarrow> 'a node \<times> nat \<times> bool" where
  "insert_up [] left median right =
     (Inner [median] [left, right] (tree_count left + tree_count right + 1), 1, True)"
| "insert_up ((p, pos) # ups) left median right =
     (let node = set_child pos left p in
      if num_items node < kMaxInnerKeys then
        (rebuild 1 ups (increase_tree_count 1 (inner_insert pos median right node)), 0, False)
      else
        (case insert_rebalanced ups node pos median right of
           Some root \<Rightarrow> (root, 0, False)
         | None \<Rightarrow>
             (let (node', next_median, next_right) = split_node node;
                  (l, r) =
                    (if pos \<le> num_items node' then
                       (increase_tree_count 1 (inner_insert pos median right node'), next_right)
                     else
                       (increase_tree_count (- tree_count right) node',
                        increase_tree_count (tree_count right + 1)
                          (inner_insert (pos - num_items node' - 1) median right next_right)));
                  (root, created, grown) = insert_up ups l next_median r
              in (root, created + 1, grown))))"

definition insert_to_full_leaf :: "'a \<Rightarrow> 'a node \<Rightarrow> nat \<Rightarrow> 'a path \<Rightarrow> 'a node \<times> nat \<times> bool" where
  "insert_to_full_leaf item leaf insert_pos ups =
     (case rebalance_leaf_and_insert ups item insert_pos of
        Some root \<Rightarrow> (root, 0, False)
      | None \<Rightarrow>
          (let (node, median, right) = split_node leaf;
               (l, r) =
                 (if insert_pos \<le> num_items node then (leaf_insert insert_pos item node, right)
                  else (node, leaf_insert (insert_pos - num_items node - 1) item right));
               (root, created, grown) = insert_up ups l median r
           in (root, created + 1, grown)))"

definition bt_insert :: "('a \<Rightarrow> 'a \<Rightarrow> bool) \<Rightarrow> 'a \<Rightarrow> 'a bptree \<Rightarrow> bool \<times> 'a bptree" where
  "bt_insert lt item t =
     (case bt_root t of
        None \<Rightarrow>
          (True, t\<lparr>bt_root := Some (Leaf [item]), bt_count := 1, bt_height := 1, bt_nodes := bt_nodes t + 1\<rparr>)
      | Some root \<Rightarrow>
          (case locate_from (compare_to lt item) root [] of
             (False, (leaf, pos) # ups) \<Rightarrow>
               if num_items leaf = kMaxLeafKeys then
                 (let (root', created, grown) = insert_to_full_leaf item leaf pos ups
                  in (True, t\<lparr>bt_root := Some root', bt_count := bt_count t + 1,
                              bt_height := bt_height t + of_bool grown,
                              bt_nodes := bt_nodes t + of_nat created\<rparr>))
               else
                 (True, t\<lparr>bt_root := Some (rebuild 1 ups (leaf_insert pos item leaf)), bt_count := bt_count t + 1\<rparr>)
           | _ \<Rightarrow> (False, t)))"

section \<open>Delete\<close>

text \<open>
  The loop of \<^verbatim>\<open>Delete\<close>: the node whose items changed, and the path above it.  The result is the new root,
  whether the tree lost a level and the number of nodes destroyed.
\<close>

fun delete_up :: "'a node \<Rightarrow> 'a path \<Rightarrow> 'a node option \<times> bool \<times> nat" where
  "delete_up n [] =
     (if num_items n < min_items n \<and> num_items n = 0 then
        (if is_leaf n then None else Some (child n 0), True, 1)
      else (Some n, False, 0))"
| "delete_up n ((parent, pos) # ups) =
     (if num_items n < min_items n then
        (let (parent', retired) = merge_or_rebalance_child pos (set_child pos n parent);
             parent'' = increase_tree_count (- 1) parent'
         in if retired then
              (let (root, shrunk, destroyed) = delete_up parent'' ups in (root, shrunk, destroyed + 1))
            else (Some (rebuild (- 1) ups parent''), False, 0))
      else (Some (rebuild (- 1) ((parent, pos) # ups) n), False, 0))"

text \<open>
  Removing the key at the end of a path: from its leaf, or, for a separator, by putting the greatest key
  of the subtree before it in its place and taking that key from its leaf.
\<close>

definition delete_key :: "'a path \<Rightarrow> 'a node option \<times> bool \<times> nat" where
  "delete_key path =
     (case path of
        [] \<Rightarrow> (None, False, 0)
      | (node, key_pos) # ups \<Rightarrow>
          if is_leaf node then delete_up (shift_left key_pos False node) ups
          else
            (case dig_right (child node key_pos) [] of
               [] \<Rightarrow> (None, False, 0)
             | (leaf, _) # between \<Rightarrow>
                 delete_up (leaf_erase_right leaf)
                   (between @ (set_key key_pos (last (node_keys leaf)) node, key_pos) # ups)))"

definition bt_delete_at :: "'a path \<Rightarrow> 'a bptree \<Rightarrow> 'a bptree" where
  "bt_delete_at path t =
     (let (root, shrunk, destroyed) = delete_key path
      in t\<lparr>bt_root := root, bt_count := bt_count t - 1, bt_height := bt_height t - of_bool shrunk,
           bt_nodes := bt_nodes t - of_nat destroyed\<rparr>)"

definition bt_delete :: "('a \<Rightarrow> 'a \<Rightarrow> bool) \<Rightarrow> 'a \<Rightarrow> 'a bptree \<Rightarrow> bool \<times> 'a bptree" where
  "bt_delete lt item t =
     (case bt_root t of
        None \<Rightarrow> (False, t)
      | Some root \<Rightarrow>
          (case locate_from (compare_to lt item) root [] of
             (True, path) \<Rightarrow> (True, bt_delete_at path t)
           | (False, _) \<Rightarrow> (False, t)))"

text \<open>\<^verbatim>\<open>Contains\<close>; an empty tree is an assertion failure (a null pointer) in \<^verbatim>\<open>Locate\<close>, here \<open>None\<close>.\<close>

definition bt_contains :: "('a \<Rightarrow> 'a \<Rightarrow> bool) \<Rightarrow> 'a \<Rightarrow> 'a bptree \<Rightarrow> bool option" where
  "bt_contains lt item t =
     (case bt_root t of
        None \<Rightarrow> None
      | Some root \<Rightarrow> Some (fst (locate_from (compare_to lt item) root [])))"

text \<open>
  \<^verbatim>\<open>Clear\<close>: the loop visits the nodes with an explicit path, children before their parent, and destroys
  each; it returns their number, and \<open>None\<close> when the fuel runs out.
\<close>

function deep_left :: "'a node \<Rightarrow> 'a path \<Rightarrow> 'a node \<times> 'a path" where
  "deep_left node path =
     (if \<not> is_leaf node \<and> 0 < length (node_children node) then deep_left (child node 0) ((node, 0) # path)
      else (node, path))"
  by auto
termination by (relation "measure (\<lambda>(n, _). size n)") (auto intro: child_smaller)

declare deep_left.simps [simp del]

fun clear_loop :: "nat \<Rightarrow> 'a node \<Rightarrow> 'a path \<Rightarrow> nat \<Rightarrow> nat option" where
  "clear_loop 0 node path destroyed = None"
| "clear_loop (Suc fuel) node path destroyed =
     (case path of
        [] \<Rightarrow> Some (destroyed + 1)
      | (n, pos) # ups \<Rightarrow>
          if pos < num_items n then
            (let (node', path') = deep_left (child n (pos + 1)) ((n, pos + 1) # ups)
             in clear_loop fuel node' path' (destroyed + 1))
          else clear_loop fuel n ups (destroyed + 1))"

fun node_total :: "'a node \<Rightarrow> nat" where
  "node_total (Leaf ks) = 1"
| "node_total (Inner ks cs c) = Suc (sum_list (map node_total cs))"

definition bt_clear :: "'a bptree \<Rightarrow> 'a bptree" where
  "bt_clear t =
     (case bt_root t of
        None \<Rightarrow> t
      | Some root \<Rightarrow>
          (let (node, path) = deep_left root []; destroyed = clear_loop (node_total root) node path 0
           in t\<lparr>bt_root := None, bt_count := 0, bt_height := 0, bt_nodes := bt_nodes t - of_nat (the destroyed)\<rparr>))"

definition bt_size :: "'a bptree \<Rightarrow> u32" where
  "bt_size t = bt_count t"

section \<open>Putting a node back\<close>

text \<open>The items of the tree as a function of those of the node at the end of a path.\<close>

fun ctx :: "'a path \<Rightarrow> 'a list \<Rightarrow> 'a list" where
  "ctx [] z = z"
| "ctx ((p, i) # ups) z = ctx ups (slot p i z)"

definition root_ok :: "'a node \<Rightarrow> bool" where
  "root_ok n \<longleftrightarrow> 1 \<le> num_items n \<and> num_items n \<le> max_items n"

text \<open>Filled as a node with these ancestors has to be.\<close>

definition fill_ok :: "'a path \<Rightarrow> 'a node \<Rightarrow> bool" where
  "fill_ok ups n = (if ups = [] then root_ok n else filled n)"

text \<open>\<open>n\<close>, of height \<open>h\<close>, is the node at the end of the path \<open>ups\<close> of well-formed nodes.\<close>

fun chain :: "nat \<Rightarrow> 'a node \<Rightarrow> 'a path \<Rightarrow> bool" where
  "chain h n [] \<longleftrightarrow> True"
| "chain h n ((p, i) # ups) \<longleftrightarrow>
     node_ok (Suc h) 0 p \<and> i \<le> num_items p \<and> child p i = n \<and> fill_ok ups p \<and> chain (Suc h) p ups"

text \<open>
  The same with the parent's child only as large as the node at the end: what is needed where that node
  has been changed and is going to be put back.
\<close>

fun loose_chain :: "nat \<Rightarrow> 'a node \<Rightarrow> 'a path \<Rightarrow> bool" where
  "loose_chain h n [] \<longleftrightarrow> True"
| "loose_chain h n ((p, i) # ups) \<longleftrightarrow>
     node_ok (Suc h) 0 p \<and> i \<le> num_items p \<and> length (inorder (child p i)) = length (inorder n)
     \<and> fill_ok ups p \<and> loose_chain (Suc h) p ups"

lemma chain_loose: "chain h n ups \<Longrightarrow> loose_chain h n ups"
  by (induction h n ups rule: chain.induct) auto

lemma loose_chain_cong: "length (inorder m) = length (inorder n) \<Longrightarrow> loose_chain h m ups = loose_chain h n ups"
  by (cases ups) auto

definition tree_ok :: "nat \<Rightarrow> 'a node \<Rightarrow> bool" where
  "tree_ok h n \<longleftrightarrow> node_ok h 0 n \<and> root_ok n"

lemma node_ok_is_inner: "node_ok (Suc h) d p \<Longrightarrow> is_inner p"
  unfolding is_inner_def by simp

lemma node_ok_child:
  "node_ok (Suc h) d p \<Longrightarrow> i \<le> num_items p \<Longrightarrow> node_ok h 0 (child p i) \<and> filled (child p i)"
  by (simp add: child_def)

lemma slot_length:
  assumes "node_ok h d n" and "i \<le> num_items n"
  shows "length (slot n i z) + length w = length (slot n i w) + length z"
proof -
  obtain a b where "\<And>z. slot n i z = a @ z @ b" using slot_split[OF assms] by blast
  then show ?thesis by simp
qed

lemma slot_child: "node_ok (Suc h) d p \<Longrightarrow> i \<le> num_items p \<Longrightarrow> slot p i (inorder (child p i)) = inorder p"
  using slot_same[of "Suc h" d p i] by (simp add: parts_inner child_def)

text \<open>Replacing one child.\<close>

lemma set_child_sel:
  assumes "is_inner p" and "i \<le> num_items p"
  shows "is_inner (set_child i n p)" and "num_items (set_child i n p) = num_items p"
    and "inner_count (set_child i n p) = inner_count p" and "inorder (set_child i n p) = slot p i (inorder n)"
    and "slot (set_child i n p) i z = slot p i z"
    and "child (set_child i n p) j = (if j = i then n else child p j)"
    and "node_keys (set_child i n p) = node_keys p" and "is_leaf (set_child i n p) = is_leaf p"
proof -
  obtain ks cs c where p: "p = Inner ks cs c" using assms(1) by (cases p) (simp_all add: is_inner_def)
  have len: "length cs = Suc (length ks)" "i < length cs" using assms by (simp_all add: p is_inner_def)
  show "is_inner (set_child i n p)" "num_items (set_child i n p) = num_items p"
    "inner_count (set_child i n p) = inner_count p" "inorder (set_child i n p) = slot p i (inorder n)"
    "slot (set_child i n p) i z = slot p i z"
    "child (set_child i n p) j = (if j = i then n else child p j)"
    "node_keys (set_child i n p) = node_keys p" "is_leaf (set_child i n p) = is_leaf p"
    using len by (simp_all add: p set_child_def is_inner_def slot_def parts_def map_update child_def)
qed

text \<open>Well-formedness of an inner node, child by child.\<close>

lemma node_ok_children:
  assumes "is_inner p" and "all_filled h p" and "inner_count p = of_nat (length (inorder p)) + d"
  shows "node_ok (Suc h) d p"
proof -
  have "node_ok h 0 c \<and> filled c" if "c \<in> set (node_children p)" for c
    using assms(1,2) that by (auto simp: all_filled_def child_def in_set_conv_nth less_Suc_eq_le)
  then show ?thesis using assms by simp
qed

lemma all_filled_set_child:
  assumes "is_inner p" and "i \<le> num_items p" and "\<forall>j \<le> num_items p. j \<noteq> i \<longrightarrow> node_ok h 0 (child p j) \<and> filled (child p j)"
    and "node_ok h 0 n" and "filled n"
  shows "all_filled h (set_child i n p)"
  using assms by (simp add: all_filled_def set_child_sel)

lemma set_child_ok:
  assumes "node_ok (Suc h) e p" and "i \<le> num_items p" and "node_ok h 0 n" and "filled n"
  shows "node_ok (Suc h) (e + tree_count (child p i) - tree_count n) (set_child i n p)"
proof -
  have inn: "is_inner p" using assms(1) by (rule node_ok_is_inner)
  have c: "node_ok h 0 (child p i)" using node_ok_child[OF assms(1,2)] ..
  have "length (slot p i (inorder n)) + length (inorder (child p i)) = length (inorder p) + length (inorder n)"
    using slot_length[OF assms(1,2), of "inorder n" "inorder (child p i)"] slot_child[OF assms(1,2)] by simp
  from arg_cong[OF this, of "of_nat :: nat \<Rightarrow> u32"]
  have "of_nat (length (slot p i (inorder n))) + tree_count (child p i) = (of_nat (length (inorder p)) + tree_count n :: u32)"
    using tree_count_ok[OF c] tree_count_ok[OF assms(3)] by simp
  moreover have "inner_count p = of_nat (length (inorder p)) + e" using assms(1) by simp
  ultimately have "inner_count (set_child i n p) = of_nat (length (inorder (set_child i n p))) + (e + tree_count (child p i) - tree_count n)"
    using set_child_sel[OF inn assms(2)] by (simp add: algebra_simps)
  then show ?thesis
    using assms inn node_ok_child[OF assms(1)]
    by (intro node_ok_children all_filled_set_child) (simp_all add: set_child_sel)
qed

lemma increase_zero:
  assumes "node_ok (Suc h) d p" and "d + e = 0"
  shows "node_ok (Suc h) 0 (increase_tree_count e p)" and "inorder (increase_tree_count e p) = inorder p"
    and "num_items (increase_tree_count e p) = num_items p" and "filled (increase_tree_count e p) = filled p"
    and "is_leaf (increase_tree_count e p) = is_leaf p"
  using increase_count_ok[OF assms(1), of e] assms(2) by (simp_all add: increase_tree_count_def)

lemma fill_ok_cong:
  "num_items m = num_items n \<Longrightarrow> is_leaf m = is_leaf n \<Longrightarrow> fill_ok ups m = fill_ok ups n"
  by (simp add: fill_ok_def root_ok_def filled_def max_items_def)

lemma rebuild_loose_ok:
  assumes "loose_chain h n ups" and "node_ok h 0 n" and "node_ok h 0 n'" and "fill_ok ups n'"
    and "tree_count n' = tree_count n + d"
  shows "tree_ok (h + length ups) (rebuild d ups n') \<and> inorder (rebuild d ups n') = ctx ups (inorder n')"
  using assms
proof (induction ups arbitrary: h n n')
  case Nil
  then show ?case by (simp add: tree_ok_def fill_ok_def)
next
  case (Cons r ups)
  obtain p i where r: "r = (p, i)" by (cases r)
  have p: "node_ok (Suc h) 0 p" "i \<le> num_items p" "length (inorder (child p i)) = length (inorder n)"
      "fill_ok ups p" "loose_chain (Suc h) p ups"
    using Cons.prems(1) by (simp_all add: r)
  have "node_ok h 0 (child p i)" using node_ok_child[OF p(1,2)] ..
  then have tc: "tree_count (child p i) = tree_count n"
    using tree_count_ok[of h 0 "child p i"] tree_count_ok[OF Cons.prems(2)] p(3) by simp
  have "filled n'" using Cons.prems(4) by (simp add: fill_ok_def)
  from set_child_ok[OF p(1,2) Cons.prems(3) this] have "node_ok (Suc h) (- d) (set_child i n' p)"
    using Cons.prems(5) tc by simp
  then have q: "node_ok (Suc h) 0 (increase_tree_count d (set_child i n' p))"
      "inorder (increase_tree_count d (set_child i n' p)) = slot p i (inorder n')"
      "num_items (increase_tree_count d (set_child i n' p)) = num_items p"
      "is_leaf (increase_tree_count d (set_child i n' p)) = is_leaf p"
    using increase_zero[of h "- d" "set_child i n' p" d] set_child_sel[OF node_ok_is_inner[OF p(1)] p(2)] by simp_all
  have "tree_count (increase_tree_count d (set_child i n' p)) = tree_count p + d"
    using p(1) q(4) set_child_sel(3)[OF node_ok_is_inner[OF p(1)] p(2)]
    by (simp add: tree_count_def) (simp add: increase_tree_count_def set_child_sel[OF node_ok_is_inner[OF p(1)] p(2)])
  then show ?case
    using Cons.IH[OF p(5) p(1) q(1)] p(4) q fill_ok_cong[OF q(3,4)] by (simp add: r)
qed

lemma rebuild_ok:
  assumes "chain h n ups" and "node_ok h 0 n" and "node_ok h 0 n'" and "fill_ok ups n'"
    and "tree_count n' = tree_count n + d"
  shows "tree_ok (h + length ups) (rebuild d ups n') \<and> inorder (rebuild d ups n') = ctx ups (inorder n')"
  using rebuild_loose_ok[OF chain_loose[OF assms(1)] assms(2-5)] .

section \<open>Insert keeps the tree well formed\<close>

lemma node_okD:
  assumes "node_ok (Suc h) d p"
  shows "is_inner p" and "\<not> is_leaf p" and "inner_count p = of_nat (length (inorder p)) + d"
  using assms node_ok_is_inner[OF assms] by simp_all

declare node_ok.simps(2) [simp del] is_inner_simps [simp del]

lemma increase_sel [simp]:
  "is_leaf (increase_tree_count e p) = is_leaf p" "num_items (increase_tree_count e p) = num_items p"
  "inorder (increase_tree_count e p) = inorder p"
  by (cases p; simp add: increase_tree_count_def)+

lemma family_set_child:
  assumes "node_ok (Suc h) 0 p" and "i \<le> num_items p" and "node_ok h d n"
  shows "family h d i (set_child i n p)"
  using node_ok_child[OF assms(1)] assms set_child_sel[OF node_ok_is_inner[OF assms(1)] assms(2)]
  by (simp add: family_def)

lemma family_same: "node_ok (Suc h) 0 p \<Longrightarrow> i \<le> num_items p \<Longrightarrow> family h 0 i p"
  using node_ok_child[of h 0 p] node_ok_is_inner[of h 0 p] by (simp add: family_def)

text \<open>
  After \<^verbatim>\<open>RebalanceChild\<close> the item count of the parent is restored once the slot it returned is filled with
  one item more than before.
\<close>

lemma filled_after_rebalance:
  assumes old: "node_ok (Suc h) 0 p" and pos: "pos \<le> num_items p"
    and new: "is_inner m" "num_items m = num_items p" "inner_count m = inner_count p" "all_filled h m"
    and ino: "inorder m = slot p pos w" and len: "length w = Suc (length (inorder (child p pos)))"
  shows "node_ok (Suc h) (- 1) m"
proof (rule node_ok_children[OF new(1,4)])
  have "length (slot p pos w) = Suc (length (inorder p))"
    using slot_length[OF old pos, of w "inorder (child p pos)"] slot_child[OF old pos] len by simp
  then show "inner_count m = of_nat (length (inorder m)) + - 1"
    using ino new(3) node_okD(3)[OF old] by simp
qed

lemma rebalance_leaf_and_insert_ok:
  assumes "chain 0 leaf ups" and "node_ok 0 0 leaf" and "num_items leaf = max_items leaf" and "i \<le> num_items leaf"
    and res: "rebalance_leaf_and_insert ups item i = Some root"
  shows "tree_ok (length ups) root \<and> inorder root = ctx ups (slot leaf i [item])"
proof -
  obtain p pos ups' where ups: "ups = (p, pos) # ups'"
    using res by (cases ups) (auto simp: rebalance_leaf_and_insert_def)
  have p: "node_ok 1 0 p" "pos \<le> num_items p" "child p pos = leaf" "fill_ok ups' p" "chain 1 p ups'"
    using assms(1) by (simp_all add: ups)
  obtain p' q j where reb: "rebalance_child pos i p = Some (p', q, j)"
    and root: "root = rebuild 1 ups' (increase_tree_count 1 (set_child q (leaf_insert j item (child p' q)) p'))"
    using res by (auto simp: rebalance_leaf_and_insert_def ups split: option.splits)
  have spec: "rebalanced 0 0 pos i p p' q j"
    using rebalance_child_spec[OF family_same[OF p(1)[unfolded One_nat_def] p(2)] _ _ reb] assms p(3) by simp
  let ?n = "leaf_insert j item (child p' q)"
  have leaf': "is_leaf (child p' q)" "j \<le> num_items (child p' q)" "near_filled (child p' q)"
    "is_inner p'" "q \<le> num_items p'" "num_items p' = num_items p" "inner_count p' = inner_count p"
    using spec assms(2) p(3) by (auto simp: rebalanced_def)
  note n = leaf_insert_spec[OF leaf'(1,2), of item]
  have "node_ok 0 0 ?n \<and> filled ?n"
    using n leaf'(1,3) by (simp add: near_filled_def filled_def max_items_def)
  then have af: "all_filled 0 (set_child q ?n p')"
    using leaf' spec p(2) by (intro all_filled_set_child) (auto simp: rebalanced_def split: if_splits)
  note sc = set_child_sel[OF leaf'(4,5), of ?n]
  have ino: "inorder (set_child q ?n p') = slot p pos (slot leaf i [item])"
    using sc n(1) spec p(3) by (simp add: rebalanced_def)
  have len: "length (slot leaf i [item]) = Suc (length (inorder leaf))"
    using leaf_insert_spec[of leaf i item] assms(2,4) by (simp add: inorder_leaf num_items_def)
  have off: "node_ok (Suc 0) (- 1) (set_child q ?n p')"
    by (rule filled_after_rebalance[OF p(1)[unfolded One_nat_def] p(2) _ _ _ af ino])
      (simp_all add: sc leaf' len p(3))
  note inc = increase_zero[OF off, of 1, simplified]
  have tc: "tree_count (increase_tree_count 1 (set_child q ?n p')) = tree_count p + 1"
    using tree_count_ok[OF inc(1)] tree_count_ok[OF p(1)] ino len p(3)
      slot_length[OF p(1,2), of "slot leaf i [item]" "inorder leaf"] slot_child[OF p(1)[unfolded One_nat_def] p(2)]
    by simp
  have "fill_ok ups' (increase_tree_count 1 (set_child q ?n p'))"
    using p(4) fill_ok_cong[of "increase_tree_count 1 (set_child q ?n p')" p ups'] sc leaf' node_okD(2)[OF p(1)[unfolded One_nat_def]]
      node_okD(2)[OF off] by simp
  from rebuild_ok[OF p(5,1) inc(1)[folded One_nat_def] this tc] show ?thesis
    using root ino by (simp add: ups)
qed

lemma set_child_same_items:
  assumes "is_inner p" and "i \<le> num_items p" and "inorder n = inorder (child p i)"
  shows "slot (set_child i n p) q z = slot p q z"
proof -
  obtain ks cs c where p: "p = Inner ks cs c" using assms(1) by (cases p) (simp_all add: is_inner_def)
  have "i < length cs" using assms(1,2) by (simp add: p is_inner_def)
  then have "map inorder (cs[i := n]) = map inorder cs"
    using assms(3) by (simp add: p map_update child_def list_update_same_conv)
  then show ?thesis by (simp add: p set_child_def slot_def parts_def)
qed

text \<open>The item count of \<open>left\<close> and \<open>right\<close> together, as 32-bit numbers.\<close>

lemma counts_of_split:
  assumes "node_ok h 0 l" and "node_ok h 0 r" and "node_ok h 0 n"
    and "length (inorder l @ m # inorder r) = Suc (length (inorder n))"
  shows "tree_count n = tree_count l + tree_count r"
proof -
  have "length (inorder n) = length (inorder l) + length (inorder r)" using assms(4) by simp
  then show ?thesis
    using tree_count_ok[OF assms(1)] tree_count_ok[OF assms(2)] tree_count_ok[OF assms(3)] by simp
qed

lemma near_filled_inner_insert:
  assumes "near_filled n" and "num_items m = Suc (num_items n)" and "is_leaf m = is_leaf n"
  shows "filled m"
  using assms by (simp add: near_filled_def filled_def max_items_def)

text \<open>Putting \<open>median\<close> and \<open>right\<close> into a node whose count is still above its items by \<open>d\<close>.\<close>

lemma inner_insert_count:
  assumes "node_ok (Suc h) d n" and "j \<le> num_items n" and "node_ok h 0 right" and "filled right"
    and "e = tree_count right + 1 - d"
  shows "node_ok (Suc h) 0 (increase_tree_count e (inner_insert j median right n))"
    and "inorder (increase_tree_count e (inner_insert j median right n))
      = slot n j (inorder (child n j) @ median # inorder right)"
    and "num_items (increase_tree_count e (inner_insert j median right n)) = Suc (num_items n)"
    and "is_leaf (increase_tree_count e (inner_insert j median right n)) = is_leaf n"
  using inner_insert_spec[OF assms(1-4), of median] increase_zero(1)[of h "d - tree_count right - 1" _ e] assms(5)
  by simp_all

lemma insert_rebalanced_ok:
  assumes ch: "chain (Suc h) p ups" and p: "node_ok (Suc h) 0 p" "num_items p = max_items p" and pos: "pos \<le> num_items p"
    and l: "node_ok h 0 left" "filled left" and r: "node_ok h 0 right" "filled right"
    and len: "length (inorder left @ median # inorder right) = Suc (length (inorder (child p pos)))"
    and res: "insert_rebalanced ups (set_child pos left p) pos median right = Some root"
  shows "tree_ok (Suc h + length ups) root \<and> inorder root = ctx ups (slot p pos (inorder left @ median # inorder right))"
proof -
  let ?node = "set_child pos left p" and ?d = "tree_count right" and ?w = "inorder left @ median # inorder right"
  obtain par ppos ups' where ups: "ups = (par, ppos) # ups'"
    using res by (cases ups) (auto simp: insert_rebalanced_def)
  have par: "node_ok (Suc (Suc h)) 0 par" "ppos \<le> num_items par" "child par ppos = p" "fill_ok ups' par"
      "chain (Suc (Suc h)) par ups'"
    using ch by (simp_all add: ups)
  note inn = node_okD(1)[OF p(1)] and pinn = node_okD(1)[OF par(1)]
  have c: "node_ok h 0 (child p pos)" using node_ok_child[OF p(1) pos] ..
  have node: "node_ok (Suc h) ?d ?node"
    using set_child_ok[OF p(1) pos l] counts_of_split[OF l(1) r(1) c len] by simp
  note nsel = set_child_sel[OF inn pos, of left]
  let ?par = "set_child ppos ?node par"
  note psel = set_child_sel[OF pinn par(2), of ?node]
  have fam: "family (Suc h) ?d ppos ?par" by (rule family_set_child[OF par(1,2) node])
  have chp: "child ?par ppos = ?node" by (simp add: psel(6))
  obtain p' q j where reb: "rebalance_child ppos pos ?par = Some (p', q, j)"
    using res by (auto simp: insert_rebalanced_def ups split: option.splits)
  have spec: "rebalanced (Suc h) ?d ppos pos ?par p' q j"
    using rebalance_child_spec[OF fam _ _ reb] chp nsel p(2) pos by (simp add: max_items_def)
  have q: "is_inner p'" "num_items p' = num_items par" "inner_count p' = inner_count par" "q \<le> num_items p'"
      "j \<le> num_items (child p' q)" "near_filled (child p' q)" "child (child p' q) j = left"
      "node_ok (Suc h) (if q = ppos then ?d else 0) (child p' q)" "node_ok (Suc h) ?d (child p' ppos)"
    using spec psel chp nsel(6,8) par(2) node_okD(2)[OF p(1)] by (auto simp: rebalanced_def)
  have kids: "i \<noteq> ppos \<Longrightarrow> node_ok (Suc h) 0 (child p' i)" "i \<noteq> q \<Longrightarrow> filled (child p' i)" if "i \<le> num_items par" for i
    using spec psel(2) that by (auto simp: rebalanced_def)
  have slots: "slot p' q (slot (child p' q) j ?w) = slot par ppos (slot p pos ?w)"
    using spec chp psel(5) nsel(5) by (simp add: rebalanced_def)
  define e where "e = (if q = ppos then 1 else ?d + 1)"
  define new_node where "new_node = increase_tree_count e (inner_insert j median right (child p' q))"
  have new: "node_ok (Suc h) 0 new_node" "inorder new_node = slot (child p' q) j ?w" "filled new_node"
    using inner_insert_count[OF q(8,5) r, of e median] near_filled_inner_insert[OF q(6), of new_node] q(7)
    by (auto simp: new_node_def e_def)
  define base where "base = (if q = ppos then p' else set_child ppos (increase_tree_count (- ?d) (child p' ppos)) p')"
  have par2: "ppos \<le> num_items p'" using par(2) q(2) by simp
  note bsel = set_child_sel[OF q(1) par2, of "increase_tree_count (- ?d) (child p' ppos)"]
  have base: "is_inner base" "num_items base = num_items par" "inner_count base = inner_count par" "slot base q z = slot p' q z" for z
    using q(1-3) bsel set_child_same_items[OF q(1) par2] by (simp_all add: base_def)
  have bkids: "node_ok (Suc h) 0 (child base i) \<and> filled (child base i)" if "i \<le> num_items base" "i \<noteq> q" for i
  proof (cases "i = ppos")
    case True
    then show ?thesis
      using that increase_zero[OF q(9), of "- ?d"] kids(2)[of ppos] par(2) base(2) by (simp add: base_def bsel(6))
  next
    case False
    then show ?thesis using that kids[of i] base(2) by (simp add: base_def bsel(6))
  qed
  have qb: "q \<le> num_items base" using q(2,4) base(2) by simp
  define m where "m = set_child q new_node base"
  note msel = set_child_sel[OF base(1) qb, of new_node, folded m_def]
  have af: "all_filled (Suc h) m"
    unfolding m_def using all_filled_set_child[OF base(1) qb _ new(1,3)] bkids by blast
  have ino: "inorder m = slot par ppos (slot p pos ?w)"
    using msel(4) base(4) new(2) slots by simp
  have len2: "length (slot p pos ?w) = Suc (length (inorder (child par ppos)))"
    using slot_length[OF p(1) pos, of ?w "inorder (child p pos)"] slot_child[OF p(1) pos] len par(3) by simp
  have off: "node_ok (Suc (Suc h)) (- 1) m"
    by (rule filled_after_rebalance[OF par(1,2) _ _ _ af ino len2]) (simp_all add: msel base)
  note inc = increase_zero[OF off, of 1, simplified]
  have tc: "tree_count (increase_tree_count 1 m) = tree_count par + 1"
    using tree_count_ok[OF inc(1)] tree_count_ok[OF par(1)] ino len2 par(3)
      slot_length[OF par(1,2), of "slot p pos ?w" "inorder p"] slot_child[OF par(1,2)] by simp
  have fill: "fill_ok ups' (increase_tree_count 1 m)"
    using par(4) fill_ok_cong[of "increase_tree_count 1 m" par ups'] msel base node_okD(2)[OF par(1)]
      node_okD(2)[OF off] by simp
  have "root = rebuild 1 ups' (increase_tree_count 1 m)"
    using res reb by (cases "q = ppos") (auto simp: insert_rebalanced_def ups Let_def m_def base_def new_node_def e_def)
  then show ?thesis
    using rebuild_ok[OF par(5,1) inc(1) fill tc] ino by (simp add: ups)
qed

lemma new_root_ok:
  assumes "node_ok h 0 l" "filled l" "node_ok h 0 r" "filled r"
  shows "tree_ok (Suc h) (Inner [m] [l, r] (tree_count l + tree_count r + 1))
    \<and> inorder (Inner [m] [l, r] (tree_count l + tree_count r + 1)) = inorder l @ m # inorder r"
proof -
  have "node_ok (Suc h) 0 (Inner [m] [l, r] (tree_count l + tree_count r + 1))"
    using assms by (intro node_ok_inner) auto
  then show ?thesis by (simp add: tree_ok_def root_ok_def max_items_def)
qed

lemma insert_up_ok:
  assumes "chain h n ups" and "node_ok h 0 n" and "node_ok h 0 left" "filled left" and "node_ok h 0 right" "filled right"
    and "length (inorder left @ median # inorder right) = Suc (length (inorder n))"
    and "insert_up ups left median right = (root, created, grown)"
  shows "tree_ok (h + length ups + of_bool grown) root \<and> inorder root = ctx ups (inorder left @ median # inorder right)"
  using assms
proof (induction ups arbitrary: h n left median right root created grown)
  case Nil
  then show ?case using new_root_ok[OF Nil.prems(3-6), of median] by auto
next
  case (Cons rec ups)
  obtain p pos where rec: "rec = (p, pos)" by (cases rec)
  let ?node = "set_child pos left p" and ?d = "tree_count right" and ?w = "inorder left @ median # inorder right"
  have p: "node_ok (Suc h) 0 p" "pos \<le> num_items p" "child p pos = n" "fill_ok ups p" "chain (Suc h) p ups"
    using Cons.prems(1) by (simp_all add: rec)
  note inn = node_okD(1)[OF p(1)]
  note l = Cons.prems(3,4) and r = Cons.prems(5,6) and len = Cons.prems(7)[folded p(3)]
  have node: "node_ok (Suc h) ?d ?node"
    using set_child_ok[OF p(1,2) l] counts_of_split[OF l(1) r(1) Cons.prems(2,7)] p(3) by simp
  note nsel = set_child_sel[OF inn p(2), of left]
  have lenp: "length (slot p pos ?w) = Suc (length (inorder p))"
    using slot_length[OF p(1,2), of ?w "inorder (child p pos)"] slot_child[OF p(1,2)] len by simp
  have maxp: "num_items p \<le> 10" "max_items p = 10"
    using p(4) node_okD(2)[OF p(1)]
    by (auto simp: fill_ok_def root_ok_def filled_def max_items_def split: if_splits)
  show ?case
  proof (cases "num_items ?node < kMaxInnerKeys")
    case True
    let ?m = "increase_tree_count 1 (inner_insert pos median right ?node)"
    have m: "node_ok (Suc h) 0 ?m" "inorder ?m = slot p pos ?w" "num_items ?m = Suc (num_items p)"
      using inner_insert_count[OF node _ r, of pos 1 median] p(2) nsel by simp_all
    have "tree_count ?m = tree_count p + 1"
      using tree_count_ok[OF m(1)] tree_count_ok[OF p(1)] m(2) lenp by simp
    moreover have "fill_ok ups ?m"
      using p(4) m(3) True nsel(2) node_okD(2)[OF p(1)] node_okD(2)[OF m(1)]
      by (auto simp: fill_ok_def root_ok_def filled_def max_items_def)
    ultimately show ?thesis
      using rebuild_ok[OF p(5,1) m(1)] m(2) Cons.prems(8) True by (auto simp: rec)
  next
    case False
    then have full: "num_items p = max_items p" using nsel(2) maxp by simp
    show ?thesis
    proof (cases "insert_rebalanced ups ?node pos median right")
      case (Some root')
      then show ?thesis
        using insert_rebalanced_ok[OF p(5,1) full p(2) l r len Some] Cons.prems(8) False by (auto simp: rec)
    next
      case None
      obtain node' nm nr where split: "split_node ?node = (node', nm, nr)" by (cases "split_node ?node")
      have fulln: "num_items ?node = max_items ?node" using full nsel by (simp add: max_items_def)
      note sp = split_node_spec[OF node fulln split]
      define lr where "lr = (if pos \<le> num_items node' then (increase_tree_count 1 (inner_insert pos median right node'), nr)
          else (increase_tree_count (- ?d) node',
                increase_tree_count (?d + 1) (inner_insert (pos - num_items node' - 1) median right nr)))"
      obtain l' r' where lr: "lr = (l', r')" by (cases lr)
      obtain root' cr gr where up: "insert_up ups l' nm r' = (root', cr, gr)" by (cases "insert_up ups l' nm r'")
      have res: "root = root'" "grown = gr"
        using Cons.prems(8) False None split up lr by (auto simp: rec lr_def split: if_splits)
      have "node_ok (Suc h) 0 l' \<and> filled l' \<and> node_ok (Suc h) 0 r' \<and> filled r'
        \<and> inorder l' @ nm # inorder r' = slot ?node pos ?w"
      proof (cases "pos \<le> num_items node'")
        case True
        have e: "(1 :: u32) = tree_count right + 1 - ?d" by simp
        note ins = inner_insert_count[OF sp(1) True r e, of median]
        have "child node' pos = left" using sp(7)[OF True] nsel(6) by simp
        then have "inorder l' @ nm # inorder r' = slot ?node pos ?w"
          using ins(2) sp(6)[OF True, of ?w] lr True by (auto simp: lr_def)
        moreover have "filled l'"
          using near_filled_inner_insert[OF sp(10) ins(3,4)] lr True by (auto simp: lr_def)
        ultimately show ?thesis using ins(1) sp(2,13) lr True by (auto simp: lr_def)
      next
        case gt: False
        have i: "pos - num_items node' - 1 \<le> num_items nr" using sp(14) p(2) nsel(2) by simp
        have e: "?d + 1 = tree_count right + 1 - (0 :: u32)" by simp
        note ins = inner_insert_count[OF sp(2) i r e, of median]
        have "child nr (pos - num_items node' - 1) = left"
          using sp(9)[of pos] gt p(2) nsel(2,6,8) node_okD(2)[OF p(1)] by simp
        then have "inorder l' @ nm # inorder r' = slot ?node pos ?w"
          using ins(2) sp(8)[of pos ?w] gt p(2) nsel(2) lr by (auto simp: lr_def)
        moreover have "filled r'"
          using near_filled_inner_insert[OF sp(11) ins(3,4)] lr gt by (auto simp: lr_def)
        moreover have "node_ok (Suc h) 0 (increase_tree_count (- ?d) node')" "filled (increase_tree_count (- ?d) node')"
          using increase_zero[OF sp(1), of "- ?d"] sp(12) by simp_all
        ultimately show ?thesis using ins(1) lr gt by (auto simp: lr_def)
      qed
      then have new: "node_ok (Suc h) 0 l'" "filled l'" "node_ok (Suc h) 0 r'" "filled r'"
          "inorder l' @ nm # inorder r' = slot p pos ?w"
        using nsel(5) by simp_all
      have "length (inorder l' @ nm # inorder r') = Suc (length (inorder p))"
        unfolding new(5) by (rule lenp)
      from Cons.IH[OF p(5,1) new(1-4) this up] show ?thesis
        using res new(5) by (simp add: rec)
    qed
  qed
qed

lemma insert_to_full_leaf_ok:
  assumes ch: "chain 0 leaf ups" and leaf: "node_ok 0 0 leaf" and full: "num_items leaf = max_items leaf" and i: "i \<le> num_items leaf"
    and res: "insert_to_full_leaf item leaf i ups = (root, created, grown)"
  shows "tree_ok (length ups + of_bool grown) root \<and> inorder root = ctx ups (slot leaf i [item])"
proof (cases "rebalance_leaf_and_insert ups item i")
  case (Some root')
  then show ?thesis
    using rebalance_leaf_and_insert_ok[OF ch leaf full i Some] res by (auto simp: insert_to_full_leaf_def)
next
  case None
  obtain node nm nr where split: "split_node leaf = (node, nm, nr)" by (cases "split_node leaf")
  note sp = split_node_spec[OF leaf full split]
  define lr where "lr = (if i \<le> num_items node then (leaf_insert i item node, nr)
      else (node, leaf_insert (i - num_items node - 1) item nr))"
  obtain l' r' where lr: "lr = (l', r')" by (cases lr)
  obtain root' cr gr where up: "insert_up ups l' nm r' = (root', cr, gr)" by (cases "insert_up ups l' nm r'")
  have res': "root = root'" "grown = gr"
    using res None split up lr by (auto simp: insert_to_full_leaf_def lr_def split: if_splits)
  have leaves: "is_leaf leaf" "is_leaf node" "is_leaf nr" using leaf sp(3,4) by simp_all
  have "is_leaf l' \<and> filled l' \<and> is_leaf r' \<and> filled r' \<and> inorder l' @ nm # inorder r' = slot leaf i [item]"
  proof (cases "i \<le> num_items node")
    case True
    note ins = leaf_insert_spec[OF leaves(2) True, of item]
    show ?thesis
      using ins sp(6)[OF True, of "[item]"] near_filled_inner_insert[OF sp(10) ins(3)] leaves sp(13) lr True
      by (auto simp: lr_def)
  next
    case False
    have j: "i - num_items node - 1 \<le> num_items nr" using sp(14) i by simp
    note ins = leaf_insert_spec[OF leaves(3) j, of item]
    show ?thesis
      using ins sp(8)[of i "[item]"] near_filled_inner_insert[OF sp(11) ins(3)] leaves sp(12) lr False i
      by (auto simp: lr_def)
  qed
  then have new: "node_ok 0 0 l'" "filled l'" "node_ok 0 0 r'" "filled r'" "inorder l' @ nm # inorder r' = slot leaf i [item]"
    by simp_all
  have "length (slot leaf i [item]) = Suc (length (inorder leaf))"
    using leaf_insert_spec[OF leaves(1) i, of item] by (simp add: inorder_leaf[OF leaves(1)] inorder_leaf num_items_def)
  then have "length (inorder l' @ nm # inorder r') = Suc (length (inorder leaf))" unfolding new(5) .
  from insert_up_ok[OF ch leaf new(1-4) this up] show ?thesis using res' new(5) by simp
qed

section \<open>Search\<close>

text \<open>
  The comparator with a fixed query falls along the items: positive, at most one zero, negative.  This is
  what the search needs of the order.
\<close>

definition falls :: "('a \<Rightarrow> int) \<Rightarrow> 'a list \<Rightarrow> bool" where
  "falls cmp xs \<longleftrightarrow> sorted_wrt (\<lambda>x y. 0 \<le> cmp y \<longrightarrow> 0 < cmp x) xs"

lemma falls_append:
  "falls cmp (xs @ ys) \<longleftrightarrow> falls cmp xs \<and> falls cmp ys \<and> (\<forall>x \<in> set xs. \<forall>y \<in> set ys. 0 \<le> cmp y \<longrightarrow> 0 < cmp x)"
  by (auto simp: falls_def sorted_wrt_append)

lemma falls_nth: "falls cmp xs \<Longrightarrow> j < k \<Longrightarrow> k < length xs \<Longrightarrow> 0 \<le> cmp (xs ! k) \<Longrightarrow> 0 < cmp (xs ! j)"
  by (auto simp: falls_def sorted_wrt_iff_nth_less)

lemma falls_nth_neg: "falls cmp xs \<Longrightarrow> j < k \<Longrightarrow> k < length xs \<Longrightarrow> cmp (xs ! j) \<le> 0 \<Longrightarrow> cmp (xs ! k) < 0"
  using falls_nth[of cmp xs j k] by linarith

definition cut_at :: "('a \<Rightarrow> int) \<Rightarrow> 'a list \<Rightarrow> nat \<Rightarrow> bool" where
  "cut_at cmp ks i \<longleftrightarrow> i \<le> length ks \<and> (\<forall>j < i. 0 < cmp (ks ! j)) \<and> (\<forall>j < length ks. i \<le> j \<longrightarrow> cmp (ks ! j) < 0)"

lemma bsearch_loop_spec:
  assumes "falls cmp ks" and "lo \<le> hi" and "hi \<le> length ks"
    and "\<forall>j < lo. 0 < cmp (ks ! j)" and "\<forall>j < length ks. hi \<le> j \<longrightarrow> cmp (ks ! j) < 0"
    and "bsearch_loop cmp ks lo hi = (i, found)"
  shows "if found then i < length ks \<and> cmp (ks ! i) = 0 else cut_at cmp ks i"
  using assms
proof (induction cmp ks lo hi rule: bsearch_loop.induct)
  case (1 cmp ks lo hi)
  let ?mid = "(lo + hi) div 2"
  show ?case
  proof (cases "lo < hi")
    case False
    then show ?thesis using 1(3-) by (subst (asm) bsearch_loop.simps) (auto simp: cut_at_def)
  next
    case True
    have mid: "?mid < hi" "lo \<le> ?mid" using True by auto
    consider "cmp (ks ! ?mid) = 0" | "cmp (ks ! ?mid) < 0" | "0 < cmp (ks ! ?mid)" by linarith
    then show ?thesis
    proof cases
      case 1
      then show ?thesis using "1.prems" True mid by (subst (asm) bsearch_loop.simps) auto
    next
      case 2
      have "cmp (ks ! j) < 0" if "j < length ks" "?mid \<le> j" for j
        using falls_nth_neg[OF "1.prems"(1), of ?mid j] that 2 by (cases "?mid = j") auto
      moreover have "bsearch_loop cmp ks lo hi = bsearch_loop cmp ks lo ?mid"
        using True 2 by (subst bsearch_loop.simps) (simp add: Let_def)
      ultimately show ?thesis
        using "1.IH"(1)[OF True refl refl _ 2 "1.prems"(1)] "1.prems"(3,4,6) 2 mid by simp
    next
      case 3
      have "0 < cmp (ks ! j)" if "j < ?mid + 1" for j
        using falls_nth[OF "1.prems"(1), of j ?mid] that 3 mid "1.prems"(3) by (cases "j = ?mid") auto
      moreover have "bsearch_loop cmp ks lo hi = bsearch_loop cmp ks (?mid + 1) hi"
        using True 3 by (subst bsearch_loop.simps) (simp add: Let_def)
      ultimately show ?thesis
        using "1.IH"(2)[OF True refl refl _ _ "1.prems"(1)] "1.prems"(3,5,6) 3 mid by simp
    qed
  qed
qed

lemma bsearch_spec:
  assumes "falls cmp (node_keys n)" and "1 \<le> num_items n" and "bsearch cmp n = (i, found)"
  shows "if found then i < num_items n \<and> cmp (node_keys n ! i) = 0 else cut_at cmp (node_keys n) i"
proof -
  let ?ks = "node_keys n" and ?hi = "num_items n"
  have hi: "?hi - 1 < length ?ks" "length ?ks = ?hi" using assms(2) by (auto simp: num_items_def)
  consider "0 < cmp (?ks ! (?hi - 1))" | "cmp (?ks ! (?hi - 1)) = 0" | "cmp (?ks ! (?hi - 1)) < 0" by linarith
  then show ?thesis
  proof cases
    case 1
    have "0 < cmp (?ks ! j)" if "j < ?hi" for j
      using falls_nth[OF assms(1), of j "?hi - 1"] that 1 hi by (cases "j = ?hi - 1") auto
    moreover have "bsearch cmp n = (num_items n, False)" using 1 by (simp add: bsearch_def Let_def)
    ultimately show ?thesis using assms(3) hi by (simp add: cut_at_def)
  next
    case 2
    then show ?thesis using assms(2,3) by (auto simp: bsearch_def Let_def)
  next
    case 3
    then have "bsearch_loop cmp ?ks 0 (?hi - 1) = (i, found)" using assms(3) by (simp add: bsearch_def)
    moreover have "\<forall>j < length ?ks. ?hi - 1 \<le> j \<longrightarrow> cmp (?ks ! j) < 0"
    proof (intro allI impI)
      fix j assume "j < length ?ks" "?hi - 1 \<le> j"
      then have "j = ?hi - 1" using hi by simp
      then show "cmp (?ks ! j) < 0" using 3 by simp
    qed
    ultimately show ?thesis
      using bsearch_loop_spec[OF assms(1), of 0 "?hi - 1" i found] hi by (cases found) simp_all
  qed
qed

section \<open>Positions\<close>

text \<open>What a node stores before and after its child \<open>i\<close>, and what a tree stores around a path.\<close>

definition left_of :: "'a node \<Rightarrow> nat \<Rightarrow> 'a list" where
  "left_of n i = weave (take i (parts n)) (take i (node_keys n))"

fun before :: "'a path \<Rightarrow> 'a list" where
  "before [] = []"
| "before ((n, i) # ups) = before ups @ left_of n i"

definition shaped :: "'a node \<Rightarrow> bool" where
  "shaped n \<longleftrightarrow> length (parts n) = Suc (length (node_keys n))"

lemma node_ok_shaped: "node_ok h d n \<Longrightarrow> shaped n"
  using length_parts by (auto simp: shaped_def num_items_def)

lemma left_of_0 [simp]: "left_of n 0 = []"
  by (simp add: left_of_def)

lemma weave_short: "length xss = length ks \<Longrightarrow> weave (xss @ [ys]) ks = weave xss ks @ ys"
proof (induction xss ks rule: weave.induct)
  case (3 xs xss k ks)
  then show ?case by (cases xss; cases ks) auto
qed auto

lemma weave_short_key: "length xss = Suc (length ks) \<Longrightarrow> weave xss (ks @ [k]) = weave xss ks @ [k]"
proof (induction xss ks rule: weave.induct)
  case (2 xs xss)
  then show ?case by simp
next
  case (3 xs xss k' ks)
  then show ?case by simp
qed simp

lemma left_of_child:
  assumes "shaped n" and "i \<le> num_items n"
  shows "weave (take (Suc i) (parts n)) (take i (node_keys n)) = left_of n i @ parts n ! i"
  using assms by (simp add: left_of_def shaped_def num_items_def take_Suc_conv_app_nth weave_short)

lemma left_of_Suc:
  assumes "shaped n" and "i < num_items n"
  shows "left_of n (Suc i) = left_of n i @ parts n ! i @ [node_keys n ! i]"
proof -
  have "left_of n (Suc i) = weave (take (Suc i) (parts n)) (take i (node_keys n) @ [node_keys n ! i])"
    using assms by (simp add: left_of_def num_items_def take_Suc_conv_app_nth)
  also have "\<dots> = weave (take (Suc i) (parts n)) (take i (node_keys n)) @ [node_keys n ! i]"
    using assms by (intro weave_short_key) (simp add: shaped_def num_items_def)
  finally show ?thesis using left_of_child[of n i] assms by simp
qed

lemma left_of_all: "shaped n \<Longrightarrow> left_of n (num_items n) @ parts n ! num_items n = inorder n"
  using left_of_child[of n "num_items n"] by (simp add: inorder_weave shaped_def num_items_def)

text \<open>The slot \<open>i\<close> lies after what is left of it, and the key \<open>i\<close> follows.\<close>

lemma weave_around:
  assumes "length xss = Suc (length ks)" and "i < length ks"
  shows "weave (xss[i := z]) (ks[i := y])
    = weave (take i xss) (take i ks) @ z @ y # weave (drop (Suc i) xss) (drop (Suc i) ks)"
proof -
  have "xss[i := z] = (take i xss @ [z]) @ drop (Suc i) xss" "ks[i := y] = take i ks @ y # drop (Suc i) ks"
    using assms by (simp_all add: upd_conv_take_nth_drop)
  then have "weave (xss[i := z]) (ks[i := y])
      = weave ((take i xss @ [z]) @ drop (Suc i) xss) (take i ks @ y # drop (Suc i) ks)" by simp
  also have "\<dots> = weave (take i xss @ [z]) (take i ks) @ y # weave (drop (Suc i) xss) (drop (Suc i) ks)"
    using assms by (intro weave_join) simp
  finally show ?thesis using assms by (simp add: weave_short)
qed

lemma weave_at_end: "length xss = Suc (length ks) \<Longrightarrow> weave (xss[length ks := z]) ks = weave (take (length ks) xss) ks @ z"
  by (simp add: upd_conv_take_nth_drop weave_short)

lemma slot_neighbours:
  assumes "node_ok h d n" and "i \<le> num_items n"
  obtains b where "\<And>z. slot n i z = left_of n i @ z @ b"
    and "if i = 0 then left_of n i = [] else left_of n i \<noteq> [] \<and> last (left_of n i) = node_keys n ! (i - 1)"
    and "if i = num_items n then b = [] else b \<noteq> [] \<and> hd b = node_keys n ! i"
proof -
  note shape = node_ok_shaped[OF assms(1)]
  have left: "if i = 0 then left_of n i = [] else left_of n i \<noteq> [] \<and> last (left_of n i) = node_keys n ! (i - 1)"
    using left_of_Suc[OF shape, of "i - 1"] assms(2) by (cases i) auto
  show ?thesis
  proof (cases "i = num_items n")
    case True
    then have "slot n i z = left_of n i @ z @ []" for z
      using weave_at_end[of "parts n" "node_keys n"] shape by (simp add: slot_def left_of_def shaped_def num_items_def)
    then show ?thesis using left True by (intro that[of "[]"]) simp_all
  next
    case False
    then have "slot n i z = left_of n i @ z @ node_keys n ! i # weave (drop (Suc i) (parts n)) (drop (Suc i) (node_keys n))" for z
      using weave_around[of "parts n" "node_keys n" i z "node_keys n ! i"] shape assms(2)
      by (simp add: slot_def left_of_def shaped_def num_items_def)
    from that[OF this left] False show ?thesis by simp
  qed
qed

lemma ctx_before:
  assumes "chain h n ups"
  obtains b where "\<And>z. ctx ups z = before ups @ z @ b"
  using assms
proof (induction ups arbitrary: h n thesis)
  case (Cons r ups)
  obtain p i where r: "r = (p, i)" by (cases r)
  have p: "node_ok (Suc h) 0 p" "i \<le> num_items p" "chain (Suc h) p ups" using Cons.prems(2) r by simp_all
  obtain b where b: "\<And>z. ctx ups z = before ups @ z @ b" using Cons.IH[OF _ p(3)] by blast
  obtain c where c: "\<And>z. slot p i z = left_of p i @ z @ c" using slot_neighbours[OF p(1,2)] by metis
  show ?case by (rule Cons.prems(1)[of "c @ b"]) (simp add: r b c)
qed simp

section \<open>Where the search ends\<close>

lemma falls_before_last:
  assumes "falls cmp a" and "a = [] \<or> 0 < cmp (last a)"
  shows "\<forall>x \<in> set a. 0 < cmp x"
proof (cases "a = []")
  case False
  then have a: "a = butlast a @ [last a]" "0 < cmp (last a)" using assms(2) by simp_all
  then have "falls cmp (butlast a @ [last a])" using assms(1) by simp
  then have "\<forall>x \<in> set (butlast a). 0 < cmp x" using a(2) by (simp add: falls_append)
  then have "\<forall>x \<in> set (butlast a @ [last a]). 0 < cmp x" using a(2) by simp
  then show ?thesis using a(1) by simp
qed simp

lemma falls_after_hd:
  assumes "falls cmp b" and "b = [] \<or> cmp (hd b) < 0"
  shows "\<forall>x \<in> set b. cmp x < 0"
proof (cases b)
  case (Cons y ys)
  then have "cmp y < 0" and "\<forall>x \<in> set ys. 0 \<le> cmp x \<longrightarrow> 0 < cmp y" using assms by (simp_all add: falls_def)
  then show ?thesis by (auto simp: Cons)
qed simp

text \<open>The slot the search enters: what lies before it is above the comparator's cut, what lies after below.\<close>

lemma slot_at_cut:
  assumes "node_ok h d n" and "cut_at cmp (node_keys n) i" and "falls cmp (slot n i w)"
  obtains b where "\<And>z. slot n i z = left_of n i @ z @ b" and "\<forall>x \<in> set (left_of n i). 0 < cmp x"
    and "\<forall>x \<in> set b. cmp x < 0"
proof -
  have i: "i \<le> num_items n" using assms(2) by (simp add: cut_at_def num_items_def)
  obtain b where ab: "\<And>z. slot n i z = left_of n i @ z @ b"
    "if i = 0 then left_of n i = [] else left_of n i \<noteq> [] \<and> last (left_of n i) = node_keys n ! (i - 1)"
    "if i = num_items n then b = [] else b \<noteq> [] \<and> hd b = node_keys n ! i"
    using slot_neighbours[OF assms(1) i] by blast
  have "falls cmp (left_of n i)" "falls cmp b" using assms(3) ab(1) by (simp_all add: falls_append)
  moreover have "left_of n i = [] \<or> 0 < cmp (last (left_of n i))" "b = [] \<or> cmp (hd b) < 0"
    using ab(2,3) assms(2) i by (auto simp: cut_at_def num_items_def split: if_splits)
  ultimately show ?thesis using that[OF ab(1)] falls_before_last falls_after_hd by blast
qed

lemma keys_in_weave: "length xss = Suc (length ks) \<Longrightarrow> set ks \<subseteq> set (weave xss ks)"
  by (induction xss ks rule: weave.induct) auto

text \<open>The keys of a node are among its items, in order.\<close>

lemma falls_keys:
  assumes "node_ok h d n" and "falls cmp (inorder n)"
  shows "falls cmp (node_keys n)"
proof -
  have "falls cmp ks" if "falls cmp (weave xss ks)" "length xss = Suc (length ks)" for xss ks
    using that
  proof (induction xss ks rule: weave.induct)
    case (3 xs xss k ks)
    have "set ks \<subseteq> set (weave xss ks)" using "3.prems"(2) by (intro keys_in_weave) simp
    then show ?case using 3 by (auto simp: falls_append) (auto simp: falls_def)
  qed (simp_all add: falls_def)
  then show ?thesis using assms length_parts[OF assms(1)] by (simp add: inorder_weave num_items_def)
qed

text \<open>
  \<^verbatim>\<open>Locate\<close>: a key the comparator answers with 0, or else the slot of a leaf at which the items split into
  those above the cut and those below it.
\<close>

definition located :: "('a \<Rightarrow> int) \<Rightarrow> bool \<Rightarrow> 'a node \<Rightarrow> nat \<Rightarrow> 'a path \<Rightarrow> bool" where
  "located cmp found m i ups \<longleftrightarrow>
     (if found then i < num_items m \<and> cmp (node_keys m ! i) = 0
      else is_leaf m \<and> i \<le> num_items m \<and>
        (\<exists>a b. a = before ups @ left_of m i \<and> (\<forall>z. ctx ups (slot m i z) = a @ z @ b)
          \<and> (\<forall>x \<in> set a. 0 < cmp x) \<and> (\<forall>x \<in> set b. cmp x < 0)))"

lemma locate_from_spec:
  assumes "chain h n ups" and "node_ok h 0 n" and "1 \<le> num_items n" and "fill_ok ups n"
    and "\<And>z. ctx ups z = before ups @ z @ b" and "\<forall>x \<in> set (before ups). 0 < cmp x" and "\<forall>x \<in> set b. cmp x < 0"
    and "falls cmp (inorder n)"
    and "locate_from cmp n ups = (found, path)"
  shows "\<exists>m i ups' h'. path = (m, i) # ups' \<and> chain h' m ups' \<and> node_ok h' 0 m \<and> fill_ok ups' m
    \<and> h' + length ups' = h + length ups \<and> ctx ups' (inorder m) = ctx ups (inorder n) \<and> located cmp found m i ups'"
  using assms
proof (induction cmp n ups arbitrary: h b rule: locate_from.induct)
  case (1 cmp n ups)
  obtain i f where bs: "bsearch cmp n = (i, f)" by (cases "bsearch cmp n")
  have keys: "falls cmp (node_keys n)" by (rule falls_keys[OF "1.prems"(2,8)])
  note spec = bsearch_spec[OF keys "1.prems"(3) bs]
  show ?case
  proof (cases f)
    case True
    then have "found" "path = (n, i) # ups"
      using "1.prems"(9) bs by (simp_all add: locate_from.simps[of cmp n])
    moreover have "located cmp True n i ups" using spec True by (simp add: located_def)
    ultimately show ?thesis using "1.prems"(1,2,4) by (intro exI[of _ n] exI[of _ i] exI[of _ ups] exI[of _ h]) simp
  next
    case False
    then have cut: "cut_at cmp (node_keys n) i" using spec by simp
    then have i: "i \<le> num_items n" by (simp add: cut_at_def num_items_def)
    have "falls cmp (slot n i (parts n ! i))" using slot_same[OF "1.prems"(2) i] "1.prems"(8) by simp
    from slot_at_cut[OF "1.prems"(2) cut this] obtain d where cd: "\<And>z. slot n i z = left_of n i @ z @ d"
        "\<forall>x \<in> set (left_of n i). 0 < cmp x" "\<forall>x \<in> set d. cmp x < 0" by blast
    have whole: "ctx ups (slot n i z) = (before ups @ left_of n i) @ z @ (d @ b)" for z using "1.prems"(5) cd(1) by simp
    have sides: "\<forall>x \<in> set (before ups @ left_of n i). 0 < cmp x" "\<forall>x \<in> set (d @ b). cmp x < 0"
      using "1.prems"(6,7) cd(2,3) by auto
    show ?thesis
    proof (cases "is_leaf n")
      case True
      then have "\<not> found" "path = (n, i) # ups"
        using "1.prems"(9) bs False by (simp_all add: locate_from.simps[of cmp n])
      moreover have "located cmp False n i ups"
        unfolding located_def using True i whole sides
        by (simp del: set_append append_assoc)
      ultimately show ?thesis using "1.prems"(1,2,4) by (intro exI[of _ n] exI[of _ i] exI[of _ ups] exI[of _ h]) simp
    next
      case inner: False
      then obtain h' where h: "h = Suc h'" using "1.prems"(2) by (cases h) simp_all
      have n: "node_ok (Suc h') 0 n" using "1.prems"(2) h by simp
      have c: "node_ok h' 0 (child n i)" "filled (child n i)" using node_ok_child[OF n i] by simp_all
      have len: "i < length (node_children n)" using node_okD(1)[OF n] i by (simp add: is_inner_def)
      have rec: "locate_from cmp (child n i) ((n, i) # ups) = (found, path)"
        using "1.prems"(9) bs False inner len by (simp add: locate_from.simps[of cmp n])
      have same: "slot n i (inorder (child n i)) = inorder n" by (rule slot_child[OF n i])
      have "falls cmp (inorder (child n i))"
        using "1.prems"(8) same cd(1) by (metis falls_append)
      moreover have "chain h' (child n i) ((n, i) # ups)" using "1.prems"(1,4) h n i by simp
      moreover have "1 \<le> num_items (child n i)" using c(2) by (auto simp: filled_def split: if_splits)
      moreover have "fill_ok ((n, i) # ups) (child n i)" using c(2) by (simp add: fill_ok_def)
      ultimately obtain m j ups' h2 where "path = (m, j) # ups'" "chain h2 m ups'" "node_ok h2 0 m" "fill_ok ups' m"
          "h2 + length ups' = h' + length ((n, i) # ups)"
          "ctx ups' (inorder m) = ctx ((n, i) # ups) (inorder (child n i))" "located cmp found m j ups'"
        using "1.IH"[OF refl bs[symmetric] refl False inner len, of h' "d @ b"] c(1) whole sides rec by auto
      then show ?thesis using h same by auto
    qed
  qed
qed

section \<open>What Insert does to the items\<close>

definition bt_items :: "'a bptree \<Rightarrow> 'a list" where
  "bt_items t = (case bt_root t of None \<Rightarrow> [] | Some r \<Rightarrow> inorder r)"

definition bt_ok :: "'a bptree \<Rightarrow> bool" where
  "bt_ok t \<longleftrightarrow>
     (case bt_root t of
        None \<Rightarrow> bt_height t = 0
      | Some r \<Rightarrow> \<exists>h. tree_ok h r \<and> bt_height t = of_nat (Suc h))
     \<and> bt_count t = of_nat (length (bt_items t))"

lemma bt_new_ok [simp]: "bt_ok bt_new" and bt_items_new [simp]: "bt_items bt_new = []"
  by (simp_all add: bt_ok_def bt_new_def bt_items_def)

lemma filter_cut:
  assumes "\<forall>x \<in> set a. 0 < f x" and "\<forall>x \<in> set b. f x < (0 :: int)"
  shows "filter (\<lambda>y. 0 < f y) (a @ b) = a" and "filter (\<lambda>y. f y < 0) (a @ b) = b"
    and "filter (\<lambda>y. f y \<noteq> 0) (a @ b) = a @ b"
proof -
  have "filter (\<lambda>y. 0 < f y) a = a" "filter (\<lambda>y. 0 < f y) b = []" "filter (\<lambda>y. f y < 0) a = []"
    "filter (\<lambda>y. f y < 0) b = b" "filter (\<lambda>y. f y \<noteq> 0) a = a" "filter (\<lambda>y. f y \<noteq> 0) b = b"
    using assms by (force simp: filter_empty_conv filter_id_conv)+
  then show "filter (\<lambda>y. 0 < f y) (a @ b) = a" "filter (\<lambda>y. f y < 0) (a @ b) = b"
    "filter (\<lambda>y. f y \<noteq> 0) (a @ b) = a @ b" by simp_all
qed

lemma locate_root:
  assumes "tree_ok h r" and "falls cmp (inorder r)" and "locate_from cmp r [] = (found, path)"
  obtains m i ups h' where "path = (m, i) # ups" and "chain h' m ups" and "node_ok h' 0 m" and "fill_ok ups m"
    and "h' + length ups = h" and "ctx ups (inorder m) = inorder r" and "located cmp found m i ups"
  using locate_from_spec[of h r "[]" "[]" cmp found path] assms
  by (auto simp: tree_ok_def root_ok_def fill_ok_def)

lemma leaf_slot_nil: "is_leaf m \<Longrightarrow> i \<le> num_items m \<Longrightarrow> slot m i [] = inorder m"
  using slot_same[of 0 0 m i] by (simp add: parts_leaf nth_Cons' del: replicate_Suc)

lemma bt_insert_spec:
  assumes ok: "bt_ok t" and falls: "falls (compare_to lt x) (bt_items t)" and ins: "bt_insert lt x t = (b, t')"
  shows "b \<longleftrightarrow> (\<forall>y \<in> set (bt_items t). compare_to lt x y \<noteq> 0)"
    and "bt_items t' = (if b then filter (\<lambda>y. 0 < compare_to lt x y) (bt_items t) @ x
      # filter (\<lambda>y. compare_to lt x y < 0) (bt_items t) else bt_items t)"
    and "bt_ok t'"
proof -
  let ?cmp = "compare_to lt x"
  have "(b \<longleftrightarrow> (\<forall>y \<in> set (bt_items t). ?cmp y \<noteq> 0))
    \<and> bt_items t' = (if b then filter (\<lambda>y. 0 < ?cmp y) (bt_items t) @ x # filter (\<lambda>y. ?cmp y < 0) (bt_items t) else bt_items t)
    \<and> bt_ok t'"
  proof (cases "bt_root t")
    case None
    have "tree_ok 0 (Leaf [x])" by (simp add: tree_ok_def root_ok_def max_items_def)
    then show ?thesis using ins None by (auto simp: bt_insert_def bt_ok_def bt_items_def intro!: exI[of _ 0])
  next
    case (Some r)
    obtain h where h: "tree_ok h r" "bt_height t = of_nat (Suc h)" "bt_count t = of_nat (length (inorder r))"
      using ok Some by (auto simp: bt_ok_def bt_items_def)
    have items: "bt_items t = inorder r" using Some by (simp add: bt_items_def)
    obtain found path where loc: "locate_from ?cmp r [] = (found, path)" by (cases "locate_from ?cmp r []")
    obtain m i ups h' where m: "path = (m, i) # ups" "chain h' m ups" "node_ok h' 0 m" "fill_ok ups m"
        "h' + length ups = h" "ctx ups (inorder m) = inorder r" "located ?cmp found m i ups"
      using locate_root[OF h(1) falls[unfolded items] loc] by blast
    show ?thesis
    proof (cases found)
      case True
      then have "i < num_items m" "?cmp (node_keys m ! i) = 0" using m(7) by (simp_all add: located_def)
      then have "node_keys m ! i \<in> set (inorder m)"
        using keys_in_weave[of "parts m" "node_keys m"] length_parts[OF m(3)] by (auto simp: inorder_weave num_items_def)
      moreover obtain a c where "\<And>z. ctx ups z = a @ z @ c" using ctx_before[OF m(2)] by blast
      ultimately have "node_keys m ! i \<in> set (inorder r)" using m(6) by (metis Un_iff set_append)
      moreover have "b = False" "t' = t" using ins Some loc True m(1) by (simp_all add: bt_insert_def)
      ultimately show ?thesis using \<open>?cmp (node_keys m ! i) = 0\<close> ok items by auto
    next
      case False
      then have leaf: "is_leaf m" "i \<le> num_items m" using m(7) by (simp_all add: located_def)
      obtain a c where ac: "\<And>z. ctx ups (slot m i z) = a @ z @ c" "\<forall>y \<in> set a. 0 < ?cmp y" "\<forall>y \<in> set c. ?cmp y < 0"
        using m(7) False unfolding located_def by (metis (no_types, lifting))
      have ir: "inorder r = a @ c" using ac(1)[of "[]"] leaf_slot_nil[OF leaf] m(6) by simp
      have h0: "h' = 0" using leaf_height[OF m(3)] leaf(1) by simp
      obtain r' gr cr where r': "bt_root t' = Some r'" "bt_count t' = bt_count t + 1" "b"
          "bt_height t' = bt_height t + of_bool gr"
          "if num_items m = kMaxLeafKeys then insert_to_full_leaf x m i ups = (r', cr, gr)
           else r' = rebuild 1 ups (leaf_insert i x m) \<and> \<not> gr"
      proof (cases "num_items m = kMaxLeafKeys")
        case True
        then show ?thesis
          using ins Some loc False m(1) that by (cases "insert_to_full_leaf x m i ups") (auto simp: bt_insert_def)
      next
        case nf: False
        show ?thesis
          using ins Some loc False m(1) nf by (intro that[of "rebuild 1 ups (leaf_insert i x m)" False 0]) (auto simp: bt_insert_def)
      qed
      have "tree_ok (h + of_bool gr) r' \<and> inorder r' = ctx ups (slot m i [x])"
      proof (cases "num_items m = kMaxLeafKeys")
        case True
        then show ?thesis
          using insert_to_full_leaf_ok[OF m(2)[unfolded h0] m(3)[unfolded h0] _ leaf(2)] r'(5) leaf m(5) h0
          by (simp add: max_items_def)
      next
        case nf: False
        note li = leaf_insert_spec[OF leaf, of x]
        have "fill_ok ups (leaf_insert i x m)" and "tree_count (leaf_insert i x m) = tree_count m + 1"
          using m(4) li leaf nf by (auto simp: fill_ok_def root_ok_def filled_def max_items_def tree_count_def split: if_splits)
        then show ?thesis
          using rebuild_ok[OF m(2,3), of "leaf_insert i x m" 1] li(1,2) r'(5) nf m(5) h0 by simp
      qed
      then have new: "tree_ok (h + of_bool gr) r'" "inorder r' = a @ x # c" using ac(1)[of "[x]"] by simp_all
      have "bt_ok t'"
        using r' new h ir by (auto simp: bt_ok_def bt_items_def intro!: exI[of _ "h + of_bool gr"])
      moreover have "bt_items t' = a @ x # c" using r'(1) new(2) by (simp add: bt_items_def)
      moreover have "\<forall>y \<in> set (inorder r). ?cmp y \<noteq> 0" using ac(2,3) ir by auto
      ultimately show ?thesis
        using r'(3) items ir filter_cut(1,2)[OF ac(2,3)] by simp
    qed
  qed
  then show "b \<longleftrightarrow> (\<forall>y \<in> set (bt_items t). ?cmp y \<noteq> 0)"
    "bt_items t' = (if b then filter (\<lambda>y. 0 < ?cmp y) (bt_items t) @ x # filter (\<lambda>y. ?cmp y < 0) (bt_items t) else bt_items t)"
    "bt_ok t'" by blast+
qed

section \<open>What Delete does to the items\<close>

text \<open>A node that may have lost one item.\<close>

definition may_lack :: "'a path \<Rightarrow> 'a node \<Rightarrow> bool" where
  "may_lack ups n \<longleftrightarrow> num_items n \<le> max_items n
     \<and> (ups \<noteq> [] \<longrightarrow> (if is_leaf n then 7 else 4) \<le> Suc (num_items n))"

definition tree_or_none :: "nat \<Rightarrow> 'a node option \<Rightarrow> bool \<Rightarrow> 'a list \<Rightarrow> bool" where
  "tree_or_none h r shrunk xs \<longleftrightarrow>
     (case r of
        None \<Rightarrow> xs = [] \<and> h = 0 \<and> shrunk
      | Some r' \<Rightarrow> inorder r' = xs \<and> (shrunk \<longrightarrow> 0 < h) \<and> tree_ok (h - of_bool shrunk) r')"

lemma delete_up_ok:
  assumes "loose_chain h n0 ups" and "node_ok h 0 n0" and "node_ok h 0 n" and "may_lack ups n"
    and "length (inorder n0) = Suc (length (inorder n))"
    and "delete_up n ups = (root, shrunk, destroyed)"
  shows "tree_or_none (h + length ups) root shrunk (ctx ups (inorder n))"
  using assms
proof (induction ups arbitrary: h n0 n root shrunk destroyed)
  case Nil
  show ?case
  proof (cases "num_items n = 0")
    case False
    then have "root = Some n" "\<not> shrunk" "root_ok n" using Nil.prems(4,6) by (auto simp: may_lack_def root_ok_def)
    then show ?thesis using Nil.prems(3) by (simp add: tree_or_none_def tree_ok_def)
  next
    case True
    then have res: "root = (if is_leaf n then None else Some (child n 0))" "shrunk"
      using Nil.prems(6) by (auto simp: min_items_def split: if_splits)
    show ?thesis
    proof (cases h)
      case 0
      then have "is_leaf n" using Nil.prems(3) by simp
      then show ?thesis using res True 0 by (simp add: tree_or_none_def inorder_leaf num_items_def)
    next
      case (Suc h')
      then have n: "node_ok (Suc h') 0 n" using Nil.prems(3) by simp
      have c: "node_ok h' 0 (child n 0)" "filled (child n 0)" using node_ok_child[OF n, of 0] True by simp_all
      obtain ks cs c where ni: "n = Inner ks cs c" using node_okD(2)[OF n] by (cases n) simp_all
      have "length cs = Suc 0" "ks = []" using node_okD(1)[OF n] True by (simp_all add: ni is_inner_def)
      then have "inorder n = inorder (child n 0)" by (cases cs) (simp_all add: ni child_def)
      moreover have "root_ok (child n 0)"
        using c(2) by (auto simp: root_ok_def filled_def split: if_splits)
      ultimately show ?thesis using res c node_okD(2)[OF n] Suc by (simp add: tree_or_none_def tree_ok_def)
    qed
  qed
next
  case (Cons rec ups)
  obtain p i where rec: "rec = (p, i)" by (cases rec)
  have p: "node_ok (Suc h) 0 p" "i \<le> num_items p" "length (inorder (child p i)) = length (inorder n0)"
      "fill_ok ups p" "loose_chain (Suc h) p ups"
    using Cons.prems(1) by (simp_all add: rec)
  note inn = node_okD(1)[OF p(1)]
  have len1: "of_nat (length (inorder n0)) = of_nat (length (inorder n)) + (1 :: u32)"
    using Cons.prems(5) by simp
  have tc: "tree_count n = tree_count n0 + - 1"
    using tree_count_ok[OF Cons.prems(2)] tree_count_ok[OF Cons.prems(3)] len1 by simp
  show ?case
  proof (cases "num_items n < min_items n")
    case False
    then have "filled n" using Cons.prems(4) by (auto simp: may_lack_def filled_def min_items_def split: if_splits)
    then have "fill_ok (rec # ups) n" by (simp add: fill_ok_def)
    from rebuild_loose_ok[OF Cons.prems(1-3) this tc] show ?thesis
      using False Cons.prems(6) by (auto simp: tree_or_none_def rec)
  next
    case True
    let ?node = "set_child i n p"
    note nsel = set_child_sel[OF inn p(2), of n]
    obtain p' b where mr: "merge_or_rebalance_child i ?node = (p', b)" by (cases "merge_or_rebalance_child i ?node")
    have "underfull (child ?node i)"
      using True Cons.prems(4) nsel(6) by (simp add: underfull_def may_lack_def)
    moreover have "\<forall>j \<le> num_items ?node. node_ok h 0 (child ?node j) \<and> (j \<noteq> i \<longrightarrow> filled (child ?node j))"
      using node_ok_child[OF p(1)] Cons.prems(3) nsel(2,6) by simp
    moreover have "1 \<le> num_items ?node"
      using p(4) nsel(2) by (auto simp: fill_ok_def root_ok_def filled_def split: if_splits)
    ultimately have spec: "inorder p' = slot p i (inorder n)" "is_inner p'" "inner_count p' = inner_count p"
        "num_items p' = num_items p - of_bool b" "all_filled h p'"
      using merge_or_rebalance_child_spec[OF nsel(1), of i h p' b] mr p(2) nsel by simp_all
    have lenp: "length (inorder p) = Suc (length (inorder p'))"
      using slot_length[OF p(1,2), of "inorder n" "inorder (child p i)"] slot_child[OF p(1,2)] p(3) Cons.prems(5) spec(1) by simp
    have "node_ok (Suc h) 1 p'"
      using node_ok_children[OF spec(2,5)] spec(3) lenp node_okD(3)[OF p(1)] by simp
    note inc = increase_zero[OF this, of "- 1", simplified]
    let ?p = "increase_tree_count (- 1) p'"
    have leafp: "\<not> is_leaf p" "\<not> is_leaf p'" using node_okD(2)[OF p(1)] node_okD(2)[OF inc(1)] by simp_all
    show ?thesis
    proof (cases b)
      case False
      then have "root = Some (rebuild (- 1) ups ?p)" "\<not> shrunk" using Cons.prems(6) True mr by (simp_all add: rec)
      moreover have "fill_ok ups ?p" using fill_ok_cong[of ?p p ups] p(4) spec(4) False leafp by simp
      moreover have "tree_count ?p = tree_count p + - 1"
        using tree_count_ok[OF inc(1)] tree_count_ok[OF p(1)] lenp by simp
      ultimately show ?thesis
        using rebuild_loose_ok[OF p(5,1) inc(1)] spec(1) by (simp add: tree_or_none_def rec)
    next
      case b: True
      obtain d where up: "delete_up ?p ups = (root, shrunk, d)"
        using Cons.prems(6) True mr b by (cases "delete_up ?p ups") (auto simp: rec)
      have "may_lack ups ?p"
        using p(4) spec(4) b leafp
        by (auto simp: may_lack_def fill_ok_def root_ok_def filled_def max_items_def split: if_splits)
      moreover have "length (inorder p) = Suc (length (inorder ?p))" using lenp by simp
      ultimately show ?thesis
        using Cons.IH[OF p(5,1) inc(1) _ _ up] spec(1) by (simp add: rec)
    qed
  qed
qed

text \<open>The greatest key below a node.\<close>

lemma dig_right_append: "dig_right n (us @ vs) = dig_right n us @ vs"
proof (induction n us rule: dig_right.induct)
  case (1 n us)
  then show ?case by (subst (1 2) dig_right.simps) auto
qed

lemma dig_right_nonempty: "dig_right n us \<noteq> []"
proof (induction n us rule: dig_right.induct)
  case (1 n us)
  then show ?case by (subst dig_right.simps) auto
qed

lemma dig_right_spec:
  assumes "loose_chain h n ups" and "node_ok h 0 n" and "fill_ok ups n"
  shows "\<exists>leaf us c. dig_right n ups = (leaf, num_items leaf - 1) # us \<and> loose_chain 0 leaf us \<and> is_leaf leaf \<and> fill_ok us leaf
    \<and> length us = h + length ups \<and> (\<forall>z. ctx us z = ctx ups (c @ z)) \<and> c @ node_keys leaf = inorder n"
  using assms
proof (induction h arbitrary: n ups)
  case 0
  then have "is_leaf n" by simp
  then show ?case
    using 0 by (subst dig_right.simps) (auto intro!: exI[of _ n] exI[of _ ups] exI[of _ "[]"] simp: inorder_leaf)
next
  case (Suc h)
  let ?i = "num_items n"
  note n = Suc.prems(2)
  have inn: "length (node_children n) = Suc ?i" "\<not> is_leaf n" using node_okD(1,2)[OF n] by (simp_all add: is_inner_def)
  have c: "node_ok h 0 (child n ?i)" "filled (child n ?i)" using node_ok_child[OF n, of ?i] by simp_all
  have "loose_chain h (child n ?i) ((n, ?i) # ups)" "fill_ok ((n, ?i) # ups) (child n ?i)"
    using Suc.prems c by (simp_all add: fill_ok_def)
  from Suc.IH[OF this(1) c(1) this(2)] obtain leaf us d where
    leaf: "dig_right (child n ?i) ((n, ?i) # ups) = (leaf, num_items leaf - 1) # us" "loose_chain 0 leaf us" "is_leaf leaf"
      "fill_ok us leaf" "length us = h + length ((n, ?i) # ups)" "\<forall>z. ctx us z = ctx ((n, ?i) # ups) (d @ z)"
      "d @ node_keys leaf = inorder (child n ?i)" by blast
  obtain a b where ab: "\<And>z. slot n ?i z = a @ z @ b" "b = []"
    using slot_neighbours[OF n order_refl] by (metis (full_types))
  have "a @ inorder (child n ?i) = inorder n" using slot_child[OF n, of ?i] ab by simp
  then have "dig_right n ups = (leaf, num_items leaf - 1) # us \<and> loose_chain 0 leaf us \<and> is_leaf leaf \<and> fill_ok us leaf
    \<and> length us = Suc h + length ups \<and> (\<forall>z. ctx us z = ctx ups ((a @ d) @ z)) \<and> (a @ d) @ node_keys leaf = inorder n"
    using leaf inn ab by (subst dig_right.simps) simp
  then show ?case by blast
qed

lemma slot_key:
  assumes "node_ok h d n" and "i < num_items n"
  obtains a b where "\<And>z. slot n i z = a @ z @ node_keys n ! i # b"
    and "\<And>z. slot (set_key i y n) i z = a @ z @ y # b"
proof -
  have len: "length (parts n) = Suc (length (node_keys n))" "i < length (node_keys n)"
    using length_parts[OF assms(1)] assms(2) by (simp_all add: num_items_def)
  moreover have "parts (set_key i y n) = parts n" by (cases n) (simp_all add: parts_def set_key_def)
  ultimately show ?thesis
    using that[of "left_of n i" "weave (drop (Suc i) (parts n)) (drop (Suc i) (node_keys n))"]
      weave_around[OF len, of _ "node_keys n ! i"] weave_around[OF len, of _ y]
    by (simp add: slot_def set_key_def left_of_def)
qed

lemma set_key_ok:
  assumes "node_ok (Suc h) d n" and "i < num_items n"
  shows "node_ok (Suc h) d (set_key i y n)" and "num_items (set_key i y n) = num_items n"
    and "is_leaf (set_key i y n) = is_leaf n" and "child (set_key i y n) j = child n j"
    and "length (inorder (set_key i y n)) = length (inorder n)"
proof -
  show sel: "num_items (set_key i y n) = num_items n" "is_leaf (set_key i y n) = is_leaf n"
    "child (set_key i y n) j = child n j" for j
    by (cases n; simp add: set_key_def num_items_def child_def)+
  obtain a b where ab: "\<And>z. slot n i z = a @ z @ node_keys n ! i # b" "\<And>z. slot (set_key i y n) i z = a @ z @ y # b"
    using slot_key[OF assms] by blast
  have inn: "is_inner (set_key i y n)" "inner_count (set_key i y n) = inner_count n"
    using node_okD(1)[OF assms(1)] by (cases n; simp add: is_inner_def set_key_def)+
  have "inorder n = slot n i (inorder (child n i))" using slot_child[OF assms(1), of i] assms(2) by simp
  moreover have "inorder (set_key i y n) = slot (set_key i y n) i (inorder (child n i))"
    using assms(2) sel node_okD(1,2)[OF assms(1)] by (cases n) (simp_all add: slot_def parts_def set_key_def child_def is_inner_def flip: map_update)
  ultimately show len: "length (inorder (set_key i y n)) = length (inorder n)" using ab by simp
  show "node_ok (Suc h) d (set_key i y n)"
    using len node_ok_children[OF inn(1), of h d] inn(2) node_okD(3)[OF assms(1)] node_ok_child[OF assms(1)] sel
    by (simp add: all_filled_def)
qed

lemma delete_key_ok:
  assumes "chain h n ups" and "node_ok h 0 n" and "fill_ok ups n" and "i < num_items n"
    and "delete_key ((n, i) # ups) = (root, shrunk, destroyed)"
  shows "\<exists>a b. ctx ups (inorder n) = a @ node_keys n ! i # b \<and> tree_or_none (h + length ups) root shrunk (a @ b)"
proof (cases "is_leaf n")
  case True
  then have h: "h = 0" using leaf_height[OF assms(2)] by simp
  let ?n = "shift_left i False n" and ?ks = "node_keys n"
  have i: "i < length ?ks" using assms(4) by (simp add: num_items_def)
  have keys: "inorder ?n = take i ?ks @ drop (Suc i) ?ks" "is_leaf ?n" "num_items ?n = num_items n - 1"
    using True i by (cases n; simp add: shift_left_def Let_def)+
  have ks: "inorder n = take i ?ks @ ?ks ! i # drop (Suc i) ?ks"
    using True i by (simp add: inorder_leaf id_take_nth_drop[symmetric])
  obtain a b where ab: "\<And>z. ctx ups z = a @ z @ b" using ctx_before[OF assms(1)] by blast
  have "may_lack ups ?n"
    using assms(3) keys True by (auto simp: may_lack_def fill_ok_def root_ok_def filled_def max_items_def split: if_splits)
  moreover have "length (inorder n) = Suc (length (inorder ?n))" using ks keys(1) i by simp
  moreover have "delete_up ?n ups = (root, shrunk, destroyed)" using assms(5) True by (simp add: delete_key_def)
  ultimately have "tree_or_none (h + length ups) root shrunk (ctx ups (inorder ?n))"
    using delete_up_ok[OF chain_loose[OF assms(1)] assms(2), of ?n root shrunk destroyed] keys(2) h by simp
  then show ?thesis using ab ks keys(1) by (intro exI[of _ "a @ take i ?ks"] exI[of _ "drop (Suc i) ?ks @ b"]) simp
next
  case False
  then obtain h' where h: "h = Suc h'" using assms(2) by (cases h) simp_all
  have n: "node_ok (Suc h') 0 n" using assms(2) h by simp
  have c: "node_ok h' 0 (child n i)" "filled (child n i)" using node_ok_child[OF n, of i] assms(4) by simp_all
  obtain leaf j us where dr0: "dig_right (child n i) [] = (leaf, j) # us"
    using dig_right_nonempty by (metis list.exhaust surj_pair)
  define y where "y = last (node_keys leaf)"
  let ?n = "set_key i y n" and ?leaf = "leaf_erase_right leaf"
  have n': "node_ok (Suc h') 0 ?n" "num_items ?n = num_items n" "is_leaf ?n = is_leaf n" "child ?n k = child n k" for k
    using set_key_ok[OF n assms(4)] by blast+
  have "dig_right (child n i) ((?n, i) # ups) = (leaf, j) # us @ (?n, i) # ups"
    using dig_right_append[of "child n i" "[]" "(?n, i) # ups"] dr0 by simp
  moreover have "length (inorder ?n) = length (inorder n)" by (rule set_key_ok(5)[OF n assms(4)])
  then have "loose_chain h ?n ups" using loose_chain_cong chain_loose[OF assms(1)] by blast
  then have "loose_chain h' (child n i) ((?n, i) # ups)"
    using assms(3,4) h n' fill_ok_cong[of ?n n ups] by simp
  moreover have "fill_ok ((?n, i) # ups) (child n i)" using c(2) by (simp add: fill_ok_def)
  ultimately obtain d where leaf: "loose_chain 0 leaf (us @ (?n, i) # ups)" "is_leaf leaf" "fill_ok (us @ (?n, i) # ups) leaf"
      "length (us @ (?n, i) # ups) = h' + length ((?n, i) # ups)"
      "\<forall>z. ctx (us @ (?n, i) # ups) z = ctx ((?n, i) # ups) (d @ z)" "d @ node_keys leaf = inorder (child n i)"
    using dig_right_spec[OF _ c(1), of "(?n, i) # ups"] by auto
  have lf: "filled leaf" using leaf(3) by (simp add: fill_ok_def)
  then have ne: "node_keys leaf \<noteq> []" using leaf(2) by (auto simp: filled_def num_items_def)
  have lr: "inorder ?leaf = butlast (node_keys leaf)" "is_leaf ?leaf" "num_items ?leaf = num_items leaf - 1"
    using leaf(2) by (cases leaf; simp add: leaf_erase_right_def)+
  have "may_lack (us @ (?n, i) # ups) ?leaf" using lf leaf(2) lr by (auto simp: may_lack_def filled_def max_items_def)
  moreover have "length (inorder leaf) = Suc (length (inorder ?leaf))" using ne leaf(2) lr by (simp add: inorder_leaf)
  moreover have "delete_up ?leaf (us @ (?n, i) # ups) = (root, shrunk, destroyed)"
    using assms(5) False dr0 by (simp add: delete_key_def y_def)
  ultimately have tree: "tree_or_none (length (us @ (?n, i) # ups)) root shrunk (ctx (us @ (?n, i) # ups) (inorder ?leaf))"
    using delete_up_ok[OF leaf(1), of ?leaf root shrunk destroyed] leaf(2) lr(2) by simp
  obtain e f where ef: "\<And>z. slot n i z = e @ z @ node_keys n ! i # f" "\<And>z. slot ?n i z = e @ z @ y # f"
    using slot_key[OF n assms(4)] by blast
  obtain a b where ab: "\<And>z. ctx ups z = a @ z @ b" using ctx_before[OF assms(1)] by blast
  have "inorder n = e @ inorder (child n i) @ node_keys n ! i # f" using slot_child[OF n, of i] ef(1) assms(4) by simp
  then have "ctx ups (inorder n) = (a @ e @ inorder (child n i)) @ node_keys n ! i # (f @ b)" using ab by simp
  moreover have "butlast (node_keys leaf) @ [y] = node_keys leaf" using ne by (simp add: y_def)
  then have "ctx (us @ (?n, i) # ups) (inorder ?leaf) = (a @ e @ inorder (child n i)) @ (f @ b)"
    using leaf(5,6) ef(2) ab lr(1) by (metis append.assoc append_Cons append_Nil ctx.simps(2))
  ultimately show ?thesis using tree leaf(4) h by (metis add_Suc_shift length_Cons)
qed

lemma falls_around_zero:
  assumes "falls cmp (a @ k # b)" and "cmp k = 0"
  shows "\<forall>x \<in> set a. 0 < cmp x" and "\<forall>x \<in> set b. cmp x < 0"
proof -
  show "\<forall>x \<in> set a. 0 < cmp x" using assms by (simp add: falls_append)
  have "\<forall>x \<in> set b. 0 \<le> cmp x \<longrightarrow> 0 < cmp k" using assms(1) by (simp add: falls_append) (simp add: falls_def)
  then show "\<forall>x \<in> set b. cmp x < 0" using assms(2) by force
qed

lemma bt_delete_at_ok:
  assumes r: "bt_root t = Some r" "tree_ok h r" "bt_height t = of_nat (Suc h)" "bt_count t = of_nat (length (inorder r))"
    and m: "chain h' m ups" "node_ok h' 0 m" "fill_ok ups m" "h' + length ups = h" "ctx ups (inorder m) = inorder r"
    and i: "i < num_items m"
  shows "\<exists>a b. inorder r = a @ node_keys m ! i # b \<and> bt_items (bt_delete_at ((m, i) # ups) t) = a @ b
    \<and> bt_ok (bt_delete_at ((m, i) # ups) t)"
proof -
  let ?t = "bt_delete_at ((m, i) # ups) t"
  obtain root shrunk d where dk: "delete_key ((m, i) # ups) = (root, shrunk, d)"
    by (cases "delete_key ((m, i) # ups)")
  obtain a b where ab: "inorder r = a @ node_keys m ! i # b" "tree_or_none h root shrunk (a @ b)"
    using delete_key_ok[OF m(1-3) i dk] m(4,5) by auto
  have t: "bt_root ?t = root" "bt_count ?t = bt_count t - 1" "bt_height ?t = bt_height t - of_bool shrunk"
    by (simp_all add: bt_delete_at_def dk)
  have items: "bt_items ?t = a @ b"
    using ab(2) t(1) by (auto simp: bt_items_def tree_or_none_def split: option.splits)
  have "bt_count ?t = of_nat (length (bt_items ?t))"
    using t(2) r(4) ab(1) items by simp
  moreover have "case bt_root ?t of None \<Rightarrow> bt_height ?t = 0
      | Some r \<Rightarrow> \<exists>h. tree_ok h r \<and> bt_height ?t = of_nat (Suc h)"
  proof (cases root)
    case None
    then show ?thesis using ab(2) t r(3) by (simp add: tree_or_none_def)
  next
    case (Some r')
    then have "tree_ok (h - of_bool shrunk) r'" "shrunk \<longrightarrow> 0 < h" using ab(2) by (simp_all add: tree_or_none_def)
    moreover have "bt_height ?t = of_nat (Suc (h - of_bool shrunk))"
      using t(3) r(3) calculation(2) by (cases shrunk; cases h) simp_all
    ultimately show ?thesis using Some t(1) by auto
  qed
  ultimately show ?thesis using ab(1) items by (auto simp: bt_ok_def)
qed

lemma bt_delete_spec:
  assumes ok: "bt_ok t" and falls: "falls (compare_to lt x) (bt_items t)" and del: "bt_delete lt x t = (b, t')"
  shows "b \<longleftrightarrow> (\<exists>y \<in> set (bt_items t). compare_to lt x y = 0)"
    and "bt_items t' = filter (\<lambda>y. compare_to lt x y \<noteq> 0) (bt_items t)"
    and "bt_ok t'"
proof -
  let ?cmp = "compare_to lt x"
  have "(b \<longleftrightarrow> (\<exists>y \<in> set (bt_items t). ?cmp y = 0)) \<and> bt_items t' = filter (\<lambda>y. ?cmp y \<noteq> 0) (bt_items t) \<and> bt_ok t'"
  proof (cases "bt_root t")
    case None
    then show ?thesis using del ok by (simp add: bt_delete_def bt_items_def)
  next
    case (Some r)
    obtain h where h: "tree_ok h r" "bt_height t = of_nat (Suc h)" "bt_count t = of_nat (length (inorder r))"
      using ok Some by (auto simp: bt_ok_def bt_items_def)
    have items: "bt_items t = inorder r" using Some by (simp add: bt_items_def)
    obtain found path where loc: "locate_from ?cmp r [] = (found, path)" by (cases "locate_from ?cmp r []")
    obtain m i ups h' where m: "path = (m, i) # ups" "chain h' m ups" "node_ok h' 0 m" "fill_ok ups m"
        "h' + length ups = h" "ctx ups (inorder m) = inorder r" "located ?cmp found m i ups"
      using locate_root[OF h(1) falls[unfolded items] loc] by blast
    show ?thesis
    proof (cases found)
      case True
      then have i: "i < num_items m" "?cmp (node_keys m ! i) = 0" using m(7) by (simp_all add: located_def)
      have t': "b" "t' = bt_delete_at ((m, i) # ups) t" using del Some loc True m(1) by (simp_all add: bt_delete_def)
      obtain a c where ac: "inorder r = a @ node_keys m ! i # c" "bt_items t' = a @ c" "bt_ok t'"
        using bt_delete_at_ok[OF Some h m(2-6) i(1)] t'(2) by blast
      note around = falls_around_zero[OF falls[unfolded items ac(1)] i(2)]
      have "filter (\<lambda>y. ?cmp y \<noteq> 0) (inorder r) = a @ c"
        using filter_cut(3)[OF around] i(2) by (simp add: ac(1))
      then show ?thesis using ac i t' items by auto
    next
      case False
      then have leaf: "is_leaf m" "i \<le> num_items m" using m(7) by (simp_all add: located_def)
      obtain a c where ac: "\<And>z. ctx ups (slot m i z) = a @ z @ c" "\<forall>y \<in> set a. 0 < ?cmp y" "\<forall>y \<in> set c. ?cmp y < 0"
        using m(7) False unfolding located_def by (metis (no_types, lifting))
      have ir: "inorder r = a @ c" using ac(1)[of "[]"] leaf_slot_nil[OF leaf] m(6) by simp
      have "\<not> b" "t' = t" using del Some loc False m(1) by (simp_all add: bt_delete_def)
      then show ?thesis using filter_cut(3)[OF ac(2,3)] ac(2,3) ok by (auto simp: items ir)
    qed
  qed
  then show "b \<longleftrightarrow> (\<exists>y \<in> set (bt_items t). ?cmp y = 0)" "bt_items t' = filter (\<lambda>y. ?cmp y \<noteq> 0) (bt_items t)" "bt_ok t'"
    by blast+
qed

end
