(* ===== verification/BPlus_Rank.thy ===== *)
theory BPlus_Rank
  imports BPlus_Tree
begin

text \<open>
  Ranks and iteration in the B+ tree (\<^verbatim>\<open>src/zset/bplustree.hpp\<close>, \<^verbatim>\<open>bplustree_internal.hpp\<close>): from a path to the rank of
  its item and back, the step to the next and the previous item, and the searches for a neighbour.
  For the proofs a path \<open>points\<close> at a position of the list of items.
\<close>

section \<open>Operations\<close>

definition counts_before :: "'a node \<Rightarrow> nat \<Rightarrow> u32" where
  "counts_before n i = (\<Sum>j \<leftarrow> [0..<i]. tree_count (child n j))"

fun rank_above :: "'a path \<Rightarrow> u32" where
  "rank_above [] = 0"
| "rank_above ((n, i) # ups) = rank_above ups + (if is_leaf n then 0 else counts_before n i) + of_nat i"

text \<open>\<^verbatim>\<open>Rank\<close>: at the terminal node the subtree below the key's own index counts as well.\<close>

fun path_rank :: "'a path \<Rightarrow> u32" where
  "path_rank [] = 0"
| "path_rank ((n, i) # ups) = rank_above ups + (if is_leaf n then 0 else counts_before n (i + 1)) + of_nat i"

definition terminal :: "'a path \<Rightarrow> 'a option" where
  "terminal path =
     (case path of
        [] \<Rightarrow> None
      | (n, i) # _ \<Rightarrow> if i < num_items n then Some (node_keys n ! i) else None)"

function dig_left :: "'a node \<Rightarrow> 'a path \<Rightarrow> 'a path" where
  "dig_left node path =
     (if \<not> is_leaf node \<and> 0 < length (node_children node) then dig_left (child node 0) ((node, 0) # path)
      else (node, 0) # path)"
  by auto
termination by (relation "measure (\<lambda>(n, _). size n)") (auto intro: child_smaller)

declare dig_left.simps [simp del]

definition path_next :: "'a path \<Rightarrow> bool \<times> 'a path" where
  "path_next path =
     (case path of
        [] \<Rightarrow> (False, [])
      | (node, pos) # ups \<Rightarrow>
          if is_leaf node then
            (if pos + 1 < num_items node then (True, (node, pos + 1) # ups)
             else (let path' = dropWhile (\<lambda>(n, i). i = num_items n) ups in (path' \<noteq> [], path')))
          else (True, dig_left (child node (pos + 1)) ((node, pos + 1) # ups)))"

definition path_prev :: "'a path \<Rightarrow> bool \<times> 'a path" where
  "path_prev path =
     (case path of
        [] \<Rightarrow> (False, [])
      | (node, pos) # ups \<Rightarrow>
          if is_leaf node then
            (case dropWhile (\<lambda>(n, i). i = 0) path of
               [] \<Rightarrow> (False, [])
             | (n, i) # ups' \<Rightarrow> (True, (n, i - 1) # ups'))
          else (True, dig_right (child node pos) path))"

text \<open>
  The loop of \<^verbatim>\<open>ToRank\<close> over the children of a node: it descends, stops at a separator, or runs past the
  last child, which the code asserts away.
\<close>

datatype scan_result = Descend nat u32 | Stop nat | Beyond

fun rank_scan :: "u32 \<Rightarrow> nat \<Rightarrow> 'a node list \<Rightarrow> scan_result" where
  "rank_scan rank i [] = Beyond"
| "rank_scan rank i (c # cs) =
     (if tree_count c > rank then Descend i rank
      else if cs = [] then Beyond
      else if rank - tree_count c = 0 then Stop i
      else rank_scan (rank - tree_count c - 1) (i + 1) cs)"

lemma rank_scan_index: "rank_scan rank i cs = Descend j r \<Longrightarrow> i \<le> j \<and> j < i + length cs"
  by (induction rank i cs rule: rank_scan.induct) (auto split: if_splits)

function to_rank_from :: "u32 \<Rightarrow> 'a node \<Rightarrow> 'a path \<Rightarrow> 'a path option" where
  "to_rank_from rank node path =
     (if is_leaf node then (if unat rank < num_items node then Some ((node, unat rank) # path) else None)
      else if node_children node = [] then None
      else if rank = 0 then to_rank_from 0 (child node 0) ((node, 0) # path)
      else (case rank_scan rank 0 (node_children node) of
              Descend i rank' \<Rightarrow> to_rank_from rank' (child node i) ((node, i) # path)
            | Stop i \<Rightarrow> Some ((node, i) # path)
            | Beyond \<Rightarrow> None))"
  by auto
termination
  by (relation "measure (\<lambda>(_, n, _). size n)") (auto intro!: child_smaller dest: rank_scan_index)

declare to_rank_from.simps [simp del]

text \<open>\<^verbatim>\<open>ToRank\<close>, \<^verbatim>\<open>FromRank\<close>; \<open>None\<close> where an assertion fails.\<close>

definition bt_from_rank :: "u32 \<Rightarrow> 'a bptree \<Rightarrow> 'a path option" where
  "bt_from_rank rank t =
     (case bt_root t of
        None \<Rightarrow> None
      | Some root \<Rightarrow>
          if \<not> rank < bt_count t then None
          else if rank + 1 = bt_count t then Some (dig_right root [])
          else to_rank_from rank root [])"

definition bt_get_rank :: "('a \<Rightarrow> 'a \<Rightarrow> bool) \<Rightarrow> 'a \<Rightarrow> bool \<Rightarrow> 'a bptree \<Rightarrow> u32 option" where
  "bt_get_rank lt item reverse t =
     (case bt_root t of
        None \<Rightarrow> None
      | Some root \<Rightarrow>
          (case locate_from (compare_to lt item) root [] of
             (False, _) \<Rightarrow> None
           | (True, path) \<Rightarrow> Some (if reverse then bt_count t - path_rank path - 1 else path_rank path)))"

definition bt_geq :: "('a \<Rightarrow> 'a \<Rightarrow> bool) \<Rightarrow> 'a \<Rightarrow> 'a bptree \<Rightarrow> 'a path option" where
  "bt_geq lt query t =
     (case bt_root t of
        None \<Rightarrow> None
      | Some root \<Rightarrow>
          (case locate_from (compare_to lt query) root [] of
             (res, path) \<Rightarrow>
               Some (if \<not> res \<and> snd (hd path) \<ge> num_items (fst (hd path)) then snd (path_next path) else path)))"

definition bt_leq :: "('a \<Rightarrow> 'a \<Rightarrow> bool) \<Rightarrow> 'a \<Rightarrow> 'a bptree \<Rightarrow> 'a path option" where
  "bt_leq lt query t =
     (case bt_root t of
        None \<Rightarrow> None
      | Some root \<Rightarrow>
          (case locate_from (compare_to lt query) root [] of
             (res, path) \<Rightarrow> Some (if res then path else snd (path_prev path))))"

text \<open>
  \<^verbatim>\<open>Iterate\<close> and \<^verbatim>\<open>IterateReverse\<close> with the callback as a step on a state \<open>'s\<close>; the loops over the 32-bit index
  run \<open>rank_end - rank_start + 1\<close> times at most.  \<open>None\<close> where an assertion fails.
\<close>

fun walk :: "('a path \<Rightarrow> bool \<times> 'a path) \<Rightarrow> bool \<Rightarrow> ('a \<Rightarrow> 's \<Rightarrow> bool \<times> 's) \<Rightarrow> nat \<Rightarrow> 'a path \<Rightarrow> 's \<Rightarrow> (bool \<times> 's) option" where
  "walk step stops cb 0 path s = Some (True, s)"
| "walk step stops cb (Suc k) path s =
     (case terminal path of
        None \<Rightarrow> None
      | Some x \<Rightarrow>
          (case cb x s of
             (False, s') \<Rightarrow> Some (False, s')
           | (True, s') \<Rightarrow>
               (case step path of
                  (advanced, path') \<Rightarrow> if stops \<and> \<not> advanced then Some (True, s') else walk step stops cb k path' s')))"

definition bt_iterate :: "u32 \<Rightarrow> u32 \<Rightarrow> ('a \<Rightarrow> 's \<Rightarrow> bool \<times> 's) \<Rightarrow> 'a bptree \<Rightarrow> 's \<Rightarrow> (bool \<times> 's) option" where
  "bt_iterate rank_start rank_end cb t s =
     (if rank_start \<ge> bt_size t then Some (True, s)
      else if \<not> rank_start \<le> rank_end then None
      else (case bt_from_rank rank_start t of
              None \<Rightarrow> None
            | Some path \<Rightarrow> walk path_next True cb (unat rank_end - unat rank_start + 1) path s))"

definition bt_iterate_reverse :: "u32 \<Rightarrow> u32 \<Rightarrow> ('a \<Rightarrow> 's \<Rightarrow> bool \<times> 's) \<Rightarrow> 'a bptree \<Rightarrow> 's \<Rightarrow> (bool \<times> 's) option" where
  "bt_iterate_reverse rank_start rank_end cb t s =
     (if \<not> (rank_start \<le> rank_end \<and> rank_end < bt_count t) then None
      else (case bt_from_rank (bt_count t - 1 - rank_start) t of
              None \<Rightarrow> None
            | Some path \<Rightarrow> walk path_prev False cb (unat rank_end - unat rank_start + 1) path s))"

section \<open>Paths into a tree\<close>

text \<open>The path \<open>ups\<close> leads from the root of a tree with items \<open>xs\<close> to the node \<open>m\<close>.\<close>

definition leads :: "'a list \<Rightarrow> nat \<Rightarrow> 'a node \<Rightarrow> 'a path \<Rightarrow> bool" where
  "leads xs h m ups \<longleftrightarrow> chain h m ups \<and> node_ok h 0 m \<and> fill_ok ups m \<and> ctx ups (inorder m) = xs"

definition points :: "'a list \<Rightarrow> 'a path \<Rightarrow> nat \<Rightarrow> bool" where
  "points xs path k \<longleftrightarrow>
     (\<exists>m i ups h. path = (m, i) # ups \<and> leads xs h m ups \<and> i < num_items m
        \<and> k = length (before ups) + length (left_of m i) + length (parts m ! i))"

lemma leads_child:
  assumes "leads xs (Suc h) p ups" and "i \<le> num_items p"
  shows "leads xs h (child p i) ((p, i) # ups)"
  using assms slot_child[of h 0 p i] node_ok_child[of h 0 p i] by (simp add: leads_def fill_ok_def)

lemma leads_up:
  assumes "leads xs h m ((p, i) # ups)"
  shows "leads xs (Suc h) p ups" and "i \<le> num_items p" and "child p i = m"
  using assms slot_child[of h 0 p i] by (auto simp: leads_def)

lemma leads_ranges:
  assumes "leads xs h m ups"
  obtains b where "xs = before ups @ inorder m @ b"
  using assms ctx_before[of h m ups] unfolding leads_def by metis

lemma points_item:
  assumes "points xs path k"
  shows "k < length xs" and "terminal path = Some (xs ! k)"
proof -
  obtain m i ups h where p: "path = (m, i) # ups" "leads xs h m ups" "i < num_items m"
    "k = length (before ups) + length (left_of m i) + length (parts m ! i)" using assms by (auto simp: points_def)
  have s: "shaped m" "chain h m ups" "node_ok h 0 m" using p(2) by (auto simp: leads_def intro: node_ok_shaped)
  obtain b where b: "\<And>z. ctx ups z = before ups @ z @ b" using ctx_before[OF s(2)] by blast
  obtain c where c: "\<And>z. slot m i z = left_of m i @ z @ node_keys m ! i # c"
  proof -
    obtain c where "\<And>z. slot m i z = left_of m i @ z @ c" "c \<noteq> [] \<and> hd c = node_keys m ! i"
      using slot_neighbours[OF s(3), of i] p(3) by (metis less_imp_le less_irrefl)
    then show ?thesis using that by (cases c) simp_all
  qed
  have "xs = before ups @ left_of m i @ parts m ! i @ node_keys m ! i # c @ b"
    using p(2,3) b c[of "parts m ! i"] slot_same[OF s(3), of i] by (simp add: leads_def)
  then have "xs = (before ups @ left_of m i @ parts m ! i) @ node_keys m ! i # c @ b" by simp
  moreover have "k = length (before ups @ left_of m i @ parts m ! i)" using p(4) by simp
  ultimately show "k < length xs" "terminal path = Some (xs ! k)"
    using p(1,3) by (simp_all add: terminal_def nth_append)
qed

lemma tree_ok_leads: "tree_ok h r \<Longrightarrow> leads (inorder r) h r []"
  by (simp add: leads_def tree_ok_def fill_ok_def)

lemma leads_nonempty: "leads xs h m ups \<Longrightarrow> 1 \<le> num_items m"
  by (auto simp: leads_def fill_ok_def root_ok_def filled_def split: if_splits)

lemma leads_items:
  assumes "leads xs h m ups"
  shows "0 < length (inorder m)"
proof -
  have "node_keys m \<noteq> []" using leads_nonempty[OF assms] by (auto simp: num_items_def)
  moreover have "set (node_keys m) \<subseteq> set (inorder m)"
    using assms keys_in_weave length_parts by (fastforce simp: leads_def inorder_weave num_items_def)
  ultimately show ?thesis by auto
qed

lemma parts_child: "node_ok (Suc h) d p \<Longrightarrow> i \<le> num_items p \<Longrightarrow> parts p ! i = inorder (child p i)"
  using node_okD(1,2)[of h d p] by (simp add: parts_inner child_def is_inner_simps)

section \<open>Rank of a path\<close>

lemma counts_before_ok:
  assumes "node_ok (Suc h) d p" and "i \<le> num_items p"
  shows "counts_before p i + of_nat i = of_nat (length (left_of p i))"
  using assms(2)
proof (induction i)
  case 0
  then show ?case by (simp add: counts_before_def)
next
  case (Suc i)
  then have "tree_count (child p i) = of_nat (length (parts p ! i))"
    using node_ok_child[OF assms(1), of i] parts_child[OF assms(1), of i] tree_count_ok[of h 0 "child p i"] by simp
  then show ?case
    using Suc left_of_Suc[OF node_ok_shaped[OF assms(1)], of i] by (simp add: counts_before_def algebra_simps)
qed

lemma leaf_left_of: "is_leaf m \<Longrightarrow> i \<le> num_items m \<Longrightarrow> left_of m i = take i (node_keys m)"
proof (induction i)
  case (Suc i)
  have "shaped m" using Suc.prems(1) by (simp add: shaped_def parts_leaf num_items_def)
  then show ?case using Suc left_of_Suc[of m i]
    by (simp add: parts_leaf num_items_def take_Suc_conv_app_nth del: replicate_Suc)
qed simp

lemma rank_above_ok: "chain h m ups \<Longrightarrow> rank_above ups = of_nat (length (before ups))"
proof (induction h m ups rule: chain.induct)
  case (2 h n p i ups)
  have p: "node_ok (Suc h) 0 p" "i \<le> num_items p" "\<not> is_leaf p" using 2 by (auto dest: node_okD(1) simp: is_inner_def)
  show ?case using 2 counts_before_ok[OF p(1,2)] p(3) by (simp add: algebra_simps)
qed simp

lemma path_rank_ok:
  assumes "points xs path k"
  shows "path_rank path = of_nat k"
proof -
  obtain m i ups h where p: "path = (m, i) # ups" "leads xs h m ups" "i < num_items m"
    "k = length (before ups) + length (left_of m i) + length (parts m ! i)" using assms by (auto simp: points_def)
  have m: "node_ok h 0 m" "rank_above ups = of_nat (length (before ups))"
    using p(2) rank_above_ok by (auto simp: leads_def)
  show ?thesis
  proof (cases h)
    case 0
    then have "is_leaf m" using m by simp
    then show ?thesis using p m by (simp add: leaf_left_of parts_leaf num_items_def del: replicate_Suc)
  next
    case (Suc h')
    then have "\<not> is_leaf m" using m node_okD(2)[of h' 0 m] by simp
    moreover have "length (left_of m (Suc i)) = Suc (length (left_of m i) + length (parts m ! i))"
      using left_of_Suc[OF node_ok_shaped[OF m(1)] p(3)] by simp
    ultimately show ?thesis
      using p m counts_before_ok[of h' 0 m "Suc i"] Suc by (simp add: algebra_simps)
  qed
qed

section \<open>Steps between neighbours\<close>

lemma pointsI:
  assumes "leads xs h m ups" and "i < num_items m"
  shows "points xs ((m, i) # ups) (length (before ups) + length (left_of m i) + length (parts m ! i))"
  using assms by (auto simp: points_def)

lemma leads_shaped: "leads xs h m ups \<Longrightarrow> shaped m"
  by (auto simp: leads_def intro: node_ok_shaped)

lemma leads_leaf: "leads xs h m ups \<Longrightarrow> is_leaf m \<longleftrightarrow> h = 0"
  by (cases h) (auto simp: leads_def dest: node_okD(2))

lemma leads_child_length:
  assumes "leads xs h m ups" and "\<not> is_leaf m" and "i \<le> num_items m"
  shows "leads xs (h - 1) (child m i) ((m, i) # ups)" and "parts m ! i = inorder (child m i)"
    and "0 < length (node_children m)"
proof -
  obtain h' where h: "h = Suc h'" using assms leads_leaf[OF assms(1)] by (cases h) auto
  then have m: "node_ok (Suc h') 0 m" using assms(1) by (simp add: leads_def)
  show "leads xs (h - 1) (child m i) ((m, i) # ups)" using leads_child[of xs h' m ups i] assms h by simp
  show "parts m ! i = inorder (child m i)" by (rule parts_child[OF m assms(3)])
  show "0 < length (node_children m)" using node_okD(1)[OF m] by (simp add: is_inner_simps)
qed

lemma dig_left_points: "leads xs h m ups \<Longrightarrow> points xs (dig_left m ups) (length (before ups))"
proof (induction h arbitrary: m ups)
  case 0
  then have "is_leaf m" "0 < num_items m" using leads_leaf leads_nonempty by force+
  then show ?case using pointsI[OF 0, of 0] by (subst dig_left.simps) (simp add: parts_leaf del: replicate_Suc)
next
  case (Suc h)
  then have "\<not> is_leaf m" using leads_leaf by blast
  then show ?case using Suc.IH[of "child m 0" "(m, 0) # ups"] leads_child_length[OF Suc.prems _, of 0]
    by (subst dig_left.simps) simp
qed

lemma dig_right_points: "leads xs h m ups \<Longrightarrow> points xs (dig_right m ups) (length (before ups) + length (inorder m) - 1)"
proof (induction h arbitrary: m ups)
  case 0
  then have m: "is_leaf m" "0 < num_items m" using leads_leaf leads_nonempty by force+
  then have "points xs ((m, num_items m - 1) # ups) (length (before ups) + (num_items m - 1))"
    using pointsI[OF 0, of "num_items m - 1"]
    by (simp add: parts_leaf leaf_left_of num_items_def nth_Cons' del: replicate_Suc)
  moreover have "length (before ups) + (num_items m - 1) = length (before ups) + num_items m - 1" using m(2) by simp
  moreover have "length (inorder m) = num_items m" using m(1) by (simp add: inorder_leaf num_items_def)
  ultimately show ?case using m(1) by (subst dig_right.simps) simp
next
  case (Suc h)
  then have n: "\<not> is_leaf m" using leads_leaf by blast
  note c = leads_child_length[OF Suc.prems n, of "num_items m"]
  have "num_items m < length (node_children m)"
    using Suc.prems node_okD(1) by (fastforce simp: leads_def is_inner_simps)
  moreover have "inorder m = left_of m (num_items m) @ inorder (child m (num_items m))"
    using left_of_all[OF leads_shaped[OF Suc.prems]] c(2) by simp
  ultimately show ?case using Suc.IH[of "child m (num_items m)" "(m, num_items m) # ups"] c(1) n
    by (subst dig_right.simps) (simp add: add.assoc)
qed

lemma ascend_points:
  assumes "leads xs h m ups"
  shows "let path = dropWhile (\<lambda>(n, i). i = num_items n) ups; k = length (before ups) + length (inorder m) in
    if path = [] then k = length xs else points xs path k"
  using assms
proof (induction ups arbitrary: h m)
  case Nil
  then show ?case by (simp add: leads_def)
next
  case (Cons r ups)
  obtain p i where r: "r = (p, i)" by (cases r)
  note up = leads_up[OF Cons.prems[unfolded r]]
  have part: "parts p ! i = inorder m"
    using up parts_child[of h 0 p i] by (simp add: leads_def)
  show ?case
  proof (cases "i = num_items p")
    case True
    then have "inorder p = left_of p i @ inorder m" using left_of_all[OF leads_shaped[OF up(1)]] part by simp
    then show ?thesis using Cons.IH[OF up(1)] True r by (simp add: add.assoc)
  next
    case False
    then show ?thesis using pointsI[OF up(1), of i] up(2) part r by simp
  qed
qed

lemma back_points:
  assumes "leads xs h m ups"
  shows "case dropWhile (\<lambda>(n, i). i = 0) ups of
      [] \<Rightarrow> before ups = []
    | (n, i) # ups' \<Rightarrow> before ups \<noteq> [] \<and> points xs ((n, i - 1) # ups') (length (before ups) - 1)"
  using assms
proof (induction ups arbitrary: h m)
  case (Cons r ups)
  obtain p i where r: "r = (p, i)" by (cases r)
  note up = leads_up[OF Cons.prems[unfolded r]]
  show ?case
  proof (cases i)
    case 0
    then show ?thesis using Cons.IH[OF up(1)] r
      by (cases "dropWhile (\<lambda>(n, i). i = 0) ups") (auto simp del: dropWhile_eq_Nil_conv)
  next
    case (Suc j)
    then have "j < num_items p" using up(2) by simp
    then show ?thesis using pointsI[OF up(1), of j] left_of_Suc[OF leads_shaped[OF up(1)], of j] r Suc
      by (simp add: add.assoc)
  qed
qed simp

lemma path_next_ok:
  assumes "points xs path k"
  shows "if Suc k < length xs then fst (path_next path) \<and> points xs (snd (path_next path)) (Suc k)
    else \<not> fst (path_next path) \<and> snd (path_next path) = []"
proof -
  obtain m i ups h where p: "path = (m, i) # ups" "leads xs h m ups" "i < num_items m"
    "k = length (before ups) + length (left_of m i) + length (parts m ! i)" using assms by (auto simp: points_def)
  have k: "Suc k = length (before ups) + length (left_of m (Suc i))"
    using p left_of_Suc[OF leads_shaped[OF p(2)], of i] by simp
  show ?thesis
  proof (cases "is_leaf m")
    case True
    show ?thesis
    proof (cases "Suc i < num_items m")
      case fits: True
      then have "parts m ! Suc i = []" using True by (simp add: parts_leaf del: replicate_Suc)
      then have "points xs ((m, Suc i) # ups) (Suc k)" using pointsI[OF p(2) fits] k by simp
      then show ?thesis using points_item(1) fits True p(1) by (auto simp: path_next_def)
    next
      case False
      then have "Suc k = length (before ups) + length (inorder m)"
        using k True p(3) leaf_left_of[of m "Suc i"] by (simp add: inorder_leaf num_items_def)
      then show ?thesis using ascend_points[OF p(2)] points_item(1)[of xs _ "Suc k"] p(1) True False
        by (auto simp: path_next_def Let_def split: if_splits)
    qed
  next
    case False
    then have "leads xs (h - 1) (child m (Suc i)) ((m, Suc i) # ups)" using leads_child_length(1)[OF p(2), of "Suc i"] p(3) by simp
    from dig_left_points[OF this] have "points xs (snd (path_next path)) (Suc k)"
      using p(1) False k by (simp add: path_next_def)
    then show ?thesis using points_item(1) p(1) False by (auto simp: path_next_def)
  qed
qed

lemma path_prev_ok:
  assumes "points xs path k"
  shows "if 0 < k then fst (path_prev path) \<and> points xs (snd (path_prev path)) (k - 1)
    else \<not> fst (path_prev path) \<and> snd (path_prev path) = []"
proof -
  obtain m i ups h where p: "path = (m, i) # ups" "leads xs h m ups" "i < num_items m"
    "k = length (before ups) + length (left_of m i) + length (parts m ! i)" using assms by (auto simp: points_def)
  show ?thesis
  proof (cases "is_leaf m")
    case True
    then have part: "parts m ! j = []" if "j \<le> num_items m" for j using that by (simp add: parts_leaf nth_Cons' del: replicate_Suc)
    show ?thesis
    proof (cases i)
      case 0
      then have "k = length (before ups)" using p(3,4) part by simp
      then show ?thesis using back_points[OF p(2)] p(1) True 0
        by (cases "dropWhile (\<lambda>(n, i). i = 0) ups") (auto simp: path_prev_def simp del: dropWhile_eq_Nil_conv)
    next
      case (Suc j)
      then show ?thesis using pointsI[OF p(2), of j] p part[of j] part[of i] True leaf_left_of[of m]
        by (simp add: path_prev_def num_items_def)
    qed
  next
    case False
    note c = leads_child_length[OF p(2) False less_imp_le[OF p(3)]]
    have "points xs (snd (path_prev path)) (k - 1)" using dig_right_points[OF c(1)] p(1,4) c(2) False by (simp add: path_prev_def add.assoc)
    moreover have "0 < k" using leads_items[OF c(1)] p(4) c(2) by simp
    ultimately show ?thesis using p(1) False by (simp add: path_prev_def)
  qed
qed

section \<open>From a rank to its path\<close>

lemma word_of_nat_less32: "a < 2 ^ 32 \<Longrightarrow> b < 2 ^ 32 \<Longrightarrow> (of_nat a :: u32) < of_nat b \<longleftrightarrow> a < b"
  by (simp add: word_less_nat_alt unat_of_nat take_bit_nat_eq_self)

lemma rank_scan_ok:
  assumes p: "node_ok (Suc h) d p" and fits: "length (inorder p) < 2 ^ 32"
    and "i \<le> num_items p" and "length (left_of p i) \<le> k" and "k < length (inorder p)"
  shows "(\<exists>j r. rank_scan (of_nat (k - length (left_of p i))) i (drop i (node_children p)) = Descend j (of_nat r) \<and> j \<le> num_items p
        \<and> r < length (inorder (child p j)) \<and> k = length (left_of p j) + r)
    \<or> (\<exists>j. rank_scan (of_nat (k - length (left_of p i))) i (drop i (node_children p)) = Stop j \<and> j < num_items p
        \<and> k = length (left_of p j) + length (inorder (child p j)))"
  using assms(3,4)
proof (induction "num_items p - i" arbitrary: i)
  have len: "length (node_children p) = Suc (num_items p)" using node_okD(1)[OF p] by (simp add: is_inner_simps)
  have shape: "shaped p" by (rule node_ok_shaped[OF p])
  have bound: "length (left_of p j) + length (inorder (child p j)) \<le> length (inorder p)" if "j \<le> num_items p" for j
    using slot_neighbours[OF p that] slot_child[OF p that] by (metis le_add1 length_append add.assoc)
  have count: "tree_count (child p j) = of_nat (length (inorder (child p j)))" if "j \<le> num_items p" for j
    using node_ok_child[OF p that] tree_count_ok[of h 0 "child p j"] by simp
  have smaller: "(of_nat (k - length (left_of p j)) :: u32) < tree_count (child p j)
      \<longleftrightarrow> k - length (left_of p j) < length (inorder (child p j))" if "j \<le> num_items p" for j
    using word_of_nat_less32[of "k - length (left_of p j)" "length (inorder (child p j))"] bound[OF that] count[OF that] assms(5) fits
    by simp
  have unfold: "drop j (node_children p) = child p j # drop (Suc j) (node_children p)" if "j \<le> num_items p" for j
    using that len by (simp add: child_def Cons_nth_drop_Suc)
  { case 0
    then have i: "i = num_items p" by simp
    have "k - length (left_of p i) < length (inorder (child p i))"
      using left_of_all[OF shape] parts_child[OF p, of i] i assms(5) 0(3)
      by (metis add_less_cancel_left le_add_diff_inverse length_append order_refl)
    then show ?case using unfold[OF 0(2)] smaller[OF 0(2)] 0(2,3)
      by (intro disjI1 exI[of _ i] exI[of _ "k - length (left_of p i)"]) auto }
  { case (Suc n)
    let ?r = "k - length (left_of p i)" and ?c = "length (inorder (child p i))"
    have i: "i < num_items p" using Suc(2) by simp
    have len': "length (left_of p (Suc i)) = length (left_of p i) + ?c + 1"
      using left_of_Suc[OF shape i] parts_child[OF p Suc.prems(1)] by simp
    have more: "drop (Suc i) (node_children p) \<noteq> []" using i len by simp
    show ?case
    proof (cases "?r < ?c")
      case True
      then show ?thesis using unfold[OF Suc.prems(1)] smaller[OF Suc.prems(1)] Suc.prems
        by (intro disjI1 exI[of _ i] exI[of _ ?r]) auto
    next
      case False
      have diff: "of_nat ?r - tree_count (child p i) = of_nat (?r - ?c)"
        using False count[OF Suc.prems(1)] by (metis not_le of_nat_diff)
      have "?r - ?c < 2 ^ 32" using assms(5) fits by linarith
      then have zero: "(of_nat (?r - ?c) :: u32) = 0 \<longleftrightarrow> ?r = ?c"
        using False word_of_nat_less32[of 0 "?r - ?c"] by (cases "(of_nat (?r - ?c) :: u32) = 0") (auto simp: word_neq_0_conv)
      show ?thesis
      proof (cases "?r = ?c")
        case True
        then show ?thesis using unfold[OF Suc.prems(1)] smaller[OF Suc.prems(1)] more diff i Suc.prems by (intro disjI2) auto
      next
        case other: False
        then have "length (left_of p (Suc i)) \<le> k" using False len' Suc.prems by simp
        moreover have sub: "(of_nat (?r - ?c) :: u32) - 1 = of_nat (k - length (left_of p (Suc i)))"
          using False other len' by (simp add: of_nat_diff)
        moreover have "rank_scan (of_nat ?r) i (drop i (node_children p))
            = rank_scan (of_nat (k - length (left_of p (Suc i)))) (Suc i) (drop (Suc i) (node_children p))"
          unfolding unfold[OF Suc.prems(1)] rank_scan.simps diff sub zero smaller[OF Suc.prems(1)]
          using other False more by simp
        ultimately show ?thesis using Suc.hyps(1)[of "Suc i"] Suc(2) i by simp
      qed
    qed }
qed

lemma to_rank_from_ok:
  assumes "leads xs h m ups" and "k < length (inorder m)" and "length (inorder m) < 2 ^ 32"
  shows "\<exists>path. to_rank_from (of_nat k) m ups = Some path \<and> points xs path (length (before ups) + k)"
  using assms
proof (induction h arbitrary: m ups k)
  case 0
  then have m: "is_leaf m" using leads_leaf by blast
  then have k: "k < num_items m" using 0 by (simp add: inorder_leaf num_items_def)
  moreover have "parts m ! k = []" using m k by (simp add: parts_leaf nth_Cons' del: replicate_Suc)
  moreover have "unat (of_nat k :: u32) = k" using 0(2,3) by (simp add: unat_of_nat take_bit_nat_eq_self)
  ultimately show ?case using m pointsI[OF 0(1), of k] leaf_left_of[OF m, of k]
    by (subst to_rank_from.simps) (simp add: num_items_def)
next
  case (Suc h)
  have inner: "\<not> is_leaf m" using Suc.prems(1) leads_leaf by blast
  have ok: "node_ok (Suc h) 0 m" using Suc.prems(1) by (simp add: leads_def)
  note c = leads_child_length[OF Suc.prems(1) inner]
  have bound: "length (left_of m j) + length (inorder (child m j)) \<le> length (inorder m)" if "j \<le> num_items m" for j
    using slot_neighbours[OF ok that] slot_child[OF ok that] by (metis le_add1 length_append add.assoc)
  have go: "\<exists>path. to_rank_from (of_nat r) (child m j) ((m, j) # ups) = Some path
      \<and> points xs path (length (before ups) + length (left_of m j) + r)"
    if "j \<le> num_items m" "r < length (inorder (child m j))" for j r
    using Suc.IH[of "child m j" "(m, j) # ups" r] c(1)[OF that(1)] that(2) bound[OF that(1)] Suc.prems(3)
    by (simp add: add.assoc)
  show ?case
  proof (cases "(of_nat k :: u32) = 0")
    case True
    then have "k = 0" using word_of_nat_less32[of 0 k] Suc.prems(2,3) by (auto simp: word_neq_0_conv[symmetric])
    moreover have "0 < length (inorder (child m 0))"
      using leads_items[OF c(1)[of 0]] by simp
    ultimately show ?thesis using go[of 0 0] True inner c(3)[of 0]
      by (subst to_rank_from.simps) simp
  next
    case False
    have "(\<exists>j r. rank_scan (of_nat k) 0 (node_children m) = Descend j (of_nat r) \<and> j \<le> num_items m
        \<and> r < length (inorder (child m j)) \<and> k = length (left_of m j) + r)
      \<or> (\<exists>j. rank_scan (of_nat k) 0 (node_children m) = Stop j \<and> j < num_items m
        \<and> k = length (left_of m j) + length (inorder (child m j)))"
      using rank_scan_ok[OF ok Suc.prems(3), of 0 k] Suc.prems(2) by simp
    then show ?thesis
    proof (elim disjE exE conjE)
      fix j r assume "rank_scan (of_nat k) 0 (node_children m) = Descend j (of_nat r)" "j \<le> num_items m"
        "r < length (inorder (child m j))" "k = length (left_of m j) + r"
      then show ?thesis using go[of j r] False inner c(3)[of 0] by (subst to_rank_from.simps) (simp add: add.assoc)
    next
      fix j assume "rank_scan (of_nat k) 0 (node_children m) = Stop j" "j < num_items m"
        "k = length (left_of m j) + length (inorder (child m j))"
      then show ?thesis using pointsI[OF Suc.prems(1), of j] c(2)[of j] False inner c(3)[of 0]
        by (subst to_rank_from.simps) (simp add: add.assoc)
    qed
  qed
qed

section \<open>The operations of the tree\<close>

lemma bt_from_rank_ok:
  assumes "bt_ok t" and "length (bt_items t) < 2 ^ 32" and "k < length (bt_items t)"
  shows "\<exists>path. bt_from_rank (of_nat k) t = Some path \<and> points (bt_items t) path k"
proof -
  obtain r where r: "bt_root t = Some r" using assms(3) by (cases "bt_root t") (simp_all add: bt_items_def)
  then obtain h where h: "tree_ok h r" using assms(1) by (auto simp: bt_ok_def)
  have items: "bt_items t = inorder r" "bt_count t = of_nat (length (inorder r))"
    using r assms(1) by (simp_all add: bt_items_def bt_ok_def)
  note root = tree_ok_leads[OF h]
  have less: "(of_nat k :: u32) < bt_count t" using word_of_nat_less32[of k "length (inorder r)"] assms items by simp
  show ?thesis
  proof (cases "of_nat k + 1 = bt_count t")
    case True
    then have "(of_nat (Suc k) :: u32) = of_nat (length (inorder r))" using items(2) by (simp add: add.commute)
    then have "Suc k = length (inorder r)"
      using assms(2,3) items(1) word_of_nat_less32[of "Suc k" "length (inorder r)"] by force
    then have "length (inorder r) - 1 = k" by simp
    then show ?thesis using dig_right_points[OF root] True less r items(1) by (simp add: bt_from_rank_def)
  next
    case False
    then show ?thesis using to_rank_from_ok[OF root, of k] assms(2,3) less r items(1) by (auto simp: bt_from_rank_def)
  qed
qed

text \<open>Where \<^verbatim>\<open>Locate\<close> ends, as a position: on an item that compares equal, or at a leaf before position \<open>k\<close>.\<close>

lemma locate_position:
  assumes "tree_ok h r" and "falls cmp (inorder r)" and "locate_from cmp r [] = (found, path)"
  shows "if found then \<exists>k. points (inorder r) path k \<and> cmp (inorder r ! k) = 0
    else \<exists>m i ups k. path = (m, i) # ups \<and> leads (inorder r) 0 m ups \<and> is_leaf m \<and> i \<le> num_items m
      \<and> k = length (before ups) + i \<and> k \<le> length (inorder r)
      \<and> (\<forall>j < k. 0 < cmp (inorder r ! j)) \<and> (\<forall>j < length (inorder r). k \<le> j \<longrightarrow> cmp (inorder r ! j) < 0)"
proof -
  obtain m i ups h' where m: "path = (m, i) # ups" "chain h' m ups" "node_ok h' 0 m" "fill_ok ups m"
      "ctx ups (inorder m) = inorder r" "located cmp found m i ups"
    using locate_root[OF assms] by metis
  then have leads: "leads (inorder r) h' m ups" by (simp add: leads_def)
  show ?thesis
  proof (cases found)
    case True
    then have i: "i < num_items m" "cmp (node_keys m ! i) = 0" using m(6) by (simp_all add: located_def)
    then show ?thesis
      using True pointsI[OF leads i(1)] points_item(2)[OF pointsI[OF leads i(1)]] m(1) by (auto simp: terminal_def)
  next
    case False
    then have leaf: "is_leaf m" "i \<le> num_items m" using m(6) by (simp_all add: located_def)
    let ?a = "before ups @ left_of m i"
    obtain b where ab: "\<And>z. ctx ups (slot m i z) = ?a @ z @ b" "\<forall>x \<in> set ?a. 0 < cmp x" "\<forall>x \<in> set b. cmp x < 0"
      using m(6) False unfolding located_def by (metis (no_types, lifting))
    have xs: "inorder r = ?a @ b" using ab(1)[of "[]"] leaf_slot_nil[OF leaf] m(5) by simp
    have len: "length ?a = length (before ups) + i" using leaf_left_of[OF leaf] leaf(2) by (simp add: num_items_def)
    have "\<forall>j < length ?a. 0 < cmp ((?a @ b) ! j)" using ab(2) by (metis nth_append nth_mem)
    moreover have "\<forall>j < length (?a @ b). length ?a \<le> j \<longrightarrow> cmp ((?a @ b) ! j) < 0"
      using ab(3) by (metis add_diff_inverse_nat length_append nat_add_left_cancel_less not_le nth_append nth_mem)
    moreover have "h' = 0" using leaf(1) leads leads_leaf by blast
    ultimately show ?thesis using False m(1) leads leaf len unfolding xs[symmetric] by (auto simp: xs)
  qed
qed

lemma falls_zero_unique:
  "falls cmp xs \<Longrightarrow> i < length xs \<Longrightarrow> j < length xs \<Longrightarrow> cmp (xs ! i) = 0 \<Longrightarrow> cmp (xs ! j) = 0 \<Longrightarrow> i = j"
  using falls_nth[of cmp xs i j] falls_nth[of cmp xs j i] by (cases i j rule: linorder_cases) auto

lemma bt_contains_ok:
  assumes "bt_ok t" and "falls (compare_to lt x) (bt_items t)" and "bt_root t \<noteq> None"
  shows "bt_contains lt x t = Some (\<exists>y \<in> set (bt_items t). compare_to lt x y = 0)"
proof -
  obtain r where r: "bt_root t = Some r" using assms(3) by blast
  then obtain h where h: "tree_ok h r" using assms(1) by (auto simp: bt_ok_def)
  have items: "bt_items t = inorder r" using r by (simp add: bt_items_def)
  obtain found path where loc: "locate_from (compare_to lt x) r [] = (found, path)"
    by (cases "locate_from (compare_to lt x) r []")
  have "found \<longleftrightarrow> (\<exists>y \<in> set (inorder r). compare_to lt x y = 0)"
    using locate_position[OF h assms(2)[unfolded items] loc] points_item(1)
    by (cases found) (auto simp: in_set_conv_nth, fastforce, metis less_irrefl not_le)
  then show ?thesis using r loc items by (simp add: bt_contains_def)
qed

lemma bt_get_rank_ok:
  assumes "bt_ok t" and "falls (compare_to lt x) (bt_items t)"
  shows "bt_get_rank lt x reverse t =
    (if \<exists>k < length (bt_items t). compare_to lt x (bt_items t ! k) = 0
     then Some (let k = THE k. k < length (bt_items t) \<and> compare_to lt x (bt_items t ! k) = 0
                in if reverse then of_nat (length (bt_items t) - 1 - k) else of_nat k)
     else None)"
proof (cases "bt_root t")
  case None
  then show ?thesis by (simp add: bt_get_rank_def bt_items_def)
next
  case (Some r)
  then obtain h where h: "tree_ok h r" using assms(1) by (auto simp: bt_ok_def)
  have items: "bt_items t = inorder r" "bt_count t = of_nat (length (inorder r))"
    using Some assms(1) by (simp_all add: bt_items_def bt_ok_def)
  obtain found path where loc: "locate_from (compare_to lt x) r [] = (found, path)"
    by (cases "locate_from (compare_to lt x) r []")
  note spec = locate_position[OF h assms(2)[unfolded items(1)] loc]
  show ?thesis
  proof (cases found)
    case True
    then obtain k where k: "points (inorder r) path k" "compare_to lt x (inorder r ! k) = 0" using spec by auto
    note len = points_item(1)[OF k(1)]
    have "(THE k. k < length (inorder r) \<and> compare_to lt x (inorder r ! k) = 0) = k"
      using falls_zero_unique[OF assms(2)[unfolded items(1)]] len k(2) by (intro the_equality) blast+
    moreover have "(of_nat (length (inorder r) - 1 - k) :: u32) = of_nat (length (inorder r)) - of_nat k - 1"
      using len by (simp add: of_nat_diff)
    ultimately show ?thesis
      using True Some loc items len k(2) path_rank_ok[OF k(1)] by (auto simp: bt_get_rank_def Let_def)
  next
    case False
    then have "\<not> (\<exists>k < length (inorder r). compare_to lt x (inorder r ! k) = 0)"
      using spec by (auto, metis less_irrefl not_le)
    then show ?thesis using False Some loc items by (simp add: bt_get_rank_def)
  qed
qed

text \<open>The first item that is not below the query, and the last one that is not above it.\<close>

lemma bt_geq_ok:
  assumes "bt_ok t" and "falls (compare_to lt q) (bt_items t)" and "bt_root t \<noteq> None"
  shows "\<exists>path. bt_geq lt q t = Some path \<and>
    ((\<exists>k. points (bt_items t) path k \<and> (\<forall>j < k. 0 < compare_to lt q (bt_items t ! j)) \<and> compare_to lt q (bt_items t ! k) \<le> 0)
     \<or> path = [] \<and> (\<forall>y \<in> set (bt_items t). 0 < compare_to lt q y))"
proof -
  let ?cmp = "compare_to lt q"
  obtain r where r: "bt_root t = Some r" using assms(3) by blast
  then obtain h where h: "tree_ok h r" using assms(1) by (auto simp: bt_ok_def)
  have items: "bt_items t = inorder r" using r by (simp add: bt_items_def)
  obtain found path where loc: "locate_from ?cmp r [] = (found, path)" by (cases "locate_from ?cmp r []")
  note spec = locate_position[OF h assms(2)[unfolded items] loc]
  show ?thesis
  proof (cases found)
    case True
    then obtain k where k: "points (inorder r) path k" "?cmp (inorder r ! k) = 0" using spec by auto
    then have "0 < ?cmp (inorder r ! j)" if "j < k" for j
      using falls_nth[OF assms(2)[unfolded items] that] points_item(1)[OF k(1)] by simp
    then show ?thesis using k True r loc items by (auto simp: bt_geq_def)
  next
    case False
    then obtain m i ups k where m: "path = (m, i) # ups" "leads (inorder r) 0 m ups" "is_leaf m" "i \<le> num_items m"
      "k = length (before ups) + i" "k \<le> length (inorder r)" "\<forall>j < k. 0 < ?cmp (inorder r ! j)"
      "\<forall>j < length (inorder r). k \<le> j \<longrightarrow> ?cmp (inorder r ! j) < 0" using spec by auto
    have part: "parts m ! i = []" using m(3,4) by (simp add: parts_leaf nth_Cons' del: replicate_Suc)
    let ?path = "if num_items m \<le> i then snd (path_next path) else path"
    have "if k < length (inorder r) then points (inorder r) ?path k else ?path = []"
    proof (cases "i = num_items m")
      case True
      have "k = length (before ups) + length (inorder m)" using True m(3,5) by (simp add: inorder_leaf num_items_def)
      then show ?thesis using ascend_points[OF m(2)] points_item(1)[of "inorder r" _ k] m(1,3) True
        by (auto simp: path_next_def Let_def split: if_splits)
    next
      case False
      then have "points (inorder r) path k"
        using pointsI[OF m(2), of i] m(1,4,5) part leaf_left_of[OF m(3,4)] by (simp add: num_items_def)
      then show ?thesis using points_item(1) False m(4) by auto
    qed
    then have "(\<exists>k. points (inorder r) ?path k \<and> (\<forall>j < k. 0 < ?cmp (inorder r ! j)) \<and> ?cmp (inorder r ! k) \<le> 0)
      \<or> ?path = [] \<and> (\<forall>y \<in> set (inorder r). 0 < ?cmp y)"
      using m(6,7,8) by (cases "k < length (inorder r)") (fastforce simp: in_set_conv_nth)+
    moreover have "bt_geq lt q t = Some ?path" using False r loc m(1) by (simp add: bt_geq_def)
    ultimately show ?thesis unfolding items by blast
  qed
qed

lemma bt_leq_ok:
  assumes "bt_ok t" and "falls (compare_to lt q) (bt_items t)" and "bt_root t \<noteq> None"
  shows "\<exists>path. bt_leq lt q t = Some path \<and>
    ((\<exists>k. points (bt_items t) path k \<and> 0 \<le> compare_to lt q (bt_items t ! k)
        \<and> (\<forall>j < length (bt_items t). k < j \<longrightarrow> compare_to lt q (bt_items t ! j) < 0))
     \<or> path = [] \<and> (\<forall>y \<in> set (bt_items t). compare_to lt q y < 0))"
proof -
  let ?cmp = "compare_to lt q"
  obtain r where r: "bt_root t = Some r" using assms(3) by blast
  then obtain h where h: "tree_ok h r" using assms(1) by (auto simp: bt_ok_def)
  have items: "bt_items t = inorder r" using r by (simp add: bt_items_def)
  obtain found path where loc: "locate_from ?cmp r [] = (found, path)" by (cases "locate_from ?cmp r []")
  note spec = locate_position[OF h assms(2)[unfolded items] loc]
  show ?thesis
  proof (cases found)
    case True
    then obtain k where k: "points (inorder r) path k" "?cmp (inorder r ! k) = 0" using spec by auto
    then have "?cmp (inorder r ! j) < 0" if "k < j" "j < length (inorder r)" for j
      using falls_nth_neg[OF assms(2)[unfolded items] that] by simp
    then show ?thesis using k True r loc items by (auto simp: bt_leq_def)
  next
    case False
    then obtain m i ups k where m: "path = (m, i) # ups" "leads (inorder r) 0 m ups" "is_leaf m" "i \<le> num_items m"
      "k = length (before ups) + i" "k \<le> length (inorder r)" "\<forall>j < k. 0 < ?cmp (inorder r ! j)"
      "\<forall>j < length (inorder r). k \<le> j \<longrightarrow> ?cmp (inorder r ! j) < 0" using spec by auto
    let ?path = "snd (path_prev path)"
    have "if 0 < k then points (inorder r) ?path (k - 1) else ?path = []"
    proof (cases i)
      case 0
      then show ?thesis using back_points[OF m(2)] m(1,3,5)
        by (cases "dropWhile (\<lambda>(n, i). i = 0) ups") (auto simp: path_prev_def simp del: dropWhile_eq_Nil_conv)
    next
      case (Suc j)
      then have "parts m ! j = []" using m(3,4) by (simp add: parts_leaf nth_Cons' del: replicate_Suc)
      then show ?thesis using pointsI[OF m(2), of j] m(1,3,4,5) Suc leaf_left_of[OF m(3), of j]
        by (simp add: path_prev_def num_items_def)
    qed
    then have "(\<exists>k. points (inorder r) ?path k \<and> 0 \<le> ?cmp (inorder r ! k)
        \<and> (\<forall>j < length (inorder r). k < j \<longrightarrow> ?cmp (inorder r ! j) < 0))
      \<or> ?path = [] \<and> (\<forall>y \<in> set (inorder r). ?cmp y < 0)"
    proof (cases "0 < k")
      case True
      then have "0 < ?cmp (inorder r ! (k - 1))" "\<forall>j < length (inorder r). k - 1 < j \<longrightarrow> ?cmp (inorder r ! j) < 0"
        using m(7,8) by simp_all
      moreover assume "if 0 < k then points (inorder r) ?path (k - 1) else ?path = []"
      ultimately show ?thesis using True by (metis less_imp_le)
    qed (use m(8) in \<open>auto simp: in_set_conv_nth\<close>)
    then show ?thesis using False r loc items by (simp add: bt_leq_def)
  qed
qed

text \<open>A callback run over a list of items until it answers false.\<close>

fun visit :: "('a \<Rightarrow> 's \<Rightarrow> bool \<times> 's) \<Rightarrow> 'a list \<Rightarrow> 's \<Rightarrow> bool \<times> 's" where
  "visit cb [] s = (True, s)"
| "visit cb (x # xs) s = (case cb x s of (False, s') \<Rightarrow> (False, s') | (True, s') \<Rightarrow> visit cb xs s')"

lemma walk_next_ok:
  "points xs path k \<Longrightarrow> walk path_next True cb n path s = Some (visit cb (take n (drop k xs)) s)"
proof (induction n arbitrary: path k s)
  case (Suc n)
  note at = points_item[OF Suc.prems]
  obtain b path' where nxt: "path_next path = (b, path')" by (cases "path_next path")
  have drop: "drop k xs = xs ! k # drop (Suc k) xs" using at(1) by (simp add: Cons_nth_drop_Suc)
  show ?case
  proof (cases "Suc k < length xs")
    case True
    then have "b" "points xs path' (Suc k)" using path_next_ok[OF Suc.prems] nxt by simp_all
    then show ?thesis using Suc.IH at(2) nxt drop by (auto split: prod.split bool.split)
  next
    case False
    then have "\<not> b" using path_next_ok[OF Suc.prems] nxt by simp
    then show ?thesis using at(2) nxt drop False by (auto split: prod.split bool.split)
  qed
qed simp

lemma walk_prev_ok:
  "points xs path k \<Longrightarrow> n \<le> Suc k \<Longrightarrow>
   walk path_prev False cb n path s = Some (visit cb (take n (rev (take (Suc k) xs))) s)"
proof (induction n arbitrary: path k s)
  case (Suc n)
  note at = points_item[OF Suc.prems(1)]
  obtain b path' where prv: "path_prev path = (b, path')" by (cases "path_prev path")
  have rev: "rev (take (Suc k) xs) = xs ! k # rev (take k xs)" using at(1) by (simp add: take_Suc_conv_app_nth)
  show ?case
  proof (cases k)
    case 0
    then show ?thesis using Suc.prems(2) at(2) prv rev by (auto split: prod.split bool.split)
  next
    case (Suc j)
    then have "points xs path' j" using path_prev_ok[OF Suc.prems(1)] prv by simp
    then show ?thesis using Suc.IH[of path' j] Suc.prems(2) at(2) prv rev Suc by (auto split: prod.split bool.split)
  qed
qed simp

lemma bt_iterate_ok:
  assumes "bt_ok t" and "length (bt_items t) < 2 ^ 32" and "rank_start \<le> rank_end"
  shows "bt_iterate rank_start rank_end cb t s
    = Some (visit cb (take (unat rank_end - unat rank_start + 1) (drop (unat rank_start) (bt_items t))) s)"
proof -
  have size: "bt_size t = of_nat (length (bt_items t))" using assms(1) by (simp add: bt_size_def bt_ok_def)
  have start: "rank_start < bt_size t \<longleftrightarrow> unat rank_start < length (bt_items t)"
    using size assms(2) by (simp add: word_less_nat_alt unat_of_nat take_bit_nat_eq_self)
  show ?thesis
  proof (cases "unat rank_start < length (bt_items t)")
    case True
    then obtain path where "bt_from_rank rank_start t = Some path" "points (bt_items t) path (unat rank_start)"
      using bt_from_rank_ok[OF assms(1,2), of "unat rank_start"] by auto
    then show ?thesis using walk_next_ok[of "bt_items t" path "unat rank_start" cb _ s] start True assms(3)
      by (simp add: bt_iterate_def not_le del: walk.simps)
  next
    case False
    then show ?thesis using start by (simp add: bt_iterate_def not_less)
  qed
qed

lemma bt_iterate_reverse_ok:
  assumes "bt_ok t" and "length (bt_items t) < 2 ^ 32" and "rank_start \<le> rank_end"
    and "unat rank_end < length (bt_items t)"
  shows "bt_iterate_reverse rank_start rank_end cb t s
    = Some (visit cb (take (unat rank_end - unat rank_start + 1) (drop (unat rank_start) (rev (bt_items t)))) s)"
proof -
  let ?n = "length (bt_items t)" and ?k = "length (bt_items t) - 1 - unat rank_start"
  have count: "bt_count t = of_nat ?n" using assms(1) by (simp add: bt_ok_def)
  have order: "unat rank_start \<le> unat rank_end" using assms(3) by (simp add: word_le_nat_alt)
  have less: "rank_end < bt_count t"
    using count assms(2,4) by (simp add: word_less_nat_alt unat_of_nat take_bit_nat_eq_self)
  define w where "w = bt_count t - 1 - rank_start"
  have "w = of_nat ?k" using count assms(4) order by (simp add: w_def of_nat_diff)
  then obtain path where path: "bt_from_rank w t = Some path" "points (bt_items t) path ?k"
    using bt_from_rank_ok[OF assms(1,2), of ?k] assms(4) by fastforce
  have "rev (take (Suc ?k) (bt_items t)) = drop (unat rank_start) (rev (bt_items t))"
    using assms(4) order by (simp add: rev_take)
  moreover have "unat rank_end - unat rank_start + 1 \<le> Suc ?k" using assms(4) order by simp
  ultimately show ?thesis
    unfolding bt_iterate_reverse_def w_def[symmetric] using walk_prev_ok[OF path(2), of _ cb s] path(1) less assms(3)
    by (simp del: walk.simps)
qed

section \<open>Clearing and replacing\<close>

text \<open>What the loop of \<^verbatim>\<open>Clear\<close> still has to destroy below the nodes of its path, and these nodes.\<close>

fun pending :: "'a path \<Rightarrow> nat" where
  "pending [] = 0"
| "pending ((n, i) # ups) = Suc (sum_list (map node_total (drop (Suc i) (node_children n)))) + pending ups"

fun clear_path :: "nat \<Rightarrow> 'a path \<Rightarrow> bool" where
  "clear_path h [] \<longleftrightarrow> True"
| "clear_path h ((n, i) # ups) \<longleftrightarrow> node_ok (Suc h) 0 n \<and> i \<le> num_items n \<and> clear_path (Suc h) ups"

lemma node_total_inner: "\<not> is_leaf n \<Longrightarrow> node_total n = Suc (sum_list (map node_total (node_children n)))"
  by (cases n) simp_all

lemma node_total_leaf: "is_leaf n \<Longrightarrow> node_total n = 1"
  by (cases n) simp_all

lemma deep_left_pending:
  "node_ok h 0 n \<Longrightarrow> clear_path h ups \<Longrightarrow> deep_left n ups = (n', path') \<Longrightarrow>
   clear_path 0 path' \<and> Suc (pending path') = node_total n + pending ups"
proof (induction h arbitrary: n ups)
  case 0
  then show ?case by (simp add: deep_left.simps[of n] node_total_leaf)
next
  case (Suc h)
  have n: "\<not> is_leaf n" "length (node_children n) = Suc (num_items n)"
    using node_okD(1,2)[OF Suc.prems(1)] by (simp_all add: is_inner_simps)
  have "node_ok h 0 (child n 0)" using node_ok_child[OF Suc.prems(1), of 0] by simp
  moreover have "deep_left (child n 0) ((n, 0) # ups) = (n', path')"
    using Suc.prems(3) n by (simp add: deep_left.simps[of n])
  moreover have "clear_path h ((n, 0) # ups)" using Suc.prems(1,2) by simp
  ultimately have "clear_path 0 path' \<and> Suc (pending path') = node_total (child n 0) + pending ((n, 0) # ups)"
    using Suc.IH by blast
  moreover have "node_children n = child n 0 # drop (Suc 0) (node_children n)"
    using n(2) by (cases "node_children n") (simp_all add: child_def)
  then have "sum_list (map node_total (node_children n))
      = node_total (child n 0) + sum_list (map node_total (drop (Suc 0) (node_children n)))"
    by (metis list.simps(9) sum_list.Cons)
  ultimately show ?case using n(1) by (simp add: node_total_inner)
qed

lemma clear_loop_ok:
  "clear_path h path \<Longrightarrow> clear_loop (Suc (pending path)) node path d = Some (Suc (pending path) + d)"
proof (induction "pending path" arbitrary: h node path d rule: less_induct)
  case less
  show ?case
  proof (cases path)
    case (Cons r ups)
    obtain n i where r: "r = (n, i)" by (cases r)
    have n: "node_ok (Suc h) 0 n" "i \<le> num_items n" "clear_path (Suc h) ups" using less.prems Cons r by simp_all
    have len: "length (node_children n) = Suc (num_items n)"
      using node_okD(1)[OF n(1)] by (simp add: is_inner_simps)
    show ?thesis
    proof (cases "i < num_items n")
      case True
      obtain node' path' where dl: "deep_left (child n (Suc i)) ((n, Suc i) # ups) = (node', path')"
        by (cases "deep_left (child n (Suc i)) ((n, Suc i) # ups)")
      have "drop (Suc i) (node_children n) = child n (Suc i) # drop (Suc (Suc i)) (node_children n)"
        using True len by (simp add: child_def Cons_nth_drop_Suc)
      moreover have "clear_path 0 path' \<and> Suc (pending path') = node_total (child n (Suc i)) + pending ((n, Suc i) # ups)"
        using deep_left_pending[OF _ _ dl, of h] node_ok_child[OF n(1), of "Suc i"] n True by simp
      ultimately have "clear_path 0 path'" "pending path = Suc (pending path')" using Cons r by simp_all
      moreover have step: "clear_loop (Suc k) node path d = clear_loop k node' path' (d + 1)" for k
        using True Cons r dl by simp
      ultimately show ?thesis unfolding step using less.hyps[of path' 0 node' "d + 1"] by simp
    next
      case False
      then have "pending path = Suc (pending ups)" using Cons r len by simp
      moreover have step: "clear_loop (Suc k) node path d = clear_loop k n ups (d + 1)" for k
        using False Cons r by simp
      ultimately show ?thesis unfolding step using less.hyps[of ups "Suc h" n "d + 1"] n(3) by simp
    qed
  qed simp
qed

text \<open>
  Clear on nodes: the number of its loop's rounds, one destroyed node each, is the number of nodes of the tree, and the tree is empty
  afterwards.  That the rounds destroy every block once is \<open>clear_in_memory\<close>.
\<close>

theorem clear_destroys_all:
  assumes "bt_ok t" and "bt_root t = Some r"
  shows "clear_loop (node_total r) (fst (deep_left r [])) (snd (deep_left r [])) 0 = Some (node_total r)
    \<and> bt_nodes (bt_clear t) = bt_nodes t - of_nat (node_total r) \<and> bt_items (bt_clear t) = [] \<and> bt_ok (bt_clear t)"
proof -
  obtain h where h: "node_ok h 0 r" using assms by (auto simp: bt_ok_def tree_ok_def)
  obtain node path where dl: "deep_left r [] = (node, path)" by (cases "deep_left r []")
  then have "clear_path 0 path" "Suc (pending path) = node_total r" using deep_left_pending[OF h _ dl] by simp_all
  then have "clear_loop (node_total r) node path 0 = Some (node_total r)" using clear_loop_ok[of 0 path node 0] by simp
  then show ?thesis using dl assms by (simp add: bt_clear_def bt_items_def bt_ok_def)
qed

theorem clear_destroys_all_witness:
  "bt_nodes (bt_clear (snd (bt_insert (<) (3 :: nat) bt_new))) = 0"
proof -
  let ?t = "snd (bt_insert (<) (3 :: nat) bt_new)"
  have "bt_ok ?t"
    using bt_insert_spec(3)[OF bt_new_ok, of "(<)" "3 :: nat" "fst (bt_insert (<) (3 :: nat) bt_new)" ?t]
    by (simp add: falls_def)
  moreover have "bt_root ?t = Some (Leaf [3])" "bt_nodes ?t = 1" by (simp_all add: bt_insert_def bt_new_def)
  ultimately show ?thesis using clear_destroys_all[of ?t "Leaf [3]"] by simp
qed

text \<open>\<^verbatim>\<open>ForceUpdate\<close>; \<open>None\<close> where the code asserts that the old key is there.\<close>

definition bt_force_update :: "('a \<Rightarrow> 'a \<Rightarrow> bool) \<Rightarrow> 'a \<Rightarrow> 'a \<Rightarrow> 'a bptree \<Rightarrow> 'a bptree option" where
  "bt_force_update lt old new_obj t =
     (case bt_root t of
        None \<Rightarrow> None
      | Some root \<Rightarrow>
          (case locate_from (compare_to lt old) root [] of
             (True, (node, pos) # ups) \<Rightarrow> Some (t\<lparr>bt_root := Some (rebuild 0 ups (set_key pos new_obj node))\<rparr>)
           | _ \<Rightarrow> None))"

lemma set_key_context:
  assumes "leads xs h m ups" and "i < num_items m"
  obtains a b where "xs = a @ node_keys m ! i # b" and "ctx ups (inorder (set_key i y m)) = a @ y # b"
    and "node_ok h 0 (set_key i y m)"
proof -
  have m: "node_ok h 0 m" "chain h m ups" "ctx ups (inorder m) = xs" using assms(1) by (simp_all add: leads_def)
  obtain a b where ab: "\<And>z. slot m i z = a @ z @ node_keys m ! i # b" "\<And>z. slot (set_key i y m) i z = a @ z @ y # b"
    using slot_key[OF m(1) assms(2)] by blast
  obtain c where c: "\<And>z. ctx ups z = before ups @ z @ c" using ctx_before[OF m(2)] by blast
  have parts: "parts (set_key i y m) = parts m" by (cases m) (simp_all add: parts_def set_key_def)
  have ok: "node_ok h 0 (set_key i y m)"
  proof (cases h)
    case 0
    then show ?thesis using m(1) by (cases m) (simp_all add: set_key_def)
  qed (use set_key_ok(1)[of _ 0 m i y] m(1) assms(2) in auto)
  have "num_items (set_key i y m) = num_items m" by (cases m) (simp_all add: set_key_def)
  then have "inorder m = a @ parts m ! i @ node_keys m ! i # b" "inorder (set_key i y m) = a @ parts m ! i @ y # b"
    using slot_same[OF m(1), of i] slot_same[OF ok, of i] assms(2) ab parts by simp_all
  then show ?thesis using that[of "before ups @ a @ parts m ! i" "b @ c"] m(3) c ok by simp
qed

lemma bt_force_update_ok:
  assumes "bt_ok t" and "falls (compare_to lt old) (bt_items t)" and "bt_force_update lt old x t = Some t'"
  shows "\<exists>a y b. bt_items t = a @ y # b \<and> compare_to lt old y = 0 \<and> bt_items t' = a @ x # b \<and> bt_ok t'"
proof -
  obtain r where r: "bt_root t = Some r" using assms(3) by (cases "bt_root t") (simp_all add: bt_force_update_def)
  then obtain h where h: "tree_ok h r" "bt_height t = of_nat (Suc h)" using assms(1) by (auto simp: bt_ok_def)
  have items: "bt_items t = inorder r" using r by (simp add: bt_items_def)
  obtain path where loc: "locate_from (compare_to lt old) r [] = (True, path)"
    using assms(3) r by (auto simp: bt_force_update_def split: prod.splits bool.splits)
  then obtain m i ups h' where m: "path = (m, i) # ups" "chain h' m ups" "node_ok h' 0 m" "fill_ok ups m"
      "h' + length ups = h" "ctx ups (inorder m) = inorder r" "located (compare_to lt old) True m i ups"
    using locate_root[OF h(1) assms(2)[unfolded items] loc] by metis
  then have i: "i < num_items m" "compare_to lt old (node_keys m ! i) = 0" by (simp_all add: located_def)
  have "leads (inorder r) h' m ups" using m by (simp add: leads_def)
  from set_key_context[OF this i(1), of x] obtain a b where ab: "inorder r = a @ node_keys m ! i # b"
    "ctx ups (inorder (set_key i x m)) = a @ x # b" "node_ok h' 0 (set_key i x m)" by blast
  have sel: "num_items (set_key i x m) = num_items m" "is_leaf (set_key i x m) = is_leaf m"
    "tree_count (set_key i x m) = tree_count m"
    by (cases m; simp add: set_key_def tree_count_def)+
  have "tree_ok h (rebuild 0 ups (set_key i x m)) \<and> inorder (rebuild 0 ups (set_key i x m)) = a @ x # b"
    using rebuild_ok[OF m(2,3) ab(3), of 0] fill_ok_cong[OF sel(1,2)] m(4,5) ab(2) sel(3) by simp
  moreover have "t' = t\<lparr>bt_root := Some (rebuild 0 ups (set_key i x m))\<rparr>"
    using assms(3) r loc m(1) by (simp add: bt_force_update_def)
  ultimately show ?thesis
    using ab(1) i(2) h(2) assms(1) items by (auto simp: bt_ok_def bt_items_def)
qed

end
