(* ===== verification/Scored_Tree.thy ===== *)
theory Scored_Tree
  imports BPlus_Rank "HOL-Library.Product_Lexorder"
begin

text \<open>
  The element of the sorted sets (\<^verbatim>\<open>ScoredMemberCompact\<close> of \<^verbatim>\<open>src/zset/bplustree_zset.hpp\<close>) and the B+ tree as an
  ordered set.  A \<^verbatim>\<open>double\<close> is its IEEE 754 bit pattern with the comparisons of the standard: false on a NaN,
  the two zeros equal.  The locale \<open>item_order\<close> states what the tree needs of its comparison, an order by a
  key on the items that may occur; the members of a sorted set provide it as long as no score is a NaN.
\<close>

section \<open>Doubles\<close>

type_synonym double = u64

definition dbl_magnitude :: "double \<Rightarrow> u64" where
  "dbl_magnitude d = d AND 0x7FFFFFFFFFFFFFFF"

definition is_nan :: "double \<Rightarrow> bool" where
  "is_nan d \<longleftrightarrow> 0x7FF0000000000000 < dbl_magnitude d"

text \<open>Sign and magnitude as an integer: it grows with the value, and both zeros are 0.\<close>

definition dbl_order :: "double \<Rightarrow> int" where
  "dbl_order d = (if d < 0x8000000000000000 then uint (dbl_magnitude d) else - uint (dbl_magnitude d))"

definition dbl_eq :: "double \<Rightarrow> double \<Rightarrow> bool" where
  "dbl_eq a b \<longleftrightarrow> \<not> is_nan a \<and> \<not> is_nan b \<and> dbl_order a = dbl_order b"

definition dbl_less :: "double \<Rightarrow> double \<Rightarrow> bool" where
  "dbl_less a b \<longleftrightarrow> \<not> is_nan a \<and> \<not> is_nan b \<and> dbl_order a < dbl_order b"

section \<open>Scored members\<close>

record scored_member =
  sm_score :: double
  sm_hash :: u64

definition scored_member :: "double \<Rightarrow> u64 \<Rightarrow> scored_member" where
  "scored_member s h = \<lparr>sm_score = s, sm_hash = h\<rparr>"

definition scored_less :: "scored_member \<Rightarrow> scored_member \<Rightarrow> bool" where
  "scored_less a b =
     (if \<not> dbl_eq (sm_score a) (sm_score b) then dbl_less (sm_score a) (sm_score b)
      else sm_hash a < sm_hash b)"

definition scored_eq :: "scored_member \<Rightarrow> scored_member \<Rightarrow> bool" where
  "scored_eq a b \<longleftrightarrow> dbl_eq (sm_score a) (sm_score b) \<and> sm_hash a = sm_hash b"

definition scored_proper :: "scored_member \<Rightarrow> bool" where
  "scored_proper m \<longleftrightarrow> \<not> is_nan (sm_score m)"

definition scored_key :: "scored_member \<Rightarrow> int \<times> u64" where
  "scored_key m = (dbl_order (sm_score m), sm_hash m)"

section \<open>The tree as an ordered set\<close>

definition ascending :: "('a \<Rightarrow> 'k::linorder) \<Rightarrow> 'a list \<Rightarrow> bool" where
  "ascending key xs \<longleftrightarrow> sorted_wrt (<) (map key xs)"

definition ordered_tree :: "('a \<Rightarrow> bool) \<Rightarrow> ('a \<Rightarrow> 'k::linorder) \<Rightarrow> 'a bptree \<Rightarrow> bool" where
  "ordered_tree proper key t \<longleftrightarrow> bt_ok t \<and> ascending key (bt_items t) \<and> (\<forall>x \<in> set (bt_items t). proper x)"

definition tree_keys :: "('a \<Rightarrow> 'k) \<Rightarrow> 'a bptree \<Rightarrow> 'k set" where
  "tree_keys key t = key ` set (bt_items t)"

lemma ascending_append:
  "ascending key (xs @ ys) \<longleftrightarrow> ascending key xs \<and> ascending key ys \<and> (\<forall>x \<in> set xs. \<forall>y \<in> set ys. key x < key y)"
  by (auto simp: ascending_def sorted_wrt_append)

lemma ascending_filter: "ascending key xs \<Longrightarrow> ascending key (filter P xs)"
  by (auto simp: ascending_def sorted_wrt_map intro: sorted_wrt_filter)

lemma ascending_nth_less:
  "ascending key xs \<Longrightarrow> i < length xs \<Longrightarrow> j < length xs \<Longrightarrow> key (xs ! i) < key (xs ! j) \<longleftrightarrow> i < j"
  unfolding ascending_def by (cases i j rule: linorder_cases) (auto simp: sorted_wrt_iff_nth_less dest: order_less_asym)

lemma filter_from_bound:
  "ascending key xs \<Longrightarrow> filter (\<lambda>y. q \<le> key y) xs = drop (length (filter (\<lambda>y. key y < q) xs)) xs"
proof (induction xs)
  case (Cons x xs)
  then have xs: "ascending key xs" "\<forall>y \<in> set xs. key x < key y" by (simp_all add: ascending_def)
  show ?case
  proof (cases "key x < q")
    case False
    then have "filter (\<lambda>y. key y < q) xs = []" "filter (\<lambda>y. q \<le> key y) xs = xs"
      using xs(2) by (auto simp: filter_empty_conv filter_id_conv)
    then show ?thesis using False by (simp add: not_less)
  qed (use Cons.IH[OF xs(1)] in \<open>auto simp: not_le[symmetric]\<close>)
qed simp

locale item_order =
  fixes lt :: "'a \<Rightarrow> 'a \<Rightarrow> bool" and proper :: "'a \<Rightarrow> bool" and key :: "'a \<Rightarrow> 'k::linorder"
  assumes lt_key: "proper a \<Longrightarrow> proper b \<Longrightarrow> lt a b \<longleftrightarrow> key a < key b"
begin

lemma compare_sign:
  assumes "proper a" and "proper b"
  shows "compare_to lt a b < 0 \<longleftrightarrow> key a < key b" and "0 < compare_to lt a b \<longleftrightarrow> key b < key a"
    and "compare_to lt a b = 0 \<longleftrightarrow> key a = key b" and "compare_to lt a b \<le> 0 \<longleftrightarrow> key a \<le> key b"
    and "0 \<le> compare_to lt a b \<longleftrightarrow> key b \<le> key a"
  using lt_key[OF assms] lt_key[OF assms(2,1)] by (auto simp: compare_to_def)

lemma falls_ascending:
  assumes "ordered_tree proper key t" and "proper x"
  shows "falls (compare_to lt x) (bt_items t)"
  unfolding falls_def
proof (rule sorted_wrt_mono_rel[where P = "\<lambda>a b. key a < key b"])
  show "sorted_wrt (\<lambda>a b. key a < key b) (bt_items t)"
    using assms(1) by (simp add: ordered_tree_def ascending_def sorted_wrt_map)
  fix a b assume "a \<in> set (bt_items t)" "b \<in> set (bt_items t)" "key a < key b"
  then show "0 \<le> compare_to lt x b \<longrightarrow> 0 < compare_to lt x a"
    using assms compare_sign[of x] by (auto simp: ordered_tree_def)
qed

lemma insert_ordered:
  assumes "ordered_tree proper key t" and "proper x" and "bt_insert lt x t = (b, t')"
  shows "ordered_tree proper key t'" and "b \<longleftrightarrow> key x \<notin> tree_keys key t"
    and "tree_keys key t' = insert (key x) (tree_keys key t)"
    and "set (bt_items t') = (if b then insert x (set (bt_items t)) else set (bt_items t))"
proof -
  have proper: "\<And>y. y \<in> set (bt_items t) \<Longrightarrow> proper y" using assms(1) by (simp add: ordered_tree_def)
  note spec = bt_insert_spec[OF _ falls_ascending[OF assms(1,2)] assms(3)]
  have ok: "bt_ok t" using assms(1) by (simp add: ordered_tree_def)
  show b: "b \<longleftrightarrow> key x \<notin> tree_keys key t"
    using spec(1)[OF ok] compare_sign(3)[OF assms(2) proper] by (auto simp: tree_keys_def)
  have items: "bt_items t' = (if b then filter (\<lambda>y. key y < key x) (bt_items t) @ x
      # filter (\<lambda>y. key x < key y) (bt_items t) else bt_items t)"
    using spec(2)[OF ok] compare_sign(1,2)[OF assms(2) proper] by (simp cong: filter_cong)
  show set: "set (bt_items t') = (if b then insert x (set (bt_items t)) else set (bt_items t))"
  proof (cases b)
    case True
    then have "key y \<noteq> key x" if "y \<in> set (bt_items t)" for y using b that by (metis image_eqI tree_keys_def)
    then show ?thesis using True items by auto (metis linorder_cases)
  qed (use items in simp)
  show "tree_keys key t' = insert (key x) (tree_keys key t)"
    using set b by (auto simp: tree_keys_def)
  have "ascending key (bt_items t')"
  proof (cases b)
    case True
    have "ascending key (filter (\<lambda>y. key y < key x) (bt_items t) @ [x] @ filter (\<lambda>y. key x < key y) (bt_items t))"
      using assms(1) ascending_filter[of key "bt_items t"] unfolding ordered_tree_def ascending_append
      by (auto simp: ascending_def)
    then show ?thesis using items True by simp
  qed (use items assms(1) in \<open>simp add: ordered_tree_def\<close>)
  then show "ordered_tree proper key t'"
    using spec(3)[OF ok] set assms(2) proper by (auto simp: ordered_tree_def split: if_splits)
qed

lemma delete_ordered:
  assumes "ordered_tree proper key t" and "proper x" and "bt_delete lt x t = (b, t')"
  shows "ordered_tree proper key t'" and "b \<longleftrightarrow> key x \<in> tree_keys key t"
    and "tree_keys key t' = tree_keys key t - {key x}"
    and "bt_items t' = filter (\<lambda>y. key y \<noteq> key x) (bt_items t)"
proof -
  have proper: "\<And>y. y \<in> set (bt_items t) \<Longrightarrow> proper y" using assms(1) by (simp add: ordered_tree_def)
  note spec = bt_delete_spec[OF _ falls_ascending[OF assms(1,2)] assms(3)]
  have ok: "bt_ok t" using assms(1) by (simp add: ordered_tree_def)
  show "b \<longleftrightarrow> key x \<in> tree_keys key t"
    using spec(1)[OF ok] compare_sign(3)[OF assms(2) proper] by (auto simp: tree_keys_def)
  show items: "bt_items t' = filter (\<lambda>y. key y \<noteq> key x) (bt_items t)"
    using spec(2)[OF ok] compare_sign(3)[OF assms(2) proper] by (auto intro!: filter_cong)
  show "tree_keys key t' = tree_keys key t - {key x}" by (auto simp: tree_keys_def items)
  show "ordered_tree proper key t'"
    using spec(3)[OF ok] assms(1) by (auto simp: ordered_tree_def items ascending_filter)
qed

lemma contains_ordered:
  assumes "ordered_tree proper key t" and "proper x" and "bt_root t \<noteq> None"
  shows "bt_contains lt x t = Some (key x \<in> tree_keys key t)"
proof -
  have "bt_contains lt x t = Some (\<exists>y \<in> set (bt_items t). compare_to lt x y = 0)"
    using bt_contains_ok[OF _ falls_ascending[OF assms(1,2)] assms(3)] assms(1) by (simp add: ordered_tree_def)
  then show ?thesis
    using compare_sign(3)[OF assms(2)] assms(1) by (auto simp: ordered_tree_def tree_keys_def)
qed

lemma rank_ordered:
  assumes "ordered_tree proper key t" and "proper x" and "k < length (bt_items t)" and "key (bt_items t ! k) = key x"
  shows "bt_get_rank lt x reverse t = Some (of_nat (if reverse then length (bt_items t) - 1 - k else k))"
proof -
  have proper: "\<And>j. j < length (bt_items t) \<Longrightarrow> proper (bt_items t ! j)" using assms(1) by (simp add: ordered_tree_def)
  have zero: "compare_to lt x (bt_items t ! k) = 0" using compare_sign(3)[OF assms(2) proper[OF assms(3)]] assms(4) by simp
  have "(THE k. k < length (bt_items t) \<and> compare_to lt x (bt_items t ! k) = 0) = k"
    using falls_zero_unique[OF falls_ascending[OF assms(1,2)]] assms(3) zero by (intro the_equality) blast+
  then show ?thesis
    using bt_get_rank_ok[OF _ falls_ascending[OF assms(1,2)], of reverse] assms(1,3) zero
    by (auto simp: ordered_tree_def Let_def)
qed

lemma rank_absent:
  assumes "ordered_tree proper key t" and "proper x" and "key x \<notin> tree_keys key t"
  shows "bt_get_rank lt x reverse t = None"
proof -
  have "compare_to lt x (bt_items t ! k) \<noteq> 0" if "k < length (bt_items t)" for k
    using that assms compare_sign(3)[OF assms(2), of "bt_items t ! k"] nth_mem[OF that]
    by (auto simp: ordered_tree_def tree_keys_def)
  then show ?thesis
    using bt_get_rank_ok[OF _ falls_ascending[OF assms(1,2)], of reverse] assms(1) by (auto simp: ordered_tree_def)
qed

text \<open>The search by a bound, which may itself not be in the tree.\<close>

lemma geq_ordered:
  assumes "ordered_tree proper key t" and "proper q" and "bt_root t \<noteq> None"
  shows "\<exists>path. bt_geq lt q t = Some path \<and>
    (let k = length (filter (\<lambda>y. key y < key q) (bt_items t)) in
     if k < length (bt_items t) then points (bt_items t) path k else path = [])"
proof -
  let ?xs = "bt_items t"
  have proper: "\<And>y. y \<in> set ?xs \<Longrightarrow> proper y" using assms(1) by (simp add: ordered_tree_def)
  have asc: "ascending key ?xs" using assms(1) by (simp add: ordered_tree_def)
  have count: "length (filter (\<lambda>y. key y < key q) ?xs) = k"
    if "k < length ?xs" "\<forall>j < k. key (?xs ! j) < key q" "key q \<le> key (?xs ! k)" for k
  proof -
    have "{j. j < length ?xs \<and> key (?xs ! j) < key q} = {..<k}"
      using that ascending_nth_less[OF asc that(1)] by (auto simp: not_less[symmetric]) (metis linorder_neqE_nat order_less_le_trans not_less order_less_trans)
    then show ?thesis by (simp add: length_filter_conv_card)
  qed
  obtain path where "bt_geq lt q t = Some path"
    and path: "(\<exists>k. points ?xs path k \<and> (\<forall>j < k. 0 < compare_to lt q (?xs ! j)) \<and> compare_to lt q (?xs ! k) \<le> 0)
     \<or> path = [] \<and> (\<forall>y \<in> set ?xs. 0 < compare_to lt q y)"
    using bt_geq_ok[OF _ falls_ascending[OF assms(1,2)] assms(3)] assms(1) by (auto simp: ordered_tree_def)
  moreover from path have "let k = length (filter (\<lambda>y. key y < key q) ?xs) in
      if k < length ?xs then points ?xs path k else path = []"
  proof (elim disjE exE conjE)
    fix k assume k: "points ?xs path k" "\<forall>j < k. 0 < compare_to lt q (?xs ! j)" "compare_to lt q (?xs ! k) \<le> 0"
    then have len: "k < length ?xs" using points_item(1) by blast
    have "\<forall>j < k. key (?xs ! j) < key q" "key q \<le> key (?xs ! k)"
      using k(2,3) len compare_sign[OF assms(2) proper[OF nth_mem]] by auto
    then show ?thesis using count[OF len] k(1) len by simp
  next
    assume "path = []" "\<forall>y \<in> set ?xs. 0 < compare_to lt q y"
    moreover have "filter (\<lambda>y. key y < key q) ?xs = ?xs"
      using calculation(2) compare_sign(2)[OF assms(2) proper] by (simp add: filter_id_conv)
    ultimately show ?thesis by simp
  qed
  ultimately show ?thesis by blast
qed

end

interpretation scored: item_order scored_less scored_proper scored_key
  by unfold_locales (auto simp: scored_less_def scored_key_def scored_proper_def dbl_eq_def dbl_less_def)

section \<open>Histories of a tree\<close>

datatype tree_op = Insert_op scored_member | Delete_op scored_member | Clear_op

fun run_op :: "tree_op \<Rightarrow> scored_member bptree \<Rightarrow> bool \<times> scored_member bptree" where
  "run_op (Insert_op m) t = bt_insert scored_less m t"
| "run_op (Delete_op m) t = bt_delete scored_less m t"
| "run_op Clear_op t = (True, bt_clear t)"

definition run_ops :: "tree_op list \<Rightarrow> scored_member bptree" where
  "run_ops ops = fold (\<lambda>op t. snd (run_op op t)) ops bt_new"

fun op_proper :: "tree_op \<Rightarrow> bool" where
  "op_proper (Insert_op m) \<longleftrightarrow> scored_proper m"
| "op_proper (Delete_op m) \<longleftrightarrow> scored_proper m"
| "op_proper Clear_op \<longleftrightarrow> True"

text \<open>The set of keys the history leaves, and the answer of one more operation.\<close>

fun key_set_op :: "tree_op \<Rightarrow> (int \<times> u64) set \<Rightarrow> (int \<times> u64) set" where
  "key_set_op (Insert_op m) S = insert (scored_key m) S"
| "key_set_op (Delete_op m) S = S - {scored_key m}"
| "key_set_op Clear_op S = {}"

fun key_set_answer :: "tree_op \<Rightarrow> (int \<times> u64) set \<Rightarrow> bool" where
  "key_set_answer (Insert_op m) S \<longleftrightarrow> scored_key m \<notin> S"
| "key_set_answer (Delete_op m) S \<longleftrightarrow> scored_key m \<in> S"
| "key_set_answer Clear_op S \<longleftrightarrow> True"

abbreviation scored_tree :: "scored_member bptree \<Rightarrow> bool" where
  "scored_tree \<equiv> ordered_tree scored_proper scored_key"

lemma bt_clear_ok [simp]: "bt_ok t \<Longrightarrow> bt_ok (bt_clear t)" and bt_items_clear [simp]: "bt_items (bt_clear t) = []"
  by (auto simp: bt_clear_def bt_items_def bt_ok_def split: option.splits prod.splits)

lemma run_op_ordered:
  assumes "scored_tree t" and "op_proper op"
  shows "scored_tree (snd (run_op op t))"
    and "tree_keys scored_key (snd (run_op op t)) = key_set_op op (tree_keys scored_key t)"
    and "fst (run_op op t) = key_set_answer op (tree_keys scored_key t)"
proof -
  have "scored_tree (snd (run_op op t)) \<and> tree_keys scored_key (snd (run_op op t)) = key_set_op op (tree_keys scored_key t)
    \<and> fst (run_op op t) = key_set_answer op (tree_keys scored_key t)"
  proof (cases op)
    case (Insert_op m)
    then show ?thesis using scored.insert_ordered[OF assms(1), of m] assms(2) by (cases "bt_insert scored_less m t") simp
  next
    case (Delete_op m)
    then show ?thesis using scored.delete_ordered[OF assms(1), of m] assms(2) by (cases "bt_delete scored_less m t") simp
  next
    case Clear_op
    then show ?thesis using assms(1) by (simp add: ordered_tree_def tree_keys_def ascending_def)
  qed
  then show "scored_tree (snd (run_op op t))" "tree_keys scored_key (snd (run_op op t)) = key_set_op op (tree_keys scored_key t)"
    "fst (run_op op t) = key_set_answer op (tree_keys scored_key t)" by blast+
qed

lemma run_ops_ordered:
  assumes "\<forall>op \<in> set ops. op_proper op"
  shows "scored_tree (run_ops ops)" and "tree_keys scored_key (run_ops ops) = fold key_set_op ops {}"
proof -
  have "scored_tree (run_ops ops) \<and> tree_keys scored_key (run_ops ops) = fold key_set_op ops {}"
    using assms
  proof (induction ops rule: rev_induct)
    case Nil
    then show ?case by (simp add: run_ops_def ordered_tree_def ascending_def tree_keys_def)
  next
    case (snoc op ops)
    then show ?case using run_op_ordered[of "run_ops ops" op] by (simp add: run_ops_def)
  qed
  then show "scored_tree (run_ops ops)" "tree_keys scored_key (run_ops ops) = fold key_set_op ops {}" by blast+
qed

lemma finite_key_set: "finite S \<Longrightarrow> finite (fold key_set_op ops S)"
proof (induction ops arbitrary: S)
  case (Cons op ops)
  then show ?case by (cases op) simp_all
qed simp

lemma scored_tree_keys:
  assumes "scored_tree t"
  shows "map scored_key (bt_items t) = sorted_list_of_set (tree_keys scored_key t)"
  using assms by (intro strict_sorted_equal)
    (simp_all add: ordered_tree_def ascending_def tree_keys_def strict_sorted_list_of_set)

text \<open>
  C2. The B+ tree is an ordered set.  After any history of Insert, Delete and Clear with scores that are no NaN, the
  tree lists exactly the keys of the set those calls describe, in ascending order of score and then hash;
  it is balanced, every node but the root is at least four (leaves: seven) keys full, no node overflows,
  and every stored subtree count, the item count and the height are exact; and every further call answers
  as the set does.
\<close>

theorem tree_refines_set:
  assumes "\<forall>op \<in> set ops. op_proper op"
  shows "map scored_key (bt_items (run_ops ops)) = sorted_list_of_set (fold key_set_op ops {})
    \<and> bt_ok (run_ops ops)
    \<and> (\<forall>op. op_proper op \<longrightarrow> fst (run_op op (run_ops ops)) = key_set_answer op (fold key_set_op ops {}))"
  using run_ops_ordered[OF assms] scored_tree_keys run_op_ordered(3) by (auto simp: ordered_tree_def)

text \<open>Eighteen members in an order that splits a leaf, then deletions that merge it back.\<close>

definition sample_members :: "scored_member list" where
  "sample_members = map (\<lambda>i. scored_member (of_nat (if i < 9 then 2 * i else 35 - 2 * i)) (of_nat i)) [0..<18]"

definition sample_ops :: "tree_op list" where
  "sample_ops = map Insert_op sample_members @ map Delete_op (take 5 sample_members)"

lemma sample_ops_proper: "\<forall>op \<in> set sample_ops. op_proper op"
  unfolding sample_ops_def sample_members_def by code_simp

lemma sample_tree_items:
  "bt_items (run_ops sample_ops)
     = map2 scored_member [1, 3, 5, 7, 9, 10, 11, 12, 13, 14, 15, 16, 17] [17, 16, 15, 14, 13, 5, 12, 6, 11, 7, 10, 8, 9]"
  by code_simp

theorem tree_refines_set_witness:
  "length (bt_items (run_ops sample_ops)) = 13
   \<and> map scored_key (bt_items (run_ops sample_ops)) = sorted_list_of_set (fold key_set_op sample_ops {})"
  using tree_refines_set[OF sample_ops_proper] by (simp add: sample_tree_items)

section \<open>Rank and selection\<close>

text \<open>
  Selecting by rank and asking for the rank are inverse: FromRank(k) ends on the k-th item of the tree, and
  GetRank of that item is k, or its distance from the other end when it is reversed.
\<close>

theorem rank_selects:
  assumes "scored_tree t" and "length (bt_items t) < 2 ^ 32" and "k < length (bt_items t)"
  shows "\<exists>path. bt_from_rank (of_nat k) t = Some path \<and> terminal path = Some (bt_items t ! k)
      \<and> path_rank path = of_nat k
      \<and> bt_get_rank scored_less (bt_items t ! k) False t = Some (of_nat k)
      \<and> bt_get_rank scored_less (bt_items t ! k) True t = Some (of_nat (length (bt_items t) - 1 - k))"
proof -
  have proper: "scored_proper (bt_items t ! k)" using assms(1,3) by (simp add: ordered_tree_def)
  obtain path where "bt_from_rank (of_nat k) t = Some path" "points (bt_items t) path k"
    using bt_from_rank_ok[OF _ assms(2,3)] assms(1) by (auto simp: ordered_tree_def)
  then show ?thesis
    using points_item(2) path_rank_ok scored.rank_ordered[OF assms(1) proper assms(3) refl] by fastforce
qed

lemma sample_tree: "scored_tree (run_ops sample_ops)" "length (bt_items (run_ops sample_ops)) = 13"
  using run_ops_ordered(1)[OF sample_ops_proper] by (simp_all add: sample_tree_items)

theorem rank_selects_witness:
  "bt_get_rank scored_less (bt_items (run_ops sample_ops) ! 4) True (run_ops sample_ops) = Some 8"
  using rank_selects[of "run_ops sample_ops" 4] sample_tree by auto

text \<open>
  Iterate visits exactly the items with ranks from \<open>rank_start\<close> to \<open>rank_end\<close> (or the last one) in ascending
  order, and IterateReverse those with these ranks from the other end in descending order, each until the
  callback answers false; no assertion of the code fails.
\<close>

theorem iterate_slices:
  assumes "scored_tree t" and "length (bt_items t) < 2 ^ 32" and "rank_start \<le> rank_end"
  shows "bt_iterate rank_start rank_end cb t s
      = Some (visit cb (take (unat rank_end - unat rank_start + 1) (drop (unat rank_start) (bt_items t))) s)
    \<and> (unat rank_end < length (bt_items t) \<longrightarrow> bt_iterate_reverse rank_start rank_end cb t s
      = Some (visit cb (take (unat rank_end - unat rank_start + 1) (drop (unat rank_start) (rev (bt_items t)))) s))"
  using bt_iterate_ok[OF _ assms(2,3), of cb s] bt_iterate_reverse_ok[OF _ assms(2,3), of cb s] assms(1)
  by (simp_all add: ordered_tree_def)

text \<open>A callback that collects the scores of three members and then stops.\<close>

definition collect_three :: "scored_member \<Rightarrow> nat list \<Rightarrow> bool \<times> nat list" where
  "collect_three m acc = (length acc < 2, acc @ [unat (sm_score m)])"

theorem iterate_slices_witness:
  "map_option snd (bt_iterate 2 12 collect_three (run_ops sample_ops) []) = Some [5, 7, 9]
   \<and> map_option fst (bt_iterate_reverse 12 12 collect_three (run_ops sample_ops) []) = Some True"
proof -
  have "snd (visit collect_three (take 11 (drop 2 (bt_items (run_ops sample_ops)))) []) = [5, 7, 9]"
    "fst (visit collect_three (take 1 (drop 12 (rev (bt_items (run_ops sample_ops))))) [])"
    unfolding sample_tree_items by code_simp+
  then show ?thesis
    using iterate_slices[OF sample_tree(1), of 2 12 collect_three "[]"]
      iterate_slices[OF sample_tree(1), of 12 12 collect_three "[]"] sample_tree(2) by simp
qed

text \<open>
  The range scan the sorted sets are built on: GEQ of a bound ends on the first item not below it, and
  following Next from there visits all items not below the bound, in order, and then reports the end; when
  there is no such item the path is empty.
\<close>

theorem geq_scans:
  fixes above :: "scored_member list"
  assumes "scored_tree t" and "scored_proper q" and "bt_root t \<noteq> None"
  defines "above \<equiv> filter (\<lambda>m. scored_key q \<le> scored_key m) (bt_items t)"
  shows "\<exists>path. bt_geq scored_less q t = Some path
    \<and> (if above = [] then path = [] else walk path_next True cb n path s = Some (visit cb (take n above) s))"
proof -
  let ?xs = "bt_items t" and ?k = "length (filter (\<lambda>m. scored_key m < scored_key q) (bt_items t))"
  have above: "above = drop ?k ?xs"
    using filter_from_bound[of scored_key ?xs "scored_key q"] assms(1) by (simp add: above_def ordered_tree_def)
  obtain path where "bt_geq scored_less q t = Some path" "if ?k < length ?xs then points ?xs path ?k else path = []"
    using scored.geq_ordered[OF assms(1-3)] by (auto simp: Let_def)
  then show ?thesis using above walk_next_ok[of ?xs path ?k cb n s] by (auto split: if_splits)
qed

lemma bt_root_items: "bt_items t \<noteq> [] \<Longrightarrow> bt_root t \<noteq> None"
  by (cases "bt_root t") (simp_all add: bt_items_def)

theorem geq_scans_witness:
  "\<exists>path. bt_geq scored_less (scored_member 6 0) (run_ops sample_ops) = Some path
     \<and> walk path_next True collect_three 100 path [] = Some (False, [7, 9, 10])"
proof -
  let ?t = "run_ops sample_ops"
  let ?above = "filter (\<lambda>m. scored_key (scored_member 6 0) \<le> scored_key m) (bt_items ?t)"
  have "bt_root ?t \<noteq> None" using sample_tree(2) by (intro bt_root_items) auto
  moreover have "scored_proper (scored_member 6 0)" by code_simp
  moreover have "visit collect_three (take 100 ?above) [] = (False, [7, 9, 10])" "?above \<noteq> []"
    unfolding sample_tree_items by code_simp+
  ultimately show ?thesis using geq_scans[OF sample_tree(1), of "scored_member 6 0" collect_three 100 "[]"] by auto
qed

section \<open>Depth\<close>

definition kMaxDepth :: nat where
  "kMaxDepth = 16"

lemma length_mult_le_sum: "\<forall>x \<in> set xs. b \<le> f x \<Longrightarrow> length xs * b \<le> sum_list (map f xs)" for b :: nat
  by (induction xs) auto

lemma filled_items: "node_ok h 0 n \<Longrightarrow> filled n \<Longrightarrow> 7 * 5 ^ h \<le> length (inorder n)"
proof (induction h arbitrary: n)
  case 0
  then show ?case by (simp add: filled_def inorder_leaf num_items_def)
next
  case (Suc h)
  have n: "length (node_children n) = Suc (num_items n)" "\<not> is_leaf n"
    using node_okD(1,2)[OF Suc.prems(1)] by (simp_all add: is_inner_simps)
  have "\<forall>c \<in> set (node_children n). 7 * 5 ^ h \<le> (length \<circ> inorder) c"
    using Suc.IH Suc.prems(1) by (simp add: node_ok.simps(2))
  then have "length (node_children n) * (7 * 5 ^ h) \<le> sum_list (map (length \<circ> inorder) (node_children n))"
    by (rule length_mult_le_sum)
  moreover have "4 \<le> num_items n" using Suc.prems(2) n(2) by (simp add: filled_def)
  then have "5 * (7 * 5 ^ h) \<le> length (node_children n) * (7 * 5 ^ h)" using n(1) by (intro mult_le_mono1) simp
  moreover have "length (inorder n) = sum_list (map (length \<circ> inorder) (node_children n)) + num_items n"
    using n by (simp add: inorder_inner length_weave num_items_def)
  ultimately have "5 * (7 * 5 ^ h) \<le> length (inorder n)" by linarith
  then show ?case by simp
qed

lemma tree_height_bound:
  assumes "tree_ok h r" and "length (inorder r) < 2 ^ 32"
  shows "h \<le> 13"
proof (rule ccontr)
  assume "\<not> h \<le> 13"
  then obtain h' where h: "h = Suc h'" "13 \<le> h'" by (cases h) auto
  have r: "node_ok (Suc h') 0 r" "1 \<le> num_items r" using assms(1) h(1) by (simp_all add: tree_ok_def root_ok_def)
  then have n: "length (node_children r) = Suc (num_items r)" "\<not> is_leaf r"
    using node_okD(1,2)[OF r(1)] by (simp_all add: is_inner_simps)
  have "\<forall>c \<in> set (node_children r). 7 * 5 ^ h' \<le> (length \<circ> inorder) c"
    using filled_items r(1) by (auto simp: node_ok.simps(2))
  then have "length (node_children r) * (7 * 5 ^ h') \<le> sum_list (map (length \<circ> inorder) (node_children r))"
    by (rule length_mult_le_sum)
  moreover have "length (inorder r) = sum_list (map (length \<circ> inorder) (node_children r)) + num_items r"
    using n by (simp add: inorder_inner length_weave num_items_def)
  moreover have "1 * (7 * 5 ^ h') \<le> length (node_children r) * (7 * (5::nat) ^ h')" using n(1) by (intro mult_le_mono1) simp
  moreover have "(5::nat) ^ 13 \<le> 5 ^ h'" using h(2) by (intro power_increasing) simp_all
  ultimately have "7 * 5 ^ 13 \<le> length (inorder r)" by linarith
  then show False using assms(2) by simp
qed

lemma node_ok_descend:
  assumes "node_ok h 0 m" and "\<not> is_leaf m"
  obtains h' where "h = Suc h'" and "\<And>i. i < length (node_children m) \<Longrightarrow> node_ok h' 0 (child m i)"
proof (cases h)
  case (Suc h')
  then have m: "node_ok (Suc h') 0 m" using assms(1) by simp
  then have "node_ok h' 0 (child m i)" if "i < length (node_children m)" for i
    using node_ok_child[OF m, of i] node_okD(1)[OF m] that by (simp add: is_inner_simps)
  then show ?thesis using that Suc by blast
qed (use assms in simp)

lemma dig_right_length: "node_ok h 0 m \<Longrightarrow> length (dig_right m ups) \<le> Suc h + length ups"
proof (induction m ups arbitrary: h rule: dig_right.induct)
  case (1 m ups)
  show ?case
  proof (cases "is_leaf m \<or> \<not> num_items m < length (node_children m)")
    case False
    then obtain h' where "h = Suc h'" "node_ok h' 0 (child m (num_items m))" using node_ok_descend[OF "1.prems"] by metis
    then show ?thesis using False "1.IH"[of h'] by (subst dig_right.simps) auto
  qed (subst dig_right.simps; auto)
qed

lemma to_rank_length:
  "to_rank_from rank m ups = Some path \<Longrightarrow> node_ok h 0 m \<Longrightarrow> length path \<le> Suc h + length ups"
proof (induction rank m ups arbitrary: h rule: to_rank_from.induct)
  case (1 rank m ups)
  show ?case
  proof (cases "is_leaf m")
    case True
    then show ?thesis using "1.prems" by (auto simp: to_rank_from.simps[of rank m] split: if_splits)
  next
    case False
    then obtain h' where h: "h = Suc h'" "\<And>i. i < length (node_children m) \<Longrightarrow> node_ok h' 0 (child m i)"
      using node_ok_descend[OF "1.prems"(2)] by metis
    have "node_children m \<noteq> []" using "1.prems"(1) False by (simp add: to_rank_from.simps[of rank m] split: if_splits)
    show ?thesis
    proof (cases "rank = 0")
      case True
      then show ?thesis
        using "1.IH"(1)[OF False \<open>node_children m \<noteq> []\<close> True _ h(2)[of 0]] "1.prems"(1) False h(1) \<open>node_children m \<noteq> []\<close>
        by (simp add: to_rank_from.simps[of 0 m])
    next
      case rank: False
      show ?thesis
      proof (cases "rank_scan rank 0 (node_children m)")
        case (Descend i rank')
        then have "i < length (node_children m)" using rank_scan_index by fastforce
        then show ?thesis
          using "1.IH"(2)[OF False \<open>node_children m \<noteq> []\<close> rank Descend _ h(2)[of i]] "1.prems"(1) False h(1) rank Descend
            \<open>node_children m \<noteq> []\<close> by (simp add: to_rank_from.simps[of rank m])
      qed (use "1.prems"(1) False rank h(1) \<open>node_children m \<noteq> []\<close> in \<open>auto simp: to_rank_from.simps[of rank m]\<close>)
    qed
  qed
qed

text \<open>
  The fixed array of \<^verbatim>\<open>BPTreePath\<close> is never overrun: in a tree of fewer than 2^32 items the height is at most 14,
  and no path built by Locate or FromRank is longer than the tree is high, so the 16 records suffice.
\<close>

theorem path_depth_bounded:
  assumes "scored_tree t" and "length (bt_items t) < 2 ^ 32" and "bt_root t = Some r" and "scored_proper q"
  shows "bt_height t \<le> 14
    \<and> length (snd (locate_from (compare_to scored_less q) r [])) \<le> unat (bt_height t)
    \<and> unat (bt_height t) \<le> kMaxDepth
    \<and> (\<forall>rank path. bt_from_rank rank t = Some path \<longrightarrow> length path \<le> unat (bt_height t))"
proof -
  obtain h where h: "tree_ok h r" "bt_height t = of_nat (Suc h)"
    using assms(1,3) by (auto simp: ordered_tree_def bt_ok_def)
  have items: "bt_items t = inorder r" "bt_count t = of_nat (length (inorder r))"
    using assms(1,3) by (simp_all add: ordered_tree_def bt_ok_def bt_items_def)
  have bound: "h \<le> 13" by (rule tree_height_bound[OF h(1)]) (use assms(2) items in simp)
  then have height: "unat (bt_height t) = Suc h" using h(2) by (simp add: unat_of_nat take_bit_nat_eq_self del: of_nat_Suc)
  then have "bt_height t \<le> 14" using bound by (simp add: word_le_nat_alt)
  moreover have "length (snd (locate_from (compare_to scored_less q) r [])) \<le> Suc h"
  proof (cases "locate_from (compare_to scored_less q) r []")
    case (Pair found path)
    then show ?thesis using locate_root[OF h(1) scored.falls_ascending[OF assms(1,4), unfolded items]] by fastforce
  qed
  moreover have "length path \<le> Suc h" if "bt_from_rank rank t = Some path" for rank path
  proof -
    have "node_ok h 0 r" using h(1) by (simp add: tree_ok_def)
    then show ?thesis using that assms(3) dig_right_length[of h r "[]"] to_rank_length[of rank r "[]" path h]
      by (auto simp: bt_from_rank_def split: if_splits)
  qed
  ultimately show ?thesis using height bound by (auto simp: kMaxDepth_def)
qed

theorem path_depth_bounded_witness:
  "bt_height (run_ops sample_ops) \<le> 14"
proof -
  obtain r where "bt_root (run_ops sample_ops) = Some r"
    using bt_root_items[of "run_ops sample_ops"] sample_tree(2) by force
  moreover have "scored_proper (scored_member 6 0)" by code_simp
  ultimately show ?thesis
    using path_depth_bounded[OF sample_tree(1), of r "scored_member 6 0"] sample_tree(2) by simp
qed

end
