(* ===== verification/Tree_Memory.thy ===== *)
theory Tree_Memory
  imports Node_Trees Scored_Tree
begin

text \<open>
  The B+ tree in memory: \<^verbatim>\<open>Locate\<close>, \<^verbatim>\<open>Contains\<close>, \<^verbatim>\<open>Insert\<close>, \<^verbatim>\<open>Delete\<close>, \<^verbatim>\<open>Clear\<close> and \<^verbatim>\<open>ForceUpdate\<close> of \<^verbatim>\<open>src/zset/bplustree.hpp\<close> on the heap of node blocks, with paths of
  pointers and positions, nodes created and destroyed, and changes made in place.  For the proofs a stored tree is seen from one of
  its nodes: the node's own tree and the frames above it; what an operation does to the blocks of that node leaves the frames alone.
\<close>

section \<open>State\<close>

text \<open>
  The members of \<^verbatim>\<open>BPTree\<close>, the heap, and the blocks that \<^verbatim>\<open>operator new\<close> has given out and \<^verbatim>\<open>operator delete\<close> has not taken back.
  The blocks the next calls of \<^verbatim>\<open>operator new\<close> return, with the bytes found in them, are an argument of the operations.
\<close>

record mem_tree =
  mt_root :: u64
  mt_count :: u32
  mt_height :: u32
  mt_nodes :: u32
  mt_heap :: heap
  mt_live :: "u64 list"

type_synonym mem_path = "(u64 \<times> nat) list"
type_synonym news = "(u64 \<times> str) list"

definition mt_new :: "heap \<Rightarrow> mem_tree" where
  "mt_new h = \<lparr>mt_root = 0, mt_count = 0, mt_height = 0, mt_nodes = 0, mt_heap = h, mt_live = []\<rparr>"

definition mt_create :: "bool \<Rightarrow> u64 \<times> str \<Rightarrow> mem_tree \<Rightarrow> mem_tree" where
  "mt_create leaf b t =
     t\<lparr>mt_nodes := mt_nodes t + 1, mt_heap := (mt_heap t)(fst b := nb_new leaf (snd b)), mt_live := fst b # mt_live t\<rparr>"

definition mt_destroy :: "u64 \<Rightarrow> mem_tree \<Rightarrow> mem_tree" where
  "mt_destroy a t = t\<lparr>mt_live := remove1 a (mt_live t), mt_nodes := mt_nodes t - 1\<rparr>"

section \<open>Paths\<close>

text \<open>A path has \<open>kMaxDepth\<close> records; \<open>None\<close> is a \<^verbatim>\<open>Push\<close> beyond them.\<close>

fun mt_locate :: "nat \<Rightarrow> (str \<Rightarrow> int) \<Rightarrow> u64 \<Rightarrow> mem_path \<Rightarrow> heap \<Rightarrow> (bool \<times> mem_path) option" where
  "mt_locate 0 cmp node path h = None"
| "mt_locate (Suc k) cmp node path h =
     (let (i, found) = nb_bsearch cmp (h node); path = (node, i) # path in
      if found then Some (True, path)
      else if nb_is_leaf (h node) then Some (False, path)
      else mt_locate k cmp (nb_child i (h node)) path h)"

text \<open>\<^verbatim>\<open>Contains\<close>; without a root \<^verbatim>\<open>Locate\<close> is an assertion failure, here \<open>None\<close>.\<close>

definition mt_contains :: "(str \<Rightarrow> str \<Rightarrow> bool) \<Rightarrow> str \<Rightarrow> mem_tree \<Rightarrow> bool option" where
  "mt_contains lt item t =
     (if mt_root t = 0 then None
      else map_option fst (mt_locate kMaxDepth (compare_to lt item) (mt_root t) [] (mt_heap t)))"

fun mt_dig_right :: "nat \<Rightarrow> u64 \<Rightarrow> mem_path \<Rightarrow> heap \<Rightarrow> mem_path option" where
  "mt_dig_right 0 node path h = None"
| "mt_dig_right (Suc k) node path h =
     (let n = nb_num_items (h node) in
      if nb_is_leaf (h node) then Some ((node, n - 1) # path)
      else mt_dig_right k (nb_child n (h node)) ((node, n) # path) h)"

fun mt_increase_counts :: "mem_path \<Rightarrow> u32 \<Rightarrow> heap \<Rightarrow> heap" where
  "mt_increase_counts [] d h = h"
| "mt_increase_counts ((node, _) # ups) d h = mt_increase_counts ups d (h(node := nb_increase_tree_count d (h node)))"

section \<open>Insert\<close>

definition mt_rebalance_leaf_and_insert :: "mem_path \<Rightarrow> str \<Rightarrow> nat \<Rightarrow> heap \<Rightarrow> bool \<times> heap" where
  "mt_rebalance_leaf_and_insert ups item insert_pos h =
     (case ups of
        [] \<Rightarrow> (False, h)
      | (parent, pos) # _ \<Rightarrow>
          (let (h, node, j) = nh_rebalance_child parent pos insert_pos h
           in if node \<noteq> 0 then (True, h(node := nb_leaf_insert j item (h node))) else (False, h)))"

definition mt_insert_rebalanced :: "mem_path \<Rightarrow> u64 \<Rightarrow> nat \<Rightarrow> str \<Rightarrow> u64 \<Rightarrow> heap \<Rightarrow> bool \<times> heap" where
  "mt_insert_rebalanced ups node pos median right h =
     (case ups of
        [] \<Rightarrow> (False, h)
      | (parent, parent_pos) # _ \<Rightarrow>
          (let (h, new_node, inner_pos) = nh_rebalance_child parent parent_pos pos h in
           if new_node \<noteq> 0 then
             (let h = h(new_node := nb_inner_insert inner_pos median right (h new_node));
                  h = (if new_node \<noteq> node then
                         (let h = h(node := nb_increase_tree_count (- nb_tree_count (h right)) (h node))
                          in h(new_node := nb_increase_tree_count (nb_tree_count (h right) + 1) (h new_node)))
                       else h(node := nb_increase_tree_count 1 (h node)))
              in (True, h))
           else (False, h)))"

text \<open>A full inner node is split, and the key and the new node go into one of the halves.\<close>

definition mt_split_insert :: "u64 \<Rightarrow> nat \<Rightarrow> str \<Rightarrow> u64 \<Rightarrow> u64 \<Rightarrow> heap \<Rightarrow> str \<times> heap" where
  "mt_split_insert node pos median right next_right h =
     (let (next_median, h) = nh_split node next_right h;
          h = (if pos \<le> nb_num_items (h node) then
                 (let h = h(node := nb_inner_insert pos median right (h node))
                  in h(node := nb_increase_tree_count 1 (h node)))
               else
                 (let h = h(next_right := nb_inner_insert (pos - nb_num_items (h node) - 1) median right (h next_right));
                      h = h(node := nb_increase_tree_count (- nb_tree_count (h right)) (h node))
                  in h(next_right := nb_increase_tree_count (nb_tree_count (h right) + 1) (h next_right))))
      in (next_median, h))"

text \<open>The loop of \<^verbatim>\<open>InsertToFullLeaf\<close>; without a new block \<^verbatim>\<open>operator new\<close> throws, which the theorems exclude.\<close>

fun mt_insert_up :: "mem_path \<Rightarrow> str \<Rightarrow> u64 \<Rightarrow> news \<Rightarrow> mem_tree \<Rightarrow> mem_tree" where
  "mt_insert_up [] median right news t =
     (case news of
        [] \<Rightarrow> t
      | b # _ \<Rightarrow>
          (let t = mt_create False b t; new_root = fst b; h = mt_heap t;
               h = h(new_root := nb_init_single median (h new_root));
               h = h(new_root := nb_set_child 0 (mt_root t) (h new_root));
               h = h(new_root := nb_set_child 1 right (h new_root));
               h = h(new_root := nb_set_tree_count (nb_tree_count (h (mt_root t)) + nb_tree_count (h right) + 1) (h new_root))
           in t\<lparr>mt_heap := h, mt_root := new_root, mt_height := mt_height t + 1\<rparr>))"
| "mt_insert_up ((node, pos) # ups) median right news t =
     (let h = mt_heap t in
      if nb_num_items (h node) < kMaxInnerKeys then
        (let h = h(node := nb_inner_insert pos median right (h node));
             h = h(node := nb_increase_tree_count 1 (h node))
         in t\<lparr>mt_heap := mt_increase_counts ups 1 h\<rparr>)
      else
        (let (rebalanced, h) = mt_insert_rebalanced ups node pos median right h in
         if rebalanced then t\<lparr>mt_heap := mt_increase_counts ups 1 h\<rparr>
         else
           (case news of
              [] \<Rightarrow> t
            | b # news \<Rightarrow>
                (let t = mt_create False b (t\<lparr>mt_heap := h\<rparr>); next_right = fst b;
                     (next_median, h) = mt_split_insert node pos median right next_right (mt_heap t)
                 in mt_insert_up ups next_median next_right news (t\<lparr>mt_heap := h\<rparr>)))))"

declare mt_insert_up.simps [simp del]

definition mt_insert_to_full_leaf :: "str \<Rightarrow> u64 \<Rightarrow> nat \<Rightarrow> mem_path \<Rightarrow> news \<Rightarrow> mem_tree \<Rightarrow> mem_tree" where
  "mt_insert_to_full_leaf item node insert_pos ups news t =
     (let (rebalanced, h) = mt_rebalance_leaf_and_insert ups item insert_pos (mt_heap t) in
      if rebalanced then t\<lparr>mt_heap := mt_increase_counts ups 1 h\<rparr>
      else
        (case news of
           [] \<Rightarrow> t
         | b # news \<Rightarrow>
             (let t = mt_create True b (t\<lparr>mt_heap := h\<rparr>); right = fst b;
                  (median, h) = nh_split node right (mt_heap t);
                  h = (if insert_pos \<le> nb_num_items (h node) then h(node := nb_leaf_insert insert_pos item (h node))
                       else h(right := nb_leaf_insert (insert_pos - nb_num_items (h node) - 1) item (h right)))
              in mt_insert_up ups median right news (t\<lparr>mt_heap := h\<rparr>))))"

definition mt_insert :: "(str \<Rightarrow> str \<Rightarrow> bool) \<Rightarrow> str \<Rightarrow> news \<Rightarrow> mem_tree \<Rightarrow> bool \<times> mem_tree" where
  "mt_insert lt item news t =
     (if mt_root t = 0 then
        (case news of
           [] \<Rightarrow> (False, t)
         | b # _ \<Rightarrow>
             (let t = mt_create True b t; h = mt_heap t
              in (True, t\<lparr>mt_heap := h(fst b := nb_init_single item (h (fst b))), mt_root := fst b, mt_count := 1, mt_height := 1\<rparr>)))
      else
        (case mt_locate kMaxDepth (compare_to lt item) (mt_root t) [] (mt_heap t) of
           Some (False, (leaf, pos) # ups) \<Rightarrow>
             (let h = mt_heap t;
                  t = (if nb_num_items (h leaf) = kMaxLeafKeys then mt_insert_to_full_leaf item leaf pos ups news t
                       else t\<lparr>mt_heap := mt_increase_counts ups 1 (h(leaf := nb_leaf_insert pos item (h leaf)))\<rparr>)
              in (True, t\<lparr>mt_count := mt_count t + 1\<rparr>))
         | _ \<Rightarrow> (False, t)))"

section \<open>Delete\<close>

text \<open>The loop of \<^verbatim>\<open>Delete\<close>, with the path above the node.\<close>

fun mt_delete_up :: "u64 \<Rightarrow> mem_path \<Rightarrow> mem_tree \<Rightarrow> mem_tree" where
  "mt_delete_up node ups t =
     (let h = mt_heap t in
      if nb_num_items (h node) < nb_min_items (h node) then
        (if node = mt_root t then
           (if nb_num_items (h node) = 0 then
              mt_destroy node (t\<lparr>mt_root := if nb_is_leaf (h node) then 0 else nb_child 0 (h node), mt_height := mt_height t - 1\<rparr>)
            else t)
         else
           (case ups of
              [] \<Rightarrow> t
            | (parent, pos) # ups \<Rightarrow>
                (let (h, retired) = nh_merge_or_rebalance_child parent pos h;
                     h = h(parent := nb_increase_tree_count (- 1) (h parent));
                     t = t\<lparr>mt_heap := h\<rparr>
                 in if retired = 0 then t\<lparr>mt_heap := mt_increase_counts ups (- 1) h\<rparr>
                    else mt_delete_up parent ups (mt_destroy retired t))))
      else t\<lparr>mt_heap := mt_increase_counts ups (- 1) h\<rparr>)"

declare mt_delete_up.simps [simp del]

definition mt_delete_at :: "u64 \<Rightarrow> nat \<Rightarrow> mem_path \<Rightarrow> mem_tree \<Rightarrow> mem_tree" where
  "mt_delete_at node key_pos ups t =
     (let h = mt_heap t in
      if nb_is_leaf (h node) then
        mt_delete_up node ups (t\<lparr>mt_heap := h(node := nb_shift_left key_pos False (h node)), mt_count := mt_count t - 1\<rparr>)
      else
        (case mt_dig_right (kMaxDepth - Suc (length ups)) (nb_child key_pos (h node)) ((node, key_pos) # ups) h of
           Some ((leaf, _) # ups) \<Rightarrow>
             (let h = h(node := nb_set_key key_pos (nb_key (nb_num_items (h leaf) - 1) (h leaf)) (h node));
                  h = h(leaf := nb_leaf_erase_right (h leaf))
              in mt_delete_up leaf ups (t\<lparr>mt_heap := h, mt_count := mt_count t - 1\<rparr>))
         | _ \<Rightarrow> t))"

definition mt_delete :: "(str \<Rightarrow> str \<Rightarrow> bool) \<Rightarrow> str \<Rightarrow> mem_tree \<Rightarrow> bool \<times> mem_tree" where
  "mt_delete lt item t =
     (if mt_root t = 0 then (False, t)
      else
        (case mt_locate kMaxDepth (compare_to lt item) (mt_root t) [] (mt_heap t) of
           Some (True, (node, pos) # ups) \<Rightarrow> (True, mt_delete_at node pos ups t)
         | _ \<Rightarrow> (False, t)))"

section \<open>Clear and ForceUpdate\<close>

text \<open>
  \<^verbatim>\<open>Clear\<close> gives the blocks back while it walks over them.  Every block it reads or destroys is looked up among the live ones: a read
  of a block that was given back, or a second \<^verbatim>\<open>operator delete\<close> of it, is \<open>None\<close>.
\<close>

definition mt_block :: "u64 \<Rightarrow> mem_tree \<Rightarrow> str option" where
  "mt_block a t = (if a \<in> set (mt_live t) then Some (mt_heap t a) else None)"

definition mt_free :: "u64 \<Rightarrow> mem_tree \<Rightarrow> mem_tree option" where
  "mt_free a t = (if a \<in> set (mt_live t) then Some (mt_destroy a t) else None)"

fun mt_deep_left :: "nat \<Rightarrow> u64 \<Rightarrow> nat \<Rightarrow> mem_path \<Rightarrow> mem_tree \<Rightarrow> (u64 \<times> mem_path) option" where
  "mt_deep_left 0 node pos path t = None"
| "mt_deep_left (Suc k) node pos path t =
     (case mt_block node t of
        None \<Rightarrow> None
      | Some b \<Rightarrow>
          (let path = (node, pos) # path; node = nb_child pos b in
           case mt_block node t of
             None \<Rightarrow> None
           | Some c \<Rightarrow> if nb_is_leaf c then Some (node, path) else mt_deep_left k node 0 path t))"

text \<open>The loop, with the blocks in the order of their destruction.  It has no bound of its own: \<open>None\<close> is also a loop without an end.\<close>

partial_function (option) mt_clear_loop :: "u64 \<Rightarrow> mem_path \<Rightarrow> u64 list \<Rightarrow> mem_tree \<Rightarrow> (u64 list \<times> mem_tree) option" where
  "mt_clear_loop node path destroyed t =
     (case mt_free node t of
        None \<Rightarrow> None
      | Some t \<Rightarrow>
          (let destroyed = destroyed @ [node] in
           case path of
             [] \<Rightarrow> Some (destroyed, t)
           | (node, pos) # path \<Rightarrow>
               (case mt_block node t of
                  None \<Rightarrow> None
                | Some b \<Rightarrow>
                    if pos < nb_num_items b then
                      (case mt_deep_left (kMaxDepth - length path) node (pos + 1) path t of
                         None \<Rightarrow> None
                       | Some (node, path) \<Rightarrow> mt_clear_loop node path destroyed t)
                    else mt_clear_loop node path destroyed t)))"

declare mt_clear_loop.simps [simp del]

definition mt_clear :: "mem_tree \<Rightarrow> (u64 list \<times> mem_tree) option" where
  "mt_clear t =
     (if mt_root t = 0 then Some ([], t)
      else
        (case mt_block (mt_root t) t of
           None \<Rightarrow> None
         | Some b \<Rightarrow>
             (case (if nb_is_leaf b then Some (mt_root t, []) else mt_deep_left kMaxDepth (mt_root t) 0 [] t) of
                None \<Rightarrow> None
              | Some (node, path) \<Rightarrow>
                  (case mt_clear_loop node path [] t of
                     None \<Rightarrow> None
                   | Some (destroyed, t) \<Rightarrow> Some (destroyed, t\<lparr>mt_root := 0, mt_count := 0, mt_height := 0\<rparr>)))))"

text \<open>\<^verbatim>\<open>ForceUpdate\<close>; \<open>None\<close> where the code asserts that there is a root and that the old key is found.\<close>

definition mt_force_update :: "(str \<Rightarrow> str \<Rightarrow> bool) \<Rightarrow> str \<Rightarrow> str \<Rightarrow> mem_tree \<Rightarrow> mem_tree option" where
  "mt_force_update lt old new_obj t =
     (if mt_root t = 0 then None
      else
        (case mt_locate kMaxDepth (compare_to lt old) (mt_root t) [] (mt_heap t) of
           Some (True, (node, pos) # _) \<Rightarrow>
             (let h = mt_heap t in Some (t\<lparr>mt_heap := h(node := nb_set_key pos new_obj (h node))\<rparr>))
         | _ \<Rightarrow> None))"

end
