(* ===== verification/Tree_Frames.thy ===== *)
theory Tree_Frames
  imports Tree_Memory
begin

text \<open>
  A stored tree seen from one of its nodes: the tree of that node and the frames above it, from the parent to the root, each with the
  position of the child below.  What changes only the blocks of the node, or new blocks, leaves the frames as they are; the path of
  pointers and positions the code keeps is the addresses of the frames.
\<close>

section \<open>Frames\<close>

type_synonym frames = "(ptree \<times> nat) list"

fun put :: "nat \<Rightarrow> ptree \<Rightarrow> ptree \<Rightarrow> ptree" where
  "put i t (PNode a leaf ks cs c) = PNode a leaf ks (cs[i := t]) c"

lemma put_sel [simp]:
  "addr (put i t p) = addr p" "pleaf (put i t p) = pleaf p" "pkeys (put i t p) = pkeys p" "pcount (put i t p) = pcount p"
  "pchildren (put i t p) = (pchildren p)[i := t]"
  by (cases p; simp)+

definition others :: "ptree \<Rightarrow> nat \<Rightarrow> ptree list" where
  "others p i = take i (pchildren p) @ drop (Suc i) (pchildren p)"

fun in_frames :: "heap \<Rightarrow> frames \<Rightarrow> u64 \<Rightarrow> bool" where
  "in_frames h [] a \<longleftrightarrow> True"
| "in_frames h ((p, i) # fs) a \<longleftrightarrow>
     block False (pkeys p) ((map addr (pchildren p))[i := a]) (pcount p) (h (addr p)) \<and>
     (\<forall>s \<in> set (others p i). in_heap h s) \<and> in_frames h fs (addr p)"

fun frame_addrs :: "frames \<Rightarrow> u64 list" where
  "frame_addrs [] = []"
| "frame_addrs ((p, i) # fs) = addr p # concat (map addrs (others p i)) @ frame_addrs fs"

text \<open>The shape of the frames around a node: every parent is an inner node with a key, and its children are on one level.\<close>

fun frames_ok :: "frames \<Rightarrow> bool \<Rightarrow> bool" where
  "frames_ok [] leaf \<longleftrightarrow> True"
| "frames_ok ((p, i) # fs) leaf \<longleftrightarrow>
     \<not> pleaf p \<and> i < length (pchildren p) \<and> length (pchildren p) = Suc (length (pkeys p)) \<and> pkeys p \<noteq> [] \<and>
     (\<forall>s \<in> set (pchildren p). pleaf s = leaf) \<and> frames_ok fs False"

definition focus :: "heap \<Rightarrow> frames \<Rightarrow> ptree \<Rightarrow> bool" where
  "focus h fs t \<longleftrightarrow> in_frames h fs (addr t) \<and> in_heap h t \<and> distinct (frame_addrs fs @ addrs t) \<and> frames_ok fs (pleaf t)"

definition frame_path :: "frames \<Rightarrow> (u64 \<times> nat) list" where
  "frame_path fs = map (\<lambda>(p, i). (addr p, i)) fs"

definition frame_nodes :: "frames \<Rightarrow> str path" where
  "frame_nodes fs = map (\<lambda>(p, i). (erase p, i)) fs"

fun top_addr :: "frames \<Rightarrow> u64 \<Rightarrow> u64" where
  "top_addr [] a = a"
| "top_addr ((p, i) # fs) a = top_addr fs (addr p)"

lemma frame_simps [simp]:
  "frame_path [] = []" "frame_path ((p, i) # fs) = (addr p, i) # frame_path fs"
  "frame_nodes [] = []" "frame_nodes ((p, i) # fs) = (erase p, i) # frame_nodes fs"
  by (simp_all add: frame_path_def frame_nodes_def)

lemma focus_root: "focus h [] t \<longleftrightarrow> stored h t"
  by (simp add: focus_def stored_def)

lemma focus_stored: "focus h fs t \<Longrightarrow> stored h t"
  by (simp add: focus_def stored_def)

lemma in_frames_frame:
  "in_frames h fs a \<Longrightarrow> (\<And>b. b \<in> set (frame_addrs fs) \<Longrightarrow> h' b = h b) \<Longrightarrow> in_frames h' fs a"
proof (induction h fs a rule: in_frames.induct)
  case (2 h p i fs a)
  have "in_heap h' s" if "s \<in> set (others p i)" for s
    by (rule in_heap_frame[of h]) (use 2 that in auto)
  then show ?case using 2 by simp
qed simp

text \<open>A change below the frames.\<close>

lemma focus_replace:
  assumes "focus h fs t" "in_heap h' t'" "addr t' = addr t" "pleaf t' = pleaf t" "distinct (addrs t')"
    "set (addrs t') \<subseteq> set (addrs t) \<union> N" "N \<inter> set (frame_addrs fs) = {}" "\<And>b. b \<notin> set (addrs t) \<union> N \<Longrightarrow> h' b = h b"
  shows "focus h' fs t'"
proof -
  have "set (frame_addrs fs) \<inter> (set (addrs t) \<union> N) = {}" using assms(1,7) by (auto simp: focus_def)
  then have "in_frames h' fs (addr t')" "set (frame_addrs fs) \<inter> set (addrs t') = {}"
    using assms(1,3,6,8) in_frames_frame[of h fs "addr t" h'] by (auto simp: focus_def)
  then show ?thesis using assms by (simp add: focus_def)
qed

lemma focus_edit:
  assumes "focus h fs t" "edits h t mem n" "is_leaf n = is_leaf (erase t)"
  shows "\<exists>t'. focus (h(addr t := mem)) fs t' \<and> erase t' = n \<and> addrs t' = addrs t \<and> addr t' = addr t \<and> pleaf t' = pleaf t"
proof -
  obtain t' where t': "stored (h(addr t := mem)) t'" "erase t' = n" "addrs t' = addrs t" using assms(2) by (auto simp: edits_def)
  have a: "addr t' = addr t" using t'(3) by (simp add: addrs_parts)
  have "pleaf t' = pleaf t" using t' assms(1,3) in_heap_sizes(6) by (metis focus_def stored_def)
  moreover from this have "focus (h(addr t := mem)) fs t'"
    using focus_replace[OF assms(1), of "h(addr t := mem)" t' "{}"] t' a addr_in[of t]
    by (simp add: stored_def del: addr_in) (metis fun_upd_other)
  ultimately show ?thesis using t' a by blast
qed

lemma addrs_put:
  assumes "i < length (pchildren p)"
  shows "mset (addrs (put i t p)) = mset (addr p # concat (map addrs (others p i)) @ addrs t)"
  using assms by (simp add: addrs_parts[of "put i t p"] others_def upd_conv_take_nth_drop ac_simps)

lemma set_put: "i < length (pchildren p) \<Longrightarrow> set ((pchildren p)[i := t]) = insert t (set (others p i))"
  by (simp add: others_def upd_conv_take_nth_drop)

text \<open>Between a node and its parent.\<close>

lemma focus_parent:
  assumes "frames_ok ((p, i) # fs) (pleaf t)"
  shows "focus h ((p, i) # fs) t \<longleftrightarrow> focus h fs (put i t p)"
proof -
  have i: "i < length (pchildren p)" and leaf: "\<not> pleaf p" using assms by simp_all
  have "in_heap h (put i t p) \<longleftrightarrow>
      block False (pkeys p) ((map addr (pchildren p))[i := addr t]) (pcount p) (h (addr p)) \<and> (\<forall>s \<in> set (others p i). in_heap h s) \<and> in_heap h t"
    using set_put[OF i, of t] leaf by (cases p) (auto simp: map_update)
  moreover have "mset (frame_addrs fs @ addrs (put i t p)) = mset (frame_addrs ((p, i) # fs) @ addrs t)"
    using addrs_put[OF i, of t] by (simp add: ac_simps)
  then have "distinct (frame_addrs fs @ addrs (put i t p)) = distinct (frame_addrs ((p, i) # fs) @ addrs t)"
    by (rule mset_eq_imp_distinct_iff)
  ultimately show ?thesis using assms by (auto simp: focus_def)
qed

lemma focus_up: "focus h ((p, i) # fs) t \<Longrightarrow> focus h fs (put i t p)"
  using focus_parent[of p i fs t h] by (metis focus_def)

lemma erase_put: "erase (put i t p) = set_child i (erase t) (erase p)"
  by (cases p) (simp add: set_child_def map_update)

text \<open>What the code reads of a parent.\<close>

lemma parent_tree:
  assumes "focus h ((p, i) # fs) t"
  shows "stored h (put i t p)" "\<not> is_leaf (erase (put i t p))" "same_level (put i t p)" "0 < num_items (erase (put i t p))"
    "i \<le> num_items (erase (put i t p))" "child (erase (put i t p)) i = erase t" "i < length (pchildren p)" "\<not> pleaf p"
    "num_items (erase (put i t p)) = length (pkeys p)"
proof -
  have ok: "frames_ok ((p, i) # fs) (pleaf t)" using assms by (simp add: focus_def)
  then show "stored h (put i t p)" using assms by (simp add: focus_parent focus_stored)
  show leaf: "\<not> pleaf p" and i: "i < length (pchildren p)" using ok by simp_all
  show "\<not> is_leaf (erase (put i t p))" using leaf by (cases p) simp
  show "same_level (put i t p)"
    using ok set_update_subset_insert[of "pchildren p" i t] unfolding same_level_def put_sel frames_ok.simps by blast
  show n: "num_items (erase (put i t p)) = length (pkeys p)" using leaf by (cases p) (simp add: num_items_def)
  show "0 < num_items (erase (put i t p))" "i \<le> num_items (erase (put i t p))" using ok n by auto
  show "child (erase (put i t p)) i = erase t" using leaf i by (cases p) (simp add: child_def)
qed

text \<open>A child of a node becomes the node in focus.\<close>

definition proper_node :: "ptree \<Rightarrow> bool" where
  "proper_node t \<longleftrightarrow> pleaf t \<or> same_level t \<and> pkeys t \<noteq> [] \<and> length (pchildren t) = Suc (length (pkeys t))"

lemma focus_child:
  assumes "focus h fs t" "\<not> pleaf t" "proper_node t" "i < length (pchildren t)"
  shows "focus h ((t, i) # fs) (pchildren t ! i)"
proof -
  have same: "put i (pchildren t ! i) t = t" by (cases t) simp
  have "\<forall>s \<in> set (pchildren t). pleaf s = pleaf (pchildren t ! i)"
    using assms(2-4) nth_mem[of i "pchildren t"] unfolding proper_node_def same_level_def by blast
  moreover have "frames_ok fs False" using assms(1,2) by (simp add: focus_def)
  ultimately have "frames_ok ((t, i) # fs) (pleaf (pchildren t ! i))"
    unfolding frames_ok.simps using assms(2-4) unfolding proper_node_def by blast
  from focus_parent[OF this, of h] show ?thesis using assms(1) unfolding same by blast
qed

text \<open>
  \<^verbatim>\<open>IncreaseSubtreeCounts\<close> along the frames closes the tree: the changed node is back in it, and the counts above are adjusted.
\<close>

lemma focus_finish:
  assumes "focus h fs t"
  shows "\<exists>T. stored (mt_increase_counts (frame_path fs) d h) T \<and> erase T = rebuild d (frame_nodes fs) (erase t) \<and>
    addr T = top_addr fs (addr t) \<and> mset (addrs T) = mset (frame_addrs fs @ addrs t)"
  using assms
proof (induction fs arbitrary: h t)
  case Nil
  then show ?case by (intro exI[of _ t]) (simp add: focus_root)
next
  case (Cons f fs)
  obtain p i where f: "f = (p, i)" by (cases f)
  note parent = parent_tree[OF Cons.prems[unfolded f]]
  let ?t = "put i t p"
  have foc: "focus h fs ?t" using Cons.prems focus_up f by blast
  have edit: "edits h ?t (nb_increase_tree_count d (h (addr ?t))) (increase_tree_count d (erase ?t))"
    by (rule count_edits[OF parent(1,2)])
  then obtain t' where t': "focus (h(addr p := nb_increase_tree_count d (h (addr p)))) fs t'" "erase t' = increase_tree_count d (erase ?t)"
      "addrs t' = addrs ?t" "addr t' = addr p"
    using focus_edit[OF foc edit] parent(2) by (cases "erase ?t") (auto simp: increase_tree_count_def)
  from Cons.IH[OF t'(1)] obtain T where T: "stored (mt_increase_counts (frame_path fs) d (h(addr p := nb_increase_tree_count d (h (addr p))))) T"
      "erase T = rebuild d (frame_nodes fs) (erase t')" "addr T = top_addr fs (addr t')" "mset (addrs T) = mset (frame_addrs fs @ addrs t')"
    by blast
  have "mset (frame_addrs fs @ addrs t') = mset (frame_addrs (f # fs) @ addrs t)"
    using addrs_put[OF parent(7), of t] t'(3) by (simp add: f ac_simps)
  with T(4) have "mset (addrs T) = mset (frame_addrs (f # fs) @ addrs t)" by (rule trans)
  then show ?case using T(1-3) t'(2,4) by (intro exI[of _ T]) (simp add: f erase_put del: fun_upd_apply)
qed

section \<open>Paths in a balanced tree\<close>

text \<open>The balanced trees of \<^verbatim>\<open>BPlus_Tree\<close> have the shape that the frames need.\<close>

definition tall :: "nat \<Rightarrow> ptree \<Rightarrow> bool" where
  "tall k t \<longleftrightarrow> (\<exists>d. node_ok k d (erase t)) \<and> 0 < num_items (erase t)"

lemma erase_sel [simp]: "is_leaf (erase t) = pleaf t" "num_items (erase t) = length (pkeys t)" "node_keys (erase t) = pkeys t"
  by (cases t; simp add: num_items_def)+

lemma tall_leaf: "tall 0 t \<Longrightarrow> pleaf t"
  by (auto simp: tall_def)

lemma tall_inner:
  assumes "tall (Suc k) t"
  shows "\<not> pleaf t" "proper_node t" "s \<in> set (pchildren t) \<Longrightarrow> tall k s" "length (pchildren t) = Suc (length (pkeys t))"
    "i < length (pchildren t) \<Longrightarrow> child (erase t) i = erase (pchildren t ! i)" "length (node_children (erase t)) = length (pchildren t)"
proof -
  obtain d where d: "node_ok (Suc k) d (erase t)" using assms by (auto simp: tall_def)
  show leaf: "\<not> pleaf t" using d by simp
  then have t: "t = PNode (addr t) False (pkeys t) (pchildren t) (pcount t)" by (cases t) simp
  have cs: "node_children (erase t) = map erase (pchildren t)" by (subst t) simp
  show len: "length (pchildren t) = Suc (length (pkeys t))" "length (node_children (erase t)) = length (pchildren t)" using d cs by simp_all
  show kids: "tall k s" if "s \<in> set (pchildren t)" for s
    using d cs that by (auto simp: tall_def filled_def split: if_splits)
  have "pleaf s = (k = 0)" if "s \<in> set (pchildren t)" for s
    using leaf_height[of k 0 "erase s"] d cs that by auto
  then show "proper_node t" using assms len by (auto simp: proper_node_def same_level_def tall_def)
  show "child (erase t) i = erase (pchildren t ! i)" if "i < length (pchildren t)" using cs that by (simp add: child_def)
qed

lemma bsearch_loop_le: "lo \<le> hi \<Longrightarrow> bsearch_loop cmp ks lo hi = (i, f) \<Longrightarrow> i \<le> hi \<and> (f \<longrightarrow> i < hi)"
proof (induction cmp ks lo hi rule: bsearch_loop.induct)
  case (1 cmp ks lo hi)
  then show ?case by (subst (asm) (3) bsearch_loop.simps) (fastforce simp: Let_def split: if_splits)
qed

lemma bsearch_le:
  assumes "0 < num_items n" "bsearch cmp n = (i, f)"
  shows "i \<le> num_items n" "f \<Longrightarrow> i < num_items n"
  using assms bsearch_loop_le[of 0 "num_items n - 1" cmp "node_keys n" i f]
  by (auto simp: bsearch_def Let_def split: if_splits)

lemma child_addrs:
  assumes "i < length (pchildren t)"
  shows "mset (frame_addrs ((t, i) # fs) @ addrs (pchildren t ! i)) = mset (frame_addrs fs @ addrs t)"
proof -
  have "put i (pchildren t ! i) t = t" by (cases t) simp
  then show ?thesis using addrs_put[OF assms, of "pchildren t ! i"] by (simp add: ac_simps)
qed

text \<open>Where a path ends: a node in focus, with the same blocks and the same root above and below it.\<close>

definition reaches :: "heap \<Rightarrow> frames \<Rightarrow> ptree \<Rightarrow> frames \<Rightarrow> ptree \<Rightarrow> bool" where
  "reaches h fs t fs' n \<longleftrightarrow> focus h fs' n \<and> top_addr fs' (addr n) = top_addr fs (addr t) \<and>
     mset (frame_addrs fs' @ addrs n) = mset (frame_addrs fs @ addrs t)"

text \<open>The node in focus is the child its parent still has at the position: nothing was changed yet.\<close>

definition linked :: "frames \<Rightarrow> ptree \<Rightarrow> bool" where
  "linked fs t \<longleftrightarrow> (case fs of [] \<Rightarrow> True | (p, i) # _ \<Rightarrow> pchildren p ! i = t)"

lemma reaches_child:
  assumes "focus h fs t" "tall (Suc k) t" "i < length (pchildren t)"
  shows "reaches h fs t ((t, i) # fs) (pchildren t ! i)"
  using focus_child[OF assms(1) tall_inner(1,2)[OF assms(2)] assms(3)] child_addrs[OF assms(3), of fs] by (simp add: reaches_def)

lemma reaches_trans: "reaches h fs t gs s \<Longrightarrow> reaches h gs s hs r \<Longrightarrow> reaches h fs t hs r"
  by (simp add: reaches_def)

lemma locate_in_memory:
  assumes "focus h fs t" "tall ht t" "ht < k" "linked fs t"
  shows "\<exists>f fs' n i ht'. mt_locate k cmp (addr t) (frame_path fs) h = Some (f, (addr n, i) # frame_path fs') \<and>
    locate_from cmp (erase t) (frame_nodes fs) = (f, (erase n, i) # frame_nodes fs') \<and> reaches h fs t fs' n \<and> linked fs' n \<and> tall ht' n \<and>
    i \<le> length (pkeys n) \<and> (if f then i < length (pkeys n) else pleaf n) \<and> length fs' + ht' = length fs + ht"
  using assms
proof (induction ht arbitrary: k fs t)
  case 0
  then obtain k' where k: "k = Suc k'" by (cases k) simp_all
  have t: "in_heap h t" and leaf: "pleaf t" and n: "0 < length (pkeys t)" using 0 tall_leaf by (auto simp: focus_def tall_def)
  obtain i f where bs: "bsearch cmp (erase t) = (i, f)" by (cases "bsearch cmp (erase t)")
  have "nb_bsearch cmp (h (addr t)) = (i, f)"
    using block_bsearch[OF in_heap_root[OF t] _ erase_sel(3)] n bs by simp
  moreover have "nb_is_leaf (h (addr t))" using in_heap_sizes(2)[OF t] leaf by simp
  ultimately show ?case
    using bs leaf bsearch_le[OF _ bs] n 0(1,2,4)
    by (intro exI[of _ f] exI[of _ fs] exI[of _ t] exI[of _ i] exI[of _ 0]) (simp add: k locate_from.simps[of cmp "erase t"] reaches_def)
next
  case (Suc ht)
  then obtain k' where k: "k = Suc k'" "ht < k'" by (cases k) simp_all
  note inner = tall_inner[OF Suc.prems(2)]
  have t: "in_heap h t" "stored h t" and n: "0 < length (pkeys t)" using Suc.prems by (auto simp: focus_def tall_def stored_def)
  obtain i f where bs: "bsearch cmp (erase t) = (i, f)" by (cases "bsearch cmp (erase t)")
  have b: "nb_bsearch cmp (h (addr t)) = (i, f)" using block_bsearch[OF in_heap_root[OF t(1)] _ erase_sel(3)] n bs by simp
  have leaf: "\<not> nb_is_leaf (h (addr t))" using in_heap_sizes(2)[OF t(1)] inner(1) by simp
  show ?case
  proof (cases f)
    case True
    then show ?thesis
      using bs b bsearch_le[OF _ bs] n Suc.prems(1,2,4)
      by (intro exI[of _ f] exI[of _ fs] exI[of _ t] exI[of _ i] exI[of _ "Suc ht"]) (simp add: k locate_from.simps[of cmp "erase t"] reaches_def)
  next
    case False
    have i: "i < length (pchildren t)" "i \<le> num_items (erase t)" using bsearch_le[OF _ bs] n inner(4) by simp_all
    let ?c = "pchildren t ! i"
    note step = reaches_child[OF Suc.prems(1,2) i(1)]
    have c: "tall ht ?c" using inner(3) i(1) by simp
    have ptr: "nb_child i (h (addr t)) = addr ?c" using inner_reads(5)[OF t(2)] inner(1) i(2) by simp
    have linked_child: "linked ((t, i) # fs) ?c" by (simp add: linked_def)
    have "focus h ((t, i) # fs) ?c" using step by (simp add: reaches_def)
    from Suc.IH[OF this c k(2)] linked_child obtain g gs m j hm where rec: "mt_locate k' cmp (addr ?c) (frame_path ((t, i) # fs)) h = Some (g, (addr m, j) # frame_path gs)"
        "locate_from cmp (erase ?c) (frame_nodes ((t, i) # fs)) = (g, (erase m, j) # frame_nodes gs)" "reaches h ((t, i) # fs) ?c gs m"
        "linked gs m" "tall hm m" "j \<le> length (pkeys m)" "if g then j < length (pkeys m) else pleaf m" "length gs + hm = length ((t, i) # fs) + ht"
      by blast
    show ?thesis
      using rec(4-8) reaches_trans[OF step rec(3)] rec(1,2) bs b False leaf ptr inner(1,6) i inner(5)[OF i(1)]
      by (intro exI[of _ g] exI[of _ gs] exI[of _ m] exI[of _ j] exI[of _ hm]) (simp add: k locate_from.simps[of cmp "erase t"])
  qed
qed

lemma dig_in_memory:
  assumes "in_heap h t" "tall ht t" "ht < k"
  shows "\<exists>gs n. length gs = ht \<and> pleaf n \<and> pkeys n \<noteq> [] \<and> in_heap h n \<and>
    (\<forall>p. mt_dig_right k (addr t) p h = Some ((addr n, length (pkeys n) - 1) # frame_path gs @ p)) \<and>
    (\<forall>q. dig_right (erase t) q = (erase n, length (pkeys n) - 1) # frame_nodes gs @ q) \<and>
    (\<forall>h' fs. focus h' fs t \<longrightarrow> reaches h' fs t (gs @ fs) n)"
  using assms
proof (induction ht arbitrary: k t)
  case 0
  then obtain k' where k: "k = Suc k'" by (cases k) simp_all
  have "pleaf t" "nb_is_leaf (h (addr t))" "nb_num_items (h (addr t)) = length (pkeys t)"
    using 0 tall_leaf in_heap_sizes(1,2) by auto
  then show ?case using 0(1,2)
    by (intro exI[of _ "[]"] exI[of _ t]) (simp add: k dig_right.simps[of "erase t"] tall_def reaches_def)
next
  case (Suc ht)
  then obtain k' where k: "k = Suc k'" "ht < k'" by (cases k) simp_all
  note inner = tall_inner[OF Suc.prems(2)]
  let ?i = "length (pkeys t)" and ?c = "pchildren t ! length (pkeys t)"
  have i: "?i < length (pchildren t)" using inner(4) by simp
  have c: "tall ht ?c" "in_heap h ?c" using inner(3) i in_heap_children[OF Suc.prems(1)] by simp_all
  have reads: "\<not> nb_is_leaf (h (addr t))" "nb_num_items (h (addr t)) = ?i" "nb_child ?i (h (addr t)) = addr ?c"
    using in_heap_sizes(1,2)[OF Suc.prems(1)] inner(1) blockD(9)[OF in_heap_root[OF Suc.prems(1)], of ?i] i by simp_all
  from Suc.IH[OF c(2,1) k(2)] obtain gs n where rec: "length gs = ht" "pleaf n" "pkeys n \<noteq> []" "in_heap h n"
      "\<forall>p. mt_dig_right k' (addr ?c) p h = Some ((addr n, length (pkeys n) - 1) # frame_path gs @ p)"
      "\<forall>q. dig_right (erase ?c) q = (erase n, length (pkeys n) - 1) # frame_nodes gs @ q"
      "\<forall>h' fs. focus h' fs ?c \<longrightarrow> reaches h' fs ?c (gs @ fs) n" by blast
  have "reaches h' fs t ((gs @ [(t, ?i)]) @ fs) n" if "focus h' fs t" for h' fs
    using reaches_child[OF that Suc.prems(2) i] rec(7) reaches_trans by (fastforce simp: reaches_def)
  then show ?case
    using rec(1-6) reads inner(1,5,6) i
    by (intro exI[of _ "gs @ [(t, ?i)]"] exI[of _ n]) (simp add: k dig_right.simps[of "erase t"] frame_path_def frame_nodes_def)
qed

end
