(* ===== verification/Tree_Insert.thy ===== *)
theory Tree_Insert
  imports Tree_Frames
begin

text \<open>
  \<^verbatim>\<open>Insert\<close> on the heap: each way a full leaf or a full inner node finds room is the one of \<^verbatim>\<open>BPlus_Tree\<close>, on the blocks of the tree
  and the new ones.
\<close>

section \<open>Room after rebalancing\<close>

lemma move_sizes:
  assumes "0 < c"
  shows "move_to_left c l k r = (l', k', r') \<Longrightarrow> c \<le> num_items r \<Longrightarrow>
      num_items l' = num_items l + c \<and> num_items r' = num_items r - c \<and> is_leaf l' = is_leaf l \<and> is_leaf r' = is_leaf r"
    and "move_to_right c l k r = (l', k', r') \<Longrightarrow> c \<le> num_items l \<Longrightarrow>
      num_items l' = num_items l - c \<and> num_items r' = num_items r + c \<and> is_leaf l' = is_leaf l \<and> is_leaf r' = is_leaf r"
  using assms by (cases l; cases r; auto simp: move_to_left_def move_to_right_def Let_def num_items_def split: if_splits)+

definition room :: "str node \<Rightarrow> nat \<Rightarrow> nat \<Rightarrow> bool \<Rightarrow> bool" where
  "room n q j leaf \<longleftrightarrow> q \<le> num_items n \<and> j \<le> num_items (child n q) \<and> num_items (child n q) < max_items (child n q) \<and>
     is_leaf (child n q) = leaf \<and> is_inner n"

lemma right_room:
  assumes "rebalance_right pos i n = Some (n', q, j)" "is_inner n" "num_items (child n pos) = max_items (child n pos)"
    "i \<le> num_items (child n pos)" "\<And>p. p \<le> num_items n \<Longrightarrow> is_leaf (child n p) = leaf \<and> num_items (child n p) \<le> max_items (child n p)"
  shows "room n' q j leaf"
proof -
  let ?l = "child n pos" and ?r = "child n (Suc pos)"
  define c where "c = moves_for_insert (available_slots ?r) (i = 0)"
  have pos: "pos < num_items n" and c0: "0 < c" using assms(1) by (auto simp: rebalance_right_def Let_def c_def split: if_splits)
  have leaf: "is_leaf ?l = leaf" "is_leaf ?r = leaf" "max_items ?l = max_items ?r" "num_items ?r \<le> max_items ?r"
    using assms(5)[of pos] assms(5)[of "Suc pos"] pos by (auto simp: max_items_def split: if_splits)
  have c: "num_items ?r + c \<le> max_items ?r" "i \<noteq> 0 \<Longrightarrow> num_items ?r + c < max_items ?r"
    using moves_for_insert_bounds[of "available_slots ?r" "i = 0"] c0 leaf(4) by (auto simp: c_def available_slots_def)
  obtain l k r where mv: "move_to_right c ?l (node_keys n ! pos) ?r = (l, k, r)" by (cases "move_to_right c ?l (node_keys n ! pos) ?r")
  have new: "rebalance_child_to_right pos c n = BPlus_Node.put_pair pos l k r n" using mv by (simp add: rebalance_to_right_pair)
  have cl: "c \<le> num_items ?l" using c(1) assms(3) leaf(3) by simp
  note sizes = move_sizes(2)[OF c0 mv cl]
  note ch = child_put_pair[OF assms(2) pos, where l = l and k = k and r = r] and sel = BPlus_Node.put_pair_sel[OF assms(2), where p = pos and l = l and k = k and r = r]
  have res: "n' = BPlus_Node.put_pair pos l k r n" "(q, j) = (if i > num_items l then (Suc pos, i - (num_items l + 1)) else (pos, i))"
    using assms(1) pos c0 new ch by (auto simp: rebalance_right_def Let_def c_def[symmetric] split: if_splits)
  have mx: "max_items l = max_items ?l" "max_items r = max_items ?r" using sizes by (simp_all add: max_items_def)
  show ?thesis
  proof (cases "i > num_items l")
    case True
    then have "i \<noteq> 0" by simp
    then show ?thesis using True res sizes mx leaf ch sel pos c(2) assms(3,4) by (simp add: room_def)
  next
    case False
    then show ?thesis using res sizes mx leaf ch sel pos c0 cl assms(3) by (simp add: room_def)
  qed
qed

lemma rebalance_room:
  assumes "rebalance_child pos i n = Some (n', q, j)" "is_inner n" "pos \<le> num_items n" "num_items (child n pos) = max_items (child n pos)"
    "i \<le> num_items (child n pos)" "\<And>p. p \<le> num_items n \<Longrightarrow> is_leaf (child n p) = leaf \<and> num_items (child n p) \<le> max_items (child n p)"
  shows "room n' q j leaf"
proof (cases "rebalance_child pos i n = rebalance_right pos i n")
  case True
  then show ?thesis using right_room assms by metis
next
  case False
  then obtain p where p: "pos = Suc p" by (cases pos) (auto simp: rebalance_child_def)
  let ?l = "child n p" and ?r = "child n pos"
  define c where "c = moves_for_insert (available_slots ?l) (i = num_items ?r)"
  have c0: "0 < c"
  proof (rule ccontr)
    assume "\<not> 0 < c"
    then have "rebalance_child pos i n = rebalance_right pos i n" by (simp add: rebalance_child_def Let_def p c_def)
    then show False using False by simp
  qed
  have pos: "p < num_items n" using assms(3) p by simp
  have leaf: "is_leaf ?l = leaf" "is_leaf ?r = leaf" "max_items ?l = max_items ?r" "num_items ?l \<le> max_items ?l"
    using assms(6)[of p] assms(6)[of pos] assms(3) p by (auto simp: max_items_def split: if_splits)
  have c: "num_items ?l + c \<le> max_items ?l" "i \<noteq> num_items ?r \<Longrightarrow> num_items ?l + c < max_items ?l"
    using moves_for_insert_bounds[of "available_slots ?l" "i = num_items ?r"] c0 leaf(4) by (auto simp: c_def available_slots_def)
  obtain l k r where mv: "move_to_left c ?l (node_keys n ! p) ?r = (l, k, r)" by (cases "move_to_left c ?l (node_keys n ! p) ?r")
  have new: "rebalance_child_to_left pos c n = BPlus_Node.put_pair p l k r n" using mv by (simp add: p rebalance_to_left_pair)
  have cr: "c \<le> num_items ?r" using c(1) assms(4) leaf(3) by simp
  note sizes = move_sizes(1)[OF c0 mv cr]
  note ch = child_put_pair[OF assms(2) pos, where l = l and k = k and r = r] and sel = BPlus_Node.put_pair_sel[OF assms(2), where p = p and l = l and k = k and r = r]
  have moves: "moves_for_insert (available_slots (child n p)) (i = num_items (child n (Suc p))) = c" by (simp add: c_def p)
  have res: "n' = BPlus_Node.put_pair p l k r n" "(q, j) = (if i < c then (p, num_items ?l + i + 1) else (pos, i - c))"
    using assms(1) c0 new p moves by (auto simp: rebalance_child_def Let_def split: if_splits)
  have mx: "max_items l = max_items ?l" "max_items r = max_items ?r" using sizes by (simp_all add: max_items_def)
  show ?thesis
  proof (cases "i < c")
    case True
    then have "i \<noteq> num_items ?r" using cr by simp
    then show ?thesis using True res sizes mx leaf ch sel pos c(2) p by (simp add: room_def)
  next
    case False
    then show ?thesis using res sizes mx leaf ch sel pos c0 cr assms(4,5) p by (simp add: room_def)
  qed
qed

section \<open>Rebalancing below the frames\<close>

text \<open>The addresses of the blocks of the tree around a node, none of them null.\<close>

definition no_null :: "frames \<Rightarrow> ptree \<Rightarrow> bool" where
  "no_null fs t \<longleftrightarrow> 0 \<notin> set (frame_addrs fs) \<union> set (addrs t)"

lemma child_in_addrs: "s \<in> set (pchildren t) \<Longrightarrow> set (addrs s) \<subseteq> set (addrs t)"
  by (auto simp: addrs_parts[of t])

lemma put_addrs: "i < length (pchildren p) \<Longrightarrow> set (addrs (put i t p)) = insert (addr p) (\<Union> (set ` addrs ` set (others p i)) \<union> set (addrs t))"
  using arg_cong[OF addrs_put, of i p set_mset t] by auto

lemma same_level_kinds: "same_level t \<longleftrightarrow> (\<forall>x \<in> set (map pleaf (pchildren t)). \<forall>y \<in> set (map pleaf (pchildren t)). x = y)"
  unfolding same_level_def set_map ball_simps by blast

lemma rebalance_at_parent:
  assumes "focus h ((p, i) # fs) t" "length (pkeys t) = max_items (erase t)" "ipos \<le> length (pkeys t)" "no_null ((p, i) # fs) t"
    "rebalance_child i ipos (set_child i (erase t) (erase p)) = Some (n', q, j)"
  shows "\<exists>h' p'. nh_rebalance_child (addr p) i ipos h = (h', addr (pchildren p' ! q), j) \<and> addr (pchildren p' ! q) \<noteq> 0 \<and>
    focus h' fs p' \<and> erase p' = n' \<and> addr p' = addr p \<and> mset (addrs p') = mset (addrs (put i t p)) \<and> same_shape (put i t p) p' \<and>
    proper_node p' \<and> room n' q j (pleaf t) \<and> focus h' ((p', q) # fs) (pchildren p' ! q) \<and> q < length (pchildren p') \<and>
    (\<forall>b. b \<notin> set (addrs (put i t p)) \<longrightarrow> h' b = h b)"
proof -
  note parent = parent_tree[OF assms(1)]
  let ?p = "put i t p"
  have ok: "frames_ok ((p, i) # fs) (pleaf t)" using assms(1) by (simp add: focus_def)
  then have len: "length (pchildren p) = Suc (length (pkeys p))" "pkeys p \<noteq> []" and kind: "\<forall>s \<in> set (pchildren p). pleaf s = pleaf t"
    unfolding frames_ok.simps by blast+
  have foc: "focus h fs ?p" using ok focus_parent assms(1) by blast
  have full: "num_items (child (erase ?p) i) = max_items (child (erase ?p) i)" using parent(6) assms(2) by simp
  have "child_moved h ?p (Some (n', q, j)) (nh_rebalance_child (addr p) i ipos h)"
    using left_rebalanced[OF parent(1,2,3) _ parent(5) full, of ipos] right_rebalanced[OF parent(1,2,3,5) full, of ipos] assms(5)
    by (cases "i = 0") (simp_all add: rebalance_child_def nh_rebalance_child_def erase_put)
  then obtain h' p' where new: "nh_rebalance_child (addr p) i ipos h = (h', addr (pchildren p' ! q), j)" "q < length (pchildren p')"
      "stored h' p'" "erase p' = n'" "addr p' = addr p" "mset (addrs p') = mset (addrs ?p)" "\<forall>b. b \<notin> set (addrs ?p) \<longrightarrow> h' b = h b" "same_shape ?p p'"
    by (auto simp: child_moved_def)
  have same: "set (addrs p') = set (addrs ?p)" using new(6) by (rule mset_eq_setD)
  have inner: "is_inner (erase ?p)"
    unfolding is_inner_def using parent(8) len(1) by (cases p) (simp add: num_items_def)
  have kinds: "is_leaf (child (erase ?p) k) = pleaf t \<and> num_items (child (erase ?p) k) \<le> max_items (child (erase ?p) k)"
    if "k \<le> num_items (erase ?p)" for k
  proof -
    let ?s = "pchildren ?p ! k"
    have k: "k < length (pchildren ?p)" using that len(1) parent(9) by simp
    have "?s \<in> insert t (set (pchildren p))"
      using subsetD[OF set_update_subset_insert nth_mem[OF k[unfolded put_sel]]] unfolding put_sel .
    then have "pleaf ?s = pleaf t" using kind by (metis insertE)
    moreover have s: "child (erase ?p) k = erase ?s" "in_heap h ?s" using inner_reads(6,7)[OF parent(1,2) that] by simp_all
    ultimately show ?thesis
      using block_nth(1)[OF in_heap_root[OF s(2)]] by (simp only: s(1) erase_sel in_heap_sizes(8)[OF s(2), symmetric])
  qed
  have room: "room n' q j (pleaf t)"
    using rebalance_room[OF assms(5)[folded erase_put] inner parent(5) full _ kinds] assms(3) parent(6) by simp
  have leaf: "\<not> pleaf p'" using room new(4) erase_sel(1)[of p'] by (auto simp: room_def)
  have "map pleaf (pchildren p') = map pleaf (pchildren ?p)" using new(8) by (simp add: same_shape_def)
  then have "same_level p'" using parent(3) by (simp only: same_level_kinds)
  moreover have "pkeys p' \<noteq> []" using new(8) len(2) by (auto simp: same_shape_def)
  moreover have "length (pchildren p') = Suc (length (pkeys p'))"
    using new(8) len(1) by (metis (no_types) length_list_update length_map put_sel(5) put_sel(3) same_shape_def)
  ultimately have proper: "proper_node p'" by (simp add: proper_node_def)
  have foc': "focus h' fs p'"
    by (rule focus_replace[OF foc, where N = "{}"]) (use new same leaf parent(8) in \<open>auto simp: stored_def\<close>)
  have "addr (pchildren p' ! q) \<in> set (addrs p')"
    using child_in_addrs[of "pchildren p' ! q" p'] new(2) addr_in by (meson nth_mem subsetD)
  then have "addr (pchildren p' ! q) \<noteq> 0"
    using assms(4) same put_addrs[OF parent(7), of t] by (auto simp: no_null_def)
  then show ?thesis
    using new foc' proper room focus_child[OF foc' leaf proper new(2)] by blast
qed

lemma no_rebalance_at_parent:
  assumes "focus h ((p, i) # fs) t" "length (pkeys t) = max_items (erase t)"
    "rebalance_child i ipos (set_child i (erase t) (erase p)) = None"
  shows "nh_rebalance_child (addr p) i ipos h = (h, 0, 0)"
proof -
  note parent = parent_tree[OF assms(1)]
  have full: "num_items (child (erase (put i t p)) i) = max_items (child (erase (put i t p)) i)" using parent(6) assms(2) by simp
  have "child_moved h (put i t p) None (nh_rebalance_child (addr p) i ipos h)"
    using left_rebalanced[OF parent(1,2,3) _ parent(5) full, of ipos] right_rebalanced[OF parent(1,2,3,5) full, of ipos] assms(3)
    by (cases "i = 0") (simp_all add: rebalance_child_def nh_rebalance_child_def erase_put)
  then show ?thesis by (simp add: child_moved_def)
qed

section \<open>A full leaf next to one with room\<close>

lemma focus_leaf_insert:
  assumes "focus h fs t" "pleaf t" "i \<le> length (pkeys t)" "length (pkeys t) < kMaxLeafKeys" "length x = 16"
  shows "\<exists>t'. focus (h(addr t := nb_leaf_insert i x (h (addr t)))) fs t' \<and> erase t' = leaf_insert i x (erase t) \<and>
    addrs t' = addrs t \<and> addr t' = addr t"
proof -
  have "edits h t (nb_leaf_insert i x (h (addr t))) (leaf_insert i x (erase t))"
    by (rule leaf_edits(1)[OF focus_stored[OF assms(1)]]) (use assms in simp_all)
  moreover have "is_leaf (leaf_insert i x (erase t)) = is_leaf (erase t)" by (cases "erase t") (simp_all add: leaf_insert_def)
  ultimately show ?thesis using focus_edit[OF assms(1)] by blast
qed

text \<open>The whole tree is stored again, with a root of this address and these blocks.\<close>

definition closed :: "heap \<Rightarrow> u64 \<Rightarrow> u64 multiset \<Rightarrow> str node \<Rightarrow> bool" where
  "closed h a blocks n \<longleftrightarrow> (\<exists>T. stored h T \<and> erase T = n \<and> addr T = a \<and> mset (addrs T) = blocks)"

lemma closedI:
  assumes "focus h fs t" "top_addr fs (addr t) = a" "mset (frame_addrs fs @ addrs t) = blocks"
  shows "closed (mt_increase_counts (frame_path fs) d h) a blocks (rebuild d (frame_nodes fs) (erase t))"
  using focus_finish[OF assms(1), of d] assms(2,3) by (auto simp: closed_def)

lemma child_erase: "\<not> pleaf t \<Longrightarrow> i < length (pchildren t) \<Longrightarrow> child (erase t) i = erase (pchildren t ! i)"
  by (cases t) (simp add: child_def)

lemma leaf_rebalanced:
  assumes "focus h ((p, i) # fs) t" "pleaf t" "length (pkeys t) = kMaxLeafKeys" "ipos \<le> length (pkeys t)" "no_null ((p, i) # fs) t"
    "pchildren p ! i = t" "length item = 16" "rebalance_leaf_and_insert (frame_nodes ((p, i) # fs)) item ipos = Some root"
  shows "\<exists>h'. mt_rebalance_leaf_and_insert (frame_path ((p, i) # fs)) item ipos h = (True, h') \<and>
    closed (mt_increase_counts (frame_path ((p, i) # fs)) 1 h') (top_addr fs (addr p)) (mset (frame_addrs ((p, i) # fs) @ addrs t)) root"
proof -
  note parent = parent_tree[OF assms(1)]
  have full: "length (pkeys t) = max_items (erase t)" using assms(2,3) by (simp add: max_items_def)
  have same: "put i t p = p" using assms(6) by (cases p) auto
  then have same': "set_child i (erase t) (erase p) = erase p" by (metis erase_put)
  obtain n' q j where rb: "rebalance_child i ipos (erase p) = Some (n', q, j)"
      and root: "root = rebuild 1 (frame_nodes fs) (increase_tree_count 1 (set_child q (leaf_insert j item (child n' q)) n'))"
    using assms(8) by (auto simp: rebalance_leaf_and_insert_def split: option.splits)
  obtain h1 p' where new: "nh_rebalance_child (addr p) i ipos h = (h1, addr (pchildren p' ! q), j)" "addr (pchildren p' ! q) \<noteq> 0"
      "erase p' = n'" "addr p' = addr p" "mset (addrs p') = mset (addrs p)" "room n' q j (pleaf t)"
      "focus h1 ((p', q) # fs) (pchildren p' ! q)" "q < length (pchildren p')"
    using rebalance_at_parent[OF assms(1) full assms(4,5), unfolded same same', OF rb] by blast
  let ?s = "pchildren p' ! q"
  have s: "child n' q = erase ?s" using child_erase[of p' q] parent_tree(8)[OF new(7)] new(3,8) by simp
  have leaf: "pleaf ?s" "j \<le> length (pkeys ?s)" "length (pkeys ?s) < kMaxLeafKeys"
    using new(6) assms(2) unfolding room_def s by (auto simp: max_items_def split: if_splits)
  from focus_leaf_insert[OF new(7) leaf assms(7)] obtain s' where s': "focus (h1(addr ?s := nb_leaf_insert j item (h1 (addr ?s)))) ((p', q) # fs) s'"
      "erase s' = leaf_insert j item (erase ?s)" "addrs s' = addrs ?s" "addr s' = addr ?s"
    by blast
  have "mset (frame_addrs ((p', q) # fs) @ addrs s') = mset (frame_addrs fs @ addrs p')"
    using child_addrs[OF new(8), of fs] s'(3) by simp
  also have "\<dots> = mset (frame_addrs ((p, i) # fs) @ addrs t)"
    using child_addrs[OF parent(7), of fs] new(5) assms(6) by simp
  finally have blocks: "mset (frame_addrs ((p', q) # fs) @ addrs s') = mset (frame_addrs ((p, i) # fs) @ addrs t)" .
  have "closed (mt_increase_counts (frame_path ((p', q) # fs)) 1 (h1(addr ?s := nb_leaf_insert j item (h1 (addr ?s)))))
      (top_addr fs (addr p)) (mset (frame_addrs ((p, i) # fs) @ addrs t)) (rebuild 1 (frame_nodes ((p', q) # fs)) (erase s'))"
    by (rule closedI[OF s'(1) _ blocks]) (simp add: new(4))
  then show ?thesis
    using new(1,2,3,4) s'(2) s unfolding root by (simp add: mt_rebalance_leaf_and_insert_def)
qed

lemma leaf_not_rebalanced:
  assumes "focus h fs t" "pleaf t" "length (pkeys t) = kMaxLeafKeys" "linked fs t"
    "rebalance_leaf_and_insert (frame_nodes fs) item ipos = None"
  shows "mt_rebalance_leaf_and_insert (frame_path fs) item ipos h = (False, h)"
proof (cases fs)
  case Nil
  then show ?thesis by (simp add: mt_rebalance_leaf_and_insert_def)
next
  case (Cons f gs)
  obtain p i where f: "f = (p, i)" by (cases f)
  have "put i t p = p" using assms(4) by (cases p) (auto simp: linked_def Cons f)
  then have same: "set_child i (erase t) (erase p) = erase p" by (metis erase_put)
  have full: "length (pkeys t) = max_items (erase t)" using assms(2,3) by (simp add: max_items_def)
  have "rebalance_child i ipos (erase p) = None"
    using assms(5) by (auto simp: rebalance_leaf_and_insert_def Cons f split: option.splits)
  then have "nh_rebalance_child (addr p) i ipos h = (h, 0, 0)"
    using no_rebalance_at_parent[of h p i gs t ipos] assms(1) full same by (simp add: Cons f)
  then show ?thesis by (simp add: mt_rebalance_leaf_and_insert_def Cons f)
qed

section \<open>A node with a new tree beside it\<close>

definition beside :: "heap \<Rightarrow> frames \<Rightarrow> ptree \<Rightarrow> ptree \<Rightarrow> bool" where
  "beside h fs t r \<longleftrightarrow> focus h fs t \<and> stored h r \<and> set (addrs r) \<inter> (set (frame_addrs fs) \<union> set (addrs t)) = {}"

lemma focus_inner_insert:
  assumes "beside h fs t r" "\<not> pleaf t" "i \<le> length (pkeys t)" "length (pkeys t) < kMaxInnerKeys" "length x = 16"
  shows "\<exists>t'. focus (h(addr t := nb_inner_insert i x (addr r) (h (addr t)))) fs t' \<and> erase t' = inner_insert i x (erase r) (erase t) \<and>
    addr t' = addr t \<and> \<not> pleaf t' \<and> mset (addrs t') = mset (addrs t @ addrs r)"
proof -
  have foc: "focus h fs t" and r: "stored h r" and far: "set (addrs r) \<inter> (set (frame_addrs fs) \<union> set (addrs t)) = {}"
    using assms(1) by (simp_all add: beside_def)
  obtain t' where t': "stored (h(addr t := nb_inner_insert i x (addr r) (h (addr t)))) t'" "erase t' = inner_insert i x (erase r) (erase t)"
      "addr t' = addr t" "mset (addrs t') = mset (addrs t @ addrs r)"
    using inner_insert_stored[OF focus_stored[OF foc] r, of i x] far assms(2-5) by auto
  have leaf: "\<not> pleaf t'" using arg_cong[OF t'(2), of is_leaf] assms(2) by (cases t) (simp add: inner_insert_def)
  have "set (addrs t') = set (addrs t) \<union> set (addrs r)" using mset_eq_setD[OF t'(4)] by simp
  then have "focus (h(addr t := nb_inner_insert i x (addr r) (h (addr t)))) fs t'"
    using t' leaf assms(2) far addr_in[of t] by (intro focus_replace[OF foc, where N = "set (addrs r)"]) (auto simp: stored_def simp del: addr_in)
  then show ?thesis using t' leaf by blast
qed

lemma focus_count:
  assumes "focus h fs t" "\<not> pleaf t"
  shows "\<exists>t'. focus (h(addr t := nb_increase_tree_count d (h (addr t)))) fs t' \<and> erase t' = increase_tree_count d (erase t) \<and>
    addr t' = addr t \<and> \<not> pleaf t' \<and> addrs t' = addrs t"
proof -
  have "is_leaf (increase_tree_count d (erase t)) = is_leaf (erase t)" by (cases "erase t") (simp_all add: increase_tree_count_def)
  then show ?thesis
    using focus_edit[OF assms(1) count_edits[OF focus_stored[OF assms(1)], of d]] assms(2) by auto
qed

text \<open>Counting in a child, seen from the parent.\<close>

lemma proper_put:
  assumes "proper_node t" "pleaf s = pleaf (pchildren t ! i)" "i < length (pchildren t)"
  shows "proper_node (put i s t)"
proof -
  have "map pleaf ((pchildren t)[i := s]) = map pleaf (pchildren t)"
    using assms(2,3) by (simp add: map_update list_update_same_conv)
  then show ?thesis using assms(1) unfolding proper_node_def same_level_kinds put_sel by simp
qed

lemma focus_count_child:
  assumes "focus h fs p" "\<not> pleaf p" "proper_node p" "i < length (pchildren p)" "\<not> pleaf (pchildren p ! i)"
  shows "\<exists>p'. focus (h(addr (pchildren p ! i) := nb_increase_tree_count d (h (addr (pchildren p ! i))))) fs p' \<and>
    erase p' = set_child i (increase_tree_count d (child (erase p) i)) (erase p) \<and> addr p' = addr p \<and> \<not> pleaf p' \<and> proper_node p' \<and>
    mset (addrs p') = mset (addrs p) \<and> map addr (pchildren p') = map addr (pchildren p) \<and> map pleaf (pchildren p') = map pleaf (pchildren p)"
proof -
  let ?s = "pchildren p ! i"
  obtain s' where s': "focus (h(addr ?s := nb_increase_tree_count d (h (addr ?s)))) ((p, i) # fs) s'"
      "erase s' = increase_tree_count d (erase ?s)" "addr s' = addr ?s" "\<not> pleaf s'" "addrs s' = addrs ?s"
    using focus_count[OF focus_child[OF assms(1-4)] assms(5)] by blast
  have ok: "frames_ok ((p, i) # fs) (pleaf s')" using s'(1) by (simp add: focus_def)
  have same: "put i ?s p = p" by (cases p) simp
  have "mset (addrs (put i s' p)) = mset (addrs p)"
    using addrs_put[OF assms(4), of s'] addrs_put[OF assms(4), of ?s] s'(5) same by simp
  moreover have "map addr ((pchildren p)[i := s']) = map addr (pchildren p)" "map pleaf ((pchildren p)[i := s']) = map pleaf (pchildren p)"
    using s'(3,4) assms(4,5) by (simp_all add: map_update list_update_same_conv)
  moreover have "erase (put i s' p) = set_child i (increase_tree_count d (child (erase p) i)) (erase p)"
    using s'(2) child_erase[OF assms(2,4)] by (simp add: erase_put)
  ultimately show ?thesis
    using s'(1) focus_parent[OF ok, of "h(addr ?s := nb_increase_tree_count d (h (addr ?s)))"] assms(2,5) s'(4) proper_put[OF assms(3) _ assms(4), of s']
    by (intro exI[of _ "put i s' p"]) auto
qed

lemma closed_parent:
  assumes "focus h fs p" "\<not> pleaf p" "top_addr fs (addr p) = a" "mset (frame_addrs fs @ addrs p) = blocks"
  shows "closed (mt_increase_counts ((addr p, k) # frame_path fs) d h) a blocks (rebuild d (frame_nodes fs) (increase_tree_count d (erase p)))"
proof -
  obtain p' where p': "focus (h(addr p := nb_increase_tree_count d (h (addr p)))) fs p'" "erase p' = increase_tree_count d (erase p)"
      "addr p' = addr p" "addrs p' = addrs p"
    using focus_count[OF assms(1,2)] by blast
  show ?thesis using closedI[OF p'(1), of a blocks d] p' assms(3,4) by simp
qed

section \<open>A full inner node next to one with room\<close>

lemma set_child_twice: "q \<noteq> i \<Longrightarrow> set_child q x (set_child i y (set_child q z n)) = set_child q x (set_child i y n)"
  and set_child_again: "set_child q x (set_child q z n) = set_child q x n"
  by (cases n; simp add: set_child_def list_update_swap)+

lemma child_set_child:
  "is_inner n \<Longrightarrow> i \<le> num_items n \<Longrightarrow> child (set_child i x n) j = (if j = i then x else child n j)"
  by (rule set_child_sel(6))

lemma proper_inner: "proper_node p \<Longrightarrow> \<not> pleaf p \<Longrightarrow> is_inner (erase p)"
  unfolding is_inner_def by (cases p) (simp add: proper_node_def num_items_def)

lemma beside_step:
  assumes "beside h fs t r" "focus h' gs s" "set (frame_addrs gs) \<union> set (addrs s) = set (frame_addrs fs) \<union> set (addrs t)"
    "\<And>b. b \<notin> set (frame_addrs fs) \<union> set (addrs t) \<Longrightarrow> h' b = h b"
  shows "beside h' gs s r"
proof -
  have "in_heap h' r" by (rule in_heap_frame[of h]) (use assms in \<open>auto simp: beside_def stored_def\<close>)
  then show ?thesis using assms(1-3) by (simp add: beside_def stored_def)
qed

text \<open>The counts of the node and of the sibling that took the new tree.\<close>

lemma counts_adjusted:
  fixes d e :: u32
  assumes "focus h fs p" "\<not> pleaf p" "proper_node p" "i < length (pchildren p)" "q < length (pchildren p)" "i \<noteq> q"
    "\<not> pleaf (pchildren p ! i)" "\<not> pleaf (pchildren p ! q)"
  defines "h1 \<equiv> h(addr (pchildren p ! i) := nb_increase_tree_count d (h (addr (pchildren p ! i))))"
  shows "\<exists>p'. focus (h1(addr (pchildren p ! q) := nb_increase_tree_count e (h1 (addr (pchildren p ! q))))) fs p' \<and>
    erase p' = set_child q (increase_tree_count e (child (erase p) q)) (set_child i (increase_tree_count d (child (erase p) i)) (erase p)) \<and>
    addr p' = addr p \<and> \<not> pleaf p' \<and> mset (addrs p') = mset (addrs p)"
proof -
  obtain p1 where p1: "focus h1 fs p1" "erase p1 = set_child i (increase_tree_count d (child (erase p) i)) (erase p)" "addr p1 = addr p"
      "\<not> pleaf p1" "proper_node p1" "mset (addrs p1) = mset (addrs p)" "map addr (pchildren p1) = map addr (pchildren p)"
      "map pleaf (pchildren p1) = map pleaf (pchildren p)"
    using focus_count_child[OF assms(1-4,7), of d] unfolding h1_def by blast
  have len: "length (pchildren p1) = length (pchildren p)" using p1(7) by (metis length_map)
  then have q: "q < length (pchildren p1)" "addr (pchildren p1 ! q) = addr (pchildren p ! q)" "\<not> pleaf (pchildren p1 ! q)"
    using assms(5,8) arg_cong[OF p1(7), of "\<lambda>xs. xs ! q"] arg_cong[OF p1(8), of "\<lambda>xs. xs ! q"] by simp_all
  have "child (erase p1) q = child (erase p) q"
    using child_set_child[OF proper_inner[OF assms(3,2)], of i _ q] assms(2-4,6) p1(2) by (simp add: proper_node_def)
  moreover obtain p2 where "focus (h1(addr (pchildren p ! q) := nb_increase_tree_count e (h1 (addr (pchildren p ! q))))) fs p2"
      "erase p2 = set_child q (increase_tree_count e (child (erase p1) q)) (erase p1)" "addr p2 = addr p1" "\<not> pleaf p2"
      "mset (addrs p2) = mset (addrs p1)"
    using focus_count_child[OF p1(1,4,5) q(1,3), of e] unfolding q(2) by blast
  ultimately show ?thesis using p1(2,3,6) by (intro exI[of _ p2]) (simp del: fun_upd_apply)
qed

lemma kept_counts: "stored h r \<Longrightarrow> h' (addr r) = h (addr r) \<Longrightarrow> nb_tree_count (h' (addr r)) = tree_count (erase r)"
  using in_heap_sizes(5) by (simp add: stored_def)

lemma inner_moved:
  assumes "beside h ((p, i) # fs) t r" "\<not> pleaf t" "length (pkeys t) = kMaxInnerKeys" "pos \<le> length (pkeys t)" "no_null ((p, i) # fs) t"
    "length median = 16" "rebalance_child i pos (set_child i (erase t) (erase p)) = Some (n', q, j)"
  shows "\<exists>h1 p' s'. nh_rebalance_child (addr p) i pos h = (h1, addr s', j) \<and> addr s' \<noteq> 0 \<and> erase p' = n' \<and> addr p' = addr p \<and>
    same_shape (put i t p) p' \<and> q < length (pchildren p') \<and> addr s' = addr (pchildren p' ! q) \<and> proper_node p' \<and>
    focus (h1(addr s' := nb_inner_insert j median (addr r) (h1 (addr s')))) ((p', q) # fs) s' \<and>
    erase s' = inner_insert j median (erase r) (child n' q) \<and> \<not> pleaf s' \<and>
    mset (frame_addrs ((p', q) # fs) @ addrs s') = mset (frame_addrs ((p, i) # fs) @ addrs t @ addrs r) \<and>
    h1 (addr r) = h (addr r) \<and> addr r \<notin> set (addrs p')"
proof -
  have foc: "focus h ((p, i) # fs) t" and far: "set (addrs r) \<inter> (set (frame_addrs ((p, i) # fs)) \<union> set (addrs t)) = {}"
    using assms(1) by (simp_all only: beside_def)
  note parent = parent_tree[OF foc]
  have full: "length (pkeys t) = max_items (erase t)" using assms(2,3) by (simp add: max_items_def)
  obtain h1 p' where new: "nh_rebalance_child (addr p) i pos h = (h1, addr (pchildren p' ! q), j)" "addr (pchildren p' ! q) \<noteq> 0"
      "erase p' = n'" "addr p' = addr p" "mset (addrs p') = mset (addrs (put i t p))" "same_shape (put i t p) p'" "proper_node p'"
      "room n' q j (pleaf t)" "focus h1 ((p', q) # fs) (pchildren p' ! q)" "q < length (pchildren p')"
      and out: "\<And>b. b \<notin> set (addrs (put i t p)) \<Longrightarrow> h1 b = h b"
    using rebalance_at_parent[OF foc full assms(4,5,7)] by blast
  let ?s = "pchildren p' ! q"
  have s: "child n' q = erase ?s" using child_erase[OF parent_tree(8)[OF new(9)] new(10)] new(3) by simp
  have sub: "\<not> pleaf ?s" "j \<le> length (pkeys ?s)" "length (pkeys ?s) < kMaxInnerKeys"
    using new(8) assms(2) unfolding room_def s by (auto simp: max_items_def split: if_splits)
  have same: "set (addrs (put i t p)) \<subseteq> set (frame_addrs ((p, i) # fs)) \<union> set (addrs t)" "set (addrs p') = set (addrs (put i t p))"
    using put_addrs[OF parent(7), of t] mset_eq_setD[OF new(5)] by auto
  have blocks: "mset (frame_addrs ((p', q) # fs) @ addrs ?s) = mset (frame_addrs ((p, i) # fs) @ addrs t)"
    using child_addrs[OF new(10), of fs] addrs_put[OF parent(7), of t] new(5) by simp
  have "beside h1 ((p', q) # fs) ?s r"
  proof (rule beside_step[OF assms(1) new(9)])
    show "set (frame_addrs ((p', q) # fs)) \<union> set (addrs ?s) = set (frame_addrs ((p, i) # fs)) \<union> set (addrs t)"
      using mset_eq_setD[OF blocks] unfolding set_append .
    show "h1 b = h b" if "b \<notin> set (frame_addrs ((p, i) # fs)) \<union> set (addrs t)" for b
      by (rule out) (use that same(1) in blast)
  qed
  from focus_inner_insert[OF this sub assms(6)] obtain s' where s':
      "focus (h1(addr ?s := nb_inner_insert j median (addr r) (h1 (addr ?s)))) ((p', q) # fs) s'"
      "erase s' = inner_insert j median (erase r) (erase ?s)" "addr s' = addr ?s" "\<not> pleaf s'" "mset (addrs s') = mset (addrs ?s @ addrs r)"
    by blast
  have r: "addr r \<notin> set (addrs (put i t p))" using far same(1) addr_in[of r] by blast
  have "mset (frame_addrs ((p', q) # fs) @ addrs s') = mset (frame_addrs ((p, i) # fs) @ addrs t @ addrs r)"
    using blocks s'(5) by simp
  then show ?thesis
    using new s' s out[OF r] r same(2) by (intro exI[of _ h1] exI[of _ p'] exI[of _ s']) (simp del: fun_upd_apply)
qed

lemma same_shape_children:
  assumes "same_shape (put i t p) p'" "i < length (pchildren p)" "frames_ok ((p, i) # fs) (pleaf t)"
  shows "i < length (pchildren p')" "addr (pchildren p' ! i) = addr t" "k < length (pchildren p') \<Longrightarrow> pleaf (pchildren p' ! k) = pleaf t"
proof -
  have a: "map addr (pchildren p') = map addr ((pchildren p)[i := t])" and l: "map pleaf (pchildren p') = map pleaf ((pchildren p)[i := t])"
    using assms(1) by (simp_all add: same_shape_def)
  have len: "length (pchildren p') = length (pchildren p)" using arg_cong[OF a, of length] by simp
  then show i: "i < length (pchildren p')" using assms(2) by simp
  show "addr (pchildren p' ! i) = addr t" using arg_cong[OF a, of "\<lambda>xs. xs ! i"] i assms(2) by simp
  assume k: "k < length (pchildren p')"
  then have "pleaf (pchildren p' ! k) = pleaf ((pchildren p)[i := t] ! k)" using arg_cong[OF l, of "\<lambda>xs. xs ! k"] len by simp
  moreover have "pleaf (pchildren p ! k) = pleaf t" using assms(3) k len nth_mem by simp
  ultimately show "pleaf (pchildren p' ! k) = pleaf t" using k len by (cases "k = i") simp_all
qed

lemma in_others:
  assumes "q < length (pchildren p)" "q \<noteq> i"
  shows "pchildren p ! q \<in> set (others p i)"
proof (cases "q < i")
  case True
  then show ?thesis using assms nth_mem[of q "take i (pchildren p)"] by (simp add: others_def)
next
  case False
  then show ?thesis using assms nth_mem[of "q - Suc i" "drop (Suc i) (pchildren p)"] by (simp add: others_def)
qed

lemma addr_children_eq:
  assumes "focus h ((p, i) # fs) t" "q < length (pchildren p)" "q \<noteq> i"
  shows "addr (pchildren p ! q) \<noteq> addr t"
proof -
  have "set (addrs t) \<inter> set (addrs (pchildren p ! q)) = {}"
    using assms(1) in_others[OF assms(2,3)] by (auto simp: focus_def)
  then show ?thesis using addr_in[of t] addr_in[of "pchildren p ! q"] by (metis disjoint_iff)
qed

lemma inner_rebalanced:
  assumes "beside h ((p, i) # fs) t r" "\<not> pleaf t" "length (pkeys t) = kMaxInnerKeys" "pos \<le> length (pkeys t)" "no_null ((p, i) # fs) t"
    "length median = 16" "insert_rebalanced ((erase p, i) # frame_nodes fs) (erase t) pos median (erase r) = Some root"
  shows "\<exists>h'. mt_insert_rebalanced ((addr p, i) # frame_path fs) (addr t) pos median (addr r) h = (True, h') \<and>
    closed (mt_increase_counts ((addr p, i) # frame_path fs) 1 h') (top_addr fs (addr p))
      (mset (frame_addrs ((p, i) # fs) @ addrs t @ addrs r)) root"
proof -
  have foc: "focus h ((p, i) # fs) t" using assms(1) by (simp only: beside_def)
  have i: "i < length (pchildren p)" and ok: "frames_ok ((p, i) # fs) (pleaf t)" using foc by (simp_all add: focus_def)
  obtain n' q j where rb: "rebalance_child i pos (set_child i (erase t) (erase p)) = Some (n', q, j)"
    using assms(7) by (auto simp: insert_rebalanced_def split: option.splits)
  obtain h1 p' s' where new: "nh_rebalance_child (addr p) i pos h = (h1, addr s', j)" "addr s' \<noteq> 0" "erase p' = n'" "addr p' = addr p"
      "same_shape (put i t p) p'" "q < length (pchildren p')" "addr s' = addr (pchildren p' ! q)" "proper_node p'"
      "focus (h1(addr s' := nb_inner_insert j median (addr r) (h1 (addr s')))) ((p', q) # fs) s'"
      "erase s' = inner_insert j median (erase r) (child n' q)" "\<not> pleaf s'"
      "mset (frame_addrs ((p', q) # fs) @ addrs s') = mset (frame_addrs ((p, i) # fs) @ addrs t @ addrs r)"
      "h1 (addr r) = h (addr r)" "addr r \<notin> set (addrs p')"
    using inner_moved[OF assms(1-6) rb] by blast
  note shape = same_shape_children[OF new(5) i ok]
  define h2 where "h2 = h1(addr s' := nb_inner_insert j median (addr r) (h1 (addr s')))"
  note foc2 = new(9)[folded h2_def]
  have far: "addr r \<noteq> addr (pchildren p' ! k)" if "k < length (pchildren p')" for k
    using new(14) child_in_addrs[OF nth_mem[OF that]] addr_in by (metis subsetD)
  have r: "stored h r" using assms(1) by (simp add: beside_def)
  have tc: "nb_tree_count (h' (addr r)) = tree_count (erase r)" if "h' (addr r) = h1 (addr r)" for h'
    using kept_counts[OF r, of h'] that new(13) by simp
  show ?thesis
  proof (cases "q = i")
    case True
    obtain s2 where s2: "focus (h2(addr s' := nb_increase_tree_count 1 (h2 (addr s')))) ((p', q) # fs) s2"
        "erase s2 = increase_tree_count 1 (erase s')" "addrs s2 = addrs s'"
      using focus_count[OF foc2 new(11)] by blast
    have "root = rebuild 1 (frame_nodes ((p', q) # fs)) (erase s2)"
      using assms(7) rb True by (simp add: insert_rebalanced_def s2(2) new(3,10))
    moreover have "mt_insert_rebalanced ((addr p, i) # frame_path fs) (addr t) pos median (addr r) h =
        (True, h2(addr s' := nb_increase_tree_count 1 (h2 (addr s'))))"
      using new(1,2,7) shape(2) True by (simp add: mt_insert_rebalanced_def h2_def)
    ultimately show ?thesis
      using closedI[OF s2(1), of "top_addr fs (addr p)" "mset (frame_addrs ((p, i) # fs) @ addrs t @ addrs r)" 1] new(4,12) s2(3)
      by (simp del: frame_addrs.simps fun_upd_apply mset_append)
  next
    case False
    let ?p = "put q s' p'"
    have kinds: "pleaf s' = pleaf (pchildren p' ! q)" using shape(3)[OF new(6)] assms(2) new(11) by simp
    have p: "focus h2 fs ?p" "\<not> pleaf ?p" "proper_node ?p" "i < length (pchildren ?p)" "q < length (pchildren ?p)"
        "pchildren ?p ! q = s'" "addr (pchildren ?p ! i) = addr t" "\<not> pleaf (pchildren ?p ! i)" "\<not> pleaf (pchildren ?p ! q)"
      using foc2 focus_parent[of p' q fs s' h2] proper_put[OF new(8) kinds new(6)] shape(1,2) shape(3)[OF shape(1)] new(6,11) False assms(2)
      by (auto simp: focus_def)
    let ?h3 = "h2(addr t := nb_increase_tree_count (- tree_count (erase r)) (h2 (addr t)))"
    obtain p4 where p4: "focus (?h3(addr s' := nb_increase_tree_count (tree_count (erase r) + 1) (?h3 (addr s')))) fs p4"
        "erase p4 = set_child q (increase_tree_count (tree_count (erase r) + 1) (child (erase ?p) q))
          (set_child i (increase_tree_count (- tree_count (erase r)) (child (erase ?p) i)) (erase ?p))"
        "addr p4 = addr ?p" "\<not> pleaf p4" "mset (addrs p4) = mset (addrs ?p)"
      using counts_adjusted[OF p(1-5) False[symmetric] p(8,9), of "- tree_count (erase r)" "tree_count (erase r) + 1"] unfolding p(6,7) by blast
    have "child (erase ?p) q = erase s'" "child (erase ?p) i = child n' i"
      using child_erase[OF p(2,5)] child_set_child[OF proper_inner[OF new(8)], of q "erase s'" i] p(2,6) new(3,6,8) False erase_sel(2)[of p']
      by (auto simp: proper_node_def erase_put)
    then have e: "erase p4 = set_child q (increase_tree_count (tree_count (erase r) + 1) (erase s'))
        (set_child i (increase_tree_count (- tree_count (erase r)) (child n' i)) n')"
      using p4(2) set_child_twice[OF False, of _ _ "erase s'" n'] by (simp add: erase_put new(3))
    have root: "root = rebuild 1 (frame_nodes fs) (increase_tree_count 1 (erase p4))"
      using assms(7) rb False by (simp add: insert_rebalanced_def e new(10) Let_def)
    have ne: "addr s' \<noteq> addr t" "addr r \<noteq> addr s'" "addr r \<noteq> addr t"
      using addr_children_eq[OF foc2 shape(1)] False shape(2) far[OF new(6)] far[OF shape(1)] new(7) by auto
    then have "nb_tree_count (h2 (addr r)) = tree_count (erase r)" "nb_tree_count (?h3 (addr r)) = tree_count (erase r)"
      using tc by (simp_all add: h2_def)
    then have run: "mt_insert_rebalanced ((addr p, i) # frame_path fs) (addr t) pos median (addr r) h =
        (True, ?h3(addr s' := nb_increase_tree_count (tree_count (erase r) + 1) (?h3 (addr s'))))"
      using new(1,2) ne by (simp add: mt_insert_rebalanced_def h2_def[symmetric] Let_def del: fun_upd_apply) (simp add: h2_def fun_eq_iff)
    have "mset (frame_addrs fs @ addrs p4) = mset (frame_addrs ((p, i) # fs) @ addrs t @ addrs r)"
      using new(12) addrs_put[OF new(6), of s'] p4(5) by (simp add: ac_simps)
    then show ?thesis
      using closed_parent[OF p4(1,4), of "top_addr fs (addr p)"] p4(3) new(4) unfolding run root by simp
  qed
qed

end
