(* ===== verification/Tree_Grow.thy ===== *)
theory Tree_Grow
  imports Tree_Insert
begin

text \<open>
  \<^verbatim>\<open>Insert\<close> on the heap where nodes are split: the loop of \<^verbatim>\<open>InsertToFullLeaf\<close> up to a new root, over the frames of the leaf, with
  the new blocks in the order \<^verbatim>\<open>operator new\<close> returns them.
\<close>

section \<open>Splitting below the frames\<close>

lemma focus_frame:
  assumes "focus h fs t" "\<And>a. a \<in> set (frame_addrs fs) \<union> set (addrs t) \<Longrightarrow> h' a = h a"
  shows "focus h' fs t"
  using assms in_heap_frame[of h t h'] in_frames_frame[of h fs "addr t" h'] by (auto simp: focus_def)

lemma stored_untouched: "stored h t \<Longrightarrow> (\<And>a. a \<in> set (addrs t) \<Longrightarrow> h' a = h a) \<Longrightarrow> stored h' t"
  using in_heap_frame[of h t h'] by (auto simp: stored_def)

lemma beside_distinct: "beside h fs t r \<longleftrightarrow> focus h fs t \<and> stored h r \<and> distinct (frame_addrs fs @ addrs t @ addrs r)"
  by (auto simp: beside_def focus_def stored_def)

lemma split_sizes:
  assumes "split_node n = (a, m, b)"
  shows "num_items a = num_items n div 2" "num_items b = num_items n - (num_items n div 2 + 1)" "is_leaf a = is_leaf n"
    "is_leaf b = is_leaf n" "m = node_keys n ! (num_items n div 2)"
  using assms by (cases n; auto simp: split_node_def Let_def num_items_def)+

lemma split_beside:
  assumes "focus h fs t" "fst b \<notin> set (frame_addrs fs) \<union> set (addrs t)" "length (snd b) = 256" "0 < length (pkeys t)"
  shows "\<exists>m h' l r. nh_split (addr t) (fst b) (h(fst b := nb_new leaf (snd b))) = (m, h') \<and> split_node (erase t) = (erase l, m, erase r) \<and>
    beside h' fs l r \<and> addr l = addr t \<and> addr r = fst b \<and> pleaf l = pleaf t \<and> pleaf r = pleaf t \<and>
    mset (addrs l @ addrs r) = add_mset (fst b) (mset (addrs t)) \<and> (\<forall>c. c \<noteq> addr t \<longrightarrow> c \<noteq> fst b \<longrightarrow> h' c = h c) \<and> length m = 16"
proof -
  let ?h = "h(fst b := nb_new leaf (snd b))"
  have foc: "focus ?h fs t" by (rule focus_frame[OF assms(1)]) (use assms(2) in auto)
  have len: "length (?h (fst b)) = 256" using assms(3) by (simp add: nb_new_def after_set_leaf after_set_num)
  obtain m h' l r where new: "nh_split (addr t) (fst b) ?h = (m, h')" "split_node (erase t) = (erase l, m, erase r)" "addr l = addr t"
      "addr r = fst b" "in_heap h' l" "in_heap h' r" "distinct (addrs l @ addrs r)" "mset (addrs l @ addrs r) = add_mset (fst b) (mset (addrs t))"
      and out: "\<forall>c. c \<noteq> addr t \<longrightarrow> c \<noteq> fst b \<longrightarrow> h' c = ?h c"
    using split_stored[OF focus_stored[OF foc] _ len] assms(2,4) unfolding erase_sel by blast
  note sizes = split_sizes[OF new(2), unfolded erase_sel]
  have t: "in_heap h t" using assms(1) by (simp add: focus_def)
  have "length m = 16" using sizes(5) block_nth(3)[OF in_heap_root[OF t], of "length (pkeys t) div 2"] assms(4) by simp
  moreover have set: "set (addrs l) \<union> set (addrs r) = insert (fst b) (set (addrs t))" using arg_cong[OF new(8), of set_mset] by simp
  then have far: "set (frame_addrs fs) \<inter> (set (addrs l) \<union> set (addrs r)) = {}" using assms(1,2) by (auto simp: focus_def)
  moreover have outside: "h' c = ?h c" if "c \<notin> set (addrs t) \<union> {fst b}" for c
    using out that addr_in[of t] by (metis UnI1 UnI2 singletonI)
  moreover have "focus h' fs l"
    by (rule focus_replace[OF foc, where N = "{fst b}"]) (use new sizes set assms(2) outside in auto)
  ultimately show ?thesis using new sizes out by (intro exI[of _ m] exI[of _ h'] exI[of _ l] exI[of _ r]) (auto simp: beside_def stored_def)
qed

section \<open>A key and a tree go into one of the halves\<close>

lemma grow_left:
  assumes "beside h fs l s" "in_heap h r" "distinct (frame_addrs fs @ addrs l @ addrs s @ addrs r)" "\<not> pleaf l" "i \<le> length (pkeys l)"
    "length (pkeys l) < kMaxInnerKeys" "length x = 16"
  defines "h1 \<equiv> h(addr l := nb_inner_insert i x (addr r) (h (addr l)))"
  shows "\<exists>l'. beside (h1(addr l := nb_increase_tree_count 1 (h1 (addr l)))) fs l' s \<and>
    erase l' = increase_tree_count 1 (inner_insert i x (erase r) (erase l)) \<and> addr l' = addr l \<and> \<not> pleaf l' \<and>
    mset (addrs l' @ addrs s) = mset (addrs l @ addrs s @ addrs r)"
proof -
  have "beside h fs l r" using assms(1-3) by (auto simp: beside_distinct stored_def)
  from focus_inner_insert[OF this assms(4-7)] obtain l1 where l1: "focus h1 fs l1" "erase l1 = inner_insert i x (erase r) (erase l)"
      "addr l1 = addr l" "\<not> pleaf l1" "mset (addrs l1) = mset (addrs l @ addrs r)"
    unfolding h1_def by blast
  obtain l2 where l2: "focus (h1(addr l := nb_increase_tree_count 1 (h1 (addr l)))) fs l2" "erase l2 = increase_tree_count 1 (erase l1)"
      "addr l2 = addr l" "\<not> pleaf l2" "addrs l2 = addrs l1"
    using focus_count[OF l1(1,4), of 1] unfolding l1(3) by blast
  have "addr l \<notin> set (addrs s)" using assms(3) addr_in[of l] by (auto simp del: addr_in)
  moreover have s: "stored h s" using assms(1) by (simp add: beside_def)
  ultimately have "stored (h1(addr l := nb_increase_tree_count 1 (h1 (addr l)))) s"
    by (intro stored_untouched[OF s]) (auto simp: h1_def)
  moreover have blocks: "mset (addrs l2 @ addrs s) = mset (addrs l @ addrs s @ addrs r)" using l1(5) l2(5) by simp
  then have "mset (frame_addrs fs @ addrs l2 @ addrs s) = mset (frame_addrs fs @ addrs l @ addrs s @ addrs r)" by simp
  then have "distinct (frame_addrs fs @ addrs l2 @ addrs s)" using assms(3) by (metis distinct_mset)
  ultimately show ?thesis using l1 l2 blocks unfolding beside_distinct by (intro exI[of _ l2]) (simp del: fun_upd_apply)
qed

lemma grow_right:
  fixes d e :: u32
  assumes "beside h fs l s" "in_heap h r" "distinct (frame_addrs fs @ addrs l @ addrs s @ addrs r)" "\<not> pleaf l" "\<not> pleaf s"
    "i \<le> length (pkeys s)" "length (pkeys s) < kMaxInnerKeys" "length x = 16"
  defines "h1 \<equiv> h(addr s := nb_inner_insert i x (addr r) (h (addr s)))"
  defines "h2 \<equiv> h1(addr l := nb_increase_tree_count d (h1 (addr l)))"
  shows "\<exists>l' s'. beside (h2(addr s := nb_increase_tree_count e (h2 (addr s)))) fs l' s' \<and> erase l' = increase_tree_count d (erase l) \<and>
    erase s' = increase_tree_count e (inner_insert i x (erase r) (erase s)) \<and> addr l' = addr l \<and> addr s' = addr s \<and> \<not> pleaf l' \<and> \<not> pleaf s' \<and>
    mset (addrs l' @ addrs s') = mset (addrs l @ addrs s @ addrs r)"
proof -
  have l: "focus h fs l" and "beside h [] s r" using assms(1-3) by (auto simp: beside_distinct stored_def focus_root)
  from focus_inner_insert[OF this(2) assms(5-8)] obtain s1 where s1: "focus h1 [] s1" "erase s1 = inner_insert i x (erase r) (erase s)"
      "addr s1 = addr s" "\<not> pleaf s1" "mset (addrs s1) = mset (addrs s @ addrs r)"
    unfolding h1_def by blast
  have far: "addr s \<notin> set (frame_addrs fs) \<union> set (addrs l)" "addr l \<notin> set (addrs s) \<union> set (addrs r)"
    using assms(3) addr_in[of l] addr_in[of s] by (auto simp del: addr_in)
  have "focus h1 fs l" by (rule focus_frame[OF l]) (use far in \<open>auto simp: h1_def\<close>)
  from focus_count[OF this assms(4)] obtain l2 where l2: "focus h2 fs l2" "erase l2 = increase_tree_count d (erase l)" "addr l2 = addr l"
      "\<not> pleaf l2" "addrs l2 = addrs l"
    unfolding h2_def by blast
  have "set (addrs s1) = set (addrs s) \<union> set (addrs r)" using mset_eq_setD[OF s1(5)] by simp
  then have "focus h2 [] s1" using far by (intro focus_frame[OF s1(1)]) (auto simp: h2_def)
  from focus_count[OF this s1(4)] obtain s2 where s2: "focus (h2(addr s := nb_increase_tree_count e (h2 (addr s)))) [] s2"
      "erase s2 = increase_tree_count e (erase s1)" "addr s2 = addr s" "\<not> pleaf s2" "addrs s2 = addrs s1"
    unfolding s1(3) by blast
  have l3: "focus (h2(addr s := nb_increase_tree_count e (h2 (addr s)))) fs l2"
    by (rule focus_frame[OF l2(1)]) (use far l2(5) in auto)
  have blocks: "mset (addrs l2 @ addrs s2) = mset (addrs l @ addrs s @ addrs r)" using s1(5) s2(5) l2(5) by simp
  then have "mset (frame_addrs fs @ addrs l2 @ addrs s2) = mset (frame_addrs fs @ addrs l @ addrs s @ addrs r)" by simp
  then have "distinct (frame_addrs fs @ addrs l2 @ addrs s2)" using assms(3) by (metis distinct_mset)
  then show ?thesis using s1(2) s2 l2 l3 blocks unfolding beside_distinct focus_root
    by (intro exI[of _ l2] exI[of _ s2]) (simp del: fun_upd_apply)
qed

lemma split_insert_in_memory:
  assumes "beside h fs t r" "\<not> pleaf t" "length (pkeys t) = kMaxInnerKeys" "pos \<le> length (pkeys t)" "length median = 16"
    "fst b \<notin> set (frame_addrs fs @ addrs t @ addrs r)" "length (snd b) = 256" "split_node (erase t) = (node', nm, nr)"
  shows "\<exists>h' l s. mt_split_insert (addr t) pos median (addr r) (fst b) (h(fst b := nb_new False (snd b))) = (nm, h') \<and> beside h' fs l s \<and>
    (erase l, erase s) =
      (if pos \<le> num_items node' then (increase_tree_count 1 (inner_insert pos median (erase r) node'), nr)
       else (increase_tree_count (- tree_count (erase r)) node',
             increase_tree_count (tree_count (erase r) + 1) (inner_insert (pos - num_items node' - 1) median (erase r) nr))) \<and>
    addr l = addr t \<and> addr s = fst b \<and> \<not> pleaf l \<and> \<not> pleaf s \<and> length nm = 16 \<and>
    mset (addrs l @ addrs s) = add_mset (fst b) (mset (addrs t @ addrs r))"
proof -
  have foc: "focus h fs t" and r: "stored h r" "distinct (frame_addrs fs @ addrs t @ addrs r)" using assms(1) by (simp_all add: beside_distinct)
  have "fst b \<notin> set (frame_addrs fs) \<union> set (addrs t)" "0 < length (pkeys t)" using assms(3,6) by simp_all
  then obtain h1 l s where new: "nh_split (addr t) (fst b) (h(fst b := nb_new False (snd b))) = (nm, h1)" "node' = erase l" "nr = erase s"
      "beside h1 fs l s" "addr l = addr t" "addr s = fst b" "\<not> pleaf l" "\<not> pleaf s" "mset (addrs l @ addrs s) = add_mset (fst b) (mset (addrs t))"
      "\<forall>c. c \<noteq> addr t \<longrightarrow> c \<noteq> fst b \<longrightarrow> h1 c = h c" "length nm = 16"
    using split_beside[OF foc _ assms(7), of False] assms(2,8) by auto
  note sizes = split_sizes[OF assms(8), unfolded new(2,3) erase_sel assms(3)]
  have ne: "addr t \<noteq> fst b" using assms(6) addr_in[of t] by (auto simp del: addr_in)
  have far: "addr r \<noteq> addr t" "addr r \<noteq> fst b" "addr t \<notin> set (addrs r)" "fst b \<notin> set (addrs r)"
    using r(2) assms(6) addr_in[of r] addr_in[of t] by (auto simp del: addr_in)
  have r0: "in_heap h r" using r(1) by (simp add: stored_def)
  have r1: "in_heap h1 r"
  proof (rule in_heap_frame[OF r0])
    show "h1 a = h a" if "a \<in> set (addrs r)" for a using new(10)[rule_format, of a] that far(3,4) by blast
  qed
  have "mset (frame_addrs fs @ addrs l @ addrs s @ addrs r) = mset (fst b # frame_addrs fs @ addrs t @ addrs r)" using new(9) by simp
  moreover have "distinct (fst b # frame_addrs fs @ addrs t @ addrs r)" using r(2) assms(6) by simp
  ultimately have d: "distinct (frame_addrs fs @ addrs l @ addrs s @ addrs r)" by (metis distinct_mset)
  have num: "nb_num_items (h1 (addr t)) = num_items node'"
    using in_heap_sizes(1)[of h1 l] new(2,4,5) by (simp add: beside_def focus_def)
  have tc: "nb_tree_count (h' (addr r)) = tree_count (erase r)" if "h' (addr r) = h (addr r)" for h'
    using kept_counts[OF r(1), of h'] that by simp
  have same: "h1 (addr r) = h (addr r)" using new(10) far(1,2) by simp
  show ?thesis
  proof (cases "pos \<le> num_items node'")
    case True
    then have "pos \<le> length (pkeys l)" "length (pkeys l) < kMaxInnerKeys" using sizes new(2) by simp_all
    with grow_left[OF new(4) r1 d new(7) _ _ assms(5)] obtain l' where l':
        "beside (h1(addr t := nb_increase_tree_count 1 (nb_inner_insert pos median (addr r) (h1 (addr t))))) fs l' s"
        "erase l' = increase_tree_count 1 (inner_insert pos median (erase r) node')" "addr l' = addr t" "\<not> pleaf l'"
        "mset (addrs l' @ addrs s) = mset (addrs l @ addrs s @ addrs r)"
      unfolding new(2,5) by auto
    then show ?thesis
      using new(1,3,6,8,9,11) True
      by (intro exI[of _ "h1(addr t := nb_increase_tree_count 1 (nb_inner_insert pos median (addr r) (h1 (addr t))))"] exI[of _ l'] exI[of _ s])
        (simp add: mt_split_insert_def num)
  next
    case False
    let ?i = "pos - num_items node' - 1" and ?c = "tree_count (erase r)"
    have fits: "?i \<le> length (pkeys s)" "length (pkeys s) < kMaxInnerKeys" using False sizes new(2,3) assms(3,4) by simp_all
    from grow_right[OF new(4) r1 d new(7,8) fits assms(5), where d = "- ?c" and e = "?c + 1"] ne obtain l' s' where ls:
        "beside (h1(addr t := nb_increase_tree_count (- ?c) (h1 (addr t)),
           fst b := nb_increase_tree_count (?c + 1) (nb_inner_insert ?i median (addr r) (h1 (fst b))))) fs l' s'"
        "erase l' = increase_tree_count (- ?c) node'" "erase s' = increase_tree_count (?c + 1) (inner_insert ?i median (erase r) nr)"
        "addr l' = addr t" "addr s' = fst b" "\<not> pleaf l'" "\<not> pleaf s'" "mset (addrs l' @ addrs s') = mset (addrs l @ addrs s @ addrs r)"
      unfolding new(2,3,5,6) by auto
    then show ?thesis
      using new(1,9,11) False ne far same tc
      by (intro exI[of _ "h1(addr t := nb_increase_tree_count (- ?c) (h1 (addr t)),
           fst b := nb_increase_tree_count (?c + 1) (nb_inner_insert ?i median (addr r) (h1 (fst b))))"] exI[of _ l'] exI[of _ s'])
        (simp add: mt_split_insert_def num)
  qed
qed

section \<open>The loop up to the root\<close>

lemma inner_may_rebalance:
  assumes "beside h fs t r" "\<not> pleaf t" "length (pkeys t) = kMaxInnerKeys" "pos \<le> length (pkeys t)" "no_null fs t" "length median = 16"
  shows "insert_rebalanced (frame_nodes fs) (erase t) pos median (erase r) = Some root \<Longrightarrow>
      \<exists>h'. mt_insert_rebalanced (frame_path fs) (addr t) pos median (addr r) h = (True, h') \<and>
        closed (mt_increase_counts (frame_path fs) 1 h') (top_addr fs (addr t)) (mset (frame_addrs fs @ addrs t @ addrs r)) root"
    and "insert_rebalanced (frame_nodes fs) (erase t) pos median (erase r) = None \<Longrightarrow>
      mt_insert_rebalanced (frame_path fs) (addr t) pos median (addr r) h = (False, h)"
proof -
  show "\<exists>h'. mt_insert_rebalanced (frame_path fs) (addr t) pos median (addr r) h = (True, h') \<and>
      closed (mt_increase_counts (frame_path fs) 1 h') (top_addr fs (addr t)) (mset (frame_addrs fs @ addrs t @ addrs r)) root"
    if res: "insert_rebalanced (frame_nodes fs) (erase t) pos median (erase r) = Some root"
  proof (cases fs)
    case Nil
    then show ?thesis using res by (simp add: insert_rebalanced_def)
  next
    case (Cons f gs)
    then show ?thesis using inner_rebalanced[of h "fst f" "snd f" gs t r pos median root] assms res by (cases f) simp
  qed
  show "mt_insert_rebalanced (frame_path fs) (addr t) pos median (addr r) h = (False, h)"
    if res: "insert_rebalanced (frame_nodes fs) (erase t) pos median (erase r) = None"
  proof (cases fs)
    case Nil
    then show ?thesis by (simp add: mt_insert_rebalanced_def)
  next
    case (Cons f gs)
    obtain p i where f: "f = (p, i)" by (cases f)
    have "focus h ((p, i) # gs) t" "length (pkeys t) = max_items (erase t)"
      using assms(1-3) by (simp_all add: beside_def max_items_def Cons f)
    moreover have "rebalance_child i pos (set_child i (erase t) (erase p)) = None"
      using res by (auto simp: insert_rebalanced_def Cons f Let_def split: option.splits)
    ultimately show ?thesis using no_rebalance_at_parent[of h p i gs t pos] by (simp add: mt_insert_rebalanced_def Cons f)
  qed
qed

text \<open>
  What an insertion does to the tree in memory: the new tree is stored with the root the tree knows, in the old blocks and the first of
  the new ones, which are now live; the members of the tree are adjusted.
\<close>

definition fresh :: "news \<Rightarrow> u64 set \<Rightarrow> bool" where
  "fresh news S \<longleftrightarrow> distinct (map fst news) \<and> set (map fst news) \<inter> (insert 0 S) = {} \<and> (\<forall>b \<in> set news. length (snd b) = 256)"

definition grew :: "mem_tree \<Rightarrow> mem_tree \<Rightarrow> u64 multiset \<Rightarrow> news \<Rightarrow> str node \<times> nat \<times> bool \<Rightarrow> bool" where
  "grew m m' blocks news out \<longleftrightarrow>
     (case out of (root, created, taller) \<Rightarrow>
        closed (mt_heap m') (mt_root m') (mset (map fst (take created news)) + blocks) root \<and> created \<le> length news \<and>
        mt_count m' = mt_count m \<and> mt_height m' = mt_height m + of_bool taller \<and> mt_nodes m' = mt_nodes m + of_nat created \<and>
        mset (mt_live m') = mset (map fst (take created news)) + mset (mt_live m))"

lemma new_root_block:
  assumes "length mem = 256" "length x = 16"
  shows "block False [x] [p, q] c (nb_set_tree_count c (nb_set_child 1 q (nb_set_child 0 p (nb_init_single x (nb_new False mem)))))"
proof -
  let ?n = "nb_init_single x (nb_new False mem)"
  have "length (nb_new False mem) = 256" "\<not> nb_is_leaf (nb_new False mem)"
    using assms by (simp_all add: nb_new_def after_set_leaf after_set_num)
  then have n: "length ?n = 256" "nb_num_items ?n = 1" "\<not> nb_is_leaf ?n" "nb_key 0 ?n = x"
    using assms(2) by (simp_all add: nb_init_single_def after_set_num after_set_key)
  have "nb_child i (nb_set_child 1 q (nb_set_child 0 p ?n)) = [p, q] ! i" if "i < 2" for i
    using n that by (cases i) (simp_all add: after_set_child)
  then show ?thesis using n by (simp add: block_def after_set_child after_set_count)
qed

lemma new_root:
  assumes "beside (mt_heap m) [] t r" "fresh (b # news) (set (addrs t @ addrs r))" "length x = 16" "mt_root m = addr t"
  shows "grew m (mt_insert_up [] x (addr r) (b # news) m) (mset (addrs t @ addrs r)) (b # news) (insert_up [] (erase t) x (erase r))"
proof -
  let ?c = "tree_count (erase t) + tree_count (erase r) + 1" and ?h = "mt_heap m"
  let ?T = "PNode (fst b) False [x] [t, r] ?c"
  let ?mem = "nb_set_tree_count ?c (nb_set_child 1 (addr r) (nb_set_child 0 (addr t) (nb_init_single x (nb_new False (snd b)))))"
  have t: "stored ?h t" and r: "stored ?h r" and d: "distinct (addrs t @ addrs r)" using assms(1) by (simp_all add: beside_distinct focus_root)
  have b: "fst b \<notin> set (addrs t) \<union> set (addrs r)" "length (snd b) = 256" using assms(2) by (auto simp: fresh_def)
  then have ne: "addr t \<noteq> fst b" "addr r \<noteq> fst b" using addr_in[of t] addr_in[of r] by (auto simp del: addr_in)
  have "in_heap (?h(fst b := ?mem)) t" "in_heap (?h(fst b := ?mem)) r" using t r b(1) by (auto intro: in_heap_write simp: stored_def)
  then have "stored (?h(fst b := ?mem)) ?T" using new_root_block[OF b(2) assms(3)] d b(1) by (simp add: stored_def)
  moreover have "mt_heap (mt_insert_up [] x (addr r) (b # news) m) = ?h(fst b := ?mem)"
    using kept_counts[OF t, of ?h] kept_counts[OF r, of ?h] ne assms(4) by (simp add: mt_insert_up.simps mt_create_def Let_def)
  moreover have "mset (addrs ?T) = mset (map fst (take 1 (b # news))) + mset (addrs t @ addrs r)" by simp
  ultimately have "closed (mt_heap (mt_insert_up [] x (addr r) (b # news) m)) (fst b) (mset (map fst (take 1 (b # news))) + mset (addrs t @ addrs r))
      (Inner [x] [erase t, erase r] ?c)"
    unfolding closed_def by (intro exI[of _ ?T]) simp
  then show ?thesis by (simp add: grew_def mt_insert_up.simps mt_create_def Let_def)
qed

lemma beside_parent:
  assumes "beside h ((p, i) # fs) t r"
  shows "beside h fs (put i t p) r"
    and "mset (frame_addrs fs @ addrs (put i t p) @ addrs r) = mset (frame_addrs ((p, i) # fs) @ addrs t @ addrs r)"
proof -
  have foc: "focus h ((p, i) # fs) t" using assms by (simp only: beside_def)
  show m: "mset (frame_addrs fs @ addrs (put i t p) @ addrs r) = mset (frame_addrs ((p, i) # fs) @ addrs t @ addrs r)"
    using addrs_put[OF parent_tree(7)[OF foc], of t] by simp
  have "distinct (frame_addrs ((p, i) # fs) @ addrs t @ addrs r)" "stored h r" using assms unfolding beside_distinct by blast+
  moreover have "focus h fs (put i t p)" by (rule focus_up[OF foc])
  ultimately show "beside h fs (put i t p) r" unfolding beside_distinct using m by (metis distinct_mset)
qed

lemma fresh_mset: "fresh news (set xs) \<Longrightarrow> mset xs = mset ys \<Longrightarrow> fresh news (set ys)"
  by (metis mset_eq_setD)

lemma fresh_tail:
  assumes "fresh (b # news) (set xs)" "mset ys = add_mset (fst b) (mset xs)"
  shows "fresh news (set ys)"
proof -
  have "set ys = insert (fst b) (set xs)" using arg_cong[OF assms(2), of set_mset] by simp
  then show ?thesis using assms(1) by (simp add: fresh_def)
qed

lemma grew_closed:
  assumes "closed h (mt_root m) blocks root" "m' = m\<lparr>mt_heap := h\<rparr>"
  shows "grew m m' blocks news (root, 0, False)"
  using assms by (simp add: grew_def)

lemma insert_with_room:
  assumes "beside (mt_heap m) fs n r" "\<not> pleaf n" "i \<le> length (pkeys n)" "length (pkeys n) < kMaxInnerKeys" "length x = 16"
    "mt_root m = top_addr fs (addr n)"
  defines "h \<equiv> (mt_heap m)(addr n := nb_inner_insert i x (addr r) (mt_heap m (addr n)))"
  shows "grew m (m\<lparr>mt_heap := mt_increase_counts (frame_path fs) 1 (h(addr n := nb_increase_tree_count 1 (h (addr n))))\<rparr>)
    (mset (frame_addrs fs @ addrs n @ addrs r)) news
    (rebuild 1 (frame_nodes fs) (increase_tree_count 1 (inner_insert i x (erase r) (erase n))), 0, False)"
proof -
  obtain n1 where n1: "focus h fs n1" "erase n1 = inner_insert i x (erase r) (erase n)" "addr n1 = addr n" "\<not> pleaf n1"
      "mset (addrs n1) = mset (addrs n @ addrs r)"
    using focus_inner_insert[OF assms(1-5)] unfolding h_def by blast
  obtain n2 where n2: "focus (h(addr n := nb_increase_tree_count 1 (h (addr n)))) fs n2" "erase n2 = increase_tree_count 1 (erase n1)"
      "addr n2 = addr n" "addrs n2 = addrs n1"
    using focus_count[OF n1(1,4), of 1] unfolding n1(3) by blast
  have "mset (frame_addrs fs @ addrs n2) = mset (frame_addrs fs @ addrs n @ addrs r)" using n1(5) n2(4) by simp
  from closedI[OF n2(1) _ this, of "mt_root m" 1] show ?thesis
    using n1(2) n2(2,3) assms(6) by (intro grew_closed) simp_all
qed

lemma grew_split:
  assumes "grew (mt_create leaf b m\<lparr>mt_heap := h\<rparr>) m' (mset ys) news (root, created, taller)" "mset ys = add_mset (fst b) (mset xs)"
  shows "grew m m' (mset xs) (b # news) (root, created + 1, taller)"
  using assms by (simp add: grew_def mt_create_def)

theorem grow_in_memory:
  assumes "beside (mt_heap m) fs t r" "0 \<notin> set (frame_addrs fs @ addrs t @ addrs r)"
    "fresh news (set (frame_addrs fs @ addrs t @ addrs r))" "length fs < length news" "length x = 16" "mt_root m = top_addr fs (addr t)"
  shows "grew m (mt_insert_up (frame_path fs) x (addr r) news m) (mset (frame_addrs fs @ addrs t @ addrs r)) news
    (insert_up (frame_nodes fs) (erase t) x (erase r))"
  using assms
proof (induction fs arbitrary: m t r news x)
  case Nil
  then show ?case using new_root[of m t r "hd news" "tl news" x] by (cases news) simp_all
next
  case (Cons f fs)
  obtain p i where f: "f = (p, i)" by (cases f)
  obtain b news' where news: "news = b # news'" using Cons.prems(4) by (cases news) simp_all
  let ?h = "mt_heap m" and ?n = "put i t p"
  note foc = Cons.prems(1)[unfolded f beside_def, THEN conjunct1]
  note parent = parent_tree[OF foc] and up = beside_parent[OF Cons.prems(1)[unfolded f]]
  have i: "i \<le> length (pkeys ?n)" and leaf: "\<not> pleaf ?n" and e: "set_child i (erase t) (erase p) = erase ?n"
    using parent(5,8,9) by (simp_all add: erase_put)
  have null: "0 \<notin> set (frame_addrs fs @ addrs ?n @ addrs r)" and fresh: "fresh news (set (frame_addrs fs @ addrs ?n @ addrs r))"
    using Cons.prems(2,3) mset_eq_setD[OF up(2)] unfolding f by simp_all
  have top: "mt_root m = top_addr fs (addr ?n)" using Cons.prems(6) by (simp add: f)
  have num: "nb_num_items (?h (addr p)) = length (pkeys ?n)"
    using in_heap_sizes(1)[of ?h ?n] parent(1) by (simp add: stored_def)
  have full: "length (pkeys ?n) \<le> kMaxInnerKeys"
    using block_nth(1)[OF in_heap_root[of ?h ?n]] parent(1) leaf by (simp add: stored_def key_slots_def)
  consider (room) "length (pkeys ?n) < kMaxInnerKeys"
    | (moved) root where "length (pkeys ?n) = kMaxInnerKeys" "insert_rebalanced (frame_nodes fs) (erase ?n) i x (erase r) = Some root"
    | (split) "length (pkeys ?n) = kMaxInnerKeys" "insert_rebalanced (frame_nodes fs) (erase ?n) i x (erase r) = None"
    using full by (metis le_neq_implies_less not_None_eq)
  then show ?case
  proof cases
    case room
    then show ?thesis
      using insert_with_room[OF up(1) leaf i room Cons.prems(5) top, of news] up(2) num e
      by (simp add: f mt_insert_up.simps Let_def del: mset_append)
  next
    case moved
    have "no_null fs ?n" using null by (simp add: no_null_def)
    from inner_may_rebalance(1)[OF up(1) leaf moved(1) i this Cons.prems(5) moved(2)] obtain h' where
        "mt_insert_rebalanced (frame_path fs) (addr ?n) i x (addr r) ?h = (True, h')"
        "closed (mt_increase_counts (frame_path fs) 1 h') (top_addr fs (addr ?n)) (mset (frame_addrs fs @ addrs ?n @ addrs r)) root" by blast
    then show ?thesis
      using grew_closed[of _ m _ root _ news] moved num e up(2) top by (simp add: f mt_insert_up.simps Let_def del: mset_append)
  next
    case split
    let ?xs = "frame_addrs fs @ addrs ?n @ addrs r"
    obtain node' nm nr where sp: "split_node (erase ?n) = (node', nm, nr)" by (cases "split_node (erase ?n)")
    have b: "fst b \<notin> set ?xs" "length (snd b) = 256" using fresh by (auto simp: fresh_def news)
    have no: "mt_insert_rebalanced (frame_path fs) (addr ?n) i x (addr r) ?h = (False, ?h)"
      using inner_may_rebalance(2)[OF up(1) leaf split(1) i _ Cons.prems(5) split(2)] null by (simp add: no_null_def)
    obtain h' l s where new: "mt_split_insert (addr ?n) i x (addr r) (fst b) (?h(fst b := nb_new False (snd b))) = (nm, h')" "beside h' fs l s"
        "(erase l, erase s) =
          (if i \<le> num_items node' then (increase_tree_count 1 (inner_insert i x (erase r) node'), nr)
           else (increase_tree_count (- tree_count (erase r)) node',
                 increase_tree_count (tree_count (erase r) + 1) (inner_insert (i - num_items node' - 1) x (erase r) nr)))"
        "addr l = addr ?n" "addr s = fst b" "length nm = 16" "mset (addrs l @ addrs s) = add_mset (fst b) (mset (addrs ?n @ addrs r))"
      using split_insert_in_memory[OF up(1) leaf split(1) i Cons.prems(5) b sp] by blast
    have ys: "mset (frame_addrs fs @ addrs l @ addrs s) = add_mset (fst b) (mset ?xs)" using new(7) by simp
    have "0 \<noteq> fst b" using fresh by (auto simp: fresh_def news)
    then have null': "0 \<notin> set (frame_addrs fs @ addrs l @ addrs s)" using null arg_cong[OF ys, of set_mset] by simp
    obtain root created taller where out: "insert_up (frame_nodes fs) (erase l) nm (erase s) = (root, created, taller)"
      by (cases "insert_up (frame_nodes fs) (erase l) nm (erase s)")
    have "grew (mt_create False b m\<lparr>mt_heap := h'\<rparr>)
        (mt_insert_up (frame_path fs) nm (addr s) news' (mt_create False b m\<lparr>mt_heap := h'\<rparr>))
        (mset (frame_addrs fs @ addrs l @ addrs s)) news' (root, created, taller)"
      unfolding out[symmetric]
      by (rule Cons.IH) (use new(2,4,6) null' fresh_tail[OF fresh[unfolded news] ys] Cons.prems(4) top in \<open>simp_all add: news mt_create_def\<close>)
    from grew_split[OF this ys] have all: "grew m (mt_insert_up (frame_path fs) nm (addr s) news' (mt_create False b m\<lparr>mt_heap := h'\<rparr>))
        (mset ?xs) news (root, created + 1, taller)" by (simp add: news)
    have "insert_up (frame_nodes (f # fs)) (erase t) x (erase r) = (root, created + 1, taller)"
      using split new(3) out sp e by (auto simp: f Let_def split: if_splits)
    moreover have "mt_insert_up (frame_path (f # fs)) x (addr r) news m =
        mt_insert_up (frame_path fs) nm (addr s) news' (mt_create False b m\<lparr>mt_heap := h'\<rparr>)"
      using no new(1,5) num split(1) by (simp add: f news mt_insert_up.simps(2) mt_create_def Let_def)
    ultimately show ?thesis using all up(2) unfolding f by (simp only:)
  qed
qed

section \<open>Into a full leaf\<close>

lemma leaf_may_rebalance:
  assumes "focus h fs t" "pleaf t" "length (pkeys t) = kMaxLeafKeys" "pos \<le> length (pkeys t)" "no_null fs t" "linked fs t" "length item = 16"
    "rebalance_leaf_and_insert (frame_nodes fs) item pos = Some root"
  shows "\<exists>h'. mt_rebalance_leaf_and_insert (frame_path fs) item pos h = (True, h') \<and>
    closed (mt_increase_counts (frame_path fs) 1 h') (top_addr fs (addr t)) (mset (frame_addrs fs @ addrs t)) root"
proof (cases fs)
  case Nil
  then show ?thesis using assms(8) by (simp add: rebalance_leaf_and_insert_def)
next
  case (Cons f gs)
  then show ?thesis
    using leaf_rebalanced[of h "fst f" "snd f" gs t pos item root] assms by (cases f) (simp add: linked_def)
qed

text \<open>The item goes into one of the halves of a split leaf.\<close>

lemma split_leaf_in_memory:
  assumes "focus h fs t" "pleaf t" "length (pkeys t) = kMaxLeafKeys" "pos \<le> length (pkeys t)" "length x = 16"
    "fst b \<notin> set (frame_addrs fs @ addrs t)" "length (snd b) = 256" "split_node (erase t) = (node', m, right')"
  shows "\<exists>h1 h' l r. nh_split (addr t) (fst b) (h(fst b := nb_new True (snd b))) = (m, h1) \<and>
    (if pos \<le> nb_num_items (h1 (addr t)) then h1(addr t := nb_leaf_insert pos x (h1 (addr t)))
     else h1(fst b := nb_leaf_insert (pos - nb_num_items (h1 (addr t)) - 1) x (h1 (fst b)))) = h' \<and> beside h' fs l r \<and>
    (erase l, erase r) = (if pos \<le> num_items node' then (leaf_insert pos x node', right')
                          else (node', leaf_insert (pos - num_items node' - 1) x right')) \<and>
    addr l = addr t \<and> addr r = fst b \<and> length m = 16 \<and> mset (addrs l @ addrs r) = add_mset (fst b) (mset (addrs t))"
proof -
  have "fst b \<notin> set (frame_addrs fs) \<union> set (addrs t)" "0 < length (pkeys t)" using assms(3,6) by simp_all
  then obtain h1 l r where new: "nh_split (addr t) (fst b) (h(fst b := nb_new True (snd b))) = (m, h1)" "node' = erase l" "right' = erase r"
      "beside h1 fs l r" "addr l = addr t" "addr r = fst b" "pleaf l" "pleaf r" "mset (addrs l @ addrs r) = add_mset (fst b) (mset (addrs t))"
      "length m = 16"
    using split_beside[OF assms(1) _ assms(7), of True] assms(2,8) by auto
  note sizes = split_sizes[OF assms(8), unfolded new(2,3) erase_sel assms(3)]
  have num: "nb_num_items (h1 (addr t)) = num_items node'"
    using in_heap_sizes(1)[of h1 l] new(2,4,5) by (simp add: beside_def focus_def)
  have d: "distinct (frame_addrs fs @ addrs l @ addrs r)" and l: "focus h1 fs l" and r: "focus h1 [] r"
    using new(4) by (simp_all add: beside_distinct focus_root)
  have far: "addr l \<notin> set (addrs r)" "addr r \<notin> set (frame_addrs fs) \<union> set (addrs l)"
    using d addr_in[of l] addr_in[of r] by (auto simp del: addr_in)
  show ?thesis
  proof (cases "pos \<le> num_items node'")
    case True
    then have "pos \<le> length (pkeys l)" "length (pkeys l) < kMaxLeafKeys" using sizes new(2) by simp_all
    from focus_leaf_insert[OF l new(7) this assms(5)] obtain l' where l': "focus (h1(addr l := nb_leaf_insert pos x (h1 (addr l)))) fs l'"
        "erase l' = leaf_insert pos x (erase l)" "addrs l' = addrs l" "addr l' = addr l" by blast
    moreover have "focus (h1(addr l := nb_leaf_insert pos x (h1 (addr l)))) [] r" by (rule focus_frame[OF r]) (use far in auto)
    ultimately have "beside (h1(addr l := nb_leaf_insert pos x (h1 (addr l)))) fs l' r" using d by (simp only: beside_distinct focus_root)
    then show ?thesis using new True num l'
      by (intro exI[of _ h1] exI[of _ "h1(addr t := nb_leaf_insert pos x (h1 (addr t)))"] exI[of _ l'] exI[of _ r]) simp
  next
    case False
    let ?i = "pos - num_items node' - 1"
    have "?i \<le> length (pkeys r)" "length (pkeys r) < kMaxLeafKeys" using False sizes new(2) assms(3,4) by simp_all
    from focus_leaf_insert[OF r new(8) this assms(5)] obtain r' where r': "focus (h1(addr r := nb_leaf_insert ?i x (h1 (addr r)))) [] r'"
        "erase r' = leaf_insert ?i x (erase r)" "addrs r' = addrs r" "addr r' = addr r" by blast
    moreover have "focus (h1(addr r := nb_leaf_insert ?i x (h1 (addr r)))) fs l" by (rule focus_frame[OF l]) (use far in auto)
    ultimately have "beside (h1(addr r := nb_leaf_insert ?i x (h1 (addr r)))) fs l r'" using d by (simp only: beside_distinct focus_root)
    then show ?thesis using new False num r'
      by (intro exI[of _ h1] exI[of _ "h1(fst b := nb_leaf_insert ?i x (h1 (fst b)))"] exI[of _ l] exI[of _ r']) simp
  qed
qed

theorem full_leaf_in_memory:
  assumes "focus (mt_heap m) fs t" "pleaf t" "length (pkeys t) = kMaxLeafKeys" "pos \<le> length (pkeys t)" "linked fs t" "length x = 16"
    "0 \<notin> set (frame_addrs fs @ addrs t)" "fresh news (set (frame_addrs fs @ addrs t))" "Suc (length fs) < length news"
    "mt_root m = top_addr fs (addr t)"
  shows "grew m (mt_insert_to_full_leaf x (addr t) pos (frame_path fs) news m) (mset (frame_addrs fs @ addrs t)) news
    (insert_to_full_leaf x (erase t) pos (frame_nodes fs))"
proof (cases "rebalance_leaf_and_insert (frame_nodes fs) x pos")
  case (Some root)
  have "no_null fs t" using assms(7) by (simp add: no_null_def)
  from leaf_may_rebalance[OF assms(1-4) this assms(5,6) Some] obtain h' where
      "mt_rebalance_leaf_and_insert (frame_path fs) x pos (mt_heap m) = (True, h')"
      "closed (mt_increase_counts (frame_path fs) 1 h') (mt_root m) (mset (frame_addrs fs @ addrs t)) root"
    unfolding assms(10) by blast
  then show ?thesis using Some grew_closed by (simp add: insert_to_full_leaf_def mt_insert_to_full_leaf_def)
next
  case None
  let ?h = "mt_heap m" and ?xs = "frame_addrs fs @ addrs t"
  have no: "mt_rebalance_leaf_and_insert (frame_path fs) x pos ?h = (False, ?h)" by (rule leaf_not_rebalanced[OF assms(1-3,5) None])
  obtain b news' where news: "news = b # news'" using assms(9) by (cases news) simp_all
  have b: "fst b \<notin> set ?xs" "length (snd b) = 256" "0 \<noteq> fst b" using assms(8) by (auto simp: fresh_def news)
  obtain node' med right' where sp: "split_node (erase t) = (node', med, right')" by (cases "split_node (erase t)")
  obtain h1 h' l r where new: "nh_split (addr t) (fst b) (?h(fst b := nb_new True (snd b))) = (med, h1)"
      "(if pos \<le> nb_num_items (h1 (addr t)) then h1(addr t := nb_leaf_insert pos x (h1 (addr t)))
        else h1(fst b := nb_leaf_insert (pos - nb_num_items (h1 (addr t)) - 1) x (h1 (fst b)))) = h'"
      "beside h' fs l r" "(erase l, erase r) = (if pos \<le> num_items node' then (leaf_insert pos x node', right')
        else (node', leaf_insert (pos - num_items node' - 1) x right'))"
      "addr l = addr t" "addr r = fst b" "length med = 16" "mset (addrs l @ addrs r) = add_mset (fst b) (mset (addrs t))"
    using split_leaf_in_memory[OF assms(1-4,6) b(1,2) sp] by blast
  have ys: "mset (frame_addrs fs @ addrs l @ addrs r) = add_mset (fst b) (mset ?xs)" using new(8) by simp
  have null: "0 \<notin> set (frame_addrs fs @ addrs l @ addrs r)" using b(3) assms(7) arg_cong[OF ys, of set_mset] by simp
  obtain root created taller where out: "insert_up (frame_nodes fs) (erase l) med (erase r) = (root, created, taller)"
    by (cases "insert_up (frame_nodes fs) (erase l) med (erase r)")
  let ?m = "mt_create True b m\<lparr>mt_heap := h'\<rparr>"
  have "grew ?m (mt_insert_up (frame_path fs) med (addr r) news' ?m) (mset (frame_addrs fs @ addrs l @ addrs r)) news' (root, created, taller)"
    unfolding out[symmetric]
    by (rule grow_in_memory) (use new(3,5,7) null fresh_tail[OF assms(8)[unfolded news] ys] assms(9,10) in \<open>simp_all add: news mt_create_def\<close>)
  from grew_split[OF this ys] have "grew m (mt_insert_up (frame_path fs) med (addr r) news' ?m) (mset ?xs) news (root, created + 1, taller)"
    by (simp add: news)
  moreover have "insert_to_full_leaf x (erase t) pos (frame_nodes fs) = (root, created + 1, taller)"
    using None sp new(4) out by (auto simp: insert_to_full_leaf_def Let_def split: if_splits)
  moreover have "mt_insert_to_full_leaf x (addr t) pos (frame_path fs) news m = mt_insert_up (frame_path fs) med (addr r) news' ?m"
    using no new(1,2,6) by (simp add: mt_insert_to_full_leaf_def news mt_create_def Let_def split del: if_split)
  ultimately show ?thesis by (simp only:)
qed

end
