(* ===== verification/Tree_Shrink.thy ===== *)
theory Tree_Shrink
  imports Tree_Insert
begin

text \<open>
  \<^verbatim>\<open>Delete\<close> on the heap: the loop over the frames of the node that lost an item, which refills nodes, retires the merged ones and
  takes the root away when it is empty, and the removal of a key at the end of a path.
\<close>

section \<open>State\<close>

text \<open>The tree the members know: nothing, or a stored tree in exactly the live blocks.\<close>

definition rooted :: "mem_tree \<Rightarrow> str node option \<Rightarrow> bool" where
  "rooted m root \<longleftrightarrow>
     (case root of None \<Rightarrow> mt_root m = 0 \<and> mt_live m = [] | Some n \<Rightarrow> closed (mt_heap m) (mt_root m) (mset (mt_live m)) n)"

definition shrank :: "mem_tree \<Rightarrow> mem_tree \<Rightarrow> str node option \<times> bool \<times> nat \<Rightarrow> bool" where
  "shrank m m' out \<longleftrightarrow>
     (case out of (root, shorter, destroyed) \<Rightarrow>
        rooted m' root \<and> mt_count m' = mt_count m \<and> mt_height m' = mt_height m - of_bool shorter \<and>
        mt_nodes m' = mt_nodes m - of_nat destroyed \<and> set (mt_live m') \<subseteq> set (mt_live m) \<and>
        length (mt_live m) = length (mt_live m') + destroyed)"

lemma leaf_kept:
  "is_leaf (set_child i x n) = is_leaf n" "is_leaf (set_key i k n) = is_leaf n" "is_leaf (shift_left i s n) = is_leaf n"
  "is_leaf (increase_tree_count d n) = is_leaf n" "is_leaf (leaf_erase_right n) = is_leaf n"
  by (cases n; simp add: set_child_def set_key_def shift_left_def increase_tree_count_def leaf_erase_right_def Let_def)+

lemma merge_leaf_kept: "is_leaf (fst (merge_or_rebalance_child i n)) = is_leaf n"
  by (simp add: merge_or_rebalance_child_def rebalance_child_to_left_def rebalance_child_to_right_def Let_def leaf_kept split: prod.split)

section \<open>The loop up to the root\<close>

lemma min_in_heap: "in_heap h t \<Longrightarrow> nb_min_items (h (addr t)) = min_items (erase t)"
  by (simp add: nb_min_items_def min_items_def in_heap_sizes(2))

text \<open>An empty root goes: its only child, if it has one, is the new root.\<close>

lemma root_removed:
  assumes "stored h t" "pkeys t = []"
  shows "if pleaf t then addrs t = [addr t]
    else \<exists>c. nb_child 0 (h (addr t)) = addr c \<and> child (erase t) 0 = erase c \<and> stored h c \<and> addrs t = addr t # addrs c"
proof (cases "pleaf t")
  case True
  then show ?thesis using leaf_block(3)[OF assms(1)] by (simp add: addrs_parts[of t])
next
  case False
  then have leaf: "\<not> is_leaf (erase t)" by simp
  note r = inner_reads[OF assms(1) leaf]
  obtain c where c: "pchildren t = [c]" using r(4) assms(2) by (auto simp: length_Suc_conv)
  have "stored h c" using assms(1) r(7)[of 0] by (simp add: stored_def addrs_parts[of t] c)
  then show ?thesis using False r(5,6)[of 0] c by (auto simp: addrs_parts[of t])
qed

lemma length_Cons_remove1: "x \<in> set xs \<Longrightarrow> length xs = Suc (length (remove1 x xs))"
  by (induction xs) auto

lemma shrink_root:
  assumes "stored (mt_heap m) t" "mset (mt_live m) = mset (addrs t)" "mt_root m = addr t"
  shows "shrank m (mt_delete_up (addr t) [] m) (delete_up (erase t) [])"
proof -
  have t: "in_heap (mt_heap m) t" using assms(1) by (simp add: stored_def)
  note sizes = in_heap_sizes(1,2)[OF t] min_in_heap[OF t]
  show ?thesis
  proof (cases "pkeys t = []")
    case False
    moreover have "rooted m (Some (erase t))" using assms by (auto simp: rooted_def closed_def)
    ultimately show ?thesis using sizes assms(3) by (simp add: mt_delete_up.simps[of _ "[]"] shrank_def Let_def)
  next
    case True
    then have few: "num_items (erase t) < min_items (erase t)" by (simp add: min_items_def)
    show ?thesis
    proof (cases "pleaf t")
      case leaf: True
      then have "mt_live m = [addr t]" using root_removed[OF assms(1) True] assms(2) by simp
      then show ?thesis
        using sizes assms(3) few True leaf by (simp add: mt_delete_up.simps[of _ "[]"] mt_destroy_def shrank_def rooted_def Let_def)
    next
      case False
      then obtain c where c: "nb_child 0 (mt_heap m (addr t)) = addr c" "child (erase t) 0 = erase c" "stored (mt_heap m) c" "addrs t = addr t # addrs c"
        using root_removed[OF assms(1) True] by auto
      have "addr t \<in> set (mt_live m)" using mset_eq_setD[OF assms(2)] by simp
      from length_Cons_remove1[OF this] have "length (mt_live m) = Suc (length (remove1 (addr t) (mt_live m)))" .
      moreover have "mset (remove1 (addr t) (mt_live m)) = mset (addrs c)" using assms(2) c(4) by simp
      ultimately show ?thesis
        using sizes assms(3) few True False c set_remove1_subset[of "addr t" "mt_live m"]
        by (auto simp: mt_delete_up.simps[of _ "[]"] mt_destroy_def shrank_def rooted_def closed_def Let_def)
    qed
  qed
qed

text \<open>The parent after its small child was refilled or merged, with one item less in its count.\<close>

lemma parent_merged:
  assumes "focus h ((p, i) # fs) t" "length (pkeys t) < min_items (erase t)" "0 \<notin> set (frame_addrs ((p, i) # fs) @ addrs t)"
    "merge_or_rebalance_child i (set_child i (erase t) (erase p)) = (parent, retired)"
  shows "\<exists>h1 ret n. nh_merge_or_rebalance_child (addr p) i h = (h1, ret) \<and>
    focus (h1(addr p := nb_increase_tree_count (- 1) (h1 (addr p)))) fs n \<and> erase n = increase_tree_count (- 1) parent \<and> addr n = addr p \<and>
    (retired \<longleftrightarrow> ret \<noteq> 0) \<and>
    mset (frame_addrs ((p, i) # fs) @ addrs t) = (if retired then {#ret#} else {#}) + mset (frame_addrs fs @ addrs n)"
proof -
  let ?n = "put i t p"
  note parent = parent_tree[OF assms(1)]
  have foc: "focus h fs ?n" by (rule focus_up[OF assms(1)])
  have few: "num_items (child (erase ?n) i) < min_items (child (erase ?n) i)" using assms(2) parent(6) by simp
  obtain h1 ret where mem: "nh_merge_or_rebalance_child (addr p) i h = (h1, ret)" by (cases "nh_merge_or_rebalance_child (addr p) i h")
  have "child_merged h ?n (parent, retired) (h1, ret)"
    using merge_child[OF parent(1-5) few] assms(4) mem by (simp add: erase_put)
  then obtain t' where t': "stored h1 t'" "erase t' = parent" "addr t' = addr p"
      "if retired then mset (addrs ?n) = add_mset ret (mset (addrs t')) else mset (addrs t') = mset (addrs ?n) \<and> ret = 0"
      "\<And>b. b \<notin> set (addrs ?n) \<Longrightarrow> h1 b = h b"
    unfolding child_merged_def fst_conv snd_conv put_sel by blast
  have inner: "\<not> pleaf t'" using merge_leaf_kept[of i "erase ?n"] assms(4) parent(2) t'(2) by (metis erase_put erase_sel(1) fst_conv)
  have sub: "set (addrs t') \<subseteq> set (addrs ?n)"
  proof (cases retired)
    case True
    then have "mset (addrs ?n) = add_mset ret (mset (addrs t'))" using t'(4) by simp
    from arg_cong[OF this, of set_mset] show ?thesis by auto
  next
    case False
    then show ?thesis using t'(4) mset_eq_setD[of "addrs t'" "addrs ?n"] by simp
  qed
  have "focus h1 fs t'"
    by (rule focus_replace[OF foc, where N = "{}"]) (use t' sub inner parent(8) in \<open>auto simp: stored_def\<close>)
  from focus_count[OF this inner] obtain n where n: "focus (h1(addr p := nb_increase_tree_count (- 1) (h1 (addr p)))) fs n"
      "erase n = increase_tree_count (- 1) parent" "addr n = addr p" "addrs n = addrs t'"
    unfolding t'(2,3) by blast
  have blocks: "mset (frame_addrs ((p, i) # fs) @ addrs t) = (if retired then {#ret#} else {#}) + mset (frame_addrs fs @ addrs n)"
    using t'(4) n(4) addrs_put[OF parent(7), of t] by (cases retired) simp_all
  have nonzero: "ret \<noteq> 0" if retired using arg_cong[OF blocks, of set_mset] assms(3) that by auto
  have "retired \<longleftrightarrow> ret \<noteq> 0" using nonzero t'(4) by (cases retired) simp_all
  then show ?thesis using mem n(1-3) blocks by blast
qed

lemma top_in: "top_addr fs a \<in> insert a (set (frame_addrs fs))"
  by (induction fs a rule: top_addr.induct) auto

text \<open>The loop of \<^verbatim>\<open>Delete\<close>: the members then know the tree that the loop on nodes builds, in exactly the live blocks.\<close>

theorem shrink_in_memory:
  assumes "focus (mt_heap m) fs t" "0 \<notin> set (frame_addrs fs @ addrs t)" "mset (mt_live m) = mset (frame_addrs fs @ addrs t)"
    "mt_root m = top_addr fs (addr t)"
  shows "shrank m (mt_delete_up (addr t) (frame_path fs) m) (delete_up (erase t) (frame_nodes fs))"
  using assms
proof (induction fs arbitrary: m t)
  case Nil
  then show ?case using shrink_root[of m t] by (simp add: focus_root)
next
  case (Cons f fs)
  obtain p i where f: "f = (p, i)" by (cases f)
  let ?h = "mt_heap m"
  note foc = Cons.prems(1)[unfolded f]
  have t: "in_heap ?h t" using foc by (simp add: focus_def)
  note sizes = in_heap_sizes(1,2)[OF t] min_in_heap[OF t]
  show ?case
  proof (cases "num_items (erase t) < min_items (erase t)")
    case False
    have "closed (mt_increase_counts (frame_path ((p, i) # fs)) (- 1) ?h) (mt_root m) (mset (mt_live m))
        (rebuild (- 1) (frame_nodes ((p, i) # fs)) (erase t))"
      by (rule closedI[OF foc]) (use Cons.prems(3,4) f in simp_all)
    then show ?thesis using False sizes by (simp add: f mt_delete_up.simps[of _ "_ # _"] shrank_def rooted_def Let_def)
  next
    case True
    then have few: "length (pkeys t) < min_items (erase t)" by simp
    obtain parent retired where mr: "merge_or_rebalance_child i (set_child i (erase t) (erase p)) = (parent, retired)"
      by (cases "merge_or_rebalance_child i (set_child i (erase t) (erase p))")
    obtain h1 ret n where new: "nh_merge_or_rebalance_child (addr p) i ?h = (h1, ret)"
        "focus (h1(addr p := nb_increase_tree_count (- 1) (h1 (addr p)))) fs n" "erase n = increase_tree_count (- 1) parent" "addr n = addr p"
        "retired \<longleftrightarrow> ret \<noteq> 0"
        "mset (frame_addrs ((p, i) # fs) @ addrs t) = (if retired then {#ret#} else {#}) + mset (frame_addrs fs @ addrs n)"
      using parent_merged[OF foc few Cons.prems(2)[unfolded f] mr] by blast
    let ?h2 = "h1(addr p := nb_increase_tree_count (- 1) (h1 (addr p)))"
    have live: "mset (mt_live m) = (if retired then {#ret#} else {#}) + mset (frame_addrs fs @ addrs n)"
      using new(6) Cons.prems(3) unfolding f by (rule trans[rotated])
    have top: "mt_root m = top_addr fs (addr n)" using Cons.prems(4) new(4) by (simp add: f)
    have "mt_root m \<in> set (frame_addrs ((p, i) # fs))" using top_in[of fs "addr p"] top new(4) by auto
    then have ne: "addr t \<noteq> mt_root m" using foc addr_in[of t] by (auto simp: focus_def simp del: addr_in)
    show ?thesis
    proof (cases retired)
      case False
      have "closed (mt_increase_counts (frame_path fs) (- 1) ?h2) (mt_root m) (mset (mt_live m)) (rebuild (- 1) (frame_nodes fs) (erase n))"
        by (rule closedI[OF new(2)]) (use live False top in simp_all)
      then show ?thesis using True False sizes ne new(1,3,5) mr
        by (simp add: f mt_delete_up.simps[of _ "_ # _"] shrank_def rooted_def Let_def del: fun_upd_apply)
    next
      case gone: True
      let ?m = "mt_destroy ret (m\<lparr>mt_heap := ?h2\<rparr>)"
      have "shrank ?m (mt_delete_up (addr n) (frame_path fs) ?m) (delete_up (erase n) (frame_nodes fs))"
      proof (rule Cons.IH)
        show "mset (mt_live ?m) = mset (frame_addrs fs @ addrs n)" using live gone by (simp add: mt_destroy_def)
        have "set (frame_addrs fs @ addrs n) \<subseteq> set (frame_addrs ((p, i) # fs) @ addrs t)"
          using gone arg_cong[OF new(6), of set_mset] by (simp del: frame_addrs.simps) blast
        then show "0 \<notin> set (frame_addrs fs @ addrs n)" using Cons.prems(2) unfolding f by blast
      qed (use new(2) top in \<open>simp_all add: mt_destroy_def del: fun_upd_apply\<close>)
      then have rec: "shrank ?m (mt_delete_up (addr p) (frame_path fs) ?m) (delete_up (increase_tree_count (- 1) parent) (frame_nodes fs))"
        using new(3,4) by simp
      have "mt_delete_up (addr t) (frame_path (f # fs)) m = mt_delete_up (addr p) (frame_path fs) ?m"
        using True gone sizes ne new(1,5) by (simp add: f mt_delete_up.simps[of _ "_ # _"] Let_def del: fun_upd_apply)
      moreover have "length (mt_live m) = Suc (length (remove1 ret (mt_live m)))"
        using arg_cong[OF live, of set_mset] gone by (intro length_Cons_remove1) auto
      ultimately show ?thesis
        using rec gone True mr set_remove1_subset[of ret "mt_live m"] by (auto simp: f shrank_def mt_destroy_def Let_def)
    qed
  qed
qed

section \<open>Removing a key\<close>

lemma frames_append:
  "frame_path (gs @ fs) = frame_path gs @ frame_path fs" "frame_nodes (gs @ fs) = frame_nodes gs @ frame_nodes fs"
  by (simp_all add: frame_path_def frame_nodes_def)

text \<open>A separator is overwritten: the children below the node are where they were.\<close>

lemma focus_set_key:
  assumes "focus h fs t" "\<not> pleaf t" "proper_node t" "i < length (pkeys t)" "length x = 16"
  shows "\<exists>t'. focus (h(addr t := nb_set_key i x (h (addr t)))) ((t', i) # fs) (pchildren t ! i) \<and> erase t' = set_key i x (erase t) \<and>
    addr t' = addr t \<and> addrs t' = addrs t \<and> pchildren t' = pchildren t"
proof -
  let ?t = "PNode (addr t) (pleaf t) ((pkeys t)[i := x]) (pchildren t) (pcount t)" and ?h = "h(addr t := nb_set_key i x (h (addr t)))"
  note st = stored_set_key[OF focus_stored[OF assms(1)] assms(4,5)]
  have addrs: "addrs ?t = addrs t" by (simp add: addrs_parts[of t])
  have "distinct (addrs t)" using assms(1) by (simp add: focus_def)
  with st(1) addrs have "focus ?h fs ?t"
    by (intro focus_replace[OF assms(1), where N = "{}"]) (use addr_in[of t] in \<open>auto simp: stored_def simp del: addr_in\<close>)
  moreover have "proper_node ?t" using assms(3,4) by (auto simp: proper_node_def same_level_def)
  moreover have "i < length (pchildren ?t)" using assms(2-4) by (simp add: proper_node_def)
  ultimately have "focus ?h ((?t, i) # fs) (pchildren ?t ! i)" using focus_child[of ?h fs ?t i] assms(2) by simp
  then show ?thesis using st(2) addrs by (intro exI[of _ ?t]) simp
qed

theorem delete_at_in_memory:
  assumes "focus (mt_heap m) fs t" "tall ht t" "length fs + ht < kMaxDepth" "i < length (pkeys t)"
    "0 \<notin> set (frame_addrs fs @ addrs t)" "mset (mt_live m) = mset (frame_addrs fs @ addrs t)" "mt_root m = top_addr fs (addr t)"
  shows "shrank (m\<lparr>mt_count := mt_count m - 1\<rparr>) (mt_delete_at (addr t) i (frame_path fs) m) (delete_key ((erase t, i) # frame_nodes fs))"
proof (cases "pleaf t")
  case True
  let ?h = "mt_heap m"
  have leaf: "is_leaf (erase t)" and n: "i < num_items (erase t)" using True assms(4) by simp_all
  have "edits ?h t (nb_shift_left i False (?h (addr t))) (shift_left i False (erase t))" by (rule leaf_edits(2)[OF focus_stored[OF assms(1)] leaf n])
  from focus_edit[OF assms(1) this] obtain t' where t': "focus (?h(addr t := nb_shift_left i False (?h (addr t)))) fs t'"
      "erase t' = shift_left i False (erase t)" "addrs t' = addrs t" "addr t' = addr t"
    using leaf_kept(3) by blast
  have "nb_is_leaf (?h (addr t))" using in_heap_sizes(2)[of ?h t] assms(1) True by (simp add: focus_def)
  then show ?thesis
    using shrink_in_memory[of "m\<lparr>mt_heap := ?h(addr t := nb_shift_left i False (?h (addr t))), mt_count := mt_count m - 1\<rparr>" fs t'] t' assms(5-7) leaf
    by (simp add: mt_delete_at_def delete_key_def shrank_def Let_def)
next
  case False
  then obtain k where ht: "ht = Suc k" using assms(2) tall_leaf by (cases ht) auto
  let ?h = "mt_heap m" and ?c = "pchildren t ! i"
  note inner = tall_inner[OF assms(2)[unfolded ht]]
  have t: "in_heap ?h t" "stored ?h t" using assms(1) by (simp_all add: focus_def stored_def)
  have i: "i < length (pchildren t)" using inner(4) assms(4) by simp
  have c: "in_heap ?h ?c" "tall k ?c" "k < kMaxDepth - Suc (length (frame_path fs))"
    using in_heap_children[OF t(1)] inner(3) i assms(3) ht by (simp_all add: frame_path_def)
  obtain gs n where dig: "pleaf n" "pkeys n \<noteq> []" "in_heap ?h n"
      "\<And>p. mt_dig_right (kMaxDepth - Suc (length (frame_path fs))) (addr ?c) p ?h = Some ((addr n, length (pkeys n) - 1) # frame_path gs @ p)"
      "\<And>q. dig_right (erase ?c) q = (erase n, length (pkeys n) - 1) # frame_nodes gs @ q"
      "\<And>h' fs. focus h' fs ?c \<Longrightarrow> reaches h' fs ?c (gs @ fs) n"
    using dig_in_memory[OF c] by blast
  let ?x = "last (pkeys n)"
  have x: "length ?x = 16" "nb_key (nb_num_items (?h (addr n)) - 1) (?h (addr n)) = ?x"
    using block_nth(2)[OF in_heap_root[OF dig(3)], of ?x] blockD(6)[OF in_heap_root[OF dig(3)], of "length (pkeys n) - 1"] dig(2)
      in_heap_sizes(1)[OF dig(3)] by (simp_all add: last_conv_nth)
  let ?h1 = "?h(addr t := nb_set_key i ?x (?h (addr t)))"
  obtain t' where t': "focus ?h1 ((t', i) # fs) ?c" "erase t' = set_key i ?x (erase t)" "addr t' = addr t" "addrs t' = addrs t" "pchildren t' = pchildren t"
    using focus_set_key[OF assms(1) inner(1,2) assms(4) x(1)] by blast
  have r: "focus ?h1 (gs @ (t', i) # fs) n" "top_addr (gs @ (t', i) # fs) (addr n) = mt_root m"
      "mset (frame_addrs (gs @ (t', i) # fs) @ addrs n) = mset (frame_addrs ((t', i) # fs) @ addrs ?c)"
    using dig(6)[OF t'(1)] t'(3) assms(7) by (simp_all add: reaches_def)
  have "mset (frame_addrs ((t', i) # fs) @ addrs ?c) = mset (frame_addrs fs @ addrs t)"
    using child_addrs[of i t' fs] i t'(4,5) by simp
  with r(3) have blocks: "mset (frame_addrs (gs @ (t', i) # fs) @ addrs n) = mset (frame_addrs fs @ addrs t)" by (rule trans)
  have leaf: "is_leaf (erase n)" "0 < num_items (erase n)" using dig(1,2) by simp_all
  from focus_edit[OF r(1) leaf_edits(3)[OF focus_stored[OF r(1)] leaf]] obtain n' where
      n': "focus (?h1(addr n := nb_leaf_erase_right (?h1 (addr n)))) (gs @ (t', i) # fs) n'" "erase n' = leaf_erase_right (erase n)"
        "addrs n' = addrs n" "addr n' = addr n"
    using leaf_kept(5) by blast
  let ?m = "m\<lparr>mt_heap := ?h1(addr n := nb_leaf_erase_right (?h1 (addr n))), mt_count := mt_count m - 1\<rparr>"
  have "shrank ?m (mt_delete_up (addr n') (frame_path (gs @ (t', i) # fs)) ?m) (delete_up (erase n') (frame_nodes (gs @ (t', i) # fs)))"
  proof (rule shrink_in_memory)
    have b: "mset (frame_addrs (gs @ (t', i) # fs) @ addrs n') = mset (frame_addrs fs @ addrs t)" using blocks n'(3) by (simp only:)
    then show "mset (mt_live ?m) = mset (frame_addrs (gs @ (t', i) # fs) @ addrs n')" using assms(6) by (simp del: mset_append)
    show "0 \<notin> set (frame_addrs (gs @ (t', i) # fs) @ addrs n')" unfolding mset_eq_setD[OF b] by (rule assms(5))
  qed (use n'(1,4) r(2) in \<open>simp_all del: fun_upd_apply\<close>)
  moreover have "delete_key ((erase t, i) # frame_nodes fs) = delete_up (erase n') (frame_nodes (gs @ (t', i) # fs))"
    using False dig(5) child_erase[OF inner(1) i] t'(2) n'(2) by (simp add: delete_key_def frames_append)
  moreover have "nb_child i (?h (addr t)) = addr ?c" "\<not> nb_is_leaf (?h (addr t))"
    using inner_reads(5)[OF t(2), of i] in_heap_sizes(2)[OF t(1)] False assms(4) by simp_all
  then have "mt_delete_at (addr t) i (frame_path fs) m = mt_delete_up (addr n') (frame_path (gs @ (t', i) # fs)) ?m"
    using dig(4) x(2) t'(3) n'(4) by (simp add: mt_delete_at_def frames_append Let_def del: fun_upd_apply)
  ultimately show ?thesis by (simp add: shrank_def)
qed

end
