(* ===== verification/Tree_Clear.thy ===== *)
theory Tree_Clear
  imports Tree_Frames
begin

text \<open>
  \<^verbatim>\<open>Clear\<close> of \<^verbatim>\<open>src/zset/bplustree.hpp\<close> on the heap: the loop ends, it never touches a block it has given back, and it gives back every
  block of the tree once.
\<close>

section \<open>What the loop still has to destroy\<close>

text \<open>
  Above the node that is destroyed next stand its ancestors, each with the position of the child it was reached by.  The children before
  that position are gone; the ancestor and the children after it are left.
\<close>

fun undestroyed :: "frames \<Rightarrow> u64 list" where
  "undestroyed [] = []"
| "undestroyed ((p, i) # fs) = addr p # concat (map addrs (drop (Suc i) (pchildren p))) @ undestroyed fs"

fun clear_frames :: "heap \<Rightarrow> nat \<Rightarrow> frames \<Rightarrow> bool" where
  "clear_frames h k [] \<longleftrightarrow> True"
| "clear_frames h k ((p, i) # fs) \<longleftrightarrow> in_heap h p \<and> tall (Suc k) p \<and> i < length (pchildren p) \<and> clear_frames h (Suc k) fs"

text \<open>The number of nodes is the number of blocks.\<close>

lemma length_addrs: "in_heap h t \<Longrightarrow> length (addrs t) = node_total (erase t)"
proof (induction t)
  case (PNode a leaf ks cs c)
  then have "map (\<lambda>s. length (addrs s)) cs = map (\<lambda>s. node_total (erase s)) cs" by simp
  from arg_cong[OF this, of sum_list] show ?case
    using PNode.prems by (auto simp: length_concat comp_def block_def)
qed

text \<open>What the code reads of an inner node, when its block and the block of the child are live.\<close>

lemma live_child:
  assumes "in_heap (mt_heap t) n" "tall (Suc k) n" "i < length (pchildren n)"
    "set (addr n # concat (map addrs (drop i (pchildren n)))) \<subseteq> set (mt_live t)"
  shows "mt_block (addr n) t = Some (mt_heap t (addr n))" "nb_child i (mt_heap t (addr n)) = addr (pchildren n ! i)"
    "mt_block (addr (pchildren n ! i)) t = Some (mt_heap t (addr (pchildren n ! i)))" "in_heap (mt_heap t) (pchildren n ! i)"
    "tall k (pchildren n ! i)" "set (addrs (pchildren n ! i)) \<subseteq> set (mt_live t)"
proof -
  let ?c = "pchildren n ! i"
  note inner = tall_inner[OF assms(2)]
  show "in_heap (mt_heap t) ?c" using assms(1,3) by (cases n) simp
  show "tall k ?c" using inner(3) assms(3) by simp
  show "nb_child i (mt_heap t (addr n)) = addr ?c"
    using blockD(9)[OF in_heap_root[OF assms(1)]] inner(1,4) assms(3) by simp
  have "set (addrs ?c) \<subseteq> set (concat (map addrs (drop i (pchildren n))))"
    using assms(3) by (simp flip: Cons_nth_drop_Suc)
  then show live: "set (addrs ?c) \<subseteq> set (mt_live t)" using assms(4) by auto
  show "mt_block (addr n) t = Some (mt_heap t (addr n))" "mt_block (addr ?c) t = Some (mt_heap t (addr ?c))"
    using assms(4) live addr_in[of ?c] by (auto simp: mt_block_def)
qed

lemma leaf_addrs: "in_heap h t \<Longrightarrow> pleaf t \<Longrightarrow> addrs t = [addr t]"
  by (cases t) (auto simp: block_def)

text \<open>Down to the first leaf below a child: the way there is on the path, what is beside it is still to be done.\<close>

lemma deep_left_in_memory:
  assumes "in_heap (mt_heap t) n" "tall (Suc k) n" "i < length (pchildren n)" "k < d" "clear_frames (mt_heap t) (Suc k) fs"
    "set (addr n # concat (map addrs (drop i (pchildren n)))) \<subseteq> set (mt_live t)"
  shows "\<exists>a fs'. mt_deep_left d (addr n) i (frame_path fs) t = Some (a, frame_path fs') \<and> clear_frames (mt_heap t) 0 fs' \<and>
    length fs' = Suc k + length fs \<and>
    mset (a # undestroyed fs') = mset (addr n # concat (map addrs (drop i (pchildren n))) @ undestroyed fs)"
  using assms
proof (induction k arbitrary: d n i fs)
  case 0
  then obtain d' where d: "d = Suc d'" by (cases d) simp_all
  let ?c = "pchildren n ! i"
  note c = live_child[OF 0(1,2,3,6)]
  have leaf: "pleaf ?c" by (rule tall_leaf[OF c(5)])
  have "nb_is_leaf (mt_heap t (addr ?c))" using in_heap_sizes(2)[OF c(4)] leaf by simp
  then have "mt_deep_left d (addr n) i (frame_path fs) t = Some (addr ?c, frame_path ((n, i) # fs))"
    using c(1-3) by (simp add: d)
  moreover have "concat (map addrs (drop i (pchildren n))) = addr ?c # concat (map addrs (drop (Suc i) (pchildren n)))"
    using 0(3) leaf_addrs[OF c(4) leaf] by (simp flip: Cons_nth_drop_Suc)
  ultimately show ?case using 0(1,2,3,5) by (intro exI[of _ "addr ?c"] exI[of _ "(n, i) # fs"]) simp
next
  case (Suc k)
  then obtain d' where d: "d = Suc d'" "k < d'" by (cases d) simp_all
  let ?c = "pchildren n ! i"
  note c = live_child[OF Suc.prems(1,2,3,6)]
  note inner = tall_inner[OF c(5)]
  have addrs: "addrs ?c = addr ?c # concat (map addrs (pchildren ?c))" by (cases ?c) simp
  have "\<not> nb_is_leaf (mt_heap t (addr ?c))" using in_heap_sizes(2)[OF c(4)] inner(1) by simp
  then have step: "mt_deep_left d (addr n) i (frame_path fs) t = mt_deep_left d' (addr ?c) 0 (frame_path ((n, i) # fs)) t"
    using c(1-3) by (simp add: d)
  have "clear_frames (mt_heap t) (Suc k) ((n, i) # fs)" "0 < length (pchildren ?c)" using Suc.prems(1-3,5) inner(4) by simp_all
  moreover have "set (addr ?c # concat (map addrs (drop 0 (pchildren ?c)))) \<subseteq> set (mt_live t)" using c(6) addrs by simp
  ultimately obtain a fs' where "mt_deep_left d' (addr ?c) 0 (frame_path ((n, i) # fs)) t = Some (a, frame_path fs')"
      "clear_frames (mt_heap t) 0 fs'" "length fs' = Suc k + length ((n, i) # fs)"
      "mset (a # undestroyed fs') = mset (addr ?c # concat (map addrs (drop 0 (pchildren ?c))) @ undestroyed ((n, i) # fs))"
    using Suc.IH[OF c(4,5) _ d(2)] by blast
  moreover have "concat (map addrs (drop i (pchildren n))) = addrs ?c @ concat (map addrs (drop (Suc i) (pchildren n)))"
    using Suc.prems(3) by (simp flip: Cons_nth_drop_Suc)
  ultimately show ?case unfolding step by (intro exI[of _ a] exI[of _ fs']) (simp add: addrs)
qed

text \<open>
  The loop: what is live is exactly the node to destroy next and what is left above it.  Each round destroys one live block, so it ends
  when none is left.
\<close>

lemma clear_loop_in_memory:
  assumes "distinct (mt_live t)" "mset (mt_live t) = mset (a # undestroyed fs)" "clear_frames (mt_heap t) k fs" "k + length fs < kMaxDepth"
  shows "\<exists>rest. mt_clear_loop a (frame_path fs) gone t =
      Some (gone @ rest, t\<lparr>mt_live := [], mt_nodes := mt_nodes t - of_nat (length (mt_live t))\<rparr>) \<and> mset rest = mset (mt_live t)"
  using assms
proof (induction "length (mt_live t)" arbitrary: t a fs k gone rule: less_induct)
  case less
  let ?t = "mt_destroy a t"
  have a: "a \<in> set (mt_live t)" using arg_cong[OF less.prems(2), of set_mset] by simp
  then have free: "mt_free a t = Some ?t" by (simp add: mt_free_def)
  have t: "mt_heap ?t = mt_heap t" "mt_nodes ?t = mt_nodes t - 1" "mset (mt_live ?t) = mset (undestroyed fs)" "distinct (mt_live ?t)"
    using less.prems(1,2) by (simp_all add: mt_destroy_def distinct_remove1)
  have shorter: "length (mt_live t) = Suc (length (mt_live ?t))" using a by (simp add: mt_destroy_def length_remove1 flip: length_greater_0_conv) (cases "mt_live t"; simp)
  have left: "?t\<lparr>mt_live := [], mt_nodes := mt_nodes ?t - of_nat (length (mt_live ?t))\<rparr> =
      t\<lparr>mt_live := [], mt_nodes := mt_nodes t - of_nat (length (mt_live t))\<rparr>"
    by (simp add: shorter t(2)) (simp add: mt_destroy_def)
  have live: "mset (mt_live t) = add_mset a (mset (mt_live ?t))" using less.prems(2) t(3) by simp
  have again: "\<exists>rest. mt_clear_loop a' (frame_path fs') (gone @ [a]) ?t =
        Some (gone @ a # rest, t\<lparr>mt_live := [], mt_nodes := mt_nodes t - of_nat (length (mt_live t))\<rparr>) \<and> mset (a # rest) = mset (mt_live t)"
    if ctx: "mset (a' # undestroyed fs') = mset (undestroyed fs)" "clear_frames (mt_heap t) k' fs'" "k' + length fs' < kMaxDepth" for a' fs' k'
  proof -
    have "mset (mt_live ?t) = mset (a' # undestroyed fs')" using t(3) ctx(1) by simp
    from less.hyps[OF _ t(4) this _ ctx(3), of "gone @ [a]"] obtain rest where
      "mt_clear_loop a' (frame_path fs') (gone @ [a]) ?t =
        Some ((gone @ [a]) @ rest, ?t\<lparr>mt_live := [], mt_nodes := mt_nodes ?t - of_nat (length (mt_live ?t))\<rparr>)"
      "mset rest = mset (mt_live ?t)"
      using shorter t(1) ctx(2) by auto
    then show ?thesis unfolding left live by auto
  qed
  show ?case
  proof (cases fs)
    case Nil
    then have "mt_live ?t = []" using t(3) by simp
    then show ?thesis
      using free live shorter by (intro exI[of _ "[a]"]) (simp add: Nil mt_clear_loop.simps[of a] mt_destroy_def)
  next
    case (Cons f fs')
    obtain p i where f: "f = (p, i)" by (cases f)
    have p: "in_heap (mt_heap t) p" "tall (Suc k) p" "i < length (pchildren p)" "clear_frames (mt_heap t) (Suc k) fs'"
      using less.prems(3) by (simp_all add: Cons f)
    have rest: "set (addr p # concat (map addrs (drop (Suc i) (pchildren p)))) \<subseteq> set (mt_live ?t)"
      using arg_cong[OF t(3), of set_mset] by (auto simp: Cons f)
    then have block: "mt_block (addr p) ?t = Some (mt_heap t (addr p))" "nb_num_items (mt_heap t (addr p)) = length (pkeys p)"
      using in_heap_sizes(1)[OF p(1)] by (simp_all add: mt_block_def t(1))
    have len: "length (pchildren p) = Suc (length (pkeys p))" by (rule tall_inner(4)[OF p(2)])
    show ?thesis
    proof (cases "i < length (pkeys p)")
      case True
      have "k < kMaxDepth - length fs'" using less.prems(4) by (simp add: Cons)
      from deep_left_in_memory[of ?t p k "Suc i" _ fs', OF _ p(2) _ this _ rest] obtain a' gs where
        dl: "mt_deep_left (kMaxDepth - length fs') (addr p) (Suc i) (frame_path fs') ?t = Some (a', frame_path gs)"
          "clear_frames (mt_heap t) 0 gs" "length gs = Suc k + length fs'"
          "mset (a' # undestroyed gs) = mset (addr p # concat (map addrs (drop (Suc i) (pchildren p))) @ undestroyed fs')"
        using p True len t(1) by fastforce
      have "mset (a' # undestroyed gs) = mset (undestroyed fs)" using dl(4) by (simp add: Cons f)
      moreover have "0 + length gs < kMaxDepth" using dl(3) less.prems(4) by (simp add: Cons)
      ultimately obtain rest where "mt_clear_loop a' (frame_path gs) (gone @ [a]) ?t =
          Some (gone @ a # rest, t\<lparr>mt_live := [], mt_nodes := mt_nodes t - of_nat (length (mt_live t))\<rparr>)" "mset (a # rest) = mset (mt_live t)"
        using again dl(2) by blast
      moreover have "length (frame_path fs') = length fs'" by (simp add: frame_path_def)
      ultimately show ?thesis
        using free block dl(1) True by (intro exI[of _ "a # rest"]) (simp add: Cons f mt_clear_loop.simps[of a])
    next
      case False
      then have "drop (Suc i) (pchildren p) = []" using len by simp
      then have "mset (addr p # undestroyed fs') = mset (undestroyed fs)" by (simp add: Cons f)
      moreover have "Suc k + length fs' < kMaxDepth" using less.prems(4) by (simp add: Cons)
      ultimately obtain rest where "mt_clear_loop (addr p) (frame_path fs') (gone @ [a]) ?t =
          Some (gone @ a # rest, t\<lparr>mt_live := [], mt_nodes := mt_nodes t - of_nat (length (mt_live t))\<rparr>)" "mset (a # rest) = mset (mt_live t)"
        using again p(4) by blast
      then show ?thesis
        using free block False by (intro exI[of _ "a # rest"]) (simp add: Cons f mt_clear_loop.simps[of a])
    qed
  qed
qed

text \<open>The whole call, on a tree whose blocks are the live ones.\<close>

lemma clear_in_blocks:
  assumes "in_heap (mt_heap t) T" "tall k T" "k < kMaxDepth" "mt_root t = addr T" "addr T \<noteq> 0" "mset (mt_live t) = mset (addrs T)"
    "distinct (addrs T)"
  shows "\<exists>destroyed. mt_clear t =
      Some (destroyed, t\<lparr>mt_root := 0, mt_count := 0, mt_height := 0, mt_live := [], mt_nodes := mt_nodes t - of_nat (length (mt_live t))\<rparr>)
    \<and> mset destroyed = mset (mt_live t)"
proof -
  have distinct: "distinct (mt_live t)" using assms(6,7) distinct_mset by metis
  have root: "mt_block (mt_root t) t = Some (mt_heap t (addr T))"
    using arg_cong[OF assms(6), of set_mset] addr_in[of T] assms(4) by (simp add: mt_block_def del: addr_in)
  have leaf: "nb_is_leaf (mt_heap t (addr T)) = pleaf T" using in_heap_sizes(2)[OF assms(1)] by simp
  have "\<exists>a fs. (if pleaf T then Some (addr T, []) else mt_deep_left kMaxDepth (addr T) 0 [] t) = Some (a, frame_path fs) \<and>
      clear_frames (mt_heap t) 0 fs \<and> length fs \<le> k \<and> mset (a # undestroyed fs) = mset (addrs T)"
  proof (cases "pleaf T")
    case True
    then show ?thesis using leaf_addrs[OF assms(1)] by (intro exI[of _ "addr T"] exI[of _ "[]"]) simp
  next
    case False
    then obtain j where j: "k = Suc j" using tall_leaf assms(2) by (cases k) auto
    have addrs: "addrs T = addr T # concat (map addrs (pchildren T))" by (cases T) simp
    have "set (addr T # concat (map addrs (drop 0 (pchildren T)))) \<subseteq> set (mt_live t)"
      using arg_cong[OF assms(6), of set_mset] addrs by simp
    from deep_left_in_memory[of t T j 0 kMaxDepth "[]", OF assms(1) _ _ _ _ this] show ?thesis
      using assms(2,3) j False addrs tall_inner(4)[of j T] by fastforce
  qed
  then obtain a fs where dl: "(if pleaf T then Some (addr T, []) else mt_deep_left kMaxDepth (addr T) 0 [] t) = Some (a, frame_path fs)"
      "clear_frames (mt_heap t) 0 fs" "length fs \<le> k" "mset (a # undestroyed fs) = mset (addrs T)" by blast
  obtain rest where "mt_clear_loop a (frame_path fs) [] t =
      Some ([] @ rest, t\<lparr>mt_live := [], mt_nodes := mt_nodes t - of_nat (length (mt_live t))\<rparr>)" "mset rest = mset (mt_live t)"
    using clear_loop_in_memory[OF distinct _ dl(2), of a "[]"] dl(3,4) assms(3,6) by auto
  then show ?thesis
    using dl(1) assms(4,5) root leaf by (intro exI[of _ rest]) (cases "pleaf T"; auto simp: mt_clear_def)
qed

end
