(* ===== verification/Tree_History.thy ===== *)
theory Tree_History
  imports Tree_Grow Tree_Shrink Tree_Clear
begin

text \<open>
  The B+ tree on the heap implements the one on nodes: every call of \<^verbatim>\<open>Insert\<close>, \<^verbatim>\<open>Delete\<close>, \<^verbatim>\<open>Contains\<close>, \<^verbatim>\<open>Clear\<close> and
  \<^verbatim>\<open>ForceUpdate\<close> answers the same and leaves the tree of the call on nodes in exactly the blocks that are live.  Over histories of calls, with the members of a sorted set
  packed into sixteen bytes, the blocks store an ordered set.
\<close>

section \<open>The tree the blocks store\<close>

definition mt_rep :: "mem_tree \<Rightarrow> str bptree \<Rightarrow> bool" where
  "mt_rep m t \<longleftrightarrow> rooted m (bt_root t) \<and> mt_count m = bt_count t \<and> mt_height m = bt_height t \<and> mt_nodes m = bt_nodes t \<and> 0 \<notin> set (mt_live m) \<and>
     bt_nodes t = of_nat (length (mt_live m))"

lemma mt_rep_new: "mt_rep (mt_new h) bt_new"
  by (simp add: mt_rep_def mt_new_def bt_new_def rooted_def)

lemma rooted_distinct: "rooted m root \<Longrightarrow> distinct (mt_live m)"
  by (auto simp: rooted_def closed_def stored_def split: option.splits dest: distinct_mset)

lemma rooted_grew:
  assumes "grew m m' (mset (mt_live m)) news (root, created, taller)"
  shows "rooted m' (Some root)" "set (mt_live m') \<subseteq> set (mt_live m) \<union> set (map fst news)" "mt_count m' = mt_count m"
    "mt_height m' = mt_height m + of_bool taller" "mt_nodes m' = mt_nodes m + of_nat created"
    "length (mt_live m') = created + length (mt_live m)"
proof -
  have live: "mset (mt_live m') = mset (map fst (take created news)) + mset (mt_live m)" using assms by (simp add: grew_def)
  then show "rooted m' (Some root)" using assms by (simp add: grew_def rooted_def)
  have "size (mset (mt_live m')) = created + size (mset (mt_live m))" using assms unfolding live by (simp add: grew_def)
  then show "length (mt_live m') = created + length (mt_live m)" by simp
  show "set (mt_live m') \<subseteq> set (mt_live m) \<union> set (map fst news)"
    using arg_cong[OF live, of set_mset] by (auto dest: in_set_takeD)
qed (use assms in \<open>simp_all add: grew_def\<close>)

text \<open>A nonempty tree: its blocks, and where a search ends in them.\<close>

lemma rep_tree:
  assumes "mt_rep m t" "bt_root t = Some r" "bt_ok t" "length (bt_items t) < 2 ^ 32"
  obtains T h where "stored (mt_heap m) T" "erase T = r" "mt_root m = addr T" "mset (addrs T) = mset (mt_live m)" "0 \<notin> set (addrs T)"
    "addr T \<noteq> 0" "tall h T" "h \<le> 13"
proof -
  obtain T where T: "stored (mt_heap m) T" "erase T = r" "mt_root m = addr T" "mset (addrs T) = mset (mt_live m)"
    using assms(1,2) by (auto simp: mt_rep_def rooted_def closed_def)
  obtain h where h: "tree_ok h r" using assms(2,3) by (auto simp: bt_ok_def)
  have "h \<le> 13" by (rule tree_height_bound[OF h]) (use assms(2,4) in \<open>simp add: bt_items_def\<close>)
  moreover have "tall h T" using h T(2) by (auto simp: tall_def tree_ok_def root_ok_def)
  moreover have "0 \<notin> set (addrs T)" using assms(1) mset_eq_setD[OF T(4)] by (simp add: mt_rep_def)
  moreover from this have "addr T \<noteq> 0" using addr_in[of T] by metis
  ultimately show ?thesis using that T by blast
qed

lemma rep_locate:
  assumes "stored h T" "tall ht T" "ht \<le> 13"
  shows "\<exists>f fs n i. mt_locate kMaxDepth cmp (addr T) [] h = Some (f, (addr n, i) # frame_path fs) \<and>
    locate_from cmp (erase T) [] = (f, (erase n, i) # frame_nodes fs) \<and> focus h fs n \<and> top_addr fs (addr n) = addr T \<and>
    mset (frame_addrs fs @ addrs n) = mset (addrs T) \<and> linked fs n \<and> i \<le> length (pkeys n) \<and>
    (if f then i < length (pkeys n) else pleaf n) \<and> (\<exists>k. tall k n \<and> length fs + k = ht)"
proof -
  have "focus h [] T" "ht < kMaxDepth" "linked [] T" using assms by (simp_all add: focus_root kMaxDepth_def linked_def)
  from locate_in_memory[OF this(1) assms(2) this(2,3), of cmp] obtain f fs n i k where
      "mt_locate kMaxDepth cmp (addr T) [] h = Some (f, (addr n, i) # frame_path fs)"
      "locate_from cmp (erase T) [] = (f, (erase n, i) # frame_nodes fs)" "reaches h [] T fs n" "linked fs n" "tall k n" "i \<le> length (pkeys n)"
      "if f then i < length (pkeys n) else pleaf n" "length fs + k = ht"
    unfolding frame_simps list.size(3) add_0 by blast
  then show ?thesis unfolding reaches_def top_addr.simps frame_addrs.simps append_Nil by blast
qed

section \<open>Insert\<close>

lemma empty_insert:
  assumes "mt_rep m t" "bt_root t = None" "fresh news (set (mt_live m))" "news \<noteq> []" "length x = 16"
  shows "fst (mt_insert lt x news m) \<and> mt_rep (snd (mt_insert lt x news m)) (snd (bt_insert lt x t)) \<and>
    set (mt_live (snd (mt_insert lt x news m))) \<subseteq> set (map fst news)"
proof -
  obtain b news' where news: "news = b # news'" using assms(4) by (cases news) simp_all
  have b: "fst b \<noteq> 0" "length (snd b) = 256" using assms(3) by (auto simp: fresh_def news)
  have m: "mt_root m = 0" "mt_live m = []" "mt_count m = bt_count t" "mt_height m = bt_height t" "mt_nodes m = 0" "bt_nodes t = 0"
    using assms(1,2) by (simp_all add: mt_rep_def rooted_def)
  let ?T = "PNode (fst b) True [x] [] 0" and ?h = "(mt_heap m)(fst b := nb_init_single x (nb_new True (snd b)))"
  have "stored ?h ?T" using block_init_single(1)[OF b(2) assms(5)] by (simp add: stored_def)
  then have "closed ?h (fst b) {#fst b#} (Leaf [x])" unfolding closed_def by (intro exI[of _ ?T]) simp
  then show ?thesis
    using m b assms(2) by (simp add: mt_insert_def bt_insert_def news mt_create_def mt_rep_def rooted_def Let_def)
qed

lemma insert_rep:
  assumes "mt_rep m t" "bt_ok t" "length (bt_items t) < 2 ^ 32" "fresh news (set (mt_live m))" "kMaxDepth \<le> length news" "length x = 16"
  shows "fst (mt_insert lt x news m) = fst (bt_insert lt x t) \<and> mt_rep (snd (mt_insert lt x news m)) (snd (bt_insert lt x t)) \<and>
    set (mt_live (snd (mt_insert lt x news m))) \<subseteq> set (mt_live m) \<union> set (map fst news)"
proof (cases "bt_root t")
  case None
  have "news \<noteq> []" using assms(5) by (auto simp: kMaxDepth_def)
  with empty_insert[OF assms(1) None assms(4) this assms(6), of lt] None show ?thesis by (auto simp: bt_insert_def)
next
  case (Some r)
  obtain T ht where T: "stored (mt_heap m) T" "erase T = r" "mt_root m = addr T" "mset (addrs T) = mset (mt_live m)" "0 \<notin> set (addrs T)"
      "addr T \<noteq> 0" "tall ht T" "ht \<le> 13"
    using rep_tree[OF assms(1) Some assms(2,3)] by blast
  obtain f fs n i where loc: "mt_locate kMaxDepth (compare_to lt x) (addr T) [] (mt_heap m) = Some (f, (addr n, i) # frame_path fs)"
      "locate_from (compare_to lt x) (erase T) [] = (f, (erase n, i) # frame_nodes fs)" "focus (mt_heap m) fs n" "top_addr fs (addr n) = addr T"
      "mset (frame_addrs fs @ addrs n) = mset (addrs T)" "linked fs n" "i \<le> length (pkeys n)"
      "if f then i < length (pkeys n) else pleaf n" "\<exists>k. tall k n \<and> length fs + k = ht"
    using rep_locate[OF T(1,7,8)] by blast
  have n: "in_heap (mt_heap m) n" using loc(3) by (simp add: focus_def)
  have live: "mset (mt_live m) = mset (frame_addrs fs @ addrs n)" using loc(5) T(4) by simp
  consider (found) "f" | (room) "\<not> f" "length (pkeys n) \<noteq> kMaxLeafKeys" | (full) "\<not> f" "length (pkeys n) = kMaxLeafKeys" by blast
  then show ?thesis
  proof cases
    case found
    then show ?thesis using loc(1,2) Some T(2,3,6) assms(1) by (simp add: mt_insert_def bt_insert_def)
  next
    case room
    have leaf: "pleaf n" using loc(8) room by simp
    have "length (pkeys n) < kMaxLeafKeys"
      using block_nth(1)[OF in_heap_root[OF n]] leaf room(2) by (simp add: key_slots_def)
    from focus_leaf_insert[OF loc(3) leaf loc(7) this assms(6)] obtain n' where
        n': "focus ((mt_heap m)(addr n := nb_leaf_insert i x (mt_heap m (addr n)))) fs n'" "erase n' = leaf_insert i x (erase n)"
          "addrs n' = addrs n" "addr n' = addr n" by blast
    have "closed (mt_increase_counts (frame_path fs) 1 ((mt_heap m)(addr n := nb_leaf_insert i x (mt_heap m (addr n))))) (mt_root m)
        (mset (mt_live m)) (rebuild 1 (frame_nodes fs) (erase n'))"
      by (rule closedI[OF n'(1)]) (use n'(3,4) live loc(4) T(3) in simp_all)
    then show ?thesis
      using room loc(1,2) Some T(2,3,6) assms(1) in_heap_sizes(1)[OF n] n'(2)
      by (simp add: mt_insert_def bt_insert_def mt_rep_def rooted_def Let_def del: fun_upd_apply)
  next
    case full
    have leaf: "pleaf n" using loc(8) full by simp
    have "0 \<notin> set (frame_addrs fs @ addrs n)" using mset_eq_setD[OF loc(5)] T(5) by simp
    moreover have "fresh news (set (frame_addrs fs @ addrs n))" by (rule fresh_mset[OF assms(4) live])
    moreover have "Suc (length fs) < length news" using loc(9) T(8) assms(5) by (auto simp: kMaxDepth_def)
    moreover have "mt_root m = top_addr fs (addr n)" using loc(4) T(3) by simp
    ultimately have out: "grew m (mt_insert_to_full_leaf x (addr n) i (frame_path fs) news m) (mset (mt_live m)) news
        (insert_to_full_leaf x (erase n) i (frame_nodes fs))"
      unfolding live by (rule full_leaf_in_memory[OF loc(3) leaf full(2) loc(7,6) assms(6)])
    obtain root created taller where res: "insert_to_full_leaf x (erase n) i (frame_nodes fs) = (root, created, taller)"
      by (cases "insert_to_full_leaf x (erase n) i (frame_nodes fs)")
    note g = rooted_grew[OF out[unfolded res]]
    have "0 \<notin> set (map fst news)" using assms(4) by (simp add: fresh_def)
    then have "0 \<notin> set (mt_live (mt_insert_to_full_leaf x (addr n) i (frame_path fs) news m))"
      using g(2) assms(1) by (auto simp: mt_rep_def)
    then show ?thesis
      using full loc(1,2) Some T(2,3,6) assms(1) in_heap_sizes(1)[OF n] g res
      by (simp add: mt_insert_def bt_insert_def mt_rep_def rooted_def Let_def)
  qed
qed

section \<open>Delete and Contains\<close>

lemma delete_rep:
  assumes "mt_rep m t" "bt_ok t" "length (bt_items t) < 2 ^ 32"
  shows "fst (mt_delete lt x m) = fst (bt_delete lt x t) \<and> mt_rep (snd (mt_delete lt x m)) (snd (bt_delete lt x t)) \<and>
    set (mt_live (snd (mt_delete lt x m))) \<subseteq> set (mt_live m)"
proof (cases "bt_root t")
  case None
  then show ?thesis using assms(1) by (simp add: mt_delete_def bt_delete_def mt_rep_def rooted_def)
next
  case (Some r)
  obtain T ht where T: "stored (mt_heap m) T" "erase T = r" "mt_root m = addr T" "mset (addrs T) = mset (mt_live m)" "0 \<notin> set (addrs T)"
      "addr T \<noteq> 0" "tall ht T" "ht \<le> 13"
    using rep_tree[OF assms(1) Some assms(2,3)] by blast
  obtain f fs n i k where loc: "mt_locate kMaxDepth (compare_to lt x) (addr T) [] (mt_heap m) = Some (f, (addr n, i) # frame_path fs)"
      "locate_from (compare_to lt x) (erase T) [] = (f, (erase n, i) # frame_nodes fs)" "focus (mt_heap m) fs n" "top_addr fs (addr n) = addr T"
      "mset (frame_addrs fs @ addrs n) = mset (addrs T)" "if f then i < length (pkeys n) else pleaf n" "tall k n" "length fs + k = ht"
    using rep_locate[OF T(1,7,8)] by blast
  show ?thesis
  proof (cases f)
    case False
    then show ?thesis using loc(1,2) Some T(2,3,6) assms(1) by (simp add: mt_delete_def bt_delete_def)
  next
    case True
    then have i: "i < length (pkeys n)" using loc(6) by simp
    have null: "0 \<notin> set (frame_addrs fs @ addrs n)" and live: "mset (mt_live m) = mset (frame_addrs fs @ addrs n)"
      using mset_eq_setD[OF loc(5)] T(4,5) loc(5) by simp_all
    have root: "mt_root m = top_addr fs (addr n)" and depth: "length fs + k < kMaxDepth"
      using loc(4,8) T(3,8) by (simp_all add: kMaxDepth_def)
    obtain root' shorter destroyed where res: "delete_key ((erase n, i) # frame_nodes fs) = (root', shorter, destroyed)"
      by (cases "delete_key ((erase n, i) # frame_nodes fs)")
    have out: "shrank (m\<lparr>mt_count := mt_count m - 1\<rparr>) (mt_delete_at (addr n) i (frame_path fs) m) (root', shorter, destroyed)"
      unfolding res[symmetric] by (rule delete_at_in_memory[OF loc(3,7) depth i null live root])
    then have "0 \<notin> set (mt_live (mt_delete_at (addr n) i (frame_path fs) m))" using assms(1) by (auto simp: shrank_def mt_rep_def)
    then show ?thesis
      using True loc(1,2) Some T(2,3,6) assms(1) out res
      by (simp add: mt_delete_def bt_delete_def bt_delete_at_def mt_rep_def shrank_def)
  qed
qed

lemma contains_rep:
  assumes "mt_rep m t" "bt_ok t" "length (bt_items t) < 2 ^ 32"
  shows "mt_contains lt x m = bt_contains lt x t"
proof (cases "bt_root t")
  case None
  then show ?thesis using assms(1) by (simp add: mt_contains_def bt_contains_def mt_rep_def rooted_def)
next
  case (Some r)
  obtain T ht where T: "stored (mt_heap m) T" "erase T = r" "mt_root m = addr T" "addr T \<noteq> 0" "tall ht T" "ht \<le> 13"
    using rep_tree[OF assms(1) Some assms(2,3)] by blast
  obtain f fs n i where "mt_locate kMaxDepth (compare_to lt x) (addr T) [] (mt_heap m) = Some (f, (addr n, i) # frame_path fs)"
      "locate_from (compare_to lt x) (erase T) [] = (f, (erase n, i) # frame_nodes fs)"
    using rep_locate[OF T(1,5,6)] by blast
  then show ?thesis using Some T(2-4) by (simp add: mt_contains_def bt_contains_def)
qed

section \<open>Clear and ForceUpdate\<close>

lemma clear_rep:
  assumes "mt_rep m t" "bt_ok t" "length (bt_items t) < 2 ^ 32"
  shows "\<exists>destroyed m'. mt_clear m = Some (destroyed, m') \<and> mset destroyed = mset (mt_live m) \<and> mt_live m' = [] \<and> mt_nodes m' = 0 \<and>
    mt_rep m' (bt_clear t)"
proof (cases "bt_root t")
  case None
  then show ?thesis using assms(1) by (simp add: mt_clear_def bt_clear_def mt_rep_def rooted_def)
next
  case (Some r)
  obtain T ht where T: "stored (mt_heap m) T" "erase T = r" "mt_root m = addr T" "mset (addrs T) = mset (mt_live m)"
      "addr T \<noteq> 0" "tall ht T" "ht \<le> 13"
    using rep_tree[OF assms(1) Some assms(2,3)] by blast
  have "in_heap (mt_heap m) T" "distinct (addrs T)" "ht < kMaxDepth" using T(1,7) by (simp_all add: stored_def kMaxDepth_def)
  from clear_in_blocks[OF this(1) T(6) this(3) T(3,5) T(4)[symmetric] this(2)] obtain destroyed where
    clear: "mt_clear m = Some (destroyed, m\<lparr>mt_root := 0, mt_count := 0, mt_height := 0, mt_live := [],
        mt_nodes := mt_nodes m - of_nat (length (mt_live m))\<rparr>)" "mset destroyed = mset (mt_live m)" by blast
  have "size (mset (addrs T)) = size (mset (mt_live m))" by (simp only: T(4))
  then have "node_total r = length (mt_live m)" using length_addrs[of "mt_heap m" T] T(1,2) by (simp add: stored_def)
  then have "bt_nodes (bt_clear t) = 0" "bt_root (bt_clear t) = None" "bt_count (bt_clear t) = 0" "bt_height (bt_clear t) = 0"
    using conjunct1[OF conjunct2[OF clear_destroys_all[OF assms(2) Some]]] assms(1) Some
    by (simp_all add: mt_rep_def del: of_nat_eq_0_iff) (simp_all add: bt_clear_def split_beta)
  moreover have "mt_nodes m = of_nat (length (mt_live m))" using assms(1) by (simp add: mt_rep_def)
  ultimately show ?thesis using clear(2) unfolding clear(1) mt_rep_def by (simp add: rooted_def)
qed

lemma increase_none: "\<not> is_leaf n \<Longrightarrow> increase_tree_count 0 n = n"
  by (cases n) (simp_all add: increase_tree_count_def)

text \<open>A node changed in place is in the tree already: the call on nodes puts it back along the path, with no count changed.\<close>

lemma focus_close:
  assumes "focus h fs t"
  shows "closed h (top_addr fs (addr t)) (mset (frame_addrs fs @ addrs t)) (rebuild 0 (frame_nodes fs) (erase t))"
  using assms
proof (induction fs arbitrary: t)
  case Nil
  then show ?case by (auto simp: closed_def focus_root)
next
  case (Cons f fs)
  obtain p i where f: "f = (p, i)" by (cases f)
  note parent = parent_tree[OF Cons.prems[unfolded f]]
  have "mset (frame_addrs fs @ addrs (put i t p)) = mset (frame_addrs (f # fs) @ addrs t)"
    using addrs_put[OF parent(7), of t] by (simp add: f ac_simps)
  moreover have "increase_tree_count 0 (set_child i (erase t) (erase p)) = set_child i (erase t) (erase p)"
    using increase_none[OF parent(2)] by (simp add: erase_put)
  moreover have "closed h (top_addr fs (addr (put i t p))) (mset (frame_addrs fs @ addrs (put i t p)))
      (rebuild 0 (frame_nodes fs) (erase (put i t p)))"
    by (rule Cons.IH) (use Cons.prems focus_up f in blast)
  ultimately show ?case by (simp add: f erase_put ac_simps)
qed

lemma focus_key:
  assumes "focus h fs t" "i < length (pkeys t)" "length x = 16"
  shows "\<exists>t'. focus (h(addr t := nb_set_key i x (h (addr t)))) fs t' \<and> erase t' = set_key i x (erase t) \<and> addr t' = addr t \<and> addrs t' = addrs t"
proof -
  let ?t = "PNode (addr t) (pleaf t) ((pkeys t)[i := x]) (pchildren t) (pcount t)" and ?h = "h(addr t := nb_set_key i x (h (addr t)))"
  note st = stored_set_key[OF focus_stored[OF assms(1)] assms(2,3)]
  have addrs: "addrs ?t = addrs t" by (simp add: addrs_parts[of t])
  have "distinct (addrs t)" using assms(1) by (simp add: focus_def)
  with st(1) addrs have "focus ?h fs ?t"
    by (intro focus_replace[OF assms(1), where N = "{}"]) (use addr_in[of t] in \<open>auto simp: stored_def simp del: addr_in\<close>)
  then show ?thesis using st(2) addrs by (intro exI[of _ ?t]) simp
qed

lemma force_update_rep:
  assumes "mt_rep m t" "bt_ok t" "length (bt_items t) < 2 ^ 32" "length x = 16"
  shows "case bt_force_update lt old x t of
      None \<Rightarrow> mt_force_update lt old x m = None
    | Some t' \<Rightarrow> (\<exists>m'. mt_force_update lt old x m = Some m' \<and> mt_rep m' t' \<and> mt_live m' = mt_live m)"
proof (cases "bt_root t")
  case None
  then show ?thesis using assms(1) by (simp add: mt_force_update_def bt_force_update_def mt_rep_def rooted_def)
next
  case (Some r)
  obtain T ht where T: "stored (mt_heap m) T" "erase T = r" "mt_root m = addr T" "mset (addrs T) = mset (mt_live m)"
      "addr T \<noteq> 0" "tall ht T" "ht \<le> 13"
    using rep_tree[OF assms(1) Some assms(2,3)] by blast
  obtain f fs n i where loc: "mt_locate kMaxDepth (compare_to lt old) (addr T) [] (mt_heap m) = Some (f, (addr n, i) # frame_path fs)"
      "locate_from (compare_to lt old) (erase T) [] = (f, (erase n, i) # frame_nodes fs)" "focus (mt_heap m) fs n" "top_addr fs (addr n) = addr T"
      "mset (frame_addrs fs @ addrs n) = mset (addrs T)" "if f then i < length (pkeys n) else pleaf n"
    using rep_locate[OF T(1,6,7)] by blast
  show ?thesis
  proof (cases f)
    case False
    then show ?thesis using loc(1,2) Some T(2,3,5) by (simp add: mt_force_update_def bt_force_update_def)
  next
    case True
    then have "i < length (pkeys n)" using loc(6) by simp
    from focus_key[OF loc(3) this assms(4)] obtain n' where
      n': "focus ((mt_heap m)(addr n := nb_set_key i x (mt_heap m (addr n)))) fs n'" "erase n' = set_key i x (erase n)"
        "addr n' = addr n" "addrs n' = addrs n" by blast
    have blocks: "mset (frame_addrs fs @ addrs n') = mset (mt_live m)" using loc(5) T(4) n'(4) by simp
    from focus_close[OF n'(1)] have "closed ((mt_heap m)(addr n := nb_set_key i x (mt_heap m (addr n)))) (mt_root m) (mset (mt_live m))
        (rebuild 0 (frame_nodes fs) (set_key i x (erase n)))"
      unfolding blocks n'(2,3) loc(4) T(3) .
    then show ?thesis
      using True loc(1,2) Some T(2,3,5) assms(1)
      by (simp add: mt_force_update_def bt_force_update_def mt_rep_def rooted_def Let_def del: fun_upd_apply)
  qed
qed

section \<open>Histories of the members of a sorted set\<close>

text \<open>\<^verbatim>\<open>ScoredMemberCompact\<close> as the sixteen bytes of a key: the score, then the hash of the member.\<close>

definition packed_member :: "str \<Rightarrow> scored_member" where
  "packed_member bs = scored_member (of_nat (le_value (take 8 bs))) (of_nat (le_value (take 8 (drop 8 bs))))"

definition pack_member :: "scored_member \<Rightarrow> str" where
  "pack_member x = le_bytes 8 (unat (sm_score x)) @ le_bytes 8 (unat (sm_hash x))"

definition packed_less :: "str \<Rightarrow> str \<Rightarrow> bool" where
  "packed_less a b = scored_less (packed_member a) (packed_member b)"

definition packed_proper :: "str \<Rightarrow> bool" where
  "packed_proper x \<longleftrightarrow> length x = 16 \<and> scored_proper (packed_member x)"

definition packed_key :: "str \<Rightarrow> int \<times> u64" where
  "packed_key x = scored_key (packed_member x)"

lemma unpack_member: "packed_member (pack_member x) = x" "length (pack_member x) = 16"
proof -
  have "unat w < 256 ^ 8" for w :: u64 using unsigned_less[of w] by simp
  then show "packed_member (pack_member x) = x" by (cases x) (simp add: packed_member_def pack_member_def scored_member_def le_value_bytes)
  show "length (pack_member x) = 16" by (simp add: pack_member_def)
qed

interpretation packed: item_order packed_less packed_proper packed_key
  by unfold_locales (simp add: packed_less_def packed_proper_def packed_key_def scored.lt_key)

abbreviation packed_tree :: "str bptree \<Rightarrow> bool" where
  "packed_tree \<equiv> ordered_tree packed_proper packed_key"

text \<open>
  The trees in memory that calls of \<^verbatim>\<open>Insert\<close>, \<^verbatim>\<open>Delete\<close> and \<^verbatim>\<open>Clear\<close> lead to, with the set of keys the calls describe.  The blocks offered to an
  \<^verbatim>\<open>Insert\<close> are distinct, not null and not live, and as many as it can need; a block that was given back may be offered again.
\<close>

inductive mt_history :: "mem_tree \<Rightarrow> (int \<times> u64) set \<Rightarrow> bool" where
  mt_history_new: "mt_history (mt_new h) {}"
| mt_history_insert: "mt_history m S \<Longrightarrow> card S < 2 ^ 32 \<Longrightarrow> packed_proper x \<Longrightarrow> fresh news (set (mt_live m)) \<Longrightarrow> kMaxDepth \<le> length news \<Longrightarrow>
    mt_history (snd (mt_insert packed_less x news m)) (insert (packed_key x) S)"
| mt_history_delete: "mt_history m S \<Longrightarrow> card S < 2 ^ 32 \<Longrightarrow> packed_proper x \<Longrightarrow>
    mt_history (snd (mt_delete packed_less x m)) (S - {packed_key x})"
| mt_history_clear: "mt_history m S \<Longrightarrow> card S < 2 ^ 32 \<Longrightarrow> mt_clear m = Some (destroyed, m') \<Longrightarrow> mt_history m' {}"

lemma packed_size:
  assumes "packed_tree t"
  shows "card (tree_keys packed_key t) = length (bt_items t)" "bt_ok t"
    "map packed_key (bt_items t) = sorted_list_of_set (tree_keys packed_key t)"
proof -
  have strict: "sorted_wrt (<) (map packed_key (bt_items t))" using assms by (simp add: ordered_tree_def ascending_def)
  then show "card (tree_keys packed_key t) = length (bt_items t)"
    using distinct_card[of "map packed_key (bt_items t)"] by (simp add: tree_keys_def strict_sorted_iff)
  show "map packed_key (bt_items t) = sorted_list_of_set (tree_keys packed_key t)"
    using strict by (intro strict_sorted_equal) (simp_all add: tree_keys_def strict_sorted_list_of_set)
  show "bt_ok t" using assms by (simp add: ordered_tree_def)
qed

lemma history_rep: "mt_history m S \<Longrightarrow> \<exists>t. mt_rep m t \<and> packed_tree t \<and> tree_keys packed_key t = S"
proof (induction rule: mt_history.induct)
  case (mt_history_new h)
  have "packed_tree bt_new" "tree_keys packed_key bt_new = {}" by (simp_all add: ordered_tree_def ascending_def tree_keys_def)
  then show ?case using mt_rep_new by blast
next
  case (mt_history_insert m S x news)
  then obtain t where t: "mt_rep m t" "packed_tree t" "tree_keys packed_key t = S" by blast
  obtain b t' where ins: "bt_insert packed_less x t = (b, t')" by (cases "bt_insert packed_less x t")
  have "length (bt_items t) < 2 ^ 32" "length x = 16" using packed_size(1)[OF t(2)] t(3) mt_history_insert by (simp_all add: packed_proper_def)
  from insert_rep[OF t(1) packed_size(2)[OF t(2)] this(1) mt_history_insert.hyps(4,5) this(2), of packed_less]
  have "mt_rep (snd (mt_insert packed_less x news m)) t'" by (simp add: ins)
  then show ?case using packed.insert_ordered(1,3)[OF t(2) mt_history_insert.hyps(3) ins] t(3) by blast
next
  case (mt_history_delete m S x)
  then obtain t where t: "mt_rep m t" "packed_tree t" "tree_keys packed_key t = S" by blast
  obtain b t' where del: "bt_delete packed_less x t = (b, t')" by (cases "bt_delete packed_less x t")
  have "length (bt_items t) < 2 ^ 32" using packed_size(1)[OF t(2)] t(3) mt_history_delete by simp
  from delete_rep[OF t(1) packed_size(2)[OF t(2)] this, of packed_less x]
  have "mt_rep (snd (mt_delete packed_less x m)) t'" by (simp add: del)
  then show ?case using packed.delete_ordered(1,3)[OF t(2) mt_history_delete.hyps(3) del] t(3) by blast
next
  case (mt_history_clear m S destroyed m')
  then obtain t where t: "mt_rep m t" "packed_tree t" "tree_keys packed_key t = S" by blast
  have "length (bt_items t) < 2 ^ 32" using packed_size(1)[OF t(2)] t(3) mt_history_clear by simp
  from clear_rep[OF t(1) packed_size(2)[OF t(2)] this] have "mt_rep m' (bt_clear t)" using mt_history_clear.hyps(3) by auto
  moreover have "packed_tree (bt_clear t)" "tree_keys packed_key (bt_clear t) = {}"
    using packed_size(2)[OF t(2)] by (simp_all add: ordered_tree_def ascending_def tree_keys_def)
  ultimately show ?case by blast
qed

text \<open>A tree with a root has items.\<close>

lemma root_items: "bt_ok t \<Longrightarrow> bt_root t = Some r \<Longrightarrow> bt_items t \<noteq> []"
proof -
  assume "bt_ok t" "bt_root t = Some r"
  then obtain h where "tree_ok h r" "bt_items t = inorder r" by (auto simp: bt_ok_def bt_items_def)
  then have r: "node_ok h 0 r" "node_keys r \<noteq> []" "bt_items t = inorder r" by (auto simp: tree_ok_def root_ok_def num_items_def)
  have "set (node_keys r) \<subseteq> set (inorder r)"
    using keys_in_weave[of "parts r" "node_keys r"] length_parts[OF r(1)] by (auto simp: inorder_weave num_items_def)
  then show ?thesis using r(2,3) by auto
qed

section \<open>Properties\<close>

text \<open>Blocks \<open>operator new\<close> may return: \<open>k\<close> of them from an address on.\<close>

definition sample_news :: "nat \<Rightarrow> nat \<Rightarrow> news" where
  "sample_news a k = map (\<lambda>i. (of_nat (a + i), replicate 256 0)) [0..<k]"

definition bytes_less :: "str \<Rightarrow> str \<Rightarrow> bool" where
  "bytes_less a b \<longleftrightarrow> hd a < hd b"

definition sample_mem :: "u64 \<Rightarrow> u64 list \<Rightarrow> heap \<Rightarrow> str bptree \<Rightarrow> mem_tree" where
  "sample_mem root live h t =
     \<lparr>mt_root = root, mt_count = bt_count t, mt_height = bt_height t, mt_nodes = bt_nodes t, mt_heap = h, mt_live = live\<rparr>"

text \<open>A full leaf, and a root with two leaves of seven items.\<close>

definition full_leaf :: "str bptree" where
  "full_leaf = \<lparr>bt_root = Some (Leaf (map sample_key [0..<15])), bt_count = 15, bt_height = 1, bt_nodes = 1\<rparr>"

definition two_leaves :: "str bptree" where
  "two_leaves = \<lparr>bt_root = Some (erase (sample_tree 7 7)), bt_count = 15, bt_height = 2, bt_nodes = 3\<rparr>"

lemma full_leaf_rep: "mt_rep (sample_mem 2 [2] (sample_heap 15 0) full_leaf) full_leaf"
proof -
  have "stored (sample_heap 15 0) (PNode 2 True (map sample_key [0..<15]) [] 0)"
    using sample_stored[of 15 0] by (simp add: stored_def sample_tree_def)
  then have "closed (sample_heap 15 0) 2 {#2#} (Leaf (map sample_key [0..<15]))"
    unfolding closed_def by (intro exI[of _ "PNode 2 True (map sample_key [0..<15]) [] 0"]) simp
  then show ?thesis by (simp add: mt_rep_def rooted_def sample_mem_def full_leaf_def)
qed

lemma two_leaves_rep: "mt_rep (sample_mem 1 [1, 2, 3] (sample_heap 7 7) two_leaves) two_leaves"
proof -
  have "closed (sample_heap 7 7) 1 {#1, 2, 3#} (erase (sample_tree 7 7))"
    unfolding closed_def using sample_stored[of 7 7] by (intro exI[of _ "sample_tree 7 7"]) (simp add: sample_tree_def)
  then show ?thesis by (simp add: mt_rep_def rooted_def sample_mem_def two_leaves_def)
qed

lemma sample_trees_ok:
  "bt_ok full_leaf" "length (bt_items full_leaf) < 2 ^ 32" "bt_ok two_leaves" "length (bt_items two_leaves) < 2 ^ 32"
proof -
  have "tree_ok 0 (Leaf (map sample_key [0..<15]))" by (simp add: tree_ok_def root_ok_def num_items_def max_items_def)
  then show "bt_ok full_leaf" "length (bt_items full_leaf) < 2 ^ 32"
    by (auto simp: bt_ok_def bt_items_def full_leaf_def intro!: exI[of _ 0])
  have "tree_ok 1 (erase (sample_tree 7 7))"
    by (simp add: tree_ok_def root_ok_def sample_tree_def num_items_def max_items_def filled_def)
  then show "bt_ok two_leaves" "length (bt_items two_leaves) < 2 ^ 32"
    by (auto simp: bt_ok_def bt_items_def two_leaves_def sample_tree_def intro!: exI[of _ 1])
qed

lemma sample_runs:
  "fst (bt_insert bytes_less (sample_key 20) full_leaf)" "bt_height (snd (bt_insert bytes_less (sample_key 20) full_leaf)) = 2"
  "bt_nodes (snd (bt_insert bytes_less (sample_key 20) full_leaf)) = 3"
  "fst (bt_delete bytes_less (sample_key 3) two_leaves)" "bt_nodes (snd (bt_delete bytes_less (sample_key 3) two_leaves)) = 1"
  by code_simp+

text \<open>
  C8. Insert on the heap is Insert on nodes.  On a tree whose blocks are exactly the live ones, with sixteen new blocks that are not live,
  the call answers the same for any comparison, and the blocks then live store the tree the call on nodes builds, with its count, height
  and number of nodes: every path of the code (into a leaf, after rebalancing a leaf or an inner node, after splits up to a new root)
  writes the right bytes and links the right pointers, the path never overruns its records, and no block is lost or used twice.
\<close>
theorem insert_in_memory:
  assumes "mt_rep m t" "bt_ok t" "length (bt_items t) < 2 ^ 32" "fresh news (set (mt_live m))" "kMaxDepth \<le> length news" "length x = 16"
  shows "fst (mt_insert lt x news m) = fst (bt_insert lt x t) \<and> mt_rep (snd (mt_insert lt x news m)) (snd (bt_insert lt x t)) \<and>
    set (mt_live (snd (mt_insert lt x news m))) \<subseteq> set (mt_live m) \<union> set (map fst news)"
  by (rule insert_rep[OF assms])

theorem insert_in_memory_witness:
  "fst (mt_insert bytes_less (sample_key 20) (sample_news 10 16) (sample_mem 2 [2] (sample_heap 15 0) full_leaf)) \<and>
   mt_height (snd (mt_insert bytes_less (sample_key 20) (sample_news 10 16) (sample_mem 2 [2] (sample_heap 15 0) full_leaf))) = 2"
proof -
  have "fresh (sample_news 10 16) (set (mt_live (sample_mem 2 [2] (sample_heap 15 0) full_leaf)))"
    by (simp add: fresh_def sample_news_def sample_mem_def upt_rec comp_def)
  moreover have "kMaxDepth \<le> length (sample_news 10 16)" "length (sample_key 20) = 16"
    by (simp_all add: kMaxDepth_def sample_news_def sample_key_def)
  ultimately show ?thesis
    using insert_in_memory[OF full_leaf_rep sample_trees_ok(1,2), of "sample_news 10 16" "sample_key 20" bytes_less] sample_runs(1,2)
    by (simp add: mt_rep_def)
qed

text \<open>
  C9. Delete on the heap is Delete on nodes.  The call answers the same and leaves the tree of the call on nodes in exactly the blocks
  that are then live, all of them live before: the key goes from its leaf, or the greatest key before a separator takes its place;
  children are refilled or merged up to the root, each retired block is given back once and no other is, and an empty root goes.
\<close>
theorem delete_in_memory:
  assumes "mt_rep m t" "bt_ok t" "length (bt_items t) < 2 ^ 32"
  shows "fst (mt_delete lt x m) = fst (bt_delete lt x t) \<and> mt_rep (snd (mt_delete lt x m)) (snd (bt_delete lt x t)) \<and>
    set (mt_live (snd (mt_delete lt x m))) \<subseteq> set (mt_live m)"
  by (rule delete_rep[OF assms])

theorem delete_in_memory_witness:
  "fst (mt_delete bytes_less (sample_key 3) (sample_mem 1 [1, 2, 3] (sample_heap 7 7) two_leaves)) \<and>
   mt_nodes (snd (mt_delete bytes_less (sample_key 3) (sample_mem 1 [1, 2, 3] (sample_heap 7 7) two_leaves))) = 1"
  using delete_in_memory[OF two_leaves_rep sample_trees_ok(3,4), of bytes_less "sample_key 3"] sample_runs(4,5)
  by (simp add: mt_rep_def)

text \<open>
  C26. Clear on the heap.  On a tree whose blocks are exactly the live ones the call returns: its loop ends, the path never overruns its
  records, and no block is read or destroyed after it was given back.  The blocks it destroys are exactly the live ones, each once; none
  is live afterwards, the number of nodes is zero, and the tree is the one Clear on nodes leaves, without root, count and height.
\<close>
theorem clear_in_memory:
  assumes "mt_rep m t" "bt_ok t" "length (bt_items t) < 2 ^ 32"
  shows "\<exists>destroyed m'. mt_clear m = Some (destroyed, m') \<and> distinct destroyed \<and> set destroyed = set (mt_live m) \<and>
    length destroyed = length (mt_live m) \<and> mt_live m' = [] \<and> mt_nodes m' = 0 \<and> mt_root m' = 0 \<and> mt_count m' = 0 \<and> mt_height m' = 0 \<and>
    mt_rep m' (bt_clear t)"
proof -
  obtain destroyed m' where c: "mt_clear m = Some (destroyed, m')" "mset destroyed = mset (mt_live m)" "mt_live m' = []" "mt_nodes m' = 0"
      "mt_rep m' (bt_clear t)" using clear_rep[OF assms] by blast
  have "distinct (mt_live m)" using assms(1) rooted_distinct by (auto simp: mt_rep_def)
  then have "distinct destroyed" using distinct_mset c(2) by metis
  moreover have "bt_root (bt_clear t) = None \<and> bt_count (bt_clear t) = 0 \<and> bt_height (bt_clear t) = 0"
    using assms(2) by (auto simp: bt_clear_def bt_ok_def bt_items_def split: option.splits prod.splits)
  ultimately show ?thesis
    using c mset_eq_setD[OF c(2)] mset_eq_length[OF c(2)] by (auto simp: mt_rep_def rooted_def)
qed

theorem clear_in_memory_witness:
  "\<exists>destroyed m'. mt_clear (sample_mem 1 [1, 2, 3] (sample_heap 7 7) two_leaves) = Some (destroyed, m') \<and> distinct destroyed \<and>
    set destroyed = {1, 2, 3} \<and> mt_live m' = [] \<and> mt_nodes m' = 0"
  using clear_in_memory[OF two_leaves_rep sample_trees_ok(3,4)] by (auto simp: sample_mem_def)

text \<open>
  C3. The blocks store an ordered set.  After any history of Insert, Delete and Clear with packed members whose scores are no NaN, while
  there are fewer than 2^32 of them and the allocator offers blocks that are not live, the live blocks are distinct and not null, store a
  well-formed tree whose items have exactly the keys of the set those calls describe, in ascending order, and the members of the tree agree
  with it.  A further Insert or Delete of such a member answers as the set does, Clear gives back every block, and so does Contains answer
  when the set is not empty; on an empty tree Contains has no root to search, which the code asserts away, here \<open>None\<close>.
\<close>
theorem memory_refines_set:
  assumes "mt_history m S" "card S < 2 ^ 32"
  shows "(\<exists>t. mt_rep m t \<and> bt_ok t \<and> map packed_key (bt_items t) = sorted_list_of_set S) \<and>
    distinct (mt_live m) \<and> 0 \<notin> set (mt_live m) \<and> mt_nodes m = of_nat (length (mt_live m)) \<and> mt_count m = of_nat (card S) \<and>
    (\<exists>destroyed m'. mt_clear m = Some (destroyed, m') \<and> mset destroyed = mset (mt_live m) \<and> mt_live m' = []) \<and>
    (packed_proper x \<longrightarrow>
       mt_contains packed_less x m = (if S = {} then None else Some (packed_key x \<in> S)) \<and>
       (fresh news (set (mt_live m)) \<and> kMaxDepth \<le> length news \<longrightarrow> fst (mt_insert packed_less x news m) = (packed_key x \<notin> S)) \<and>
       fst (mt_delete packed_less x m) = (packed_key x \<in> S))"
proof -
  obtain t where t: "mt_rep m t" "packed_tree t" "tree_keys packed_key t = S" using history_rep[OF assms(1)] by blast
  note p = packed_size[OF t(2)]
  have size: "length (bt_items t) < 2 ^ 32" using assms(2) p(1) t(3) by simp
  have members: "distinct (mt_live m)" "0 \<notin> set (mt_live m)" "mt_nodes m = of_nat (length (mt_live m))" "mt_count m = of_nat (card S)"
    using t p(1,2) rooted_distinct[of m "bt_root t"] by (simp_all add: mt_rep_def bt_ok_def)
  have "mt_contains packed_less x m = (if S = {} then None else Some (packed_key x \<in> S))" if x: "packed_proper x"
  proof (cases "bt_root t")
    case None
    then have "S = {}" "mt_root m = 0" using t(1,3) by (auto simp: tree_keys_def bt_items_def mt_rep_def rooted_def)
    then show ?thesis by (simp add: mt_contains_def)
  next
    case (Some r)
    then have "S \<noteq> {}" using root_items[OF p(2)] t(3) by (auto simp: tree_keys_def)
    then show ?thesis using contains_rep[OF t(1) p(2) size] packed.contains_ordered[OF t(2) x] Some t(3) by simp
  qed
  moreover have "fst (mt_insert packed_less x news m) = (packed_key x \<notin> S)"
    if "packed_proper x" "fresh news (set (mt_live m))" "kMaxDepth \<le> length news"
    using insert_rep[OF t(1) p(2) size that(2,3), of x packed_less] packed.insert_ordered(2)[OF t(2) that(1)] t(3) that(1)
    by (cases "bt_insert packed_less x t") (simp add: packed_proper_def)
  moreover have "fst (mt_delete packed_less x m) = (packed_key x \<in> S)" if "packed_proper x"
    using delete_rep[OF t(1) p(2) size, of packed_less x] packed.delete_ordered(2)[OF t(2) that] t(3)
    by (cases "bt_delete packed_less x t") simp
  ultimately show ?thesis using t(1) p(2,3) t(3) members clear_rep[OF t(1) p(2) size] by blast
qed

text \<open>Two members are inserted and the first is deleted; the second \<open>Insert\<close> is offered blocks that were never live.\<close>

abbreviation member_a :: str where "member_a \<equiv> pack_member (scored_member 1 7)"
abbreviation member_b :: str where "member_b \<equiv> pack_member (scored_member 2 9)"

definition sample_history :: mem_tree where
  "sample_history = snd (mt_delete packed_less member_a
     (snd (mt_insert packed_less member_b (sample_news 20 16) (snd (mt_insert packed_less member_a (sample_news 1 16) (mt_new (\<lambda>_. [])))))))"

lemma sample_packed: "packed_proper member_a" "packed_proper member_b" "packed_key member_a = (1, 7)" "packed_key member_b = (2, 9)"
proof -
  have "scored_proper (scored_member 1 7)" "scored_proper (scored_member 2 9)" "scored_key (scored_member 1 7) = (1, 7)"
    "scored_key (scored_member 2 9) = (2, 9)" by code_simp+
  then show "packed_proper member_a" "packed_proper member_b" "packed_key member_a = (1, 7)" "packed_key member_b = (2, 9)"
    by (simp_all add: packed_proper_def packed_key_def unpack_member)
qed

lemma sample_history: "mt_history sample_history {(2, 9)}"
proof -
  let ?m = "snd (mt_insert packed_less member_a (sample_news 1 16) (mt_new (\<lambda>_. [])))"
  have first: "fresh (sample_news 1 16) (set (mt_live (mt_new (\<lambda>_. []))))" "kMaxDepth \<le> length (sample_news 1 16)"
    by (simp_all add: fresh_def sample_news_def mt_new_def kMaxDepth_def upt_rec comp_def)
  have len: "length member_a = 16" by (rule unpack_member(2))
  have m: "mt_history ?m {(1, 7)}"
    using mt_history_insert[OF mt_history_new _ sample_packed(1) first] by (simp add: sample_packed(3))
  have "set (mt_live ?m) \<subseteq> set (map fst (sample_news 1 16))"
    using insert_rep[OF mt_rep_new _ _ first len, of packed_less] by (simp add: mt_new_def)
  moreover have "set (map fst (sample_news 20 16)) \<inter> set (map fst (sample_news 1 16)) = {}"
    by (simp add: sample_news_def upt_rec)
  moreover have "distinct (map fst (sample_news 20 16)) \<and> 0 \<notin> set (map fst (sample_news 20 16)) \<and> (\<forall>b \<in> set (sample_news 20 16). length (snd b) = 256)"
    by (simp add: sample_news_def upt_rec comp_def)
  ultimately have "fresh (sample_news 20 16) (set (mt_live ?m))" unfolding fresh_def by blast
  moreover have "kMaxDepth \<le> length (sample_news 20 16)" by (simp add: sample_news_def kMaxDepth_def)
  ultimately have "mt_history (snd (mt_insert packed_less member_b (sample_news 20 16) ?m)) (insert (2, 9) {(1, 7)})"
    using mt_history_insert[OF m _ sample_packed(2)] by (simp add: sample_packed(4))
  from mt_history_delete[OF this _ sample_packed(1)] show ?thesis
    by (simp add: sample_history_def sample_packed(3) insert_Diff_if)
qed

theorem memory_refines_set_witness:
  "fst (mt_delete packed_less member_b sample_history) \<and> \<not> fst (mt_delete packed_less member_a sample_history) \<and> mt_count sample_history = 1"
  using memory_refines_set[OF sample_history, of member_b] memory_refines_set[OF sample_history, of member_a] sample_packed by simp

end
