(* ===== verification/Eviction_2Q.thy ===== *)
theory Eviction_2Q
  imports Dash_Map
begin

text \<open>
  \<^verbatim>\<open>src/eviction_2q.{hpp,cpp}\<close>: the two queues from which the engine takes eviction victims, a FIFO of
  keys seen once and an LRU of keys seen again, with a map from a key to the queue it is in.  The one
  floating-point computation, \<^verbatim>\<open>static_cast<size_t>(total * (1.0 - probationary_ratio_))\<close>, is the
  parameter \<open>mp\<close> (the number of protected keys allowed among \<open>total\<close>); nothing is assumed about it
  except where a lemma says so.  Every public operation holds the mutex, so it is one step.
\<close>

section \<open>The interface: a source of victims\<close>

locale victim_source =
  fixes invar :: "'q \<Rightarrow> bool"
    and order :: "'q \<Rightarrow> 'k list"
    and access :: "'k \<Rightarrow> 'q \<Rightarrow> 'q"
    and forget :: "'k \<Rightarrow> 'q \<Rightarrow> 'q"
    and victim :: "'q \<Rightarrow> 'k option \<times> 'q"
  assumes order_distinct: "invar q \<Longrightarrow> distinct (order q)"
    and invar_access: "invar q \<Longrightarrow> invar (access k q)"
    and access_tracks: "invar q \<Longrightarrow> set (order (access k q)) = insert k (set (order q))"
    and access_again: "invar q \<Longrightarrow> k \<in> set (order q) \<Longrightarrow> order (access k q) = remove1 k (order q) @ [k]"
    and invar_forget: "invar q \<Longrightarrow> invar (forget k q)"
    and order_forget: "invar q \<Longrightarrow> order (forget k q) = remove1 k (order q)"
    and invar_victim: "invar q \<Longrightarrow> invar (snd (victim q))"
    and order_victim: "invar q \<Longrightarrow> order (snd (victim q)) = tl (order q)"
    and victim_first: "invar q \<Longrightarrow> fst (victim q) = (if order q = [] then None else Some (hd (order q)))"
begin

primrec victims :: "nat \<Rightarrow> 'q \<Rightarrow> 'k option list" where
  "victims 0 q = []"
| "victims (Suc n) q = fst (victim q) # victims n (snd (victim q))"

lemma victims_order:
  "invar q \<Longrightarrow> n \<le> length (order q) \<Longrightarrow> victims n q = map Some (take n (order q))"
proof (induction n arbitrary: q)
  case (Suc n)
  then obtain x xs where "order q = x # xs" by (cases "order q") auto
  then show ?case
    using Suc by (simp add: invar_victim order_victim victim_first)
qed simp

lemma victims_exhausted: "invar q \<Longrightarrow> order q = [] \<Longrightarrow> fst (victim q) = None"
  by (simp add: victim_first)

lemma forget_not_victim:
  assumes "invar q"
  shows "fst (victim (forget k q)) \<noteq> Some k"
proof
  assume "fst (victim (forget k q)) = Some k"
  then have "order (forget k q) \<noteq> []" and "hd (order (forget k q)) = k"
    using assms by (auto simp: victim_first invar_forget split: if_splits)
  then have "k \<in> set (order (forget k q))" by (metis hd_in_set)
  then show False
    using assms order_distinct[OF assms] by (simp add: order_forget)
qed

text \<open>An access to a tracked key makes it the last of the tracked keys to go.\<close>

lemma access_last_victim:
  assumes "invar q" and "k \<in> set (order q)" and "n < length (order q)"
  shows "Some k \<notin> set (victims n (access k q))"
proof -
  have len: "length (order (access k q)) = length (order q)"
    using assms length_pos_if_in_set[OF assms(2)] by (simp add: access_again length_remove1)
  have "take n (order (access k q)) = take n (remove1 k (order q))"
    using assms by (simp add: access_again length_remove1)
  moreover have "k \<notin> set (take n (remove1 k (order q)))"
    using order_distinct[OF assms(1)] by (auto dest: in_set_takeD)
  ultimately show ?thesis
    using assms len by (simp add: victims_order invar_access image_iff)
qed

end

section \<open>\<^verbatim>\<open>Eviction2Q\<close>\<close>

datatype q_state = kProbationary | kProtected

record 'k eviction2q =
  probationary_queue :: "'k list"
  protected_queue :: "'k list"
  key_state :: "('k, q_state) shard"

definition eq_new :: "'k eviction2q" where
  "eq_new = \<lparr>probationary_queue = [], protected_queue = [], key_state = []\<rparr>"

text \<open>The demotion loop of \<^verbatim>\<open>promote_to_protected\<close>, on the two queues and the map.\<close>

fun demote_loop :: "nat \<Rightarrow> 'k list \<Rightarrow> 'k list \<Rightarrow> ('k, q_state) shard \<Rightarrow> 'k eviction2q" where
  "demote_loop max_protected prob [] ks =
     \<lparr>probationary_queue = prob, protected_queue = [], key_state = ks\<rparr>"
| "demote_loop max_protected prob (demoted # prot) ks =
     (if length (demoted # prot) > max_protected
      then demote_loop max_protected (prob @ [demoted]) prot (AList.update demoted kProbationary ks)
      else \<lparr>probationary_queue = prob, protected_queue = demoted # prot, key_state = ks\<rparr>)"

definition promote_to_protected :: "(nat \<Rightarrow> nat) \<Rightarrow> 'k \<Rightarrow> 'k eviction2q \<Rightarrow> 'k eviction2q" where
  "promote_to_protected mp key q =
     (let prob = remove1 key (probationary_queue q);
          total = length prob + length (protected_queue q);
          q' = demote_loop (mp total) prob (protected_queue q) (key_state q)
      in q'\<lparr>protected_queue := protected_queue q' @ [key],
            key_state := AList.update key kProtected (key_state q')\<rparr>)"

text \<open>\<^verbatim>\<open>RecordAccess(key, is_new)\<close>: the flag is not used.\<close>

definition eq_record_access :: "(nat \<Rightarrow> nat) \<Rightarrow> 'k \<Rightarrow> bool \<Rightarrow> 'k eviction2q \<Rightarrow> 'k eviction2q" where
  "eq_record_access mp key is_new q =
     (case map_of (key_state q) key of
        None \<Rightarrow> q\<lparr>probationary_queue := probationary_queue q @ [key],
                  key_state := AList.update key kProbationary (key_state q)\<rparr>
      | Some kProbationary \<Rightarrow> promote_to_protected mp key q
      | Some kProtected \<Rightarrow> q\<lparr>protected_queue := remove1 key (protected_queue q) @ [key]\<rparr>)"

definition eq_remove_key :: "'k \<Rightarrow> 'k eviction2q \<Rightarrow> 'k eviction2q" where
  "eq_remove_key key q =
     (case map_of (key_state q) key of
        None \<Rightarrow> q
      | Some kProbationary \<Rightarrow>
          q\<lparr>probationary_queue := remove1 key (probationary_queue q),
            key_state := AList.delete key (key_state q)\<rparr>
      | Some kProtected \<Rightarrow>
          q\<lparr>protected_queue := remove1 key (protected_queue q),
            key_state := AList.delete key (key_state q)\<rparr>)"

definition eq_get_victim :: "'k eviction2q \<Rightarrow> 'k option \<times> 'k eviction2q" where
  "eq_get_victim q =
     (case probationary_queue q of
        victim # rest \<Rightarrow>
          (Some victim, q\<lparr>probationary_queue := rest, key_state := AList.delete victim (key_state q)\<rparr>)
      | [] \<Rightarrow>
          (case protected_queue q of
             victim # rest \<Rightarrow>
               (Some victim, q\<lparr>protected_queue := rest, key_state := AList.delete victim (key_state q)\<rparr>)
           | [] \<Rightarrow> (None, q)))"

definition eq_size :: "'k eviction2q \<Rightarrow> nat" where
  "eq_size q = length (key_state q)"

section \<open>The queues and the map agree\<close>

definition eq_ok :: "'k eviction2q \<Rightarrow> bool" where
  "eq_ok q \<longleftrightarrow>
     distinct (probationary_queue q @ protected_queue q) \<and> shard_ok (key_state q) \<and>
     (\<forall>k. map_of (key_state q) k =
        (if k \<in> set (probationary_queue q) then Some kProbationary
         else if k \<in> set (protected_queue q) then Some kProtected else None))"

text \<open>The order in which keys would be evicted.\<close>

definition eq_order :: "'k eviction2q \<Rightarrow> 'k list" where
  "eq_order q = probationary_queue q @ protected_queue q"

lemma eq_new_ok: "eq_ok eq_new"
  by (simp add: eq_ok_def eq_new_def)

text \<open>
  Demotion never changes the order: it moves the boundary between the queues.  The map may still
  hold a key (the one being promoted) that is in neither queue.
\<close>

definition states_agree :: "'k \<Rightarrow> 'k list \<Rightarrow> 'k list \<Rightarrow> ('k, q_state) shard \<Rightarrow> bool" where
  "states_agree key prob prot ks \<longleftrightarrow>
     (\<forall>k. k \<noteq> key \<longrightarrow> map_of ks k =
        (if k \<in> set prob then Some kProbationary else if k \<in> set prot then Some kProtected else None))"

lemma demote_loop_spec:
  assumes "distinct (prob @ prot)" and "shard_ok ks" and "states_agree key prob prot ks"
    and "key \<notin> set (prob @ prot)"
  shows "eq_order (demote_loop mx prob prot ks) = prob @ prot
    \<and> shard_ok (key_state (demote_loop mx prob prot ks))
    \<and> length (protected_queue (demote_loop mx prob prot ks)) \<le> mx
    \<and> states_agree key (probationary_queue (demote_loop mx prob prot ks))
        (protected_queue (demote_loop mx prob prot ks)) (key_state (demote_loop mx prob prot ks))"
  using assms
proof (induction mx prob prot ks rule: demote_loop.induct)
  case (1 mx prob ks)
  then show ?case by (simp add: eq_order_def)
next
  case (2 mx prob d prot ks)
  show ?case
  proof (cases "length (d # prot) > mx")
    case True
    have "states_agree key (prob @ [d]) prot (AList.update d kProbationary ks)"
      using "2.prems" by (auto simp: states_agree_def)
    with "2.IH"[OF True] "2.prems" True show ?thesis by simp
  next
    case False
    then show ?thesis using "2.prems" by (simp add: eq_order_def)
  qed
qed

lemma promote_spec:
  assumes ok: "eq_ok q" and key: "map_of (key_state q) key = Some kProbationary"
  shows "eq_ok (promote_to_protected mp key q)
    \<and> eq_order (promote_to_protected mp key q) = remove1 key (eq_order q) @ [key]
    \<and> length (protected_queue (promote_to_protected mp key q)) \<le> mp (length (eq_order q) - 1) + 1"
proof -
  have mem: "key \<in> set (probationary_queue q)" "key \<notin> set (protected_queue q)"
    using ok key by (auto simp: eq_ok_def split: if_splits)
  let ?prob = "remove1 key (probationary_queue q)"
  let ?total = "length ?prob + length (protected_queue q)"
  let ?q = "demote_loop (mp ?total) ?prob (protected_queue q) (key_state q)"
  have total: "?total = length (eq_order q) - 1"
  proof -
    have "length ?prob = length (probationary_queue q) - 1" "0 < length (probationary_queue q)"
      using mem(1) by (simp_all add: length_remove1 length_pos_if_in_set del: length_greater_0_conv)
    then show ?thesis unfolding eq_order_def length_append by arith
  qed
  have spec: "eq_order ?q = ?prob @ protected_queue q \<and> shard_ok (key_state ?q)
    \<and> length (protected_queue ?q) \<le> mp ?total
    \<and> states_agree key (probationary_queue ?q) (protected_queue ?q) (key_state ?q)"
    using ok mem by (intro demote_loop_spec) (auto simp: eq_ok_def states_agree_def)
  have notin: "key \<notin> set (eq_order ?q)" and dist: "distinct (eq_order ?q)"
    using spec ok mem by (auto simp: eq_ok_def)
  have order: "remove1 key (eq_order q) = ?prob @ protected_queue q"
    using mem by (simp add: eq_order_def remove1_append)
  define q' where "q' = ?q"
  have res: "promote_to_protected mp key q =
      \<lparr>probationary_queue = probationary_queue q', protected_queue = protected_queue q' @ [key],
       key_state = AList.update key kProtected (key_state q')\<rparr>"
    by (cases q') (simp add: promote_to_protected_def Let_def flip: q'_def)
  have q': "key \<notin> set (probationary_queue q' @ protected_queue q')"
      "distinct (probationary_queue q' @ protected_queue q')"
      "shard_ok (key_state q')" "states_agree key (probationary_queue q') (protected_queue q') (key_state q')"
    using notin dist spec unfolding q'_def[symmetric] eq_order_def[of q'] by blast+
  then have "eq_ok (promote_to_protected mp key q)"
    by (auto simp: res eq_ok_def states_agree_def)
  then show ?thesis
    using spec unfolding q'_def[symmetric] by (simp add: res order total eq_order_def[of "\<lparr>probationary_queue = _, protected_queue = _, key_state = _\<rparr>"] eq_order_def[of q'])
qed

lemma record_access_spec:
  assumes ok: "eq_ok q"
  shows "eq_ok (eq_record_access mp key b q)"
    and "key \<in> set (eq_order q) \<Longrightarrow> eq_order (eq_record_access mp key b q) = remove1 key (eq_order q) @ [key]"
    and "key \<notin> set (eq_order q) \<Longrightarrow> eq_order (eq_record_access mp key b q)
       = probationary_queue q @ key # protected_queue q"
proof -
  have "eq_ok (eq_record_access mp key b q)
    \<and> (key \<in> set (eq_order q) \<longrightarrow> eq_order (eq_record_access mp key b q) = remove1 key (eq_order q) @ [key])
    \<and> (key \<notin> set (eq_order q) \<longrightarrow> eq_order (eq_record_access mp key b q)
       = probationary_queue q @ key # protected_queue q)"
  proof (cases "map_of (key_state q) key")
    case None
    then show ?thesis
      using ok by (auto simp: eq_record_access_def eq_ok_def eq_order_def split: if_splits)
  next
    case (Some st)
    show ?thesis
    proof (cases st)
      case kProbationary
      with Some promote_spec[OF ok, of key mp] show ?thesis
        using ok by (auto simp: eq_record_access_def eq_ok_def eq_order_def split: if_splits)
    next
      case kProtected
      with Some show ?thesis
        using ok by (auto simp: eq_record_access_def eq_ok_def eq_order_def remove1_append split: if_splits)
    qed
  qed
  then show "eq_ok (eq_record_access mp key b q)"
    and "key \<in> set (eq_order q) \<Longrightarrow> eq_order (eq_record_access mp key b q) = remove1 key (eq_order q) @ [key]"
    and "key \<notin> set (eq_order q) \<Longrightarrow> eq_order (eq_record_access mp key b q)
       = probationary_queue q @ key # protected_queue q" by blast+
qed

lemma remove_key_spec:
  assumes "eq_ok q"
  shows "eq_ok (eq_remove_key key q)" and "eq_order (eq_remove_key key q) = remove1 key (eq_order q)"
  using assms
  by (auto simp: eq_remove_key_def eq_ok_def eq_order_def remove1_append remove1_idem
      split: option.splits q_state.splits if_splits)

lemma get_victim_spec:
  assumes "eq_ok q"
  shows "eq_ok (snd (eq_get_victim q))" and "eq_order (snd (eq_get_victim q)) = tl (eq_order q)"
    and "fst (eq_get_victim q) = (if eq_order q = [] then None else Some (hd (eq_order q)))"
  using assms by (auto simp: eq_get_victim_def eq_ok_def eq_order_def split: list.splits)

interpretation eq: victim_source eq_ok eq_order "\<lambda>k. eq_record_access mp k b" eq_remove_key eq_get_victim
  for mp :: "nat \<Rightarrow> nat" and b :: bool
proof unfold_locales
  fix q :: "'k eviction2q" and k
  assume q: "eq_ok q"
  show "distinct (eq_order q)" using q by (simp add: eq_ok_def eq_order_def)
  show "set (eq_order (eq_record_access mp k b q)) = insert k (set (eq_order q))"
  proof (cases "k \<in> set (eq_order q)")
    case True
    moreover have "distinct (eq_order q)" using q by (simp add: eq_ok_def eq_order_def)
    ultimately show ?thesis using q by (auto simp: record_access_spec(2))
  next
    case False
    from record_access_spec(3)[OF q this, of mp b] show ?thesis by (auto simp: eq_order_def[of q])
  qed
qed (auto simp: record_access_spec remove_key_spec get_victim_spec)

lemma eq_size_order:
  assumes "eq_ok q"
  shows "eq_size q = length (eq_order q)"
proof -
  have "dom (map_of (key_state q)) = set (eq_order q)"
    using assms by (auto simp: eq_ok_def eq_order_def split: if_splits)
  then show ?thesis
    using assms dom_map_of_card[of "key_state q"] distinct_card[of "eq_order q"]
    by (simp add: eq_size_def eq_ok_def eq_order_def)
qed

section \<open>Runs of the policy\<close>

datatype 'k eq_call = Access 'k bool | Forget 'k | Victim

fun run_call :: "(nat \<Rightarrow> nat) \<Rightarrow> 'k eq_call \<Rightarrow> 'k eviction2q \<Rightarrow> 'k eviction2q" where
  "run_call mp (Access k b) q = eq_record_access mp k b q"
| "run_call mp (Forget k) q = eq_remove_key k q"
| "run_call mp Victim q = snd (eq_get_victim q)"

lemma eq_call_ok [kv_inv]: "eq_ok q \<Longrightarrow> eq_ok (run_call mp c q)"
  by (cases c) (simp_all add: record_access_spec remove_key_spec get_victim_spec)

lemma eq_calls_ok: "eq_ok q \<Longrightarrow> eq_ok (fold (run_call mp) cs q)"
  by (induction cs arbitrary: q) (simp_all add: eq_call_ok)

text \<open>
  C24. In every state the three operations can reach from an empty policy, the two queues hold each
  tracked key exactly once, the state map says for every key which queue it is in, and \<^verbatim>\<open>Size()\<close> is the
  number of keys queued, whatever the floating-point bound on protected keys computes.
\<close>

theorem eq_reachable_consistent:
  "eq_ok (fold (run_call mp) cs eq_new)
   \<and> eq_size (fold (run_call mp) cs eq_new) = length (eq_order (fold (run_call mp) cs eq_new))"
  using eq_calls_ok[OF eq_new_ok, of mp cs] by (simp add: eq_size_order)

text \<open>
  Demotion is invisible to eviction: an access to a tracked key, in either queue and however many
  keys it demotes, moves that key to the very end of the eviction order and leaves the order of the
  others; so it is never among the victims taken while another tracked key is left.
\<close>

theorem eq_access_evicted_last:
  assumes "eq_ok q" and "key \<in> set (eq_order q)" and "n < eq_size q"
  shows "eq_order (eq_record_access mp key b q) = remove1 key (eq_order q) @ [key]
    \<and> Some key \<notin> set (eq.victims n (eq_record_access mp key b q))
    \<and> eq.victims (eq_size q) (eq_record_access mp key b q) = map Some (remove1 key (eq_order q) @ [key])"
proof -
  have "length (remove1 key (eq_order q) @ [key]) = eq_size q"
    using assms length_pos_if_in_set[OF assms(2)] by (simp add: eq_size_order length_remove1)
  then show ?thesis
    using assms eq.access_last_victim[of q key n mp b]
      eq.victims_order[of "eq_record_access mp key b q" "eq_size q"]
    by (simp add: eq_size_order record_access_spec)
qed

theorem eq_access_evicted_last_witness:
  "eq_order (eq_record_access (\<lambda>n. 0) (2 :: nat) False
     (fold (run_call (\<lambda>n. 0)) [Access 1 True, Access 2 True, Access 1 False] eq_new)) = [1, 2]"
proof -
  let ?q = "fold (run_call (\<lambda>n. 0)) [Access (1 :: nat) True, Access 2 True, Access 1 False] eq_new"
  have "eq_ok ?q" by (rule eq_calls_ok[OF eq_new_ok])
  moreover have "eq_order ?q = [2, 1]"
    by (simp add: eq_new_def eq_record_access_def promote_to_protected_def eq_order_def)
  ultimately show ?thesis
    using eq_access_evicted_last[of ?q 2 1 "\<lambda>n. 0" False] by (simp add: eq_size_order)
qed

text \<open>
  The protected queue stays within its share: promoting a key leaves at most one more protected
  key than the bound computed for the other tracked keys, and no other operation makes it longer.
\<close>

theorem eq_protected_bound:
  assumes "eq_ok q"
  shows "length (protected_queue (eq_record_access mp key b q))
      \<le> max (length (protected_queue q)) (mp (eq_size q - 1) + 1)
    \<and> length (protected_queue (eq_remove_key key q)) \<le> length (protected_queue q)
    \<and> length (protected_queue (snd (eq_get_victim q))) \<le> length (protected_queue q)"
proof -
  have "length (protected_queue (eq_record_access mp key b q))
      \<le> max (length (protected_queue q)) (mp (eq_size q - 1) + 1)"
  proof (cases "map_of (key_state q) key = Some kProbationary")
    case True
    then show ?thesis
      using promote_spec[OF assms True, of mp] assms by (simp add: eq_record_access_def eq_size_order max_def)
  next
    case False
    then show ?thesis
      using assms length_remove1[of key "protected_queue q"]
      by (auto simp: eq_record_access_def eq_ok_def length_pos_if_in_set
          split: option.splits q_state.splits if_splits)
  qed
  then show ?thesis
    by (auto simp: eq_remove_key_def eq_get_victim_def length_remove1
        split: option.splits q_state.splits list.splits)
qed

theorem eq_protected_bound_witness:
  "length (protected_queue (eq_record_access (\<lambda>n. 0) (1 :: nat) False eq_new)) \<le> 1"
  using eq_protected_bound[OF eq_new_ok, of "\<lambda>n. 0" "1 :: nat" False] by (simp add: eq_new_def)

end
