(* ===== verification/Key_Metadata.thy ===== *)
theory Key_Metadata
  imports Dash_Map
begin

text \<open>
  \<^verbatim>\<open>src/metadata.hpp\<close>: what the engine knows of each key (type, expiry, version, access statistics)
  and the manager that keeps it in a \<^verbatim>\<open>DashMap\<close>.  The clock, \<^verbatim>\<open>system_clock::now()\<close> in milliseconds,
  is the argument \<open>now\<close> of every operation that reads it; a call reads it once (the code may read it
  two or three times within a call, which differs only when the millisecond changes in between).
  Expiry times are \<^verbatim>\<open>int64_t\<close> values that are only compared and subtracted, kept as \<open>int\<close>; the
  version, the access time and the LFU counter are words of their width, since they wrap.
\<close>

section \<open>\<^verbatim>\<open>KeyMetadata\<close>\<close>

datatype key_type = kNone | kBytes | kZSet | kList | kHash | kSet | kStream | kJson | kVector

record key_metadata =
  km_type :: key_type
  expire_time_ms :: "int option"
  version :: u64
  access_time_ms :: u32
  lfu_counter :: byte

definition km_new :: "key_type \<Rightarrow> key_metadata" where
  "km_new t = \<lparr>km_type = t, expire_time_ms = None, version = 0, access_time_ms = 0, lfu_counter = 0\<rparr>"

definition is_expired :: "int \<Rightarrow> key_metadata \<Rightarrow> bool" where
  "is_expired now md = (case expire_time_ms md of None \<Rightarrow> False | Some t \<Rightarrow> t > 0 \<and> t < now)"

definition km_set_expire_ms :: "int \<Rightarrow> key_metadata \<Rightarrow> key_metadata" where
  "km_set_expire_ms ms md = (if ms \<le> 0 then md\<lparr>expire_time_ms := None\<rparr> else md\<lparr>expire_time_ms := Some ms\<rparr>)"

definition km_set_expire_seconds :: "int \<Rightarrow> key_metadata \<Rightarrow> key_metadata" where
  "km_set_expire_seconds seconds md = km_set_expire_ms (seconds * 1000) md"

definition km_get_ttl_ms :: "int \<Rightarrow> key_metadata \<Rightarrow> int option" where
  "km_get_ttl_ms now md =
     (case expire_time_ms md of
        None \<Rightarrow> None
      | Some t \<Rightarrow> if t \<le> 0 \<or> t \<le> now then None else Some (t - now))"

definition km_get_ttl_seconds :: "int \<Rightarrow> key_metadata \<Rightarrow> int option" where
  "km_get_ttl_seconds now md = map_option (\<lambda>ms. ms div 1000) (km_get_ttl_ms now md)"

text \<open>
  \<^verbatim>\<open>UpdateAccess\<close>: the counter is incremented as an \<^verbatim>\<open>int\<close>, cast to \<^verbatim>\<open>uint8_t\<close> and only then compared
  with 255.
\<close>

definition update_access :: "int \<Rightarrow> key_metadata \<Rightarrow> key_metadata" where
  "update_access now md =
     md\<lparr>access_time_ms := word_of_int (now AND 0xFFFFFF),
        lfu_counter := min (lfu_counter md + 1) 255\<rparr>"

definition reset_lfu_counter :: "key_metadata \<Rightarrow> key_metadata" where
  "reset_lfu_counter md = md\<lparr>lfu_counter := drop_bit 1 (lfu_counter md)\<rparr>"

section \<open>\<^verbatim>\<open>KeyMetadataManager\<close>\<close>

type_synonym 'k meta_map = "('k, key_metadata) dashmap"

definition mm_new :: "'k meta_map" where
  "mm_new = dm_new 16"

definition register_key :: "('k \<Rightarrow> u64) \<Rightarrow> 'k \<Rightarrow> key_type \<Rightarrow> 'k meta_map \<Rightarrow> 'k meta_map" where
  "register_key h key t m =
     (let new_version = (case dm_get h key m of Some existing \<Rightarrow> version existing + 1 | None \<Rightarrow> 1)
      in snd (dm_insert h key ((km_new t)\<lparr>version := new_version\<rparr>) m))"

definition unregister_key :: "('k \<Rightarrow> u64) \<Rightarrow> 'k \<Rightarrow> 'k meta_map \<Rightarrow> 'k meta_map" where
  "unregister_key h key m = snd (dm_remove h key m)"

definition is_valid :: "('k \<Rightarrow> u64) \<Rightarrow> int \<Rightarrow> 'k \<Rightarrow> 'k meta_map \<Rightarrow> bool \<times> 'k meta_map" where
  "is_valid h now key m =
     (case dm_get h key m of
        None \<Rightarrow> (False, m)
      | Some md \<Rightarrow> if is_expired now md then (False, snd (dm_remove h key m)) else (True, m))"

definition get_key_type :: "('k \<Rightarrow> u64) \<Rightarrow> int \<Rightarrow> 'k \<Rightarrow> 'k meta_map \<Rightarrow> key_type option \<times> 'k meta_map" where
  "get_key_type h now key m =
     (case dm_get h key m of
        None \<Rightarrow> (None, m)
      | Some md \<Rightarrow> if is_expired now md then (None, snd (dm_remove h key m)) else (Some (km_type md), m))"

definition mm_set_expire_ms :: "('k \<Rightarrow> u64) \<Rightarrow> 'k \<Rightarrow> int \<Rightarrow> 'k meta_map \<Rightarrow> bool \<times> 'k meta_map" where
  "mm_set_expire_ms h key t m =
     (case dm_get h key m of
        None \<Rightarrow> (False, m)
      | Some md \<Rightarrow> (True, snd (dm_insert h key (km_set_expire_ms t md) m)))"

definition mm_set_expire_seconds :: "('k \<Rightarrow> u64) \<Rightarrow> int \<Rightarrow> 'k \<Rightarrow> int \<Rightarrow> 'k meta_map \<Rightarrow> bool \<times> 'k meta_map" where
  "mm_set_expire_seconds h now key seconds m = mm_set_expire_ms h key (now + seconds * 1000) m"

definition get_ttl_ms :: "('k \<Rightarrow> u64) \<Rightarrow> int \<Rightarrow> 'k \<Rightarrow> 'k meta_map \<Rightarrow> int" where
  "get_ttl_ms h now key m =
     (case dm_get h key m of
        None \<Rightarrow> -2
      | Some md \<Rightarrow>
          if is_expired now md then -2
          else if expire_time_ms md = None then -1
          else (case km_get_ttl_ms now md of None \<Rightarrow> -1 | Some ms \<Rightarrow> ms))"

definition get_ttl_seconds :: "('k \<Rightarrow> u64) \<Rightarrow> int \<Rightarrow> 'k \<Rightarrow> 'k meta_map \<Rightarrow> int" where
  "get_ttl_seconds h now key m =
     (let ttl_ms = get_ttl_ms h now key m in if ttl_ms < 0 then ttl_ms else ttl_ms div 1000)"

definition get_expire_time_ms :: "('k \<Rightarrow> u64) \<Rightarrow> int \<Rightarrow> 'k \<Rightarrow> 'k meta_map \<Rightarrow> int option" where
  "get_expire_time_ms h now key m =
     (case dm_get h key m of
        None \<Rightarrow> None
      | Some md \<Rightarrow> if is_expired now md then None else expire_time_ms md)"

definition persist :: "('k \<Rightarrow> u64) \<Rightarrow> 'k \<Rightarrow> 'k meta_map \<Rightarrow> bool \<times> 'k meta_map" where
  "persist h key m =
     (case dm_get h key m of
        None \<Rightarrow> (False, m)
      | Some md \<Rightarrow> (True, snd (dm_insert h key (md\<lparr>expire_time_ms := None\<rparr>) m)))"

definition get_all_keys :: "('k list \<Rightarrow> 'k list) \<Rightarrow> 'k meta_map \<Rightarrow> 'k list" where
  "get_all_keys ord m = dm_all_keys ord m"

definition get_key_version :: "('k \<Rightarrow> u64) \<Rightarrow> 'k \<Rightarrow> 'k meta_map \<Rightarrow> u64" where
  "get_key_version h key m = (case dm_get h key m of None \<Rightarrow> 0 | Some md \<Rightarrow> version md)"

definition increment_key_version :: "('k \<Rightarrow> u64) \<Rightarrow> 'k \<Rightarrow> 'k meta_map \<Rightarrow> 'k meta_map" where
  "increment_key_version h key m =
     (case dm_get h key m of
        None \<Rightarrow> m
      | Some md \<Rightarrow> snd (dm_insert h key (md\<lparr>version := version md + 1\<rparr>) m))"

definition mm_clear :: "'k meta_map \<Rightarrow> 'k meta_map" where
  "mm_clear m = dm_clear m"

definition update_access_info :: "('k \<Rightarrow> u64) \<Rightarrow> int \<Rightarrow> 'k \<Rightarrow> 'k meta_map \<Rightarrow> bool \<times> 'k meta_map" where
  "update_access_info h now key m =
     (case dm_get h key m of
        None \<Rightarrow> (False, m)
      | Some md \<Rightarrow> (True, snd (dm_insert h key (update_access now md) m)))"

definition get_access_time :: "('k \<Rightarrow> u64) \<Rightarrow> 'k \<Rightarrow> 'k meta_map \<Rightarrow> u32" where
  "get_access_time h key m = (case dm_get h key m of None \<Rightarrow> 0 | Some md \<Rightarrow> access_time_ms md)"

definition get_lfu_counter :: "('k \<Rightarrow> u64) \<Rightarrow> 'k \<Rightarrow> 'k meta_map \<Rightarrow> byte" where
  "get_lfu_counter h key m = (case dm_get h key m of None \<Rightarrow> 0 | Some md \<Rightarrow> lfu_counter md)"

definition decay_lfu_counters :: "('k \<Rightarrow> u64) \<Rightarrow> ('k list \<Rightarrow> 'k list) \<Rightarrow> 'k meta_map \<Rightarrow> 'k meta_map" where
  "decay_lfu_counters h ord m =
     fold (\<lambda>(key, md) m. snd (dm_insert h key (reset_lfu_counter md) m)) (dm_all_entries ord m) m"

definition has_ttl :: "('k \<Rightarrow> u64) \<Rightarrow> 'k \<Rightarrow> 'k meta_map \<Rightarrow> bool" where
  "has_ttl h key m = (case dm_get h key m of None \<Rightarrow> False | Some md \<Rightarrow> expire_time_ms md \<noteq> None)"

definition mm_size :: "'k meta_map \<Rightarrow> nat" where
  "mm_size m = dm_size m"

section \<open>The manager keeps its map well formed\<close>

lemmas dm_lookups [simp] = dm.lookup_insert dm.lookup_remove dm.insert_fresh dm.remove_found

lemma mm_new_ok [simp]: "dm_ok h mm_new" and mm_new_get [simp]: "dm_get h k mm_new = None"
  by (simp_all add: mm_new_def dm_new_spec dm_get_new)

lemma register_key_ok [kv_inv, simp]: "dm_ok h m \<Longrightarrow> dm_ok h (register_key h k t m)"
  by (simp add: register_key_def Let_def)

lemma unregister_key_ok [kv_inv, simp]: "dm_ok h m \<Longrightarrow> dm_ok h (unregister_key h k m)"
  by (simp add: unregister_key_def)

lemma is_valid_ok [kv_inv, simp]: "dm_ok h m \<Longrightarrow> dm_ok h (snd (is_valid h now k m))"
  by (simp add: is_valid_def split: option.splits)

lemma get_key_type_ok [kv_inv, simp]: "dm_ok h m \<Longrightarrow> dm_ok h (snd (get_key_type h now k m))"
  by (simp add: get_key_type_def split: option.splits)

lemma mm_set_expire_ms_ok [kv_inv, simp]: "dm_ok h m \<Longrightarrow> dm_ok h (snd (mm_set_expire_ms h k t m))"
  by (simp add: mm_set_expire_ms_def split: option.splits)

lemma persist_ok [kv_inv, simp]: "dm_ok h m \<Longrightarrow> dm_ok h (snd (persist h k m))"
  by (simp add: persist_def split: option.splits)

lemma increment_key_version_ok [kv_inv, simp]: "dm_ok h m \<Longrightarrow> dm_ok h (increment_key_version h k m)"
  by (simp add: increment_key_version_def split: option.splits)

lemma update_access_info_ok [kv_inv, simp]: "dm_ok h m \<Longrightarrow> dm_ok h (snd (update_access_info h now k m))"
  by (simp add: update_access_info_def split: option.splits)

section \<open>Lookups after each operation\<close>

lemma get_register:
  "dm_ok h m \<Longrightarrow> dm_get h k' (register_key h k t m) =
     (if k' = k then Some ((km_new t)\<lparr>version := get_key_version h k m + 1\<rparr>) else dm_get h k' m)"
  by (auto simp: register_key_def Let_def get_key_version_def split: option.splits)

lemma get_unregister:
  "dm_ok h m \<Longrightarrow> dm_get h k' (unregister_key h k m) = (if k' = k then None else dm_get h k' m)"
  by (simp add: unregister_key_def)

text \<open>A key is live when it has an entry that is not expired.\<close>

definition live :: "('k \<Rightarrow> u64) \<Rightarrow> int \<Rightarrow> 'k \<Rightarrow> 'k meta_map \<Rightarrow> bool" where
  "live h now k m = (\<exists>md. dm_get h k m = Some md \<and> \<not> is_expired now md)"

lemma is_valid_live: "fst (is_valid h now k m) = live h now k m"
  by (auto simp: is_valid_def live_def split: option.splits)

lemma get_is_valid:
  "dm_ok h m \<Longrightarrow> dm_get h k' (snd (is_valid h now k m)) =
     (if k' = k \<and> \<not> live h now k m then None else dm_get h k' m)"
  by (auto simp: is_valid_def live_def split: option.splits)

lemma is_valid_id: "live h now k m \<Longrightarrow> is_valid h now k m = (True, m)"
  by (auto simp: is_valid_def live_def)

lemma get_key_type_eq:
  "get_key_type h now k m =
     (if live h now k m then map_option km_type (dm_get h k m) else None, snd (is_valid h now k m))"
  by (auto simp: get_key_type_def is_valid_def live_def split: option.splits)

lemma get_set_expire:
  "dm_ok h m \<Longrightarrow> dm_get h k' (snd (mm_set_expire_ms h k t m)) =
     (if k' = k then map_option (km_set_expire_ms t) (dm_get h k m) else dm_get h k' m)"
  by (auto simp: mm_set_expire_ms_def split: option.splits)

lemma get_update_access:
  "dm_ok h m \<Longrightarrow> dm_get h k' (snd (update_access_info h now k m)) =
     (if k' = k then map_option (update_access now) (dm_get h k m) else dm_get h k' m)"
  by (auto simp: update_access_info_def split: option.splits)

lemma live_mono: "live h now' k m \<Longrightarrow> now \<le> now' \<Longrightarrow> live h now k m"
  by (auto simp: live_def is_expired_def split: option.splits)

section \<open>Properties\<close>

text \<open>
  Registering a key, new or not, makes it a live key of the given type with no expiry, counts its
  version up by one, clears its access statistics, and changes no other key.
\<close>

theorem register_key_fresh:
  fixes m :: "'k meta_map" and k :: 'k and t :: key_type and h
  assumes "dm_ok h m"
  defines "m' \<equiv> register_key h k t m"
  shows "dm_ok h m' \<and> is_valid h now k m' = (True, m') \<and> get_key_type h now k m' = (Some t, m')
    \<and> get_ttl_ms h now k m' = -1 \<and> \<not> has_ttl h k m'
    \<and> get_key_version h k m' = get_key_version h k m + 1
    \<and> get_access_time h k m' = 0 \<and> get_lfu_counter h k m' = 0
    \<and> (\<forall>k'. k' \<noteq> k \<longrightarrow> dm_get h k' m' = dm_get h k' m)"
proof -
  have get: "dm_get h k m' = Some ((km_new t)\<lparr>version := get_key_version h k m + 1\<rparr>)"
    and others: "\<forall>k'. k' \<noteq> k \<longrightarrow> dm_get h k' m' = dm_get h k' m" and ok: "dm_ok h m'"
    using assms by (simp_all add: get_register)
  have "live h now k m'" by (simp add: live_def get is_expired_def km_new_def)
  then show ?thesis
    using get others ok
    by (simp add: is_valid_id get_key_type_eq get_ttl_ms_def has_ttl_def get_key_version_def
        get_access_time_def get_lfu_counter_def is_expired_def km_new_def)
qed

theorem register_key_fresh_witness:
  "get_ttl_ms (\<lambda>k. k) 7 3 (register_key (\<lambda>k. k) 3 kList (mm_new :: u64 meta_map)) = -1"
  using register_key_fresh[where h = "\<lambda>k. k" and m = "mm_new :: u64 meta_map" and now = 7 and k = 3 and t = kList]
  by simp

text \<open>
  What \<^verbatim>\<open>GetTtlMs\<close> answers: \<open>-2\<close> exactly for the keys \<^verbatim>\<open>IsValid\<close> rejects, \<open>-1\<close> for a live key
  without expiry (or in the very millisecond it expires), and otherwise the positive time left; after
  \<^verbatim>\<open>SetExpireMs(key, t)\<close> on a present key the argument is read as an absolute time, and a time that is
  not positive removes the expiry.
\<close>

theorem ttl_agrees_with_validity:
  assumes "dm_ok h m"
  shows "(get_ttl_ms h now k m = -2 \<longleftrightarrow> \<not> fst (is_valid h now k m))
    \<and> (get_ttl_ms h now k m > 0 \<longleftrightarrow>
         (\<exists>t. get_expire_time_ms h now k m = Some t \<and> now < t \<and> 0 < t \<and> get_ttl_ms h now k m = t - now))
    \<and> (get_ttl_ms h now k m \<in> {-2, -1} \<or> get_ttl_ms h now k m > 0)
    \<and> (dm_get h k m \<noteq> None \<longrightarrow>
        fst (mm_set_expire_ms h k t m) \<and>
        get_ttl_ms h now k (snd (mm_set_expire_ms h k t m)) =
          (if t \<le> 0 then -1 else if t < now then -2 else if t = now then -1 else t - now))"
proof -
  have "fst (mm_set_expire_ms h k t m)" if "dm_get h k m \<noteq> None"
    using that by (auto simp: mm_set_expire_ms_def)
  moreover have "get_ttl_ms h now k (snd (mm_set_expire_ms h k t m)) =
      (if t \<le> 0 then -1 else if t < now then -2 else if t = now then -1 else t - now)"
    if "dm_get h k m \<noteq> None"
    using that get_set_expire[OF assms, of k k t]
    by (auto simp: get_ttl_ms_def is_expired_def km_set_expire_ms_def km_get_ttl_ms_def)
  ultimately show ?thesis
    by (auto simp: is_valid_live live_def get_ttl_ms_def get_expire_time_ms_def is_expired_def
        km_get_ttl_ms_def split: option.splits)
qed

theorem ttl_agrees_with_validity_witness:
  "get_ttl_ms (\<lambda>k. k) 40 3 (snd (mm_set_expire_ms (\<lambda>k. k) 3 100
     (register_key (\<lambda>k. k) 3 kBytes (mm_new :: u64 meta_map)))) = 60"
proof -
  let ?m = "register_key (\<lambda>k. k) 3 kBytes (mm_new :: u64 meta_map)"
  have "dm_ok (\<lambda>k. k) ?m" and "dm_get (\<lambda>k. k) 3 ?m \<noteq> None"
    by (simp_all add: get_register)
  then show ?thesis
    using ttl_agrees_with_validity[of "\<lambda>k. k" ?m 40 3 100] by simp
qed

text \<open>
  Lazy expiry: \<^verbatim>\<open>IsValid\<close> removes the entry of an expired key and nothing else, a key that has
  expired stays invalid at every later time, and asking again gives the same answer.
\<close>

theorem is_valid_lazy_expiry:
  assumes "dm_ok h m"
  shows "(\<forall>k'. dm_get h k' (snd (is_valid h now k m)) =
        (if k' = k \<and> \<not> fst (is_valid h now k m) then None else dm_get h k' m))
    \<and> (\<forall>now'. now \<le> now' \<and> \<not> fst (is_valid h now k m) \<longrightarrow> \<not> fst (is_valid h now' k m))
    \<and> is_valid h now k (snd (is_valid h now k m)) = (fst (is_valid h now k m), snd (is_valid h now k m))
    \<and> mm_size (snd (is_valid h now k m)) =
        (if dm_get h k m \<noteq> None \<and> \<not> fst (is_valid h now k m) then mm_size m - 1 else mm_size m)"
proof -
  have "mm_size (snd (is_valid h now k m)) =
      (if dm_get h k m \<noteq> None \<and> \<not> fst (is_valid h now k m) then mm_size m - 1 else mm_size m)"
    using dm.count_remove[OF assms, of k] by (auto simp: is_valid_def mm_size_def split: option.splits)
  moreover have "is_valid h now k (snd (is_valid h now k m)) = (fst (is_valid h now k m), snd (is_valid h now k m))"
    using assms by (auto simp: is_valid_def split: option.splits)
  ultimately show ?thesis
    using get_is_valid[OF assms, of _ now k] live_mono[of h _ k m now] by (auto simp: is_valid_live)
qed

theorem is_valid_lazy_expiry_witness:
  "dm_get (\<lambda>k. k) 3 (snd (is_valid (\<lambda>k. k) 200 3 (snd (mm_set_expire_ms (\<lambda>k. k) 3 100
     (register_key (\<lambda>k. k) 3 kBytes (mm_new :: u64 meta_map)))))) = None"
proof -
  let ?m = "snd (mm_set_expire_ms (\<lambda>k. k) 3 100 (register_key (\<lambda>k. k) 3 kBytes (mm_new :: u64 meta_map)))"
  have "dm_ok (\<lambda>k. k) ?m" and "\<not> fst (is_valid (\<lambda>k. k) 200 3 ?m)"
    by (simp_all add: is_valid_live live_def get_set_expire get_register km_set_expire_ms_def is_expired_def)
  then show ?thesis
    using is_valid_lazy_expiry[of "\<lambda>k. k" ?m 200 3, THEN conjunct1] by simp
qed

section \<open>The LFU counter\<close>

lemma access_once:
  "dm_ok h m \<Longrightarrow> get_lfu_counter h k (snd (update_access_info h now k m)) =
     (if dm_get h k m = None then 0 else get_lfu_counter h k m + 1)"
proof -
  have "min (w + 1) 255 = w + 1" for w :: byte
    using unsigned_less[of "w + 1", where ?'a = nat] by (intro min_absorb1) (simp add: word_le_nat_alt)
  then show "dm_ok h m \<Longrightarrow> ?thesis"
    by (auto simp: get_lfu_counter_def get_update_access update_access_def)
qed

definition access_at :: "('k \<Rightarrow> u64) \<Rightarrow> 'k \<Rightarrow> int list \<Rightarrow> 'k meta_map \<Rightarrow> 'k meta_map" where
  "access_at h k ts m = fold (\<lambda>now m. snd (update_access_info h now k m)) ts m"

lemma access_at_ok [simp]: "dm_ok h m \<Longrightarrow> dm_ok h (access_at h k ts m)"
  unfolding access_at_def by (induction ts arbitrary: m) auto

lemma access_at_others: "dm_ok h m \<Longrightarrow> k' \<noteq> k \<Longrightarrow> dm_get h k' (access_at h k ts m) = dm_get h k' m"
  unfolding access_at_def by (induction ts arbitrary: m) (auto simp: get_update_access)

lemma access_at_counter:
  "dm_ok h m \<Longrightarrow> dm_get h k m \<noteq> None \<Longrightarrow>
     get_lfu_counter h k (access_at h k ts m) = get_lfu_counter h k m + of_nat (length ts)"
  unfolding access_at_def
  by (induction ts arbitrary: m) (auto simp: access_once get_update_access)

text \<open>
  The LFU counter of a key counts its accesses since registration modulo 256: the comparison with
  255 in \<^verbatim>\<open>UpdateAccess\<close> never takes effect, because the sum has already been cut to eight bits, and the
  256th access resets the counter of the hottest key to that of an untouched one.
\<close>

theorem lfu_counter_wraps:
  assumes "dm_ok h m"
  shows "get_lfu_counter h k (access_at h k ts (register_key h k t m)) = of_nat (length ts)
    \<and> (length ts = 256 \<longrightarrow> get_lfu_counter h k (access_at h k ts (register_key h k t m)) = 0)
    \<and> (k' \<noteq> k \<longrightarrow> get_lfu_counter h k' (access_at h k ts (register_key h k t m)) = get_lfu_counter h k' m)"
proof -
  have "get_lfu_counter h k (register_key h k t m) = 0"
    using assms by (simp add: get_lfu_counter_def get_register km_new_def)
  then have *: "get_lfu_counter h k (access_at h k ts (register_key h k t m)) = of_nat (length ts)"
    using assms by (subst access_at_counter) (auto simp: get_register)
  show ?thesis
    unfolding * using assms by (simp add: get_lfu_counter_def access_at_others get_register)
qed

theorem lfu_counter_wraps_witness:
  "get_lfu_counter (\<lambda>k. k) 3 (access_at (\<lambda>k. k) 3 (replicate 256 9) (register_key (\<lambda>k. k) 3 kBytes (mm_new :: u64 meta_map))) = 0"
  using lfu_counter_wraps[of "\<lambda>k. k" "mm_new :: u64 meta_map" 3 "replicate 256 9" kBytes] by simp

section \<open>Decay\<close>

lemma decay_fold:
  assumes "dm_ok h m" and "distinct (map fst es)" and "\<And>k md. (k, md) \<in> set es \<Longrightarrow> dm_get h k m = Some md"
  defines "m' \<equiv> fold (\<lambda>(key, md) m. snd (dm_insert h key (reset_lfu_counter md) m)) es m"
  shows "dm_ok h m' \<and> dm_get h k m' = (if k \<in> fst ` set es then map_option reset_lfu_counter (dm_get h k m) else dm_get h k m)"
  using assms(1-3) unfolding m'_def
proof (induction es arbitrary: m)
  case (Cons e es)
  obtain k1 md where e: "e = (k1, md)" by (cases e)
  let ?m = "snd (dm_insert h k1 (reset_lfu_counter md) m)"
  have "dm_get h k2 ?m = Some md2" if "(k2, md2) \<in> set es" for k2 md2
    using Cons.prems that e by (auto simp: rev_image_eqI)
  then show ?case
    using Cons.IH[of ?m] Cons.prems(1,2) Cons.prems(3)[of k1 md] e by (auto simp: image_iff)
qed simp

text \<open>
  \<^verbatim>\<open>DecayLFUCounters\<close> halves the counter of every key, whatever the order in which the shards hand
  out their entries, and changes neither the set of keys nor any other field.
\<close>

theorem decay_halves_all:
  assumes "dm_ok h m" and "visits_all ord"
  shows "(\<forall>k. dm_get h k (decay_lfu_counters h ord m) = map_option reset_lfu_counter (dm_get h k m))
    \<and> get_lfu_counter h k (decay_lfu_counters h ord m) = get_lfu_counter h k m div 2
    \<and> mm_size (decay_lfu_counters h ord m) = mm_size m
    \<and> get_ttl_ms h now k (decay_lfu_counters h ord m) = get_ttl_ms h now k m
    \<and> get_key_version h k (decay_lfu_counters h ord m) = get_key_version h k m"
proof -
  let ?m = "decay_lfu_counters h ord m"
  have fold: "dm_ok h ?m \<and> dm_get h k ?m =
      (if k \<in> fst ` set (dm_all_entries ord m) then map_option reset_lfu_counter (dm_get h k m) else dm_get h k m)" for k
    unfolding decay_lfu_counters_def
    using assms distinct_all_keys[OF assms(2,1)] set_all_entries[OF assms(2,1)]
    by (intro decay_fold) (auto simp: map_fst_entries)
  have get: "dm_get h k ?m = map_option reset_lfu_counter (dm_get h k m)" for k
    using fold[of k] set_all_entries[OF assms(2,1), of k] by (cases "dm_get h k m") force+
  have "mm_size ?m = mm_size m"
    using fold get assms(1) by (simp add: mm_size_def dm.count_card[of h] del: map_option_eq_Some)
  moreover have "drop_bit 1 (w :: byte) = w div 2" for w by (simp add: drop_bit_eq_div)
  ultimately show ?thesis
    using get by (auto simp: get_lfu_counter_def get_ttl_ms_def get_key_version_def reset_lfu_counter_def
        is_expired_def km_get_ttl_ms_def split: option.splits)
qed

theorem decay_halves_all_witness:
  "get_lfu_counter (\<lambda>k. k) 3 (decay_lfu_counters (\<lambda>k. k) rev
     (access_at (\<lambda>k. k) 3 [5, 6, 7] (register_key (\<lambda>k. k) 3 kBytes (mm_new :: u64 meta_map)))) = 1"
proof -
  let ?m = "access_at (\<lambda>k. k) 3 [5, 6, 7] (register_key (\<lambda>k. k) 3 kBytes (mm_new :: u64 meta_map))"
  have ok: "dm_ok (\<lambda>k. k) ?m" by simp
  have "get_lfu_counter (\<lambda>k. k) 3 ?m = 3"
    by (subst access_at_counter) (simp_all add: get_register get_lfu_counter_def km_new_def)
  then show ?thesis
    using decay_halves_all[OF ok visits_all_rev, of 3, THEN conjunct2, THEN conjunct1] by simp
qed

end
