(* ===== verification/Zset.thy ===== *)
theory Zset
  imports Scored_Tree Byte_Codec
begin

text \<open>
  The sorted set \<^verbatim>\<open>ZSetBPlus<std::string, double>\<close> (\<^verbatim>\<open>src/zset/bplustree_zset.hpp\<close> and \<^verbatim>\<open>.cpp\<close>): the B+ tree of
  (score, hash) pairs, the scores by member and the members by hash.  Every operation holds the mutex for
  all of its effect, so histories are sequences of operations.  \<^verbatim>\<open>absl::Hash\<close> is the parameter \<open>H\<close>; the two
  \<^verbatim>\<open>flat_hash_map\<close>s are association lists as in \<^verbatim>\<open>Dash_Map\<close>, read in the order the parameter \<open>ord\<close> gives.
\<close>

section \<open>State\<close>

record zset =
  ordered_set :: "scored_member bptree"
  member_to_score :: "(str, double) shard"
  hash_to_member :: "(u64, str) shard"

definition zs_new :: zset where
  "zs_new = \<lparr>ordered_set = bt_new, member_to_score = [], hash_to_member = []\<rparr>"

definition make_element :: "(str \<Rightarrow> u64) \<Rightarrow> str \<Rightarrow> double \<Rightarrow> scored_member" where
  "make_element H member score = scored_member score (H member)"

definition find_member_by_hash :: "u64 \<Rightarrow> zset \<Rightarrow> str option" where
  "find_member_by_hash h z = map_of (hash_to_member z) h"

section \<open>Writing\<close>

definition zs_add :: "(str \<Rightarrow> u64) \<Rightarrow> str \<Rightarrow> double \<Rightarrow> zset \<Rightarrow> bool \<times> zset" where
  "zs_add H member score z =
     (case map_of (member_to_score z) member of
        Some old_score \<Rightarrow>
          (False,
           if \<not> dbl_eq old_score score then
             (let t1 = snd (bt_delete scored_less (make_element H member old_score) (ordered_set z));
                  t2 = snd (bt_insert scored_less (make_element H member score) t1)
              in \<lparr>ordered_set = t2,
                  member_to_score = AList.update member score (member_to_score z),
                  hash_to_member = AList.update (H member) member (hash_to_member z)\<rparr>)
           else z)
      | None \<Rightarrow>
          (True,
           \<lparr>ordered_set = snd (bt_insert scored_less (make_element H member score) (ordered_set z)),
            member_to_score = AList.update member score (member_to_score z),
            hash_to_member = AList.update (H member) member (hash_to_member z)\<rparr>))"

definition zs_remove :: "(str \<Rightarrow> u64) \<Rightarrow> str \<Rightarrow> zset \<Rightarrow> bool \<times> zset" where
  "zs_remove H member z =
     (case map_of (member_to_score z) member of
        Some score \<Rightarrow>
          (True,
           \<lparr>ordered_set = snd (bt_delete scored_less (make_element H member score) (ordered_set z)),
            member_to_score = AList.delete member (member_to_score z),
            hash_to_member = AList.delete (H member) (hash_to_member z)\<rparr>)
      | None \<Rightarrow> (False, z))"

definition zs_clear :: "zset \<Rightarrow> zset" where
  "zs_clear z = \<lparr>ordered_set = bt_clear (ordered_set z), member_to_score = [], hash_to_member = []\<rparr>"

text \<open>
  The operations above are the effects of the critical sections.  \<^verbatim>\<open>RemoveRangeByScore\<close> calls \<^verbatim>\<open>Remove\<close> inside its
  own, so here the mutex is a part of the state: \<^verbatim>\<open>absl::MutexLock\<close> takes it, and gives it back when the body has
  returned.  \<^verbatim>\<open>absl::Mutex\<close> is not reentrant: a thread that locks it while it is held never gets on, here \<open>None\<close>.
\<close>

record locked_zset =
  mutex_held :: bool
  guarded :: zset

definition mutex_lock :: "locked_zset \<Rightarrow> locked_zset option" where
  "mutex_lock s = (if mutex_held s then None else Some (s\<lparr>mutex_held := True\<rparr>))"

definition mutex_unlock :: "locked_zset \<Rightarrow> locked_zset" where
  "mutex_unlock s = s\<lparr>mutex_held := False\<rparr>"

definition zl_remove :: "(str \<Rightarrow> u64) \<Rightarrow> str \<Rightarrow> locked_zset \<Rightarrow> (bool \<times> locked_zset) option" where
  "zl_remove H member s =
     (case mutex_lock s of
        None \<Rightarrow> None
      | Some s' \<Rightarrow> (let (b, z) = zs_remove H member (guarded s') in Some (b, mutex_unlock (s'\<lparr>guarded := z\<rparr>))))"

fun remove_members :: "(str \<Rightarrow> u64) \<Rightarrow> str list \<Rightarrow> u64 \<Rightarrow> locked_zset \<Rightarrow> (u64 \<times> locked_zset) option" where
  "remove_members H [] removed s = Some (removed, s)"
| "remove_members H (m # ms) removed s =
     (case zl_remove H m s of
        None \<Rightarrow> None
      | Some (b, s') \<Rightarrow> remove_members H ms (if b then removed + 1 else removed) s')"

definition dbl_le :: "double \<Rightarrow> double \<Rightarrow> bool" where
  "dbl_le a b \<longleftrightarrow> dbl_less a b \<or> dbl_eq a b"

definition zs_remove_range_by_score ::
    "(str list \<Rightarrow> str list) \<Rightarrow> (str \<Rightarrow> u64) \<Rightarrow> double \<Rightarrow> double \<Rightarrow> locked_zset \<Rightarrow> (u64 \<times> locked_zset) option" where
  "zs_remove_range_by_score ord H lo hi s =
     (case mutex_lock s of
        None \<Rightarrow> None
      | Some s' \<Rightarrow>
          (let to_remove = [m. (m, score) \<leftarrow> shard_entries ord (member_to_score (guarded s')), dbl_le lo score \<and> dbl_le score hi]
           in case remove_members H to_remove 0 s' of
                None \<Rightarrow> None
              | Some (removed, s'') \<Rightarrow> Some (removed, mutex_unlock s'')))"

section \<open>Reading\<close>

definition zs_get_score :: "str \<Rightarrow> zset \<Rightarrow> double option" where
  "zs_get_score member z = map_of (member_to_score z) member"

definition zs_contains :: "str \<Rightarrow> zset \<Rightarrow> bool" where
  "zs_contains member z = (map_of (member_to_score z) member \<noteq> None)"

definition zs_size :: "zset \<Rightarrow> u64" where
  "zs_size z = ucast (bt_size (ordered_set z))"

definition zs_empty :: "zset \<Rightarrow> bool" where
  "zs_empty z = (bt_count (ordered_set z) = 0)"

definition zs_get_rank :: "(str \<Rightarrow> u64) \<Rightarrow> str \<Rightarrow> bool \<Rightarrow> zset \<Rightarrow> u64 option" where
  "zs_get_rank H member reverse z =
     (case map_of (member_to_score z) member of
        None \<Rightarrow> None
      | Some score \<Rightarrow>
          (case bt_get_rank scored_less (make_element H member score) reverse (ordered_set z) of
             None \<Rightarrow> None
           | Some rank \<Rightarrow> Some (ucast rank)))"

text \<open>\<^verbatim>\<open>node->Key(pos)\<close> at the end of the path of a rank; \<open>None\<close> for an empty path.\<close>

definition element_at :: "u32 \<Rightarrow> zset \<Rightarrow> scored_member option" where
  "element_at rank z =
     (case bt_from_rank rank (ordered_set z) of
        Some ((node, pos) # _) \<Rightarrow> Some (node_keys node ! pos)
      | _ \<Rightarrow> None)"

definition zs_get_by_rank :: "u64 \<Rightarrow> bool \<Rightarrow> zset \<Rightarrow> str option" where
  "zs_get_by_rank rank reverse z =
     (if rank \<ge> zs_size z then None
      else (case element_at (ucast rank) z of
              None \<Rightarrow> None
            | Some elem \<Rightarrow> find_member_by_hash (sm_hash elem) z))"

definition zs_get_score_by_rank :: "u64 \<Rightarrow> bool \<Rightarrow> zset \<Rightarrow> double option" where
  "zs_get_score_by_rank rank reverse z =
     (if rank \<ge> zs_size z then None else map_option sm_score (element_at (ucast rank) z))"

text \<open>The member of an element, with its score or with 0.0, appended to the result.\<close>

definition push_result :: "bool \<Rightarrow> zset \<Rightarrow> scored_member \<Rightarrow> (str \<times> double) list \<Rightarrow> (str \<times> double) list" where
  "push_result with_scores z elem result =
     (case find_member_by_hash (sm_hash elem) z of
        None \<Rightarrow> result
      | Some member \<Rightarrow> result @ [(member, if with_scores then sm_score elem else 0)])"

text \<open>
  The loop of \<^verbatim>\<open>GetRangeByScore\<close> and \<^verbatim>\<open>CountRange\<close>: along the path until a score exceeds the maximum or the tree
  ends.  \<open>None\<close> when an assertion fails or the fuel, one round per element, runs out.
\<close>

fun scan_scores :: "nat \<Rightarrow> double \<Rightarrow> (scored_member \<Rightarrow> 's \<Rightarrow> 's) \<Rightarrow> scored_member path \<Rightarrow> 's \<Rightarrow> 's option" where
  "scan_scores 0 hi step path s = None"
| "scan_scores (Suc fuel) hi step path s =
     (case terminal path of
        None \<Rightarrow> None
      | Some elem \<Rightarrow>
          if dbl_less hi (sm_score elem) then Some s
          else (case path_next path of
                  (advanced, path') \<Rightarrow>
                    if advanced then scan_scores fuel hi step path' (step elem s) else Some (step elem s)))"

definition scan_range :: "double \<Rightarrow> double \<Rightarrow> (scored_member \<Rightarrow> 's \<Rightarrow> 's) \<Rightarrow> zset \<Rightarrow> 's \<Rightarrow> 's option" where
  "scan_range lo hi step z s =
     (if zs_empty z then Some s
      else (case bt_geq scored_less (scored_member lo 0) (ordered_set z) of
              None \<Rightarrow> None
            | Some path \<Rightarrow>
                if path = [] then Some s
                else scan_scores (unat (bt_count (ordered_set z))) hi step path s))"

definition zs_get_range_by_score :: "double \<Rightarrow> double \<Rightarrow> bool \<Rightarrow> zset \<Rightarrow> (str \<times> double) list option" where
  "zs_get_range_by_score lo hi with_scores z = scan_range lo hi (push_result with_scores z) z []"

definition zs_count_range :: "double \<Rightarrow> double \<Rightarrow> zset \<Rightarrow> u64 option" where
  "zs_count_range lo hi z = scan_range lo hi (\<lambda>_ c. c + 1) z 0"

definition zs_get_range_by_rank :: "u64 \<Rightarrow> u64 \<Rightarrow> bool \<Rightarrow> bool \<Rightarrow> zset \<Rightarrow> (str \<times> double) list" where
  "zs_get_range_by_rank start stop reverse with_scores z =
     (if start \<ge> zs_size z then []
      else (let stop' = min stop (zs_size z - 1) in
        fold (\<lambda>i result.
                let rank = (if reverse then ucast (zs_size z - 1 - of_nat i) else of_nat i) :: u32 in
                case element_at rank z of
                  None \<Rightarrow> result
                | Some elem \<Rightarrow> push_result with_scores z elem result)
          [unat start ..< Suc (unat stop')] []))"

definition zs_get_all :: "(str list \<Rightarrow> str list) \<Rightarrow> zset \<Rightarrow> (str \<times> double) list" where
  "zs_get_all ord z = shard_entries ord (member_to_score z)"

text \<open>\<^verbatim>\<open>MemoryUsage\<close>; the size of a string object and the capacities of the strings are the compiler's and library's.\<close>

definition zs_memory_usage :: "nat \<Rightarrow> (str \<Rightarrow> nat) \<Rightarrow> zset \<Rightarrow> nat" where
  "zs_memory_usage string_size capacity z =
     unat (bt_nodes (ordered_set z)) * 256
     + sum_list (map (\<lambda>(member, score). string_size + capacity member + 8 + 32) (member_to_score z))
     + sum_list (map (\<lambda>(hash, member). 8 + string_size + capacity member + 32) (hash_to_member z))"

section \<open>The stored form\<close>

definition put_u64 :: "u64 \<Rightarrow> str" where
  "put_u64 w = le_bytes 8 (unat w)"

definition put_scored :: "str \<times> double \<Rightarrow> str" where
  "put_scored p = (case p of (member, score) \<Rightarrow> put_blob member @ put_u64 score)"

definition get_scored :: "str \<Rightarrow> ((str \<times> double) \<times> str) option" where
  "get_scored d =
     (case get_blob 8 d of
        None \<Rightarrow> None
      | Some (member, d') \<Rightarrow> Some ((member, of_nat (le_value (take 8 d'))), drop 8 d'))"

definition serialize_zset :: "(str list \<Rightarrow> str list) \<Rightarrow> zset \<Rightarrow> str" where
  "serialize_zset ord z =
     (let items = zs_get_all ord z;
          sz = 4 + sum_list (map (\<lambda>(member, score). 4 + length member + 8) items)
      in pad sz (put_u32 (of_nat (length items)) @ concat (map put_scored items)))"

definition deserialize_zset :: "(str \<Rightarrow> u64) \<Rightarrow> str \<Rightarrow> zset \<Rightarrow> bool \<times> zset" where
  "deserialize_zset H data z = read_counted get_scored (\<lambda>(member, score) z. snd (zs_add H member score z)) data z"

section \<open>The three parts agree\<close>

definition elements :: "(str \<Rightarrow> u64) \<Rightarrow> (str \<rightharpoonup> double) \<Rightarrow> scored_member set" where
  "elements H M = {make_element H m s | m s. M m = Some s}"

lemma elements_iff: "e \<in> elements H M \<longleftrightarrow> (\<exists>m s. e = make_element H m s \<and> M m = Some s)"
  by (auto simp: elements_def)

definition scores :: "zset \<Rightarrow> str \<rightharpoonup> double" where
  "scores z = map_of (member_to_score z)"

text \<open>The hash tells the members apart; the tree holds their elements and the second table inverts the hash.\<close>

definition zset_ok :: "(str \<Rightarrow> u64) \<Rightarrow> zset \<Rightarrow> bool" where
  "zset_ok H z \<longleftrightarrow> scored_tree (ordered_set z) \<and> shard_ok (member_to_score z)
     \<and> inj_on H (dom (scores z))
     \<and> set (bt_items (ordered_set z)) = elements H (scores z)
     \<and> (\<forall>h m. map_of (hash_to_member z) h = Some m \<longleftrightarrow> m \<in> dom (scores z) \<and> H m = h)"

lemma element_key [simp]: "scored_key (make_element H m s) = (dbl_order s, H m)"
  and element_score [simp]: "sm_score (make_element H m s) = s" and element_hash [simp]: "sm_hash (make_element H m s) = H m"
  and element_proper [simp]: "scored_proper (make_element H m s) \<longleftrightarrow> \<not> is_nan s"
  by (simp_all add: make_element_def scored_member_def scored_key_def scored_proper_def)

lemma element_inject [simp]: "make_element H m s = make_element H m' s' \<longleftrightarrow> H m = H m' \<and> s = s'"
  by (auto simp: make_element_def scored_member_def)

text \<open>Removing and adding one member's element.\<close>

lemma tree_without:
  assumes "scored_tree t" and "set (bt_items t) = elements H M" and "inj_on H (dom M)" and "M m = Some s"
  shows "scored_tree (snd (bt_delete scored_less (make_element H m s) t))"
    and "set (bt_items (snd (bt_delete scored_less (make_element H m s) t))) = elements H (M(m := None))"
proof -
  obtain b t' where d: "bt_delete scored_less (make_element H m s) t = (b, t')" by (cases "bt_delete scored_less (make_element H m s) t")
  have "make_element H m s \<in> set (bt_items t)" using assms(2,4) by (auto simp: elements_def)
  then have "scored_proper (make_element H m s)" using assms(1) unfolding ordered_tree_def by blast
  note del = scored.delete_ordered[OF assms(1) this d]
  show "scored_tree (snd (bt_delete scored_less (make_element H m s) t))" using del(1) d by simp
  have "H m' \<noteq> H m" if "M m' = Some s'" "m' \<noteq> m" for m' s'
    using that assms(3,4) by (auto dest: inj_onD)
  then have "e \<in> elements H (M(m := None)) \<longleftrightarrow> e \<in> elements H M \<and> scored_key e \<noteq> (dbl_order s, H m)" for e
  proof (intro iffI)
    assume "e \<in> elements H M \<and> scored_key e \<noteq> (dbl_order s, H m)"
    then obtain k r where k: "e = make_element H k r" "M k = Some r" "scored_key e \<noteq> (dbl_order s, H m)"
      using elements_iff by blast
    then have "k \<noteq> m" using assms(4) by auto
    then have "(M(m := None)) k = Some r" using k(2) by simp
    then show "e \<in> elements H (M(m := None))" using k(1) elements_iff by blast
  qed (force simp: elements_iff split: if_splits)
  then have "{e \<in> elements H M. scored_key e \<noteq> (dbl_order s, H m)} = elements H (M(m := None))" by blast
  then show "set (bt_items (snd (bt_delete scored_less (make_element H m s) t))) = elements H (M(m := None))"
    using del(4) d assms(2) by simp
qed

lemma tree_with:
  assumes "scored_tree t" and "set (bt_items t) = elements H M" and "inj_on H (insert m (dom M))" and "M m = None"
    and "\<not> is_nan s"
  shows "scored_tree (snd (bt_insert scored_less (make_element H m s) t))"
    and "set (bt_items (snd (bt_insert scored_less (make_element H m s) t))) = elements H (M(m \<mapsto> s))"
proof -
  obtain b t' where i: "bt_insert scored_less (make_element H m s) t = (b, t')" by (cases "bt_insert scored_less (make_element H m s) t")
  note ins = scored.insert_ordered[OF assms(1) _ i]
  show "scored_tree (snd (bt_insert scored_less (make_element H m s) t))" using ins(1) i assms(5) by simp
  have fresh: "H m' \<noteq> H m" if "M m' = Some s'" for m' s'
    using that assms(3,4) by (metis domI inj_onD insert_iff option.distinct(1))
  then have "scored_key (make_element H m s) \<notin> tree_keys scored_key t"
    by (auto simp: tree_keys_def assms(2) elements_def) metis
  then have "set (bt_items t') = insert (make_element H m s) (elements H M)" using ins(2,4) assms(2,5) by simp
  also have "\<dots> = elements H (M(m \<mapsto> s))" using assms(4) by (auto simp: elements_def) (metis option.distinct(1))
  finally show "set (bt_items (snd (bt_insert scored_less (make_element H m s) t))) = elements H (M(m \<mapsto> s))" using i by simp
qed

section \<open>Writes\<close>

text \<open>What the operations do to the members and their scores.\<close>

datatype zset_op = Z_add str double | Z_remove str | Z_clear

fun run_zset_op :: "(str \<Rightarrow> u64) \<Rightarrow> zset_op \<Rightarrow> zset \<Rightarrow> bool \<times> zset" where
  "run_zset_op H (Z_add m s) z = zs_add H m s z"
| "run_zset_op H (Z_remove m) z = zs_remove H m z"
| "run_zset_op H Z_clear z = (True, zs_clear z)"

fun score_map_op :: "zset_op \<Rightarrow> (str \<rightharpoonup> double) \<Rightarrow> (str \<rightharpoonup> double)" where
  "score_map_op (Z_add m s) M = (case M m of Some old \<Rightarrow> if dbl_eq old s then M else M(m \<mapsto> s) | None \<Rightarrow> M(m \<mapsto> s))"
| "score_map_op (Z_remove m) M = M(m := None)"
| "score_map_op Z_clear M = Map.empty"

fun score_map_answer :: "zset_op \<Rightarrow> (str \<rightharpoonup> double) \<Rightarrow> bool" where
  "score_map_answer (Z_add m s) M \<longleftrightarrow> M m = None"
| "score_map_answer (Z_remove m) M \<longleftrightarrow> M m \<noteq> None"
| "score_map_answer Z_clear M \<longleftrightarrow> True"

fun op_member :: "zset_op \<Rightarrow> str set" where
  "op_member (Z_add m s) = {m}"
| "op_member (Z_remove m) = {}"
| "op_member Z_clear = {}"

fun op_number :: "zset_op \<Rightarrow> bool" where
  "op_number (Z_add m s) \<longleftrightarrow> \<not> is_nan s"
| "op_number (Z_remove m) \<longleftrightarrow> True"
| "op_number Z_clear \<longleftrightarrow> True"

lemma zset_okD:
  assumes "zset_ok H z"
  shows "scored_tree (ordered_set z)" and "shard_ok (member_to_score z)" and "inj_on H (dom (scores z))"
    and "set (bt_items (ordered_set z)) = elements H (scores z)"
    and "map_of (hash_to_member z) h = Some m \<longleftrightarrow> m \<in> dom (scores z) \<and> H m = h"
  using assms by (simp_all add: zset_ok_def)

lemma scores_sel [simp]: "scores \<lparr>ordered_set = t, member_to_score = ms, hash_to_member = hs\<rparr> = map_of ms"
  by (simp add: scores_def)

lemma map_of_update_fun [simp]: "map_of (AList.update k v s) = (map_of s)(k \<mapsto> v)"
  and map_of_delete_fun [simp]: "map_of (AList.delete k s) = (map_of s)(k := None)"
  by (auto simp: fun_eq_iff)

lemma hash_table_update:
  assumes "\<And>h m. map_of hs h = Some m \<longleftrightarrow> m \<in> D \<and> H m = h" and "inj_on H (insert x D)"
  shows "map_of (AList.update (H x) x hs) h = Some m \<longleftrightarrow> m \<in> insert x D \<and> H m = h"
proof (cases "h = H x")
  case True
  then show ?thesis using inj_onD[OF assms(2), of m x] by auto
next
  case False
  then show ?thesis using assms(1)[of h m] by auto
qed

lemma run_zset_op_ok:
  assumes ok: "zset_ok H z" and inj: "inj_on H (op_member op \<union> dom (scores z))" and num: "op_number op"
  shows "zset_ok H (snd (run_zset_op H op z)) \<and> scores (snd (run_zset_op H op z)) = score_map_op op (scores z)
    \<and> fst (run_zset_op H op z) = score_map_answer op (scores z)"
proof (cases op)
  case (Z_add m s)
  note z = zset_okD[OF ok]
  have inj': "inj_on H (insert m (dom (scores z)))" using inj Z_add by simp
  have hashes: "map_of (AList.update (H m) m (hash_to_member z)) h = Some k \<longleftrightarrow> k \<in> insert m (dom (scores z)) \<and> H k = h" for h k
    using hash_table_update[OF z(5) inj'] .
  show ?thesis
  proof (cases "scores z m")
    case None
    then show ?thesis
      using Z_add tree_with[OF z(1,4) inj' None] num z(2) inj' hashes
      by (simp add: zs_add_def zset_ok_def flip: scores_def)
  next
    case (Some old)
    show ?thesis
    proof (cases "dbl_eq old s")
      case True
      then show ?thesis using Z_add Some ok by (simp add: zs_add_def flip: scores_def)
    next
      case False
      note t1 = tree_without[OF z(1,4,3) Some]
      have "inj_on H (insert m (dom ((scores z)(m := None))))" using inj' by (rule inj_on_subset) auto
      note t2 = tree_with[OF t1 this, of s]
      show ?thesis
        using Z_add Some False t2 num z(2) inj' hashes
        by (simp add: zs_add_def zset_ok_def insert_absorb domI Let_def flip: scores_def)
    qed
  qed
next
  case (Z_remove m)
  note z = zset_okD[OF ok]
  show ?thesis
  proof (cases "scores z m")
    case None
    then have "(scores z)(m := None) = scores z" by (simp add: fun_eq_iff)
    then show ?thesis using Z_remove None ok by (simp add: zs_remove_def flip: scores_def)
  next
    case (Some s)
    note t1 = tree_without[OF z(1,4,3) Some]
    have "map_of (AList.delete (H m) (hash_to_member z)) h = Some k
        \<longleftrightarrow> k \<in> dom ((scores z)(m := None)) \<and> H k = h" for h k
      using z(5)[of h k] z(3) Some by (auto dest: inj_onD)
    moreover have "inj_on H (dom ((scores z)(m := None)))" using z(3) by (rule inj_on_subset) auto
    ultimately show ?thesis
      using Z_remove Some t1 z(2) by (simp add: zs_remove_def zset_ok_def flip: scores_def)
  qed
next
  case Z_clear
  then show ?thesis
    using zset_okD(1)[OF ok] by (simp add: zs_clear_def zset_ok_def ordered_tree_def ascending_def elements_def scores_def)
qed

section \<open>Histories\<close>

definition run_zset :: "(str \<Rightarrow> u64) \<Rightarrow> zset_op list \<Rightarrow> zset" where
  "run_zset H ops = fold (\<lambda>op z. snd (run_zset_op H op z)) ops zs_new"

definition op_members :: "zset_op list \<Rightarrow> str set" where
  "op_members ops = (\<Union>op \<in> set ops. op_member op)"

lemma zs_new_ok [simp]: "zset_ok H zs_new" and scores_new [simp]: "scores zs_new = Map.empty"
  by (simp_all add: zset_ok_def zs_new_def ordered_tree_def ascending_def elements_def)

lemma dom_score_map_op: "dom (score_map_op op M) \<subseteq> op_member op \<union> dom M"
  by (cases op) (auto split: option.splits if_splits)

lemma run_zset_ok:
  assumes "inj_on H (op_members ops)" and "\<forall>op \<in> set ops. op_number op"
  shows "zset_ok H (run_zset H ops)" and "scores (run_zset H ops) = fold score_map_op ops Map.empty"
    and "dom (scores (run_zset H ops)) \<subseteq> op_members ops"
proof -
  have "zset_ok H (run_zset H ops) \<and> scores (run_zset H ops) = fold score_map_op ops Map.empty
    \<and> dom (scores (run_zset H ops)) \<subseteq> op_members ops"
    using assms
  proof (induction ops rule: rev_induct)
    case Nil
    then show ?case by (simp add: run_zset_def op_members_def)
  next
    case (snoc op ops)
    have members: "op_members (ops @ [op]) = op_members ops \<union> op_member op" by (auto simp: op_members_def)
    have "inj_on H (op_members ops)" using snoc.prems(1) members by (auto intro: inj_on_subset)
    then have IH: "zset_ok H (run_zset H ops)" "scores (run_zset H ops) = fold score_map_op ops Map.empty"
      "dom (scores (run_zset H ops)) \<subseteq> op_members ops" using snoc.IH snoc.prems(2) by auto
    have "inj_on H (op_member op \<union> dom (scores (run_zset H ops)))"
      using snoc.prems(1) IH(3) members by (elim inj_on_subset) auto
    then have step: "zset_ok H (snd (run_zset_op H op (run_zset H ops)))"
      "scores (snd (run_zset_op H op (run_zset H ops))) = score_map_op op (scores (run_zset H ops))"
      using run_zset_op_ok[OF IH(1)] snoc.prems(2) by simp_all
    then have "dom (scores (snd (run_zset_op H op (run_zset H ops)))) \<subseteq> op_members (ops @ [op])"
      using dom_score_map_op[of op "scores (run_zset H ops)"] IH(3) members by fastforce
    then show ?case using step IH(2) by (simp add: run_zset_def)
  qed
  then show "zset_ok H (run_zset H ops)" "scores (run_zset H ops) = fold score_map_op ops Map.empty"
    "dom (scores (run_zset H ops)) \<subseteq> op_members ops" by blast+
qed

section \<open>The listing\<close>

text \<open>The members with their scores in the order of the tree.\<close>

definition listing :: "zset \<Rightarrow> (str \<times> double) list" where
  "listing z = map (\<lambda>e. (the (find_member_by_hash (sm_hash e) z), sm_score e)) (bt_items (ordered_set z))"

definition listing_key :: "(str \<Rightarrow> u64) \<Rightarrow> str \<times> double \<Rightarrow> int \<times> u64" where
  "listing_key H p = (dbl_order (snd p), H (fst p))"

lemma find_member:
  assumes "zset_ok H z" and "e \<in> set (bt_items (ordered_set z))"
  obtains m s where "e = make_element H m s" and "scores z m = Some s"
    and "find_member_by_hash (sm_hash e) z = Some m"
  using assms zset_okD(4,5)[OF assms(1)] by (auto simp: elements_iff find_member_by_hash_def)

lemma listing_items:
  assumes "zset_ok H z"
  shows "map (\<lambda>(m, s). make_element H m s) (listing z) = bt_items (ordered_set z)"
    and "length (listing z) = length (bt_items (ordered_set z))"
    and "set (listing z) = {(m, s). scores z m = Some s}"
    and "sorted_wrt (\<lambda>p q. listing_key H p < listing_key H q) (listing z)"
    and "distinct (map fst (listing z))"
proof -
  have elem: "(case (the (find_member_by_hash (sm_hash e) z), sm_score e) of (m, s) \<Rightarrow> make_element H m s) = e"
    if "e \<in> set (bt_items (ordered_set z))" for e
    using find_member[OF assms that] by (metis case_prod_conv element_score option.sel)
  show items: "map (\<lambda>(m, s). make_element H m s) (listing z) = bt_items (ordered_set z)"
    using elem by (simp add: listing_def map_idI)
  show "length (listing z) = length (bt_items (ordered_set z))" by (simp add: listing_def)
  have "(m, s) \<in> set (listing z) \<longleftrightarrow> scores z m = Some s" for m s
  proof
    assume "(m, s) \<in> set (listing z)"
    then obtain e where "e \<in> set (bt_items (ordered_set z))" "m = the (find_member_by_hash (sm_hash e) z)" "s = sm_score e"
      by (auto simp: listing_def)
    then show "scores z m = Some s" using find_member[OF assms] by (metis element_score option.sel)
  next
    assume "scores z m = Some s"
    then have e: "make_element H m s \<in> set (bt_items (ordered_set z))" using zset_okD(4)[OF assms] by (auto simp: elements_iff)
    have "find_member_by_hash (H m) z = Some m" using zset_okD(5)[OF assms] \<open>scores z m = Some s\<close> by (auto simp: find_member_by_hash_def)
    then show "(m, s) \<in> set (listing z)" using e by (force simp: listing_def)
  qed
  then show set: "set (listing z) = {(m, s). scores z m = Some s}" by auto
  have "ascending scored_key (map (\<lambda>(m, s). make_element H m s) (listing z))"
    using zset_okD(1)[OF assms] items by (simp add: ordered_tree_def)
  then show sorted: "sorted_wrt (\<lambda>p q. listing_key H p < listing_key H q) (listing z)"
    by (simp add: ascending_def listing_key_def sorted_wrt_map case_prod_beta)
  have "distinct (listing z)" using sorted unfolding distinct_conv_nth sorted_wrt_iff_nth_less
    by (metis linorder_neqE_nat order_less_irrefl)
  moreover have "inj_on fst (set (listing z))" using set by (auto simp: inj_on_def)
  ultimately show "distinct (map fst (listing z))" by (simp add: distinct_map)
qed

lemma listing_size:
  assumes "zset_ok H z"
  shows "length (listing z) = card (dom (scores z))"
proof -
  have "dom (scores z) = set (map fst (listing z))" using listing_items(3)[OF assms] by force
  then show ?thesis using distinct_card[OF listing_items(5)[OF assms]] by simp
qed

text \<open>
  C1. A sorted set is a map from members to scores together with its ordering.  After any history of Add, Remove and
  Clear, with scores that are no NaN and members the hash tells apart, GetScore and Contains answer like the
  map the calls describe, Size is the number of its members, every further Add and Remove reports correctly
  whether it added or removed, and walking the tree lists exactly the entries of the map, by ascending
  score and then by hash.
\<close>

theorem zset_refines_map:
  assumes "inj_on H (op_members (op # ops))" and "\<forall>op \<in> set ops. op_number op" and "op_number op"
    and "card (dom (fold score_map_op ops Map.empty)) < 2 ^ 32"
  defines "z \<equiv> run_zset H ops" and "M \<equiv> fold score_map_op ops Map.empty"
  shows "zs_get_score m z = M m \<and> zs_contains m z = (M m \<noteq> None) \<and> zs_size z = of_nat (card (dom M))
    \<and> fst (run_zset_op H op z) = score_map_answer op M
    \<and> set (listing z) = {(m, s). M m = Some s}
    \<and> sorted_wrt (\<lambda>p q. listing_key H p < listing_key H q) (listing z)"
proof -
  have inj: "inj_on H (op_members ops)" using assms(1) by (rule inj_on_subset) (auto simp: op_members_def)
  note run = run_zset_ok[OF inj assms(2), folded z_def M_def]
  have "inj_on H (op_member op \<union> dom (scores z))"
    using assms(1) run(3) by (elim inj_on_subset) (auto simp: op_members_def)
  then have "fst (run_zset_op H op z) = score_map_answer op M" using run_zset_op_ok[OF run(1) _ assms(3)] run(2) by simp
  moreover have "zs_size z = of_nat (card (dom M))"
  proof -
    have "bt_count (ordered_set z) = of_nat (card (dom M))"
      using zset_okD(1)[OF run(1)] listing_size[OF run(1)] listing_items(2)[OF run(1)] run(2)
      by (simp add: ordered_tree_def bt_ok_def)
    then show ?thesis using assms(4)
      by (simp add: zs_size_def bt_size_def M_def) (simp add: unsigned_of_nat take_bit_nat_eq_self)
  qed
  ultimately show ?thesis
    using run(2) listing_items[OF run(1)] by (simp add: zs_get_score_def zs_contains_def flip: scores_def)
qed

text \<open>Three members, one of them with a new score, two with the same one.\<close>

definition sample_hash :: "str \<Rightarrow> u64" where
  "sample_hash m = of_nat (le_value m)"

definition sample_zset_ops :: "zset_op list" where
  "sample_zset_ops = [Z_add [97] 5, Z_add [98] 3, Z_add [99] 3, Z_add [97] 1, Z_add [100] 2, Z_remove [100]]"

lemma sample_zset:
  "inj_on sample_hash (op_members (Z_remove [98] # sample_zset_ops))" "inj_on sample_hash (op_members sample_zset_ops)"
  "\<forall>op \<in> set sample_zset_ops. op_number op"
  "fold score_map_op sample_zset_ops Map.empty = [[97] \<mapsto> 1, [98] \<mapsto> 3, [99] \<mapsto> 3]"
proof -
  show "inj_on sample_hash (op_members (Z_remove [98] # sample_zset_ops))" "inj_on sample_hash (op_members sample_zset_ops)"
    by (simp_all add: op_members_def sample_zset_ops_def inj_on_def sample_hash_def)
  show "\<forall>op \<in> set sample_zset_ops. op_number op"
    by (simp add: sample_zset_ops_def is_nan_def dbl_magnitude_def)
  show "fold score_map_op sample_zset_ops Map.empty = [[97] \<mapsto> 1, [98] \<mapsto> 3, [99] \<mapsto> 3]"
    by (auto simp: sample_zset_ops_def dbl_eq_def is_nan_def dbl_magnitude_def dbl_order_def fun_eq_iff)
qed

theorem zset_refines_map_witness:
  "zs_get_score [97] (run_zset sample_hash sample_zset_ops) = Some 1
   \<and> fst (zs_remove sample_hash [98] (run_zset sample_hash sample_zset_ops))"
  using zset_refines_map[OF sample_zset(1,3), of "[97]"] by (simp add: sample_zset(4))

section \<open>Ranks\<close>

lemma zset_count:
  assumes "zset_ok H z" and "length (listing z) < 2 ^ 32"
  shows "bt_count (ordered_set z) = of_nat (length (listing z))" and "unat (zs_size z) = length (listing z)"
    and "zs_size z = of_nat (length (listing z))"
proof -
  show count: "bt_count (ordered_set z) = of_nat (length (listing z))"
    using zset_okD(1)[OF assms(1)] listing_items(2)[OF assms(1)] by (simp add: ordered_tree_def bt_ok_def)
  then show unat: "unat (zs_size z) = length (listing z)"
    using assms(2) by (simp add: zs_size_def bt_size_def unsigned_ucast_eq unsigned_of_nat take_bit_nat_eq_self)
  then show "zs_size z = of_nat (length (listing z))" by (simp flip: unat)
qed

lemma element_at_rank:
  assumes "zset_ok H z" and "length (listing z) < 2 ^ 32" and "k < length (listing z)"
  shows "element_at (of_nat k) z = Some (make_element H (fst (listing z ! k)) (snd (listing z ! k)))"
    and "scores z (fst (listing z ! k)) = Some (snd (listing z ! k))"
    and "find_member_by_hash (H (fst (listing z ! k))) z = Some (fst (listing z ! k))"
proof -
  let ?xs = "bt_items (ordered_set z)"
  note items = listing_items[OF assms(1)]
  obtain path where path: "bt_from_rank (of_nat k) (ordered_set z) = Some path" "points ?xs path k"
    using bt_from_rank_ok[of "ordered_set z" k] zset_okD(1)[OF assms(1)] assms(2,3) items(2)
    by (auto simp: ordered_tree_def)
  moreover obtain node pos ups where "path = (node, pos) # ups" "pos < num_items node"
    using path(2) by (auto simp: points_def)
  ultimately have "element_at (of_nat k) z = Some (?xs ! k)"
    using points_item(2)[OF path(2)] by (simp add: element_at_def terminal_def)
  moreover have "?xs ! k = make_element H (fst (listing z ! k)) (snd (listing z ! k))"
    using assms(3) by (simp add: items(1)[symmetric] case_prod_beta)
  ultimately show "element_at (of_nat k) z = Some (make_element H (fst (listing z ! k)) (snd (listing z ! k)))" by simp
  show sc: "scores z (fst (listing z ! k)) = Some (snd (listing z ! k))"
    using nth_mem[OF assms(3)] unfolding items(3) by auto
  then show "find_member_by_hash (H (fst (listing z ! k))) z = Some (fst (listing z ! k))"
    using zset_okD(5)[OF assms(1)] by (auto simp: find_member_by_hash_def)
qed

lemma ucast_of_nat32: "k < 2 ^ 32 \<Longrightarrow> (ucast (of_nat k :: u32) :: u64) = of_nat k"
  by (simp add: unsigned_of_nat take_bit_nat_eq_self)

lemma ucast_of_nat64: "(ucast (of_nat k :: u64) :: u32) = of_nat k"
  by (rule bit_word_eqI) (auto simp: bit_simps)

text \<open>
  C18. The ranks of a sorted set.  The member listed at position \<open>k\<close> has GetRank \<open>k\<close>, or \<open>n - 1 - k\<close> reversed; it is what
  GetByRank(k) returns and its score what GetScoreByRank(k) returns, whether or not the reverse order is
  asked for: both ignore that argument.  Members that are not there have no rank, and ranks from \<open>n\<close> on no
  member.
\<close>

theorem zset_ranks:
  assumes "zset_ok H z" and "length (listing z) < 2 ^ 32"
  shows "(k < length (listing z) \<longrightarrow>
      zs_get_rank H (fst (listing z ! k)) False z = Some (of_nat k)
      \<and> zs_get_rank H (fst (listing z ! k)) True z = Some (of_nat (length (listing z) - 1 - k))
      \<and> zs_get_by_rank (of_nat k) reverse z = Some (fst (listing z ! k))
      \<and> zs_get_score_by_rank (of_nat k) reverse z = Some (snd (listing z ! k)))
    \<and> (\<not> zs_contains m z \<longrightarrow> zs_get_rank H m reverse z = None)
    \<and> (length (listing z) \<le> unat rank \<longrightarrow> zs_get_by_rank rank reverse z = None \<and> zs_get_score_by_rank rank reverse z = None)"
proof (intro conjI impI)
  note items = listing_items[OF assms(1)] and count = zset_count[OF assms]
  show "zs_get_rank H m reverse z = None" if "\<not> zs_contains m z"
    using that by (simp add: zs_contains_def zs_get_rank_def)
  show "zs_get_by_rank rank reverse z = None" "zs_get_score_by_rank rank reverse z = None"
    if "length (listing z) \<le> unat rank"
    using that count(2) by (simp_all add: zs_get_by_rank_def zs_get_score_by_rank_def word_le_nat_alt)
  assume k: "k < length (listing z)"
  note at = element_at_rank[OF assms k]
  have "unat (of_nat k :: u64) = k" using k assms(2) by (simp add: unsigned_of_nat take_bit_nat_eq_self)
  then have less: "\<not> zs_size z \<le> of_nat k" using k count(2) by (simp add: word_le_nat_alt)
  have elem: "make_element H (fst (listing z ! k)) (snd (listing z ! k)) = bt_items (ordered_set z) ! k"
    using k by (simp add: items(1)[symmetric] case_prod_beta)
  have "scored_proper (make_element H (fst (listing z ! k)) (snd (listing z ! k)))"
    using zset_okD(1)[OF assms(1)] k items(2) elem by (simp add: ordered_tree_def)
  then have rank: "bt_get_rank scored_less (make_element H (fst (listing z ! k)) (snd (listing z ! k))) r (ordered_set z)
      = Some (of_nat (if r then length (listing z) - 1 - k else k))" for r
    using scored.rank_ordered[OF zset_okD(1)[OF assms(1)], of _ k r] k items(2) elem by simp
  show "zs_get_rank H (fst (listing z ! k)) False z = Some (of_nat k)"
    "zs_get_rank H (fst (listing z ! k)) True z = Some (of_nat (length (listing z) - 1 - k))"
    using rank[of False] rank[of True] at(2) k assms(2) ucast_of_nat32
    by (simp_all add: zs_get_rank_def flip: scores_def del: of_nat_diff)
  show "zs_get_by_rank (of_nat k) reverse z = Some (fst (listing z ! k))"
    "zs_get_score_by_rank (of_nat k) reverse z = Some (snd (listing z ! k))"
    using at less by (simp_all add: zs_get_by_rank_def zs_get_score_by_rank_def ucast_of_nat64)
qed

lemma sample_zset_ok: "zset_ok sample_hash (run_zset sample_hash sample_zset_ops)"
  using run_zset_ok(1)[OF sample_zset(2,3)] .

lemma sample_listing: "listing (run_zset sample_hash sample_zset_ops) = [([97], 1), ([98], 3), ([99], 3)]"
  by code_simp

theorem zset_ranks_witness:
  "zs_get_rank sample_hash [99] True (run_zset sample_hash sample_zset_ops) = Some 0
   \<and> zs_get_by_rank 0 True (run_zset sample_hash sample_zset_ops) = Some [97]"
  using zset_ranks[OF sample_zset_ok, of 2 True "[]" 0] zset_ranks[OF sample_zset_ok, of 0 True "[]" 0]
  by (simp add: sample_listing)

section \<open>Ranges\<close>

lemma takeWhile_filter_sorted:
  "sorted_wrt (\<lambda>a b. P b \<longrightarrow> P a) xs \<Longrightarrow> takeWhile P xs = filter P xs"
  by (induction xs) (auto simp: filter_empty_conv)

lemma scan_scores_ok:
  "points xs path k \<Longrightarrow> length xs \<le> fuel + k \<Longrightarrow>
   scan_scores fuel hi step path s = Some (fold step (takeWhile (\<lambda>e. \<not> dbl_less hi (sm_score e)) (drop k xs)) s)"
proof (induction fuel arbitrary: path k s)
  case 0
  then show ?case using points_item(1) by force
next
  case (Suc fuel)
  note at = points_item[OF Suc.prems(1)]
  obtain b path' where nxt: "path_next path = (b, path')" by (cases "path_next path")
  have drop: "drop k xs = xs ! k # drop (Suc k) xs" using at(1) by (simp add: Cons_nth_drop_Suc)
  show ?case
  proof (cases "Suc k < length xs")
    case True
    then have "b" "points xs path' (Suc k)" using path_next_ok[OF Suc.prems(1)] nxt by simp_all
    then show ?thesis using Suc.IH[of path' "Suc k"] Suc.prems(2) at(2) nxt drop by simp
  next
    case False
    then have "\<not> b" using path_next_ok[OF Suc.prems(1)] nxt by simp
    then show ?thesis using at(2) nxt drop False by simp
  qed
qed

lemma scan_range_ok:
  assumes "zset_ok H z" and "length (listing z) < 2 ^ 32" and "\<not> is_nan lo"
  shows "scan_range lo hi step z s
    = Some (fold step (filter (\<lambda>e. dbl_order lo \<le> dbl_order (sm_score e) \<and> \<not> dbl_less hi (sm_score e)) (bt_items (ordered_set z))) s)"
proof -
  let ?xs = "bt_items (ordered_set z)" and ?q = "scored_member lo 0"
  note tree = zset_okD(1)[OF assms(1)]
  have asc: "ascending scored_key ?xs" and proper: "\<forall>e \<in> set ?xs. \<not> is_nan (sm_score e)"
    using tree by (simp_all add: ordered_tree_def scored_proper_def)
  have len: "length ?xs < 2 ^ 32" "bt_count (ordered_set z) = of_nat (length ?xs)"
    using assms(2) zset_count(1)[OF assms(1,2)] listing_items(2)[OF assms(1)] by simp_all
  then have fuel: "unat (bt_count (ordered_set z)) = length ?xs" by (simp add: unsigned_of_nat take_bit_nat_eq_self)
  have key: "scored_key ?q \<le> scored_key e \<longleftrightarrow> dbl_order lo \<le> dbl_order (sm_score e)" for e
    by (auto simp: scored_key_def scored_member_def)
  have upto: "takeWhile (\<lambda>e. \<not> dbl_less hi (sm_score e)) (filter P ?xs) = filter (\<lambda>e. \<not> dbl_less hi (sm_score e)) (filter P ?xs)" for P
  proof (rule takeWhile_filter_sorted)
    have sorted: "sorted_wrt (\<lambda>a b. scored_key a < scored_key b) (filter P ?xs)"
      using ascending_filter[OF asc] by (simp add: ascending_def sorted_wrt_map)
    have "\<not> dbl_less hi (sm_score a)"
      if "a \<in> set ?xs" "b \<in> set ?xs" "scored_key a < scored_key b" "\<not> dbl_less hi (sm_score b)" for a b
      using that proper by (auto simp: dbl_less_def scored_key_def)
    then show "sorted_wrt (\<lambda>a b. \<not> dbl_less hi (sm_score b) \<longrightarrow> \<not> dbl_less hi (sm_score a)) (filter P ?xs)"
      by (intro sorted_wrt_mono_rel[OF _ sorted]) auto
  qed
  let ?above = "filter (\<lambda>e. dbl_order lo \<le> dbl_order (sm_score e)) ?xs"
  have above: "?above = drop (length (filter (\<lambda>e. scored_key e < scored_key ?q) ?xs)) ?xs"
    using filter_from_bound[OF asc, of "scored_key ?q"] by (simp add: key)
  show ?thesis
  proof (cases "?xs = []")
    case True
    then show ?thesis using len by (simp add: scan_range_def zs_empty_def)
  next
    case False
    then have nonzero: "bt_count (ordered_set z) \<noteq> 0" using fuel by force
    have "scored_proper ?q" using assms(3) by (simp add: scored_proper_def scored_member_def)
    from scored.geq_ordered[OF tree this bt_root_items[OF False]] obtain path where
      path: "bt_geq scored_less ?q (ordered_set z) = Some path"
      "let k = length (filter (\<lambda>e. scored_key e < scored_key ?q) ?xs) in if k < length ?xs then points ?xs path k else path = []"
      by blast
    let ?k = "length (filter (\<lambda>e. scored_key e < scored_key ?q) ?xs)"
    have chosen: "filter (\<lambda>e. dbl_order lo \<le> dbl_order (sm_score e) \<and> \<not> dbl_less hi (sm_score e)) ?xs
        = takeWhile (\<lambda>e. \<not> dbl_less hi (sm_score e)) (drop ?k ?xs)"
      using upto[of "\<lambda>e. dbl_order lo \<le> dbl_order (sm_score e)"] unfolding above by (simp add: conj_commute flip: above)
    show ?thesis
    proof (cases "?k < length ?xs")
      case True
      then have at: "points ?xs path ?k" using path(2) by simp
      then have "path \<noteq> []" by (auto simp: points_def)
      then show ?thesis using scan_scores_ok[OF at, of "length ?xs" hi step s] path(1) nonzero fuel chosen
        by (simp add: scan_range_def zs_empty_def)
    next
      case False
      then show ?thesis using path nonzero chosen by (simp add: scan_range_def zs_empty_def)
    qed
  qed
qed

lemma fold_push_result:
  assumes "zset_ok H z" and "set es \<subseteq> set (bt_items (ordered_set z))"
  shows "fold (push_result with_scores z) es result
    = result @ map (\<lambda>e. (the (find_member_by_hash (sm_hash e) z), if with_scores then sm_score e else 0)) es"
  using assms(2)
proof (induction es arbitrary: result)
  case (Cons e es)
  then have "e \<in> set (bt_items (ordered_set z))" by simp
  then obtain m where "find_member_by_hash (sm_hash e) z = Some m" using find_member[OF assms(1)] by metis
  then show ?case using Cons by (simp add: push_result_def)
qed simp

text \<open>
  C17. A query by score returns exactly the members whose score lies between the two bounds, both included, in the
  order of the listing, with their scores or with zeros as asked, and CountRange their number; its loop ends
  within as many rounds as there are members and no assertion fails.
\<close>

theorem range_by_score:
  assumes "zset_ok H z" and "length (listing z) < 2 ^ 32" and "\<not> is_nan lo" and "\<not> is_nan hi"
  defines "selected \<equiv> \<lambda>p :: str \<times> double. dbl_le lo (snd p) \<and> dbl_le (snd p) hi"
  shows "zs_get_range_by_score lo hi with_scores z
      = Some (map (\<lambda>(m, s). (m, if with_scores then s else 0)) (filter selected (listing z)))
    \<and> zs_count_range lo hi z = Some (of_nat (length (filter selected (listing z))))"
proof -
  let ?xs = "bt_items (ordered_set z)"
  let ?P = "\<lambda>e. dbl_order lo \<le> dbl_order (sm_score e) \<and> \<not> dbl_less hi (sm_score e)"
  have proper: "\<forall>e \<in> set ?xs. \<not> is_nan (sm_score e)"
    using zset_okD(1)[OF assms(1)] by (simp add: ordered_tree_def scored_proper_def)
  have "filter selected (listing z) = map (\<lambda>e. (the (find_member_by_hash (sm_hash e) z), sm_score e)) (filter ?P ?xs)"
    using proper assms(3,4) unfolding listing_def filter_map
    by (intro arg_cong[where f = "map _"] filter_cong) (auto simp: selected_def dbl_le_def dbl_less_def dbl_eq_def)
  moreover have "fold (\<lambda>_ c. c + 1) es c = c + of_nat (length es)" for es :: "scored_member list" and c :: u64
    by (induction es arbitrary: c) (simp_all add: algebra_simps)
  ultimately show ?thesis
    using scan_range_ok[OF assms(1-3), of hi "push_result with_scores z" "[]"]
      scan_range_ok[OF assms(1-3), of hi "\<lambda>_ c. c + 1" "0 :: u64"] fold_push_result[OF assms(1), of "filter ?P ?xs"]
    by (simp add: zs_get_range_by_score_def zs_count_range_def comp_def)
qed

theorem range_by_score_witness:
  "zs_get_range_by_score 2 3 True (run_zset sample_hash sample_zset_ops) = Some [([98], 3), ([99], 3)]
   \<and> zs_count_range 0 1 (run_zset sample_hash sample_zset_ops) = Some 1"
  using range_by_score[OF sample_zset_ok, of 2 3 True] range_by_score[OF sample_zset_ok, of 0 1 True]
  by (simp add: sample_listing dbl_le_def dbl_less_def dbl_eq_def is_nan_def dbl_magnitude_def dbl_order_def)

lemma zs_size_pos:
  assumes "zset_ok H z" and "length (listing z) < 2 ^ 32" and "0 < length (listing z)"
  shows "zs_size z - 1 = of_nat (length (listing z) - 1)" and "unat (zs_size z - 1) = length (listing z) - 1"
proof -
  show size: "zs_size z - 1 = of_nat (length (listing z) - 1)"
    using zset_count(3)[OF assms(1,2)] assms(3) by (cases "length (listing z)") simp_all
  show "unat (zs_size z - 1) = length (listing z) - 1"
    unfolding size using assms(2) by (simp add: unsigned_of_nat take_bit_nat_eq_self)
qed

text \<open>
  A query by rank returns the members at the positions from \<open>start\<close> to \<open>stop\<close>, both included, of the listing or
  of the reversed listing; positions beyond the end are left out.
\<close>

theorem range_by_rank:
  assumes "zset_ok H z" and "length (listing z) < 2 ^ 32"
  shows "zs_get_range_by_rank start stop reverse with_scores z
    = map (\<lambda>(m, s). (m, if with_scores then s else 0))
        (take (Suc (unat stop) - unat start) (drop (unat start) (if reverse then rev (listing z) else listing z)))"
proof (cases "unat start < length (listing z)")
  case False
  then show ?thesis using zset_count(2)[OF assms] by (simp add: zs_get_range_by_rank_def word_le_nat_alt)
next
  case True
  let ?n = "length (listing z)" and ?L = "if reverse then rev (listing z) else listing z"
  let ?f = "\<lambda>(m, s). (m, if with_scores then s else 0) :: str \<times> double"
  define b where "b = Suc (unat (min stop (zs_size z - 1)))"
  have "0 < ?n" using True by linarith
  note size = zs_size_pos[OF assms this]
  have b: "b = min (Suc (unat stop)) ?n"
  proof -
    obtain n' where n': "?n = Suc n'" using \<open>0 < ?n\<close> by (cases ?n) auto
    then show ?thesis using size(2) by (auto simp: b_def min_def word_le_nat_alt simp del: length_greater_0_conv)
  qed
  let ?step = "\<lambda>i result. let rank = (if reverse then ucast (zs_size z - 1 - of_nat i) else of_nat i) :: u32 in
      case element_at rank z of None \<Rightarrow> result | Some elem \<Rightarrow> push_result with_scores z elem result"
  have step: "?step i result = result @ [?f (?L ! i)]" if "i < ?n" for i result
  proof -
    let ?k = "if reverse then ?n - 1 - i else i"
    have k: "?k < ?n" "?L ! i = listing z ! ?k" using that by (auto simp: rev_nth)
    have "(if reverse then ucast (zs_size z - 1 - of_nat i) else of_nat i :: u32) = of_nat ?k"
    proof (cases reverse)
      case rev: True
      have "zs_size z - 1 - of_nat i = of_nat (?n - 1 - i)"
        using size(1) that by (simp add: of_nat_diff)
      then show ?thesis using rev ucast_of_nat64 by (simp del: of_nat_diff)
    qed simp
    then show ?thesis
      using element_at_rank[OF assms k(1)] k(2) by (simp add: push_result_def case_prod_beta Let_def)
  qed
  have "fold ?step is result = result @ map (\<lambda>i. ?f (?L ! i)) is" if "\<forall>i \<in> set is. i < ?n" for "is" result
    using that by (induction "is" arbitrary: result) (simp_all only: fold_simps step list.set ball_simps comp_def list.map append_assoc append_Cons append_Nil append_Nil2 simp_thms id_apply insert_iff, auto)
  then have "zs_get_range_by_rank start stop reverse with_scores z = map (\<lambda>i. ?f (?L ! i)) [unat start..<b]"
    using True zset_count(2)[OF assms] b
    by (simp add: zs_get_range_by_rank_def word_le_nat_alt Let_def b_def del: upt_Suc)
  also have "\<dots> = map ?f (map ((!) ?L) [unat start..<b])" by simp
  also have "map ((!) ?L) [unat start..<b] = take (b - unat start) (drop (unat start) ?L)"
    by (rule map_nth_upt) (use b in simp)
  also have "take (b - unat start) (drop (unat start) ?L) = take (Suc (unat stop) - unat start) (drop (unat start) ?L)"
    using b by (auto simp: min_def)
  finally show ?thesis .
qed

theorem range_by_rank_witness:
  "zs_get_range_by_rank 1 7 False True (run_zset sample_hash sample_zset_ops) = [([98], 3), ([99], 3)]
   \<and> zs_get_range_by_rank 0 0 True False (run_zset sample_hash sample_zset_ops) = [([99], 0)]"
  using range_by_rank[OF sample_zset_ok, of 1 7 False True] range_by_rank[OF sample_zset_ok, of 0 0 True False]
  by (simp add: sample_listing)

text \<open>Both calls on a set whose mutex is free: \<open>Remove\<close> gives it back, and so a loop of such calls returns.\<close>

lemma zl_remove_free:
  "\<not> mutex_held s \<Longrightarrow> zl_remove H m s = Some (fst (zs_remove H m (guarded s)), s\<lparr>guarded := snd (zs_remove H m (guarded s))\<rparr>)"
  by (cases s) (simp add: zl_remove_def mutex_lock_def mutex_unlock_def split_beta Let_def)

lemma remove_members_free:
  "\<not> mutex_held s \<Longrightarrow> \<exists>n. remove_members H ms removed s = Some (n, s\<lparr>guarded := fold (\<lambda>m. snd \<circ> zs_remove H m) ms (guarded s)\<rparr>)"
proof (induction ms arbitrary: removed s)
  case (Cons m ms)
  then show ?case using Cons.IH[of "s\<lparr>guarded := snd (zs_remove H m (guarded s))\<rparr>"] by (simp add: zl_remove_free)
qed simp

lemma remove_members_held: "mutex_held s \<Longrightarrow> remove_members H ms 0 s = (if ms = [] then Some (0, s) else None)"
  by (cases ms) (simp_all add: zl_remove_def mutex_lock_def)

text \<open>
  C37. RemoveRangeByScore cannot return once there is something to remove.  On a set whose mutex is free, Remove returns
  and gives the mutex back, and so does a loop of Remove calls, which has removed all its members; but inside
  RemoveRangeByScore the first of these calls finds the mutex taken by its own caller.  The call returns, with 0 and the
  set unchanged, exactly when no member's score lies between the bounds.
\<close>

theorem remove_range_deadlocks:
  assumes "zset_ok H (guarded s)" "visits_all ord" "\<not> mutex_held s"
  shows "zs_remove_range_by_score ord H lo hi s
      = (if \<exists>m x. scores (guarded s) m = Some x \<and> dbl_le lo x \<and> dbl_le x hi then None else Some (0, s))
    \<and> zl_remove H m s = Some (fst (zs_remove H m (guarded s)), s\<lparr>guarded := snd (zs_remove H m (guarded s))\<rparr>)
    \<and> (\<exists>n. remove_members H ms 0 s = Some (n, s\<lparr>guarded := fold (\<lambda>m. snd \<circ> zs_remove H m) ms (guarded s)\<rparr>))"
proof -
  let ?z = "guarded s"
  let ?sel = "[m. (m, x) \<leftarrow> shard_entries ord (member_to_score ?z), dbl_le lo x \<and> dbl_le x hi]"
  have "?sel = [] \<longleftrightarrow> (\<nexists>m x. (m, x) \<in> set (shard_entries ord (member_to_score ?z)) \<and> dbl_le lo x \<and> dbl_le x hi)"
    by (auto split: if_splits)
  also have "\<dots> \<longleftrightarrow> (\<nexists>m x. scores ?z m = Some x \<and> dbl_le lo x \<and> dbl_le x hi)"
    using set_shard_entries[OF assms(2) zset_okD(2)[OF assms(1)]] by (simp add: scores_def)
  moreover have "zs_remove_range_by_score ord H lo hi s = (if ?sel = [] then Some (0, s) else None)"
    using assms(3) by (cases s) (simp add: zs_remove_range_by_score_def mutex_lock_def mutex_unlock_def remove_members_held)
  ultimately show ?thesis using zl_remove_free[OF assms(3)] remove_members_free[OF assms(3)] by simp
qed

theorem remove_range_deadlocks_witness:
  "zs_remove_range_by_score rev sample_hash 2 9 \<lparr>mutex_held = False, guarded = run_zset sample_hash sample_zset_ops\<rparr> = None"
proof -
  have "scores (run_zset sample_hash sample_zset_ops) [98] = Some 3"
    using run_zset_ok(2)[OF sample_zset(2,3)] sample_zset(4) by simp
  moreover have "dbl_le 2 3" "dbl_le 3 9"
    by (simp_all add: dbl_le_def dbl_less_def is_nan_def dbl_magnitude_def dbl_order_def)
  ultimately have "\<exists>m x. scores (run_zset sample_hash sample_zset_ops) m = Some x \<and> dbl_le 2 x \<and> dbl_le x 9" by blast
  then show ?thesis
    using remove_range_deadlocks[of sample_hash "\<lparr>mutex_held = False, guarded = run_zset sample_hash sample_zset_ops\<rparr>" rev 2 9 "[]" "[]"]
      sample_zset_ok by (simp add: visits_all_rev)
qed

section \<open>Storing\<close>

lemma length_put_u64 [simp]: "length (put_u64 w) = 8"
  by (simp add: put_u64_def)

lemma le_value_put_u64 [simp]: "(of_nat (le_value (put_u64 w)) :: u64) = w"
proof -
  have "unat w < 2 ^ LENGTH(64)" by (rule unsigned_less)
  then have "unat w < 256 ^ 8" by simp
  then show ?thesis by (simp add: put_u64_def le_value_bytes)
qed

definition scored_fits :: "str \<times> double \<Rightarrow> bool" where
  "scored_fits p \<longleftrightarrow> fits32 (fst p)"

lemma get_put_scored:
  assumes "scored_fits p"
  shows "get_scored (put_scored p @ rest) = Some (p, rest)"
proof -
  obtain m s where p: "p = (m, s)" by (cases p)
  have "get_blob 8 (put_blob m @ put_u64 s @ rest) = Some (m, put_u64 s @ rest)"
    using assms p by (intro get_put_blob) (simp_all add: scored_fits_def)
  then show ?thesis by (simp add: p put_scored_def get_scored_def)
qed

lemma get_scored_prefix:
  assumes "scored_fits p" and "i < length (put_scored p)"
  shows "get_scored (take i (put_scored p)) = None"
proof -
  obtain m s where p: "p = (m, s)" by (cases p)
  have fit: "fits32 m" "i < 4 + length m + 8" using assms p by (simp_all add: scored_fits_def put_scored_def)
  have "get_blob 8 (take i (put_blob m @ put_u64 s)) = None"
    using get_blob_prefix[OF fit(1), of i 8 "put_u64 s"] fit by simp
  then show ?thesis by (simp add: p put_scored_def get_scored_def)
qed

interpretation scored_format: item_format put_scored get_scored scored_fits
  by unfold_locales (simp_all add: get_put_scored get_scored_prefix)

lemma map_of_shard_entries:
  assumes "visits_all ord" and "shard_ok s"
  shows "map_of (shard_entries ord s) = map_of s" and "distinct (map fst (shard_entries ord s))"
    and "length (shard_entries ord s) = card (dom (map_of s))"
proof -
  show dist: "distinct (map fst (shard_entries ord s))"
    using visits_all_distinct[OF assms] by (simp add: shard_entries_def comp_def)
  then have "map_of (shard_entries ord s) k = Some v \<longleftrightarrow> map_of s k = Some v" for k v
    using set_shard_entries[OF assms, of k v] by (simp add: map_of_eq_Some_iff)
  then show eq: "map_of (shard_entries ord s) = map_of s" by (metis option.exhaust ext)
  then show "length (shard_entries ord s) = card (dom (map_of s))"
    using dist distinct_card[OF dist] by (metis dom_map_of_conv_image_fst length_map list.set_map)
qed

lemma add_all:
  "distinct (map fst es) \<Longrightarrow> \<forall>(m, s) \<in> set es. M m = None \<Longrightarrow>
   fold score_map_op (map (\<lambda>(m, s). Z_add m s) es) M = M ++ map_of es"
proof (induction es arbitrary: M)
  case (Cons e es)
  obtain m s where e: "e = (m, s)" by (cases e)
  have "fold score_map_op (map (\<lambda>(m, s). Z_add m s) es) (M(m \<mapsto> s)) = M(m \<mapsto> s) ++ map_of es"
    using Cons e by (intro Cons.IH) (auto simp: rev_image_eqI)
  moreover have "m \<notin> dom (map_of es)" using Cons.prems(1) e by (simp add: dom_map_of_conv_image_fst)
  ultimately show ?case using Cons.prems(2) e
    by (auto simp: fun_eq_iff map_add_def split: option.splits)
qed simp

lemma fold_adds: "fold (\<lambda>(m, s) z. snd (zs_add H m s z)) es z = fold (\<lambda>op z. snd (run_zset_op H op z)) (map (\<lambda>(m, s). Z_add m s) es) z"
  by (induction es arbitrary: z) auto

text \<open>
  C22. Storing a sorted set and reading it back gives the same members with the same scores, bit for bit, in a
  consistent set, also when the reading process hashes differently; a cut-off text is reported as such.
\<close>

theorem zset_roundtrip:
  assumes "zset_ok H z" and "visits_all ord" and "card (dom (scores z)) < 2 ^ 32"
    and "\<forall>m \<in> dom (scores z). fits32 m" and "inj_on H' (dom (scores z))"
  shows "fst (deserialize_zset H' (serialize_zset ord z) zs_new)
    \<and> scores (snd (deserialize_zset H' (serialize_zset ord z) zs_new)) = scores z
    \<and> zset_ok H' (snd (deserialize_zset H' (serialize_zset ord z) zs_new))
    \<and> (i < length (serialize_zset ord z) \<longrightarrow> \<not> fst (deserialize_zset H' (take i (serialize_zset ord z)) zs_new))"
proof -
  let ?es = "zs_get_all ord z" and ?add = "\<lambda>(m, s) z. snd (zs_add H' m s z)"
  note es = map_of_shard_entries[OF assms(2) zset_okD(2)[OF assms(1)], folded zs_get_all_def scores_def]
  have dom: "dom (scores z) = fst ` set ?es" using es(1) by (metis dom_map_of_conv_image_fst)
  have fits: "fits32 ?es" "\<forall>p \<in> set ?es. scored_fits p"
    using assms(3,4) es(3) dom by (auto simp: fits32_def scored_fits_def)
  have sz: "length (concat (map put_scored ?es)) = sum_list (map (\<lambda>(m, s). 4 + length m + 8) ?es)"
    using fits(2) by (intro sized_concat) (auto simp: put_scored_def scored_fits_def)
  have out: "serialize_zset ord z = put_u32 (of_nat (length ?es)) @ concat (map put_scored ?es) @ []"
    unfolding serialize_zset_def Let_def by (simp add: pad_exact sz)
  have read: "deserialize_zset H' (serialize_zset ord z) zs_new = (True, fold ?add ?es zs_new)"
    unfolding deserialize_zset_def out by (rule scored_format.read_counted_put[OF fits])
  have members: "op_members (map (\<lambda>(m, s). Z_add m s) ?es) = dom (scores z)"
    by (force simp: op_members_def dom)
  have "scores z m = Some s" if "(m, s) \<in> set ?es" for m s using that es(1,2) by (metis map_of_is_SomeI)
  then have nums: "\<forall>op \<in> set (map (\<lambda>(m, s). Z_add m s) ?es). op_number op"
    using zset_okD(1,4)[OF assms(1)] by (force simp: ordered_tree_def elements_iff)
  have final: "fold ?add ?es zs_new = run_zset H' (map (\<lambda>(m, s). Z_add m s) ?es)"
    by (simp add: fold_adds run_zset_def)
  note run = run_zset_ok[OF assms(5)[folded members] nums, folded final]
  have "scores (fold ?add ?es zs_new) = scores z"
    using run(2) add_all[OF es(2), of Map.empty] es(1) by simp
  moreover have "i < length (serialize_zset ord z) \<longrightarrow> \<not> fst (deserialize_zset H' (take i (serialize_zset ord z)) zs_new)"
    using scored_format.read_counted_prefix[OF fits, of i ?add zs_new] out by (simp add: deserialize_zset_def)
  ultimately show ?thesis using read run(1) by simp
qed

theorem zset_roundtrip_witness:
  "zs_get_score [98] (snd (deserialize_zset sample_hash
     (serialize_zset rev (run_zset sample_hash sample_zset_ops)) zs_new)) = Some 3"
proof -
  let ?z = "run_zset sample_hash sample_zset_ops"
  have sc: "scores ?z = [[97] \<mapsto> 1, [98] \<mapsto> 3, [99] \<mapsto> 3]"
    using run_zset_ok(2)[OF sample_zset(2,3)] sample_zset(4) by simp
  have "card (dom (scores ?z)) < 2 ^ 32" "\<forall>m \<in> dom (scores ?z). fits32 m"
    by (simp_all add: sc fits32_def)
  then show ?thesis
    using zset_roundtrip[OF sample_zset_ok visits_all_rev, of sample_hash 0] zset_okD(3)[OF sample_zset_ok] sc
    by (simp add: zs_get_score_def flip: scores_def)
qed

section \<open>Colliding hashes\<close>

lemma ascending_unique:
  "ascending key xs \<Longrightarrow> ascending key ys \<Longrightarrow> set xs = set ys \<Longrightarrow> map key xs = map key ys"
  by (intro strict_sorted_equal) (simp_all add: ascending_def)

text \<open>
  C38. Elements carry only the hash of their member.  A new member whose hash and score equal those of a member of the
  set is reported as added and has a score, but the tree refuses its element: Size does not change, and the
  table from hashes to members now gives the new member, so ranks and ranges name it in the place of the old
  one.
\<close>

theorem collision_shadows_member:
  assumes "zset_ok H z" and "scores z old = Some s" and "\<not> zs_contains new z" and "H new = H old"
  shows "fst (zs_add H new s z) \<and> zs_get_score new (snd (zs_add H new s z)) = Some s
    \<and> zs_get_score old (snd (zs_add H new s z)) = Some s
    \<and> zs_size (snd (zs_add H new s z)) = zs_size z
    \<and> find_member_by_hash (H old) (snd (zs_add H new s z)) = Some new"
proof -
  note tree = zset_okD(1)[OF assms(1)]
  have fresh: "scores z new = None" using assms(3) by (simp add: zs_contains_def scores_def)
  have elem: "make_element H new s = make_element H old s" using assms(4) by simp
  have mem: "make_element H new s \<in> set (bt_items (ordered_set z))"
    using zset_okD(4)[OF assms(1)] assms(2) elem by (auto simp: elements_iff)
  then have "scored_proper (make_element H new s)" using tree unfolding ordered_tree_def by blast
  note ins = scored.insert_ordered[OF tree this surjective_pairing]
  have "scored_key (make_element H new s) \<in> tree_keys scored_key (ordered_set z)"
    using mem unfolding tree_keys_def by blast
  then have "set (bt_items (snd (bt_insert scored_less (make_element H new s) (ordered_set z)))) = set (bt_items (ordered_set z))"
    using ins(2,4) by simp
  then have "length (bt_items (snd (bt_insert scored_less (make_element H new s) (ordered_set z)))) = length (bt_items (ordered_set z))"
    using ascending_unique ins(1) tree unfolding ordered_tree_def by (metis length_map)
  then have "bt_count (snd (bt_insert scored_less (make_element H new s) (ordered_set z))) = bt_count (ordered_set z)"
    using ins(1) tree by (simp add: ordered_tree_def bt_ok_def)
  then show ?thesis
    using fresh assms(2,4)
    by (simp add: zs_add_def zs_get_score_def zs_size_def bt_size_def find_member_by_hash_def flip: scores_def)
qed

theorem collision_shadows_member_witness:
  "zs_size (snd (zs_add (\<lambda>_. 0) [2] 5 (run_zset (\<lambda>_. 0) [Z_add [1] 5]))) = 1"
proof -
  let ?z = "run_zset (\<lambda>_. 0) [Z_add [1] 5]"
  have ok: "inj_on (\<lambda>_. 0 :: u64) (op_members [Z_add [1] 5])" "\<forall>op \<in> set [Z_add [1] 5]. op_number op"
    by (simp_all add: op_members_def is_nan_def dbl_magnitude_def)
  note run = run_zset_ok[OF ok]
  have sc: "scores ?z = [[1] \<mapsto> 5]" using run(2) by simp
  have "zs_size ?z = 1" by code_simp
  then show ?thesis
    using collision_shadows_member[OF run(1), of "[1]" 5 "[2]"] sc by (simp add: zs_contains_def flip: scores_def)
qed

end
