(* ===== verification/Bitmap.thy ===== *)
theory Bitmap
  imports Kv_Prelude
begin

text \<open>
  \<^verbatim>\<open>src/bitmap.hpp\<close>: strings as bit arrays, the most significant bit of each byte first.  Offsets and positions are
  \<^verbatim>\<open>int64_t\<close>, here integers: the sums formed of them are of a length and an index that is negative, so none
  leaves that type.
\<close>

section \<open>Bits of a byte\<close>

lemma unat_drop_bit_less: "b \<noteq> 0 \<Longrightarrow> unat (drop_bit (Suc 0) b) < unat b" for b :: byte
  using unat_gt_0[of b] by (simp add: drop_bit_eq_div unat_div)

function pop_loop :: "byte \<Rightarrow> byte \<Rightarrow> byte" where
  "pop_loop b cnt = (if b = 0 then cnt else pop_loop (drop_bit 1 b) (cnt + (b AND 1)))"
  by auto
termination by (relation "measure (\<lambda>(b, _). unat b)") (auto intro: unat_drop_bit_less)

declare pop_loop.simps [simp del]

definition pop_count :: "byte \<Rightarrow> byte" where
  "pop_count b = pop_loop b 0"

section \<open>Operations\<close>

definition get_bit :: "str \<Rightarrow> int \<Rightarrow> bool" where
  "get_bit s offset =
     (if offset < 0 then False
      else (let byte_off = offset div 8; bit_in_byte = 7 - offset mod 8 in
        if byte_off \<ge> int (length s) then False
        else drop_bit (nat bit_in_byte) (s ! nat byte_off) AND 1 = 1))"

definition set_bit_at :: "str \<Rightarrow> int \<Rightarrow> int \<Rightarrow> str" where
  "set_bit_at s offset v =
     (if offset < 0 then s
      else (let byte_off = offset div 8;
                result = (if byte_off + 1 > int (length s) then s @ replicate (nat (byte_off + 1) - length s) 0 else s);
                m = push_bit (nat (7 - offset mod 8)) 1;
                b = result ! nat byte_off
            in result[nat byte_off := (if v \<noteq> 0 then b OR m else b AND NOT m)]))"

text \<open>The range of bytes \<^verbatim>\<open>BitCount\<close> and \<^verbatim>\<open>BitPos\<close> look at, when it is not empty.\<close>

definition byte_range :: "str \<Rightarrow> int \<Rightarrow> int \<Rightarrow> (nat \<times> nat) option" where
  "byte_range s start stop =
     (let len = int (length s) in
      if len = 0 then None
      else (let start1 = (if start < 0 then len + start else start);
                stop1 = (if stop < 0 then len + stop else stop);
                start2 = (if start1 < 0 then 0 else start1);
                stop2 = (if stop1 \<ge> len then len - 1 else stop1)
            in if start2 > stop2 then None else Some (nat start2, nat stop2)))"

definition bit_count :: "str \<Rightarrow> int \<Rightarrow> int \<Rightarrow> int" where
  "bit_count s start stop =
     (case byte_range s start stop of
        None \<Rightarrow> 0
      | Some (i, j) \<Rightarrow> fold (\<lambda>k cnt. cnt + uint (pop_count (s ! k))) [i..<Suc j] 0)"

text \<open>The two loops of \<^verbatim>\<open>BitPos\<close>: over the bits of one byte and over the bytes.\<close>

fun first_bit :: "bool \<Rightarrow> byte \<Rightarrow> nat list \<Rightarrow> nat option" where
  "first_bit target b [] = None"
| "first_bit target b (i # is) =
     (if (drop_bit (7 - i) b AND 1) = of_bool target then Some i else first_bit target b is)"

fun first_byte :: "bool \<Rightarrow> str \<Rightarrow> nat list \<Rightarrow> int" where
  "first_byte target s [] = -1"
| "first_byte target s (k # ks) =
     (case first_bit target (s ! k) [0..<8] of
        Some i \<Rightarrow> int k * 8 + int i
      | None \<Rightarrow> first_byte target s ks)"

definition bit_pos :: "str \<Rightarrow> int \<Rightarrow> int \<Rightarrow> int \<Rightarrow> int" where
  "bit_pos s b start stop =
     (case byte_range s start stop of
        None \<Rightarrow> -1
      | Some (i, j) \<Rightarrow> first_byte (b = 1) s [i..<Suc j])"

text \<open>\<^verbatim>\<open>BitOp\<close>; an unknown operation leaves the zero bytes.\<close>

definition bit_op :: "str \<Rightarrow> str list \<Rightarrow> str" where
  "bit_op oper vals =
     (if vals = [] then []
      else if oper = ascii ''NOT'' \<and> length vals \<noteq> 1 then []
      else (let max_len = foldl (\<lambda>m v. if length v > m then length v else m) 0 vals;
                at = (\<lambda>i f b0. fold (\<lambda>v b. f v b i) vals b0)
            in if oper = ascii ''AND'' then
                 map (\<lambda>i. at i (\<lambda>v b i. if i < length v then b AND v ! i else 0) 0xFF) [0..<max_len]
               else if oper = ascii ''OR'' then
                 map (\<lambda>i. at i (\<lambda>v b i. if i < length v then b OR v ! i else b) 0) [0..<max_len]
               else if oper = ascii ''XOR'' then
                 map (\<lambda>i. at i (\<lambda>v b i. if i < length v then b XOR v ! i else b) 0) [0..<max_len]
               else if oper = ascii ''NOT'' then map (\<lambda>i. NOT (vals ! 0 ! i)) [0..<max_len]
               else replicate max_len 0))"

section \<open>A string as a set of bits\<close>

lemma bit_test: "drop_bit k b AND 1 = 1 \<longleftrightarrow> bit b k" and bit_test_eq: "drop_bit k b AND 1 = of_bool t \<longleftrightarrow> bit b k = t"
  for b :: byte
  by (cases t; simp add: and_one_eq bit_iff_odd_drop_bit mod2_eq_if)+

definition offset_byte :: "int \<Rightarrow> nat" where "offset_byte offset = nat (offset div 8)"
definition offset_bit :: "int \<Rightarrow> nat" where "offset_bit offset = nat (7 - offset mod 8)"

lemma get_bit_eq: "get_bit s n \<longleftrightarrow> 0 \<le> n \<and> offset_byte n < length s \<and> bit (s ! offset_byte n) (offset_bit n)"
  by (auto simp: get_bit_def bit_test offset_byte_def offset_bit_def nat_less_iff Let_def)

lemma mod_8_le: "n mod 8 \<le> (7::int)"
  using pos_mod_bound[of 8 n] by linarith

lemma offset_decode: "0 \<le> n \<Longrightarrow> n = 8 * int (offset_byte n) + (7 - int (offset_bit n))"
  using mult_div_mod_eq[of 8 n] by (simp add: offset_byte_def offset_bit_def pos_imp_zdiv_nonneg_iff mod_8_le)

lemma offset_inj: "0 \<le> n \<Longrightarrow> 0 \<le> m \<Longrightarrow> offset_byte n = offset_byte m \<Longrightarrow> offset_bit n = offset_bit m \<Longrightarrow> n = m"
  using offset_decode[of n] offset_decode[of m] by simp

lemma offset_bit_less: "offset_bit n < 8"
  by (simp add: offset_bit_def)

text \<open>
  \<^verbatim>\<open>SetBit\<close> writes the bit at its offset and changes no other bit that \<^verbatim>\<open>GetBit\<close> can read, also where it makes the
  string longer; the string grows just enough to hold the offset.
\<close>

theorem get_set_bit:
  assumes "0 \<le> n"
  shows "get_bit (set_bit_at s n v) m = (if m = n then v \<noteq> 0 else get_bit s m)
         \<and> length (set_bit_at s n v) = max (length s) (nat (n div 8) + 1)"
proof -
  let ?pad = "if offset_byte n + 1 > length s then s @ replicate (offset_byte n + 1 - length s) 0 else s"
  let ?m = "push_bit (offset_bit n) 1 :: byte" and ?i = "offset_byte n"
  have cond: "n div 8 + 1 > int (length s) \<longleftrightarrow> ?i + 1 > length s" "nat (n div 8 + 1) = ?i + 1"
    using assms by (auto simp: offset_byte_def)
  have set: "set_bit_at s n v = ?pad[?i := (if v \<noteq> 0 then ?pad ! ?i OR ?m else ?pad ! ?i AND NOT ?m)]"
    using assms cond by (simp add: set_bit_at_def Let_def offset_byte_def offset_bit_def)
  have len: "length ?pad = max (length s) (?i + 1)" by auto
  then have grown: "length (set_bit_at s n v) = max (length s) (offset_byte n + 1)" by (simp add: set)
  have pad: "get_bit ?pad m = get_bit s m" by (auto simp: get_bit_eq nth_append)
  have "get_bit (set_bit_at s n v) m = (if m = n then v \<noteq> 0 else get_bit s m)"
  proof (cases "0 \<le> m \<and> offset_byte m = ?i")
    case False
    then show ?thesis using assms pad by (auto simp: set get_bit_eq)
  next
    case True
    have "bit (if v \<noteq> 0 then b OR ?m else b AND NOT ?m) (offset_bit m) = (if m = n then v \<noteq> 0 else bit b (offset_bit m))" for b :: byte
      using offset_inj[of m n] True assms offset_bit_less[of m]
      by (auto simp: bit_simps)
    then show ?thesis using True pad len by (auto simp: set get_bit_eq)
  qed
  then show ?thesis using grown by (simp add: offset_byte_def)
qed

theorem get_set_bit_witness:
  "get_bit (set_bit_at [0x80] 12 1) 12 \<and> get_bit (set_bit_at [0x80] 12 1) 0 \<and> length (set_bit_at [0x80] 12 1) = 2"
  using get_set_bit[of 12 "[0x80]" 1 12] get_set_bit[of 12 "[0x80]" 1 0] by (simp add: get_bit_def[of "[0x80]"])

section \<open>Counting and searching\<close>

lemma bits_shift:
  fixes b :: byte
  shows "{k. bit b k} = (if odd b then {0} else {}) \<union> Suc ` {k. bit (drop_bit (Suc 0) b) k}"
proof -
  have "bit b k \<longleftrightarrow> k = 0 \<and> odd b \<or> (\<exists>j. k = Suc j \<and> bit (drop_bit (Suc 0) b) j)" for k
    by (cases k) (auto simp: bit_drop_bit_eq bit_0)
  then show ?thesis by auto
qed

lemma finite_bits: "finite {k. bit (b :: byte) k}"
  by (rule finite_subset[of _ "{..<8}"]) (auto dest: bit_imp_le_length)

lemma pop_loop_card: "pop_loop b cnt = cnt + of_nat (card {k. bit b k})"
proof (induction b cnt rule: pop_loop.induct)
  case (1 b cnt)
  show ?case
  proof (cases "b = 0")
    case True
    then show ?thesis by (simp add: pop_loop.simps)
  next
    case False
    have "card {k. bit b k} = of_bool (odd b) + card {k. bit (drop_bit (Suc 0) b) k}"
      using finite_bits[of "drop_bit (Suc 0) b"]
      by (subst bits_shift) (auto simp: card_image card_insert_if)
    then show ?thesis
      using False 1 by (simp add: pop_loop.simps[of b] and_one_eq mod2_eq_if)
  qed
qed

lemma pop_count_card: "uint (pop_count b) = int (card {k. bit b k})"
proof -
  have "card {k. bit b k} \<le> card {..<8::nat}"
    by (rule card_mono) (auto dest: bit_imp_le_length)
  then show ?thesis by (simp add: pop_count_def pop_loop_card unsigned_of_nat take_bit_nat_eq_self of_nat_take_bit)
qed



lemma byte_range_bounds: "byte_range s start stop = Some (i, j) \<Longrightarrow> i \<le> j \<and> j < length s"
  by (cases s) (auto simp: byte_range_def Let_def nat_less_iff split: if_splits)

lemma fold_add_sum: "fold (\<lambda>k cnt. cnt + f k) xs c = c + sum_list (map f xs)" for c :: int
  by (induction xs arbitrary: c) auto

lemma get_bit_byte:
  assumes "k < length s"
  shows "{n. get_bit s n \<and> n div 8 = int k} = (\<lambda>b. 8 * int k + (7 - int b)) ` {b. bit (s ! k) b}" (is "?L = ?f ` ?B")
proof (intro set_eqI iffI)
  fix n assume "n \<in> ?L"
  then have "n = ?f (offset_bit n)" "offset_bit n \<in> ?B"
    using offset_decode[of n] by (auto simp: get_bit_eq offset_byte_def)
  then show "n \<in> ?f ` ?B" by blast
next
  fix n assume "n \<in> ?f ` ?B"
  then obtain b where b: "n = ?f b" "bit (s ! k) b" by blast
  then have "b < 8" by (auto dest: bit_imp_le_length)
  then have "n div 8 = int k" "n mod 8 = 7 - int b" using b(1) by (auto simp: div_mult_self4)
  then show "n \<in> ?L"
    using b assms \<open>b < 8\<close> by (auto simp: get_bit_eq offset_byte_def offset_bit_def)
qed

text \<open>
  \<^verbatim>\<open>BitCount\<close> is the number of set bits in the bytes of its range, negative ends counted from the end of the string
  and ends beyond the string cut off.
\<close>

theorem bit_count_card:
  assumes "byte_range s start stop = Some (i, j)"
  shows "bit_count s start stop = int (card {n. get_bit s n \<and> int i \<le> n div 8 \<and> n div 8 \<le> int j})"
proof -
  have ij: "i \<le> j" "j < length s"
    using byte_range_bounds[OF assms] by auto
  let ?B = "\<lambda>k. {n. get_bit s n \<and> n div 8 = int k}"
  have card: "finite (?B k) \<and> card (?B k) = card {b. bit (s ! k) b}" if "k < length s" for k
    using finite_bits by (auto simp: get_bit_byte[OF that] inj_on_def intro: card_image)
  have "{n. get_bit s n \<and> int i \<le> n div 8 \<and> n div 8 \<le> int j} = (\<Union>k \<in> {i..<Suc j}. ?B k)"
  proof (intro set_eqI iffI)
    fix n assume "n \<in> {n. get_bit s n \<and> int i \<le> n div 8 \<and> n div 8 \<le> int j}"
    then have "n \<in> ?B (nat (n div 8))" "nat (n div 8) \<in> {i..<Suc j}" by auto
    then show "n \<in> (\<Union>k \<in> {i..<Suc j}. ?B k)" by blast
  qed auto
  also have "card \<dots> = (\<Sum>k \<in> {i..<Suc j}. card (?B k))"
    by (rule card_UN_disjoint) (use ij card in auto)
  also have "\<dots> = (\<Sum>k \<in> {i..<Suc j}. card {b. bit (s ! k) b})"
    by (rule sum.cong) (use ij card in auto)
  finally show ?thesis
    by (simp add: bit_count_def assms fold_add_sum pop_count_card interv_sum_list_conv_sum_set_nat del: upt_Suc)
qed

theorem bit_count_card_witness:
  "bit_count [0xFF, 0x81] (-1) 7 = int (card {n. get_bit [0xFF, 0x81] n \<and> 1 \<le> n div 8 \<and> n div 8 \<le> 1})"
  using bit_count_card[of "[0xFF, 0x81]" "-1" 7 1 1] by (simp add: byte_range_def)


lemma find_append: "find P (xs @ ys) = (case find P xs of None \<Rightarrow> find P ys | Some x \<Rightarrow> Some x)"
  by (induction xs) auto

lemma find_map: "find P (map f xs) = map_option f (find (\<lambda>x. P (f x)) xs)"
  by (induction xs) auto

text \<open>The offsets of the bits of a byte, and of the bytes of a range, in the order of the search.\<close>

definition byte_offsets :: "nat \<Rightarrow> int list" where
  "byte_offsets k = map (\<lambda>i. int k * 8 + int i) [0..<8]"

lemma byte_offsets_upt: "concat (map byte_offsets [i..<j]) = map int [8 * i..<8 * j]"
proof (induction j)
  case (Suc j)
  have "byte_offsets j = map int [8 * j..<8 * Suc j]"
    by (rule nth_equalityI) (auto simp: byte_offsets_def simp del: upt_Suc)
  moreover have "[8 * i..<8 * Suc j] = [8 * i..<8 * j] @ [8 * j..<8 * Suc j]" if "i \<le> j"
    using that upt_add_eq_append[of "8 * i" "8 * j" 8] by (simp add: add.commute del: upt_Suc)
  ultimately show ?case using Suc by (auto simp del: mult_Suc_right)
qed simp

lemma first_bit_find: "first_bit target b is = find (\<lambda>i. bit b (7 - i) = target) is"
  by (induction "is") (auto simp: bit_test_eq)

lemma get_bit_at: "k < length s \<Longrightarrow> i < 8 \<Longrightarrow> get_bit s (int k * 8 + int i) = bit (s ! k) (7 - i)"
  by (simp add: get_bit_eq offset_byte_def offset_bit_def nat_diff_distrib')

lemma first_byte_find:
  "\<forall>k \<in> set ks. k < length s \<Longrightarrow>
   first_byte target s ks = (case find (\<lambda>n. get_bit s n = target) (concat (map byte_offsets ks)) of None \<Rightarrow> -1 | Some n \<Rightarrow> n)"
proof (induction ks)
  case (Cons k ks)
  have "find (\<lambda>n. get_bit s n = target) (byte_offsets k) = map_option (\<lambda>i. int k * 8 + int i) (first_bit target (s ! k) [0..<8])"
    unfolding byte_offsets_def find_map first_bit_find
    by (rule arg_cong[of _ _ "map_option _"], rule find_cong[OF refl]) (use Cons.prems get_bit_at in auto)
  then show ?case using Cons by (simp add: find_append split: option.splits)
qed simp

lemma find_sorted:
  "sorted xs \<Longrightarrow> set xs = A \<Longrightarrow>
   case find P xs of
     None \<Rightarrow> \<forall>x \<in> A. \<not> P x
   | Some n \<Rightarrow> n \<in> A \<and> P n \<and> (\<forall>m \<in> A. m < n \<longrightarrow> \<not> P m)"
  by (induction xs arbitrary: A) (auto split: option.splits)

text \<open>
  \<^verbatim>\<open>BitPos\<close> returns the least offset of its range of bytes whose bit is the one asked for, and -1 exactly when the
  range has none.
\<close>

theorem bit_pos_least:
  assumes "byte_range s start stop = Some (i, j)"
  shows "case bit_pos s b start stop of n \<Rightarrow>
           if n = -1 then \<forall>m \<in> {8 * int i..<8 * int (Suc j)}. get_bit s m \<noteq> (b = 1)
           else n \<in> {8 * int i..<8 * int (Suc j)} \<and> get_bit s n = (b = 1) \<and> (\<forall>m \<in> {8 * int i..<n}. get_bit s m \<noteq> (b = 1))"
proof -
  let ?P = "\<lambda>n. get_bit s n = (b = 1)" and ?xs = "map int [8 * i..<8 * Suc j]"
  have pos: "bit_pos s b start stop = (case find ?P ?xs of None \<Rightarrow> -1 | Some n \<Rightarrow> n)"
    using byte_range_bounds[OF assms]
    by (simp add: bit_pos_def assms first_byte_find byte_offsets_upt del: upt_Suc mult_Suc_right)
  have xs: "set ?xs = {8 * int i..<8 * int (Suc j)}" "sorted ?xs"
    using image_int_atLeastLessThan[of "8 * i" "8 * Suc j"] by (simp_all add: sorted_map)
  show ?thesis
  proof (cases "find ?P ?xs")
    case None
    then show ?thesis using pos xs find_sorted[OF xs(2,1), of ?P] by (simp del: upt_Suc mult_Suc_right)
  next
    case (Some n)
    then have "n \<in> {8 * int i..<8 * int (Suc j)}" "?P n" "\<forall>m \<in> {8 * int i..<8 * int (Suc j)}. m < n \<longrightarrow> \<not> ?P m"
      using find_sorted[OF xs(2,1), of ?P] by (simp_all del: upt_Suc mult_Suc_right)
    then show ?thesis using pos Some by auto
  qed
qed

theorem bit_pos_least_witness:
  "bit_pos [0, 0x20] 1 0 (-1) = 10 \<and> get_bit [0, 0x20] 10 \<and> \<not> get_bit [0, 0x20] 9"
proof -
  have "bit_pos [0, 0x20] 1 0 (-1) = 10" by code_simp
  then show ?thesis using bit_pos_least[of "[0, 0x20]" 0 "-1" 0 1 1] by (simp add: byte_range_def)
qed


section \<open>Bitwise operations on strings\<close>

definition max_length :: "str list \<Rightarrow> nat" where
  "max_length vals = foldl (\<lambda>m v. if length v > m then length v else m) 0 vals"

lemma max_length_le: "n < max_length vals \<longleftrightarrow> (\<exists>v \<in> set vals. n < length v)"
proof -
  have "n < foldl (\<lambda>m v. if length v > m then length v else m) m vals \<longleftrightarrow> n < m \<or> (\<exists>v \<in> set vals. n < length v)" for m
    by (induction vals arbitrary: m) auto
  then show ?thesis by (simp add: max_length_def)
qed

lemma get_bit_map:
  "get_bit (map f [0..<l]) n \<longleftrightarrow> 0 \<le> n \<and> offset_byte n < l \<and> bit (f (offset_byte n)) (offset_bit n)"
  by (auto simp: get_bit_eq)

lemma bit_fold_and:
  "bit (fold (\<lambda>v b. if i < length v then b AND v ! i else 0) vals b) k
   \<longleftrightarrow> bit b k \<and> (\<forall>v \<in> set vals. i < length v \<and> bit (v ! i) k)" for b :: byte
  by (induction vals arbitrary: b) (auto simp: bit_simps)

lemma bit_fold_or:
  "bit (fold (\<lambda>v b. if i < length v then b OR v ! i else b) vals b) k
   \<longleftrightarrow> bit b k \<or> (\<exists>v \<in> set vals. i < length v \<and> bit (v ! i) k)" for b :: byte
  by (induction vals arbitrary: b) (auto simp: bit_simps)

lemma bit_fold_xor:
  "bit (fold (\<lambda>v b. if i < length v then b XOR v ! i else b) vals b) k
   \<longleftrightarrow> bit b k \<noteq> odd (length (filter (\<lambda>v. i < length v \<and> bit (v ! i) k) vals))" for b :: byte
  by (induction vals arbitrary: b) (auto simp: bit_simps)

lemmas bit_op_simps = bit_op_def[folded max_length_def] ascii_def Let_def get_bit_map

text \<open>
  \<^verbatim>\<open>BitOp\<close> combines its arguments bit by bit, a bit beyond the end of an argument counting as clear: AND is set where
  all are, OR where one is, XOR where an odd number is, and NOT where the only argument is clear.
\<close>

theorem bit_op_bits:
  assumes "vals \<noteq> []" "0 \<le> n"
  shows "get_bit (bit_op (ascii ''AND'') vals) n = (\<forall>v \<in> set vals. get_bit v n)
    \<and> get_bit (bit_op (ascii ''OR'') vals) n = (\<exists>v \<in> set vals. get_bit v n)
    \<and> get_bit (bit_op (ascii ''XOR'') vals) n = odd (length (filter (\<lambda>v. get_bit v n) vals))
    \<and> get_bit (bit_op (ascii ''NOT'') [v]) n = (n < 8 * int (length v) \<and> \<not> get_bit v n)"
proof (intro conjI)
  let ?i = "offset_byte n" and ?k = "offset_bit n"
  have get: "get_bit v n \<longleftrightarrow> ?i < length v \<and> bit (v ! ?i) ?k" for v
    using assms(2) by (simp add: get_bit_eq)
  have "(0xFF :: byte) = -1" by simp
  then have bit: "bit (0xFF :: byte) ?k"
    using offset_bit_less[of n] by (simp only: bit_minus_1_iff possible_bit_word) simp
  show "get_bit (bit_op (ascii ''AND'') vals) n = (\<forall>v \<in> set vals. get_bit v n)"
  proof -
    obtain v where "v \<in> set vals" using assms(1) by (cases vals) auto
    moreover have "get_bit (bit_op (ascii ''AND'') vals) n \<longleftrightarrow> ?i < max_length vals \<and> (\<forall>v \<in> set vals. ?i < length v \<and> bit (v ! ?i) ?k)"
      using assms bit by (simp add: bit_op_simps bit_fold_and)
    ultimately show ?thesis by (auto simp: max_length_le get)
  qed
  show "get_bit (bit_op (ascii ''OR'') vals) n = (\<exists>v \<in> set vals. get_bit v n)"
  proof -
    have "get_bit (bit_op (ascii ''OR'') vals) n \<longleftrightarrow> ?i < max_length vals \<and> (\<exists>v \<in> set vals. ?i < length v \<and> bit (v ! ?i) ?k)"
      using assms by (simp add: bit_op_simps bit_fold_or)
    then show ?thesis by (auto simp: max_length_le get)
  qed
  have "\<exists>v \<in> set vals. ?i < length v" if "odd (length (filter (\<lambda>v. get_bit v n) vals))"
  proof -
    have "filter (\<lambda>v. get_bit v n) vals \<noteq> []" using that by auto
    then show ?thesis by (auto simp: filter_empty_conv get)
  qed
  moreover have "get_bit (bit_op (ascii ''XOR'') vals) n \<longleftrightarrow>
      ?i < max_length vals \<and> odd (length (filter (\<lambda>v. ?i < length v \<and> bit (v ! ?i) ?k) vals))"
    using assms by (simp add: bit_op_simps bit_fold_xor)
  ultimately show "get_bit (bit_op (ascii ''XOR'') vals) n = odd (length (filter (\<lambda>v. get_bit v n) vals))"
    by (auto simp: max_length_le get)
  have "?i < length v \<longleftrightarrow> n < 8 * int (length v)"
    using offset_decode[OF assms(2)] offset_bit_less[of n] by linarith
  moreover have "get_bit (bit_op (ascii ''NOT'') [v]) n \<longleftrightarrow> ?i < length v \<and> \<not> bit (v ! ?i) ?k"
    using assms offset_bit_less[of n] by (auto simp: bit_op_simps max_length_def bit_simps)
  ultimately show "get_bit (bit_op (ascii ''NOT'') [v]) n = (n < 8 * int (length v) \<and> \<not> get_bit v n)"
    by (auto simp: get)
qed

theorem bit_op_bits_witness:
  "get_bit (bit_op (ascii ''AND'') [[0xFF], [0x0F, 1]]) 15 = False \<and> get_bit (bit_op (ascii ''XOR'') [[0xFF], [0x0F, 1]]) 2"
  using bit_op_bits[of "[[0xFF], [0x0F, 1]]" 15 "[]"] bit_op_bits[of "[[0xFF], [0x0F, 1]]" 2 "[]"]
  by (simp add: get_bit_def[of "[_]"] get_bit_def[of "[_, _]"])

end
