(* ===== verification/Hyperloglog.thy ===== *)
theory Hyperloglog
  imports Byte_Codec
begin

text \<open>
  \<^verbatim>\<open>src/hll.hpp\<close>: the HyperLogLog sketch, 16384 registers of six bits packed into 12288 bytes, and the hash function
  beside it.  A sketch is the memory from \<^verbatim>\<open>registers_\<close> on, because the last register is read and written together
  with the byte that follows the array; \<open>hll_bytes\<close> is the size of the array.  The floating-point operations of
  \<^verbatim>\<open>Estimate\<close> are a parameter.
\<close>

section \<open>The sketch\<close>

definition kNumRegisters :: nat where "kNumRegisters = 16384"
definition kBitsPerRegister :: nat where "kBitsPerRegister = 6"
definition hll_bytes :: nat where "hll_bytes = kNumRegisters * kBitsPerRegister div 8"

type_synonym hll = str

definition hll_clear :: "hll \<Rightarrow> hll" where
  "hll_clear mem = replicate hll_bytes 0 @ drop hll_bytes mem"

definition hll_data :: "hll \<Rightarrow> str" where
  "hll_data mem = take hll_bytes mem"

definition load_data :: "str \<Rightarrow> hll \<Rightarrow> hll" where
  "load_data src mem = (let n = (if length src < hll_bytes then length src else hll_bytes) in take n src @ drop n mem)"

definition get_register :: "hll \<Rightarrow> nat \<Rightarrow> byte" where
  "get_register mem idx =
     (let bit_pos = idx * kBitsPerRegister; byte_pos = bit_pos div 8; bit_off = bit_pos mod 8;
          value = ucast (mem ! byte_pos) OR push_bit 8 (ucast (mem ! (byte_pos + 1))) :: u16
      in ucast (drop_bit bit_off value AND 0x3F))"

definition set_register :: "nat \<Rightarrow> byte \<Rightarrow> hll \<Rightarrow> hll" where
  "set_register idx val mem =
     (let bit_pos = idx * kBitsPerRegister; byte_pos = bit_pos div 8; bit_off = bit_pos mod 8;
          m = push_bit bit_off 0x3F :: u16;
          v = ucast (mem ! byte_pos) OR push_bit 8 (ucast (mem ! (byte_pos + 1))) :: u16;
          new_val = (v AND NOT m) OR push_bit bit_off (ucast (val AND 0x3F))
      in mem[byte_pos := ucast (new_val AND 0xFF), byte_pos + 1 := ucast (drop_bit 8 new_val AND 0xFF)])"

text \<open>\<^verbatim>\<open>CountLeadingZeros\<close>: the loop shifts until it sees bit 49, which need not happen; \<open>None\<close> is a call that never returns.\<close>

partial_function (option) clz_loop :: "u64 \<Rightarrow> byte \<Rightarrow> byte option" where
  "clz_loop value cnt = (if value AND push_bit 49 1 = 0 then clz_loop (push_bit 1 value) (cnt + 1) else Some cnt)"

definition count_leading_zeros :: "u64 \<Rightarrow> byte option" where
  "count_leading_zeros value = (if value = 0 then Some 50 else clz_loop value 0)"

definition hll_add :: "u64 \<Rightarrow> hll \<Rightarrow> hll option" where
  "hll_add hash mem =
     (let reg_idx = unat (drop_bit 50 hash) in
      case count_leading_zeros (hash AND 0x00FFFFFFFFFFFFFF) of
        None \<Rightarrow> None
      | Some cnt \<Rightarrow>
          (let current = get_register mem reg_idx
           in Some (if cnt > current then set_register reg_idx cnt mem else mem)))"

definition hll_merge :: "hll \<Rightarrow> hll \<Rightarrow> hll" where
  "hll_merge other mem =
     fold (\<lambda>i mem. let a = get_register mem i; b = get_register other i in if b > a then set_register i b mem else mem)
       [0..<kNumRegisters] mem"

text \<open>
  The operations on \<^verbatim>\<open>double\<close> that \<^verbatim>\<open>Estimate\<close> is made of: the literal \<open>n / 10 ^ d\<close>, the conversions of 64-bit integers, the
  arithmetic, the comparisons and the logarithm.
\<close>

record 'f float_ops =
  fl_lit :: "nat \<Rightarrow> nat \<Rightarrow> 'f"
  fl_of :: "u64 \<Rightarrow> 'f"
  fl_to :: "'f \<Rightarrow> u64"
  fl_add :: "'f \<Rightarrow> 'f \<Rightarrow> 'f"
  fl_sub :: "'f \<Rightarrow> 'f \<Rightarrow> 'f"
  fl_mul :: "'f \<Rightarrow> 'f \<Rightarrow> 'f"
  fl_div :: "'f \<Rightarrow> 'f \<Rightarrow> 'f"
  fl_le :: "'f \<Rightarrow> 'f \<Rightarrow> bool"
  fl_less :: "'f \<Rightarrow> 'f \<Rightarrow> bool"
  fl_log :: "'f \<Rightarrow> 'f"

definition hll_sums :: "'f float_ops \<Rightarrow> hll \<Rightarrow> 'f \<times> u64" where
  "hll_sums F mem =
     fold (\<lambda>i (sum, zero_count).
        let reg = get_register mem i
        in (fl_add F sum (fl_div F (fl_lit F 10 1) (fl_of F (push_bit (unat reg) 1))),
            if reg = 0 then zero_count + 1 else zero_count))
       [0..<kNumRegisters] (fl_lit F 0 1, 0)"

text \<open>The minus before the unsigned \<^verbatim>\<open>1ULL << 32\<close> is the one of 64-bit words.\<close>

definition hll_estimate :: "'f float_ops \<Rightarrow> hll \<Rightarrow> u64" where
  "hll_estimate F mem =
     (let (sum, zero_count) = hll_sums F mem;
          n = fl_of F (of_nat kNumRegisters);
          alpha = fl_div F (fl_lit F 7213 4) (fl_add F (fl_lit F 10 1) (fl_div F (fl_lit F 1079 3) n));
          estimate = fl_div F (fl_mul F (fl_mul F alpha n) n) sum;
          estimate =
            (if fl_le F estimate (fl_mul F (fl_lit F 25 1) n) \<and> zero_count > 0
             then fl_mul F n (fl_log F (fl_div F n (fl_of F zero_count)))
             else if fl_less F (fl_of F (push_bit 32 1 * 30)) estimate
             then fl_mul F (fl_of F (- push_bit 32 1)) (fl_log F (fl_sub F (fl_lit F 10 1) (fl_div F estimate (fl_of F (push_bit 32 1)))))
             else estimate)
      in fl_to F estimate)"

definition hll_memory_usage :: nat where
  "hll_memory_usage = hll_bytes"

definition hll_data_size :: nat where
  "hll_data_size = hll_bytes"

text \<open>The estimate depends on the registers alone, not on the byte behind them.\<close>

lemma hll_estimate_registers:
  assumes "\<And>i. i < kNumRegisters \<Longrightarrow> get_register m i = get_register m' i"
  shows "hll_estimate F m = hll_estimate F m'"
proof -
  have "hll_sums F m = hll_sums F m'"
    unfolding hll_sums_def by (intro fold_cong refl) (simp add: assms)
  then show ?thesis by (simp add: hll_estimate_def)
qed

section \<open>The packed registers are an array\<close>

definition mem_bit :: "str \<Rightarrow> nat \<Rightarrow> bool" where
  "mem_bit mem p = bit (mem ! (p div 8)) (p mod 8)"

lemma mem_bit_at: "n < 8 \<Longrightarrow> mem_bit mem (8 * k + n) = bit (mem ! k) n"
  by (simp add: mem_bit_def)

lemma bit_63 [simp]: "bit (0x3F :: int) n \<longleftrightarrow> n < 6" and bit_255 [simp]: "bit (0xFF :: int) n \<longleftrightarrow> n < 8"
proof -
  have "(0x3F :: int) = mask 6" "(0xFF :: int) = mask 8" by (simp_all add: mask_eq_exp_minus_1)
  then show "bit (0x3F :: int) n \<longleftrightarrow> n < 6" "bit (0xFF :: int) n \<longleftrightarrow> n < 8" by (simp_all only: bit_mask_iff) simp_all
qed

lemma byte_bit_less: "bit (b :: byte) n \<Longrightarrow> n < 8"
  by (auto dest: bit_imp_le_length)

text \<open>The two bytes read together, and where their bits lie.\<close>

definition two_bytes :: "str \<Rightarrow> nat \<Rightarrow> u16" where
  "two_bytes mem k = ucast (mem ! k) OR push_bit 8 (ucast (mem ! (k + 1)))"

definition reg_byte :: "nat \<Rightarrow> nat" where "reg_byte i = i * kBitsPerRegister div 8"
definition reg_off :: "nat \<Rightarrow> nat" where "reg_off i = i * kBitsPerRegister mod 8"

lemma bit_two_bytes: "n < 16 \<Longrightarrow> bit (two_bytes mem k) n = mem_bit mem (8 * k + n)"
proof -
  assume "n < 16"
  then consider "n < 8" | "8 \<le> n" "n - 8 < 8" by linarith
  then show ?thesis
  proof cases
    case 2
    then have "8 * k + n = 8 * (k + 1) + (n - 8)" by simp
    then have "(8 * k + n) div 8 = k + 1" "(8 * k + n) mod 8 = n - 8"
      using 2(2) by (metis div_mult_self4 div_less add.right_neutral zero_neq_numeral, metis mod_mult_self4 mod_less)
    then show ?thesis using 2 \<open>n < 16\<close> by (auto simp: two_bytes_def mem_bit_def bit_simps dest: byte_bit_less)
  qed (auto simp: two_bytes_def mem_bit_def bit_simps)
qed

lemma register_position: "6 * i = 8 * reg_byte i + reg_off i" and register_offset: "reg_off i \<le> 6"
proof -
  show "6 * i = 8 * reg_byte i + reg_off i"
    unfolding reg_byte_def reg_off_def kBitsPerRegister_def by (metis mult_div_mod_eq mult.commute)
  have "even (reg_off i)" "reg_off i < 8" by (simp_all add: reg_off_def kBitsPerRegister_def dvd_mod)
  then show "reg_off i \<le> 6" by (cases "reg_off i = 7") auto
qed

lemma bit_get_register: "bit (get_register mem i) n \<longleftrightarrow> n < 6 \<and> mem_bit mem (6 * i + n)"
proof (cases "n < 6")
  case True
  have "get_register mem i = ucast (drop_bit (reg_off i) (two_bytes mem (reg_byte i)) AND 0x3F)"
    by (simp add: get_register_def two_bytes_def Let_def reg_off_def reg_byte_def)
  then have "bit (get_register mem i) n = bit (two_bytes mem (reg_byte i)) (reg_off i + n)"
    using True by (simp add: bit_simps)
  also have "\<dots> = mem_bit mem (8 * reg_byte i + (reg_off i + n))"
    using True register_offset[of i] by (intro bit_two_bytes) linarith
  also have "8 * reg_byte i + (reg_off i + n) = 6 * i + n" using register_position[of i] by simp
  finally show ?thesis using True by simp
qed (simp add: get_register_def Let_def bit_simps)

lemma set_register_eq:
  "set_register i v mem =
    (let new_val = (two_bytes mem (reg_byte i) AND NOT (push_bit (reg_off i) 0x3F)) OR push_bit (reg_off i) (ucast (v AND 0x3F))
     in mem[reg_byte i := ucast (new_val AND 0xFF), reg_byte i + 1 := ucast (drop_bit 8 new_val AND 0xFF)])"
  by (simp add: set_register_def two_bytes_def Let_def reg_off_def reg_byte_def)

lemma length_set_register [simp]: "length (set_register i v mem) = length mem"
  by (simp add: set_register_eq Let_def)

lemma mem_bit_set_register:
  assumes "reg_byte i + 1 < length mem"
  shows "mem_bit (set_register i v mem) p = (if 6 * i \<le> p \<and> p < 6 * i + 6 then bit v (p - 6 * i) else mem_bit mem p)"
proof -
  define w where "w = (two_bytes mem (reg_byte i) AND NOT (push_bit (reg_off i) 0x3F)) OR push_bit (reg_off i) (ucast (v AND 0x3F))"
  let ?k = "reg_byte i" and ?o = "reg_off i"
  have w: "bit w n = (if ?o \<le> n \<and> n < ?o + 6 then bit v (n - ?o) else mem_bit mem (8 * ?k + n))" if "n < 16" for n
    using that byte_bit_less[of v "n - ?o"] by (auto simp: w_def bit_simps bit_two_bytes)
  have set: "set_register i v mem = mem[?k := ucast (w AND 0xFF), ?k + 1 := ucast (drop_bit 8 w AND 0xFF)]"
    by (simp add: set_register_eq w_def)
  have p: "p = 8 * (p div 8) + p mod 8" "p mod 8 < 8" by simp_all
  consider "p div 8 = ?k" | "p div 8 = ?k + 1" | "p div 8 \<noteq> ?k" "p div 8 \<noteq> ?k + 1" by blast
  then show ?thesis
  proof cases
    case 1
    moreover have "p mod 8 < 16" using p(2) by linarith
    ultimately have "mem_bit (set_register i v mem) p = bit w (p mod 8)"
      using assms by (simp add: set mem_bit_def bit_simps)
    moreover have "p - 6 * i = p mod 8 - ?o" "6 * i \<le> p \<longleftrightarrow> ?o \<le> p mod 8" "p < 6 * i + 6 \<longleftrightarrow> p mod 8 < ?o + 6"
      using p 1 register_position[of i] by linarith+
    moreover have "8 * ?k + p mod 8 = p" using p 1 by simp
    ultimately show ?thesis using w[of "p mod 8"] \<open>p mod 8 < 16\<close> by simp
  next
    case 2
    moreover have "p mod 8 < 16" using p(2) by linarith
    ultimately have "mem_bit (set_register i v mem) p = bit w (8 + p mod 8)"
      using assms by (simp add: set mem_bit_def bit_simps)
    moreover from 2 have "p - 6 * i = 8 + p mod 8 - ?o" "6 * i \<le> p \<longleftrightarrow> ?o \<le> 8 + p mod 8" "p < 6 * i + 6 \<longleftrightarrow> 8 + p mod 8 < ?o + 6"
      using p 2 register_position[of i] by linarith+
    moreover have "8 * ?k + (8 + p mod 8) = p" using p 2 by simp
    ultimately show ?thesis using w[of "8 + p mod 8"] p(2) by simp
  next
    case 3
    then have "\<not> (6 * i \<le> p \<and> p < 6 * i + 6)"
      using p register_position[of i] register_offset[of i] by linarith
    then show ?thesis using 3 by (auto simp: set mem_bit_def)
  qed
qed

text \<open>A sketch needs the byte behind the array.\<close>

definition hll_ok :: "hll \<Rightarrow> bool" where
  "hll_ok mem \<longleftrightarrow> hll_bytes < length mem"

lemma reg_byte_bound: "i < kNumRegisters \<Longrightarrow> reg_byte i + 1 \<le> hll_bytes"
  by (simp add: reg_byte_def hll_bytes_def kNumRegisters_def kBitsPerRegister_def)

lemma get_set_register:
  assumes "hll_ok mem" "i < kNumRegisters"
  shows "get_register (set_register i v mem) j = (if j = i then v AND 0x3F else get_register mem j)"
proof (rule bit_word_eqI)
  fix n
  have len: "reg_byte i + 1 < length mem" using assms reg_byte_bound[of i] by (simp add: hll_ok_def)
  have "6 * i \<le> 6 * j + n \<and> 6 * j + n < 6 * i + 6 \<longleftrightarrow> j = i" if "n < 6"
    using that by linarith
  then show "bit (get_register (set_register i v mem) j) n = bit (if j = i then v AND 0x3F else get_register mem j) n"
    using byte_bit_less[of v n] by (auto simp: bit_get_register mem_bit_set_register[OF len] bit_simps)
qed

text \<open>
  The packed registers are an array of 16384 six-bit numbers: writing one changes it alone, and leaves the byte
  behind the array, which the code writes together with the last register, as it was.
\<close>

lemma registers_array:
  assumes "hll_ok mem" "i < kNumRegisters"
  shows "get_register (set_register i v mem) j = (if j = i then v AND 0x3F else get_register mem j)
    \<and> hll_ok (set_register i v mem) \<and> drop hll_bytes (set_register i v mem) = drop hll_bytes mem"
proof -
  have "reg_byte i + 1 < length mem" using assms reg_byte_bound[of i] by (simp add: hll_ok_def)
  note bits = mem_bit_set_register[OF this, of v]
  have "drop hll_bytes (set_register i v mem) ! k = drop hll_bytes mem ! k" if "k < length mem - hll_bytes" for k
  proof (rule bit_word_eqI)
    fix n assume n: "n < LENGTH(8)"
    have "6 * i + 6 \<le> 8 * (hll_bytes + k) + n"
      using assms(2) by (simp add: hll_bytes_def kNumRegisters_def kBitsPerRegister_def)
    then have "mem_bit (set_register i v mem) (8 * (hll_bytes + k) + n) = mem_bit mem (8 * (hll_bytes + k) + n)"
      by (simp add: bits)
    then show "bit (drop hll_bytes (set_register i v mem) ! k) n = bit (drop hll_bytes mem ! k) n"
      using n that mem_bit_at[of n _ "hll_bytes + k"] by (simp del: distrib_left_numeral)
  qed
  then have "drop hll_bytes (set_register i v mem) = drop hll_bytes mem"
    by (intro nth_equalityI) auto
  then show ?thesis using get_set_register[OF assms] assms by (simp add: hll_ok_def)
qed

section \<open>Leading zeros\<close>

text \<open>The specification: the number of zeros above the highest set bit among the low fifty.\<close>

definition zeros_50 :: "u64 \<Rightarrow> nat" where
  "zeros_50 w = 49 - Max {k. k < 50 \<and> bit w k}"

lemma and_bit_zero: "w AND push_bit n 1 = 0 \<longleftrightarrow> \<not> bit w n" for w :: u64
  by (simp add: bit_iff_and_push_bit_not_eq_0)

lemma clz_step: "clz_loop w c = (if bit w 49 then Some c else clz_loop (push_bit 1 w) (c + 1))"
  by (subst clz_loop.simps) (simp only: and_bit_zero if_not_P if_P split: if_split, blast)

lemma take_bit_zero: "take_bit 50 w = 0 \<longleftrightarrow> (\<forall>k < 50. \<not> bit w k)" for w :: u64
proof
  assume z: "take_bit 50 w = 0"
  have "bit (take_bit 50 w) k = bit w k" if "k < 50" for k using that by (simp add: bit_take_bit_iff)
  then show "\<forall>k < 50. \<not> bit w k" by (simp add: z)
qed (auto intro!: bit_word_eqI simp: bit_take_bit_iff)

lemma clz_returns: "k < 50 \<Longrightarrow> bit w k \<Longrightarrow> \<forall>l. k < l \<and> l < 50 \<longrightarrow> \<not> bit w l \<Longrightarrow> clz_loop w c = Some (c + of_nat (49 - k))"
proof (induction "49 - k" arbitrary: w c k)
  case 0
  then have "k = 49" by simp
  then show ?case using 0 by (simp add: clz_step[of w])
next
  case (Suc n)
  have "\<not> bit w 49" using Suc.hyps(2) Suc.prems(3) by auto
  moreover have "clz_loop (push_bit 1 w) (c + 1) = Some (c + 1 + of_nat (49 - (k + 1)))"
  proof (rule Suc.hyps(1))
    show "\<forall>l. k + 1 < l \<and> l < 50 \<longrightarrow> \<not> bit (push_bit 1 w) l"
    proof (intro allI impI)
      fix l assume "k + 1 < l \<and> l < 50"
      then have "k < l - 1 \<and> l - 1 < 50" by linarith
      then have "\<not> bit w (l - 1)" by (rule Suc.prems(3)[rule_format])
      then show "\<not> bit (push_bit 1 w) l" unfolding bit_push_bit_iff by blast
    qed
  qed (use Suc in \<open>auto simp: bit_push_bit_iff simp del: push_bit_of_1 push_bit_Suc\<close>)
  moreover have "1 + of_nat (49 - (k + 1)) = (of_nat (49 - k) :: byte)"
    using Suc.hyps(2) by (metis Suc_eq_plus1 add.commute diff_Suc_1 diff_diff_left of_nat_Suc)
  ultimately show ?case by (simp only: clz_step[of w] if_False add.assoc)
qed

lemma clz_returned: "clz_loop w c = Some r \<Longrightarrow> \<exists>k < 50. bit w k"
proof (induction rule: clz_loop.raw_induct[rotated, consumes 1, case_names step])
  case (step f w c r)
  show ?case
  proof (cases "bit w 49")
    case False
    then have "f (push_bit 1 w) (c + 1) = Some r"
      using step(2) by (simp only: and_bit_zero if_True simp_thms)
    then obtain k where "k < 50" "bit (push_bit 1 w) k"
      using step(1) by blast
    then show ?thesis unfolding bit_push_bit_iff by (intro exI[of _ "k - 1"]) auto
  qed (auto intro: exI[of _ 49])
qed


text \<open>What \<^verbatim>\<open>Add\<close> counts: the masked hash still has six bits of the register index above the fifty that are scanned.\<close>

lemma masked_eq: "w AND 0x00FFFFFFFFFFFFFF = take_bit 56 w" for w :: u64
proof -
  have "(0x00FFFFFFFFFFFFFF :: u64) = mask 56" by (simp add: mask_eq_exp_minus_1)
  then show ?thesis by (simp only: take_bit_eq_mask)
qed

lemma masked_bits: "{k. k < 50 \<and> bit (take_bit 56 w) k} = {k. k < 50 \<and> bit w k}" for w :: u64
  by (auto simp: bit_take_bit_iff)

lemma clz_value:
  assumes "take_bit 50 w \<noteq> 0"
  shows "count_leading_zeros w = Some (of_nat (zeros_50 w))"
proof -
  let ?K = "{k. k < 50 \<and> bit w k}"
  have K: "finite ?K" "?K \<noteq> {}" using assms by (auto simp: take_bit_zero)
  then have "Max ?K < 50" "bit w (Max ?K)" using Max_in[OF K] by auto
  moreover have "\<forall>l. Max ?K < l \<and> l < 50 \<longrightarrow> \<not> bit w l"
  proof (intro allI impI notI)
    fix l assume l: "Max ?K < l \<and> l < 50" "bit w l"
    then have "l \<le> Max ?K" by (intro Max_ge[OF K(1)]) simp
    then show False using l(1) by linarith
  qed
  ultimately have "clz_loop w 0 = Some (0 + of_nat (zeros_50 w))" unfolding zeros_50_def by (rule clz_returns)
  moreover have "w \<noteq> 0" using assms by fastforce
  ultimately show ?thesis by (simp only: count_leading_zeros_def if_False add_0)
qed

lemma clz_masked:
  "count_leading_zeros (hash AND 0x00FFFFFFFFFFFFFF) =
     (if take_bit 50 hash \<noteq> 0 then Some (of_nat (zeros_50 hash))
      else if take_bit 56 hash = 0 then Some 50
      else None)"
proof -
  let ?v = "take_bit 56 hash"
  have low: "take_bit 50 ?v = take_bit 50 hash" by simp
  show ?thesis
  proof (cases "take_bit 50 hash = 0")
    case True
    then have "clz_loop ?v 0 = None"
      using clz_returned[of ?v 0] by (cases "clz_loop ?v 0") (auto simp: take_bit_zero bit_take_bit_iff)
    then show ?thesis using True by (simp add: masked_eq count_leading_zeros_def)
  next
    case False
    then have "count_leading_zeros ?v = Some (of_nat (zeros_50 hash))"
      using clz_value[of ?v] low masked_bits[of hash] by (simp add: zeros_50_def)
    then show ?thesis using False by (simp only: masked_eq if_True simp_thms)
  qed
qed

text \<open>
  C39. \<^verbatim>\<open>CountLeadingZeros\<close> of the value that \<^verbatim>\<open>Add\<close> passes returns the number of zeros above the highest set bit of the low
  fifty bits of the hash when there is one, and 50 for an empty value; but the mask leaves six bits of the register index
  standing, and when one of them is set over fifty clear bits the loop never ends.
\<close>

theorem count_leading_zeros_terminates:
  "count_leading_zeros (hash AND 0x00FFFFFFFFFFFFFF) =
     (if take_bit 50 hash \<noteq> 0 then Some (of_nat (zeros_50 hash))
      else if take_bit 56 hash = 0 then Some 50
      else None)"
  by (rule clz_masked)

section \<open>A sketch is the maximum of what was added\<close>

definition reg_of :: "u64 \<Rightarrow> nat" where
  "reg_of hash = unat (drop_bit 50 hash)"

definition observed :: "u64 \<Rightarrow> nat" where
  "observed hash = (if take_bit 50 hash \<noteq> 0 then zeros_50 hash else 50)"

definition returns :: "u64 \<Rightarrow> bool" where
  "returns hash \<longleftrightarrow> take_bit 50 hash \<noteq> 0 \<or> take_bit 56 hash = 0"

lemma reg_of_less: "reg_of hash < kNumRegisters"
proof -
  have "unat (drop_bit 50 hash) = unat hash div 2 ^ 50" by (simp add: drop_bit_eq_div unat_div)
  moreover have "unat hash < 2 ^ 64" using unsigned_less[of hash] by simp
  ultimately show ?thesis by (simp add: reg_of_def kNumRegisters_def less_mult_imp_div_less)
qed

lemma observed_le: "observed hash \<le> 50"
  by (auto simp: observed_def zeros_50_def intro: order.trans[OF diff_le_self])

lemma byte_63: "n \<le> 50 \<Longrightarrow> (of_nat n :: byte) AND 0x3F = of_nat n" "n \<le> 50 \<Longrightarrow> unat (of_nat n :: byte) = n"
proof -
  assume n: "n \<le> 50"
  have "(0x3F :: byte) = mask 6" by (simp add: mask_eq_exp_minus_1)
  then have "(of_nat n :: byte) AND 0x3F = take_bit 6 (of_nat n)" by (simp only: take_bit_eq_mask)
  also have "\<dots> = of_nat (take_bit 6 n)" by (simp add: of_nat_take_bit)
  finally show "(of_nat n :: byte) AND 0x3F = of_nat n" using n by (simp add: take_bit_nat_eq_self)
  show "unat (of_nat n :: byte) = n" using n by (simp add: unsigned_of_nat take_bit_nat_eq_self)
qed

lemma hll_add_eq:
  "hll_add hash mem =
    (if returns hash then
       Some (if of_nat (observed hash) > get_register mem (reg_of hash)
             then set_register (reg_of hash) (of_nat (observed hash)) mem else mem)
     else None)"
  by (auto simp: hll_add_def clz_masked observed_def returns_def reg_of_def Let_def)

definition add_level :: "nat \<Rightarrow> u64 \<Rightarrow> nat \<Rightarrow> nat" where
  "add_level i hash n = max n (if reg_of hash = i then observed hash else 0)"

lemma hll_add_level:
  assumes "hll_ok mem" "hll_add hash mem = Some mem'"
  shows "hll_ok mem' \<and> unat (get_register mem' i) = add_level i hash (unat (get_register mem i))"
  using assms byte_63[OF observed_le[of hash]] registers_array[OF assms(1) reg_of_less[of hash], of "of_nat (observed hash)" i]
  by (auto simp: hll_add_eq add_level_def word_less_nat_alt split: if_splits)

text \<open>Adding one hash after another; \<open>None\<close> when one of the calls does not return.\<close>

fun hll_adds :: "u64 list \<Rightarrow> hll \<Rightarrow> hll option" where
  "hll_adds [] mem = Some mem"
| "hll_adds (h # hs) mem = (case hll_add h mem of None \<Rightarrow> None | Some mem' \<Rightarrow> hll_adds hs mem')"

lemma hll_adds_level:
  "hll_ok mem \<Longrightarrow> hll_adds hs mem = Some mem' \<Longrightarrow>
   hll_ok mem' \<and> unat (get_register mem' i) = fold (add_level i) hs (unat (get_register mem i))"
proof (induction hs arbitrary: mem)
  case (Cons h hs)
  then obtain m where m: "hll_add h mem = Some m" "hll_adds hs m = Some mem'" by (auto split: option.splits)
  from hll_add_level[OF Cons.prems(1) m(1), of i] show ?case using Cons.IH[OF _ m(2)] by simp
qed simp

lemma fold_add_level: "fold (add_level i) hs n = max n (fold (add_level i) hs 0)"
proof (induction hs arbitrary: n)
  case (Cons h hs)
  have "fold (add_level i) hs (add_level i h n) = max (add_level i h n) (fold (add_level i) hs 0)"
    "fold (add_level i) hs (add_level i h 0) = max (add_level i h 0) (fold (add_level i) hs 0)"
    using Cons by blast+
  moreover have "add_level i h n = max n (add_level i h 0)" by (simp add: add_level_def[of i h n] add_level_def[of i h 0])
  ultimately show ?case by simp
qed (simp add: max_def)

lemma hll_adds_append: "hll_adds (xs @ ys) mem = (case hll_adds xs mem of None \<Rightarrow> None | Some mem' \<Rightarrow> hll_adds ys mem')"
  by (induction xs arbitrary: mem) (auto split: option.splits)

lemma hll_adds_returns: "hll_adds hs mem \<noteq> None \<longleftrightarrow> (\<forall>h \<in> set hs. returns h)"
  by (induction hs arbitrary: mem) (auto simp: hll_add_eq split: option.splits if_splits)

lemma hll_merge_register:
  assumes "hll_ok mem" "i < kNumRegisters"
  shows "unat (get_register (hll_merge other mem) i) = max (unat (get_register mem i)) (unat (get_register other i))"
proof -
  let ?step = "\<lambda>i mem. let a = get_register mem i; b = get_register other i in if b > a then set_register i b mem else mem"
  have six: "get_register other j AND 0x3F = get_register other j" for j
    by (rule bit_word_eqI) (auto simp: bit_and_iff bit_get_register)
  have "hll_ok (fold ?step [0..<n] mem) \<and> unat (get_register (fold ?step [0..<n] mem) i) =
      (if i < n then max (unat (get_register mem i)) (unat (get_register other i)) else unat (get_register mem i))"
    if "n \<le> kNumRegisters" for n
    using that
  proof (induction n)
    case (Suc n)
    define m where "m = fold ?step [0..<n] mem"
    have m: "hll_ok m" "unat (get_register m i) =
        (if i < n then max (unat (get_register mem i)) (unat (get_register other i)) else unat (get_register mem i))"
      using Suc by (simp_all add: m_def)
    have "fold ?step [0..<Suc n] mem = (if get_register other n > get_register m n then set_register n (get_register other n) m else m)"
      by (simp add: m_def Let_def)
    then show ?case
      using m registers_array[OF m(1), of n "get_register other n" i] Suc.prems six[of n]
      by (cases "i = n") (auto simp: word_less_nat_alt max_def)
  qed (simp add: assms)
  from this[of kNumRegisters] show ?thesis using assms(2) by (simp add: hll_merge_def)
qed


lemma get_register_clear: "i < kNumRegisters \<Longrightarrow> get_register (hll_clear mem) i = 0"
proof (rule bit_word_eqI)
  fix n
  assume i: "i < kNumRegisters"
  have "\<not> mem_bit (hll_clear mem) (6 * i + n)" if "n < 6"
  proof -
    have "(6 * i + n) div 8 < hll_bytes"
      using that i by (simp add: hll_bytes_def kNumRegisters_def kBitsPerRegister_def)
    then show ?thesis by (simp add: mem_bit_def hll_clear_def nth_append)
  qed
  then show "bit (get_register (hll_clear mem) i) n = bit 0 n" by (auto simp: bit_get_register)
qed

lemma hll_clear_ok: "hll_ok mem \<Longrightarrow> hll_ok (hll_clear mem)"
  by (simp add: hll_ok_def hll_clear_def)

lemma fold_add_level_Max:
  "fold (add_level i) hs 0 = Max (insert 0 {observed h |h. h \<in> set hs \<and> reg_of h = i})"
proof (induction hs)
  case (Cons h hs)
  let ?A = "\<lambda>hs. {observed h |h. h \<in> set hs \<and> reg_of h = i}"
  have fin: "finite (?A hs)" by simp
  have "fold (add_level i) (h # hs) 0 = max (add_level i h 0) (Max (insert 0 (?A hs)))"
    using Cons fold_add_level[of i hs "add_level i h 0"] by simp
  also have "insert 0 (?A (h # hs)) = (if reg_of h = i then insert (observed h) (insert 0 (?A hs)) else insert 0 (?A hs))"
    by auto
  then have "max (add_level i h 0) (Max (insert 0 (?A hs))) = Max (insert 0 (?A (h # hs)))"
    using fin by (simp add: add_level_def)
  finally show ?case .
qed simp

text \<open>
  C40. Every register of a sketch is the largest count observed among the hashes added to it with that index, and merging
  two sketches gives the sketch of all hashes of both, so the order, the repetitions and the distribution of the additions
  over sketches do not matter.  The additions all return exactly when the low fifty bits of each hash are not clear, or the
  six bits above them are clear too.
\<close>

theorem hll_merge_union:
  assumes "hll_ok a" "hll_ok b" "i < kNumRegisters"
    and "hll_adds xs (hll_clear a) = Some a'" "hll_adds ys (hll_clear b) = Some b'"
  shows "unat (get_register (hll_merge b' a') i) = Max (insert 0 {observed h |h. h \<in> set (xs @ ys) \<and> reg_of h = i})
    \<and> (\<exists>c. hll_adds (xs @ ys) (hll_clear a) = Some c \<and> get_register c i = get_register (hll_merge b' a') i)
    \<and> (\<forall>h \<in> set (xs @ ys). returns h)"
proof -
  let ?l = "fold (add_level i)"
  have a: "hll_ok a'" "unat (get_register a' i) = ?l xs 0"
    using hll_adds_level[OF hll_clear_ok[OF assms(1)] assms(4), of i] assms(3) by (auto simp: get_register_clear)
  have b: "unat (get_register b' i) = ?l ys 0"
    using hll_adds_level[OF hll_clear_ok[OF assms(2)] assms(5), of i] assms(3) by (auto simp: get_register_clear)
  have merged: "unat (get_register (hll_merge b' a') i) = ?l (xs @ ys) 0"
    using hll_merge_register[OF a(1) assms(3), of b'] a b fold_add_level[of i ys "?l xs 0"] by simp
  have returns: "\<forall>h \<in> set (xs @ ys). returns h"
    using assms(4,5) hll_adds_returns[of xs "hll_clear a"] hll_adds_returns[of ys "hll_clear b"] by auto
  then obtain c where c: "hll_adds (xs @ ys) (hll_clear a) = Some c"
    using hll_adds_returns[of "xs @ ys" "hll_clear a"] by auto
  then have "unat (get_register c i) = ?l (xs @ ys) 0"
    using hll_adds_level[OF hll_clear_ok[OF assms(1)] c, of i] assms(3) by (auto simp: get_register_clear)
  then show ?thesis using merged c returns by (metis fold_add_level_Max unsigned_word_eqI)
qed


theorem hll_merge_union_witness:
  "unat (get_register (hll_merge (hll_clear (replicate 12289 0)) (the (hll_adds [5] (hll_clear (replicate 12289 0))))) 0) = 47"
proof -
  let ?m = "replicate 12289 0 :: hll"
  have ok: "hll_ok ?m" by (simp add: hll_ok_def hll_bytes_def kNumRegisters_def kBitsPerRegister_def)
  have five: "{k. k < 50 \<and> bit (5 :: u64) k} = {0, 2}"
  proof (intro set_eqI iffI)
    fix k assume "k \<in> {k. k < 50 \<and> bit (5 :: u64) k}"
    then have "bit (5 :: int) k" by simp
    moreover have "\<not> bit (5 :: int) k" if "k > 2"
      using that power_increasing[of 3 k "2 :: int"] by (simp add: bit_iff_odd)
    ultimately have "k = 0 \<or> k = 1 \<or> k = 2" by force
    then show "k \<in> {0, 2}" using \<open>bit (5 :: int) k\<close> by auto
  qed auto
  then have obs: "observed 5 = 47" "returns 5" "reg_of 5 = 0"
    using take_bit_zero[of 5] by (auto simp: observed_def zeros_50_def returns_def reg_of_def)
  then obtain a where a: "hll_adds [5] (hll_clear ?m) = Some a"
    using hll_adds_returns[of "[5]" "hll_clear ?m"] by auto
  have "unat (get_register (hll_merge (hll_clear ?m) a) 0) = Max (insert 0 {observed h |h. h \<in> set ([5] @ []) \<and> reg_of h = 0})"
    using hll_merge_union[OF ok ok _ a, of 0 "[]" "hll_clear ?m"] by (simp add: kNumRegisters_def)
  also have "{observed h |h. h \<in> set ([5] @ []) \<and> reg_of h = 0} = {47}" using obs by auto
  finally show ?thesis by (simp only: a option.sel) simp
qed

text \<open>Half of all hashes leave every sketch as it is: the count starts at zero, the value of an empty register.\<close>

lemma hll_add_blind: "bit hash 49 \<Longrightarrow> hll_add hash mem = Some mem"
proof -
  assume b: "bit hash 49"
  then have "take_bit 50 hash \<noteq> 0" by (auto simp: take_bit_zero intro: exI[of _ 49])
  moreover have "Max {k. k < 50 \<and> bit hash k} = 49" by (rule Max_eqI) (use b in auto)
  ultimately have "observed hash = 0" "returns hash" by (simp_all add: observed_def zeros_50_def returns_def)
  then show ?thesis by (simp add: hll_add_eq)
qed

lemma load_data_registers:
  assumes "hll_ok a" "hll_ok b" "i < kNumRegisters"
  shows "get_register (load_data (hll_data a) b) i = get_register a i"
proof (rule bit_word_eqI)
  fix n
  have "mem_bit (load_data (hll_data a) b) (6 * i + n) = mem_bit a (6 * i + n)" if "n < 6"
  proof -
    have "(6 * i + n) div 8 < hll_bytes"
      using that assms(3) by (simp add: hll_bytes_def kNumRegisters_def kBitsPerRegister_def)
    then show ?thesis using assms(1) by (simp add: mem_bit_def load_data_def hll_data_def hll_ok_def nth_append Let_def)
  qed
  then show "bit (get_register (load_data (hll_data a) b) i) n = bit (get_register a i) n" by (auto simp: bit_get_register)
qed

section \<open>\<^verbatim>\<open>MurmurHash64\<close>\<close>

definition mm_m :: u64 where "mm_m = 0xc6a4a7935bd1e995"

definition xor_shift :: "u64 \<Rightarrow> u64" where
  "xor_shift k = k XOR drop_bit 47 k"

definition murmur_block :: "str \<Rightarrow> u64 \<Rightarrow> u64" where
  "murmur_block bs h = (let k = of_nat (le_value bs) * mm_m in (h XOR xor_shift k * mm_m) * mm_m)"

definition murmur_tail :: "str \<Rightarrow> u64" where
  "murmur_tail tail_bytes = fold (\<lambda>i k. k XOR push_bit (8 * i) (ucast (tail_bytes ! i))) (rev [0..<length tail_bytes]) 0"

definition murmur_hash64 :: "u64 \<Rightarrow> str \<Rightarrow> u64" where
  "murmur_hash64 seed key =
     (let blocks = length key div 8;
          h = fold (\<lambda>i. murmur_block (take 8 (drop (8 * i) key))) [0..<blocks] (seed XOR of_nat (length key) * mm_m);
          tail_bytes = drop (blocks * 8) key;
          h = (if length key mod 8 = 0 then h else h XOR xor_shift (murmur_tail tail_bytes * mm_m) * mm_m)
      in xor_shift (xor_shift h * mm_m))"


lemma mm_m_cancel: "a * mm_m = b * mm_m \<longleftrightarrow> a = b"
proof
  assume "a * mm_m = b * mm_m"
  then have "a * mm_m * 0x5f7a0ea7e59b19bd = b * mm_m * 0x5f7a0ea7e59b19bd" by simp
  moreover have "mm_m * 0x5f7a0ea7e59b19bd = 1" by (simp add: mm_m_def)
  ultimately show "a = b" by (simp only: mult.assoc mult_1_right)
qed simp

lemma xor_shift_involution: "xor_shift (xor_shift k) = k"
  by (rule bit_word_eqI) (auto simp: xor_shift_def bit_simps dest: bit_imp_le_length)

lemma xor_shift_cancel: "xor_shift a = xor_shift b \<longleftrightarrow> a = b"
  by (metis xor_shift_involution)

lemma xor_cancel: "a XOR b = a XOR c \<longleftrightarrow> b = c" for a b c :: u64
  by (auto simp: bit_eq_iff bit_xor_iff)

lemma le_value_less: "le_value bs < 256 ^ length bs"
proof (induction bs)
  case (Cons b bs)
  have "unat b < 256" using unsigned_less[of b] by simp
  then show ?case using Cons by simp
qed simp

lemma le_value_inj: "length a = length b \<Longrightarrow> le_value a = le_value b \<Longrightarrow> a = b"
proof (induction a b rule: list_induct2)
  case (Cons x xs y ys)
  have "unat x < 256" "unat y < 256" using unsigned_less[of x] unsigned_less[of y] by simp_all
  then have "unat x = unat y" "le_value xs = le_value ys"
    using arg_cong[OF Cons.prems, of "\<lambda>n. n mod 256"] arg_cong[OF Cons.prems, of "\<lambda>n. n div 256"] by simp_all
  then show ?case using Cons.IH by (simp add: unsigned_word_eqI)
qed simp

lemma bit_murmur_tail:
  assumes "length bs \<le> 8" "j < 8" "i < length bs"
  shows "bit (murmur_tail bs) (8 * i + j) = bit (bs ! i) j"
proof -
  have "bit (fold (\<lambda>i k. k XOR push_bit (8 * i) (ucast (bs ! i))) is k0) (8 * i + j) =
      (bit k0 (8 * i + j) \<noteq> (i \<in> set is \<and> bit (bs ! i) j))" if "distinct is" "\<forall>l \<in> set is. l < length bs" for "is" and k0 :: u64
    using that
  proof (induction "is" arbitrary: k0)
    case (Cons l ls)
    have "bit (push_bit (8 * l) (ucast (bs ! l)) :: u64) (8 * i + j) \<longleftrightarrow> l = i \<and> bit (bs ! i) j"
    proof (cases "l = i")
      case False
      then have "\<not> (8 * l \<le> 8 * i + j \<and> 8 * i + j - 8 * l < 8)" using assms(2) by linarith
      then show ?thesis using False by (auto simp: bit_simps dest: byte_bit_less)
    qed (use assms in \<open>auto simp: bit_simps\<close>)
    then show ?case using Cons by (auto simp: bit_xor_iff)
  qed simp
  from this[of "rev [0..<length bs]" 0] show ?thesis using assms by (simp add: murmur_tail_def)
qed

lemma murmur_tail_inj:
  assumes "length a = length b" "length a \<le> 8" "murmur_tail a = murmur_tail b"
  shows "a = b"
proof (rule nth_equalityI)
  fix i assume "i < length a"
  then show "a ! i = b ! i"
    using assms bit_murmur_tail[of a _ i] bit_murmur_tail[of b _ i] by (intro bit_word_eqI) simp
qed (use assms in simp)

text \<open>
  Two strings of the same length of at most eight bytes have the same \<^verbatim>\<open>MurmurHash64\<close> only when they are equal: each step
  of the mixing can be undone.
\<close>

theorem murmur_injective_short:
  assumes "length a = length b" "length a \<le> 8"
  shows "murmur_hash64 seed a = murmur_hash64 seed b \<longleftrightarrow> a = b"
proof (cases "length a = 8")
  case True
  have word: "(of_nat (le_value a) :: u64) = of_nat (le_value b) \<longleftrightarrow> a = b"
  proof
    assume eq: "(of_nat (le_value a) :: u64) = of_nat (le_value b)"
    have "le_value a < 2 ^ 64" "le_value b < 2 ^ 64"
      using le_value_less[of a] le_value_less[of b] True assms by simp_all
    then have "le_value a = le_value b"
      using arg_cong[OF eq, of unat] by (simp add: unsigned_of_nat take_bit_nat_eq_self)
    then show "a = b" using assms by (simp add: le_value_inj)
  qed simp
  then show ?thesis
    using True assms
    by (simp add: murmur_hash64_def murmur_block_def Let_def xor_shift_cancel mm_m_cancel xor_cancel)
next
  case False
  then have short: "length a < 8" "length b < 8" using assms by simp_all
  show ?thesis
  proof (cases "a = []")
    case nonempty: False
    then have "0 < length a mod 8" "0 < length b mod 8" using short assms by auto
    then show ?thesis
      using short assms murmur_tail_inj[of a b]
      by (auto simp: murmur_hash64_def Let_def xor_shift_cancel mm_m_cancel xor_cancel)
  qed (use assms in simp)
qed

theorem murmur_injective_short_witness:
  "murmur_hash64 7 [1, 2] \<noteq> murmur_hash64 7 [2, 1]"
  using murmur_injective_short[of "[1, 2]" "[2, 1]" 7] by simp

end
