(* ===== verification/Simd_Utils.thy ===== *)
theory Simd_Utils
  imports Kv_Prelude
begin

text \<open>
  \<^verbatim>\<open>src/simd_utils.hpp\<close>: comparisons and hashing of buffers with vector instructions.  A vector register is the list
  of its byte lanes, and each intrinsic the function on lists of lanes it is documented to be.  Which instruction sets
  the compiler has is an argument of the functions that ask for it.  A buffer is the list of its \<open>len\<close> bytes.
\<close>

section \<open>Intrinsics\<close>

definition cmpeq_epi8 :: "byte list \<Rightarrow> byte list \<Rightarrow> byte list" where
  "cmpeq_epi8 = map2 (\<lambda>x y. if x = y then 0xFF else 0)"

definition cmpgt_epi8 :: "byte list \<Rightarrow> byte list \<Rightarrow> byte list" where
  "cmpgt_epi8 = map2 (\<lambda>x y. if sint x > sint y then 0xFF else 0)"

definition movemask_epi8 :: "byte list \<Rightarrow> nat" where
  "movemask_epi8 v = horner_sum of_bool 2 (map (\<lambda>x. bit x 7) v)"

definition loadu :: "nat \<Rightarrow> nat \<Rightarrow> str \<Rightarrow> byte list" where
  "loadu w i data = take w (drop i data)"

section \<open>Operations\<close>

definition force_case :: "byte list \<Rightarrow> byte list" where
  "force_case v =
     (let m = cmpgt_epi8 v (replicate (length v) 0x5A)
      in map2 (OR) v (map2 (AND) m (replicate (length v) 0x20)))"

function case_insensitive_equals_sse2 :: "nat \<Rightarrow> str \<Rightarrow> str \<Rightarrow> nat \<Rightarrow> bool" where
  "case_insensitive_equals_sse2 i a b len =
     (if i + 16 \<le> len then
        (let va_upper = force_case (loadu 16 i a); vb_upper = force_case (loadu 16 i b);
             cmp = cmpeq_epi8 va_upper vb_upper
         in if movemask_epi8 cmp \<noteq> 0xFFFF then False else case_insensitive_equals_sse2 (i + 16) a b len)
      else True)"
  by auto
termination by (relation "measure (\<lambda>(i, a, b, len). len - i)") auto

declare case_insensitive_equals_sse2.simps [simp del]

definition upper :: "byte \<Rightarrow> byte" where
  "upper c = (if c \<ge> 0x61 \<and> c \<le> 0x7A then c - 32 else c)"

fun equals_upper :: "str \<Rightarrow> str \<Rightarrow> bool" where
  "equals_upper (x # xs) (y # ys) = (if upper x \<noteq> upper y then False else equals_upper xs ys)"
| "equals_upper _ _ = True"

definition case_insensitive_equals :: "bool \<Rightarrow> str \<Rightarrow> str \<Rightarrow> bool" where
  "case_insensitive_equals has_sse2 a b =
     (let len = length a in
      if has_sse2 \<and> len \<ge> 16 then
        (if \<not> case_insensitive_equals_sse2 0 a b len then False
         else (let processed = len div 16 * 16 in equals_upper (drop processed a) (drop processed b)))
      else equals_upper a b)"

text \<open>\<^verbatim>\<open>has_zero_avx2\<close> and \<^verbatim>\<open>has_zero_sse2\<close>, for registers of 32 and of 16 bytes.\<close>

function has_zero_blocks :: "nat \<Rightarrow> nat \<Rightarrow> str \<Rightarrow> bool" where
  "has_zero_blocks w i data =
     (if 0 < w \<and> i + w \<le> length data then
        (let m = movemask_epi8 (cmpeq_epi8 (loadu w i data) (replicate w 0))
         in if m \<noteq> 0 then True else has_zero_blocks w (i + w) data)
      else False)"
  by auto
termination by (relation "measure (\<lambda>(w, i, data). length data - i)") auto

declare has_zero_blocks.simps [simp del]

definition has_zero_scalar :: "str \<Rightarrow> bool" where
  "has_zero_scalar data = list_ex (\<lambda>c. c = 0) data"

definition has_zero_128 :: "bool \<Rightarrow> str \<Rightarrow> bool" where
  "has_zero_128 has_sse2 data =
     (if has_sse2 \<and> length data \<ge> 16
      then has_zero_blocks 16 0 data \<or> has_zero_scalar (drop (length data div 16 * 16) data)
      else has_zero_scalar data)"

definition has_zero :: "bool \<Rightarrow> bool \<Rightarrow> str \<Rightarrow> bool" where
  "has_zero has_avx2 has_sse2 data =
     (if has_avx2 \<and> length data \<ge> 32
      then has_zero_blocks 32 0 data \<or> has_zero_128 has_sse2 (drop (length data div 32 * 32) data)
      else has_zero_128 has_sse2 data)"

text \<open>The cast of a \<^verbatim>\<open>char\<close> to \<^verbatim>\<open>uint64_t\<close> extends the sign on the platforms whose \<^verbatim>\<open>char\<close> is signed.\<close>

definition hash_string :: "bool \<Rightarrow> str \<Rightarrow> u64" where
  "hash_string signed_char data =
     fold (\<lambda>c hash. (hash XOR (if signed_char then scast c else ucast c)) * 1099511628211) data 14695981039346656037"

section \<open>Blocks\<close>

lemma horner_sum_zero: "horner_sum of_bool 2 bs = (0 :: nat) \<longleftrightarrow> (\<forall>b \<in> set bs. \<not> b)"
  by (induction bs) auto

lemma double_full: "h < p \<Longrightarrow> of_bool b + 2 * h = 2 * p - 1 \<longleftrightarrow> b \<and> h = p - 1" for h p :: nat
  by (cases b; simp; presburger)

lemma horner_sum_full: "horner_sum of_bool 2 bs = (2 ^ length bs - 1 :: nat) \<longleftrightarrow> (\<forall>b \<in> set bs. b)"
proof (induction bs)
  case (Cons b bs)
  have "horner_sum of_bool 2 bs < (2 ^ length bs :: nat)" by (rule horner_sum_of_bool_2_less)
  then have "of_bool b + 2 * horner_sum of_bool 2 bs = (2 * 2 ^ length bs - 1 :: nat) \<longleftrightarrow>
      b \<and> horner_sum of_bool 2 bs = (2 ^ length bs - 1 :: nat)"
    by (rule double_full)
  then show ?case using Cons by simp
qed simp

lemma movemask_cmpeq_any:
  "length xs = length ys \<Longrightarrow> movemask_epi8 (cmpeq_epi8 xs ys) \<noteq> 0 \<longleftrightarrow> (\<exists>i < length xs. xs ! i = ys ! i)"
  by (auto simp: movemask_epi8_def horner_sum_zero cmpeq_epi8_def set_zip)

lemma movemask_cmpeq_all:
  "length xs = 16 \<Longrightarrow> length ys = 16 \<Longrightarrow> movemask_epi8 (cmpeq_epi8 xs ys) = 0xFFFF \<longleftrightarrow> xs = ys"
proof -
  assume len: "length xs = 16" "length ys = 16"
  have "movemask_epi8 (cmpeq_epi8 xs ys) = 0xFFFF \<longleftrightarrow> (\<forall>b \<in> set (map (\<lambda>x. bit x 7) (cmpeq_epi8 xs ys)). b)"
    using horner_sum_full[of "map (\<lambda>x. bit x 7) (cmpeq_epi8 xs ys)"] len by (simp add: movemask_epi8_def cmpeq_epi8_def)
  also have "\<dots> \<longleftrightarrow> (\<forall>i < 16. bit (if xs ! i = ys ! i then 0xFF else 0 :: byte) 7)"
    using len by (simp add: cmpeq_epi8_def all_set_conv_all_nth)
  also have "\<dots> \<longleftrightarrow> xs = ys" using len by (auto simp: list_eq_iff_nth_eq)
  finally show ?thesis .
qed

definition lane_case :: "byte \<Rightarrow> byte" where
  "lane_case c = (if sint c > 90 then c OR 0x20 else c)"

lemma force_case_lanes: "force_case v = map lane_case v"
  by (rule nth_equalityI) (auto simp: force_case_def cmpgt_epi8_def lane_case_def Let_def)


lemma sse2_blocks:
  assumes "length a = len" "length b = len" "i \<le> len"
  shows "case_insensitive_equals_sse2 i a b len \<longleftrightarrow>
    (let n = (len - i) div 16 * 16 in map lane_case (take n (drop i a)) = map lane_case (take n (drop i b)))"
  using assms
proof (induction i a b len rule: case_insensitive_equals_sse2.induct)
  case (1 i a b len)
  show ?case
  proof (cases "i + 16 \<le> len")
    case True
    let ?n = "(len - (i + 16)) div 16 * 16" and ?f = "map lane_case"
    have n: "(len - i) div 16 * 16 = 16 + ?n" using True by (simp add: le_div_geq)
    have split: "?f (take (16 + ?n) (drop i x)) = ?f (take 16 (drop i x)) @ ?f (take ?n (drop (i + 16) x))" for x
      by (simp add: take_add add.commute)
    have blocks: "?f (take (16 + ?n) (drop i a)) = ?f (take (16 + ?n) (drop i b)) \<longleftrightarrow>
        ?f (take 16 (drop i a)) = ?f (take 16 (drop i b)) \<and> ?f (take ?n (drop (i + 16) a)) = ?f (take ?n (drop (i + 16) b))"
      unfolding split using 1(2,3) by (intro append_eq_append_conv) simp
    have mask: "movemask_epi8 (cmpeq_epi8 (force_case (loadu 16 i a)) (force_case (loadu 16 i b))) = 0xFFFF
        \<longleftrightarrow> ?f (take 16 (drop i a)) = ?f (take 16 (drop i b))"
      using 1(2,3) True by (subst movemask_cmpeq_all) (simp_all add: force_case_lanes loadu_def)
    have "case_insensitive_equals_sse2 i a b len \<longleftrightarrow>
        ?f (take 16 (drop i a)) = ?f (take 16 (drop i b)) \<and> case_insensitive_equals_sse2 (i + 16) a b len"
      using True mask by (subst case_insensitive_equals_sse2.simps) (simp add: Let_def)
    then show ?thesis
      using 1(1)[OF True refl refl refl] 1(2,3) True mask unfolding Let_def n blocks by blast
  qed (simp add: case_insensitive_equals_sse2.simps)
qed

lemma equals_upper_map: "length a = length b \<Longrightarrow> equals_upper a b \<longleftrightarrow> map upper a = map upper b"
  by (induction a b rule: list_induct2) auto

lemma zero_blocks:
  "0 < w \<Longrightarrow> i \<le> length data \<Longrightarrow> has_zero_blocks w i data \<longleftrightarrow> 0 \<in> set (take ((length data - i) div w * w) (drop i data))"
proof (induction w i data rule: has_zero_blocks.induct)
  case (1 w i data)
  show ?case
  proof (cases "i + w \<le> length data")
    case True
    let ?n = "(length data - (i + w)) div w * w"
    have n: "(length data - i) div w * w = w + ?n" using True 1(2) by (simp add: le_div_geq)
    have "movemask_epi8 (cmpeq_epi8 (loadu w i data) (replicate w 0)) \<noteq> 0 \<longleftrightarrow> 0 \<in> set (take w (drop i data))"
      using True by (subst movemask_cmpeq_any) (auto simp: loadu_def in_set_conv_nth)
    moreover have "set (take (w + ?n) (drop i data)) = set (take w (drop i data)) \<union> set (take ?n (drop (i + w) data))"
      by (simp add: take_add add.commute)
    ultimately show ?thesis
      using 1(1) 1(2) True unfolding n by (subst has_zero_blocks.simps) (auto simp: Let_def)
  qed (use 1(2,3) in \<open>simp add: has_zero_blocks.simps\<close>)
qed


section \<open>Properties\<close>

lemma set_blocks: "n \<le> length xs \<Longrightarrow> set (take n xs) \<union> set (drop n xs) = set xs"
  by (metis append_take_drop_id set_append)

lemma has_zero_128_correct: "has_zero_128 has_sse2 data \<longleftrightarrow> 0 \<in> set data"
  using zero_blocks[of 16 0 data] set_blocks[of "length data div 16 * 16" data]
  by (auto simp: has_zero_128_def has_zero_scalar_def list_ex_iff)

text \<open>
  Whatever instruction sets are used, and whatever the length of the buffer, \<^verbatim>\<open>HasZero\<close> finds exactly the buffers with
  a zero byte: the blocks of 32, the blocks of 16 and the bytes left over cover the buffer.
\<close>

theorem has_zero_correct: "has_zero has_avx2 has_sse2 data \<longleftrightarrow> 0 \<in> set data"
  using zero_blocks[of 32 0 data] set_blocks[of "length data div 32 * 32" data]
  by (auto simp: has_zero_def has_zero_128_correct)

lemma letter_lanes:
  assumes "upper x \<in> {0x41..0x5A}"
  shows "lane_case x = x"
proof -
  have "\<forall>n \<in> {97..<123}. (of_nat n :: byte) OR 0x20 = of_nat n"
    unfolding atLeastLessThan_upt by code_simp
  then have lower: "unat x \<in> {97..<123} \<Longrightarrow> x OR 0x20 = x" by (auto dest: bspec[of _ _ "unat x"])
  have "\<forall>n \<in> {65..<91}. sint (of_nat n :: byte) \<le> 90"
    unfolding atLeastLessThan_upt by code_simp
  then have capital: "unat x \<in> {65..<91} \<Longrightarrow> sint x \<le> 90" by (auto dest: bspec[of _ _ "unat x"])
  have "unat x \<in> {97..<123} \<or> unat x \<in> {65..<91}"
    using assms by (auto simp: upper_def word_le_nat_alt unat_sub split: if_splits)
  then show ?thesis using lower capital by (auto simp: lane_case_def)
qed

text \<open>
  Without SSE2, and on strings shorter than 16 bytes, \<^verbatim>\<open>CaseInsensitiveEquals\<close> compares the upper-case forms.  With SSE2
  the blocks of 16 bytes are compared in another way: letters count as equal only when they agree in case too, and
  the opening bracket counts as the opening brace.
\<close>

theorem case_insensitive_blocks:
  assumes "length a = length b"
  shows "(\<not> (has_sse2 \<and> 16 \<le> length a) \<longrightarrow> case_insensitive_equals has_sse2 a b = (map upper a = map upper b))
    \<and> (has_sse2 \<and> 16 \<le> length a \<longrightarrow> case_insensitive_equals has_sse2 a b =
        (let n = length a div 16 * 16 in
         map lane_case (take n a) = map lane_case (take n b) \<and> map upper (drop n a) = map upper (drop n b)))
    \<and> (\<forall>x y. upper x \<in> {0x41..0x5A} \<and> upper y \<in> {0x41..0x5A} \<longrightarrow> (lane_case x = lane_case y) = (x = y))
    \<and> lane_case 0x5B = lane_case 0x7B \<and> upper 0x5B \<noteq> upper 0x7B"
proof (intro conjI)
  have letters: "lane_case x = x" if "upper x \<in> {0x41..0x5A}" for x
    using that by (rule letter_lanes)
  then show "\<forall>x y. upper x \<in> {0x41..0x5A} \<and> upper y \<in> {0x41..0x5A} \<longrightarrow> (lane_case x = lane_case y) = (x = y)" by simp
qed (use assms in \<open>simp_all add: case_insensitive_equals_def equals_upper_map sse2_blocks Let_def upper_def lane_case_def\<close>)

theorem case_insensitive_blocks_witness:
  "\<not> case_insensitive_equals True (replicate 16 0x41) (replicate 16 0x61)
   \<and> case_insensitive_equals False (replicate 16 0x41) (replicate 16 0x61)
   \<and> case_insensitive_equals True (replicate 16 0x5B) (replicate 16 0x7B)"
  using case_insensitive_blocks[of "replicate 16 0x41" "replicate 16 0x61" True]
    case_insensitive_blocks[of "replicate 16 0x41" "replicate 16 0x61" False]
    case_insensitive_blocks[of "replicate 16 0x5B" "replicate 16 0x7B" True]
  by (simp add: upper_def lane_case_def Let_def)


lemma small_bit_7: "c < 0x80 \<longleftrightarrow> \<not> bit c 7" for c :: byte
proof -
  have "unat c < 256" using unsigned_less[of c] by simp
  then have "unat c div 128 < 2" by (simp add: div_less_iff_less_mult)
  then have "bit (unat c) 7 \<longleftrightarrow> 128 \<le> unat c" by (auto simp: bit_iff_odd less_2_cases_iff div_eq_0_iff odd_iff_mod_2_eq_one)
  then show ?thesis by (simp add: word_less_nat_alt bit_unsigned_iff not_le)
qed

lemma scast_ascii: "c < 0x80 \<Longrightarrow> scast c = (ucast c :: u64)" for c :: byte
proof (rule bit_word_eqI)
  fix n
  assume "c < 0x80"
  moreover have "n < 8" if "bit c n" using bit_imp_le_length[OF that] by simp
  ultimately show "bit (scast c :: u64) n = bit (ucast c :: u64) n" if "n < LENGTH(64)"
    using that by (cases "n = 7") (auto simp: small_bit_7 bit_signed_iff bit_unsigned_iff min_def)
qed

lemma fold_hash_ascii:
  "\<forall>c \<in> set s. c < 0x80 \<Longrightarrow>
   fold (\<lambda>c hash. (hash XOR (if sg then scast c else ucast c)) * 1099511628211) s h0
   = fold (\<lambda>c hash. (hash XOR ucast c) * 1099511628211) s (h0 :: u64)" for s :: str
proof (induction s arbitrary: h0)
  case (Cons c s)
  then have "scast c = (ucast c :: u64)" by (intro scast_ascii) simp
  then show ?case using Cons by simp
qed simp

lemma fnv_prime_cancel: "a * 1099511628211 = b * 1099511628211 \<longleftrightarrow> a = b" for a b :: u64
proof
  assume "a * 1099511628211 = b * 1099511628211"
  then have "a * 1099511628211 * 0xce965057aff6957b = b * 1099511628211 * 0xce965057aff6957b" by simp
  moreover have "(1099511628211 :: u64) * 0xce965057aff6957b = 1" by simp
  ultimately show "a = b" by (simp only: mult.assoc mult_1_right)
qed simp

text \<open>
  On ASCII text \<^verbatim>\<open>HashString\<close> is FNV-1a whatever the signedness of \<^verbatim>\<open>char\<close>; a string whose only byte above 127 is
  the last has another hash where \<^verbatim>\<open>char\<close> is signed.
\<close>

theorem hash_string_signedness:
  assumes "\<forall>x \<in> set s. x < 0x80" "0x80 \<le> c"
  shows "hash_string True s = hash_string False s \<and> hash_string True (s @ [c]) \<noteq> hash_string False (s @ [c])"
proof -
  have same: "hash_string True s = hash_string False s" by (simp only: hash_string_def fold_hash_ascii[OF assms(1)])
  have "bit c 7" using assms(2) small_bit_7[of c] by auto
  then have "bit (scast c :: u64) 63 \<noteq> bit (ucast c :: u64) 63"
    by (auto simp: bit_signed_iff bit_unsigned_iff dest: bit_imp_le_length)
  then have "bit (h XOR scast c) 63 \<noteq> bit (h XOR ucast c) 63" for h :: u64
    by (auto simp: bit_xor_iff)
  then have "h XOR scast c \<noteq> h XOR ucast c" for h :: u64 by metis
  then have "(hash_string True s XOR scast c) * 1099511628211 \<noteq> (hash_string True s XOR ucast c) * 1099511628211"
    unfolding fnv_prime_cancel .
  then show ?thesis using same by (simp add: hash_string_def)
qed

theorem hash_string_signedness_witness:
  "hash_string True [0x61, 0xE9] \<noteq> hash_string False [0x61, 0xE9]"
  using hash_string_signedness[of "[0x61]" "0xE9"] by simp

end
