(* ===== verification/Vector_Data.thy ===== *)
theory Vector_Data
  imports Byte_Codec
begin

text \<open>
  \<^verbatim>\<open>src/vector_data.hpp\<close> and \<^verbatim>\<open>src/vector_data.cpp\<close>, and the byte format of \<^verbatim>\<open>src/engine.cpp\<close>: named vectors with a
  similarity index.  The index is hnswlib, which is not part of the sources: a record of its calls is the parameter
  \<open>L\<close>.  A call that can throw returns whether it did not, beside the index it leaves; the result of a search is the
  list of pairs in the order in which the priority queue gives them up.  A \<^verbatim>\<open>float\<close> is its bit pattern, since the
  code only copies it.
\<close>

section \<open>The store\<close>

type_synonym float32 = u32

datatype distance_metric = kL2 | kCosine | kInnerProduct
datatype space = L2Space nat | InnerProductSpace nat

record 'ix hnsw =
  hn_new :: "space \<Rightarrow> nat \<Rightarrow> nat \<Rightarrow> 'ix"
  add_point :: "float32 list \<Rightarrow> nat \<Rightarrow> 'ix \<Rightarrow> bool \<times> 'ix"
  mark_delete :: "nat \<Rightarrow> 'ix \<Rightarrow> bool \<times> 'ix"
  search_knn :: "float32 list \<Rightarrow> nat \<Rightarrow> 'ix \<Rightarrow> (float32 \<times> nat) list option"

record 'ix vector_data =
  vd_dim :: nat
  vd_metric :: distance_metric
  vd_index :: 'ix
  id_to_vec_storage :: "float32 list"
  vd_ids :: "str list"
  next_label :: nat

fun create_space :: "distance_metric \<Rightarrow> nat \<Rightarrow> space" where
  "create_space kL2 dim = L2Space dim"
| "create_space kInnerProduct dim = InnerProductSpace dim"
| "create_space kCosine dim = InnerProductSpace dim"

definition vd_new :: "'ix hnsw \<Rightarrow> nat \<Rightarrow> distance_metric \<Rightarrow> nat \<Rightarrow> nat \<Rightarrow> 'ix vector_data" where
  "vd_new L dim metric M ef_construction =
     \<lparr>vd_dim = dim, vd_metric = metric, vd_index = hn_new L (create_space metric dim) M ef_construction,
      id_to_vec_storage = [], vd_ids = [], next_label = 0\<rparr>"

definition vd_add :: "'ix hnsw \<Rightarrow> str \<Rightarrow> float32 list \<Rightarrow> 'ix vector_data \<Rightarrow> bool \<times> 'ix vector_data" where
  "vd_add L ident v d =
     (if length v \<noteq> vd_dim d then (False, d)
      else (let (ok, index) = add_point L v (next_label d) (vd_index d) in
        if \<not> ok then (False, d\<lparr>vd_index := index\<rparr>)
        else (True, d\<lparr>vd_index := index, id_to_vec_storage := id_to_vec_storage d @ v,
                      vd_ids := vd_ids d @ [ident], next_label := next_label d + 1\<rparr>)))"

text \<open>\<^verbatim>\<open>std::find\<close> on the identifiers, as an index.\<close>

fun find_id :: "str \<Rightarrow> str list \<Rightarrow> nat option" where
  "find_id ident [] = None"
| "find_id ident (x # xs) = (if x = ident then Some 0 else map_option Suc (find_id ident xs))"

definition vd_remove :: "'ix hnsw \<Rightarrow> str \<Rightarrow> 'ix vector_data \<Rightarrow> bool \<times> 'ix vector_data" where
  "vd_remove L ident d =
     (case find_id ident (vd_ids d) of
        None \<Rightarrow> (False, d)
      | Some idx \<Rightarrow> (let (ok, index) = mark_delete L idx (vd_index d) in (ok, d\<lparr>vd_index := index\<rparr>)))"

definition vd_get :: "str \<Rightarrow> 'ix vector_data \<Rightarrow> float32 list" where
  "vd_get ident d =
     (case find_id ident (vd_ids d) of
        None \<Rightarrow> []
      | Some idx \<Rightarrow>
          (let offset = idx * vd_dim d in
           if offset + vd_dim d > length (id_to_vec_storage d) then []
           else take (vd_dim d) (drop offset (id_to_vec_storage d))))"

definition vd_contains :: "str \<Rightarrow> 'ix vector_data \<Rightarrow> bool" where
  "vd_contains ident d = (find_id ident (vd_ids d) \<noteq> None)"

definition vd_search :: "'ix hnsw \<Rightarrow> float32 list \<Rightarrow> nat \<Rightarrow> 'ix vector_data \<Rightarrow> (str \<times> float32) list" where
  "vd_search L query k d =
     (if length query \<noteq> vd_dim d \<or> vd_ids d = [] then []
      else (let search_k = min k (length (vd_ids d)) in
        if search_k = 0 then []
        else (case search_knn L query search_k (vd_index d) of
                None \<Rightarrow> []
              | Some queue \<Rightarrow>
                  rev (fold (\<lambda>(dist, label) results.
                          if label < length (vd_ids d) then results @ [(vd_ids d ! label, dist)] else results) queue []))))"

definition vd_size :: "'ix vector_data \<Rightarrow> nat" where
  "vd_size d = length (vd_ids d)"

definition vd_memory_usage :: "nat \<Rightarrow> 'ix vector_data \<Rightarrow> nat" where
  "vd_memory_usage sizeof_string d =
     length (id_to_vec_storage d) * 4 + length (vd_ids d) * sizeof_string + length (vd_ids d) * 128"

definition vd_all_entries :: "'ix vector_data \<Rightarrow> (str \<times> float32 list) list" where
  "vd_all_entries d =
     map (\<lambda>i. (vd_ids d ! i, take (vd_dim d) (drop (i * vd_dim d) (id_to_vec_storage d)))) [0..<length (vd_ids d)]"

section \<open>The store is a log of the additions\<close>

definition vd_ok :: "'ix vector_data \<Rightarrow> bool" where
  "vd_ok d \<longleftrightarrow> length (id_to_vec_storage d) = length (vd_ids d) * vd_dim d \<and> next_label d = length (vd_ids d)"

lemma find_id_map_of:
  assumes "length ys = length xs"
  shows "map_option (\<lambda>i. ys ! i) (find_id ident xs) = map_of (zip xs ys) ident"
  using assms[symmetric] by (induction xs ys rule: list_induct2) (auto simp: option.map_comp comp_def)

lemma find_id_less: "find_id ident xs = Some i \<Longrightarrow> i < length xs"
  by (induction xs arbitrary: i) (auto split: if_splits)

lemma vd_new_entries: "vd_ok (vd_new L dim metric M ef)" "vd_all_entries (vd_new L dim metric M ef) = []"
  by (simp_all add: vd_ok_def vd_new_def vd_all_entries_def)

lemma vd_all_entries_zip:
  "vd_all_entries d = zip (vd_ids d) (map (\<lambda>i. take (vd_dim d) (drop (i * vd_dim d) (id_to_vec_storage d))) [0..<length (vd_ids d)])"
  by (rule nth_equalityI) (auto simp: vd_all_entries_def)

lemma vd_get_map_of:
  assumes "vd_ok d"
  shows "vd_get ident d = (case map_of (vd_all_entries d) ident of None \<Rightarrow> [] | Some v \<Rightarrow> v)"
proof -
  let ?vs = "map (\<lambda>i. take (vd_dim d) (drop (i * vd_dim d) (id_to_vec_storage d))) [0..<length (vd_ids d)]"
  have entries: "map_of (vd_all_entries d) ident = map_option (\<lambda>i. ?vs ! i) (find_id ident (vd_ids d))"
    using find_id_map_of[of ?vs "vd_ids d" ident] by (simp add: vd_all_entries_zip)
  show ?thesis
  proof (cases "find_id ident (vd_ids d)")
    case (Some i)
    then have i: "i < length (vd_ids d)" by (rule find_id_less)
    then have "(i + 1) * vd_dim d \<le> length (vd_ids d) * vd_dim d" by (intro mult_le_mono1) simp
    then have "i * vd_dim d + vd_dim d \<le> length (id_to_vec_storage d)"
      using assms by (simp add: vd_ok_def)
    then show ?thesis using Some entries i by (simp add: vd_get_def)
  qed (simp add: vd_get_def entries)
qed

lemma vd_contains_entries: "vd_contains ident d \<longleftrightarrow> ident \<in> fst ` set (vd_all_entries d)"
proof -
  have "find_id ident xs = None \<longleftrightarrow> ident \<notin> set xs" for xs by (induction xs) auto
  moreover have "fst ` set (vd_all_entries d) = set (vd_ids d)"
    by (simp add: vd_all_entries_zip flip: set_map)
  ultimately show ?thesis by (simp add: vd_contains_def)
qed

lemma vd_add_entries:
  assumes "vd_ok d"
  shows "vd_ok (snd (vd_add L ident v d)) \<and> vd_dim (snd (vd_add L ident v d)) = vd_dim d
    \<and> vd_all_entries (snd (vd_add L ident v d)) = vd_all_entries d @ (if fst (vd_add L ident v d) then [(ident, v)] else [])"
proof (cases "length v = vd_dim d \<and> fst (add_point L v (next_label d) (vd_index d))")
  case True
  let ?d = "snd (vd_add L ident v d)" and ?s = "id_to_vec_storage d" and ?n = "length (vd_ids d)"
  have d: "vd_ids ?d = vd_ids d @ [ident]" "id_to_vec_storage ?d = ?s @ v" "vd_dim ?d = vd_dim d" "next_label ?d = next_label d + 1"
    "fst (vd_add L ident v d)"
    using True by (auto simp: vd_add_def split_beta Let_def)
  have len: "length ?s = ?n * vd_dim d" using assms by (simp add: vd_ok_def)
  have old: "take (vd_dim d) (drop (i * vd_dim d) (?s @ v)) = take (vd_dim d) (drop (i * vd_dim d) ?s)" if "i < ?n" for i
  proof -
    have "(i + 1) * vd_dim d \<le> ?n * vd_dim d" using that by (intro mult_le_mono1) simp
    then show ?thesis using len by (simp add: take_append)
  qed
  have "vd_all_entries ?d = vd_all_entries d @ [(ident, v)]"
    using True len old by (auto simp: vd_all_entries_def d nth_append)
  then show ?thesis using assms True d by (simp add: vd_ok_def)
qed (use assms in \<open>auto simp: vd_add_def vd_ok_def vd_all_entries_def split_beta Let_def\<close>)

lemma vd_remove_entries:
  "vd_ok (snd (vd_remove L ident d)) = vd_ok d \<and> vd_all_entries (snd (vd_remove L ident d)) = vd_all_entries d"
  by (auto simp: vd_remove_def vd_ok_def vd_all_entries_def split_beta Let_def split: option.splits)

text \<open>
  The store is an append-only log.  \<^verbatim>\<open>Add\<close> appends its entry when it reports success and changes nothing that can be
  read otherwise, and it succeeds only for vectors of the dimension; \<^verbatim>\<open>Get\<close> returns the vector of the first entry with
  the identifier, so a later addition under it is never seen; and \<^verbatim>\<open>Remove\<close> leaves every lookup as it was, since it only
  marks the index.
\<close>

theorem vector_log:
  assumes "vd_ok d"
  shows "vd_ok (snd (vd_add L ident v d)) \<and> vd_ok (snd (vd_remove L ident d))
    \<and> vd_all_entries (snd (vd_add L ident v d)) = vd_all_entries d @ (if fst (vd_add L ident v d) then [(ident, v)] else [])
    \<and> (length v \<noteq> vd_dim d \<longrightarrow> \<not> fst (vd_add L ident v d))
    \<and> vd_all_entries (snd (vd_remove L ident d)) = vd_all_entries d
    \<and> vd_get key d = (case map_of (vd_all_entries d) key of None \<Rightarrow> [] | Some w \<Rightarrow> w)
    \<and> vd_contains key d = (key \<in> fst ` set (vd_all_entries d))
    \<and> vd_size d = length (vd_all_entries d)"
proof -
  have "length v \<noteq> vd_dim d \<longrightarrow> \<not> fst (vd_add L ident v d)" by (simp add: vd_add_def)
  moreover have "vd_size d = length (vd_all_entries d)" by (simp add: vd_size_def vd_all_entries_def)
  ultimately show ?thesis
    using vd_add_entries[OF assms, of L ident v] vd_remove_entries[of L ident d] vd_get_map_of[OF assms, of key] assms
      vd_contains_entries[of key d] by blast
qed

text \<open>An index that accepts everything and finds nothing, to run the store with.\<close>

definition plain_index :: "unit hnsw" where
  "plain_index = \<lparr>hn_new = \<lambda>_ _ _. (), add_point = \<lambda>_ _ ix. (True, ix), mark_delete = \<lambda>_ ix. (True, ix),
                  search_knn = \<lambda>_ k _. Some (map (\<lambda>i. (0, i)) (rev [0..<k]))\<rparr>"

definition sample_vectors :: "unit vector_data" where
  "sample_vectors = snd (vd_add plain_index [1] [7, 8] (vd_new plain_index 2 kL2 16 200))"

lemma sample_vectors: "vd_ok sample_vectors" "vd_all_entries sample_vectors = [([1], [7, 8])]"
  by (simp_all add: sample_vectors_def plain_index_def vd_add_def vd_new_def vd_ok_def vd_all_entries_def)

theorem vector_log_witness:
  "vd_get [1] sample_vectors = [7, 8]
   \<and> vd_all_entries (snd (vd_remove plain_index [1] sample_vectors)) = [([1], [7, 8])]
   \<and> vd_all_entries (snd (vd_add plain_index [1] [5, 6] sample_vectors)) = [([1], [7, 8]), ([1], [5, 6])]"
proof -
  have "fst (vd_add plain_index [1] [5, 6] sample_vectors)"
    by (simp add: sample_vectors_def plain_index_def vd_add_def vd_new_def)
  then show ?thesis
    using vector_log[OF sample_vectors(1), of plain_index "[1]" "[5, 6]" "[1]"] sample_vectors(2) by simp
qed

text \<open>
  A search for \<open>k\<close> neighbours, over an index that returns at most as many as asked for, returns at most \<open>k\<close> pairs,
  nearest first, whose identifiers are all in the store; a query of another dimension, an empty store and an index that
  throws give no result.
\<close>

theorem search_sound:
  assumes "\<forall>q k ix queue. search_knn L q k ix = Some queue \<longrightarrow> length queue \<le> k"
    and "\<forall>q k ix queue. search_knn L q k ix = Some queue \<longrightarrow> sorted_wrt (\<lambda>a b. le (fst b) (fst a)) queue"
  shows "length (vd_search L query k d) \<le> min k (vd_size d)
    \<and> (\<forall>(ident, dist) \<in> set (vd_search L query k d). vd_contains ident d)
    \<and> sorted_wrt (\<lambda>a b. le (snd a) (snd b)) (vd_search L query k d)"
proof (cases "length query \<noteq> vd_dim d \<or> vd_ids d = [] \<or> k = 0 \<or> search_knn L query (min k (length (vd_ids d))) (vd_index d) = None")
  case True
  then show ?thesis by (auto simp: vd_search_def Let_def split: option.splits)
next
  case False
  then obtain queue where q: "search_knn L query (min k (length (vd_ids d))) (vd_index d) = Some queue" by auto
  let ?hits = "filter (\<lambda>(dist, label). label < length (vd_ids d)) queue"
  have loop: "fold (\<lambda>(dist, label) results.
      if label < length (vd_ids d) then results @ [(vd_ids d ! label, dist)] else results) q r =
      r @ map (\<lambda>(dist, label). (vd_ids d ! label, dist)) (filter (\<lambda>(dist, label). label < length (vd_ids d)) q)"
    for q :: "(float32 \<times> nat) list" and r
    by (induction q arbitrary: r) auto
  have res: "vd_search L query k d = rev (map (\<lambda>(dist, label). (vd_ids d ! label, dist)) ?hits)"
  proof -
    obtain n where n: "min k (length (vd_ids d)) = n" "n \<noteq> 0" using False by (auto simp: min_def)
    then show ?thesis using False q by (simp add: vd_search_def loop Let_def)
  qed
  have find: "find_id (xs ! i) xs \<noteq> None" if "i < length xs" for xs i
    using that by (induction xs arbitrary: i) (auto simp: nth_Cons split: nat.splits)
  have "length ?hits \<le> min k (length (vd_ids d))"
    using assms(1) q length_filter_le[of "\<lambda>(dist, label). label < length (vd_ids d)" queue] by (meson order.trans)
  moreover have "sorted_wrt (\<lambda>a b. le (fst b) (fst a)) ?hits"
    using assms(2) q sorted_wrt_filter by blast
  then have "sorted_wrt (\<lambda>a b. le (snd a) (snd b)) (vd_search L query k d)"
    by (simp add: res sorted_wrt_rev sorted_wrt_map split_beta)
  ultimately show ?thesis using find by (auto simp: res vd_size_def vd_contains_def)
qed

theorem search_sound_witness:
  "length (vd_search plain_index [0, 0] 3 sample_vectors) \<le> 1"
proof -
  have "length (vd_search plain_index [0, 0] 3 sample_vectors) \<le> min 3 (vd_size sample_vectors)"
    using search_sound[of plain_index "\<lambda>_ _. True" "[0, 0]" 3 sample_vectors] by (simp add: plain_index_def)
  then show ?thesis by (simp add: sample_vectors_def plain_index_def vd_add_def vd_new_def vd_size_def)
qed


section \<open>The byte format\<close>

definition put_float :: "float32 \<Rightarrow> str" where
  "put_float x = put_u32 x"

text \<open>\<^verbatim>\<open>std::span\<close> over the text: \<open>n\<close> floats from its start on.\<close>

definition floats_at :: "nat \<Rightarrow> str \<Rightarrow> float32 list" where
  "floats_at n d = map (\<lambda>i. of_nat (le_value (take 4 (drop (4 * i) d)))) [0..<n]"

text \<open>An entry; \<^verbatim>\<open>dim * 4\<close> is 32-bit arithmetic.\<close>

definition put_vector :: "u32 \<Rightarrow> str \<times> float32 list \<Rightarrow> str" where
  "put_vector dim e = (case e of (ident, v) \<Rightarrow> put_blob ident @ take (unat (dim * 4)) (concat (map put_float v)))"

definition get_vector :: "u32 \<Rightarrow> str \<Rightarrow> ((str \<times> float32 list) \<times> str) option" where
  "get_vector dim d =
     (case get_blob (unat (dim * 4)) d of
        None \<Rightarrow> None
      | Some (ident, d') \<Rightarrow> Some ((ident, floats_at (unat dim) d'), drop (unat (dim * 4)) d'))"

definition serialize_vector :: "'ix vector_data \<Rightarrow> str" where
  "serialize_vector v =
     (let all = vd_all_entries v; dim = of_nat (vd_dim v) :: u32; cnt = of_nat (length all) :: u32;
          total = 4 + 4 + sum_list (map (\<lambda>(ident, vec). 4 + length ident + unat (dim * 4)) all)
      in pad total (put_u32 dim @ put_u32 cnt @ concat (map (put_vector dim) all)))"

definition deserialize_vector :: "'ix hnsw \<Rightarrow> str \<Rightarrow> 'ix vector_data \<Rightarrow> bool \<times> 'ix vector_data" where
  "deserialize_vector L data v =
     (if length data < 8 then (False, v)
      else (case get_u32 data of
              None \<Rightarrow> (False, v)
            | Some (dim, d) \<Rightarrow> read_counted (get_vector dim) (\<lambda>(ident, vec) v. snd (vd_add L ident vec v)) d v))"

definition vector_fits :: "u32 \<Rightarrow> str \<times> float32 list \<Rightarrow> bool" where
  "vector_fits dim e \<longleftrightarrow> fits32 (fst e) \<and> length (snd e) = unat dim \<and> 4 * unat dim < 2 ^ 32"

lemma unat_dim4: "4 * unat dim < 2 ^ 32 \<Longrightarrow> unat (dim * 4) = 4 * unat dim" for dim :: u32
  by (simp add: unat_word_ariths take_bit_nat_eq_self)

lemma length_put_floats: "length (concat (map put_float v)) = 4 * length v"
  by (induction v) (simp_all add: put_float_def)

lemma floats_at_put: "floats_at (length v) (concat (map put_float v) @ rest) = v"
proof (rule nth_equalityI)
  fix i assume "i < length (floats_at (length v) (concat (map put_float v) @ rest))"
  then have i: "i < length v" by (simp add: floats_at_def)
  have "drop (4 * i) (concat (map put_float v) @ rest) = concat (map put_float (drop i v)) @ rest"
    using i
  proof (induction v arbitrary: i)
    case (Cons x v)
    then show ?case by (cases i) (simp_all add: put_float_def)
  qed simp
  then have "take 4 (drop (4 * i) (concat (map put_float v) @ rest)) = put_u32 (v ! i)"
    using i by (simp add: put_float_def flip: Cons_nth_drop_Suc)
  moreover have "(of_nat (le_value (put_u32 w)) :: u32) = w" for w
    using get_put_u32[of w "[]"] by (simp add: get_u32_def del: get_put_u32)
  ultimately show "floats_at (length v) (concat (map put_float v) @ rest) ! i = v ! i"
    using i by (simp add: floats_at_def)
qed (simp add: floats_at_def)

lemma put_vector_fits:
  "vector_fits dim e \<Longrightarrow> put_vector dim e = put_blob (fst e) @ concat (map put_float (snd e))"
  by (simp add: put_vector_def vector_fits_def unat_dim4 length_put_floats split_beta)

lemma get_put_vector:
  assumes "vector_fits dim e"
  shows "get_vector dim (put_vector dim e @ rest) = Some (e, rest)"
  using assms floats_at_put[of "snd e" rest]
  by (simp add: put_vector_fits get_vector_def) (simp add: vector_fits_def unat_dim4 length_put_floats)

lemma get_vector_prefix:
  assumes "vector_fits dim e" "i < length (put_vector dim e)"
  shows "get_vector dim (take i (put_vector dim e)) = None"
proof -
  have "get_blob (unat (dim * 4)) (take i (put_vector dim e)) = None"
    using assms by (intro get_blob_short[of "fst e" _ _ i "concat (map put_float (snd e))"])
      (auto simp: put_vector_fits, auto simp: vector_fits_def length_put_floats unat_dim4)
  then show ?thesis by (simp add: get_vector_def)
qed

interpretation vector_format: item_format "put_vector dim" "get_vector dim" "vector_fits dim" for dim
  by unfold_locales (simp_all add: get_put_vector get_vector_prefix)


lemma entry_dim: "vd_ok v \<Longrightarrow> e \<in> set (vd_all_entries v) \<Longrightarrow> length (snd e) = vd_dim v"
proof -
  assume ok: "vd_ok v" and "e \<in> set (vd_all_entries v)"
  then obtain i where i: "i < length (vd_ids v)" "snd e = take (vd_dim v) (drop (i * vd_dim v) (id_to_vec_storage v))"
    by (auto simp: vd_all_entries_def)
  then have "(i + 1) * vd_dim v \<le> length (vd_ids v) * vd_dim v" by (intro mult_le_mono1) simp
  then show ?thesis using i ok by (simp add: vd_ok_def)
qed

lemma add_all_vectors:
  assumes "\<And>vec label ix. fst (add_point L vec label ix)" "vd_ok w" "\<forall>e \<in> set es. length (snd e) = vd_dim w"
  shows "vd_all_entries (fold (\<lambda>(ident, vec) v. snd (vd_add L ident vec v)) es w) = vd_all_entries w @ es
    \<and> vd_ok (fold (\<lambda>(ident, vec) v. snd (vd_add L ident vec v)) es w)"
  using assms(2,3)
proof (induction es arbitrary: w)
  case (Cons e es)
  obtain ident vec where e: "e = (ident, vec)" by (cases e)
  have "fst (vd_add L ident vec w)"
    using Cons.prems e assms(1) by (simp add: vd_add_def split_beta Let_def)
  then show ?case
    using Cons.IH[of "snd (vd_add L ident vec w)"] Cons.prems vd_add_entries[OF Cons.prems(1), of L ident vec] e by simp
qed simp

lemma add_no_vectors:
  "\<forall>e \<in> set es. length (snd e) \<noteq> vd_dim w \<Longrightarrow> fold (\<lambda>(ident, vec) v. snd (vd_add L ident vec v)) es w = w"
  by (induction es) (auto simp: vd_add_def)

text \<open>
  A vector store written to its byte form and read into an empty store of the same dimension comes back with the same
  entries, whatever the metric and the index, and every cut-off text is refused; read into a store of another dimension, as
  \<^verbatim>\<open>vecget\<close>, \<^verbatim>\<open>vecdel\<close> and \<^verbatim>\<open>vecsize\<close> do with dimension 0, the call reports success and loads nothing.
\<close>

theorem vector_roundtrip:
  assumes "vd_ok v" "4 * vd_dim v < 2 ^ 32" "fits32 (vd_all_entries v)" "\<forall>e \<in> set (vd_all_entries v). fits32 (fst e)"
    and "\<And>vec label ix. fst (add_point L vec label ix)" "vd_ok w" "vd_all_entries w = []"
  shows "fst (deserialize_vector L (serialize_vector v) w)
    \<and> vd_all_entries (snd (deserialize_vector L (serialize_vector v) w)) = (if vd_dim w = vd_dim v then vd_all_entries v else [])
    \<and> (\<forall>i < length (serialize_vector v). \<not> fst (deserialize_vector L (take i (serialize_vector v)) w))"
proof -
  let ?es = "vd_all_entries v" and ?dim = "of_nat (vd_dim v) :: u32"
  let ?add = "\<lambda>(ident, vec) v. snd (vd_add L ident vec v)"
  have dim: "unat ?dim = vd_dim v" using assms(2) by (simp add: unsigned_of_nat take_bit_nat_eq_self)
  have fits: "\<forall>e \<in> set ?es. vector_fits ?dim e"
    using assms(1,2,4) entry_dim dim by (auto simp: vector_fits_def)
  have "length (concat (map (put_vector ?dim) es)) = sum_list (map (\<lambda>(ident, vec). 4 + length ident + unat (?dim * 4)) es)"
    if "\<forall>e \<in> set es. vector_fits ?dim e" for es
    using that by (induction es) (auto simp: put_vector_fits vector_fits_def length_put_floats unat_dim4)
  then have out: "serialize_vector v = put_u32 ?dim @ put_u32 (of_nat (length ?es)) @ concat (map (put_vector ?dim) ?es)"
    using fits by (simp add: serialize_vector_def Let_def pad_def)
  have "read_counted (get_vector ?dim) ?add (put_u32 (of_nat (length ?es)) @ concat (map (put_vector ?dim) ?es)) w = (True, fold ?add ?es w)"
    using vector_format.read_counted_put[OF assms(3) fits, of ?add "[]" w] by simp
  then have read: "deserialize_vector L (serialize_vector v) w = (True, fold ?add ?es w)"
    by (simp add: deserialize_vector_def out)
  have "vd_all_entries (fold ?add ?es w) = (if vd_dim w = vd_dim v then ?es else [])"
    using add_all_vectors[OF assms(5,6), of ?es] add_no_vectors[of ?es w L] entry_dim[OF assms(1)] assms(7) by auto
  moreover have "\<not> fst (deserialize_vector L (take i (serialize_vector v)) w)" if "i < length (serialize_vector v)" for i
  proof (cases "i < 8")
    case False
    let ?body = "put_u32 (of_nat (length ?es)) @ concat (map (put_vector ?dim) ?es)"
    have "take i (serialize_vector v) = put_u32 ?dim @ take (i - 4) ?body" using False by (simp add: out)
    moreover have "\<not> fst (read_counted (get_vector ?dim) ?add (take (i - 4) ?body) w)"
      by (rule vector_format.read_counted_prefix[OF assms(3) fits]) (use that out False in simp)
    ultimately show ?thesis using False that by (simp add: deserialize_vector_def)
  qed (simp add: deserialize_vector_def)
  ultimately show ?thesis using read by simp
qed

theorem vector_roundtrip_witness:
  "vd_all_entries (snd (deserialize_vector plain_index (serialize_vector sample_vectors) (vd_new plain_index 2 kCosine 16 200)))
     = [([1], [7, 8])]
   \<and> vd_all_entries (snd (deserialize_vector plain_index (serialize_vector sample_vectors) (vd_new plain_index 0 kL2 16 200))) = []"
proof -
  have dim: "vd_dim sample_vectors = 2" "\<And>vec label ix. fst (add_point plain_index vec label ix)" "vd_dim (vd_new plain_index n m M ef) = n" for n m M ef
    by (simp_all add: sample_vectors_def plain_index_def vd_add_def vd_new_def)
  show ?thesis
    using vector_roundtrip[OF sample_vectors(1) _ _ _ dim(2) vd_new_entries[of plain_index 2 kCosine 16 200]]
      vector_roundtrip[OF sample_vectors(1) _ _ _ dim(2) vd_new_entries[of plain_index 0 kL2 16 200]]
    by (simp add: sample_vectors(2) dim fits32_def)
qed

end
