(* ===== verification/Rocksdb_Adapter.thy ===== *)
theory Rocksdb_Adapter
  imports Kv_Prelude
begin

text \<open>
  \<^verbatim>\<open>src/rocksdb_adapter.cpp\<close>: the database behind the engine.  RocksDB itself is not part of the sources: its calls
  are the record \<open>R\<close> of functions on an unknown database state, each returning whether its status was ok.  What the
  code relies on is \<open>db_laws\<close>: a read returns what was last written, whether a write is reported as failed or not.
  The log messages are left out, as is the creation of the parent directory.
\<close>

section \<open>The library\<close>

datatype read_status = Read_ok str | Read_not_found | Read_failed

record 'db rocks =
  rdb_open :: "str \<Rightarrow> 'db option"
  rdb_put :: "str \<Rightarrow> str \<Rightarrow> 'db \<Rightarrow> bool \<times> 'db"
  rdb_get :: "str \<Rightarrow> 'db \<Rightarrow> read_status"
  rdb_delete :: "str \<Rightarrow> 'db \<Rightarrow> bool \<times> 'db"
  rdb_write :: "(str \<times> str) list \<Rightarrow> 'db \<Rightarrow> bool \<times> 'db"
  rdb_estimate_keys :: "'db \<Rightarrow> u64 option"
  rdb_flush :: "'db \<Rightarrow> bool \<times> 'db"
  rdb_compact :: "'db \<Rightarrow> bool \<times> 'db"

section \<open>The adapter\<close>

record 'db adapter =
  db_path :: str
  db_handle :: "'db option"

definition ra_new :: "'db rocks \<Rightarrow> str \<Rightarrow> 'db adapter" where
  "ra_new R path = \<lparr>db_path = path, db_handle = rdb_open R path\<rparr>"

definition ra_is_open :: "'db adapter \<Rightarrow> bool" where
  "ra_is_open a = (db_handle a \<noteq> None)"

definition ra_put :: "'db rocks \<Rightarrow> str \<Rightarrow> str \<Rightarrow> 'db adapter \<Rightarrow> bool \<times> 'db adapter" where
  "ra_put R key v a =
     (case db_handle a of
        None \<Rightarrow> (False, a)
      | Some d \<Rightarrow> (let (ok, d') = rdb_put R key v d in (ok, a\<lparr>db_handle := Some d'\<rparr>)))"

definition ra_get :: "'db rocks \<Rightarrow> str \<Rightarrow> 'db adapter \<Rightarrow> str option" where
  "ra_get R key a =
     (case db_handle a of
        None \<Rightarrow> None
      | Some d \<Rightarrow> (case rdb_get R key d of Read_not_found \<Rightarrow> None | Read_failed \<Rightarrow> None | Read_ok v \<Rightarrow> Some v))"

definition ra_delete :: "'db rocks \<Rightarrow> str \<Rightarrow> 'db adapter \<Rightarrow> bool \<times> 'db adapter" where
  "ra_delete R key a =
     (case db_handle a of
        None \<Rightarrow> (False, a)
      | Some d \<Rightarrow> (let (ok, d') = rdb_delete R key d in (ok, a\<lparr>db_handle := Some d'\<rparr>)))"

definition ra_exists :: "'db rocks \<Rightarrow> str \<Rightarrow> 'db adapter \<Rightarrow> bool" where
  "ra_exists R key a =
     (case db_handle a of
        None \<Rightarrow> False
      | Some d \<Rightarrow> (case rdb_get R key d of Read_ok v \<Rightarrow> True | _ \<Rightarrow> False))"

definition ra_batch_put :: "'db rocks \<Rightarrow> (str \<times> str) list \<Rightarrow> 'db adapter \<Rightarrow> bool \<times> 'db adapter" where
  "ra_batch_put R kvs a =
     (case db_handle a of
        None \<Rightarrow> (False, a)
      | Some d \<Rightarrow> (let (ok, d') = rdb_write R kvs d in (ok, a\<lparr>db_handle := Some d'\<rparr>)))"

definition ra_approximate_count :: "'db rocks \<Rightarrow> 'db adapter \<Rightarrow> u64" where
  "ra_approximate_count R a =
     (case db_handle a of
        None \<Rightarrow> 0
      | Some d \<Rightarrow> (case rdb_estimate_keys R d of None \<Rightarrow> 0 | Some n \<Rightarrow> n))"

definition ra_flush :: "'db rocks \<Rightarrow> 'db adapter \<Rightarrow> bool \<times> 'db adapter" where
  "ra_flush R a =
     (case db_handle a of
        None \<Rightarrow> (False, a)
      | Some d \<Rightarrow> (let (ok, d') = rdb_flush R d in (ok, a\<lparr>db_handle := Some d'\<rparr>)))"

definition ra_compact :: "'db rocks \<Rightarrow> 'db adapter \<Rightarrow> bool \<times> 'db adapter" where
  "ra_compact R a =
     (case db_handle a of
        None \<Rightarrow> (False, a)
      | Some d \<Rightarrow> (let (ok, d') = rdb_compact R d in (ok, a\<lparr>db_handle := Some d'\<rparr>)))"

section \<open>What is relied on\<close>

text \<open>
  \<open>contents\<close> is the map a database stands for.  A call that fails changes nothing; one that succeeds does what its name
  says; a read that finds the key returns its value.
\<close>

definition db_laws :: "'db rocks \<Rightarrow> ('db \<Rightarrow> str \<Rightarrow> str option) \<Rightarrow> bool" where
  "db_laws R contents \<longleftrightarrow>
     (\<forall>k v d. contents (snd (rdb_put R k v d)) = (if fst (rdb_put R k v d) then (contents d)(k \<mapsto> v) else contents d)) \<and>
     (\<forall>k d. contents (snd (rdb_delete R k d)) = (if fst (rdb_delete R k d) then (contents d)(k := None) else contents d)) \<and>
     (\<forall>k d v. rdb_get R k d = Read_ok v \<longrightarrow> contents d k = Some v) \<and>
     (\<forall>k d. rdb_get R k d = Read_not_found \<longrightarrow> contents d k = None)"

text \<open>And that the calls succeed.\<close>

definition db_works :: "'db rocks \<Rightarrow> bool" where
  "db_works R \<longleftrightarrow> (\<forall>k v d. fst (rdb_put R k v d)) \<and> (\<forall>k d. fst (rdb_delete R k d)) \<and> (\<forall>k d. rdb_get R k d \<noteq> Read_failed)"

definition ra_contents :: "('db \<Rightarrow> str \<Rightarrow> str option) \<Rightarrow> 'db adapter \<Rightarrow> str \<Rightarrow> str option" where
  "ra_contents contents a = (case db_handle a of None \<Rightarrow> Map.empty | Some d \<Rightarrow> contents d)"

lemma ra_get_put:
  assumes "db_laws R contents" "db_works R" "ra_is_open a"
  shows "ra_get R k' (snd (ra_put R k v a)) = (if k' = k then Some v else ra_get R k' a)"
    and "ra_get R k' (snd (ra_delete R k a)) = (if k' = k then None else ra_get R k' a)"
proof -
  obtain d where d: "db_handle a = Some d" using assms(3) by (auto simp: ra_is_open_def)
  have get: "ra_get R k b = contents d k" if "db_handle b = Some d" for k d b
    using assms(1,2) that unfolding db_laws_def db_works_def ra_get_def by (cases "rdb_get R k d") auto
  have got: "ra_get R k' a = contents d k'" using get[OF d] .
  show "ra_get R k' (snd (ra_put R k v a)) = (if k' = k then Some v else ra_get R k' a)"
    using assms(1,2) d got get by (simp add: ra_put_def split_beta db_laws_def db_works_def)
  show "ra_get R k' (snd (ra_delete R k a)) = (if k' = k then None else ra_get R k' a)"
    using assms(1,2) d got get by (simp add: ra_delete_def split_beta db_laws_def db_works_def)
qed

lemma ra_open_kept [simp]:
  "ra_is_open (snd (ra_put R k v a)) = ra_is_open a" "ra_is_open (snd (ra_delete R k a)) = ra_is_open a"
  by (auto simp: ra_is_open_def ra_put_def ra_delete_def split_beta split: option.splits)

text \<open>A database that is a map in memory, to run the engine with.\<close>

definition memory_db :: "(str \<times> str) list rocks" where
  "memory_db =
     \<lparr>rdb_open = \<lambda>_. Some [], rdb_put = \<lambda>k v d. (True, (k, v) # d),
      rdb_get = \<lambda>k d. (case map_of d k of None \<Rightarrow> Read_not_found | Some v \<Rightarrow> Read_ok v),
      rdb_delete = \<lambda>k d. (True, filter (\<lambda>p. fst p \<noteq> k) d), rdb_write = \<lambda>kvs d. (True, rev kvs @ d),
      rdb_estimate_keys = \<lambda>d. Some (of_nat (length d)), rdb_flush = \<lambda>d. (True, d), rdb_compact = \<lambda>d. (True, d)\<rparr>"

lemma memory_db_laws: "db_laws memory_db map_of" "db_works memory_db"
proof -
  have "map_of (filter (\<lambda>p. fst p \<noteq> k) d) = (map_of d)(k := None)" for k and d :: "(str \<times> str) list"
    by (rule ext, induction d) auto
  then show "db_laws memory_db map_of" "db_works memory_db"
    by (auto simp: db_laws_def db_works_def memory_db_def split: option.splits)
qed

end
