(* ===== verification/Engine_State.thy ===== *)
theory Engine_State
  imports Zset Vector_Data Eviction_2Q Key_Metadata Rocksdb_Adapter
begin

text \<open>
  \<^verbatim>\<open>src/engine.hpp\<close> and \<^verbatim>\<open>src/engine.cpp\<close>: the state of the engine, the way a value is found in memory or loaded from
  the database, the memory count, expiry and eviction.

  What is outside the sources is the parameter \<open>E\<close>: the hash of strings, the order in which a shard is iterated, the
  floating-point bound of the protected queue, hnswlib, RocksDB, simdjson, and the sizes and capacities of the library's
  strings and vectors.  The clock is the argument \<open>now\<close>, in milliseconds; one call reads it once.  A \<^verbatim>\<open>std::shared_ptr\<close> to
  a container is reachable from one slot of one map only, so the map holds the container itself, and a handler that
  changes a container through its pointer writes it back to that slot.  Handlers run one at a time; \<^verbatim>\<open>Hash_Threads\<close> has
  the pointers and the interleavings.
\<close>

section \<open>State\<close>

datatype eviction_policy =
  kNoEviction | kAllKeysLRU | kVolatileLRU | kAllKeysLFU | kVolatileLFU | kAllKeysRandom | kVolatileRandom | kVolatileTTL | k2Q

record options =
  opt_path :: str
  opt_shards :: nat
  max_mb :: nat
  eviction :: eviction_policy

record ('doc, 'ix, 'db) env =
  env_hash :: "str \<Rightarrow> u64"
  env_order :: "str list \<Rightarrow> str list"
  protected_max :: "nat \<Rightarrow> nat"
  hnswlib :: "'ix hnsw"
  rocks :: "'db rocks"
  json_parse :: "str \<Rightarrow> 'doc option"
  json_text :: "'doc \<Rightarrow> str"
  json_at :: "str \<Rightarrow> 'doc \<Rightarrow> 'doc option"
  sizeof_string :: nat
  string_capacity :: "str \<Rightarrow> nat"
  list_capacity :: "str linked_list \<Rightarrow> nat"
  rand_value :: "nat \<Rightarrow> nat"

type_synonym hash_value = "(str, str) dashmap"
type_synonym set_value = "(str, byte) dashmap"

record ('ix, 'db) engine =
  opts :: options
  eviction_2q :: "str eviction2q"
  put_count :: int
  get_count :: int
  hits :: int
  misses :: int
  evicted :: int
  expired :: int
  bytes :: "(str, str) dashmap"
  zsets :: "(str, zset) dashmap"
  lists :: "(str, str linked_list) dashmap"
  hashes :: "(str, hash_value) dashmap"
  sets :: "(str, set_value) dashmap"
  streams :: "(str, stream_data) dashmap"
  jsons :: "(str, str) dashmap"
  vectors :: "(str, 'ix vector_data) dashmap"
  meta :: "str meta_map"
  rocksdb :: "'db adapter option"
  last_error :: str

definition engine_new :: "('doc, 'ix, 'db) env \<Rightarrow> options \<Rightarrow> ('ix, 'db) engine" where
  "engine_new E o' =
     (let db = (if opt_path o' = [] then None else Some (ra_new (rocks E) (opt_path o'))) in
      \<lparr>opts = o', eviction_2q = eq_new, put_count = 0, get_count = 0, hits = 0, misses = 0, evicted = 0, expired = 0,
       bytes = dm_new (opt_shards o'), zsets = dm_new (opt_shards o'), lists = dm_new (opt_shards o'),
       hashes = dm_new (opt_shards o'), sets = dm_new (opt_shards o'), streams = dm_new (opt_shards o'),
       jsons = dm_new (opt_shards o'), vectors = dm_new (opt_shards o'), meta = mm_new, rocksdb = db,
       last_error = (case db of
          None \<Rightarrow> []
        | Some a \<Rightarrow> if ra_is_open a then [] else ascii ''Failed to open RocksDB at '' @ opt_path o')\<rparr>)"

section \<open>Slots: the maps of the containers\<close>

text \<open>
  One container type: its map, the type its keys are registered with, and its byte format.  The eight maps of the engine
  are treated alike, the functions for each type are the ones of this section at its slot.
\<close>

record ('c, 'e) slot =
  slot_map :: "'e \<Rightarrow> (str, 'c) dashmap"
  slot_set :: "(str, 'c) dashmap \<Rightarrow> 'e \<Rightarrow> 'e"
  slot_type :: key_type
  slot_write :: "'c \<Rightarrow> str"
  slot_read :: "str \<Rightarrow> 'c \<Rightarrow> bool \<times> 'c"

definition bytes_slot :: "('doc, 'ix, 'db) env \<Rightarrow> (str, ('ix, 'db) engine) slot" where
  "bytes_slot E = \<lparr>slot_map = bytes, slot_set = (\<lambda>m e. e\<lparr>bytes := m\<rparr>), slot_type = kBytes, slot_write = (\<lambda>v. v),
                   slot_read = (\<lambda>d _. (True, d))\<rparr>"

definition zset_slot :: "('doc, 'ix, 'db) env \<Rightarrow> (zset, ('ix, 'db) engine) slot" where
  "zset_slot E = \<lparr>slot_map = zsets, slot_set = (\<lambda>m e. e\<lparr>zsets := m\<rparr>), slot_type = kZSet,
                  slot_write = serialize_zset (env_order E), slot_read = deserialize_zset (env_hash E)\<rparr>"

definition list_slot :: "('doc, 'ix, 'db) env \<Rightarrow> (str linked_list, ('ix, 'db) engine) slot" where
  "list_slot E = \<lparr>slot_map = lists, slot_set = (\<lambda>m e. e\<lparr>lists := m\<rparr>), slot_type = kList,
                  slot_write = serialize_list, slot_read = deserialize_list\<rparr>"

definition hash_slot :: "('doc, 'ix, 'db) env \<Rightarrow> (hash_value, ('ix, 'db) engine) slot" where
  "hash_slot E = \<lparr>slot_map = hashes, slot_set = (\<lambda>m e. e\<lparr>hashes := m\<rparr>), slot_type = kHash,
                  slot_write = serialize_hash (env_order E), slot_read = deserialize_hash (env_hash E)\<rparr>"

definition set_slot :: "('doc, 'ix, 'db) env \<Rightarrow> (set_value, ('ix, 'db) engine) slot" where
  "set_slot E = \<lparr>slot_map = sets, slot_set = (\<lambda>m e. e\<lparr>sets := m\<rparr>), slot_type = kSet,
                 slot_write = serialize_set (env_order E), slot_read = deserialize_set (env_hash E)\<rparr>"

definition stream_slot :: "('doc, 'ix, 'db) env \<Rightarrow> int \<Rightarrow> (stream_data, ('ix, 'db) engine) slot" where
  "stream_slot E now = \<lparr>slot_map = streams, slot_set = (\<lambda>m e. e\<lparr>streams := m\<rparr>), slot_type = kStream,
                        slot_write = serialize_stream, slot_read = deserialize_stream (of_int now)\<rparr>"

definition json_slot :: "('doc, 'ix, 'db) env \<Rightarrow> (str, ('ix, 'db) engine) slot" where
  "json_slot E = \<lparr>slot_map = jsons, slot_set = (\<lambda>m e. e\<lparr>jsons := m\<rparr>), slot_type = kJson,
                  slot_write = (\<lambda>v. v), slot_read = (\<lambda>d _. (True, d))\<rparr>"

definition vector_slot :: "('doc, 'ix, 'db) env \<Rightarrow> ('ix vector_data, ('ix, 'db) engine) slot" where
  "vector_slot E = \<lparr>slot_map = vectors, slot_set = (\<lambda>m e. e\<lparr>vectors := m\<rparr>), slot_type = kVector,
                    slot_write = serialize_vector, slot_read = deserialize_vector (hnswlib E)\<rparr>"

text \<open>The calls on one map, by the slot.\<close>

definition slot_get :: "('doc, 'ix, 'db) env \<Rightarrow> ('c, ('ix, 'db) engine) slot \<Rightarrow> str \<Rightarrow> ('ix, 'db) engine \<Rightarrow> 'c option" where
  "slot_get E s key e = dm_get (env_hash E) key (slot_map s e)"

definition slot_insert ::
    "('doc, 'ix, 'db) env \<Rightarrow> ('c, ('ix, 'db) engine) slot \<Rightarrow> str \<Rightarrow> 'c \<Rightarrow> ('ix, 'db) engine \<Rightarrow> ('ix, 'db) engine" where
  "slot_insert E s key c e = slot_set s (snd (dm_insert (env_hash E) key c (slot_map s e))) e"

definition slot_remove ::
    "('doc, 'ix, 'db) env \<Rightarrow> ('c, ('ix, 'db) engine) slot \<Rightarrow> str \<Rightarrow> ('ix, 'db) engine \<Rightarrow> bool \<times> ('ix, 'db) engine" where
  "slot_remove E s key e =
     (let (erased, m) = dm_remove (env_hash E) key (slot_map s e) in (erased, slot_set s m e))"

definition register :: "('doc, 'ix, 'db) env \<Rightarrow> str \<Rightarrow> key_type \<Rightarrow> ('ix, 'db) engine \<Rightarrow> ('ix, 'db) engine" where
  "register E key t e = e\<lparr>meta := register_key (env_hash E) key t (meta e)\<rparr>"

definition unregister :: "('doc, 'ix, 'db) env \<Rightarrow> str \<Rightarrow> ('ix, 'db) engine \<Rightarrow> ('ix, 'db) engine" where
  "unregister E key e = e\<lparr>meta := unregister_key (env_hash E) key (meta e)\<rparr>"

definition db_put :: "('doc, 'ix, 'db) env \<Rightarrow> str \<Rightarrow> str \<Rightarrow> ('ix, 'db) engine \<Rightarrow> ('ix, 'db) engine" where
  "db_put E key v e =
     (case rocksdb e of None \<Rightarrow> e | Some a \<Rightarrow> e\<lparr>rocksdb := Some (snd (ra_put (rocks E) key v a))\<rparr>)"

definition db_get :: "('doc, 'ix, 'db) env \<Rightarrow> str \<Rightarrow> ('ix, 'db) engine \<Rightarrow> str option" where
  "db_get E key e = (case rocksdb e of None \<Rightarrow> None | Some a \<Rightarrow> ra_get (rocks E) key a)"

definition db_delete :: "('doc, 'ix, 'db) env \<Rightarrow> str \<Rightarrow> ('ix, 'db) engine \<Rightarrow> ('ix, 'db) engine" where
  "db_delete E key e =
     (case rocksdb e of None \<Rightarrow> e | Some a \<Rightarrow> e\<lparr>rocksdb := Some (snd (ra_delete (rocks E) key a))\<rparr>)"

section \<open>Persistence\<close>

definition persist_value ::
    "('doc, 'ix, 'db) env \<Rightarrow> ('c, ('ix, 'db) engine) slot \<Rightarrow> str \<Rightarrow> 'c \<Rightarrow> ('ix, 'db) engine \<Rightarrow> ('ix, 'db) engine" where
  "persist_value E s key c e = db_put E key (slot_write s c) e"

definition load_value ::
    "('doc, 'ix, 'db) env \<Rightarrow> ('c, ('ix, 'db) engine) slot \<Rightarrow> str \<Rightarrow> 'c \<Rightarrow> ('ix, 'db) engine \<Rightarrow> bool \<times> 'c" where
  "load_value E s key c e = (case db_get E key e of None \<Rightarrow> (False, c) | Some v \<Rightarrow> slot_read s v c)"

definition get_or_create ::
    "('doc, 'ix, 'db) env \<Rightarrow> ('c, ('ix, 'db) engine) slot \<Rightarrow> str \<Rightarrow> 'c \<Rightarrow> ('ix, 'db) engine \<Rightarrow> 'c option \<times> ('ix, 'db) engine" where
  "get_or_create E s key fresh e =
     (case slot_get E s key e of
        Some c \<Rightarrow> (Some c, e)
      | None \<Rightarrow> (let (ok, c) = load_value E s key fresh e in
          if ok then (Some c, register E key (slot_type s) (slot_insert E s key c e)) else (None, e)))"

text \<open>The opening of the writing handlers, which look in the map only.\<close>

definition find_or_insert ::
    "('doc, 'ix, 'db) env \<Rightarrow> ('c, ('ix, 'db) engine) slot \<Rightarrow> str \<Rightarrow> 'c \<Rightarrow> ('ix, 'db) engine \<Rightarrow> 'c \<times> ('ix, 'db) engine" where
  "find_or_insert E s key fresh e =
     (case slot_get E s key e of
        Some c \<Rightarrow> (c, e)
      | None \<Rightarrow> (fresh, register E key (slot_type s) (slot_insert E s key fresh e)))"

definition persist_zset :: "('doc, 'ix, 'db) env \<Rightarrow> str \<Rightarrow> zset \<Rightarrow> ('ix, 'db) engine \<Rightarrow> ('ix, 'db) engine" where
  [kv_defs]: "persist_zset E = persist_value E (zset_slot E)"

definition load_zset :: "('doc, 'ix, 'db) env \<Rightarrow> str \<Rightarrow> zset \<Rightarrow> ('ix, 'db) engine \<Rightarrow> bool \<times> zset" where
  [kv_defs]: "load_zset E = load_value E (zset_slot E)"

definition get_or_create_zset ::
    "('doc, 'ix, 'db) env \<Rightarrow> str \<Rightarrow> ('ix, 'db) engine \<Rightarrow> zset option \<times> ('ix, 'db) engine" where
  [kv_defs]: "get_or_create_zset E key = get_or_create E (zset_slot E) key zs_new"

definition persist_list :: "('doc, 'ix, 'db) env \<Rightarrow> str \<Rightarrow> str linked_list \<Rightarrow> ('ix, 'db) engine \<Rightarrow> ('ix, 'db) engine" where
  [kv_defs]: "persist_list E = persist_value E (list_slot E)"

definition load_list :: "('doc, 'ix, 'db) env \<Rightarrow> str \<Rightarrow> str linked_list \<Rightarrow> ('ix, 'db) engine \<Rightarrow> bool \<times> str linked_list" where
  [kv_defs]: "load_list E = load_value E (list_slot E)"

definition get_or_create_list ::
    "('doc, 'ix, 'db) env \<Rightarrow> str \<Rightarrow> ('ix, 'db) engine \<Rightarrow> str linked_list option \<times> ('ix, 'db) engine" where
  [kv_defs]: "get_or_create_list E key = get_or_create E (list_slot E) key ll_new"

definition persist_hash :: "('doc, 'ix, 'db) env \<Rightarrow> str \<Rightarrow> hash_value \<Rightarrow> ('ix, 'db) engine \<Rightarrow> ('ix, 'db) engine" where
  [kv_defs]: "persist_hash E = persist_value E (hash_slot E)"

definition load_hash :: "('doc, 'ix, 'db) env \<Rightarrow> str \<Rightarrow> hash_value \<Rightarrow> ('ix, 'db) engine \<Rightarrow> bool \<times> hash_value" where
  [kv_defs]: "load_hash E = load_value E (hash_slot E)"

definition get_or_create_hash ::
    "('doc, 'ix, 'db) env \<Rightarrow> str \<Rightarrow> ('ix, 'db) engine \<Rightarrow> hash_value option \<times> ('ix, 'db) engine" where
  [kv_defs]: "get_or_create_hash E key = get_or_create E (hash_slot E) key (dm_new 16)"

definition persist_set :: "('doc, 'ix, 'db) env \<Rightarrow> str \<Rightarrow> set_value \<Rightarrow> ('ix, 'db) engine \<Rightarrow> ('ix, 'db) engine" where
  [kv_defs]: "persist_set E = persist_value E (set_slot E)"

definition load_set :: "('doc, 'ix, 'db) env \<Rightarrow> str \<Rightarrow> set_value \<Rightarrow> ('ix, 'db) engine \<Rightarrow> bool \<times> set_value" where
  [kv_defs]: "load_set E = load_value E (set_slot E)"

definition get_or_create_set ::
    "('doc, 'ix, 'db) env \<Rightarrow> str \<Rightarrow> ('ix, 'db) engine \<Rightarrow> set_value option \<times> ('ix, 'db) engine" where
  [kv_defs]: "get_or_create_set E key = get_or_create E (set_slot E) key (dm_new 16)"

definition persist_stream :: "('doc, 'ix, 'db) env \<Rightarrow> int \<Rightarrow> str \<Rightarrow> stream_data \<Rightarrow> ('ix, 'db) engine \<Rightarrow> ('ix, 'db) engine" where
  [kv_defs]: "persist_stream E now = persist_value E (stream_slot E now)"

definition load_stream :: "('doc, 'ix, 'db) env \<Rightarrow> int \<Rightarrow> str \<Rightarrow> stream_data \<Rightarrow> ('ix, 'db) engine \<Rightarrow> bool \<times> stream_data" where
  [kv_defs]: "load_stream E now = load_value E (stream_slot E now)"

definition get_or_create_stream ::
    "('doc, 'ix, 'db) env \<Rightarrow> int \<Rightarrow> str \<Rightarrow> ('ix, 'db) engine \<Rightarrow> stream_data option \<times> ('ix, 'db) engine" where
  [kv_defs]: "get_or_create_stream E now key = get_or_create E (stream_slot E now) key stream_new"

definition persist_json :: "('doc, 'ix, 'db) env \<Rightarrow> str \<Rightarrow> str \<Rightarrow> ('ix, 'db) engine \<Rightarrow> ('ix, 'db) engine" where
  [kv_defs]: "persist_json E = persist_value E (json_slot E)"

definition load_json :: "('doc, 'ix, 'db) env \<Rightarrow> str \<Rightarrow> str \<Rightarrow> ('ix, 'db) engine \<Rightarrow> bool \<times> str" where
  [kv_defs]: "load_json E = load_value E (json_slot E)"

definition get_or_create_json ::
    "('doc, 'ix, 'db) env \<Rightarrow> str \<Rightarrow> ('ix, 'db) engine \<Rightarrow> str option \<times> ('ix, 'db) engine" where
  [kv_defs]: "get_or_create_json E key = get_or_create E (json_slot E) key []"

definition persist_vector :: "('doc, 'ix, 'db) env \<Rightarrow> str \<Rightarrow> 'ix vector_data \<Rightarrow> ('ix, 'db) engine \<Rightarrow> ('ix, 'db) engine" where
  [kv_defs]: "persist_vector E = persist_value E (vector_slot E)"

definition load_vector :: "('doc, 'ix, 'db) env \<Rightarrow> str \<Rightarrow> 'ix vector_data \<Rightarrow> ('ix, 'db) engine \<Rightarrow> bool \<times> 'ix vector_data" where
  [kv_defs]: "load_vector E = load_value E (vector_slot E)"

definition get_or_create_vector ::
    "('doc, 'ix, 'db) env \<Rightarrow> str \<Rightarrow> nat \<Rightarrow> ('ix, 'db) engine \<Rightarrow> 'ix vector_data option \<times> ('ix, 'db) engine" where
  [kv_defs]: "get_or_create_vector E key dim = get_or_create E (vector_slot E) key (vd_new (hnswlib E) dim kL2 16 200)"

section \<open>The memory count\<close>

definition slot_usage ::
    "('doc, 'ix, 'db) env \<Rightarrow> ('c, ('ix, 'db) engine) slot \<Rightarrow> ('c \<Rightarrow> nat) \<Rightarrow> ('ix, 'db) engine \<Rightarrow> int" where
  "slot_usage E s usage e =
     sum_list (map (\<lambda>k. int (length k) + (case slot_get E s k e of None \<Rightarrow> 0 | Some c \<Rightarrow> int (usage c)))
       (dm_all_keys (env_order E) (slot_map s e)))"

definition memory_usage :: "('doc, 'ix, 'db) env \<Rightarrow> ('ix, 'db) engine \<Rightarrow> int" where
  "memory_usage E e =
     sum_list (map (\<lambda>(k, v). int (length k + length v)) (dm_all_entries (env_order E) (bytes e)))
     + slot_usage E (zset_slot E) (zs_memory_usage (sizeof_string E) (string_capacity E)) e
     + slot_usage E (list_slot E) (\<lambda>l. ll_memory_usage (sizeof_string E) (list_capacity E l) l) e
     + slot_usage E (hash_slot E) (\<lambda>h. dm_size h * 64) e
     + slot_usage E (set_slot E) (\<lambda>s. dm_size s * 40) e
     + slot_usage E (stream_slot E 0) stream_memory_usage e
     + slot_usage E (json_slot E) (\<lambda>j. length j + 64) e
     + slot_usage E (vector_slot E) (vd_memory_usage (sizeof_string E)) e
     + int (mm_size (meta e) * 64)"

section \<open>Expiry\<close>

definition valid :: "('doc, 'ix, 'db) env \<Rightarrow> int \<Rightarrow> str \<Rightarrow> ('ix, 'db) engine \<Rightarrow> bool \<times> ('ix, 'db) engine" where
  "valid E now key e = (let (ok, m) = is_valid (env_hash E) now key (meta e) in (ok, e\<lparr>meta := m\<rparr>))"

text \<open>The eight \<^verbatim>\<open>Remove\<close> calls on the maps and whether one of them found the key.\<close>

definition remove_everywhere :: "('doc, 'ix, 'db) env \<Rightarrow> str \<Rightarrow> ('ix, 'db) engine \<Rightarrow> bool \<times> ('ix, 'db) engine" where
  "remove_everywhere E key e =
     (let (b1, e) = slot_remove E (bytes_slot E) key e;
          (b2, e) = slot_remove E (zset_slot E) key e;
          (b3, e) = slot_remove E (list_slot E) key e;
          (b4, e) = slot_remove E (hash_slot E) key e;
          (b5, e) = slot_remove E (set_slot E) key e;
          (b6, e) = slot_remove E (stream_slot E 0) key e;
          (b7, e) = slot_remove E (json_slot E) key e;
          (b8, e) = slot_remove E (vector_slot E) key e
      in (b1 \<or> b2 \<or> b3 \<or> b4 \<or> b5 \<or> b6 \<or> b7 \<or> b8, e))"

definition forget_access :: "str \<Rightarrow> ('ix, 'db) engine \<Rightarrow> ('ix, 'db) engine" where
  "forget_access key e = e\<lparr>eviction_2q := eq_remove_key key (eviction_2q e)\<rparr>"

definition cleanup_key ::
    "('doc, 'ix, 'db) env \<Rightarrow> int \<Rightarrow> str \<Rightarrow> int \<times> ('ix, 'db) engine \<Rightarrow> int \<times> ('ix, 'db) engine" where
  "cleanup_key E now key = (\<lambda>(cleaned, e).
     let (ok, e) = valid E now key e in
     if ok then (cleaned, e)
     else (cleaned + 1, db_delete E key (forget_access key (snd (remove_everywhere E key e)))))"

definition cleanup_expired :: "('doc, 'ix, 'db) env \<Rightarrow> int \<Rightarrow> ('ix, 'db) engine \<Rightarrow> int \<times> ('ix, 'db) engine" where
  "cleanup_expired E now e =
     (let keys = get_all_keys (env_order E) (meta e);
          (cleaned, e) = fold (cleanup_key E now) keys (0, e)
      in (cleaned, e\<lparr>expired := expired e + cleaned\<rparr>))"

section \<open>Eviction\<close>

definition record_access :: "('doc, 'ix, 'db) env \<Rightarrow> int \<Rightarrow> str \<Rightarrow> ('ix, 'db) engine \<Rightarrow> ('ix, 'db) engine" where
  "record_access E now key e =
     (let e = e\<lparr>meta := snd (update_access_info (env_hash E) now key (meta e))\<rparr> in
      if eviction (opts e) = k2Q
      then e\<lparr>eviction_2q := eq_record_access (protected_max E) key False (eviction_2q e)\<rparr> else e)"

definition select_victim_lru :: "(str \<Rightarrow> u64) \<Rightarrow> str list \<Rightarrow> str meta_map \<Rightarrow> str option" where
  "select_victim_lru h keys m =
     fst (fold (\<lambda>k (best, best_time). let t = get_access_time h k m in if t < best_time then (Some k, t) else (best, best_time))
           keys (None, 0xFFFFFFFF))"

definition select_victim_lfu :: "(str \<Rightarrow> u64) \<Rightarrow> str list \<Rightarrow> str meta_map \<Rightarrow> str option" where
  "select_victim_lfu h keys m =
     fst (fold (\<lambda>k (best, best_cnt). let c = get_lfu_counter h k m in if c < best_cnt then (Some k, c) else (best, best_cnt))
           keys (None, 0xFF))"

definition select_victim_random :: "nat \<Rightarrow> str list \<Rightarrow> str option" where
  "select_victim_random r keys = (if keys = [] then None else Some (keys ! (r mod length keys)))"

definition select_victim_ttl :: "(str \<Rightarrow> u64) \<Rightarrow> int \<Rightarrow> str list \<Rightarrow> str meta_map \<Rightarrow> str option" where
  "select_victim_ttl h now keys m =
     fst (fold (\<lambda>k (best, best_ttl).
             let ttl = get_ttl_ms h now k m in if ttl > 0 \<and> ttl < best_ttl then (Some k, ttl) else (best, best_ttl))
           keys (None, 2 ^ 63 - 1))"

definition volatile_only :: "eviction_policy \<Rightarrow> bool" where
  "volatile_only p \<longleftrightarrow> p = kVolatileLRU \<or> p = kVolatileLFU \<or> p = kVolatileRandom \<or> p = kVolatileTTL"

text \<open>The choice of a victim; \<open>i\<close> counts the rounds, for the calls of \<^verbatim>\<open>std::rand\<close>.\<close>

definition pick_victim ::
    "('doc, 'ix, 'db) env \<Rightarrow> int \<Rightarrow> nat \<Rightarrow> str list \<Rightarrow> ('ix, 'db) engine \<Rightarrow> str option \<times> ('ix, 'db) engine" where
  "pick_victim E now i candidates e =
     (let p = eviction (opts e); h = env_hash E in
      if p = k2Q then (let (victim, q) = eq_get_victim (eviction_2q e) in (victim, e\<lparr>eviction_2q := q\<rparr>))
      else if p = kAllKeysLRU \<or> p = kVolatileLRU then (select_victim_lru h candidates (meta e), e)
      else if p = kAllKeysLFU \<or> p = kVolatileLFU then (select_victim_lfu h candidates (meta e), e)
      else if p = kAllKeysRandom \<or> p = kVolatileRandom then (select_victim_random (rand_value E i) candidates, e)
      else if p = kVolatileTTL then (select_victim_ttl h now candidates (meta e), e)
      else (None, e))"

definition evict_slot ::
    "('doc, 'ix, 'db) env \<Rightarrow> ('c, ('ix, 'db) engine) slot \<Rightarrow> str \<Rightarrow> ('ix, 'db) engine \<Rightarrow> ('ix, 'db) engine" where
  "evict_slot E s key e =
     (case slot_get E s key e of
        None \<Rightarrow> e
      | Some c \<Rightarrow> snd (slot_remove E s key (persist_value E s key c e)))"

fun evict_value :: "('doc, 'ix, 'db) env \<Rightarrow> int \<Rightarrow> key_type \<Rightarrow> str \<Rightarrow> ('ix, 'db) engine \<Rightarrow> ('ix, 'db) engine" where
  "evict_value E now kBytes key e = evict_slot E (bytes_slot E) key e"
| "evict_value E now kZSet key e = evict_slot E (zset_slot E) key e"
| "evict_value E now kList key e = evict_slot E (list_slot E) key e"
| "evict_value E now kHash key e = evict_slot E (hash_slot E) key e"
| "evict_value E now kSet key e = evict_slot E (set_slot E) key e"
| "evict_value E now kStream key e = evict_slot E (stream_slot E now) key e"
| "evict_value E now kJson key e = evict_slot E (json_slot E) key e"
| "evict_value E now kVector key e = evict_slot E (vector_slot E) key e"
| "evict_value E now kNone key e = e"

fun evict_loop ::
    "('doc, 'ix, 'db) env \<Rightarrow> int \<Rightarrow> int \<Rightarrow> str list \<Rightarrow> nat list \<Rightarrow> int \<Rightarrow> ('ix, 'db) engine \<Rightarrow> int \<times> ('ix, 'db) engine" where
  "evict_loop E now limit candidates [] n e = (n, e)"
| "evict_loop E now limit candidates (i # is) n e =
     (if \<not> memory_usage E e > limit then (n, e)
      else (case pick_victim E now i candidates e of
              (None, e) \<Rightarrow> (n, e)
            | (Some victim, e) \<Rightarrow>
                (let (t, m) = get_key_type (env_hash E) now victim (meta e); e = e\<lparr>meta := m\<rparr> in
                 case t of
                   None \<Rightarrow> evict_loop E now limit candidates is n e
                 | Some kt \<Rightarrow>
                     if kt = kNone then evict_loop E now limit candidates is n e
                     else evict_loop E now limit candidates is (n + 1)
                            (unregister E victim (forget_access victim (evict_value E now kt victim e))))))"

definition check_memory_and_evict :: "('doc, 'ix, 'db) env \<Rightarrow> int \<Rightarrow> ('ix, 'db) engine \<Rightarrow> ('ix, 'db) engine" where
  "check_memory_and_evict E now e =
     (let e = snd (cleanup_expired E now e) in
      if max_mb (opts e) = 0 \<or> eviction (opts e) = kNoEviction then e
      else (let limit = int (max_mb (opts e)) * 1024 * 1024; current = memory_usage E e in
        if current < limit * 8 div 10 then e
        else (let keys = get_all_keys (env_order E) (meta e) in
          if keys = [] then e
          else (let candidates = filter (\<lambda>k. \<not> (volatile_only (eviction (opts e)) \<and> get_ttl_ms (env_hash E) now k (meta e) \<le> 0)) keys in
            if candidates = [] then e
            else (let max_evict = max 1 (length candidates div 10);
                      (n, e) = evict_loop E now limit candidates [0..<max_evict] 0 e
                  in e\<lparr>evicted := evicted e + n\<rparr>)))))"

end
