(* ===== verification/Engine.thy ===== *)
theory Engine
  imports Engine_State
begin

text \<open>
  \<^verbatim>\<open>src/engine.cpp\<close>: the handlers of the engine, each as a function from the state to its answer and the new state, in the
  order of the source.  \<open>now\<close> is the clock in milliseconds during the call.  A container is written back to its slot
  where the code changes it through its pointer.
\<close>

section \<open>Pure KV\<close>

definition eng_put :: "('doc, 'ix, 'db) env \<Rightarrow> int \<Rightarrow> str \<Rightarrow> str \<Rightarrow> ('ix, 'db) engine \<Rightarrow> bool \<times> ('ix, 'db) engine" where
  "eng_put E now key value e =
     (let e = slot_insert E (bytes_slot E) key value e;
          e = register E key kBytes e;
          e = e\<lparr>eviction_2q := eq_record_access (protected_max E) key True (eviction_2q e), put_count := put_count e + 1\<rparr>;
          e = db_put E key value e
      in (True, check_memory_and_evict E now e))"

definition eng_get :: "('doc, 'ix, 'db) env \<Rightarrow> int \<Rightarrow> str \<Rightarrow> ('ix, 'db) engine \<Rightarrow> str option \<times> ('ix, 'db) engine" where
  "eng_get E now key e =
     (let (ok, e) = valid E now key (e\<lparr>get_count := get_count e + 1\<rparr>) in
      if \<not> ok then (None, e\<lparr>misses := misses e + 1\<rparr>)
      else (case slot_get E (bytes_slot E) key e of
              Some val \<Rightarrow> (let e = record_access E now key e in (Some val, e\<lparr>hits := hits e + 1\<rparr>))
            | None \<Rightarrow>
                (case db_get E key e of
                   Some v \<Rightarrow> (let e = record_access E now key (slot_insert E (bytes_slot E) key v e) in (Some v, e\<lparr>hits := hits e + 1\<rparr>))
                 | None \<Rightarrow> (None, e\<lparr>misses := misses e + 1\<rparr>))))"

definition eng_del :: "('doc, 'ix, 'db) env \<Rightarrow> str \<Rightarrow> ('ix, 'db) engine \<Rightarrow> bool \<times> ('ix, 'db) engine" where
  "eng_del E key e =
     (let (removed, e) = remove_everywhere E key e
      in (removed, db_delete E key (unregister E key (forget_access key e))))"

definition eng_exists :: "('doc, 'ix, 'db) env \<Rightarrow> int \<Rightarrow> str \<Rightarrow> ('ix, 'db) engine \<Rightarrow> bool \<times> ('ix, 'db) engine" where
  "eng_exists E now key e = valid E now key e"

definition eng_type :: "('doc, 'ix, 'db) env \<Rightarrow> int \<Rightarrow> str \<Rightarrow> ('ix, 'db) engine \<Rightarrow> key_type \<times> ('ix, 'db) engine" where
  "eng_type E now key e =
     (let (t, m) = get_key_type (env_hash E) now key (meta e)
      in (case t of None \<Rightarrow> kNone | Some t \<Rightarrow> t, e\<lparr>meta := m\<rparr>))"

section \<open>TTL\<close>

definition eng_expire :: "('doc, 'ix, 'db) env \<Rightarrow> int \<Rightarrow> str \<Rightarrow> int \<Rightarrow> ('ix, 'db) engine \<Rightarrow> bool \<times> ('ix, 'db) engine" where
  "eng_expire E now key ms e =
     (let (ok, e) = valid E now key e in
      if \<not> ok then (False, e)
      else (True, e\<lparr>meta := snd (mm_set_expire_ms (env_hash E) key ms (meta e))\<rparr>))"

definition eng_ttl :: "('doc, 'ix, 'db) env \<Rightarrow> int \<Rightarrow> str \<Rightarrow> ('ix, 'db) engine \<Rightarrow> int option \<times> ('ix, 'db) engine" where
  "eng_ttl E now key e =
     (let (ok, e) = valid E now key e in
      if \<not> ok then (None, e) else (Some (get_ttl_ms (env_hash E) now key (meta e)), e))"

section \<open>ZSet\<close>

definition eng_zadd :: "('doc, 'ix, 'db) env \<Rightarrow> int \<Rightarrow> str \<Rightarrow> str \<Rightarrow> double \<Rightarrow> ('ix, 'db) engine \<Rightarrow> bool \<times> ('ix, 'db) engine" where
  "eng_zadd E now key member score e =
     (let (zs, e) = find_or_insert E (zset_slot E) key zs_new e;
          zs = snd (zs_add (env_hash E) member score zs);
          e = persist_zset E key zs (slot_insert E (zset_slot E) key zs e)
      in (True, check_memory_and_evict E now e))"

definition eng_zscore :: "('doc, 'ix, 'db) env \<Rightarrow> int \<Rightarrow> str \<Rightarrow> str \<Rightarrow> ('ix, 'db) engine \<Rightarrow> double option \<times> ('ix, 'db) engine" where
  "eng_zscore E now key member e =
     (let (ok, e) = valid E now key e in
      if \<not> ok then (None, e)
      else (case get_or_create_zset E key e of
              (None, e) \<Rightarrow> (None, e)
            | (Some zs, e) \<Rightarrow> (zs_get_score member zs, e)))"

definition eng_zrem :: "('doc, 'ix, 'db) env \<Rightarrow> str \<Rightarrow> str \<Rightarrow> ('ix, 'db) engine \<Rightarrow> bool \<times> ('ix, 'db) engine" where
  "eng_zrem E key member e =
     (case slot_get E (zset_slot E) key e of
        None \<Rightarrow> (False, e)
      | Some zs \<Rightarrow>
          (let (ok, zs) = zs_remove (env_hash E) member zs
           in (ok, persist_zset E key zs (slot_insert E (zset_slot E) key zs e))))"

definition eng_zcard :: "('doc, 'ix, 'db) env \<Rightarrow> str \<Rightarrow> ('ix, 'db) engine \<Rightarrow> int \<times> ('ix, 'db) engine" where
  "eng_zcard E key e =
     (case get_or_create_zset E key e of
        (None, e) \<Rightarrow> (0, e)
      | (Some zs, e) \<Rightarrow> (sint (zs_size zs), e))"

definition eng_zrange ::
    "('doc, 'ix, 'db) env \<Rightarrow> str \<Rightarrow> int \<Rightarrow> int \<Rightarrow> bool \<Rightarrow> ('ix, 'db) engine \<Rightarrow> (str \<times> double) list \<times> ('ix, 'db) engine" where
  "eng_zrange E key start stop reverse e =
     (case get_or_create_zset E key e of
        (None, e) \<Rightarrow> ([], e)
      | (Some zs, e) \<Rightarrow> (zs_get_range_by_rank (of_int start) (of_int stop) reverse True zs, e))"

definition eng_zrangebyscore ::
    "('doc, 'ix, 'db) env \<Rightarrow> str \<Rightarrow> double \<Rightarrow> double \<Rightarrow> ('ix, 'db) engine \<Rightarrow> (str \<times> double) list option \<times> ('ix, 'db) engine" where
  "eng_zrangebyscore E key lo hi e =
     (case get_or_create_zset E key e of
        (None, e) \<Rightarrow> (Some [], e)
      | (Some zs, e) \<Rightarrow> (zs_get_range_by_score lo hi True zs, e))"

section \<open>List\<close>

definition eng_lpush :: "('doc, 'ix, 'db) env \<Rightarrow> int \<Rightarrow> str \<Rightarrow> str \<Rightarrow> ('ix, 'db) engine \<Rightarrow> bool \<times> ('ix, 'db) engine" where
  "eng_lpush E now key value e =
     (let (lst, e) = find_or_insert E (list_slot E) key ll_new e;
          lst = push_left value lst;
          e = persist_list E key lst (slot_insert E (list_slot E) key lst e)
      in (True, check_memory_and_evict E now e))"

definition eng_rpush :: "('doc, 'ix, 'db) env \<Rightarrow> int \<Rightarrow> str \<Rightarrow> str \<Rightarrow> ('ix, 'db) engine \<Rightarrow> bool \<times> ('ix, 'db) engine" where
  "eng_rpush E now key value e =
     (let (lst, e) = find_or_insert E (list_slot E) key ll_new e;
          lst = push_right value lst;
          e = persist_list E key lst (slot_insert E (list_slot E) key lst e)
      in (True, check_memory_and_evict E now e))"

definition eng_lpop :: "('doc, 'ix, 'db) env \<Rightarrow> str \<Rightarrow> ('ix, 'db) engine \<Rightarrow> str option \<times> ('ix, 'db) engine" where
  "eng_lpop E key e =
     (case get_or_create_list E key e of
        (None, e) \<Rightarrow> (None, e)
      | (Some lst, e) \<Rightarrow>
          (case pop_left lst of
             (None, lst) \<Rightarrow> (None, e)
           | (Some v, lst) \<Rightarrow> (Some v, persist_list E key lst (slot_insert E (list_slot E) key lst e))))"

definition eng_rpop :: "('doc, 'ix, 'db) env \<Rightarrow> str \<Rightarrow> ('ix, 'db) engine \<Rightarrow> str option \<times> ('ix, 'db) engine" where
  "eng_rpop E key e =
     (case get_or_create_list E key e of
        (None, e) \<Rightarrow> (None, e)
      | (Some lst, e) \<Rightarrow>
          (case pop_right lst of
             (None, lst) \<Rightarrow> (None, e)
           | (Some v, lst) \<Rightarrow> (Some v, persist_list E key lst (slot_insert E (list_slot E) key lst e))))"

definition eng_llen :: "('doc, 'ix, 'db) env \<Rightarrow> str \<Rightarrow> ('ix, 'db) engine \<Rightarrow> int \<times> ('ix, 'db) engine" where
  "eng_llen E key e =
     (case get_or_create_list E key e of
        (None, e) \<Rightarrow> (0, e)
      | (Some lst, e) \<Rightarrow> (int (ll_size lst), e))"

section \<open>Hash\<close>

definition eng_hset :: "('doc, 'ix, 'db) env \<Rightarrow> int \<Rightarrow> str \<Rightarrow> str \<Rightarrow> str \<Rightarrow> ('ix, 'db) engine \<Rightarrow> bool \<times> ('ix, 'db) engine" where
  "eng_hset E now key field value e =
     (let (h, e) = find_or_insert E (hash_slot E) key (dm_new 16) e;
          h = snd (dm_insert (env_hash E) field value h);
          e = persist_hash E key h (slot_insert E (hash_slot E) key h e)
      in (True, check_memory_and_evict E now e))"

definition eng_hget :: "('doc, 'ix, 'db) env \<Rightarrow> int \<Rightarrow> str \<Rightarrow> str \<Rightarrow> ('ix, 'db) engine \<Rightarrow> str option \<times> ('ix, 'db) engine" where
  "eng_hget E now key field e =
     (let (ok, e) = valid E now key e in
      if \<not> ok then (None, e)
      else (case get_or_create_hash E key e of
              (None, e) \<Rightarrow> (None, e)
            | (Some h, e) \<Rightarrow> (dm_get (env_hash E) field h, e)))"

definition eng_hdel :: "('doc, 'ix, 'db) env \<Rightarrow> str \<Rightarrow> str \<Rightarrow> ('ix, 'db) engine \<Rightarrow> bool \<times> ('ix, 'db) engine" where
  "eng_hdel E key field e =
     (case get_or_create_hash E key e of
        (None, e) \<Rightarrow> (False, e)
      | (Some h, e) \<Rightarrow>
          (let (ok, h) = dm_remove (env_hash E) field h
           in (ok, persist_hash E key h (slot_insert E (hash_slot E) key h e))))"

definition eng_hexists :: "('doc, 'ix, 'db) env \<Rightarrow> int \<Rightarrow> str \<Rightarrow> str \<Rightarrow> ('ix, 'db) engine \<Rightarrow> bool \<times> ('ix, 'db) engine" where
  "eng_hexists E now key field e =
     (let (ok, e) = valid E now key e in
      if \<not> ok then (False, e)
      else (case get_or_create_hash E key e of
              (None, e) \<Rightarrow> (False, e)
            | (Some h, e) \<Rightarrow> (dm_contains (env_hash E) field h, e)))"

definition eng_hgetall :: "('doc, 'ix, 'db) env \<Rightarrow> int \<Rightarrow> str \<Rightarrow> ('ix, 'db) engine \<Rightarrow> (str \<times> str) list \<times> ('ix, 'db) engine" where
  "eng_hgetall E now key e =
     (let (ok, e) = valid E now key e in
      if \<not> ok then ([], e)
      else (case get_or_create_hash E key e of
              (None, e) \<Rightarrow> ([], e)
            | (Some h, e) \<Rightarrow> (dm_all_entries (env_order E) h, e)))"

definition eng_hlen :: "('doc, 'ix, 'db) env \<Rightarrow> str \<Rightarrow> ('ix, 'db) engine \<Rightarrow> int \<times> ('ix, 'db) engine" where
  "eng_hlen E key e =
     (case get_or_create_hash E key e of
        (None, e) \<Rightarrow> (0, e)
      | (Some h, e) \<Rightarrow> (int (dm_size h), e))"

text \<open>The sum is a signed 64-bit one; where it overflows, which C++ leaves undefined, it wraps here.\<close>

definition eng_hincrby :: "('doc, 'ix, 'db) env \<Rightarrow> str \<Rightarrow> str \<Rightarrow> int \<Rightarrow> ('ix, 'db) engine \<Rightarrow> int \<times> ('ix, 'db) engine" where
  "eng_hincrby E key field delta e =
     (let (h, e) =
        (case slot_get E (hash_slot E) key e of
           Some h \<Rightarrow> (h, e)
         | None \<Rightarrow>
             (let (ok, h) = load_hash E key (dm_new 16) e in (h, register E key kHash (slot_insert E (hash_slot E) key h e))));
          current = (case dm_get (env_hash E) field h of None \<Rightarrow> 0 | Some existing_val \<Rightarrow> strtoll existing_val);
          new_val = signed_take_bit 63 (current + delta);
          h = snd (dm_insert (env_hash E) field (to_string_int new_val) h)
      in (new_val, persist_hash E key h (slot_insert E (hash_slot E) key h e)))"

definition for_each_hash ::
    "('doc, 'ix, 'db) env \<Rightarrow> str \<Rightarrow> (str \<Rightarrow> str \<Rightarrow> 's \<Rightarrow> 's) \<Rightarrow> 's \<Rightarrow> ('ix, 'db) engine \<Rightarrow> 's \<times> ('ix, 'db) engine" where
  "for_each_hash E key callback acc e =
     (case get_or_create_hash E key e of
        (None, e) \<Rightarrow> (acc, e)
      | (Some h, e) \<Rightarrow> (dm_for_each (env_order E) callback h acc, e))"

section \<open>Set\<close>

definition eng_sadd :: "('doc, 'ix, 'db) env \<Rightarrow> int \<Rightarrow> str \<Rightarrow> str \<Rightarrow> ('ix, 'db) engine \<Rightarrow> bool \<times> ('ix, 'db) engine" where
  "eng_sadd E now key member e =
     (let (s, e) = find_or_insert E (set_slot E) key (dm_new 16) e;
          s = snd (dm_insert (env_hash E) member 0 s);
          e = persist_set E key s (slot_insert E (set_slot E) key s e)
      in (True, check_memory_and_evict E now e))"

definition eng_srem :: "('doc, 'ix, 'db) env \<Rightarrow> str \<Rightarrow> str \<Rightarrow> ('ix, 'db) engine \<Rightarrow> bool \<times> ('ix, 'db) engine" where
  "eng_srem E key member e =
     (case get_or_create_set E key e of
        (None, e) \<Rightarrow> (False, e)
      | (Some s, e) \<Rightarrow>
          (let (ok, s) = dm_remove (env_hash E) member s
           in (ok, persist_set E key s (slot_insert E (set_slot E) key s e))))"

definition eng_sismember :: "('doc, 'ix, 'db) env \<Rightarrow> int \<Rightarrow> str \<Rightarrow> str \<Rightarrow> ('ix, 'db) engine \<Rightarrow> bool \<times> ('ix, 'db) engine" where
  "eng_sismember E now key member e =
     (let (ok, e) = valid E now key e in
      if \<not> ok then (False, e)
      else (case get_or_create_set E key e of
              (None, e) \<Rightarrow> (False, e)
            | (Some s, e) \<Rightarrow> (dm_contains (env_hash E) member s, e)))"

definition eng_smembers :: "('doc, 'ix, 'db) env \<Rightarrow> int \<Rightarrow> str \<Rightarrow> ('ix, 'db) engine \<Rightarrow> str list \<times> ('ix, 'db) engine" where
  "eng_smembers E now key e =
     (let (ok, e) = valid E now key e in
      if \<not> ok then ([], e)
      else (case get_or_create_set E key e of
              (None, e) \<Rightarrow> ([], e)
            | (Some s, e) \<Rightarrow> (dm_all_keys (env_order E) s, e)))"

definition eng_scard :: "('doc, 'ix, 'db) env \<Rightarrow> str \<Rightarrow> ('ix, 'db) engine \<Rightarrow> int \<times> ('ix, 'db) engine" where
  "eng_scard E key e =
     (case get_or_create_set E key e of
        (None, e) \<Rightarrow> (0, e)
      | (Some s, e) \<Rightarrow> (int (dm_size s), e))"

definition for_each_set ::
    "('doc, 'ix, 'db) env \<Rightarrow> str \<Rightarrow> (str \<Rightarrow> 's \<Rightarrow> 's) \<Rightarrow> 's \<Rightarrow> ('ix, 'db) engine \<Rightarrow> 's \<times> ('ix, 'db) engine" where
  "for_each_set E key callback acc e =
     (case get_or_create_set E key e of
        (None, e) \<Rightarrow> (acc, e)
      | (Some s, e) \<Rightarrow> (dm_for_each (env_order E) (\<lambda>member _. callback member) s acc, e))"

section \<open>Stream\<close>

definition eng_xadd ::
    "('doc, 'ix, 'db) env \<Rightarrow> int \<Rightarrow> str \<Rightarrow> str \<Rightarrow> (str \<times> str) list \<Rightarrow> ('ix, 'db) engine \<Rightarrow> str \<times> ('ix, 'db) engine" where
  "eng_xadd E now key ident flds e =
     (let (s, e) = find_or_insert E (stream_slot E now) key stream_new e;
          (result, s) = xadd (of_int now) ident flds s;
          e = slot_insert E (stream_slot E now) key s e;
          e = (if result \<noteq> [] then persist_stream E now key s e else e)
      in (result, check_memory_and_evict E now e))"

definition eng_xread ::
    "('doc, 'ix, 'db) env \<Rightarrow> int \<Rightarrow> str \<Rightarrow> str \<Rightarrow> int \<Rightarrow> ('ix, 'db) engine \<Rightarrow> stream_entry list \<times> ('ix, 'db) engine" where
  "eng_xread E now key start_id cnt e =
     (let (ok, e) = valid E now key e in
      if \<not> ok then ([], e)
      else (case get_or_create_stream E now key e of
              (None, e) \<Rightarrow> ([], e)
            | (Some s, e) \<Rightarrow> (xread start_id cnt s, e)))"

definition eng_xrange ::
    "('doc, 'ix, 'db) env \<Rightarrow> int \<Rightarrow> str \<Rightarrow> str \<Rightarrow> str \<Rightarrow> int \<Rightarrow> ('ix, 'db) engine \<Rightarrow> stream_entry list \<times> ('ix, 'db) engine" where
  "eng_xrange E now key start stop cnt e =
     (let (ok, e) = valid E now key e in
      if \<not> ok then ([], e)
      else (case get_or_create_stream E now key e of
              (None, e) \<Rightarrow> ([], e)
            | (Some s, e) \<Rightarrow> (xrange start stop cnt s, e)))"

definition eng_xlen :: "('doc, 'ix, 'db) env \<Rightarrow> int \<Rightarrow> str \<Rightarrow> ('ix, 'db) engine \<Rightarrow> int \<times> ('ix, 'db) engine" where
  "eng_xlen E now key e =
     (case get_or_create_stream E now key e of
        (None, e) \<Rightarrow> (0, e)
      | (Some s, e) \<Rightarrow> (int (xlen s), e))"

definition eng_xdel :: "('doc, 'ix, 'db) env \<Rightarrow> int \<Rightarrow> str \<Rightarrow> str \<Rightarrow> ('ix, 'db) engine \<Rightarrow> bool \<times> ('ix, 'db) engine" where
  "eng_xdel E now key ident e =
     (case get_or_create_stream E now key e of
        (None, e) \<Rightarrow> (False, e)
      | (Some s, e) \<Rightarrow>
          (let (ok, s) = xdel ident s; e = slot_insert E (stream_slot E now) key s e
           in (ok, if ok then persist_stream E now key s e else e)))"

definition eng_xtrim :: "('doc, 'ix, 'db) env \<Rightarrow> int \<Rightarrow> str \<Rightarrow> int \<Rightarrow> ('ix, 'db) engine \<Rightarrow> int \<times> ('ix, 'db) engine" where
  "eng_xtrim E now key maxlen e =
     (case get_or_create_stream E now key e of
        (None, e) \<Rightarrow> (0, e)
      | (Some s, e) \<Rightarrow>
          (let (removed, s) = xtrim maxlen s; e = slot_insert E (stream_slot E now) key s e
           in (int removed, if removed > 0 then persist_stream E now key s e else e)))"

section \<open>JSON\<close>

definition root_path :: "str \<Rightarrow> bool" where
  "root_path path \<longleftrightarrow> path = [] \<or> path = ascii ''.'' \<or> path = ascii ''$''"

definition eng_jsonset :: "('doc, 'ix, 'db) env \<Rightarrow> str \<Rightarrow> str \<Rightarrow> str \<Rightarrow> ('ix, 'db) engine \<Rightarrow> bool \<times> ('ix, 'db) engine" where
  "eng_jsonset E key path json_value e =
     (if json_parse E json_value = None then (False, e)
      else (let (j, e) = find_or_insert E (json_slot E) key [] e
            in (True, persist_json E key json_value (slot_insert E (json_slot E) key json_value e))))"

definition eng_jsonget :: "('doc, 'ix, 'db) env \<Rightarrow> int \<Rightarrow> str \<Rightarrow> str \<Rightarrow> ('ix, 'db) engine \<Rightarrow> str option \<times> ('ix, 'db) engine" where
  "eng_jsonget E now key path e =
     (let (ok, e) = valid E now key e in
      if \<not> ok then (None, e)
      else (case get_or_create_json E key e of
              (None, e) \<Rightarrow> (None, e)
            | (Some j, e) \<Rightarrow>
                (case json_parse E j of
                   None \<Rightarrow> (None, e)
                 | Some doc \<Rightarrow>
                     if root_path path then (Some (json_text E doc), e)
                     else (case json_at E path doc of None \<Rightarrow> (None, e) | Some d \<Rightarrow> (Some (json_text E d), e)))))"

definition eng_jsondel :: "('doc, 'ix, 'db) env \<Rightarrow> str \<Rightarrow> str \<Rightarrow> ('ix, 'db) engine \<Rightarrow> bool \<times> ('ix, 'db) engine" where
  "eng_jsondel E key path e =
     (if \<not> root_path path then (False, e)
      else (True, db_delete E key (unregister E key (snd (slot_remove E (json_slot E) key e)))))"

section \<open>Vector\<close>

definition eng_vecadd ::
    "('doc, 'ix, 'db) env \<Rightarrow> int \<Rightarrow> str \<Rightarrow> str \<Rightarrow> float32 list \<Rightarrow> ('ix, 'db) engine \<Rightarrow> bool \<times> ('ix, 'db) engine" where
  "eng_vecadd E now key ident v e =
     (let (d, e) = find_or_insert E (vector_slot E) key (vd_new (hnswlib E) (length v) kL2 16 200) e;
          (added, d) = vd_add (hnswlib E) ident v d;
          e = slot_insert E (vector_slot E) key d e;
          e = (if added then persist_vector E key d e else e)
      in (added, check_memory_and_evict E now e))"

definition eng_vecget :: "('doc, 'ix, 'db) env \<Rightarrow> int \<Rightarrow> str \<Rightarrow> str \<Rightarrow> ('ix, 'db) engine \<Rightarrow> float32 list \<times> ('ix, 'db) engine" where
  "eng_vecget E now key ident e =
     (let (ok, e) = valid E now key e in
      if \<not> ok then ([], e)
      else (case get_or_create_vector E key 0 e of
              (None, e) \<Rightarrow> ([], e)
            | (Some d, e) \<Rightarrow> (vd_get ident d, e)))"

definition eng_vecdel :: "('doc, 'ix, 'db) env \<Rightarrow> str \<Rightarrow> str \<Rightarrow> ('ix, 'db) engine \<Rightarrow> bool \<times> ('ix, 'db) engine" where
  "eng_vecdel E key ident e =
     (case get_or_create_vector E key 0 e of
        (None, e) \<Rightarrow> (False, e)
      | (Some d, e) \<Rightarrow>
          (let (ok, d) = vd_remove (hnswlib E) ident d; e = slot_insert E (vector_slot E) key d e
           in (ok, if ok then persist_vector E key d e else e)))"

definition eng_vecsearch ::
    "('doc, 'ix, 'db) env \<Rightarrow> int \<Rightarrow> str \<Rightarrow> float32 list \<Rightarrow> nat \<Rightarrow> ('ix, 'db) engine \<Rightarrow> (str \<times> float32) list \<times> ('ix, 'db) engine" where
  "eng_vecsearch E now key query k e =
     (let (ok, e) = valid E now key e in
      if \<not> ok then ([], e)
      else (case get_or_create_vector E key (length query) e of
              (None, e) \<Rightarrow> ([], e)
            | (Some d, e) \<Rightarrow> (vd_search (hnswlib E) query k d, e)))"

definition eng_vecsize :: "('doc, 'ix, 'db) env \<Rightarrow> str \<Rightarrow> ('ix, 'db) engine \<Rightarrow> int \<times> ('ix, 'db) engine" where
  "eng_vecsize E key e =
     (case get_or_create_vector E key 0 e of
        (None, e) \<Rightarrow> (0, e)
      | (Some d, e) \<Rightarrow> (int (vd_size d), e))"

section \<open>Iteration and statistics\<close>

definition eng_all_entries :: "('doc, 'ix, 'db) env \<Rightarrow> ('ix, 'db) engine \<Rightarrow> (str \<times> str) list" where
  "eng_all_entries E e = dm_all_entries (env_order E) (bytes e)"

definition eng_all_keys :: "('doc, 'ix, 'db) env \<Rightarrow> ('ix, 'db) engine \<Rightarrow> str list" where
  "eng_all_keys E e = get_all_keys (env_order E) (meta e)"

definition eng_count :: "('ix, 'db) engine \<Rightarrow> int" where
  "eng_count e = int (mm_size (meta e))"

record stats =
  st_put_count :: int
  st_get_count :: int
  st_hits :: int
  st_misses :: int
  st_evicted :: int
  st_expired :: int
  st_key_count :: int
  st_memory_bytes :: int

definition eng_stats :: "('doc, 'ix, 'db) env \<Rightarrow> ('ix, 'db) engine \<Rightarrow> stats" where
  "eng_stats E e =
     \<lparr>st_put_count = put_count e, st_get_count = get_count e, st_hits = hits e, st_misses = misses e,
      st_evicted = evicted e, st_expired = expired e, st_key_count = eng_count e, st_memory_bytes = memory_usage E e\<rparr>"

definition set_eviction :: "eviction_policy \<Rightarrow> ('ix, 'db) engine \<Rightarrow> ('ix, 'db) engine" where
  "set_eviction p e = e\<lparr>opts := (opts e)\<lparr>eviction := p\<rparr>\<rparr>"

definition get_eviction :: "('ix, 'db) engine \<Rightarrow> eviction_policy" where
  "get_eviction e = eviction (opts e)"

end
