(* ===== verification/Engine_Invariant.thy ===== *)
theory Engine_Invariant
  imports Engine
begin

text \<open>
  The well-formed states of the engine and the laws of its slots.  Every slot is an interpretation of the interface
  \<open>container\<close>, in which the loading and storing of values is treated once.
\<close>

section \<open>The invariant\<close>

definition values_ok :: "(str \<Rightarrow> u64) \<Rightarrow> ('c \<Rightarrow> bool) \<Rightarrow> (str, 'c) dashmap \<Rightarrow> bool" where
  "values_ok h P m \<longleftrightarrow> dm_ok h m \<and> (\<forall>k c. dm_get h k m = Some c \<longrightarrow> P c)"

definition engine_ok :: "('doc, 'ix, 'db) env \<Rightarrow> ('ix, 'db) engine \<Rightarrow> bool" where
  "engine_ok E e \<longleftrightarrow>
     dm_ok (env_hash E) (bytes e) \<and> dm_ok (env_hash E) (zsets e) \<and> values_ok (env_hash E) ll_ok (lists e) \<and>
     values_ok (env_hash E) (dm_ok (env_hash E)) (hashes e) \<and> values_ok (env_hash E) (dm_ok (env_hash E)) (sets e) \<and>
     dm_ok (env_hash E) (streams e) \<and> dm_ok (env_hash E) (jsons e) \<and> values_ok (env_hash E) vd_ok (vectors e) \<and>
     dm_ok (env_hash E) (meta e) \<and> eq_ok (eviction_2q e)"

lemma values_ok_insert: "values_ok h P m \<Longrightarrow> P c \<Longrightarrow> values_ok h P (snd (dm_insert h k c m))"
  and values_ok_remove: "values_ok h P m \<Longrightarrow> values_ok h P (snd (dm_remove h k m))"
  and values_ok_new: "0 < n \<Longrightarrow> values_ok h P (dm_new n)"
  by (auto simp: values_ok_def dm_new_spec dm_get_new split: if_splits)

lemma values_okD: "values_ok h P m \<Longrightarrow> dm_get h k m = Some c \<Longrightarrow> P c" "values_ok h P m \<Longrightarrow> dm_ok h m"
  by (auto simp: values_ok_def)

text \<open>Reading an item sequence keeps what adding an item keeps.\<close>

lemma read_items_keeps: "(\<And>x s. P s \<Longrightarrow> P (add x s)) \<Longrightarrow> P s \<Longrightarrow> P (snd (read_items get add n d s))"
  by (induction n arbitrary: d s) (auto split: option.splits)

lemma read_counted_keeps: "(\<And>x s. P s \<Longrightarrow> P (add x s)) \<Longrightarrow> P s \<Longrightarrow> P (snd (read_counted get add d s))"
  by (auto simp: read_counted_def read_items_keeps split: option.splits)

section \<open>The interface of a slot\<close>

locale container =
  fixes E :: "('doc, 'ix, 'db) env" and s :: "('c, ('ix, 'db) engine) slot" and ok :: "'c \<Rightarrow> bool"
  assumes get_set: "slot_map s (slot_set s m e) = m"
    and map_ok: "engine_ok E e \<Longrightarrow> values_ok (env_hash E) ok (slot_map s e)"
    and set_ok: "engine_ok E e \<Longrightarrow> values_ok (env_hash E) ok m \<Longrightarrow> engine_ok E (slot_set s m e)"
    and set_frame: "meta (slot_set s m e) = meta e" "rocksdb (slot_set s m e) = rocksdb e" "opts (slot_set s m e) = opts e"
      "eviction_2q (slot_set s m e) = eviction_2q e" "expired (slot_set s m e) = expired e"
    and map_frame: "slot_map s (e\<lparr>meta := mm\<rparr>) = slot_map s e" "slot_map s (e\<lparr>rocksdb := r\<rparr>) = slot_map s e"
      "slot_map s (e\<lparr>eviction_2q := q\<rparr>) = slot_map s e"
    and read_ok: "ok c \<Longrightarrow> ok (snd (slot_read s d c))"
begin

lemma get_ok: "engine_ok E e \<Longrightarrow> slot_get E s k e = Some c \<Longrightarrow> ok c"
  using map_ok values_okD(1) by (fastforce simp: slot_get_def)

lemma insert_ok [kv_inv]: "engine_ok E e \<Longrightarrow> ok c \<Longrightarrow> engine_ok E (slot_insert E s k c e)"
  by (simp add: slot_insert_def set_ok map_ok values_ok_insert)

lemma remove_ok [kv_inv]: "engine_ok E e \<Longrightarrow> engine_ok E (snd (slot_remove E s k e))"
  by (simp add: slot_remove_def split_beta set_ok map_ok values_ok_remove)

lemma get_insert: "engine_ok E e \<Longrightarrow> slot_get E s k' (slot_insert E s k c e) = (if k' = k then Some c else slot_get E s k' e)"
  using map_ok values_okD(2) by (fastforce simp: slot_get_def slot_insert_def get_set)

lemma get_remove: "engine_ok E e \<Longrightarrow> slot_get E s k' (snd (slot_remove E s k e)) = (if k' = k then None else slot_get E s k' e)"
  using map_ok values_okD(2) by (fastforce simp: slot_get_def slot_remove_def split_beta get_set)

lemma removed_found: "engine_ok E e \<Longrightarrow> fst (slot_remove E s k e) = (slot_get E s k e \<noteq> None)"
  using map_ok values_okD(2) by (fastforce simp: slot_get_def slot_remove_def split_beta)

lemma frame_insert [simp]:
  "meta (slot_insert E s k c e) = meta e" "rocksdb (slot_insert E s k c e) = rocksdb e" "opts (slot_insert E s k c e) = opts e"
  "eviction_2q (slot_insert E s k c e) = eviction_2q e"
  by (simp_all add: slot_insert_def set_frame)

lemma frame_remove [simp]:
  "meta (snd (slot_remove E s k e)) = meta e" "rocksdb (snd (slot_remove E s k e)) = rocksdb e"
  "opts (snd (slot_remove E s k e)) = opts e" "eviction_2q (snd (slot_remove E s k e)) = eviction_2q e"
  "expired (snd (slot_remove E s k e)) = expired e"
  by (simp_all add: slot_remove_def split_beta set_frame)

lemma get_registered [simp]: "slot_get E s k (register E k' t e) = slot_get E s k e"
  and get_unregister [simp]: "slot_get E s k (unregister E k' e) = slot_get E s k e"
  and get_db_put [simp]: "slot_get E s k (db_put E k' v e) = slot_get E s k e"
  and get_db_delete [simp]: "slot_get E s k (db_delete E k' e) = slot_get E s k e"
  and get_valid [simp]: "slot_get E s k (snd (valid E now k' e)) = slot_get E s k e"
  and get_forget [simp]: "slot_get E s k (forget_access k' e) = slot_get E s k e"
  by (simp_all add: slot_get_def register_def unregister_def db_put_def db_delete_def valid_def forget_access_def split_beta
      map_frame split: option.splits)

end

section \<open>The parts of the state that are no slot\<close>

lemma register_ok [kv_inv]: "engine_ok E e \<Longrightarrow> engine_ok E (register E k t e)"
  and unregister_ok [kv_inv]: "engine_ok E e \<Longrightarrow> engine_ok E (unregister E k e)"
  and valid_ok [kv_inv]: "engine_ok E e \<Longrightarrow> engine_ok E (snd (valid E now k e))"
  and forget_access_ok [kv_inv]: "engine_ok E e \<Longrightarrow> engine_ok E (forget_access k e)"
  and record_access_ok [kv_inv]: "engine_ok E e \<Longrightarrow> engine_ok E (record_access E now k e)"
  using eq_call_ok[of "eviction_2q e" _ "Forget k"] eq_call_ok[of "eviction_2q e" "protected_max E" "Access k False"]
  by (auto simp: engine_ok_def register_def unregister_def valid_def forget_access_def record_access_def split_beta Let_def)

lemma meta_ok: "engine_ok E e \<Longrightarrow> dm_ok (env_hash E) (meta e)"
  and set_meta_ok: "engine_ok E e \<Longrightarrow> dm_ok (env_hash E) m \<Longrightarrow> engine_ok E (e\<lparr>meta := m\<rparr>)"
  by (simp_all add: engine_ok_def)

lemma db_put_ok [kv_inv]: "engine_ok E e \<Longrightarrow> engine_ok E (db_put E k v e)"
  and db_delete_ok [kv_inv]: "engine_ok E e \<Longrightarrow> engine_ok E (db_delete E k e)"
  by (auto simp: engine_ok_def db_put_def db_delete_def split: option.splits)

lemma engine_ok_counters [simp]:
  "engine_ok E (e\<lparr>get_count := n\<rparr>) = engine_ok E e" "engine_ok E (e\<lparr>put_count := n\<rparr>) = engine_ok E e"
  "engine_ok E (e\<lparr>hits := n\<rparr>) = engine_ok E e" "engine_ok E (e\<lparr>misses := n\<rparr>) = engine_ok E e"
  "engine_ok E (e\<lparr>evicted := n\<rparr>) = engine_ok E e" "engine_ok E (e\<lparr>expired := n\<rparr>) = engine_ok E e"
  "engine_ok E (e\<lparr>opts := oo\<rparr>) = engine_ok E e"
  by (simp_all add: engine_ok_def)

section \<open>Loading, storing, evicting\<close>

context container
begin

lemma load_ok: "ok fresh \<Longrightarrow> ok (snd (load_value E s k fresh e))"
  by (simp add: load_value_def read_ok split: option.splits)

lemma persist_value_ok [kv_inv]: "engine_ok E e \<Longrightarrow> engine_ok E (persist_value E s k c e)"
  by (simp add: persist_value_def db_put_ok)

lemma get_persist [simp]: "slot_get E s k (persist_value E s k' c e) = slot_get E s k e"
  by (simp add: persist_value_def)

lemma find_or_insert_ok:
  assumes "engine_ok E e" "ok fresh"
  shows "engine_ok E (snd (find_or_insert E s k fresh e))" "ok (fst (find_or_insert E s k fresh e))"
  using assms get_ok[OF assms(1)] by (auto simp: find_or_insert_def insert_ok register_ok split: option.splits)

lemma get_or_create_ok:
  assumes "engine_ok E e" "ok fresh"
  shows "engine_ok E (snd (get_or_create E s k fresh e))" "fst (get_or_create E s k fresh e) = Some c \<Longrightarrow> ok c"
  using assms get_ok[OF assms(1)] load_ok[OF assms(2), of k e]
  by (auto simp: get_or_create_def insert_ok register_ok split_beta Let_def split: option.splits if_splits)

lemma evict_slot_ok [kv_inv]: "engine_ok E e \<Longrightarrow> engine_ok E (evict_slot E s k e)"
  by (simp add: evict_slot_def remove_ok persist_value_ok split: option.splits)

end

section \<open>The slots of the engine\<close>

lemmas slot_defs = bytes_slot_def zset_slot_def list_slot_def hash_slot_def set_slot_def stream_slot_def json_slot_def vector_slot_def

interpretation bytes_c: container E "bytes_slot E" "\<lambda>_. True" for E
  by unfold_locales (auto simp: slot_defs engine_ok_def values_ok_def)

interpretation zset_c: container E "zset_slot E" "\<lambda>_. True" for E
  by unfold_locales (auto simp: slot_defs engine_ok_def values_ok_def)

lemma deserialize_list_ok: "ll_ok l \<Longrightarrow> ll_ok (snd (deserialize_list data l))"
  unfolding deserialize_list_def by (rule read_counted_keeps[where P = ll_ok]) (simp_all add: ll.invar_push_r)

lemma deserialize_hash_ok: "dm_ok h m \<Longrightarrow> dm_ok h (snd (deserialize_hash h data m))"
  unfolding deserialize_hash_def by (rule read_counted_keeps[where P = "dm_ok h"]) (simp_all add: split_beta)

lemma deserialize_set_ok: "dm_ok h m \<Longrightarrow> dm_ok h (snd (deserialize_set h data m))"
  unfolding deserialize_set_def by (rule read_counted_keeps[where P = "dm_ok h"]) simp_all

lemma deserialize_vector_ok: "vd_ok d \<Longrightarrow> vd_ok (snd (deserialize_vector L data d))"
  unfolding deserialize_vector_def
  by (auto split: option.splits intro!: read_counted_keeps[where P = vd_ok] simp: vd_add_entries)

interpretation list_c: container E "list_slot E" ll_ok for E
  by unfold_locales (simp_all add: slot_defs engine_ok_def deserialize_list_ok)

interpretation hash_c: container E "hash_slot E" "dm_ok (env_hash E)" for E
  by unfold_locales (simp_all add: slot_defs engine_ok_def deserialize_hash_ok)

interpretation set_c: container E "set_slot E" "dm_ok (env_hash E)" for E
  by unfold_locales (simp_all add: slot_defs engine_ok_def deserialize_set_ok)

interpretation stream_c: container E "stream_slot E now" "\<lambda>_. True" for E now
  by unfold_locales (auto simp: slot_defs engine_ok_def values_ok_def)

interpretation json_c: container E "json_slot E" "\<lambda>_. True" for E
  by unfold_locales (auto simp: slot_defs engine_ok_def values_ok_def)

interpretation vector_c: container E "vector_slot E" vd_ok for E
  by unfold_locales (simp_all add: slot_defs engine_ok_def deserialize_vector_ok)


section \<open>Every handler keeps the invariant\<close>

lemma remove_everywhere_ok [kv_inv]: "engine_ok E e \<Longrightarrow> engine_ok E (snd (remove_everywhere E k e))"
  by (simp add: remove_everywhere_def split_beta Let_def bytes_c.remove_ok zset_c.remove_ok list_c.remove_ok hash_c.remove_ok
      set_c.remove_ok stream_c.remove_ok json_c.remove_ok vector_c.remove_ok)

lemma cleanup_key_ok: "engine_ok E (snd p) \<Longrightarrow> engine_ok E (snd (cleanup_key E now k p))"
  using valid_ok[of E "snd p" now k]
  by (auto simp: cleanup_key_def split_beta Let_def intro!: db_delete_ok forget_access_ok remove_everywhere_ok)

lemma cleanup_expired_ok [kv_inv]: "engine_ok E e \<Longrightarrow> engine_ok E (snd (cleanup_expired E now e))"
proof -
  assume "engine_ok E e"
  then have "engine_ok E (snd (fold (cleanup_key E now) ks (n, e)))" for ks n
  proof (induction ks arbitrary: n e)
    case (Cons k ks)
    then show ?case using cleanup_key_ok[of E "(n, e)" now k] by (cases "cleanup_key E now k (n, e)") simp
  qed simp
  then show ?thesis by (simp add: cleanup_expired_def split_beta Let_def)
qed

lemma evict_value_ok [kv_inv]: "engine_ok E e \<Longrightarrow> engine_ok E (evict_value E now kt k e)"
  by (cases kt) (simp_all add: bytes_c.evict_slot_ok zset_c.evict_slot_ok list_c.evict_slot_ok hash_c.evict_slot_ok
      set_c.evict_slot_ok stream_c.evict_slot_ok json_c.evict_slot_ok vector_c.evict_slot_ok)

lemma pick_victim_ok [kv_inv]: "engine_ok E e \<Longrightarrow> engine_ok E (snd (pick_victim E now i cs e))"
  using eq_call_ok[of "eviction_2q e" id Victim]
  by (auto simp: pick_victim_def engine_ok_def split_beta Let_def)

lemma key_type_ok [kv_inv]: "engine_ok E e \<Longrightarrow> engine_ok E (e\<lparr>meta := snd (get_key_type (env_hash E) now k (meta e))\<rparr>)"
  by (simp add: engine_ok_def)

lemma evict_loop_ok [kv_inv]: "engine_ok E e \<Longrightarrow> engine_ok E (snd (evict_loop E now limit cs is n e))"
proof (induction "is" arbitrary: n e)
  case (Cons i "is")
  have "engine_ok E (snd (pick_victim E now i cs e))" by (rule pick_victim_ok[OF Cons.prems])
  then show ?case
    using Cons key_type_ok[of E "snd (pick_victim E now i cs e)" now]
    by (auto simp: Let_def split_beta intro!: Cons.IH unregister_ok forget_access_ok evict_value_ok split: option.splits prod.splits)
qed simp

lemma check_memory_ok [kv_inv]: "engine_ok E e \<Longrightarrow> engine_ok E (check_memory_and_evict E now e)"
  using cleanup_expired_ok[of E e now] by (simp add: check_memory_and_evict_def Let_def split_beta evict_loop_ok)


lemma container_new_ok [simp]: "dm_ok h (dm_new 16)" "ll_ok ll_new" "vd_ok (vd_new L dim m M ef)"
  by (simp_all add: dm_new_spec ll.invar_fresh vd_new_entries)

text \<open>The facts a handler's proof is put together from.\<close>

lemmas container_ok =
  bytes_c.insert_ok zset_c.insert_ok list_c.insert_ok hash_c.insert_ok set_c.insert_ok stream_c.insert_ok json_c.insert_ok vector_c.insert_ok
  zset_c.persist_value_ok list_c.persist_value_ok hash_c.persist_value_ok set_c.persist_value_ok stream_c.persist_value_ok json_c.persist_value_ok vector_c.persist_value_ok
  check_memory_ok valid_ok register_ok unregister_ok db_put_ok db_delete_ok record_access_ok

lemma eng_put_ok: "engine_ok E e \<Longrightarrow> engine_ok E (snd (eng_put E now k v e))"
proof -
  assume "engine_ok E e"
  then have "engine_ok E (register E k kBytes (slot_insert E (bytes_slot E) k v e))" by (simp add: container_ok)
  then have "engine_ok E ((register E k kBytes (slot_insert E (bytes_slot E) k v e))
      \<lparr>eviction_2q := eq_record_access (protected_max E) k True (eviction_2q (register E k kBytes (slot_insert E (bytes_slot E) k v e))),
       put_count := n\<rparr>)" for n
    using eq_call_ok[of _ "protected_max E" "Access k True"] by (simp add: engine_ok_def)
  then show ?thesis by (simp add: eng_put_def Let_def container_ok)
qed

lemma eng_get_ok: "engine_ok E e \<Longrightarrow> engine_ok E (snd (eng_get E now k e))"
  using valid_ok[of E "e\<lparr>get_count := get_count e + 1\<rparr>" now k]
  by (auto simp: eng_get_def Let_def split_beta intro!: container_ok split: option.splits)

lemma eng_simple_ok:
  assumes "engine_ok E e"
  shows "engine_ok E (snd (eng_del E k e))" "engine_ok E (snd (eng_exists E now k e))" "engine_ok E (snd (eng_type E now k e))"
    "engine_ok E (snd (eng_expire E now k ms e))" "engine_ok E (snd (eng_ttl E now k e))" "engine_ok E (snd (eng_jsondel E k path e))"
  using assms valid_ok[OF assms, of now k] key_type_ok[OF assms, of now k]
  by (simp_all add: eng_del_def eng_exists_def eng_type_def eng_expire_def eng_ttl_def eng_jsondel_def Let_def split_beta
      container_ok forget_access_ok remove_everywhere_ok json_c.remove_ok set_meta_ok meta_ok)

lemma eng_zset_ok:
  assumes "engine_ok E e"
  shows "engine_ok E (snd (eng_zadd E now k m sc e))" "engine_ok E (snd (eng_zscore E now k m e))" "engine_ok E (snd (eng_zrem E k m e))"
    "engine_ok E (snd (eng_zcard E k e))" "engine_ok E (snd (eng_zrange E k a b rv e))" "engine_ok E (snd (eng_zrangebyscore E k lo hi e))"
  using assms
  by (auto simp: eng_zadd_def eng_zscore_def eng_zrem_def eng_zcard_def eng_zrange_def eng_zrangebyscore_def Let_def kv_defs split_beta
      container_ok zset_c.find_or_insert_ok zset_c.get_or_create_ok split: option.splits)

lemma pop_ok: "ll_ok l \<Longrightarrow> ll_ok (snd (pop_left l))" "ll_ok l \<Longrightarrow> ll_ok (snd (pop_right l))"
  using ll.pop_l_items[of l "fst (pop_left l)" "snd (pop_left l)"] ll.pop_r_items[of l "fst (pop_right l)" "snd (pop_right l)"] by auto

lemma eng_list_ok:
  assumes "engine_ok E e"
  shows "engine_ok E (snd (eng_lpush E now k v e))" "engine_ok E (snd (eng_rpush E now k v e))" "engine_ok E (snd (eng_lpop E k e))"
    "engine_ok E (snd (eng_rpop E k e))" "engine_ok E (snd (eng_llen E k e))"
  using assms
  by (auto simp: eng_lpush_def eng_rpush_def eng_lpop_def eng_rpop_def eng_llen_def Let_def kv_defs split_beta
      container_ok list_c.find_or_insert_ok list_c.get_or_create_ok pop_ok ll.invar_push_l ll.invar_push_r dest!: list_c.get_or_create_ok(2)[rotated 2] split: option.splits)

lemma eng_hash_ok:
  assumes "engine_ok E e"
  shows "engine_ok E (snd (eng_hset E now k f v e))" "engine_ok E (snd (eng_hget E now k f e))" "engine_ok E (snd (eng_hdel E k f e))"
    "engine_ok E (snd (eng_hexists E now k f e))" "engine_ok E (snd (eng_hgetall E now k e))" "engine_ok E (snd (eng_hlen E k e))"
  using assms
  by (auto simp: eng_hset_def eng_hget_def eng_hdel_def eng_hexists_def eng_hgetall_def eng_hlen_def Let_def kv_defs split_beta
      container_ok hash_c.find_or_insert_ok hash_c.get_or_create_ok dest!: hash_c.get_or_create_ok(2)[rotated 2] split: option.splits)

lemma eng_hincrby_ok: "engine_ok E e \<Longrightarrow> engine_ok E (snd (eng_hincrby E k f d e))"
  by (auto simp: eng_hincrby_def Let_def kv_defs split_beta container_ok hash_c.load_ok dest!: hash_c.get_ok[rotated] split: option.splits)

lemma eng_set_ok:
  assumes "engine_ok E e"
  shows "engine_ok E (snd (eng_sadd E now k m e))" "engine_ok E (snd (eng_srem E k m e))" "engine_ok E (snd (eng_sismember E now k m e))"
    "engine_ok E (snd (eng_smembers E now k e))" "engine_ok E (snd (eng_scard E k e))"
  using assms
  by (auto simp: eng_sadd_def eng_srem_def eng_sismember_def eng_smembers_def eng_scard_def Let_def kv_defs split_beta
      container_ok set_c.find_or_insert_ok set_c.get_or_create_ok dest!: set_c.get_or_create_ok(2)[rotated 2] split: option.splits)

lemma eng_stream_ok:
  assumes "engine_ok E e"
  shows "engine_ok E (snd (eng_xadd E now k i fs e))" "engine_ok E (snd (eng_xread E now k i c e))" "engine_ok E (snd (eng_xrange E now k i j c e))"
    "engine_ok E (snd (eng_xlen E now k e))" "engine_ok E (snd (eng_xdel E now k i e))" "engine_ok E (snd (eng_xtrim E now k c e))"
  using assms
  by (auto simp: eng_xadd_def eng_xread_def eng_xrange_def eng_xlen_def eng_xdel_def eng_xtrim_def Let_def kv_defs split_beta
      container_ok stream_c.find_or_insert_ok stream_c.get_or_create_ok split: option.splits)

lemma eng_json_ok:
  assumes "engine_ok E e"
  shows "engine_ok E (snd (eng_jsonset E k path j e))" "engine_ok E (snd (eng_jsonget E now k path e))"
  using assms
  by (auto simp: eng_jsonset_def eng_jsonget_def Let_def kv_defs split_beta
      container_ok json_c.find_or_insert_ok json_c.get_or_create_ok split: option.splits)

lemma eng_vector_ok:
  assumes "engine_ok E e"
  shows "engine_ok E (snd (eng_vecadd E now k i v e))" "engine_ok E (snd (eng_vecget E now k i e))" "engine_ok E (snd (eng_vecdel E k i e))"
    "engine_ok E (snd (eng_vecsearch E now k v n e))" "engine_ok E (snd (eng_vecsize E k e))"
  using assms
  by (auto simp: eng_vecadd_def eng_vecget_def eng_vecdel_def eng_vecsearch_def eng_vecsize_def Let_def kv_defs split_beta
      container_ok vector_c.find_or_insert_ok vector_c.get_or_create_ok vd_add_entries vd_remove_entries dest!: vector_c.get_or_create_ok(2)[rotated 2] split: option.splits)


section \<open>Histories\<close>

datatype (plugins only: code) call =
  Put str str | Get str | Del str | Exists str | Type str | Expire str int | Ttl str
  | Zadd str str double | Zscore str str | Zrem str str | Zcard str | Zrange str int int bool | Zrangebyscore str double double
  | Lpush str str | Rpush str str | Lpop str | Rpop str | Llen str
  | Hset str str str | Hget str str | Hdel str str | Hexists str str | Hgetall str | Hlen str | Hincrby str str int
  | Sadd str str | Srem str str | Sismember str str | Smembers str | Scard str
  | Xadd str str "(str \<times> str) list" | Xread str str int | Xrange str str str int | Xlen str | Xdel str str | Xtrim str int
  | Jsonset str str str | Jsonget str str | Jsondel str str
  | Vecadd str str "float32 list" | Vecget str str | Vecdel str str | Vecsearch str "float32 list" nat | Vecsize str
  | Cleanup | Set_eviction eviction_policy

fun eng_run :: "('doc, 'ix, 'db) env \<Rightarrow> int \<times> call \<Rightarrow> ('ix, 'db) engine \<Rightarrow> ('ix, 'db) engine" where
  "eng_run E (now, Put k v) e = snd (eng_put E now k v e)"
| "eng_run E (now, Get k) e = snd (eng_get E now k e)"
| "eng_run E (now, Del k) e = snd (eng_del E k e)"
| "eng_run E (now, Exists k) e = snd (eng_exists E now k e)"
| "eng_run E (now, Type k) e = snd (eng_type E now k e)"
| "eng_run E (now, Expire k ms) e = snd (eng_expire E now k ms e)"
| "eng_run E (now, Ttl k) e = snd (eng_ttl E now k e)"
| "eng_run E (now, Zadd k m s) e = snd (eng_zadd E now k m s e)"
| "eng_run E (now, Zscore k m) e = snd (eng_zscore E now k m e)"
| "eng_run E (now, Zrem k m) e = snd (eng_zrem E k m e)"
| "eng_run E (now, Zcard k) e = snd (eng_zcard E k e)"
| "eng_run E (now, Zrange k a b r) e = snd (eng_zrange E k a b r e)"
| "eng_run E (now, Zrangebyscore k a b) e = snd (eng_zrangebyscore E k a b e)"
| "eng_run E (now, Lpush k v) e = snd (eng_lpush E now k v e)"
| "eng_run E (now, Rpush k v) e = snd (eng_rpush E now k v e)"
| "eng_run E (now, Lpop k) e = snd (eng_lpop E k e)"
| "eng_run E (now, Rpop k) e = snd (eng_rpop E k e)"
| "eng_run E (now, Llen k) e = snd (eng_llen E k e)"
| "eng_run E (now, Hset k f v) e = snd (eng_hset E now k f v e)"
| "eng_run E (now, Hget k f) e = snd (eng_hget E now k f e)"
| "eng_run E (now, Hdel k f) e = snd (eng_hdel E k f e)"
| "eng_run E (now, Hexists k f) e = snd (eng_hexists E now k f e)"
| "eng_run E (now, Hgetall k) e = snd (eng_hgetall E now k e)"
| "eng_run E (now, Hlen k) e = snd (eng_hlen E k e)"
| "eng_run E (now, Hincrby k f d) e = snd (eng_hincrby E k f d e)"
| "eng_run E (now, Sadd k m) e = snd (eng_sadd E now k m e)"
| "eng_run E (now, Srem k m) e = snd (eng_srem E k m e)"
| "eng_run E (now, Sismember k m) e = snd (eng_sismember E now k m e)"
| "eng_run E (now, Smembers k) e = snd (eng_smembers E now k e)"
| "eng_run E (now, Scard k) e = snd (eng_scard E k e)"
| "eng_run E (now, Xadd k i fs) e = snd (eng_xadd E now k i fs e)"
| "eng_run E (now, Xread k i c) e = snd (eng_xread E now k i c e)"
| "eng_run E (now, Xrange k i j c) e = snd (eng_xrange E now k i j c e)"
| "eng_run E (now, Xlen k) e = snd (eng_xlen E now k e)"
| "eng_run E (now, Xdel k i) e = snd (eng_xdel E now k i e)"
| "eng_run E (now, Xtrim k c) e = snd (eng_xtrim E now k c e)"
| "eng_run E (now, Jsonset k p j) e = snd (eng_jsonset E k p j e)"
| "eng_run E (now, Jsonget k p) e = snd (eng_jsonget E now k p e)"
| "eng_run E (now, Jsondel k p) e = snd (eng_jsondel E k p e)"
| "eng_run E (now, Vecadd k i v) e = snd (eng_vecadd E now k i v e)"
| "eng_run E (now, Vecget k i) e = snd (eng_vecget E now k i e)"
| "eng_run E (now, Vecdel k i) e = snd (eng_vecdel E k i e)"
| "eng_run E (now, Vecsearch k v n) e = snd (eng_vecsearch E now k v n e)"
| "eng_run E (now, Vecsize k) e = snd (eng_vecsize E k e)"
| "eng_run E (now, Cleanup) e = snd (cleanup_expired E now e)"
| "eng_run E (now, Set_eviction p) e = set_eviction p e"

lemma eng_run_ok [kv_inv]: "engine_ok E e \<Longrightarrow> engine_ok E (eng_run E c e)"
proof -
  assume "engine_ok E e"
  then have "engine_ok E (eng_run E (now, op) e)" for now op
    by (cases op) (simp_all add: eng_put_ok eng_get_ok eng_simple_ok eng_zset_ok eng_list_ok eng_hash_ok eng_hincrby_ok eng_set_ok
        eng_stream_ok eng_json_ok eng_vector_ok cleanup_expired_ok set_eviction_def)
  then show ?thesis by (cases c) simp
qed

lemma engine_new_ok: "0 < opt_shards o' \<Longrightarrow> engine_ok E (engine_new E o')"
  by (simp add: engine_ok_def engine_new_def Let_def dm_new_spec values_ok_new eq_new_ok)

lemma eng_runs_ok: "engine_ok E e \<Longrightarrow> engine_ok E (fold (eng_run E) cs e)"
  by (induction cs arbitrary: e) (simp_all add: eng_run_ok)

end
