(* ===== verification/Engine_Properties.thy ===== *)
theory Engine_Properties
  imports Engine_Invariant
begin

text \<open>
  What the handlers do to the state as a client sees it: which keys are live, what the eight maps hold for a key, and
  what the database has under it.
\<close>

section \<open>What is held for a key\<close>

record 'ix holding =
  held_bytes :: "str option"
  held_zset :: "zset option"
  held_list :: "str linked_list option"
  held_hash :: "hash_value option"
  held_set :: "set_value option"
  held_stream :: "stream_data option"
  held_json :: "str option"
  held_vector :: "'ix vector_data option"

definition held :: "('doc, 'ix, 'db) env \<Rightarrow> ('ix, 'db) engine \<Rightarrow> str \<Rightarrow> 'ix holding" where
  "held E e k =
     \<lparr>held_bytes = dm_get (env_hash E) k (bytes e), held_zset = dm_get (env_hash E) k (zsets e),
      held_list = dm_get (env_hash E) k (engine.lists e), held_hash = dm_get (env_hash E) k (hashes e),
      held_set = dm_get (env_hash E) k (sets e), held_stream = dm_get (env_hash E) k (streams e),
      held_json = dm_get (env_hash E) k (jsons e), held_vector = dm_get (env_hash E) k (vectors e)\<rparr>"

definition nothing :: "'ix holding" where
  "nothing = \<lparr>held_bytes = None, held_zset = None, held_list = None, held_hash = None, held_set = None,
              held_stream = None, held_json = None, held_vector = None\<rparr>"

text \<open>The entry of a key in the metadata, and whether the key is live.\<close>

definition entry :: "('doc, 'ix, 'db) env \<Rightarrow> ('ix, 'db) engine \<Rightarrow> str \<Rightarrow> key_metadata option" where
  "entry E e k = dm_get (env_hash E) k (meta e)"

definition alive :: "('doc, 'ix, 'db) env \<Rightarrow> int \<Rightarrow> ('ix, 'db) engine \<Rightarrow> str \<Rightarrow> bool" where
  "alive E now e k = (case entry E e k of None \<Rightarrow> False | Some md \<Rightarrow> \<not> is_expired now md)"

text \<open>The database is absent, or open and well behaved.\<close>

definition db_ready :: "('doc, 'ix, 'db) env \<Rightarrow> ('db \<Rightarrow> str \<Rightarrow> str option) \<Rightarrow> ('ix, 'db) engine \<Rightarrow> bool" where
  "db_ready E contents e \<longleftrightarrow>
     (case rocksdb e of None \<Rightarrow> True | Some a \<Rightarrow> db_laws (rocks E) contents \<and> db_works (rocks E) \<and> ra_is_open a)"

section \<open>The elementary steps\<close>

lemma engine_okD:
  assumes "engine_ok E e"
  shows "dm_ok (env_hash E) (bytes e)" "dm_ok (env_hash E) (zsets e)" "dm_ok (env_hash E) (engine.lists e)"
    "dm_ok (env_hash E) (hashes e)" "dm_ok (env_hash E) (sets e)" "dm_ok (env_hash E) (streams e)" "dm_ok (env_hash E) (jsons e)"
    "dm_ok (env_hash E) (vectors e)" "dm_ok (env_hash E) (meta e)" "eq_ok (eviction_2q e)"
  using assms values_okD(2) by (auto simp: engine_ok_def)

lemma alive_live: "alive E now e k = live (env_hash E) now k (meta e)"
  by (auto simp: alive_def live_def entry_def split: option.splits)

lemma fst_valid [simp]: "fst (valid E now k e) = alive E now e k"
  by (simp add: valid_def split_beta is_valid_live alive_live)

lemma held_valid [simp]: "held E (snd (valid E now k' e)) k = held E e k"
  and db_get_valid [simp]: "db_get E k (snd (valid E now k' e)) = db_get E k e"
  and opts_valid [simp]: "opts (snd (valid E now k' e)) = opts e"
  and db_ready_valid [simp]: "db_ready E C (snd (valid E now k' e)) = db_ready E C e"
  by (simp_all add: held_def valid_def split_beta db_get_def db_ready_def)

lemma entry_valid:
  "engine_ok E e \<Longrightarrow> entry E (snd (valid E now k' e)) k = (if k = k' \<and> \<not> alive E now e k' then None else entry E e k)"
  by (simp add: entry_def valid_def split_beta get_is_valid engine_okD alive_live)

lemma valid_alive: "alive E now e k \<Longrightarrow> valid E now k e = (True, e)"
  by (simp add: valid_def split_beta is_valid_id alive_live)

lemma held_frame [simp]:
  "held E (register E k' t e) k = held E e k" "held E (unregister E k' e) k = held E e k"
  "held E (db_put E k' v e) k = held E e k" "held E (db_delete E k' e) k = held E e k"
  "held E (forget_access k' e) k = held E e k" "held E (record_access E now k' e) k = held E e k"
  by (simp_all add: held_def register_def unregister_def db_put_def db_delete_def forget_access_def record_access_def Let_def
      split: option.splits)

lemma entry_frame [simp]:
  "entry E (db_put E k' v e) k = entry E e k" "entry E (db_delete E k' e) k = entry E e k"
  "entry E (forget_access k' e) k = entry E e k"
  by (simp_all add: entry_def db_put_def db_delete_def forget_access_def split: option.splits)

lemma opts_frame [simp]:
  "opts (register E k' t e) = opts e" "opts (unregister E k' e) = opts e"
  "opts (db_put E k' v e) = opts e" "opts (db_delete E k' e) = opts e" "opts (forget_access k' e) = opts e"
  by (simp_all add: register_def unregister_def db_put_def db_delete_def forget_access_def split: option.splits)

lemma db_get_frame [simp]:
  "db_get E k (register E k' t e) = db_get E k e" "db_get E k (unregister E k' e) = db_get E k e"
  "db_get E k (forget_access k' e) = db_get E k e" "db_get E k (record_access E now k' e) = db_get E k e"
  by (simp_all add: db_get_def register_def unregister_def forget_access_def record_access_def Let_def)

lemma db_ready_frame [simp]:
  "db_ready E C (register E k' t e) = db_ready E C e" "db_ready E C (unregister E k' e) = db_ready E C e"
  "db_ready E C (forget_access k' e) = db_ready E C e" "db_ready E C (db_put E k' v e) = db_ready E C e"
  "db_ready E C (db_delete E k' e) = db_ready E C e"
  by (simp_all add: db_ready_def register_def unregister_def forget_access_def db_put_def db_delete_def split: option.splits)

lemma db_get_put:
  "db_ready E C e \<Longrightarrow> db_get E k (db_put E k' v e) = (if k = k' \<and> rocksdb e \<noteq> None then Some v else db_get E k e)"
  by (auto simp: db_get_def db_put_def db_ready_def ra_get_put split: option.splits)

lemma db_get_delete: "db_ready E C e \<Longrightarrow> db_get E k (db_delete E k' e) = (if k = k' then None else db_get E k e)"
  by (auto simp: db_get_def db_delete_def db_ready_def ra_get_put split: option.splits)

lemma entry_register:
  "engine_ok E e \<Longrightarrow> entry E (register E k' t e) k =
     (if k = k' then Some ((km_new t)\<lparr>version := get_key_version (env_hash E) k' (meta e) + 1\<rparr>) else entry E e k)"
  by (simp add: entry_def register_def get_register engine_okD)

lemma alive_register: "engine_ok E e \<Longrightarrow> alive E now (register E k' t e) k = (k = k' \<or> alive E now e k)"
  by (auto simp: alive_def entry_register is_expired_def km_new_def)

lemma entry_unregister: "engine_ok E e \<Longrightarrow> entry E (unregister E k' e) k = (if k = k' then None else entry E e k)"
  by (simp add: entry_def unregister_def get_unregister engine_okD)

lemma held_remove_everywhere:
  "engine_ok E e \<Longrightarrow> held E (snd (remove_everywhere E k' e)) k = (if k = k' then nothing else held E e k)"
  by (simp add: remove_everywhere_def slot_remove_def slot_defs split_beta Let_def held_def nothing_def engine_okD)

lemma removed_everywhere:
  "engine_ok E e \<Longrightarrow> fst (remove_everywhere E k' e) = (held E e k' \<noteq> nothing)"
  by (auto simp: remove_everywhere_def slot_remove_def slot_defs split_beta Let_def held_def nothing_def engine_okD)

lemma remove_everywhere_frame [simp]:
  "entry E (snd (remove_everywhere E k' e)) k = entry E e k" "opts (snd (remove_everywhere E k' e)) = opts e"
  "db_get E k (snd (remove_everywhere E k' e)) = db_get E k e" "db_ready E C (snd (remove_everywhere E k' e)) = db_ready E C e"
  "rocksdb (snd (remove_everywhere E k' e)) = rocksdb e" "expired (snd (remove_everywhere E k' e)) = expired e"
  by (simp_all add: remove_everywhere_def slot_remove_def slot_defs split_beta Let_def entry_def db_get_def db_ready_def)

section \<open>Expiry\<close>

definition due :: "('doc, 'ix, 'db) env \<Rightarrow> int \<Rightarrow> ('ix, 'db) engine \<Rightarrow> str \<Rightarrow> bool" where
  "due E now e k \<longleftrightarrow> (\<exists>md. entry E e k = Some md \<and> is_expired now md)"

text \<open>One round of the cleanup loop, at a key that is registered.\<close>

lemma cleanup_key_spec:
  assumes "engine_ok E e" "db_ready E C e" "entry E e k' \<noteq> None"
  shows "fst (cleanup_key E now k' (n, e)) = (if due E now e k' then n + 1 else n)"
    and "engine_ok E (snd (cleanup_key E now k' (n, e)))"
    and "db_ready E C (snd (cleanup_key E now k' (n, e)))"
    and "entry E (snd (cleanup_key E now k' (n, e))) k = (if k = k' \<and> due E now e k' then None else entry E e k)"
    and "held E (snd (cleanup_key E now k' (n, e))) k = (if k = k' \<and> due E now e k' then nothing else held E e k)"
    and "db_get E k (snd (cleanup_key E now k' (n, e))) = (if k = k' \<and> due E now e k' then None else db_get E k e)"
    and "opts (snd (cleanup_key E now k' (n, e))) = opts e"
proof -
  have due: "due E now e k' = (\<not> alive E now e k')" using assms(3) by (auto simp: due_def alive_def split: option.splits)
  have ok: "engine_ok E (snd (valid E now k' e))" by (rule valid_ok[OF assms(1)])
  show "engine_ok E (snd (cleanup_key E now k' (n, e)))" using cleanup_key_ok[of E "(n, e)"] assms(1) by simp
  show "fst (cleanup_key E now k' (n, e)) = (if due E now e k' then n + 1 else n)"
    "db_ready E C (snd (cleanup_key E now k' (n, e)))" "opts (snd (cleanup_key E now k' (n, e))) = opts e"
    using assms(2) due by (simp_all add: cleanup_key_def split_beta Let_def)
  show "entry E (snd (cleanup_key E now k' (n, e))) k = (if k = k' \<and> due E now e k' then None else entry E e k)"
    using due assms(1) by (auto simp: cleanup_key_def split_beta Let_def entry_valid valid_alive)
  show "held E (snd (cleanup_key E now k' (n, e))) k = (if k = k' \<and> due E now e k' then nothing else held E e k)"
    using due ok by (auto simp: cleanup_key_def split_beta Let_def held_remove_everywhere)
  show "db_get E k (snd (cleanup_key E now k' (n, e))) = (if k = k' \<and> due E now e k' then None else db_get E k e)"
    using due assms(2) by (auto simp: cleanup_key_def split_beta Let_def db_get_delete[where C = C])
qed


lemma cleanup_fold_spec:
  fixes E :: "('doc, 'ix, 'db) env" and n now :: int
  assumes "engine_ok E e" "db_ready E C e" "distinct ks" "\<forall>k \<in> set ks. entry E e k \<noteq> None"
  defines "r \<equiv> fold (cleanup_key E now) ks (n, e)"
  shows "fst r = n + int (length (filter (due E now e) ks)) \<and> engine_ok E (snd r) \<and> db_ready E C (snd r) \<and> opts (snd r) = opts e
    \<and> (\<forall>k. entry E (snd r) k = (if k \<in> set ks \<and> due E now e k then None else entry E e k)
         \<and> held E (snd r) k = (if k \<in> set ks \<and> due E now e k then nothing else held E e k)
         \<and> db_get E k (snd r) = (if k \<in> set ks \<and> due E now e k then None else db_get E k e))"
  using assms(1-4) unfolding r_def
proof (induction ks arbitrary: n e)
  case (Cons k ks)
  obtain n' e' where step: "cleanup_key E now k (n, e) = (n', e')" by (cases "cleanup_key E now k (n, e)")
  have reg: "entry E e k \<noteq> None" using Cons.prems by simp
  note spec = cleanup_key_spec[where now = now and n = n, OF Cons.prems(1,2) reg, unfolded step fst_conv snd_conv]
  have entry: "entry E e' l = entry E e l" if "l \<noteq> k" for l using spec(4)[of l] that by simp
  then have due: "due E now e' l = due E now e l" if "l \<noteq> k" for l using that by (simp add: due_def)
  have same: "filter (due E now e') ks = filter (due E now e) ks"
  proof (rule filter_cong[OF refl])
    fix l assume "l \<in> set ks"
    then show "due E now e' l = due E now e l" using Cons.prems(3) by (intro due) auto
  qed
  have IH: "fst (fold (cleanup_key E now) ks (n', e')) = n' + int (length (filter (due E now e) ks))
    \<and> engine_ok E (snd (fold (cleanup_key E now) ks (n', e'))) \<and> db_ready E C (snd (fold (cleanup_key E now) ks (n', e')))
    \<and> opts (snd (fold (cleanup_key E now) ks (n', e'))) = opts e'
    \<and> (\<forall>l. entry E (snd (fold (cleanup_key E now) ks (n', e'))) l = (if l \<in> set ks \<and> due E now e' l then None else entry E e' l)
         \<and> held E (snd (fold (cleanup_key E now) ks (n', e'))) l = (if l \<in> set ks \<and> due E now e' l then nothing else held E e' l)
         \<and> db_get E l (snd (fold (cleanup_key E now) ks (n', e'))) = (if l \<in> set ks \<and> due E now e' l then None else db_get E l e'))"
    using Cons.IH[OF spec(2,3), of n'] Cons.prems(3,4) entry unfolding same by fastforce
  have notin: "k \<notin> set ks" using Cons.prems(3) by simp
  show ?case
    unfolding fold_simps step
  proof (intro conjI allI)
    fix l
    let ?r = "fold (cleanup_key E now) ks (n', e')"
    show "entry E (snd ?r) l = (if l \<in> set (k # ks) \<and> due E now e l then None else entry E e l)"
      using IH spec(4)[of l] due notin by (cases "l = k") auto
    show "held E (snd ?r) l = (if l \<in> set (k # ks) \<and> due E now e l then nothing else held E e l)"
      using IH spec(5)[of l] due notin by (cases "l = k") auto
    show "db_get E l (snd ?r) = (if l \<in> set (k # ks) \<and> due E now e l then None else db_get E l e)"
      using IH spec(6)[of l] due notin by (cases "l = k") auto
  qed (use IH spec in auto)
qed simp

lemma expired_frame [simp]:
  "entry E (e\<lparr>expired := n\<rparr>) k = entry E e k" "held E (e\<lparr>expired := n\<rparr>) k = held E e k" "db_get E k (e\<lparr>expired := n\<rparr>) = db_get E k e"
  "db_ready E C (e\<lparr>expired := n\<rparr>) = db_ready E C e"
  by (simp_all add: entry_def held_def db_get_def db_ready_def)

lemma cleanup_spec:
  fixes E :: "('doc, 'ix, 'db) env" and now :: int
  assumes "engine_ok E e" "db_ready E C e" "visits_all (env_order E)"
  defines "r \<equiv> cleanup_expired E now e"
  shows "fst r = int (card {k. due E now e k})" "engine_ok E (snd r)" "db_ready E C (snd r)" "opts (snd r) = opts e"
    "entry E (snd r) k = (if due E now e k then None else entry E e k)"
    "held E (snd r) k = (if due E now e k then nothing else held E e k)"
    "db_get E k (snd r) = (if due E now e k then None else db_get E k e)"
proof -
  let ?ks = "get_all_keys (env_order E) (meta e)"
  have ks: "distinct ?ks" "set ?ks = {k. entry E e k \<noteq> None}"
    using distinct_all_keys[OF assms(3) engine_okD(9)[OF assms(1)]] set_all_keys[OF assms(3) engine_okD(9)[OF assms(1)]]
    by (simp_all add: get_all_keys_def entry_def)
  have due: "due E now e k \<Longrightarrow> k \<in> set ?ks" for k using ks by (auto simp: due_def)
  have "length (filter (due E now e) ?ks) = card (set (filter (due E now e) ?ks))"
    using ks(1) by (intro distinct_card[symmetric] distinct_filter)
  also have "set (filter (due E now e) ?ks) = {k. due E now e k}" using due by auto
  finally have len: "length (filter (due E now e) ?ks) = card {k. due E now e k}" .
  have "\<forall>k \<in> set ?ks. entry E e k \<noteq> None" using ks by simp
  note fold = cleanup_fold_spec[where now = now and n = 0, OF assms(1,2) ks(1) this]
  show "fst r = int (card {k. due E now e k})" "engine_ok E (snd r)" "db_ready E C (snd r)" "opts (snd r) = opts e"
    "entry E (snd r) k = (if due E now e k then None else entry E e k)"
    "held E (snd r) k = (if due E now e k then nothing else held E e k)"
    "db_get E k (snd r) = (if due E now e k then None else db_get E k e)"
    using fold due[of k] len unfolding r_def cleanup_expired_def split_beta Let_def by auto
qed

text \<open>Without a memory limit, or without eviction, the check after a write is the cleanup alone.\<close>

definition no_eviction :: "('ix, 'db) engine \<Rightarrow> bool" where
  "no_eviction e \<longleftrightarrow> max_mb (opts e) = 0 \<or> eviction (opts e) = kNoEviction"

lemma check_no_eviction:
  assumes "engine_ok E e" "db_ready E C e" "visits_all (env_order E)" "no_eviction e"
  shows "check_memory_and_evict E now e = snd (cleanup_expired E now e)"
  using assms(4) cleanup_spec(4)[where now = now, OF assms(1-3)] by (simp add: check_memory_and_evict_def Let_def no_eviction_def)

text \<open>
  C16. \<^verbatim>\<open>CleanupExpired\<close> removes exactly the registered keys that have expired: nothing of them is left in the metadata, in
  any of the eight maps or in the database, every other key keeps everything it had, and the answer is their number.
\<close>

theorem cleanup_exact:
  fixes E :: "('doc, 'ix, 'db) env" and now :: int
  assumes "engine_ok E e" "db_ready E C e" "visits_all (env_order E)"
  defines "e' \<equiv> snd (cleanup_expired E now e)"
  shows "fst (cleanup_expired E now e) = int (card {k. due E now e k})
    \<and> (\<forall>k. if due E now e k then entry E e' k = None \<and> held E e' k = nothing \<and> db_get E k e' = None
           else entry E e' k = entry E e k \<and> held E e' k = held E e k \<and> db_get E k e' = db_get E k e)
    \<and> (\<forall>k. \<not> due E now e' k)"
proof -
  note spec = cleanup_spec[where now = now, OF assms(1-3), folded e'_def]
  have "\<not> due E now e' k" for k
    using spec(5)[of k] by (auto simp: due_def split: if_splits)
  then show ?thesis using spec by simp
qed


section \<open>Bytes\<close>

lemma get_answer:
  "fst (eng_get E now k e) =
     (if alive E now e k then (case held_bytes (held E e k) of Some v \<Rightarrow> Some v | None \<Rightarrow> db_get E k e) else None)"
proof -
  have frame: "alive E now (e\<lparr>get_count := n\<rparr>) k = alive E now e k" "held E (e\<lparr>get_count := n\<rparr>) k = held E e k"
    "db_get E k (e\<lparr>get_count := n\<rparr>) = db_get E k e" for n
    by (simp_all add: alive_def entry_def held_def db_get_def)
  have bytes: "slot_get E (bytes_slot E) k e' = held_bytes (held E e' k)" for e'
    by (simp add: slot_get_def slot_defs held_def)
  show ?thesis by (simp add: eng_get_def split_beta Let_def bytes frame split: option.splits)
qed

lemma exists_answer: "fst (eng_exists E now k e) = alive E now e k"
  by (simp add: eng_exists_def)

lemma type_answer: "fst (eng_type E now k e) = (if alive E now e k then km_type (the (entry E e k)) else kNone)"
  by (auto simp: eng_type_def split_beta Let_def get_key_type_eq alive_live entry_def live_def)

lemma held_insert_bytes:
  "engine_ok E e \<Longrightarrow> held E (slot_insert E (bytes_slot E) k' v e) k = (if k = k' then (held E e k)\<lparr>held_bytes := Some v\<rparr> else held E e k)"
  by (simp add: held_def slot_insert_def slot_defs engine_okD)

lemma insert_bytes_frame [simp]:
  "entry E (slot_insert E (bytes_slot E) k' v e) k = entry E e k" "db_get E k (slot_insert E (bytes_slot E) k' v e) = db_get E k e"
  "db_ready E C (slot_insert E (bytes_slot E) k' v e) = db_ready E C e" "rocksdb (slot_insert E (bytes_slot E) k' v e) = rocksdb e"
  by (simp_all add: entry_def db_get_def db_ready_def slot_insert_def slot_defs)

lemma put_spec:
  assumes "engine_ok E e" "db_ready E C e" "visits_all (env_order E)" "no_eviction e"
  shows "engine_ok E (snd (eng_put E now key v e))" and "db_ready E C (snd (eng_put E now key v e))"
    and "entry E (snd (eng_put E now key v e)) k =
      (if k = key then Some ((km_new kBytes)\<lparr>version := get_key_version (env_hash E) key (meta e) + 1\<rparr>)
       else if due E now e k then None else entry E e k)"
    and "held E (snd (eng_put E now key v e)) k =
      (if k = key then (held E e k)\<lparr>held_bytes := Some v\<rparr> else if due E now e k then nothing else held E e k)"
    and "db_get E k (snd (eng_put E now key v e)) =
      (if k = key \<and> rocksdb e \<noteq> None then Some v else if k \<noteq> key \<and> due E now e k then None else db_get E k e)"
proof -
  let ?e1 = "register E key kBytes (slot_insert E (bytes_slot E) key v e)"
  let ?e2 = "?e1\<lparr>eviction_2q := eq_record_access (protected_max E) key True (eviction_2q ?e1), put_count := put_count ?e1 + 1\<rparr>"
  define p where "p = db_put E key v ?e2"
  have e1: "engine_ok E ?e1" using assms(1) by (simp add: container_ok)
  then have ok: "engine_ok E p"
    using eq_call_ok[of "eviction_2q ?e1" "protected_max E" "Access key True"] unfolding p_def by (intro db_put_ok) (simp add: engine_ok_def)
  have entry: "entry E p l = (if l = key then Some ((km_new kBytes)\<lparr>version := get_key_version (env_hash E) key (meta e) + 1\<rparr>) else entry E e l)" for l
  proof -
    have "entry E p l = entry E ?e1 l" unfolding p_def entry_frame by (simp add: entry_def)
    then show ?thesis
      using entry_register[OF bytes_c.insert_ok[where k = key and c = v, OF assms(1) TrueI], where k' = key and t = kBytes and k = l]
      by simp
  qed
  have held: "held E p l = (if l = key then (held E e l)\<lparr>held_bytes := Some v\<rparr> else held E e l)" for l
  proof -
    have "held E p l = held E ?e1 l" unfolding p_def held_frame(3) by (simp add: held_def)
    then show ?thesis unfolding held_frame by (simp add: held_insert_bytes[OF assms(1)])
  qed
  have ready: "db_ready E C ?e2" "rocksdb ?e2 = rocksdb e" using assms(2) by (simp_all add: db_ready_def register_def)
  have db: "db_get E l p = (if l = key \<and> rocksdb e \<noteq> None then Some v else db_get E l e)" for l
    using db_get_put[OF ready(1), of l key v] ready(2) by (simp add: db_get_def p_def)
  have due: "due E now p l = (l \<noteq> key \<and> due E now e l)" for l
    by (auto simp: due_def entry is_expired_def km_new_def)
  have "no_eviction p" using assms(4) by (simp add: no_eviction_def p_def)
  then have put: "snd (eng_put E now key v e) = snd (cleanup_expired E now p)"
    using check_no_eviction[OF ok _ assms(3)] ready(1) db_ready_frame(4)[of E C key v ?e2] by (simp add: eng_put_def Let_def flip: p_def)
  have "db_ready E C p" using ready(1) by (simp add: p_def)
  note spec = cleanup_spec[where now = now, OF ok this assms(3)]
  show "engine_ok E (snd (eng_put E now key v e))" "db_ready E C (snd (eng_put E now key v e))" unfolding put by (rule spec)+
  show "entry E (snd (eng_put E now key v e)) k =
      (if k = key then Some ((km_new kBytes)\<lparr>version := get_key_version (env_hash E) key (meta e) + 1\<rparr>)
       else if due E now e k then None else entry E e k)"
    unfolding put spec(5) by (simp add: due entry)
  show "held E (snd (eng_put E now key v e)) k =
      (if k = key then (held E e k)\<lparr>held_bytes := Some v\<rparr> else if due E now e k then nothing else held E e k)"
    unfolding put spec(6) by (simp add: due held)
  show "db_get E k (snd (eng_put E now key v e)) =
      (if k = key \<and> rocksdb e \<noteq> None then Some v else if k \<noteq> key \<and> due E now e k then None else db_get E k e)"
    unfolding put spec(7) by (auto simp: due db)
qed

text \<open>
  C4. In an engine that does not evict, as no memory limit is set or the policy is \<^verbatim>\<open>kNoEviction\<close>: after \<^verbatim>\<open>put\<close>, \<^verbatim>\<open>get\<close>
  returns the value at any time, the key is of the byte type and, where there is a database, the value is in it; every other
  key that has not expired keeps its values in memory and answers \<^verbatim>\<open>get\<close> as before.  With a limit the check at the end of
  the call may evict the key itself or others, see \<open>eviction_moves\<close>.
\<close>

theorem put_get:
  assumes "engine_ok E e" "db_ready E C e" "visits_all (env_order E)" "no_eviction e"
  shows "fst (eng_get E now' key (snd (eng_put E now key v e))) = Some v
    \<and> fst (eng_type E now' key (snd (eng_put E now key v e))) = kBytes
    \<and> (rocksdb e \<noteq> None \<longrightarrow> db_get E key (snd (eng_put E now key v e)) = Some v)
    \<and> (\<forall>k. k \<noteq> key \<and> \<not> due E now e k \<longrightarrow>
         fst (eng_get E now' k (snd (eng_put E now key v e))) = fst (eng_get E now' k e)
         \<and> held E (snd (eng_put E now key v e)) k = held E e k)"
proof -
  note spec = put_spec[OF assms]
  have "alive E now' (snd (eng_put E now key v e)) key"
    by (simp add: alive_def spec(3) is_expired_def km_new_def)
  then show ?thesis by (simp add: get_answer type_answer spec alive_def km_new_def split: option.split)
qed

text \<open>
  C15. \<^verbatim>\<open>del\<close> leaves nothing of the key: no entry, nothing in any map, nothing in the database, so \<^verbatim>\<open>get\<close> finds nothing and
  the key does not exist; it answers whether a map held the key, and every other key keeps all it had.
\<close>

theorem del_removes_all:
  assumes "engine_ok E e" "db_ready E C e"
  shows "fst (eng_del E key e) = (held E e key \<noteq> nothing)
    \<and> held E (snd (eng_del E key e)) key = nothing \<and> db_get E key (snd (eng_del E key e)) = None
    \<and> \<not> fst (eng_exists E now key (snd (eng_del E key e))) \<and> fst (eng_get E now key (snd (eng_del E key e))) = None
    \<and> (\<forall>k. k \<noteq> key \<longrightarrow> held E (snd (eng_del E key e)) k = held E e k \<and> entry E (snd (eng_del E key e)) k = entry E e k
         \<and> db_get E k (snd (eng_del E key e)) = db_get E k e)"
proof -
  have ok: "engine_ok E (forget_access key (snd (remove_everywhere E key e)))"
    by (intro forget_access_ok remove_everywhere_ok assms(1))
  have entry: "entry E (snd (eng_del E key e)) k = (if k = key then None else entry E e k)" for k
    using ok by (simp add: eng_del_def split_beta Let_def entry_unregister)
  then have "\<not> alive E now (snd (eng_del E key e)) key" by (simp add: alive_def)
  then show ?thesis
    using entry assms
    by (simp add: exists_answer get_answer)
      (simp add: eng_del_def split_beta Let_def removed_everywhere held_remove_everywhere db_get_delete[where C = C])
qed


text \<open>An engine to evaluate on: an in-memory database and an index that accepts everything.\<close>

definition sample_env :: "(str, unit, (str \<times> str) list) env" where
  "sample_env =
     \<lparr>env_hash = (\<lambda>s. of_nat (le_value s)), env_order = (\<lambda>ks. ks), protected_max = (\<lambda>n. n div 2), hnswlib = plain_index,
      rocks = memory_db, json_parse = Some, json_text = (\<lambda>j. j), json_at = (\<lambda>_ _. None), sizeof_string = 32,
      string_capacity = length, list_capacity = (\<lambda>l. length (vec l)), rand_value = (\<lambda>i. i)\<rparr>"

definition sample_options :: options where
  "sample_options = \<lparr>opt_path = [47], opt_shards = 2, max_mb = 0, eviction = k2Q\<rparr>"

definition sample_engine :: "(unit, (str \<times> str) list) engine" where
  "sample_engine = engine_new sample_env sample_options"

lemma sample_engine:
  "engine_ok sample_env sample_engine" "db_ready sample_env map_of sample_engine" "visits_all (env_order sample_env)"
  "no_eviction sample_engine" "held sample_env sample_engine k = nothing" "entry sample_env sample_engine k = None"
proof -
  show "engine_ok sample_env sample_engine"
    unfolding sample_engine_def by (rule engine_new_ok) (simp add: sample_options_def)
  show "db_ready sample_env map_of sample_engine"
    using memory_db_laws
    by (simp add: db_ready_def sample_engine_def engine_new_def sample_options_def sample_env_def ra_is_open_def ra_new_def memory_db_def)
  show "visits_all (env_order sample_env)" by (simp add: visits_all_def sample_env_def)
  show "no_eviction sample_engine"
    by (simp add: no_eviction_def sample_engine_def engine_new_def sample_options_def Let_def)
  show "held sample_env sample_engine k = nothing"
    by (simp add: held_def nothing_def sample_engine_def engine_new_def sample_options_def Let_def dm_get_new)
  show "entry sample_env sample_engine k = None"
    by (simp add: entry_def sample_engine_def engine_new_def Let_def)
qed

theorem put_get_witness:
  "fst (eng_get sample_env 50 [1] (snd (eng_put sample_env 7 [1] [9] sample_engine))) = Some [9]
   \<and> fst (eng_get sample_env 50 [2] (snd (eng_put sample_env 7 [1] [9] sample_engine))) = None"
  using put_get[OF sample_engine(1-4), of 50 "[1]" 7 "[9]"]
  by (simp add: get_answer[of _ _ "[2]" sample_engine] due_def alive_def sample_engine(6))

theorem del_removes_all_witness:
  "fst (eng_get sample_env 50 [1] (snd (eng_del sample_env [1] (snd (eng_put sample_env 7 [1] [9] sample_engine))))) = None"
  using del_removes_all[where key = "[1]" and now = 50, OF put_spec(1,2)[where now = 7 and key = "[1]" and v = "[9]", OF sample_engine(1-4)]] by simp

text \<open>
  C35. \<^verbatim>\<open>expire\<close> takes its argument for a point in time, not for a duration: a key given \<open>ms\<close> exists exactly until the clock
  passes \<open>ms\<close>, so a lifetime of some seconds ends at once; with no positive argument it lives for ever.
\<close>

theorem expire_is_absolute:
  assumes "engine_ok E e" "alive E now e key"
  shows "fst (eng_expire E now key ms e)
    \<and> fst (eng_exists E now' key (snd (eng_expire E now key ms e))) = (ms \<le> 0 \<or> now' \<le> ms)
    \<and> fst (eng_ttl E now' key (snd (eng_expire E now key ms e)))
       = (if ms \<le> 0 \<or> now' = ms then Some (-1) else if now' < ms then Some (ms - now') else None)"
proof -
  obtain md where md: "entry E e key = Some md" using assms(2) by (auto simp: alive_def split: option.splits)
  let ?e = "snd (eng_expire E now key ms e)"
  have e': "eng_expire E now key ms e = (True, e\<lparr>meta := snd (mm_set_expire_ms (env_hash E) key ms (meta e))\<rparr>)"
    using assms(2) by (simp add: eng_expire_def valid_alive)
  have entry: "entry E ?e key = Some (km_set_expire_ms ms md)"
    using md engine_okD(9)[OF assms(1)] by (simp add: e' entry_def get_set_expire)
  then have alive: "alive E now' ?e key = (ms \<le> 0 \<or> now' \<le> ms)"
    by (auto simp: alive_def is_expired_def km_set_expire_ms_def)
  have "get_ttl_ms (env_hash E) now' key (meta ?e) = (if ms \<le> 0 \<or> now' = ms then -1 else if now' < ms then ms - now' else -2)"
    using entry by (auto simp: get_ttl_ms_def entry_def is_expired_def km_set_expire_ms_def km_get_ttl_ms_def)
  then have "fst (eng_ttl E now' key ?e) = (if ms \<le> 0 \<or> now' = ms then Some (-1) else if now' < ms then Some (ms - now') else None)"
    using alive by (cases "alive E now' ?e key") (auto simp: eng_ttl_def valid_alive split_beta Let_def)
  then show ?thesis using alive by (simp add: exists_answer) (simp add: e')
qed


text \<open>A key that has expired but is still there.\<close>

definition expired_engine :: "(unit, (str \<times> str) list) engine" where
  "expired_engine = snd (eng_expire sample_env 7 [1] 5 (snd (eng_put sample_env 7 [1] [9] sample_engine)))"

lemma expired_engine:
  "engine_ok sample_env expired_engine" "db_ready sample_env map_of expired_engine" "due sample_env 8 expired_engine [1]"
  "held_bytes (held sample_env expired_engine [1]) = Some [9]"
proof -
  let ?p = "snd (eng_put sample_env 7 [1] [9] sample_engine)"
  note spec = put_spec[where now = 7 and key = "[1]" and v = "[9]", OF sample_engine(1-4)]
  have alive: "alive sample_env 7 ?p [1]" by (simp add: alive_def spec(3) is_expired_def km_new_def)
  have e: "expired_engine = ?p\<lparr>meta := snd (mm_set_expire_ms (env_hash sample_env) [1] 5 (meta ?p))\<rparr>"
    using alive by (simp add: expired_engine_def eng_expire_def valid_alive)
  show "engine_ok sample_env expired_engine" unfolding expired_engine_def by (intro eng_simple_ok spec(1))
  show "db_ready sample_env map_of expired_engine" using spec(2) by (simp add: e db_ready_def)
  have "dm_get (env_hash sample_env) [1] (meta ?p) = Some ((km_new kBytes)\<lparr>version := get_key_version (env_hash sample_env) [1] (meta sample_engine) + 1\<rparr>)"
    using spec(3)[of "[1]"] by (simp add: entry_def)
  then show "due sample_env 8 expired_engine [1]"
    using engine_okD(9)[OF spec(1)] by (simp add: due_def e entry_def get_set_expire is_expired_def km_set_expire_ms_def)
  show "held_bytes (held sample_env expired_engine [1]) = Some [9]"
    using spec(4)[of "[1]"] by (simp add: e held_def)
qed

theorem cleanup_exact_witness:
  "held sample_env (snd (cleanup_expired sample_env 8 expired_engine)) [1] = nothing"
  using cleanup_exact[OF expired_engine(1,2) sample_engine(3), of 8] expired_engine(3) by auto

theorem expire_is_absolute_witness:
  "\<not> fst (eng_exists sample_env 1700000000001 [1]
       (snd (eng_expire sample_env 1700000000000 [1] 60000 (snd (eng_put sample_env 1700000000000 [1] [9] sample_engine)))))"
proof -
  note spec = put_spec[where now = 1700000000000 and key = "[1]" and v = "[9]", OF sample_engine(1-4)]
  have "alive sample_env 1700000000000 (snd (eng_put sample_env 1700000000000 [1] [9] sample_engine)) [1]"
    by (simp add: alive_def spec(3) is_expired_def km_new_def)
  from expire_is_absolute[OF spec(1) this, of 60000 1700000000001] show ?thesis by simp
qed

section \<open>Keys that expire while they are looked at\<close>

text \<open>Cleanups at any times keep a key that has no entry, whatever else they remove.\<close>

lemma cleanups_keep:
  assumes "visits_all (env_order E)"
  shows "engine_ok E e \<Longrightarrow> db_ready E C e \<Longrightarrow> entry E e key = None \<Longrightarrow>
    entry E (fold (\<lambda>t e. snd (cleanup_expired E t e)) clocks e) key = None
    \<and> held E (fold (\<lambda>t e. snd (cleanup_expired E t e)) clocks e) key = held E e key
    \<and> db_get E key (fold (\<lambda>t e. snd (cleanup_expired E t e)) clocks e) = db_get E key e"
proof (induction clocks arbitrary: e)
  case (Cons t clocks)
  note spec = cleanup_spec[where now = t, OF Cons.prems(1,2) assms]
  show ?case
    using Cons.IH[OF spec(2,3)] spec(5-7)[of key] Cons.prems(3) by (simp add: due_def)
qed simp

text \<open>
  C32. When \<^verbatim>\<open>exists\<close> meets an expired key, it takes it out of the metadata and leaves its data.  From then on the
  cleanup, which goes through the metadata, never sees it: after any number of cleanups at any times the maps and the
  database hold for the key what they held before, although the key does not exist.  The same cleanup, had it come first,
  would have removed it from both.
\<close>

theorem lazy_expiry_leaks:
  fixes clocks :: "int list"
  assumes "engine_ok E e" "db_ready E C e" "visits_all (env_order E)" "due E now e key"
  defines "after \<equiv> fold (\<lambda>t e. snd (cleanup_expired E t e)) clocks (snd (eng_exists E now key e))"
  shows "held E after key = held E e key \<and> db_get E key after = db_get E key e \<and> \<not> fst (eng_exists E now' key after)
    \<and> held E (snd (cleanup_expired E now e)) key = nothing \<and> db_get E key (snd (cleanup_expired E now e)) = None"
proof -
  let ?e = "snd (eng_exists E now key e)"
  have "\<not> alive E now e key" using assms(4) by (auto simp: due_def alive_def)
  then have gone: "entry E ?e key = None" using assms(1) by (simp add: eng_exists_def entry_valid)
  have ok: "engine_ok E ?e" "db_ready E C ?e" "held E ?e key = held E e key" "db_get E key ?e = db_get E key e"
    using assms(1,2) by (simp_all add: eng_exists_def valid_ok)
  note kept = cleanups_keep[OF assms(3) ok(1,2) gone, of clocks, folded after_def]
  then have "\<not> fst (eng_exists E now' key after)" by (simp add: exists_answer alive_def)
  then show ?thesis using kept ok(3,4) cleanup_spec(6,7)[where now = now, OF assms(1-3)] assms(4) by simp
qed

theorem lazy_expiry_leaks_witness:
  "held_bytes (held sample_env (snd (cleanup_expired sample_env 200 (snd (cleanup_expired sample_env 99 (snd (eng_exists sample_env 8 [1] expired_engine)))))) [1])
    = Some [9]"
  using lazy_expiry_leaks[OF expired_engine(1,2) sample_engine(3) expired_engine(3), where clocks = "[99, 200]"] expired_engine(4) by simp


section \<open>Writing handlers\<close>

text \<open>The common shape: find or make the container, change it, store it in the map and the database.\<close>

definition write_back ::
    "('doc, 'ix, 'db) env \<Rightarrow> ('c, ('ix, 'db) engine) slot \<Rightarrow> str \<Rightarrow> 'c \<Rightarrow> 'c \<Rightarrow> ('ix, 'db) engine \<Rightarrow> ('ix, 'db) engine" where
  "write_back E s key fresh c e = persist_value E s key c (slot_insert E s key c (snd (find_or_insert E s key fresh e)))"

context container
begin

lemma entry_insert [simp]: "entry E (slot_insert E s k' c e) k = entry E e k"
  and db_get_insert [simp]: "db_get E k (slot_insert E s k' c e) = db_get E k e"
  and db_ready_insert [simp]: "db_ready E C (slot_insert E s k' c e) = db_ready E C e"
  by (simp_all add: entry_def db_get_def db_ready_def slot_insert_def set_frame)

lemma find_frame [simp]:
  "rocksdb (snd (find_or_insert E s key fresh e)) = rocksdb e" "opts (snd (find_or_insert E s key fresh e)) = opts e"
  "db_ready E C (snd (find_or_insert E s key fresh e)) = db_ready E C e" "db_get E k (snd (find_or_insert E s key fresh e)) = db_get E k e"
  by (auto simp: find_or_insert_def register_def slot_insert_def set_frame db_ready_def db_get_def split: option.splits)

lemma find_value: "fst (find_or_insert E s key fresh e) = (case slot_get E s key e of None \<Rightarrow> fresh | Some c \<Rightarrow> c)"
  by (simp add: find_or_insert_def split: option.splits)

lemma write_back_spec:
  fixes key :: str
  assumes "engine_ok E e" "ok fresh" "ok c" "db_ready E C e"
  defines "e' \<equiv> write_back E s key fresh c e"
  shows "engine_ok E e'" "db_ready E C e'" "opts e' = opts e" "rocksdb e' \<noteq> None \<longleftrightarrow> rocksdb e \<noteq> None"
    "slot_get E s k e' = (if k = key then Some c else slot_get E s k e)"
    "entry E e' k = (if k = key \<and> slot_get E s key e = None
       then Some ((km_new (slot_type s))\<lparr>version := get_key_version (env_hash E) key (meta e) + 1\<rparr>) else entry E e k)"
    "db_get E k e' = (if k = key \<and> rocksdb e \<noteq> None then Some (slot_write s c) else db_get E k e)"
proof -
  have found: "engine_ok E (snd (find_or_insert E s key fresh e))" using find_or_insert_ok(1)[OF assms(1,2)] .
  then have inserted: "engine_ok E (slot_insert E s key c (snd (find_or_insert E s key fresh e)))" using assms(3) by (rule insert_ok)
  then show "engine_ok E e'" unfolding e'_def write_back_def by (rule persist_value_ok)
  show "db_ready E C e'" "opts e' = opts e"
    using assms(4) by (simp_all add: e'_def write_back_def persist_value_def)
  show "rocksdb e' \<noteq> None \<longleftrightarrow> rocksdb e \<noteq> None"
    by (auto simp: e'_def write_back_def persist_value_def db_put_def split: option.splits)
  have "slot_get E s k (snd (find_or_insert E s key fresh e)) = slot_get E s k e" if "k \<noteq> key"
    using that assms(1) by (simp add: find_or_insert_def get_insert split: option.splits)
  then show "slot_get E s k e' = (if k = key then Some c else slot_get E s k e)"
    using found by (simp add: e'_def write_back_def get_insert)
  have "entry E (snd (find_or_insert E s key fresh e)) k = (if k = key \<and> slot_get E s key e = None
       then Some ((km_new (slot_type s))\<lparr>version := get_key_version (env_hash E) key (meta e) + 1\<rparr>) else entry E e k)"
    using insert_ok[OF assms(1,2)] by (auto simp: find_or_insert_def entry_register split: option.splits)
  then show "entry E e' k = (if k = key \<and> slot_get E s key e = None
       then Some ((km_new (slot_type s))\<lparr>version := get_key_version (env_hash E) key (meta e) + 1\<rparr>) else entry E e k)"
    by (simp add: e'_def write_back_def persist_value_def)
  show "db_get E k e' = (if k = key \<and> rocksdb e \<noteq> None then Some (slot_write s c) else db_get E k e)"
    using assms(4) by (auto simp: e'_def write_back_def persist_value_def db_get_put[where C = C])
qed

lemma get_or_create_found: "slot_get E s key e = Some c \<Longrightarrow> get_or_create E s key fresh e = (Some c, e)"
  by (simp add: get_or_create_def)

end

lemma slot_get_held:
  "slot_get E (hash_slot E) k e = held_hash (held E e k)" "slot_get E (list_slot E) k e = held_list (held E e k)"
  by (simp_all add: slot_get_def slot_defs held_def)

lemma check_alive:
  fixes E :: "('doc, 'ix, 'db) env" and now :: int
  assumes "engine_ok E e" "db_ready E C e" "visits_all (env_order E)" "no_eviction e"
  defines "e' \<equiv> check_memory_and_evict E now e"
  shows "held E e' k = (if due E now e k then nothing else held E e k)" "entry E e' k = (if due E now e k then None else entry E e k)"
    "db_get E k e' = (if due E now e k then None else db_get E k e)" "engine_ok E e'" "db_ready E C e'"
  using cleanup_spec[where now = now, OF assms(1-3)] unfolding e'_def check_no_eviction[OF assms(1-4)] by simp_all

section \<open>Hashes\<close>

lemma hset_write: "snd (eng_hset E now key f v e) =
    check_memory_and_evict E now (write_back E (hash_slot E) key (dm_new 16)
      (snd (dm_insert (env_hash E) f v (case held_hash (held E e key) of None \<Rightarrow> dm_new 16 | Some h \<Rightarrow> h))) e)"
  using hash_c.find_value[of E key "dm_new 16" e]
  by (simp add: eng_hset_def split_beta Let_def write_back_def persist_hash_def slot_get_held)

lemma hget_answer:
  "fst (eng_hget E now key f e) =
     (if alive E now e key then
        (case fst (get_or_create_hash E key (snd (valid E now key e))) of None \<Rightarrow> None | Some h \<Rightarrow> dm_get (env_hash E) f h)
      else None)"
  by (auto simp: eng_hget_def split_beta Let_def split: option.splits)

text \<open>
  C14. In an engine that does not evict, as no memory limit is set or the policy is \<^verbatim>\<open>kNoEviction\<close>: a value that \<^verbatim>\<open>hset\<close>
  has written is what \<^verbatim>\<open>hget\<close> returns, other fields keep theirs, when the key was not held in memory or was live.  Otherwise the write is lost although the answer is true: where the key had expired, the cleanup within the call
  removes it; and where its entry had been dropped before, the data is still found in the map, so the key is not registered again
  and stays invisible at all times.
\<close>

theorem hset_hget:
  assumes "engine_ok E e" "db_ready E C e" "visits_all (env_order E)" "no_eviction e"
  shows "fst (eng_hset E now key f v e)
    \<and> fst (eng_hget E now' key f' (snd (eng_hset E now key f v e))) =
       (case held_hash (held E e key) of
          None \<Rightarrow> if f' = f then Some v else None
        | Some h \<Rightarrow>
            if alive E now e key \<and> alive E now' e key then (if f' = f then Some v else dm_get (env_hash E) f' h)
            else None)"
proof -
  let ?h = "case held_hash (held E e key) of None \<Rightarrow> dm_new 16 | Some h \<Rightarrow> h"
  let ?h' = "snd (dm_insert (env_hash E) f v ?h)"
  define w where "w = write_back E (hash_slot E) key (dm_new 16) ?h' e"
  define r where "r = snd (eng_hset E now key f v e)"
  have h: "dm_ok (env_hash E) ?h"
    using hash_c.get_ok[OF assms(1), of key] by (auto simp: slot_get_held split: option.splits)
  then have h': "dm_ok (env_hash E) ?h'" by simp
  note spec = hash_c.write_back_spec[OF assms(1) container_new_ok(1) h' assms(2), of key, folded w_def]
  have "no_eviction w" using assms(4) spec(3) by (simp add: no_eviction_def)
  note chk = check_alive[where now = now, OF spec(1,2) assms(3) this]
  have r: "r = check_memory_and_evict E now w" by (simp add: r_def hset_write w_def)
  have absent: "held_hash (held E e key) = None \<Longrightarrow> \<not> due E now w key \<and> alive E now' w key"
    using spec(6)[of key] by (simp add: slot_get_held due_def alive_def is_expired_def km_new_def)
  have present: "held_hash (held E e key) \<noteq> None \<Longrightarrow> due E now w key = due E now e key \<and> alive E now' w key = alive E now' e key"
    using spec(6)[of key] by (auto simp: slot_get_held due_def alive_def)
  have alive: "alive E now' r key = (alive E now' w key \<and> \<not> due E now w key)"
    using chk(2)[of key] by (simp add: r alive_def)
  have stored: "\<not> due E now w key \<Longrightarrow> slot_get E (hash_slot E) key (snd (valid E now' key r)) = Some ?h'"
    using chk(1)[of key] spec(5)[of key] by (simp add: r slot_get_held w_def)
  have lookup: "dm_get (env_hash E) f' ?h' = (if f' = f then Some v else dm_get (env_hash E) f' ?h)"
    using h by simp
  have "fst (eng_hget E now' key f' r) =
      (if alive E now' w key \<and> \<not> due E now w key then (if f' = f then Some v else dm_get (env_hash E) f' ?h) else None)"
    using stored lookup by (simp add: hget_answer alive get_or_create_hash_def hash_c.get_or_create_found)
  moreover have "fst (eng_hset E now key f v e)" by (simp add: eng_hset_def split_beta Let_def)
  moreover have "alive E now e key \<Longrightarrow> \<not> due E now e key" "\<not> alive E now e key \<and> \<not> due E now e key \<Longrightarrow> \<not> alive E now' e key"
    by (auto simp: alive_def due_def split: option.splits)
  ultimately show ?thesis
    using absent present by (cases "held_hash (held E e key)") (auto simp: r_def dm_get_new)
qed


theorem hset_hget_witness:
  "fst (eng_hget sample_env 50 [1] [2] (snd (eng_hset sample_env 7 [1] [2] [3] sample_engine))) = Some [3]
   \<and> fst (eng_hget sample_env 50 [1] [4] (snd (eng_hset sample_env 7 [1] [2] [3] sample_engine))) = None"
  using hset_hget[OF sample_engine(1-4), where now = 7 and key = "[1]" and f = "[2]" and v = "[3]" and now' = 50 and f' = "[2]"]
    hset_hget[OF sample_engine(1-4), where now = 7 and key = "[1]" and f = "[2]" and v = "[3]" and now' = 50 and f' = "[4]"]
  by (simp add: sample_engine(5) nothing_def)

section \<open>Values that are only in the database\<close>

lemma lpush_write: "snd (eng_lpush E now key v e) =
    check_memory_and_evict E now (write_back E (list_slot E) key ll_new
      (push_left v (case held_list (held E e key) of None \<Rightarrow> ll_new | Some l \<Rightarrow> l)) e)"
  using list_c.find_value[of E key ll_new e]
  by (simp add: eng_lpush_def split_beta Let_def write_back_def persist_list_def slot_get_held)

text \<open>
  C31. After a restart, or after an eviction, a list is only in the database.  The readers disagree on it: for \<^verbatim>\<open>get\<close> and
  \<^verbatim>\<open>exists\<close> there is no key, while \<^verbatim>\<open>llen\<close> loads the list and counts its elements, after which \<^verbatim>\<open>get\<close> answers with the
  list's byte form.  And \<^verbatim>\<open>lpush\<close> does not load it: it starts an empty list and overwrites the stored one, so all
  earlier elements are lost.
\<close>

theorem stored_list_lost:
  assumes "engine_ok E e" "db_ready E C e" "visits_all (env_order E)" "no_eviction e" "rocksdb e \<noteq> None"
    and "held E e key = nothing" "entry E e key = None" "db_get E key e = Some (serialize_list l)"
    and "fits32 (ll_list l)" "\<forall>x \<in> set (ll_list l). fits32 x"
  shows "fst (eng_get E now key e) = None \<and> \<not> fst (eng_exists E now key e)
    \<and> fst (eng_llen E key e) = int (length (ll_list l))
    \<and> fst (eng_get E now key (snd (eng_llen E key e))) = Some (serialize_list l)
    \<and> db_get E key (snd (eng_lpush E now key v e)) = Some (serialize_list (push_left v ll_new))
    \<and> fst (eng_llen E key (snd (eng_lpush E now key v e))) = 1"
proof -
  let ?l = "fold push_right (ll_list l) ll_new"
  have l: "ll_list ?l = ll_list l" using ll.push_all[OF ll.invar_fresh, of "ll_list l"] by (simp add: ll.items_fresh)
  have okl: "ll_ok ?l" using ll.push_all[OF ll.invar_fresh, of "ll_list l"] by simp
  have size: "ll_size x = length (ll_list x)" for x :: "str linked_list" by (simp add: ll_size_def ll_list_def)
  have none: "slot_get E (list_slot E) key e = None" using assms(6) by (simp add: slot_get_held nothing_def)
  have load: "load_value E (list_slot E) key ll_new e = (True, ?l)"
    using deserialize_serialize_list[OF assms(9,10)] assms(8) by (simp add: load_value_def list_slot_def)
  let ?r = "register E key kList (slot_insert E (list_slot E) key ?l e)"
  have type: "slot_type (list_slot E) = kList" by (simp add: list_slot_def)
  have llen: "eng_llen E key e = (int (length (ll_list l)), ?r)"
    by (simp add: eng_llen_def get_or_create_list_def get_or_create_def none load size l type)
  have ok: "engine_ok E (slot_insert E (list_slot E) key ?l e)" using assms(1) okl by (rule list_c.insert_ok)
  have "alive E now ?r key" using alive_register[OF ok] by simp
  moreover have "held_bytes (held E ?r key) = None"
    using assms(6) unfolding held_frame by (simp add: held_def nothing_def slot_insert_def slot_defs)
  ultimately have confused: "fst (eng_get E now key ?r) = Some (serialize_list l)"
    using assms(8) by (simp add: get_answer)
  define w where "w = write_back E (list_slot E) key ll_new (push_left v ll_new) e"
  have pushed: "ll_ok (push_left v ll_new)" by (simp add: ll.invar_push_l ll.invar_fresh)
  note spec = list_c.write_back_spec[OF assms(1) container_new_ok(2) pushed assms(2), of key]
  have w: "engine_ok E w" "db_ready E C w" "no_eviction w" "slot_get E (list_slot E) key w = Some (push_left v ll_new)"
    "db_get E key w = Some (serialize_list (push_left v ll_new))" "\<not> due E now w key"
    using spec(1-3) spec(5-7)[of key] assms(4,5) none
    by (auto simp: w_def no_eviction_def due_def is_expired_def km_new_def list_slot_def)
  have push: "snd (eng_lpush E now key v e) = check_memory_and_evict E now w"
    using assms(6) by (simp add: lpush_write w_def nothing_def)
  note chk = check_alive[where now = now, OF w(1,2) assms(3) w(3)]
  have "db_get E key (snd (eng_lpush E now key v e)) = Some (serialize_list (push_left v ll_new))"
    using chk(3)[of key] w by (simp add: push)
  moreover have "slot_get E (list_slot E) key (snd (eng_lpush E now key v e)) = Some (push_left v ll_new)"
    using chk(1)[of key] w by (simp add: push slot_get_held)
  then have "fst (eng_llen E key (snd (eng_lpush E now key v e))) = 1"
    by (simp add: eng_llen_def get_or_create_list_def list_c.get_or_create_found size ll.items_push_l ll.invar_fresh ll.items_fresh)
  ultimately show ?thesis
    using confused assms(7) by (simp add: llen get_answer exists_answer alive_def)
qed

definition stored_env :: "(str, unit, (str \<times> str) list) env" where
  "stored_env = sample_env\<lparr>rocks := memory_db\<lparr>rdb_open := (\<lambda>_. Some [([1], serialize_list (push_right [5] ll_new))])\<rparr>\<rparr>"

theorem stored_list_lost_witness:
  "fst (eng_llen stored_env [1] (engine_new stored_env sample_options)) = 1
   \<and> fst (eng_get stored_env 7 [1] (engine_new stored_env sample_options)) = None"
proof -
  let ?e = "engine_new stored_env sample_options"
  have laws: "db_laws (rocks stored_env) map_of" "db_works (rocks stored_env)"
    using memory_db_laws by (simp_all add: stored_env_def db_laws_def db_works_def)
  have ok: "engine_ok stored_env ?e" by (rule engine_new_ok) (simp add: sample_options_def)
  have e: "db_ready stored_env map_of ?e" "visits_all (env_order stored_env)" "no_eviction ?e" "rocksdb ?e \<noteq> None"
    "held stored_env ?e [1] = nothing" "entry stored_env ?e [1] = None"
    using laws sample_engine(3)
    by (simp_all add: sample_options_def db_ready_def engine_new_def no_eviction_def held_def nothing_def entry_def Let_def
        dm_get_new stored_env_def ra_is_open_def ra_new_def)
  have l: "ll_list (push_right [5] ll_new) = [[5]]" by (simp add: ll.items_push_r ll.invar_fresh ll.items_fresh)
  have stored: "db_get stored_env [1] ?e = Some (serialize_list (push_right [5] ll_new))"
    by (simp add: db_get_def engine_new_def sample_options_def Let_def ra_get_def ra_new_def stored_env_def memory_db_def)
  show ?thesis
    using stored_list_lost[OF ok e stored, where now = 7 and v = "[6]"] by (simp add: l fits32_def)
qed

section \<open>Every reachable state\<close>

text \<open>
  In every state an engine with at least one shard reaches, from its construction on, by any sequence of calls at any
  times, with any library behaviour, the maps are well formed, the lists and hashes in them are, and the lists of the 2Q policy
  are disjoint and free of duplicates.
\<close>

theorem reachable_engine_ok:
  assumes "0 < opt_shards o'"
  shows "engine_ok E (fold (eng_run E) calls (engine_new E o'))"
  by (rule eng_runs_ok[OF engine_new_ok[OF assms]])

theorem reachable_engine_ok_witness:
  "engine_ok sample_env (fold (eng_run sample_env) [(1, Put [1] [2]), (2, Lpush [3] [4]), (3, Cleanup)] sample_engine)"
  using reachable_engine_ok[of sample_options sample_env "[(1, Put [1] [2]), (2, Lpush [3] [4]), (3, Cleanup)]"]
  by (simp add: sample_options_def sample_engine_def)

end
