(* ===== verification/Hash_Threads.thy ===== *)
theory Hash_Threads
  imports Engine_Properties
begin

text \<open>
  The hash commands of \<^verbatim>\<open>src/engine.cpp\<close> on several threads.  The engine takes no lock of its own: a handler is a sequence
  of calls, each atomic under the lock of one shard of one \<^verbatim>\<open>DashMap\<close> or inside RocksDB, and other threads act in between.
  The map of the hashes holds shared pointers, so here a hash is an object with an address, and a thread that found the
  address keeps it.  One thread alone does what the handler of the sequential model does; with several threads some writes
  are safe and some are lost.
\<close>

section \<open>Shared state\<close>

text \<open>The engine without its hashes, whose field in \<open>rest\<close> is not used; the map from keys to addresses, the objects.\<close>

record ('ix, 'db) shared =
  rest :: "('ix, 'db) engine"
  pointers :: "(str, nat) dashmap"
  objects :: "hash_value list"

datatype hash_call =
    Call_hset (call_key: str) (call_field: str) str
  | Call_hget (call_key: str) (call_field: str)
  | Call_hdel (call_key: str) (call_field: str)
  | Call_hincrby (call_key: str) (call_field: str) int

datatype reply = Reply_ok bool | Reply_value "str option" | Reply_number int

text \<open>Where a thread is in its handler, with the local variables that are still needed.\<close>

datatype thread =
    At_check hash_call
  | At_expire hash_call
  | At_look hash_call
  | At_load hash_call
  | At_publish hash_call nat
  | At_version hash_call nat
  | At_register hash_call nat u64
  | At_act hash_call nat
  | At_store hash_call nat int
  | At_scan str nat nat "(str \<times> str) list" reply
  | At_put str "(str \<times> str) list" reply
  | Returned reply

fun start :: "hash_call \<Rightarrow> thread" where
  "start (Call_hget key field) = At_check (Call_hget key field)"
| "start c = At_look c"

section \<open>Steps\<close>

definition set_object :: "nat \<Rightarrow> hash_value \<Rightarrow> ('ix, 'db) shared \<Rightarrow> ('ix, 'db) shared" where
  "set_object p m s = s\<lparr>objects := (objects s)[p := m]\<rparr>"

definition new_object :: "hash_value \<Rightarrow> ('ix, 'db) shared \<Rightarrow> nat \<times> ('ix, 'db) shared" where
  "new_object m s = (length (objects s), s\<lparr>objects := objects s @ [m]\<rparr>)"

text \<open>\<^verbatim>\<open>serialize_hash\<close> on the entries it has collected.\<close>

definition write_entries :: "(str \<times> str) list \<Rightarrow> str" where
  "write_entries all =
     (let sz = 4 + sum_list (map (\<lambda>(f, v). 4 + length f + 4 + length v) all)
      in pad sz (put_u32 (of_nat (length all)) @ concat (map put_pair all)))"

definition persisting :: "hash_call \<Rightarrow> nat \<Rightarrow> reply \<Rightarrow> ('ix, 'db) shared \<Rightarrow> thread" where
  "persisting c p r s = (if rocksdb (rest s) = None then Returned r else At_scan (call_key c) p 0 [] r)"

text \<open>The handler's own access to the hash it holds.\<close>

fun act :: "('doc, 'ix, 'db) env \<Rightarrow> hash_call \<Rightarrow> nat \<Rightarrow> ('ix, 'db) shared \<Rightarrow> thread \<times> ('ix, 'db) shared" where
  "act E (Call_hset key field val) p s =
     (persisting (Call_hset key field val) p (Reply_ok True) s,
      set_object p (snd (dm_insert (env_hash E) field val (objects s ! p))) s)"
| "act E (Call_hget key field) p s = (Returned (Reply_value (dm_get (env_hash E) field (objects s ! p))), s)"
| "act E (Call_hdel key field) p s =
     (let (ok, m) = dm_remove (env_hash E) field (objects s ! p)
      in (persisting (Call_hdel key field) p (Reply_ok ok) s, set_object p m s))"
| "act E (Call_hincrby key field delta) p s =
     (let current = (case dm_get (env_hash E) field (objects s ! p) of None \<Rightarrow> 0 | Some existing_val \<Rightarrow> strtoll existing_val)
      in (At_store (Call_hincrby key field delta) p (signed_take_bit 63 (current + delta)), s))"

text \<open>The answers of the commands that find no hash: \<open>hset\<close> and \<open>hincrby\<close> make one instead.\<close>

fun missing :: "hash_call \<Rightarrow> reply option" where
  "missing (Call_hget key field) = Some (Reply_value None)"
| "missing (Call_hdel key field) = Some (Reply_ok False)"
| "missing c = None"

fun thread_step :: "('doc, 'ix, 'db) env \<Rightarrow> int \<Rightarrow> thread \<Rightarrow> ('ix, 'db) shared \<Rightarrow> thread \<times> ('ix, 'db) shared" where
  "thread_step E now (At_check c) s =
     (case dm_get (env_hash E) (call_key c) (meta (rest s)) of
        None \<Rightarrow> (Returned (Reply_value None), s)
      | Some md \<Rightarrow> (if is_expired now md then At_expire c else At_look c, s))"
| "thread_step E now (At_expire c) s =
     (Returned (Reply_value None), s\<lparr>rest := (rest s)\<lparr>meta := snd (dm_remove (env_hash E) (call_key c) (meta (rest s)))\<rparr>\<rparr>)"
| "thread_step E now (At_look c) s =
     (case dm_get (env_hash E) (call_key c) (pointers s) of
        Some p \<Rightarrow> (At_act c p, s)
      | None \<Rightarrow>
          (case c of
             Call_hset _ _ _ \<Rightarrow> (let (p, s) = new_object (dm_new 16) s in (At_publish c p, s))
           | _ \<Rightarrow> (At_load c, s)))"
| "thread_step E now (At_load c) s =
     (let (ok, m) = load_hash E (call_key c) (dm_new 16) (rest s) in
      case (ok, missing c) of
        (False, Some r) \<Rightarrow> (Returned r, s)
      | _ \<Rightarrow> (let (p, s) = new_object m s in (At_publish c p, s)))"
| "thread_step E now (At_publish c p) s =
     (At_version c p, s\<lparr>pointers := snd (dm_insert (env_hash E) (call_key c) p (pointers s))\<rparr>)"
| "thread_step E now (At_version c p) s =
     (At_register c p
        (case dm_get (env_hash E) (call_key c) (meta (rest s)) of Some existing \<Rightarrow> version existing + 1 | None \<Rightarrow> 1), s)"
| "thread_step E now (At_register c p new_version) s =
     (At_act c p, s\<lparr>rest := (rest s)\<lparr>meta :=
        snd (dm_insert (env_hash E) (call_key c) ((km_new kHash)\<lparr>version := new_version\<rparr>) (meta (rest s)))\<rparr>\<rparr>)"
| "thread_step E now (At_act c p) s = act E c p s"
| "thread_step E now (At_store c p new_val) s =
     (persisting c p (Reply_number new_val) s,
      set_object p (snd (dm_insert (env_hash E) (call_field c) (to_string_int new_val) (objects s ! p))) s)"
| "thread_step E now (At_scan key p i all r) s =
     (if i < length (dm_shards (objects s ! p))
      then (At_scan key p (i + 1) (all @ shard_entries (env_order E) (dm_shards (objects s ! p) ! i)) r, s)
      else (At_put key all r, s))"
| "thread_step E now (At_put key all r) s = (Returned r, s\<lparr>rest := db_put E key (write_entries all) (rest s)\<rparr>)"
| "thread_step E now (Returned r) s = (Returned r, s)"

text \<open>A schedule says which thread takes the next step, and what the clock shows.\<close>

fun interleave ::
    "('doc, 'ix, 'db) env \<Rightarrow> (nat \<times> int) list \<Rightarrow> thread list \<Rightarrow> ('ix, 'db) shared \<Rightarrow> thread list \<times> ('ix, 'db) shared" where
  "interleave E [] ts s = (ts, s)"
| "interleave E ((i, now) # sched) ts s =
     (if i < length ts then (let (t, s') = thread_step E now (ts ! i) s in interleave E sched (ts[i := t]) s')
      else interleave E sched ts s)"

section \<open>Maps of pointers\<close>

definition dm_map :: "('v \<Rightarrow> 'w) \<Rightarrow> ('k, 'v) dashmap \<Rightarrow> ('k, 'w) dashmap" where
  "dm_map f m = \<lparr>dm_shards = map (map (\<lambda>(k, v). (k, f v))) (dm_shards m), dm_count = dm_count m\<rparr>"

lemma shard_index_map [simp]: "shard_index h (dm_map f m) k = shard_index h m k"
  by (rule shard_index_cong) (simp add: dm_map_def)

lemma dm_get_map: "dm_ok h m \<Longrightarrow> dm_get h k (dm_map f m) = map_option f (dm_get h k m)"
  using dm_okD(1)[of h m k] by (simp add: dm_get_def map_of_map) (simp add: dm_map_def map_of_map)

lemma entry_get:
  assumes "dm_ok h m" "j < length (dm_shards m)" "(k, v) \<in> set (dm_shards m ! j)"
  shows "dm_get h k m = Some v"
  using dm_get_shard[OF assms(1,2), of k v] dm_okD(2)[OF assms(1,2)] assms(3) by (simp add: shard_ok_def)

lemma update_map_shard: "AList.update k (f v) (map (\<lambda>(k, v). (k, f v)) s) = map (\<lambda>(k, v). (k, f v)) (AList.update k v s)"
  by (induction s) auto

lemma dm_insert_map:
  assumes "dm_ok h m"
  shows "dm_insert h k (f v) (dm_map f m) = (fst (dm_insert h k v m), dm_map f (snd (dm_insert h k v m)))"
proof -
  let ?i = "shard_index h m k"
  have i: "dm_shards (dm_map f m) ! ?i = map (\<lambda>(k, v). (k, f v)) (dm_shards m ! ?i)"
    using dm_okD(1)[OF assms, of k] by (simp add: dm_map_def)
  then have "map_of (dm_shards (dm_map f m) ! ?i) k = map_option f (map_of (dm_shards m ! ?i) k)" by (simp add: map_of_map)
  then show ?thesis by (simp add: dm_insert_eq Let_def i update_map_shard) (simp add: dm_map_def map_update)
qed

lemma update_present_shard:
  "shard_ok s \<Longrightarrow> k \<in> fst ` set s \<Longrightarrow> AList.update k v s = map (\<lambda>(k', w). (k', if k' = k then v else w)) s"
proof (induction s)
  case (Cons x s)
  have "map (\<lambda>(k', w). (k', if k' = k then v else w)) s = s" if "k \<notin> fst ` set s"
    using that by (intro map_idI) force
  then show ?case using Cons by (cases x) (auto simp: shard_ok_def)
qed simp

text \<open>An object changes exactly the entry of the one key that points to it.\<close>

lemma dm_map_changed:
  assumes ok: "dm_ok h m" and get: "dm_get h k m = Some p" and inj: "\<forall>k'. dm_get h k' m = Some p \<longrightarrow> k' = k"
    and f: "\<And>q. q \<noteq> p \<Longrightarrow> f' q = f q"
  shows "dm_map f' m = snd (dm_insert h k (f' p) (dm_map f m))"
proof -
  let ?i = "shard_index h m k" and ?g = "\<lambda>f. map (\<lambda>(k, v). (k, f v))"
  have i: "?i < length (dm_shards m)" by (rule dm_okD(1)[OF ok])
  note entry = entry_get[OF ok]
  have at: "(k, p) \<in> set (dm_shards m ! ?i)" using get by (simp add: dm_get_def map_of_SomeD)
  have same: "f' q = (if k' = k then f' p else f q)" if "j < length (dm_shards m)" "(k', q) \<in> set (dm_shards m ! j)" for j k' q
  proof (cases "q = p")
    case True
    then show ?thesis using entry[OF that] inj by simp
  next
    case False
    moreover have "k' \<noteq> k" using entry[OF that] get False by auto
    ultimately show ?thesis by (simp add: f)
  qed
  have here: "?g f' (dm_shards m ! ?i) = AList.update k (f' p) (?g f (dm_shards m ! ?i))"
  proof -
    have "shard_ok (?g f (dm_shards m ! ?i))" using dm_okD(2)[OF ok i] by (simp add: shard_ok_def comp_def split_beta)
    moreover have "k \<in> fst ` set (?g f (dm_shards m ! ?i))" using at by force
    ultimately show ?thesis using same[OF i] by (simp add: update_present_shard) force
  qed
  have there: "?g f' (dm_shards m ! j) = ?g f (dm_shards m ! j)" if "j < length (dm_shards m)" "j \<noteq> ?i" for j
  proof (intro map_cong refl)
    fix x assume x: "x \<in> set (dm_shards m ! j)"
    obtain k' q where "x = (k', q)" by (cases x)
    moreover have "k' \<noteq> k" using dm_okD(3)[OF ok that(1), of k'] that(2) x \<open>x = (k', q)\<close> by (force simp: map_of_eq_None_iff)
    ultimately show "(case x of (k, v) \<Rightarrow> (k, f' v)) = (case x of (k, v) \<Rightarrow> (k, f v))"
      using same[OF that(1), of k' q] x by simp
  qed
  have "map (?g f') (dm_shards m) = (map (?g f) (dm_shards m))[?i := AList.update k (f' p) (?g f (dm_shards m ! ?i))]"
    by (rule nth_equalityI) (auto simp: nth_list_update i here there)
  moreover have "map_of (?g f (dm_shards m ! ?i)) k \<noteq> None" using get by (simp add: map_of_map dm_get_def)
  ultimately show ?thesis by (simp add: dm_insert_eq Let_def) (simp add: dm_map_def i)
qed

section \<open>The sequential state a shared state stands for\<close>

definition engine_of :: "('ix, 'db) shared \<Rightarrow> ('ix, 'db) engine" where
  "engine_of s = (rest s)\<lparr>hashes := dm_map (\<lambda>p. objects s ! p) (pointers s)\<rparr>"

text \<open>No two keys share an object; every object has the sixteen shards it was made with.\<close>

definition shared_ok :: "('doc, 'ix, 'db) env \<Rightarrow> ('ix, 'db) shared \<Rightarrow> bool" where
  "shared_ok E s \<longleftrightarrow>
     dm_ok (env_hash E) (pointers s) \<and>
     (\<forall>k p. dm_get (env_hash E) k (pointers s) = Some p \<longrightarrow>
        p < length (objects s) \<and> (\<forall>k'. dm_get (env_hash E) k' (pointers s) = Some p \<longrightarrow> k' = k)) \<and>
     (\<forall>m \<in> set (objects s). length (dm_shards m) = 16)"

lemma shared_okD:
  assumes "shared_ok E s"
  shows "dm_ok (env_hash E) (pointers s)"
    and "dm_get (env_hash E) k (pointers s) = Some p \<Longrightarrow> p < length (objects s)"
    and "dm_get (env_hash E) k (pointers s) = Some p \<Longrightarrow> dm_get (env_hash E) k' (pointers s) = Some p \<Longrightarrow> k' = k"
    and "dm_get (env_hash E) k (pointers s) = Some p \<Longrightarrow> length (dm_shards (objects s ! p)) = 16"
  using assms by (auto simp: shared_ok_def)

lemma rest_frame [simp]:
  "rocksdb (engine_of s) = rocksdb (rest s)" "meta (engine_of s) = meta (rest s)"
  by (simp_all add: engine_of_def)

lemma load_rest: "load_hash E key m (rest s) = load_hash E key m (engine_of s)"
  by (simp add: load_hash_def load_value_def db_get_def)

lemma get_pointed:
  "shared_ok E s \<Longrightarrow> slot_get E (hash_slot E) key (engine_of s) = map_option (\<lambda>p. objects s ! p) (dm_get (env_hash E) key (pointers s))"
  by (simp add: slot_get_def hash_slot_def engine_of_def dm_get_map shared_okD(1))

lemma length_shards_write [simp]:
  "length (dm_shards (snd (dm_insert h k v m))) = length (dm_shards m)"
  "length (dm_shards (snd (dm_remove h k m))) = length (dm_shards m)"
  by (simp_all add: dm_insert_def dm_remove_def Let_def)

lemma length_shards_load: "length (dm_shards (snd (load_hash E key m e))) = length (dm_shards m)"
proof -
  have "length (dm_shards (snd (deserialize_hash h d m))) = length (dm_shards m)" for h d
    unfolding deserialize_hash_def
    by (rule read_counted_keeps[where P = "\<lambda>m'. length (dm_shards m') = length (dm_shards m)"]) (simp_all add: split_beta)
  then show ?thesis by (simp add: load_hash_def load_value_def hash_slot_def split: option.splits)
qed

lemma engine_set_object:
  assumes "shared_ok E s" "dm_get (env_hash E) key (pointers s) = Some p"
  shows "engine_of (set_object p m s) = slot_insert E (hash_slot E) key m (engine_of s)"
proof -
  note p = shared_okD(2,3)[OF assms]
  have "dm_map (\<lambda>q. (objects s)[p := m] ! q) (pointers s) =
      snd (dm_insert (env_hash E) key ((objects s)[p := m] ! p) (dm_map (\<lambda>q. objects s ! q) (pointers s)))"
    by (rule dm_map_changed[where p = p, OF shared_okD(1)[OF assms(1)] assms(2)]) (simp_all add: p)
  then show ?thesis using p(1) by (simp add: engine_of_def set_object_def slot_insert_def hash_slot_def)
qed

lemma set_object_ok: "shared_ok E s \<Longrightarrow> length (dm_shards m) = 16 \<Longrightarrow> shared_ok E (set_object p m s)"
  by (auto simp: shared_ok_def set_object_def dest!: set_update_subset_insert[THEN subsetD])

text \<open>A new object under a key, registered.\<close>

definition created :: "('doc, 'ix, 'db) env \<Rightarrow> str \<Rightarrow> hash_value \<Rightarrow> ('ix, 'db) shared \<Rightarrow> ('ix, 'db) shared" where
  "created E key m s =
     s\<lparr>rest := register E key kHash (rest s), pointers := snd (dm_insert (env_hash E) key (length (objects s)) (pointers s)),
       objects := objects s @ [m]\<rparr>"

lemma created_spec:
  assumes "shared_ok E s" "length (dm_shards m) = 16"
  shows "shared_ok E (created E key m s)"
    and "dm_get (env_hash E) key (pointers (created E key m s)) = Some (length (objects s))"
    and "engine_of (created E key m s) = register E key kHash (slot_insert E (hash_slot E) key m (engine_of s))"
proof -
  note ok = shared_okD[OF assms(1)]
  show "dm_get (env_hash E) key (pointers (created E key m s)) = Some (length (objects s))"
    by (simp add: created_def dm.lookup_insert ok(1))
  show "shared_ok E (created E key m s)"
    using assms(2) ok(1,2,3) assms(1) unfolding shared_ok_def created_def
    by (auto simp: dm.lookup_insert split: if_splits) (fastforce dest: ok(2))+
  have "dm_map (\<lambda>p. (objects s @ [m]) ! p) (pointers s) = dm_map (\<lambda>p. objects s ! p) (pointers s)"
  proof -
    have "(objects s @ [m]) ! p = objects s ! p" if "(k, p) \<in> set x" "x \<in> set (dm_shards (pointers s))" for k p x
    proof -
      obtain j where j: "j < length (dm_shards (pointers s))" "(k, p) \<in> set (dm_shards (pointers s) ! j)"
        using \<open>x \<in> _\<close> \<open>(k, p) \<in> _\<close> by (auto simp: in_set_conv_nth[of x])
      then have "dm_get (env_hash E) k (pointers s) = Some p" by (rule entry_get[OF ok(1)])
      then show ?thesis by (simp add: nth_append ok(2))
    qed
    then show ?thesis by (auto simp: dm_map_def)
  qed
  then show "engine_of (created E key m s) = register E key kHash (slot_insert E (hash_slot E) key m (engine_of s))"
    using dm_insert_map[OF ok(1), of key "\<lambda>p. (objects s @ [m]) ! p" "length (objects s)"]
    by (simp add: engine_of_def created_def register_def slot_insert_def hash_slot_def)
qed

section \<open>One thread alone\<close>

fun solo ::
    "('doc, 'ix, 'db) env \<Rightarrow> int \<Rightarrow> nat \<Rightarrow> thread \<Rightarrow> ('ix, 'db) shared \<Rightarrow> thread \<times> ('ix, 'db) shared" where
  "solo E now 0 t s = (t, s)"
| "solo E now (Suc n) t s = (let (t', s') = thread_step E now t s in solo E now n t' s')"

lemma solo_returned [simp]: "solo E now n (Returned r) s = (Returned r, s)"
  by (induction n) simp_all

lemma solo_add: "solo E now (n + k) t s = (let (t', s') = solo E now n t s in solo E now k t' s')"
  by (induction n arbitrary: t s) (simp_all add: split_beta Let_def)

text \<open>Within \<open>n\<close> steps the thread is at \<open>t'\<close>.\<close>

definition gets_to ::
    "('doc, 'ix, 'db) env \<Rightarrow> int \<Rightarrow> nat \<Rightarrow> thread \<Rightarrow> ('ix, 'db) shared \<Rightarrow> thread \<Rightarrow> ('ix, 'db) shared \<Rightarrow> bool" where
  "gets_to E now n t s t' s' \<longleftrightarrow> (\<exists>k\<le>n. solo E now k t s = (t', s'))"

lemma gets_to_refl: "gets_to E now n t s t s"
  unfolding gets_to_def by (rule exI[of _ 0]) simp

lemma gets_to_eq: "s = s' \<Longrightarrow> gets_to E now n t s t s'"
  by (simp add: gets_to_refl)

lemma gets_to_step: "thread_step E now t s = (t', s') \<Longrightarrow> gets_to E now n t' s' t'' s'' \<Longrightarrow> gets_to E now (Suc n) t s t'' s''"
  unfolding gets_to_def by (elim exE conjE, rule_tac x = "Suc k" in exI) simp

lemma gets_to_trans: "gets_to E now n t s t' s' \<Longrightarrow> gets_to E now k t' s' t'' s'' \<Longrightarrow> gets_to E now (n + k) t s t'' s''"
proof -
  assume "gets_to E now n t s t' s'" "gets_to E now k t' s' t'' s''"
  then obtain a b where "a \<le> n" "solo E now a t s = (t', s')" "b \<le> k" "solo E now b t' s' = (t'', s'')"
    by (auto simp: gets_to_def)
  then have "a + b \<le> n + k \<and> solo E now (a + b) t s = (t'', s'')" by (simp add: solo_add)
  then show ?thesis unfolding gets_to_def by blast
qed

lemma gets_to_more: "gets_to E now n t s t' s' \<Longrightarrow> n \<le> k \<Longrightarrow> gets_to E now k t s t' s'"
  unfolding gets_to_def by (meson le_trans)

lemma gets_to_returned: "gets_to E now n t s (Returned r) s' \<Longrightarrow> solo E now n t s = (Returned r, s')"
proof -
  assume "gets_to E now n t s (Returned r) s'"
  then obtain k where "k \<le> n" "solo E now k t s = (Returned r, s')" by (auto simp: gets_to_def)
  then show ?thesis using solo_add[of E now k "n - k" t s] by simp
qed

lemma scan_exact:
  assumes "i \<le> length (dm_shards (objects s ! p))"
  shows "solo E now (length (dm_shards (objects s ! p)) - i + 1) (At_scan key p i all r) s =
    (At_put key (all @ concat (map (shard_entries (env_order E)) (drop i (dm_shards (objects s ! p))))) r, s)"
  using assms
proof (induction "length (dm_shards (objects s ! p)) - i" arbitrary: i all)
  case (Suc n)
  then have i: "i < length (dm_shards (objects s ! p))" by simp
  let ?all = "all @ shard_entries (env_order E) (dm_shards (objects s ! p) ! i)"
  have "thread_step E now (At_scan key p i all r) s = (At_scan key p (i + 1) ?all r, s)" using i by simp
  then show ?case
    using Suc.hyps(1)[of "i + 1" ?all] Suc.hyps(2) i by (simp add: Cons_nth_drop_Suc[symmetric] Suc_diff_Suc[symmetric])
qed simp

lemma scan_run:
  assumes "length (dm_shards (objects s ! p)) = 16"
  shows "gets_to E now 18 (At_scan key p 0 [] r) s (Returned r)
    (s\<lparr>rest := db_put E key (write_entries (dm_all_entries (env_order E) (objects s ! p))) (rest s)\<rparr>)"
proof -
  have "solo E now (17 + 1) (At_scan key p 0 [] r) s =
      (Returned r, s\<lparr>rest := db_put E key (write_entries (dm_all_entries (env_order E) (objects s ! p))) (rest s)\<rparr>)"
    using scan_exact[of 0 s p E now key "[]" r] assms by (subst solo_add) (simp add: dm_all_entries_def)
  then show ?thesis unfolding gets_to_def by (intro exI[of _ 18]) simp
qed

lemma write_entries_hash: "write_entries (dm_all_entries ord m) = serialize_hash ord m"
  by (simp add: write_entries_def serialize_hash_def Let_def)

text \<open>The end of the writing handlers.\<close>

definition persisted :: "('doc, 'ix, 'db) env \<Rightarrow> str \<Rightarrow> nat \<Rightarrow> ('ix, 'db) shared \<Rightarrow> ('ix, 'db) shared" where
  "persisted E key p s = s\<lparr>rest := persist_hash E key (objects s ! p) (rest s)\<rparr>"

lemma persisting_run:
  assumes "length (dm_shards (objects s ! p)) = 16" "rocksdb (rest s) = rocksdb (rest s')"
  shows "gets_to E now 18 (persisting c p r s') s (Returned r) (persisted E (call_key c) p s)"
proof (cases "rocksdb (rest s) = None")
  case True
  then have "persisted E (call_key c) p s = s"
    by (cases s) (simp add: persisted_def persist_hash_def persist_value_def db_put_def)
  then show ?thesis using True assms(2) by (simp add: persisting_def gets_to_refl)
next
  case False
  then obtain d where "rocksdb (rest s') = Some d" using assms(2) by auto
  then show ?thesis
    using scan_run[OF assms(1), of E now "call_key c" r]
    by (simp add: persisting_def persisted_def persist_hash_def persist_value_def hash_slot_def write_entries_hash)
qed

lemma persisted_spec:
  assumes "shared_ok E s" "dm_get (env_hash E) key (pointers s) = Some p"
  shows "shared_ok E (persisted E key p s)"
    and "engine_of (persisted E key p s) = persist_hash E key (objects s ! p) (engine_of s)"
  using assms
  by (auto simp: shared_ok_def persisted_def engine_of_def persist_hash_def persist_value_def db_put_def split: option.splits)

text \<open>From the lookup to the use of the hash.\<close>

definition linked :: "('doc, 'ix, 'db) env \<Rightarrow> str \<Rightarrow> nat \<Rightarrow> ('ix, 'db) shared \<Rightarrow> ('ix, 'db) shared" where
  "linked E key p s =
     s\<lparr>rest := register E key kHash (rest s), pointers := snd (dm_insert (env_hash E) key p (pointers s))\<rparr>"

lemma linked_run: "gets_to E now 3 (At_publish c p) s (At_act c p) (linked E (call_key c) p s)"
  unfolding numeral_3_eq_3
  by (rule gets_to_step, rule thread_step.simps, rule gets_to_step, rule thread_step.simps, rule gets_to_step, rule thread_step.simps,
      rule gets_to_eq)
     (cases s, simp add: linked_def register_def register_key_def)

lemma created_run:
  "gets_to E now 3 (At_publish c (length (objects s))) (s\<lparr>objects := objects s @ [m]\<rparr>)
     (At_act c (length (objects s))) (created E (call_key c) m s)"
  using linked_run[of E now c "length (objects s)" "s\<lparr>objects := objects s @ [m]\<rparr>"] by (cases s) (simp add: linked_def created_def)

definition makes_new :: "hash_call \<Rightarrow> bool" where
  "makes_new c = (case c of Call_hset _ _ _ \<Rightarrow> True | _ \<Rightarrow> False)"

lemma open_run:
  assumes "shared_ok E s"
  shows "dm_get (env_hash E) (call_key c) (pointers s) = Some p \<Longrightarrow> gets_to E now 5 (At_look c) s (At_act c p) s"
    and "dm_get (env_hash E) (call_key c) (pointers s) = None \<Longrightarrow> makes_new c \<Longrightarrow>
      gets_to E now 5 (At_look c) s (At_act c (length (objects s))) (created E (call_key c) (dm_new 16) s)"
    and "dm_get (env_hash E) (call_key c) (pointers s) = None \<Longrightarrow> \<not> makes_new c \<Longrightarrow>
      load_hash E (call_key c) (dm_new 16) (engine_of s) = (ok, m) \<Longrightarrow> ok \<or> missing c = None \<Longrightarrow>
      gets_to E now 5 (At_look c) s (At_act c (length (objects s))) (created E (call_key c) m s)"
    and "dm_get (env_hash E) (call_key c) (pointers s) = None \<Longrightarrow> \<not> makes_new c \<Longrightarrow>
      \<not> fst (load_hash E (call_key c) (dm_new 16) (engine_of s)) \<Longrightarrow> missing c = Some r \<Longrightarrow>
      gets_to E now 5 (At_look c) s (Returned r) s"
proof -
  show "gets_to E now 5 (At_look c) s (At_act c p) s" if "dm_get (env_hash E) (call_key c) (pointers s) = Some p"
    using that by (intro gets_to_more[OF gets_to_step[OF _ gets_to_refl[where n = 0]]]) simp_all
  show "gets_to E now 5 (At_look c) s (At_act c (length (objects s))) (created E (call_key c) (dm_new 16) s)"
    if "dm_get (env_hash E) (call_key c) (pointers s) = None" "makes_new c"
    using that by (intro gets_to_more[OF gets_to_step[OF _ created_run]]) (auto simp: makes_new_def new_object_def split: hash_call.splits)
  have look: "thread_step E now (At_look c) s = (At_load c, s)"
    if "dm_get (env_hash E) (call_key c) (pointers s) = None" "\<not> makes_new c"
    using that by (auto simp: makes_new_def split: hash_call.splits)
  show "gets_to E now 5 (At_look c) s (At_act c (length (objects s))) (created E (call_key c) m s)"
    if "dm_get (env_hash E) (call_key c) (pointers s) = None" "\<not> makes_new c"
      "load_hash E (call_key c) (dm_new 16) (engine_of s) = (ok, m)" "ok \<or> missing c = None"
    using that by (intro gets_to_more[OF gets_to_step[OF look gets_to_step[OF _ created_run]]])
      (auto simp: load_rest new_object_def split: option.splits bool.splits)
  show "gets_to E now 5 (At_look c) s (Returned r) s"
    if "dm_get (env_hash E) (call_key c) (pointers s) = None" "\<not> makes_new c"
      "\<not> fst (load_hash E (call_key c) (dm_new 16) (engine_of s))" "missing c = Some r"
    using that by (intro gets_to_more[OF gets_to_step[OF look gets_to_step[OF _ gets_to_refl[where n = 0]]]])
      (auto simp: load_rest split_beta split: option.splits bool.splits)
qed

text \<open>The lookup ends where the sequential handlers' own lookups end.\<close>

lemma created_object: "objects (created E key m s) ! length (objects s) = m"
  by (simp add: created_def)

lemma opened_new:
  assumes "shared_ok E s" "makes_new c"
  obtains p s1 where "gets_to E now 5 (At_look c) s (At_act c p) s1" "shared_ok E s1"
    "dm_get (env_hash E) (call_key c) (pointers s1) = Some p"
    "find_or_insert E (hash_slot E) (call_key c) (dm_new 16) (engine_of s) = (objects s1 ! p, engine_of s1)"
proof (cases "dm_get (env_hash E) (call_key c) (pointers s)")
  case None
  have new: "length (dm_shards (dm_new 16 :: hash_value)) = 16" by (simp add: dm_new_def)
  show ?thesis
    using that[OF open_run(2)[OF assms(1) None assms(2)] created_spec(1,2)[OF assms(1) new]]
      created_spec(3)[OF assms(1) new] get_pointed[OF assms(1), of "call_key c"] None
    by (simp add: find_or_insert_def created_object hash_slot_def)
next
  case (Some p)
  then show ?thesis
    using that[OF open_run(1)[OF assms(1) Some] assms(1) Some] get_pointed[OF assms(1), of "call_key c"]
    by (simp add: find_or_insert_def)
qed

lemma opened_load:
  assumes "shared_ok E s" "\<not> makes_new c"
  obtains (found) p s1 where "gets_to E now 5 (At_look c) s (At_act c p) s1" "shared_ok E s1"
      "dm_get (env_hash E) (call_key c) (pointers s1) = Some p"
      "missing c \<noteq> None \<Longrightarrow> get_or_create_hash E (call_key c) (engine_of s) = (Some (objects s1 ! p), engine_of s1)"
      "missing c = None \<Longrightarrow>
        (case slot_get E (hash_slot E) (call_key c) (engine_of s) of
           Some h \<Rightarrow> (h, engine_of s)
         | None \<Rightarrow> (let (ok, h) = load_hash E (call_key c) (dm_new 16) (engine_of s) in
             (h, register E (call_key c) kHash (slot_insert E (hash_slot E) (call_key c) h (engine_of s)))))
        = (objects s1 ! p, engine_of s1)"
  | (absent) r where "gets_to E now 5 (At_look c) s (Returned r) s" "missing c = Some r"
      "get_or_create_hash E (call_key c) (engine_of s) = (None, engine_of s)"
proof (cases "dm_get (env_hash E) (call_key c) (pointers s)")
  case (Some p)
  then show ?thesis
    using found[OF open_run(1)[OF assms(1) Some] assms(1) Some] get_pointed[OF assms(1), of "call_key c"]
    by (simp add: get_or_create_hash_def get_or_create_def)
next
  case None
  obtain ok m where load: "load_hash E (call_key c) (dm_new 16) (engine_of s) = (ok, m)" by fastforce
  have shards: "length (dm_shards m) = 16"
    using length_shards_load[of E "call_key c" "dm_new 16" "engine_of s"] by (simp add: load) (simp add: dm_new_def)
  note created = created_spec[OF assms(1) shards, of "call_key c"]
  have slot: "slot_get E (hash_slot E) (call_key c) (engine_of s) = None"
    using None by (simp add: get_pointed[OF assms(1)])
  have type: "slot_type (hash_slot E) = kHash" by (simp add: hash_slot_def)
  show ?thesis
  proof (cases "ok \<or> missing c = None")
    case True
    show ?thesis
      using found[OF open_run(3)[OF assms(1) None assms(2) load True] created(1,2)] True
      by (auto simp: get_or_create_hash_def get_or_create_def slot load created(3) created_object load_hash_def[symmetric] type)
  next
    case False
    then obtain r where "missing c = Some r" by auto
    then show ?thesis
      using absent[OF open_run(4)[OF assms(1) None assms(2), of r]] False
      by (auto simp: load get_or_create_hash_def get_or_create_def slot load_hash_def[symmetric])
  qed
qed

lemma write_run:
  assumes "shared_ok E s" "dm_get (env_hash E) (call_key c) (pointers s) = Some p" "length (dm_shards m) = 16"
  defines "s' \<equiv> persisted E (call_key c) p (set_object p m s)"
  shows "gets_to E now 18 (persisting c p r s) (set_object p m s) (Returned r) s'" "shared_ok E s'"
    "engine_of s' = persist_hash E (call_key c) m (slot_insert E (hash_slot E) (call_key c) m (engine_of s))"
proof -
  have m: "objects (set_object p m s) ! p = m" using shared_okD(2)[OF assms(1,2)] by (simp add: set_object_def)
  have ptr: "dm_get (env_hash E) (call_key c) (pointers (set_object p m s)) = Some p" using assms(2) by (simp add: set_object_def)
  note ok = set_object_ok[OF assms(1,3), of p]
  show "gets_to E now 18 (persisting c p r s) (set_object p m s) (Returned r) s'"
    unfolding s'_def by (rule persisting_run) (use m assms(3) in \<open>simp_all add: set_object_def\<close>)
  show "shared_ok E s'" unfolding s'_def by (rule persisted_spec(1)[OF ok ptr])
  show "engine_of s' = persist_hash E (call_key c) m (slot_insert E (hash_slot E) (call_key c) m (engine_of s))"
    unfolding s'_def persisted_spec(2)[OF ok ptr] m engine_set_object[OF assms(1,2)] ..
qed

text \<open>The handlers of the sequential model, and what \<^verbatim>\<open>hset\<close> does after the steps of the thread.\<close>

fun handled :: "('doc, 'ix, 'db) env \<Rightarrow> int \<Rightarrow> hash_call \<Rightarrow> ('ix, 'db) engine \<Rightarrow> reply \<times> ('ix, 'db) engine" where
  "handled E now (Call_hset key field val) e = (let (ok, e) = eng_hset E now key field val e in (Reply_ok ok, e))"
| "handled E now (Call_hget key field) e = (let (v, e) = eng_hget E now key field e in (Reply_value v, e))"
| "handled E now (Call_hdel key field) e = (let (ok, e) = eng_hdel E key field e in (Reply_ok ok, e))"
| "handled E now (Call_hincrby key field delta) e = (let (n, e) = eng_hincrby E key field delta e in (Reply_number n, e))"

definition closing :: "('doc, 'ix, 'db) env \<Rightarrow> int \<Rightarrow> hash_call \<Rightarrow> ('ix, 'db) engine \<Rightarrow> ('ix, 'db) engine" where
  "closing E now c e = (if makes_new c then check_memory_and_evict E now e else e)"

definition refines_handler :: "('doc, 'ix, 'db) env \<Rightarrow> int \<Rightarrow> hash_call \<Rightarrow> ('ix, 'db) shared \<Rightarrow> bool" where
  "refines_handler E now c s \<longleftrightarrow>
     (\<exists>r s'. solo E now 25 (start c) s = (Returned r, s') \<and> shared_ok E s'
        \<and> handled E now c (engine_of s) = (r, closing E now c (engine_of s')))"

lemma refines_handlerI:
  "gets_to E now n (start c) s (Returned r) s' \<Longrightarrow> n \<le> 25 \<Longrightarrow> shared_ok E s' \<Longrightarrow>
     handled E now c (engine_of s) = (r, closing E now c (engine_of s')) \<Longrightarrow> refines_handler E now c s"
  unfolding refines_handler_def using gets_to_returned[OF gets_to_more] by blast

lemma refines_hset: "shared_ok E s \<Longrightarrow> refines_handler E now (Call_hset key field val) s"
proof -
  let ?c = "Call_hset key field val"
  assume ok: "shared_ok E s"
  have new: "makes_new ?c" by (simp add: makes_new_def)
  obtain p s1 where opened: "gets_to E now 5 (At_look ?c) s (At_act ?c p) s1" "shared_ok E s1"
      "dm_get (env_hash E) key (pointers s1) = Some p"
      "find_or_insert E (hash_slot E) key (dm_new 16) (engine_of s) = (objects s1 ! p, engine_of s1)"
    using opened_new[OF ok new] by auto
  define m where "m = snd (dm_insert (env_hash E) field val (objects s1 ! p))"
  have m: "length (dm_shards m) = 16" by (simp add: m_def shared_okD(4)[OF opened(2,3)])
  note run = write_run[OF opened(2) _ m, of ?c p, simplified, OF opened(3)]
  have "thread_step E now (At_act ?c p) s1 = (persisting ?c p (Reply_ok True) s1, set_object p m s1)" by (simp add: m_def)
  note all = gets_to_trans[OF opened(1) gets_to_step[OF this run(1)]]
  have "handled E now ?c (engine_of s) = (Reply_ok True,
      check_memory_and_evict E now (persist_hash E key m (slot_insert E (hash_slot E) key m (engine_of s1))))"
    by (simp add: eng_hset_def opened(4) m_def Let_def)
  then show ?thesis
    by (intro refines_handlerI[where n = "5 + Suc 18", OF _ _ run(2)]) (use all in \<open>simp_all add: run(3) closing_def new\<close>)
qed

lemma refines_hdel: "shared_ok E s \<Longrightarrow> refines_handler E now (Call_hdel key field) s"
proof -
  let ?c = "Call_hdel key field"
  assume ok: "shared_ok E s"
  have new: "\<not> makes_new ?c" by (simp add: makes_new_def)
  show ?thesis
  proof (rule opened_load[OF ok new, of now], goal_cases)
    case (1 p s1)
    obtain b m where remove: "dm_remove (env_hash E) field (objects s1 ! p) = (b, m)" by fastforce
    have ptr: "dm_get (env_hash E) key (pointers s1) = Some p" using 1(3) by simp
    have m: "length (dm_shards m) = 16"
      using shared_okD(4)[OF 1(2) ptr] length_shards_write(2)[of "env_hash E" field "objects s1 ! p"] by (simp add: remove)
    note run = write_run[OF 1(2) _ m, of ?c p, simplified, OF ptr]
    have "thread_step E now (At_act ?c p) s1 = (persisting ?c p (Reply_ok b) s1, set_object p m s1)" by (simp add: remove)
    note all = gets_to_trans[OF 1(1) gets_to_step[OF this run(1)]]
    show ?case
      by (rule refines_handlerI[OF _ _ run(2)], simp only: start.simps, rule all)
         (use 1(4) in \<open>simp_all add: eng_hdel_def run(3) closing_def new remove\<close>)
  next
    case (2 r)
    then show ?case
      by (intro refines_handlerI[OF _ _ ok]) (auto simp: eng_hdel_def closing_def new)
  qed
qed

lemma refines_hincrby: "shared_ok E s \<Longrightarrow> refines_handler E now (Call_hincrby key field delta) s"
proof -
  let ?c = "Call_hincrby key field delta"
  assume ok: "shared_ok E s"
  have new: "\<not> makes_new ?c" by (simp add: makes_new_def)
  show ?thesis
  proof (rule opened_load[OF ok new, of now], goal_cases)
    case (1 p s1)
    have ptr: "dm_get (env_hash E) key (pointers s1) = Some p" using 1(3) by simp
    define n where "n = signed_take_bit 63
      ((case dm_get (env_hash E) field (objects s1 ! p) of None \<Rightarrow> 0 | Some v \<Rightarrow> strtoll v) + delta)"
    define m where "m = snd (dm_insert (env_hash E) field (to_string_int n) (objects s1 ! p))"
    have m: "length (dm_shards m) = 16" by (simp add: m_def shared_okD(4)[OF 1(2) ptr])
    note run = write_run[OF 1(2) _ m, of ?c p, simplified, OF ptr]
    have "thread_step E now (At_act ?c p) s1 = (At_store ?c p n, s1)" by (simp add: n_def Let_def)
    moreover have "thread_step E now (At_store ?c p n) s1 = (persisting ?c p (Reply_number n) s1, set_object p m s1)"
      by (simp add: m_def)
    ultimately have all: "gets_to E now (5 + Suc (Suc 18)) (At_look ?c) s (Returned (Reply_number n)) (persisted E key p (set_object p m s1))"
      using gets_to_trans[OF 1(1) gets_to_step[OF _ gets_to_step[OF _ run(1)]]] by blast
    have "handled E now ?c (engine_of s) = (Reply_number n, persist_hash E key m (slot_insert E (hash_slot E) key m (engine_of s1)))"
      unfolding handled.simps eng_hincrby_def 1(5)[OF missing.simps(4), unfolded hash_call.sel]
      by (simp add: n_def m_def Let_def)
    then show ?case
      by (intro refines_handlerI[where n = "5 + Suc (Suc 18)", OF _ _ run(2)]) (use all in \<open>simp_all add: run(3) closing_def new\<close>)
  next
    case (2 r)
    then show ?case by simp
  qed
qed

lemma meta_rest:
  "shared_ok E (s\<lparr>rest := (rest s)\<lparr>meta := mm\<rparr>\<rparr>) = shared_ok E s"
  "engine_of (s\<lparr>rest := (rest s)\<lparr>meta := mm\<rparr>\<rparr>) = (engine_of s)\<lparr>meta := mm\<rparr>"
  by (simp_all add: shared_ok_def engine_of_def)

lemma refines_hget: "shared_ok E s \<Longrightarrow> refines_handler E now (Call_hget key field) s"
proof -
  let ?c = "Call_hget key field"
  assume ok: "shared_ok E s"
  have new: "\<not> makes_new ?c" by (simp add: makes_new_def)
  show ?thesis
  proof (cases "dm_get (env_hash E) key (meta (rest s))")
    case None
    have "gets_to E now (Suc 0) (start ?c) s (Returned (Reply_value None)) s"
      by (rule gets_to_step[OF _ gets_to_refl]) (simp add: None)
    then show ?thesis
      by (rule refines_handlerI[OF _ _ ok]) (simp_all add: eng_hget_def valid_def is_valid_def None closing_def new)
  next
    case (Some md)
    show ?thesis
    proof (cases "is_expired now md")
      case True
      let ?s = "s\<lparr>rest := (rest s)\<lparr>meta := snd (dm_remove (env_hash E) key (meta (rest s)))\<rparr>\<rparr>"
      have "gets_to E now (Suc (Suc 0)) (start ?c) s (Returned (Reply_value None)) ?s"
        by (rule gets_to_step[where t' = "At_expire ?c" and s' = s, OF _ gets_to_step[OF _ gets_to_refl]]) (simp_all add: Some True)
      then show ?thesis
        by (rule refines_handlerI) (use ok in \<open>simp_all add: meta_rest eng_hget_def valid_def is_valid_def Some True closing_def new\<close>)
    next
      case False
      have check: "thread_step E now (start ?c) s = (At_look ?c, s)" by (simp add: Some False)
      have valid: "valid E now key (engine_of s) = (True, engine_of s)" by (simp add: valid_def is_valid_def Some False)
      show ?thesis
      proof (rule opened_load[OF ok new, of now], goal_cases)
        case (1 p s1)
        have "thread_step E now (At_act ?c p) s1 = (Returned (Reply_value (dm_get (env_hash E) field (objects s1 ! p))), s1)" by simp
        then show ?case
          using 1(4) by (intro refines_handlerI[OF gets_to_step[OF check gets_to_trans[OF 1(1) gets_to_step[OF _ gets_to_refl[where n = 0]]]] _ 1(2)])
            (simp_all add: eng_hget_def valid closing_def new)
      next
        case (2 r)
        then show ?case
          by (intro refines_handlerI[OF gets_to_step[OF check 2(1)] _ ok]) (auto simp: eng_hget_def valid closing_def new)
      qed
    qed
  qed
qed

text \<open>The steps of the handler alone: after at most 25 of them it has its answer, and the handler's state before the check that ends
  \<^verbatim>\<open>hset\<close>.  \<open>Hash_Checks\<close> adds the steps of that check.\<close>

lemma handler_alone:
  assumes "shared_ok E s"
  shows "\<exists>r s'. solo E now 25 (start c) s = (Returned r, s') \<and> shared_ok E s'
    \<and> handled E now c (engine_of s) = (r, closing E now c (engine_of s'))"
  using refines_hset[OF assms] refines_hget[OF assms] refines_hdel[OF assms] refines_hincrby[OF assms]
  by (cases c) (simp_all add: refines_handler_def)

section \<open>Every call returns\<close>

text \<open>The steps a thread still takes, at most, and the objects it holds.\<close>

fun steps_left :: "thread \<Rightarrow> nat" where
  "steps_left (At_check c) = 26" | "steps_left (At_look c) = 25" | "steps_left (At_load c) = 24"
| "steps_left (At_publish c p) = 23" | "steps_left (At_version c p) = 22" | "steps_left (At_register c p n) = 21"
| "steps_left (At_act c p) = 20" | "steps_left (At_store c p n) = 19" | "steps_left (At_scan key p i all r) = 18 - min i 16"
| "steps_left (At_put key all r) = 1" | "steps_left (At_expire c) = 1" | "steps_left (Returned r) = 0"

fun holds :: "thread \<Rightarrow> nat set" where
  "holds (At_publish c p) = {p}" | "holds (At_version c p) = {p}" | "holds (At_register c p n) = {p}"
| "holds (At_act c p) = {p}" | "holds (At_store c p n) = {p}" | "holds (At_scan key p i all r) = {p}" | "holds _ = {}"

definition heap_ok :: "('doc, 'ix, 'db) env \<Rightarrow> ('ix, 'db) shared \<Rightarrow> bool" where
  "heap_ok E s \<longleftrightarrow>
     dm_ok (env_hash E) (pointers s) \<and>
     (\<forall>k p. dm_get (env_hash E) k (pointers s) = Some p \<longrightarrow> p < length (objects s)) \<and>
     (\<forall>m \<in> set (objects s). length (dm_shards m) = 16)"

lemma shared_heap_ok: "shared_ok E s \<Longrightarrow> heap_ok E s"
  by (auto simp: shared_ok_def heap_ok_def)

lemma heap_set_object:
  "heap_ok E s \<Longrightarrow> length (dm_shards m) = 16 \<Longrightarrow> heap_ok E (set_object p m s)"
  "length (objects (set_object p m s)) = length (objects s)"
  by (auto simp: heap_ok_def set_object_def dest!: set_update_subset_insert[THEN subsetD])

lemma length_new_hash: "length (dm_shards (dm_new 16 :: hash_value)) = 16"
  by (simp add: dm_new_def)

lemma loaded_shards: "load_hash E key (dm_new 16) e = (ok, m) \<Longrightarrow> length (dm_shards m) = 16"
  using length_shards_load[of E key "dm_new 16" e] by (simp add: length_new_hash)

lemma persisting_left: "steps_left (persisting c p r s) \<le> 18" "holds (persisting c p r s) \<subseteq> {p}"
  by (auto simp: persisting_def)

lemma act_left:
  assumes "act E c p s = (t', s')" "heap_ok E s" "p < length (objects s)"
  shows "heap_ok E s' \<and> length (objects s') = length (objects s) \<and> holds t' \<subseteq> {p} \<and> steps_left t' < 20"
proof -
  have p: "length (dm_shards (objects s ! p)) = 16" using assms(2,3) by (simp add: heap_ok_def)
  have left: "steps_left (persisting c p r s) < 20" for r using persisting_left(1)[of c p r s] by simp
  show ?thesis
    using assms(1,2) p left persisting_left(2)[of _ p _ s]
    by (cases c) (auto simp: split_beta Let_def heap_set_object)
qed

lemma step_left:
  assumes "thread_step E now t s = (t', s')" "heap_ok E s" "holds t \<subseteq> {..<length (objects s)}"
  shows "heap_ok E s' \<and> length (objects s) \<le> length (objects s') \<and> holds t' \<subseteq> {..<length (objects s')} \<and> steps_left t' \<le> steps_left t - 1"
proof (cases t)
  case (At_look c)
  then show ?thesis using assms
    by (auto simp: heap_ok_def new_object_def length_new_hash less_Suc_eq split: option.splits hash_call.splits)
next
  case (At_load c)
  obtain ok m where "load_hash E (call_key c) (dm_new 16) (rest s) = (ok, m)" by fastforce
  with At_load loaded_shards[OF this] show ?thesis using assms
    by (auto simp: heap_ok_def new_object_def less_Suc_eq split: option.splits bool.splits)
next
  case (At_publish c p)
  then show ?thesis using assms by (auto simp: heap_ok_def dm.lookup_insert split: if_splits)
next
  case (At_act c p)
  then show ?thesis using assms act_left[of E c p s t' s'] by auto
next
  case (At_store c p n)
  then show ?thesis
    using assms persisting_left[of c p "Reply_number n" s] by (auto simp: heap_set_object heap_ok_def[of E s])
next
  case (At_scan key p i all r)
  then have "length (dm_shards (objects s ! p)) = 16" using assms(2,3) by (simp add: heap_ok_def)
  then show ?thesis using At_scan assms by (auto split: if_splits)
qed (use assms in \<open>auto simp: heap_ok_def split: option.splits if_splits\<close>)

text \<open>A thread's own steps bring it forward, those of the others leave it where it is.\<close>

definition threads_ok :: "('doc, 'ix, 'db) env \<Rightarrow> thread list \<Rightarrow> ('ix, 'db) shared \<Rightarrow> bool" where
  "threads_ok E ts s \<longleftrightarrow> heap_ok E s \<and> (\<forall>t \<in> set ts. holds t \<subseteq> {..<length (objects s)})"

lemma threads_step:
  assumes "threads_ok E ts s" "i < length ts" "thread_step E now (ts ! i) s = (t', s')"
  shows "threads_ok E (ts[i := t']) s'" "steps_left t' \<le> steps_left (ts ! i) - 1"
proof -
  have i: "holds (ts ! i) \<subseteq> {..<length (objects s)}" using assms(1,2) by (simp add: threads_ok_def)
  note step = step_left[OF assms(3) _ i]
  then show "steps_left t' \<le> steps_left (ts ! i) - 1" using assms(1) by (simp add: threads_ok_def)
  show "threads_ok E (ts[i := t']) s'"
    using assms(1) step unfolding threads_ok_def
    by (auto dest!: set_update_subset_insert[THEN subsetD]) force+
qed

lemma interleave_left:
  assumes "threads_ok E ts s" "i < length ts"
  shows "steps_left (fst (interleave E sched ts s) ! i) \<le> steps_left (ts ! i) - length (filter (\<lambda>(j, _). j = i) sched)"
  using assms
proof (induction E sched ts s rule: interleave.induct)
  case (2 E j now sched ts s)
  show ?case
  proof (cases "j < length ts")
    case True
    obtain t' s' where step: "thread_step E now (ts ! j) s = (t', s')" by fastforce
    note next_ok = threads_step[OF 2(3) True step]
    have "steps_left (ts[j := t'] ! i) \<le> steps_left (ts ! i) - (if j = i then 1 else 0)"
      using True next_ok(2) 2(4) by (cases "j = i") simp_all
    moreover have "steps_left (fst (interleave E sched (ts[j := t']) s') ! i)
        \<le> steps_left (ts[j := t'] ! i) - length (filter (\<lambda>(j, _). j = i) sched)"
      using 2(1)[OF True step[symmetric] refl] next_ok(1) 2(4) by simp
    ultimately show ?thesis using True by (auto simp: step split: if_splits)
  next
    case False
    then show ?thesis using 2 by auto
  qed
qed simp

lemma start_left: "steps_left (start c) \<le> 26" "holds (start c) = {}"
  by (cases c; simp)+

lemma left_returned: "steps_left t = 0 \<longleftrightarrow> (\<exists>r. t = Returned r)"
  by (cases t) auto

lemma starts_ok: "heap_ok E s \<Longrightarrow> threads_ok E (map start cs) s"
  by (auto simp: threads_ok_def start_left)

lemma enough_steps_return:
  assumes "heap_ok E s" "i < length cs" "26 \<le> length (filter (\<lambda>(j, _). j = i) sched)"
  shows "\<exists>r. fst (interleave E sched (map start cs) s) ! i = Returned r"
proof -
  have "steps_left (fst (interleave E sched (map start cs) s) ! i) = 0"
    using interleave_left[OF starts_ok[OF assms(1)], of i cs sched] start_left(1)[of "cs ! i"] assms(2,3) by simp
  then show ?thesis by (simp add: left_returned)
qed

section \<open>Writes that are safe\<close>

fun writes :: "str \<Rightarrow> str \<Rightarrow> hash_call \<Rightarrow> bool" where
  "writes key field (Call_hget _ _) = False"
| "writes key field c = (call_key c = key \<and> call_field c = field)"

text \<open>The key has its object already, and no other key has it.\<close>

definition pinned :: "('doc, 'ix, 'db) env \<Rightarrow> str \<Rightarrow> nat \<Rightarrow> ('ix, 'db) shared \<Rightarrow> bool" where
  "pinned E key p s \<longleftrightarrow>
     dm_ok (env_hash E) (pointers s) \<and> p < length (objects s) \<and> dm_ok (env_hash E) (objects s ! p) \<and>
     (\<forall>k. dm_get (env_hash E) k (pointers s) = Some p \<longleftrightarrow> k = key)"

text \<open>A thread of the key can only be using this object, one of another key never is.\<close>

fun keeps_to :: "str \<Rightarrow> nat \<Rightarrow> (hash_call \<Rightarrow> bool) \<Rightarrow> thread \<Rightarrow> bool" where
  "keeps_to key p ok (At_check c) = (ok c \<and> is_Call_hget c)"
| "keeps_to key p ok (At_expire c) = (ok c \<and> is_Call_hget c)"
| "keeps_to key p ok (At_look c) = ok c"
| "keeps_to key p ok (At_load c) = (ok c \<and> call_key c \<noteq> key)"
| "keeps_to key p ok (At_publish c q) = (ok c \<and> call_key c \<noteq> key \<and> q \<noteq> p)"
| "keeps_to key p ok (At_version c q) = (ok c \<and> call_key c \<noteq> key \<and> q \<noteq> p)"
| "keeps_to key p ok (At_register c q n) = (ok c \<and> call_key c \<noteq> key \<and> q \<noteq> p)"
| "keeps_to key p ok (At_act c q) = (ok c \<and> (call_key c = key \<longleftrightarrow> q = p))"
| "keeps_to key p ok (At_store c q n) = (ok c \<and> is_Call_hincrby c \<and> (call_key c = key \<longleftrightarrow> q = p))"
| "keeps_to key p ok _ = True"

definition at_field :: "('doc, 'ix, 'db) env \<Rightarrow> str \<Rightarrow> nat \<Rightarrow> ('ix, 'db) shared \<Rightarrow> str option" where
  "at_field E field p s = dm_get (env_hash E) field (objects s ! p)"

lemma pinned_frame:
  "pinned E key p s \<Longrightarrow> pinned E key p (s\<lparr>rest := e\<rparr>)"
  "at_field E field p (s\<lparr>rest := e\<rparr>) = at_field E field p s"
  by (simp_all add: pinned_def at_field_def)

lemma pinned_other:
  assumes "pinned E key p s" "q \<noteq> p"
  shows "pinned E key p (set_object q m s)" "at_field E field p (set_object q m s) = at_field E field p s"
  using assms by (simp_all add: pinned_def at_field_def set_object_def)

lemma pinned_new:
  assumes "pinned E key p s"
  shows "pinned E key p (s\<lparr>objects := objects s @ [m]\<rparr>)" "at_field E field p (s\<lparr>objects := objects s @ [m]\<rparr>) = at_field E field p s"
    "length (objects s) \<noteq> p"
  using assms by (auto simp: pinned_def at_field_def nth_append)

lemma pinned_publish:
  assumes "pinned E key p s" "k \<noteq> key" "q \<noteq> p"
  shows "pinned E key p (s\<lparr>pointers := snd (dm_insert (env_hash E) k q (pointers s))\<rparr>)"
  using assms by (auto simp: pinned_def dm.lookup_insert)

lemma pinned_write:
  assumes "pinned E key p s"
  shows "pinned E key p (set_object p (snd (dm_insert (env_hash E) f v (objects s ! p))) s)"
    "at_field E field p (set_object p (snd (dm_insert (env_hash E) f v (objects s ! p))) s) =
       (if field = f then Some v else at_field E field p s)"
    "pinned E key p (set_object p (snd (dm_remove (env_hash E) f (objects s ! p))) s)"
    "at_field E field p (set_object p (snd (dm_remove (env_hash E) f (objects s ! p))) s) =
       (if field = f then None else at_field E field p s)"
  using assms by (auto simp: pinned_def at_field_def set_object_def dm.lookup_insert dm.lookup_remove)

lemma persisting_keeps: "keeps_to key p ok (persisting c q r s)"
  by (simp add: persisting_def)

lemma act_keeps:
  assumes "act E c q s = (t', s')" "pinned E key p s" "ok c" "call_key c = key \<longleftrightarrow> q = p"
  shows "pinned E key p s' \<and> keeps_to key p ok t'
    \<and> (\<not> writes key field c \<longrightarrow> at_field E field p s' = at_field E field p s)
    \<and> (c = Call_hset key field v \<longrightarrow> at_field E field p s' = Some v)"
proof (cases "q = p")
  case True
  with assms show ?thesis by (cases c) (auto simp: split_beta Let_def pinned_write persisting_keeps)
next
  case False
  with assms show ?thesis by (cases c) (auto simp: split_beta Let_def pinned_other persisting_keeps)
qed

lemma pinned_get:
  assumes "pinned E key p s"
  shows "dm_get (env_hash E) key (pointers s) = Some p"
    and "dm_get (env_hash E) k (pointers s) = Some q \<Longrightarrow> k = key \<longleftrightarrow> q = p"
proof -
  have get: "dm_get (env_hash E) k (pointers s) = Some p \<longleftrightarrow> k = key" for k
    using assms unfolding pinned_def by blast
  then show key: "dm_get (env_hash E) key (pointers s) = Some p" by blast
  show "k = key \<longleftrightarrow> q = p" if "dm_get (env_hash E) k (pointers s) = Some q"
    using that key get[of k] by (metis option.inject)
qed

lemma step_keeps:
  assumes "thread_step E now t s = (t', s')" "pinned E key p s" "keeps_to key p ok t"
  shows "pinned E key p s' \<and> keeps_to key p ok t'"
proof (cases t)
  case (At_look c)
  show ?thesis
  proof (cases "dm_get (env_hash E) (call_key c) (pointers s)")
    case None
    then have "call_key c \<noteq> key" using pinned_get(1)[OF assms(2)] by auto
    then show ?thesis using At_look assms None pinned_new[OF assms(2)]
      by (cases c) (auto simp: new_object_def)
  next
    case (Some q)
    then show ?thesis using At_look assms pinned_get(2)[OF assms(2) Some] by auto
  qed
next
  case (At_load c)
  then show ?thesis using assms pinned_new[OF assms(2)]
    by (auto simp: new_object_def split_beta split: option.splits bool.splits)
next
  case (At_act c q)
  then show ?thesis using assms act_keeps[of E c q s t' s' key p ok] by simp
next
  case (At_store c q n)
  then show ?thesis using assms pinned_write(1)[OF assms(2)] pinned_other(1)[OF assms(2)]
    by (cases "q = p") (auto simp: persisting_keeps)
qed (use assms in \<open>auto simp: pinned_frame pinned_publish split: option.splits if_splits\<close>)

lemma step_of_others:
  assumes "thread_step E now t s = (t', s')" "pinned E key p s" "keeps_to key p (\<lambda>c. \<not> writes key field c) t"
  shows "at_field E field p s' = at_field E field p s"
proof (cases t)
  case (At_look c)
  then show ?thesis using assms pinned_new(2)[OF assms(2)]
    by (auto simp: new_object_def split: option.splits hash_call.splits)
next
  case (At_load c)
  then show ?thesis using assms pinned_new(2)[OF assms(2)]
    by (auto simp: new_object_def split_beta split: option.splits bool.splits)
next
  case (At_act c q)
  then show ?thesis using assms act_keeps[of E c q s t' s' key p "\<lambda>c. \<not> writes key field c"] by auto
next
  case (At_store c q n)
  then show ?thesis using assms pinned_write(2)[OF assms(2)] pinned_other(2)[OF assms(2)]
    by (cases c; cases "q = p") auto
next
  case (At_publish c q)
  then show ?thesis using assms by (auto simp: at_field_def)
qed (use assms in \<open>auto simp: pinned_frame split: option.splits if_splits\<close>)

text \<open>The thread of \<^verbatim>\<open>hset\<close> has written once it persists the hash or has returned.\<close>

fun has_acted :: "thread \<Rightarrow> bool" where
  "has_acted (At_scan _ _ _ _ _) = True" | "has_acted (At_put _ _ _) = True" | "has_acted (Returned _) = True" | "has_acted _ = False"

lemma step_of_writer:
  assumes "thread_step E now t s = (t', s')" "pinned E key p s" "keeps_to key p (\<lambda>c. c = Call_hset key field v) t"
    and "has_acted t \<Longrightarrow> at_field E field p s = Some v" "has_acted t'"
  shows "at_field E field p s' = Some v"
proof (cases t)
  case (At_look c)
  then show ?thesis using assms by (auto simp: new_object_def split: option.splits)
next
  case (At_act c q)
  then show ?thesis using assms act_keeps[of E c q s t' s' key p "\<lambda>c. c = Call_hset key field v"] by auto
qed (use assms in \<open>auto simp: pinned_frame split: option.splits if_splits\<close>)

lemma start_keeps: "ok c \<Longrightarrow> keeps_to key p ok (start c)"
  by (cases c) simp_all

section \<open>Writes that are lost\<close>

lemma interleave_append:
  "interleave E (a @ b) ts s = (let (ts', s') = interleave E a ts s in interleave E b ts' s')"
  by (induction E a ts s rule: interleave.induct) (auto simp: split_beta Let_def)

lemma interleave_solo:
  "i < length ts \<Longrightarrow> interleave E (replicate n (i, now)) ts s = (let (t', s') = solo E now n (ts ! i) s in (ts[i := t'], s'))"
  by (induction n arbitrary: ts s) (simp_all add: split_beta Let_def)

text \<open>What \<^verbatim>\<open>hset\<close> leaves when it runs to its end from the middle.\<close>

definition stored :: "('doc, 'ix, 'db) env \<Rightarrow> str \<Rightarrow> nat \<Rightarrow> str \<Rightarrow> str \<Rightarrow> ('ix, 'db) shared \<Rightarrow> ('ix, 'db) shared" where
  "stored E key p field v s = persisted E key p (set_object p (snd (dm_insert (env_hash E) field v (objects s ! p))) s)"

lemma finish_hset:
  assumes "length (dm_shards (objects s ! p)) = 16" "p < length (objects s)"
  shows "solo E now 24 (At_act (Call_hset key field v) p) s = (Returned (Reply_ok True), stored E key p field v s)"
    and "solo E now 24 (At_publish (Call_hset key field v) p) s = (Returned (Reply_ok True), stored E key p field v (linked E key p s))"
proof -
  let ?c = "Call_hset key field v"
  have act: "gets_to E now (Suc 18) (At_act ?c p) s (Returned (Reply_ok True)) (stored E key p field v s)"
    if "length (dm_shards (objects s ! p)) = 16" "p < length (objects s)" for s
  proof (rule gets_to_step)
    let ?s = "set_object p (snd (dm_insert (env_hash E) field v (objects s ! p))) s"
    show "thread_step E now (At_act ?c p) s = (persisting ?c p (Reply_ok True) s, ?s)" by simp
    show "gets_to E now 18 (persisting ?c p (Reply_ok True) s) ?s (Returned (Reply_ok True)) (stored E key p field v s)"
      unfolding stored_def using persisting_run[of ?s p s E now ?c] that by (simp add: set_object_def)
  qed
  show "solo E now 24 (At_act ?c p) s = (Returned (Reply_ok True), stored E key p field v s)"
    by (rule gets_to_returned[OF gets_to_more[OF act[OF assms]]]) simp
  have "gets_to E now (3 + Suc 18) (At_publish ?c p) s (Returned (Reply_ok True)) (stored E key p field v (linked E key p s))"
    using gets_to_trans[OF linked_run[of E now ?c p s] act] assms by (simp add: linked_def)
  then show "solo E now 24 (At_publish ?c p) s = (Returned (Reply_ok True), stored E key p field v (linked E key p s))"
    by (intro gets_to_returned[OF gets_to_more[where n = "3 + Suc 18"]]) simp_all
qed

lemma stored_frame:
  "objects (stored E key p field v s) = (objects s)[p := snd (dm_insert (env_hash E) field v (objects s ! p))]"
  "pointers (stored E key p field v s) = pointers s"
  "objects (linked E key p s) = objects s"
  "pointers (linked E key p s) = snd (dm_insert (env_hash E) key p (pointers s))"
  by (simp_all add: stored_def persisted_def set_object_def linked_def)

text \<open>
  C33. The first writes to a hash race.  When the key has no hash yet, two threads that set different fields can both look
  first and both make a hash; the second one replaces the first in the map.  Both calls answer that they have succeeded, and
  the field of the first is gone.
\<close>

theorem first_hsets_race:
  assumes "shared_ok E s" "dm_get (env_hash E) key (pointers s) = None" "f1 \<noteq> f2"
  shows "\<exists>sched s' h. interleave E sched [start (Call_hset key f1 v1), start (Call_hset key f2 v2)] s =
      ([Returned (Reply_ok True), Returned (Reply_ok True)], s')
    \<and> slot_get E (hash_slot E) key (engine_of s') = Some h
    \<and> dm_get (env_hash E) f1 h = None \<and> dm_get (env_hash E) f2 h = Some v2"
proof -
  fix now :: int
  let ?c1 = "Call_hset key f1 v1" and ?c2 = "Call_hset key f2 v2" and ?new = "dm_new 16 :: hash_value"
  define n where "n = length (objects s)"
  define s1 where "s1 = s\<lparr>objects := objects s @ [?new, ?new]\<rparr>"
  define s2 where "s2 = stored E key n f1 v1 (linked E key n s1)"
  define s3 where "s3 = stored E key (Suc n) f2 v2 (linked E key (Suc n) s2)"
  have objects: "length (objects s1) = n + 2" "objects s1 ! n = ?new" "objects s1 ! Suc n = ?new"
    by (simp_all add: s1_def n_def nth_append)
  have objects2: "length (objects s2) = n + 2" "objects s2 ! Suc n = ?new"
    using objects by (simp_all add: s2_def stored_frame)
  have looks: "interleave E [(0, now), (1, now)] [At_look ?c1, At_look ?c2] s = ([At_publish ?c1 n, At_publish ?c2 (Suc n)], s1)"
    using assms(2) by (simp add: new_object_def n_def s1_def)
  have first: "interleave E (replicate 24 (0, now)) [At_publish ?c1 n, At_publish ?c2 (Suc n)] s1 =
      ([Returned (Reply_ok True), At_publish ?c2 (Suc n)], s2)"
    by (subst interleave_solo) (simp_all add: finish_hset(2) objects length_new_hash s2_def)
  have second: "interleave E (replicate 24 (1, now)) [Returned (Reply_ok True), At_publish ?c2 (Suc n)] s2 =
      ([Returned (Reply_ok True), Returned (Reply_ok True)], s3)"
    by (subst interleave_solo) (simp_all add: finish_hset(2) objects2 length_new_hash s3_def)
  have run: "interleave E ([(0, now), (1, now)] @ replicate 24 (0, now) @ replicate 24 (1, now)) [At_look ?c1, At_look ?c2] s =
      ([Returned (Reply_ok True), Returned (Reply_ok True)], s3)"
    unfolding interleave_append looks prod.case Let_def first second ..
  have ok: "dm_ok (env_hash E) (pointers s)" by (rule shared_okD(1)[OF assms(1)])
  have "slot_get E (hash_slot E) key (engine_of s3) = Some (snd (dm_insert (env_hash E) f2 v2 ?new))"
    using objects2 by (simp add: slot_get_def hash_slot_def engine_of_def s3_def s2_def s1_def stored_frame dm_get_map dm.lookup_insert ok n_def)
  moreover have "dm_get (env_hash E) f1 (snd (dm_insert (env_hash E) f2 v2 ?new)) = None"
    "dm_get (env_hash E) f2 (snd (dm_insert (env_hash E) f2 v2 ?new)) = Some v2"
    using assms(3) by (simp_all add: dm.lookup_insert dm_new_spec dm_get_new)
  ultimately show ?thesis using run unfolding start.simps by (intro exI conjI)
qed

text \<open>
  C34. Writes to the database race.  Two threads that set different fields of a hash in memory can store it in the other
  order than they read it: both calls answer that they have succeeded and memory has both fields, but the stored form is the
  one without the second field, so a restart loses it.
\<close>

theorem stale_hash_stored:
  assumes "shared_ok E s" "dm_get (env_hash E) key (pointers s) = Some p" "dm_ok (env_hash E) (objects s ! p)"
    and "db_ready E C (rest s)" "rocksdb (rest s) \<noteq> None" "f1 \<noteq> f2" "dm_get (env_hash E) f2 (objects s ! p) = None"
  shows "\<exists>sched s' h m. interleave E sched [start (Call_hset key f1 v1), start (Call_hset key f2 v2)] s =
      ([Returned (Reply_ok True), Returned (Reply_ok True)], s')
    \<and> slot_get E (hash_slot E) key (engine_of s') = Some h \<and> dm_get (env_hash E) f1 h = Some v1 \<and> dm_get (env_hash E) f2 h = Some v2
    \<and> db_get E key (rest s') = Some (serialize_hash (env_order E) m) \<and> dm_get (env_hash E) f2 m = None"
proof -
  fix now :: int
  let ?m = "objects s ! p" and ?h = "env_hash E"
  have p: "p < length (objects s)" "length (dm_shards ?m) = 16" by (rule shared_okD(2,4)[OF assms(1,2)])+
  have ok: "dm_ok ?h (pointers s)" by (rule shared_okD(1)[OF assms(1)])
  obtain d where d: "rocksdb (rest s) = Some d" using assms(5) by auto
  define m1 where "m1 = snd (dm_insert ?h f1 v1 ?m)"
  define m2 where "m2 = snd (dm_insert ?h f2 v2 m1)"
  have shards: "length (dm_shards m1) = 16" by (simp add: m1_def p)
  let ?c1 = "Call_hset key f1 v1" and ?c2 = "Call_hset key f2 v2"
  let ?put = "At_put key (dm_all_entries (env_order E) m1) (Reply_ok True)"
  define s1 where "s1 = set_object p m1 s"
  define s2 where "s2 = stored E key p f2 v2 s1"
  define s3 where "s3 = s2\<lparr>rest := db_put E key (serialize_hash (env_order E) m1) (rest s2)\<rparr>"
  have s1: "objects s1 ! p = m1" "p < length (objects s1)" "pointers s1 = pointers s" "rest s1 = rest s"
    by (simp_all add: s1_def set_object_def p)
  have "solo E now (2 + 17) (At_look ?c1) s = (?put, s1)"
    using scan_exact[of 0 s1 p E now key "[]" "Reply_ok True"] shards assms(2)
    by (subst solo_add) (simp add: numeral_2_eq_2 persisting_def d s1 dm_all_entries_def flip: m1_def s1_def)
  then have first: "interleave E (replicate 19 (0, now)) [At_look ?c1, At_look ?c2] s = ([?put, At_look ?c2], s1)"
    by (subst interleave_solo) simp_all
  have "solo E now (1 + 24) (At_look ?c2) s1 = (Returned (Reply_ok True), s2)"
    using finish_hset(1)[of s1 p E now key f2 v2] s1 shards assms(2) by (subst solo_add) (simp add: s2_def)
  then have second: "interleave E (replicate 25 (1, now)) [?put, At_look ?c2] s1 = ([?put, Returned (Reply_ok True)], s2)"
    by (subst interleave_solo) simp_all
  have third: "interleave E [(0, now)] [?put, Returned (Reply_ok True)] s2 = ([Returned (Reply_ok True), Returned (Reply_ok True)], s3)"
    by (simp add: s3_def write_entries_hash)
  have run: "interleave E (replicate 19 (0, now) @ replicate 25 (1, now) @ [(0, now)]) [At_look ?c1, At_look ?c2] s =
      ([Returned (Reply_ok True), Returned (Reply_ok True)], s3)"
    unfolding interleave_append first prod.case Let_def second third ..
  have "slot_get E (hash_slot E) key (engine_of s3) = Some m2"
    using s1 assms(2) by (simp add: slot_get_def hash_slot_def engine_of_def s3_def s2_def stored_frame dm_get_map ok m2_def)
  moreover have "dm_get ?h f1 m2 = Some v1" "dm_get ?h f2 m2 = Some v2" "dm_get ?h f2 m1 = None"
    using assms(3,6,7) by (simp_all add: m1_def m2_def dm.lookup_insert)
  moreover have "db_get E key (rest s3) = Some (serialize_hash (env_order E) m1)"
    using assms(4,5) by (simp add: s3_def s2_def stored_def persisted_def set_object_def persist_hash_def persist_value_def s1
        db_get_put[where C = C] db_ready_frame) (simp add: db_put_def d)
  ultimately show ?thesis using run unfolding start.simps by (intro exI conjI)
qed

text \<open>
  Increments race.  Two threads that increment one field of a hash in memory can both read it before either writes: both
  answer the same number, and the field counts one of the two increments.
\<close>

theorem hincrby_race:
  assumes "shared_ok E s" "dm_get (env_hash E) key (pointers s) = Some p" "dm_ok (env_hash E) (objects s ! p)"
    and "n = signed_take_bit 63 ((case dm_get (env_hash E) f (objects s ! p) of None \<Rightarrow> 0 | Some x \<Rightarrow> strtoll x) + delta)"
  shows "\<exists>sched s' h. interleave E sched [start (Call_hincrby key f delta), start (Call_hincrby key f delta)] s =
      ([Returned (Reply_number n), Returned (Reply_number n)], s')
    \<and> slot_get E (hash_slot E) key (engine_of s') = Some h \<and> dm_get (env_hash E) f h = Some (to_string_int n)"
proof -
  fix now :: int
  let ?c = "Call_hincrby key f delta" and ?h = "env_hash E" and ?v = "to_string_int n"
  define fin where "fin s = persisted E key p (set_object p (snd (dm_insert ?h f ?v (objects s ! p))) s)" for s
  have p: "p < length (objects s)" "length (dm_shards (objects s ! p)) = 16" by (rule shared_okD(2,4)[OF assms(1,2)])+
  have ok: "dm_ok ?h (pointers s)" by (rule shared_okD(1)[OF assms(1)])
  have frame: "objects (fin s) = (objects s)[p := snd (dm_insert ?h f ?v (objects s ! p))]" "pointers (fin s) = pointers s" for s
    by (simp_all add: fin_def persisted_def set_object_def)
  have finish: "solo E now 19 (At_store ?c p n) s = (Returned (Reply_number n), fin s)"
    if "p < length (objects s)" "length (dm_shards (objects s ! p)) = 16" for s
  proof -
    let ?s = "set_object p (snd (dm_insert ?h f ?v (objects s ! p))) s"
    have "gets_to E now 18 (persisting ?c p (Reply_number n) s) ?s (Returned (Reply_number n)) (fin s)"
      unfolding fin_def using persisting_run[of ?s p s E now ?c] that by (simp add: set_object_def)
    from gets_to_returned[OF this] have "solo E now (1 + 18) (At_store ?c p n) s = (Returned (Reply_number n), fin s)" by (subst solo_add) simp
    then show ?thesis by simp
  qed
  have reads: "interleave E [(0, now), (0, now), (1, now), (1, now)] [At_look ?c, At_look ?c] s = ([At_store ?c p n, At_store ?c p n], s)"
    using assms(2,4) by simp
  have first: "interleave E (replicate 19 (0, now)) [At_store ?c p n, At_store ?c p n] s =
      ([Returned (Reply_number n), At_store ?c p n], fin s)"
    by (subst interleave_solo) (simp_all add: finish[OF p])
  have "p < length (objects (fin s))" "length (dm_shards (objects (fin s) ! p)) = 16" using p by (simp_all add: frame)
  note second_run = finish[OF this]
  have second: "interleave E (replicate 19 (1, now)) [Returned (Reply_number n), At_store ?c p n] (fin s) =
      ([Returned (Reply_number n), Returned (Reply_number n)], fin (fin s))"
    by (subst interleave_solo) (simp_all add: second_run)
  have run: "interleave E ([(0, now), (0, now), (1, now), (1, now)] @ replicate 19 (0, now) @ replicate 19 (1, now))
      [At_look ?c, At_look ?c] s = ([Returned (Reply_number n), Returned (Reply_number n)], fin (fin s))"
    unfolding interleave_append reads prod.case Let_def first second ..
  have "slot_get E (hash_slot E) key (engine_of (fin (fin s))) = Some (snd (dm_insert ?h f ?v (snd (dm_insert ?h f ?v (objects s ! p)))))"
    using p assms(2) by (simp add: slot_get_def hash_slot_def engine_of_def frame dm_get_map ok)
  moreover have "dm_get ?h f (snd (dm_insert ?h f ?v (snd (dm_insert ?h f ?v (objects s ! p))))) = Some ?v"
    using assms(3) by (simp add: dm.lookup_insert)
  ultimately show ?thesis using run unfolding start.simps by (intro exI conjI)
qed

section \<open>The statements at concrete states\<close>

definition no_hashes :: "(unit, (str \<times> str) list) shared" where
  "no_hashes = \<lparr>rest = sample_engine, pointers = dm_new 2, objects = []\<rparr>"

definition one_hash :: "(unit, (str \<times> str) list) shared" where
  "one_hash = created sample_env [1] (dm_new 16) no_hashes"

lemma no_hashes: "shared_ok sample_env no_hashes" "dm_get (env_hash sample_env) k (pointers no_hashes) = None"
  by (simp_all add: shared_ok_def no_hashes_def dm_new_spec dm_get_new)

lemma one_hash:
  "shared_ok sample_env one_hash" "dm_get (env_hash sample_env) [1] (pointers one_hash) = Some 0"
  "objects one_hash ! 0 = dm_new 16" "db_ready sample_env map_of (rest one_hash)" "rocksdb (rest one_hash) \<noteq> None"
proof -
  note created = created_spec(1,2)[OF no_hashes(1) length_new_hash, of "[1]", folded one_hash_def]
  show "shared_ok sample_env one_hash" "dm_get (env_hash sample_env) [1] (pointers one_hash) = Some 0"
    using created by (simp_all add: no_hashes_def)
  show "objects one_hash ! 0 = dm_new 16" by (simp add: one_hash_def created_def no_hashes_def)
  show "db_ready sample_env map_of (rest one_hash)"
    using sample_engine(2) by (simp add: one_hash_def created_def no_hashes_def)
  show "rocksdb (rest one_hash) \<noteq> None"
    by (simp add: one_hash_def created_def no_hashes_def register_def sample_engine_def engine_new_def sample_options_def Let_def)
qed

theorem first_hsets_race_witness:
  "\<exists>sched s' h. interleave sample_env sched [start (Call_hset [1] [2] [3]), start (Call_hset [1] [4] [5])] no_hashes =
      ([Returned (Reply_ok True), Returned (Reply_ok True)], s')
    \<and> slot_get sample_env (hash_slot sample_env) [1] (engine_of s') = Some h
    \<and> dm_get (env_hash sample_env) [2] h = None \<and> dm_get (env_hash sample_env) [4] h = Some [5]"
  by (rule first_hsets_race[OF no_hashes]) simp

theorem stale_hash_stored_witness:
  "\<exists>sched s' h m. interleave sample_env sched [start (Call_hset [1] [2] [3]), start (Call_hset [1] [4] [5])] one_hash =
      ([Returned (Reply_ok True), Returned (Reply_ok True)], s')
    \<and> slot_get sample_env (hash_slot sample_env) [1] (engine_of s') = Some h
    \<and> dm_get (env_hash sample_env) [2] h = Some [3] \<and> dm_get (env_hash sample_env) [4] h = Some [5]
    \<and> db_get sample_env [1] (rest s') = Some (serialize_hash (env_order sample_env) m) \<and> dm_get (env_hash sample_env) [4] m = None"
  by (rule stale_hash_stored[OF one_hash(1,2) _ one_hash(4,5)]) (simp_all add: one_hash(3) dm_new_spec dm_get_new)

theorem hincrby_race_witness:
  "\<exists>sched s' h. interleave sample_env sched [start (Call_hincrby [1] [2] 5), start (Call_hincrby [1] [2] 5)] one_hash =
      ([Returned (Reply_number 5), Returned (Reply_number 5)], s')
    \<and> slot_get sample_env (hash_slot sample_env) [1] (engine_of s') = Some h \<and> dm_get (env_hash sample_env) [2] h = Some (to_string_int 5)"
  by (rule hincrby_race[OF one_hash(1,2)]) (simp_all add: one_hash(3) dm_new_spec dm_get_new signed_take_bit_int_eq_self)

end
