(* ===== verification/Hash_Checks.thy ===== *)
theory Hash_Checks
  imports Hash_Threads
begin

text \<open>
  The hash commands on several threads up to their return: after its own work \<^verbatim>\<open>hset\<close> calls \<^verbatim>\<open>check_memory_and_evict\<close> of
  \<^verbatim>\<open>src/engine.cpp\<close>, which first cleans up the expired keys.  The cleanup is a sequence of atomic calls too, so the keys it lists,
  the entries it finds expired and the values it removes can all have changed in between.  Here a thread goes through these
  calls as well.  In an engine without a memory limit that is the whole check; under a limit the rest of it is not split into
  steps, and the theorems are about engines without one.
\<close>

section \<open>Steps of the cleanup\<close>

text \<open>
  Where a thread is: in the steps of its handler, in \<^verbatim>\<open>GetAllKeys\<close> before a shard, before the \<^verbatim>\<open>IsValid\<close> of the first of the keys
  left, before the removal in \<^verbatim>\<open>IsValid\<close>, before one of the ten removals for a key that is not valid, before the counter
  \<^verbatim>\<open>expired_\<close>, in the part of the check that compares with the limit, or back with the reply.
\<close>

datatype call_state =
    Handling hash_call thread
  | Listing nat "str list" reply
  | Checking "str list" int reply
  | Expiring str "str list" int reply
  | Cleaning nat str "str list" int reply
  | Counting int reply
  | Evicting reply
  | Answered reply

definition begin_call :: "hash_call \<Rightarrow> call_state" where
  "begin_call c = Handling c (start c)"

text \<open>The ten removals of \<^verbatim>\<open>CleanupExpired\<close> for one key, in their order; the hash goes from the map of pointers.\<close>

definition clean_step :: "('doc, 'ix, 'db) env \<Rightarrow> nat \<Rightarrow> str \<Rightarrow> ('ix, 'db) shared \<Rightarrow> ('ix, 'db) shared" where
  "clean_step E j k s =
     (if j = 0 then s\<lparr>rest := snd (slot_remove E (bytes_slot E) k (rest s))\<rparr>
      else if j = 1 then s\<lparr>rest := snd (slot_remove E (zset_slot E) k (rest s))\<rparr>
      else if j = 2 then s\<lparr>rest := snd (slot_remove E (list_slot E) k (rest s))\<rparr>
      else if j = 3 then s\<lparr>pointers := snd (dm_remove (env_hash E) k (pointers s))\<rparr>
      else if j = 4 then s\<lparr>rest := snd (slot_remove E (set_slot E) k (rest s))\<rparr>
      else if j = 5 then s\<lparr>rest := snd (slot_remove E (stream_slot E 0) k (rest s))\<rparr>
      else if j = 6 then s\<lparr>rest := snd (slot_remove E (json_slot E) k (rest s))\<rparr>
      else if j = 7 then s\<lparr>rest := snd (slot_remove E (vector_slot E) k (rest s))\<rparr>
      else if j = 8 then s\<lparr>rest := forget_access k (rest s)\<rparr>
      else s\<lparr>rest := db_delete E k (rest s)\<rparr>)"

definition unlimited :: "('ix, 'db) shared \<Rightarrow> bool" where
  "unlimited s \<longleftrightarrow> max_mb (opts (rest s)) = 0 \<or> eviction (opts (rest s)) = kNoEviction"

text \<open>After the steps of the handler \<^verbatim>\<open>hset\<close> goes on with the check, the other commands return.\<close>

fun leave :: "hash_call \<Rightarrow> thread \<Rightarrow> call_state" where
  "leave c (Returned r) = (if is_Call_hset c then Listing 0 [] r else Answered r)"
| "leave c t = Handling c t"

fun full_step :: "('doc, 'ix, 'db) env \<Rightarrow> int \<Rightarrow> call_state \<Rightarrow> ('ix, 'db) shared \<Rightarrow> call_state \<times> ('ix, 'db) shared" where
  "full_step E now (Handling c t) s = (let (t', s') = thread_step E now t s in (leave c t', s'))"
| "full_step E now (Listing i keys r) s =
     (if i < length (dm_shards (meta (rest s)))
      then (Listing (i + 1) (keys @ shard_keys (env_order E) (dm_shards (meta (rest s)) ! i)) r, s)
      else (Checking keys 0 r, s))"
| "full_step E now (Checking [] cleaned r) s = (Counting cleaned r, s)"
| "full_step E now (Checking (k # ks) cleaned r) s =
     (case dm_get (env_hash E) k (meta (rest s)) of
        None \<Rightarrow> (Cleaning 0 k ks cleaned r, s)
      | Some md \<Rightarrow> (if is_expired now md then Expiring k ks cleaned r else Checking ks cleaned r, s))"
| "full_step E now (Expiring k ks cleaned r) s =
     (Cleaning 0 k ks cleaned r, s\<lparr>rest := (rest s)\<lparr>meta := snd (dm_remove (env_hash E) k (meta (rest s)))\<rparr>\<rparr>)"
| "full_step E now (Cleaning j k ks cleaned r) s =
     (if j < 9 then Cleaning (j + 1) k ks cleaned r else Checking ks (cleaned + 1) r, clean_step E j k s)"
| "full_step E now (Counting cleaned r) s =
     (if unlimited s then Answered r else Evicting r, s\<lparr>rest := (rest s)\<lparr>expired := expired (rest s) + cleaned\<rparr>\<rparr>)"
| "full_step E now (Evicting r) s = (Evicting r, s)"
| "full_step E now (Answered r) s = (Answered r, s)"

fun full_run ::
    "('doc, 'ix, 'db) env \<Rightarrow> (nat \<times> int) list \<Rightarrow> call_state list \<Rightarrow> ('ix, 'db) shared \<Rightarrow> call_state list \<times> ('ix, 'db) shared" where
  "full_run E [] ts s = (ts, s)"
| "full_run E ((i, now) # sched) ts s =
     (if i < length ts then (let (t, s') = full_step E now (ts ! i) s in full_run E sched (ts[i := t]) s')
      else full_run E sched ts s)"

section \<open>The cleanup alone\<close>

fun full_solo ::
    "('doc, 'ix, 'db) env \<Rightarrow> int \<Rightarrow> nat \<Rightarrow> call_state \<Rightarrow> ('ix, 'db) shared \<Rightarrow> call_state \<times> ('ix, 'db) shared" where
  "full_solo E now 0 t s = (t, s)"
| "full_solo E now (Suc n) t s = (let (t', s') = full_step E now t s in full_solo E now n t' s')"

lemma full_solo_add: "full_solo E now (n + k) t s = (let (t', s') = full_solo E now n t s in full_solo E now k t' s')"
  by (induction n arbitrary: t s) (simp_all add: split_beta Let_def)

definition arrives ::
    "('doc, 'ix, 'db) env \<Rightarrow> int \<Rightarrow> call_state \<Rightarrow> ('ix, 'db) shared \<Rightarrow> call_state \<Rightarrow> ('ix, 'db) shared \<Rightarrow> bool" where
  "arrives E now t s t' s' \<longleftrightarrow> (\<exists>n. full_solo E now n t s = (t', s'))"

lemma arrives_refl: "arrives E now t s t s"
  unfolding arrives_def by (rule exI[of _ 0]) simp

lemma arrives_step: "full_step E now t s = (t', s') \<Longrightarrow> arrives E now t' s' t'' s'' \<Longrightarrow> arrives E now t s t'' s''"
  unfolding arrives_def by (elim exE, rule_tac x = "Suc n" in exI) simp

lemma arrives_trans: "arrives E now t s t' s' \<Longrightarrow> arrives E now t' s' t'' s'' \<Longrightarrow> arrives E now t s t'' s''"
proof -
  assume "arrives E now t s t' s'" "arrives E now t' s' t'' s''"
  then obtain a b where "full_solo E now a t s = (t', s')" "full_solo E now b t' s' = (t'', s'')" by (auto simp: arrives_def)
  then have "full_solo E now (a + b) t s = (t'', s'')" by (simp add: full_solo_add)
  then show ?thesis unfolding arrives_def ..
qed

text \<open>The steps of the handler are steps of the call.\<close>

lemma handler_arrives:
  assumes "solo E now n t s = (Returned r, s')" "\<nexists>r. t = Returned r"
  shows "arrives E now (Handling c t) s (leave c (Returned r)) s'"
  using assms
proof (induction n arbitrary: t s)
  case (Suc n)
  obtain t1 s1 where step: "thread_step E now t s = (t1, s1)" by fastforce
  then have run: "solo E now n t1 s1 = (Returned r, s')" using Suc.prems(1) by simp
  have full: "full_step E now (Handling c t) s = (leave c t1, s1)" by (simp add: step)
  show ?case
  proof (cases "\<exists>r. t1 = Returned r")
    case True
    then show ?thesis using run arrives_step[OF full arrives_refl] by auto
  next
    case False
    then have "leave c t1 = Handling c t1" by (cases t1) simp_all
    then show ?thesis using Suc.IH[OF run False] arrives_step[OF full] by simp
  qed
qed simp

lemma listing_arrives:
  assumes "i \<le> length (dm_shards (meta (rest s)))"
  shows "arrives E now (Listing i keys r) s
    (Checking (keys @ concat (map (shard_keys (env_order E)) (drop i (dm_shards (meta (rest s)))))) 0 r) s"
  using assms
proof (induction "length (dm_shards (meta (rest s))) - i" arbitrary: i keys)
  case 0
  then show ?case by (intro arrives_step[OF _ arrives_refl]) simp
next
  case (Suc n)
  then have i: "i < length (dm_shards (meta (rest s)))" by simp
  have step: "full_step E now (Listing i keys r) s =
      (Listing (i + 1) (keys @ shard_keys (env_order E) (dm_shards (meta (rest s)) ! i)) r, s)" using i by simp
  have "n = length (dm_shards (meta (rest s))) - (i + 1)" using Suc.hyps(2) by simp
  from Suc.hyps(1)[OF this, of "keys @ shard_keys (env_order E) (dm_shards (meta (rest s)) ! i)"] i show ?case
    using arrives_step[OF step] by (simp add: Cons_nth_drop_Suc[symmetric])
qed

text \<open>Removing a key from the map of pointers removes its hash.\<close>

lemma dm_remove_map:
  assumes "dm_ok h m"
  shows "snd (dm_remove h k (dm_map f m)) = dm_map f (snd (dm_remove h k m))"
proof -
  let ?i = "shard_index h m k"
  have i: "dm_shards (dm_map f m) ! ?i = map (\<lambda>(k, v). (k, f v)) (dm_shards m ! ?i)"
    using dm_okD(1)[OF assms, of k] by (simp add: dm_map_def)
  then have "map_of (dm_shards (dm_map f m) ! ?i) k = map_option f (map_of (dm_shards m ! ?i) k)" by (simp add: map_of_map)
  moreover have "AList.delete k (map (\<lambda>(k, v). (k, f v)) s) = map (\<lambda>(k, v). (k, f v)) (AList.delete k s)" for s
    by (induction s) auto
  ultimately show ?thesis by (simp add: dm_remove_eq Let_def i) (simp add: dm_map_def map_update)
qed

lemma clean_step_frame:
  "objects (clean_step E j k s) = objects s" "meta (rest (clean_step E j k s)) = meta (rest s)"
  "opts (rest (clean_step E j k s)) = opts (rest s)"
  "pointers (clean_step E j k s) = (if j = 3 then snd (dm_remove (env_hash E) k (pointers s)) else pointers s)"
  by (simp_all add: clean_step_def slot_remove_def slot_defs forget_access_def db_delete_def split_beta Let_def split: option.splits)

lemma clean_step_ok: "shared_ok E s \<Longrightarrow> shared_ok E (clean_step E j k s)"
  by (auto simp: shared_ok_def clean_step_frame dm.lookup_remove)

lemma engine_clean:
  assumes "shared_ok E s"
  shows "engine_of (clean_step E 0 k s) = snd (slot_remove E (bytes_slot E) k (engine_of s))"
    "engine_of (clean_step E 1 k s) = snd (slot_remove E (zset_slot E) k (engine_of s))"
    "engine_of (clean_step E 2 k s) = snd (slot_remove E (list_slot E) k (engine_of s))"
    "engine_of (clean_step E 3 k s) = snd (slot_remove E (hash_slot E) k (engine_of s))"
    "engine_of (clean_step E 4 k s) = snd (slot_remove E (set_slot E) k (engine_of s))"
    "engine_of (clean_step E 5 k s) = snd (slot_remove E (stream_slot E 0) k (engine_of s))"
    "engine_of (clean_step E 6 k s) = snd (slot_remove E (json_slot E) k (engine_of s))"
    "engine_of (clean_step E 7 k s) = snd (slot_remove E (vector_slot E) k (engine_of s))"
    "engine_of (clean_step E 8 k s) = forget_access k (engine_of s)"
    "engine_of (clean_step E 9 k s) = db_delete E k (engine_of s)"
  using shared_okD(1)[OF assms]
  by (simp_all add: clean_step_def engine_of_def slot_remove_def slot_defs forget_access_def db_delete_def split_beta Let_def dm_remove_map
      split: option.splits)

lemma engine_cleaned:
  assumes "shared_ok E s"
  shows "engine_of (clean_step E 9 k (clean_step E 8 k (clean_step E 7 k (clean_step E 6 k (clean_step E 5 k (clean_step E 4 k (clean_step E 3 k (clean_step E 2 k (clean_step E 1 k (clean_step E 0 k s)))))))))) =
    db_delete E k (forget_access k (snd (remove_everywhere E k (engine_of s))))"
  using assms by (simp add: engine_clean clean_step_ok remove_everywhere_def split_beta Let_def del: One_nat_def)

text \<open>The ten removals are the ones of the sequential model.\<close>

lemma cleaning_arrives:
  assumes "shared_ok E s"
  shows "\<exists>s'. arrives E now (Cleaning 0 k ks n r) s (Checking ks (n + 1) r) s' \<and> shared_ok E s' \<and>
    engine_of s' = db_delete E k (forget_access k (snd (remove_everywhere E k (engine_of s)))) \<and> opts (rest s') = opts (rest s)"
proof -
  define t where "t j = rec_nat s (\<lambda>i. clean_step E i k) j" for j
  have t0: "t 0 = s" and tS: "t (Suc j) = clean_step E j k (t j)" for j by (simp_all add: t_def)
  have ok: "shared_ok E (t j)" for j by (induction j) (simp_all add: t0 tS assms clean_step_ok)
  have same: "opts (rest (t j)) = opts (rest s)" for j by (induction j) (simp_all add: t0 tS clean_step_frame(3))
  have go: "arrives E now (Cleaning 0 k ks n r) s (Cleaning j k ks n r) (t j)" if "j \<le> 9" for j
    using that
  proof (induction j)
    case (Suc j)
    have "full_step E now (Cleaning j k ks n r) (t j) = (Cleaning (Suc j) k ks n r, t (Suc j))" using Suc.prems by (simp add: tS)
    from arrives_trans[OF Suc.IH arrives_step[OF this arrives_refl]] show ?case using Suc.prems by simp
  qed (simp add: t0 arrives_refl)
  have "full_step E now (Cleaning 9 k ks n r) (t 9) = (Checking ks (n + 1) r, t (Suc 9))" by (simp only: tS full_step.simps) simp
  then have all: "arrives E now (Cleaning 0 k ks n r) s (Checking ks (n + 1) r) (t (Suc 9))"
    using arrives_trans[OF go[of 9] arrives_step[OF _ arrives_refl]] by simp
  have steps: "t 1 = clean_step E 0 k (t 0)" "t 2 = clean_step E 1 k (t 1)" "t 3 = clean_step E 2 k (t 2)" "t 4 = clean_step E 3 k (t 3)"
    "t 5 = clean_step E 4 k (t 4)" "t 6 = clean_step E 5 k (t 5)" "t 7 = clean_step E 6 k (t 6)" "t 8 = clean_step E 7 k (t 7)"
    "t 9 = clean_step E 8 k (t 8)" "t 10 = clean_step E 9 k (t 9)"
    unfolding tS[symmetric] by (simp_all add: eval_nat_numeral)
  have "engine_of (t 10) = db_delete E k (forget_access k (snd (remove_everywhere E k (engine_of s))))"
    unfolding steps t0 by (rule engine_cleaned[OF assms])
  moreover have "t 10 = t (Suc 9)" by simp
  ultimately show ?thesis using all ok same by metis
qed

text \<open>And so is the loop over the keys.\<close>

lemma same_meta: "(engine_of s)\<lparr>meta := meta (rest s)\<rparr> = engine_of s"
  by (cases "rest s") (simp add: engine_of_def)

lemma checking_arrives:
  assumes "shared_ok E s"
  shows "\<exists>n' s'. arrives E now (Checking ks n r) s (Counting n' r) s' \<and> shared_ok E s' \<and>
    fold (cleanup_key E now) ks (n, engine_of s) = (n', engine_of s') \<and> opts (rest s') = opts (rest s)"
  using assms
proof (induction ks arbitrary: n s)
  case Nil
  then show ?case by (intro exI[of _ n] exI[of _ s]) (auto intro: arrives_step arrives_refl)
next
  case (Cons k ks)
  let ?m = "meta (rest s)" and ?h = "env_hash E"
  have "\<exists>s1. arrives E now (Checking (k # ks) n r) s (Checking ks (fst (cleanup_key E now k (n, engine_of s))) r) s1 \<and> shared_ok E s1 \<and>
      engine_of s1 = snd (cleanup_key E now k (n, engine_of s)) \<and> opts (rest s1) = opts (rest s)"
  proof (cases "dm_get ?h k ?m")
    case None
    then have step: "full_step E now (Checking (k # ks) n r) s = (Cleaning 0 k ks n r, s)" by simp
    have "cleanup_key E now k (n, engine_of s) = (n + 1, db_delete E k (forget_access k (snd (remove_everywhere E k (engine_of s)))))"
      by (simp add: cleanup_key_def valid_def is_valid_def None same_meta)
    with cleaning_arrives[OF Cons.prems, of now k ks n r] show ?thesis by (auto intro: arrives_step[OF step])
  next
    case (Some md)
    show ?thesis
    proof (cases "is_expired now md")
      case True
      let ?s = "s\<lparr>rest := (rest s)\<lparr>meta := snd (dm_remove ?h k ?m)\<rparr>\<rparr>"
      have step: "full_step E now (Checking (k # ks) n r) s = (Expiring k ks n r, s)"
        "full_step E now (Expiring k ks n r) s = (Cleaning 0 k ks n r, ?s)" by (simp_all add: Some True)
      have "cleanup_key E now k (n, engine_of s) = (n + 1, db_delete E k (forget_access k (snd (remove_everywhere E k (engine_of ?s)))))"
        by (simp add: cleanup_key_def valid_def is_valid_def Some True meta_rest)
      with cleaning_arrives[of E ?s now k ks n r] Cons.prems show ?thesis
        by (auto simp: meta_rest intro: arrives_step[OF step(1)] arrives_step[OF step(2)])
    next
      case False
      then have step: "full_step E now (Checking (k # ks) n r) s = (Checking ks n r, s)" by (simp add: Some)
      have "cleanup_key E now k (n, engine_of s) = (n, engine_of s)"
        by (simp add: cleanup_key_def valid_def is_valid_def Some False same_meta)
      then show ?thesis using Cons.prems by (auto intro: arrives_step[OF step] arrives_refl)
    qed
  qed
  then obtain s1 where s1: "arrives E now (Checking (k # ks) n r) s (Checking ks (fst (cleanup_key E now k (n, engine_of s))) r) s1" "shared_ok E s1"
      "engine_of s1 = snd (cleanup_key E now k (n, engine_of s))" "opts (rest s1) = opts (rest s)" by blast
  obtain n' s' where s': "arrives E now (Checking ks (fst (cleanup_key E now k (n, engine_of s))) r) s1 (Counting n' r) s'" "shared_ok E s'"
      "fold (cleanup_key E now) ks (fst (cleanup_key E now k (n, engine_of s)), engine_of s1) = (n', engine_of s')" "opts (rest s') = opts (rest s1)"
    using Cons.IH[OF s1(2)] by blast
  then show ?case using arrives_trans[OF s1(1) s'(1)] s1(3,4) by (intro exI[of _ n'] exI[of _ s']) simp
qed

lemma expired_rest:
  "shared_ok E (s\<lparr>rest := (rest s)\<lparr>expired := x\<rparr>\<rparr>) = shared_ok E s"
  "engine_of (s\<lparr>rest := (rest s)\<lparr>expired := x\<rparr>\<rparr>) = (engine_of s)\<lparr>expired := x\<rparr>"
  by (simp_all add: shared_ok_def engine_of_def)

lemma check_arrives:
  assumes "shared_ok E s" "unlimited s"
  shows "\<exists>s'. arrives E now (Listing 0 [] r) s (Answered r) s' \<and> shared_ok E s' \<and> engine_of s' = check_memory_and_evict E now (engine_of s)"
proof -
  let ?ks = "get_all_keys (env_order E) (meta (rest s))"
  have list: "arrives E now (Listing 0 [] r) s (Checking ?ks 0 r) s"
    using listing_arrives[of 0 s E now "[]" r] by (simp add: get_all_keys_def dm_all_keys_def)
  obtain n s1 where s1: "arrives E now (Checking ?ks 0 r) s (Counting n r) s1" "shared_ok E s1"
      "fold (cleanup_key E now) ?ks (0, engine_of s) = (n, engine_of s1)" "opts (rest s1) = opts (rest s)"
    using checking_arrives[OF assms(1)] by blast
  let ?s = "s1\<lparr>rest := (rest s1)\<lparr>expired := expired (rest s1) + n\<rparr>\<rparr>"
  have limit: "unlimited s1" using assms(2) s1(4) by (simp add: unlimited_def)
  then have step: "full_step E now (Counting n r) s1 = (Answered r, ?s)" by simp
  have "expired (engine_of s1) = expired (rest s1)" "opts (engine_of s1) = opts (rest s1)" by (simp_all add: engine_of_def)
  then have "engine_of ?s = check_memory_and_evict E now (engine_of s)"
    using limit s1(3) by (simp add: check_memory_and_evict_def cleanup_expired_def expired_rest unlimited_def)
  then show ?thesis
    using arrives_trans[OF list arrives_trans[OF s1(1) arrives_step[OF step arrives_refl]]] s1(2) expired_rest(1) by blast
qed

lemma act_rest: "rest (snd (act E c p s)) = rest s"
  by (cases c) (simp_all add: split_beta Let_def set_object_def)

lemma thread_step_opts: "opts (rest (snd (thread_step E now t s))) = opts (rest s)"
  by (cases t) (simp_all add: act_rest new_object_def set_object_def db_put_def split_beta Let_def split: option.splits hash_call.splits bool.splits)

lemma solo_opts: "opts (rest (snd (solo E now n t s))) = opts (rest s)"
  by (induction n arbitrary: t s) (simp_all add: split_beta Let_def thread_step_opts)

lemma full_answered [simp]: "full_solo E now n (Answered r) s = (Answered r, s)"
  by (induction n) simp_all

lemma start_not_returned: "\<nexists>r. start c = Returned r"
  by (cases c) simp_all

text \<open>
  C7. In an engine without a memory limit, a hash command that runs while no other thread does anything, as a sequence of atomic calls on
  shared objects with the cleanup at the end of \<^verbatim>\<open>hset\<close>, is the handler of the sequential model: it returns, with the handler's answer,
  and leaves the handler's state.
\<close>

theorem thread_alone_refines:
  assumes "shared_ok E s" "unlimited s"
  shows "\<exists>n r s'. full_solo E now n (begin_call c) s = (Answered r, s') \<and> shared_ok E s' \<and> handled E now c (engine_of s) = (r, engine_of s')"
proof -
  obtain r s1 where s1: "solo E now 25 (start c) s = (Returned r, s1)" "shared_ok E s1"
      "handled E now c (engine_of s) = (r, closing E now c (engine_of s1))"
    using handler_alone[OF assms(1), of now c] by blast
  have handler: "arrives E now (begin_call c) s (leave c (Returned r)) s1"
    unfolding begin_call_def by (rule handler_arrives[OF s1(1) start_not_returned])
  show ?thesis
  proof (cases "is_Call_hset c")
    case True
    have "unlimited s1" using assms(2) solo_opts[of E now 25 "start c" s] by (simp add: unlimited_def s1(1))
    from check_arrives[OF s1(2) this] obtain s' where "arrives E now (Listing 0 [] r) s1 (Answered r) s'" "shared_ok E s'"
        "engine_of s' = check_memory_and_evict E now (engine_of s1)" by blast
    moreover from this have "arrives E now (begin_call c) s (Answered r) s'" using arrives_trans[OF handler] True by simp
    moreover have "closing E now c (engine_of s1) = check_memory_and_evict E now (engine_of s1)"
      using True by (cases c) (simp_all add: closing_def makes_new_def)
    ultimately show ?thesis using s1(3) unfolding arrives_def by metis
  next
    case False
    then have "closing E now c (engine_of s1) = engine_of s1" by (cases c) (simp_all add: closing_def makes_new_def)
    then show ?thesis using handler s1(2,3) False unfolding arrives_def by auto
  qed
qed

section \<open>Writes that are safe\<close>

text \<open>The key has its object and its metadata entry, and the engine has no limit.\<close>

definition settled :: "('doc, 'ix, 'db) env \<Rightarrow> str \<Rightarrow> nat \<Rightarrow> key_metadata \<Rightarrow> ('ix, 'db) shared \<Rightarrow> bool" where
  "settled E key p md s \<longleftrightarrow>
     pinned E key p s \<and> dm_ok (env_hash E) (meta (rest s)) \<and> dm_get (env_hash E) key (meta (rest s)) = Some md \<and> unlimited s"

text \<open>No thread is about to take the key out of the metadata or to remove its values.\<close>

fun spares :: "str \<Rightarrow> thread \<Rightarrow> bool" where
  "spares key (At_expire c) = (call_key c \<noteq> key)"
| "spares key (Returned r) = False"
| "spares key t = True"

fun call_keeps :: "str \<Rightarrow> nat \<Rightarrow> (hash_call \<Rightarrow> bool) \<Rightarrow> call_state \<Rightarrow> bool" where
  "call_keeps key p ok (Handling c t) = (keeps_to key p ok t \<and> spares key t)"
| "call_keeps key p ok (Expiring k ks n r) = (k \<noteq> key)"
| "call_keeps key p ok (Cleaning j k ks n r) = (k \<noteq> key)"
| "call_keeps key p ok _ = True"

fun has_written :: "call_state \<Rightarrow> bool" where
  "has_written (Handling c t) = has_acted t"
| "has_written _ = True"

lemma persisting_spares: "spares key (persisting c q r s) \<or> (\<exists>r'. persisting c q r s = Returned r')"
  by (simp add: persisting_def)

lemma leave_keeps: "keeps_to key p ok t \<Longrightarrow> spares key t \<or> (\<exists>r. t = Returned r) \<Longrightarrow> call_keeps key p ok (leave c t)"
  by (cases t) auto

lemma leave_written: "has_written (leave c t) = has_acted t"
  by (cases t) simp_all

lemma thread_step_settled:
  assumes "thread_step E now t s = (t', s')" "settled E key p md s" "keeps_to key p ok t" "spares key t" "\<not> is_expired now md"
  shows "settled E key p md s'" "spares key t' \<or> (\<exists>r. t' = Returned r)"
proof -
  have pin: "pinned E key p s'" using step_keeps[OF assms(1) _ assms(3)] assms(2) by (simp add: settled_def)
  have opts: "unlimited s'" using assms(1,2) thread_step_opts[of E now t s] by (simp add: settled_def unlimited_def)
  have ok: "dm_ok (env_hash E) (meta (rest s))" "dm_get (env_hash E) key (meta (rest s)) = Some md" using assms(2) by (simp_all add: settled_def)
  have "dm_ok (env_hash E) (meta (rest s')) \<and> dm_get (env_hash E) key (meta (rest s')) = Some md"
  proof (cases t)
    case (At_act c q)
    then show ?thesis using assms(1) ok act_rest[of E c q s] by simp
  next
    case (At_look c)
    then show ?thesis using assms(1) ok by (auto simp: new_object_def split: option.splits hash_call.splits)
  next
    case (At_load c)
    then show ?thesis using assms(1) ok by (auto simp: new_object_def split_beta split: option.splits bool.splits)
  next
    case (At_put k all r)
    then show ?thesis using assms(1) ok by (auto simp: db_put_def split: option.splits)
  qed (use assms(1,3,4) ok in \<open>auto simp: dm.lookup_insert dm.lookup_remove set_object_def split: option.splits if_splits\<close>)
  then show "settled E key p md s'" using pin opts by (simp add: settled_def)
  show "spares key t' \<or> (\<exists>r. t' = Returned r)"
  proof (cases t)
    case (At_act c q)
    then show ?thesis using assms(1) persisting_spares[of key _ q _ s] by (cases c) (auto simp: split_beta Let_def)
  next
    case (At_store c q n)
    then show ?thesis using assms(1) persisting_spares[of key _ q _ s] by auto
  qed (use assms(1,5) ok in \<open>auto simp: new_object_def persisting_def split_beta split: option.splits if_splits hash_call.splits bool.splits\<close>)
qed

lemma clean_step_settled:
  assumes "settled E key p md s" "k \<noteq> key"
  shows "settled E key p md (clean_step E j k s)" "at_field E field p (clean_step E j k s) = at_field E field p s"
proof -
  have "pinned E key p (clean_step E j k s)" using assms by (auto simp: settled_def pinned_def clean_step_frame dm.lookup_remove)
  then show "settled E key p md (clean_step E j k s)" using assms(1) by (simp add: settled_def unlimited_def clean_step_frame)
  show "at_field E field p (clean_step E j k s) = at_field E field p s" by (simp add: at_field_def clean_step_frame)
qed

lemma full_step_settled:
  assumes "full_step E now t s = (t', s')" "settled E key p md s" "call_keeps key p ok t" "\<not> is_expired now md"
  shows "settled E key p md s' \<and> call_keeps key p ok t'"
proof (cases t)
  case (Handling c u)
  obtain u' where u: "thread_step E now u s = (u', s')" "t' = leave c u'" using assms(1) Handling by (auto simp: split_beta prod_eq_iff)
  have k: "keeps_to key p ok u" "spares key u" using assms(3) Handling by simp_all
  note settled = thread_step_settled[OF u(1) assms(2) k assms(4)]
  have "keeps_to key p ok u'" using step_keeps[OF u(1) _ k(1)] assms(2) by (simp add: settled_def)
  then show ?thesis using settled leave_keeps u(2) by blast
next
  case (Checking ks n r)
  then show ?thesis using assms by (cases ks) (auto simp: settled_def split: option.splits if_splits)
next
  case (Expiring k ks n r)
  then show ?thesis using assms by (auto simp: settled_def pinned_frame unlimited_def dm.lookup_remove)
next
  case (Cleaning j k ks n r)
  then show ?thesis using assms clean_step_settled(1)[OF assms(2), of k j] by (auto split: if_splits)
next
  case (Counting n r)
  then show ?thesis using assms by (auto simp: settled_def pinned_frame unlimited_def)
qed (use assms in \<open>auto split: if_splits\<close>)

lemma full_step_field:
  assumes "full_step E now t s = (t', s')" "settled E key p md s" "call_keeps key p ok t"
  shows "(\<And>c u. t = Handling c u \<Longrightarrow> at_field E field p (snd (thread_step E now u s)) = at_field E field p s) \<Longrightarrow>
    at_field E field p s' = at_field E field p s"
proof (cases t)
  case (Checking ks n r)
  then show ?thesis using assms(1) by (cases ks) (auto split: option.splits if_splits)
next
  case (Cleaning j k ks n r)
  then show ?thesis using assms clean_step_settled(2)[OF assms(2), of k field j] by (auto split: if_splits)
qed (use assms(1) in \<open>auto simp: pinned_frame split_beta split: if_splits\<close>)

lemma full_step_others:
  assumes "full_step E now t s = (t', s')" "settled E key p md s" "call_keeps key p (\<lambda>c. \<not> writes key field c) t"
  shows "at_field E field p s' = at_field E field p s"
proof (rule full_step_field[OF assms])
  fix c u assume "t = Handling c u"
  then show "at_field E field p (snd (thread_step E now u s)) = at_field E field p s"
    using step_of_others[of E now u s "fst (thread_step E now u s)" "snd (thread_step E now u s)" key p field] assms(2,3)
    by (simp add: settled_def)
qed

lemma full_step_writer:
  assumes "full_step E now t s = (t', s')" "settled E key p md s" "call_keeps key p (\<lambda>c. c = Call_hset key field v) t"
    and "has_written t \<Longrightarrow> at_field E field p s = Some v" "has_written t'"
  shows "at_field E field p s' = Some v"
proof (cases "\<exists>c u. t = Handling c u")
  case True
  then obtain c u where t: "t = Handling c u" by blast
  obtain u' where u: "thread_step E now u s = (u', s')" "t' = leave c u'" using assms(1) t by (auto simp: split_beta prod_eq_iff)
  show ?thesis
    using step_of_writer[OF u(1), of key p field v] assms(2-5) t u(2) by (simp add: settled_def leave_written)
next
  case False
  then have "at_field E field p s' = at_field E field p s" by (intro full_step_field[OF assms(1-3)]) blast
  moreover have "has_written t" using False by (cases t) simp_all
  ultimately show ?thesis using assms(4) by simp
qed

text \<open>The invariant over a run: one thread writes the field, the others do not.\<close>

definition one_writer ::
    "('doc, 'ix, 'db) env \<Rightarrow> str \<Rightarrow> str \<Rightarrow> str \<Rightarrow> nat \<Rightarrow> key_metadata \<Rightarrow> nat \<Rightarrow> call_state list \<Rightarrow> ('ix, 'db) shared \<Rightarrow> bool" where
  "one_writer E key field v p md i ts s \<longleftrightarrow>
     settled E key p md s \<and> call_keeps key p (\<lambda>c. c = Call_hset key field v) (ts ! i) \<and>
     (\<forall>j < length ts. j \<noteq> i \<longrightarrow> call_keeps key p (\<lambda>c. \<not> writes key field c) (ts ! j)) \<and>
     (has_written (ts ! i) \<longrightarrow> at_field E field p s = Some v)"

lemma one_writer_step:
  assumes "one_writer E key field v p md i ts s" "i < length ts" "j < length ts" "full_step E now (ts ! j) s = (t', s')" "\<not> is_expired now md"
  shows "one_writer E key field v p md i (ts[j := t']) s'"
proof (cases "j = i")
  case True
  then show ?thesis
    using assms full_step_settled[OF assms(4) _ _ assms(5)] full_step_writer[OF assms(4), of key p md field v]
    by (auto simp: one_writer_def nth_list_update)
next
  case False
  then show ?thesis
    using assms full_step_settled[OF assms(4) _ _ assms(5)] full_step_others[OF assms(4), of key p md field]
    by (auto simp: one_writer_def nth_list_update)
qed

lemma one_writer_run:
  assumes "one_writer E key field v p md i ts s" "i < length ts" "\<forall>(j, now) \<in> set sched. \<not> is_expired now md"
  shows "one_writer E key field v p md i (fst (full_run E sched ts s)) (snd (full_run E sched ts s))"
  using assms
proof (induction E sched ts s rule: full_run.induct)
  case (2 E j now sched ts s)
  obtain t' s' where step: "full_step E now (ts ! j) s = (t', s')" by fastforce
  show ?case
  proof (cases "j < length ts")
    case True
    then show ?thesis using 2(1)[OF True step[symmetric] refl] one_writer_step[OF 2(3,4) True step] 2(4,5) by (simp add: step)
  next
    case False
    then show ?thesis using 2 by simp
  qed
qed simp

section \<open>Every call returns\<close>

text \<open>
  The keys that can ever be registered are those registered at the beginning and those the calls name: \<open>U\<close>.  So a thread lists at most
  that many keys, each once, as a key is always in the same of the \<open>M\<close> shards; the steps it has left are bounded.
\<close>

fun calls_in :: "str set \<Rightarrow> thread \<Rightarrow> bool" where
  "calls_in U (At_check c) = (call_key c \<in> U)" | "calls_in U (At_expire c) = (call_key c \<in> U)" | "calls_in U (At_look c) = (call_key c \<in> U)"
| "calls_in U (At_load c) = (call_key c \<in> U)" | "calls_in U (At_publish c p) = (call_key c \<in> U)" | "calls_in U (At_version c p) = (call_key c \<in> U)"
| "calls_in U (At_register c p n) = (call_key c \<in> U)" | "calls_in U (At_act c p) = (call_key c \<in> U)" | "calls_in U (At_store c p n) = (call_key c \<in> U)"
| "calls_in U t = True"

fun call_left :: "str set \<Rightarrow> nat \<Rightarrow> call_state \<Rightarrow> nat" where
  "call_left U M (Handling c t) = steps_left t + M + 12 * card U + 4"
| "call_left U M (Listing i keys r) = M - i + 12 * card U + 3"
| "call_left U M (Checking ks n r) = 12 * length ks + 2"
| "call_left U M (Expiring k ks n r) = 12 * length ks + 13"
| "call_left U M (Cleaning j k ks n r) = 12 * length ks + 12 - min j 9"
| "call_left U M (Counting n r) = 1"
| "call_left U M _ = 0"

definition world :: "('doc, 'ix, 'db) env \<Rightarrow> str set \<Rightarrow> nat \<Rightarrow> ('ix, 'db) shared \<Rightarrow> bool" where
  "world E U M s \<longleftrightarrow> heap_ok E s \<and> dm_ok (env_hash E) (meta (rest s)) \<and> (\<forall>k. dm_get (env_hash E) k (meta (rest s)) \<noteq> None \<longrightarrow> k \<in> U) \<and>
     length (dm_shards (meta (rest s))) = M \<and> unlimited s"

fun call_bounded :: "('doc, 'ix, 'db) env \<Rightarrow> str set \<Rightarrow> ('ix, 'db) shared \<Rightarrow> call_state \<Rightarrow> bool" where
  "call_bounded E U s (Handling c t) \<longleftrightarrow> calls_in U t \<and> holds t \<subseteq> {..<length (objects s)} \<and> (\<nexists>r. t = Returned r)"
| "call_bounded E U s (Listing i keys r) \<longleftrightarrow> distinct keys \<and> set keys \<subseteq> U \<and> (\<forall>k \<in> set keys. shard_index (env_hash E) (meta (rest s)) k < i)"
| "call_bounded E U s (Evicting r) \<longleftrightarrow> False"
| "call_bounded E U s _ \<longleftrightarrow> True"

lemma bounded_frame:
  assumes "world E U M s" "world E U M s'" "length (objects s) \<le> length (objects s')" "call_bounded E U s t"
  shows "call_bounded E U s' t"
proof -
  have "shard_index (env_hash E) (meta (rest s')) k = shard_index (env_hash E) (meta (rest s)) k" for k
    by (rule shard_index_cong) (use assms(1,2) in \<open>simp add: world_def\<close>)
  then show ?thesis using assms(3,4) by (cases t) auto
qed

lemma thread_step_world:
  assumes "thread_step E now t s = (t', s')" "world E U M s" "calls_in U t" "holds t \<subseteq> {..<length (objects s)}"
  shows "world E U M s'" "calls_in U t'"
proof -
  have heap: "heap_ok E s'" using step_left[OF assms(1) _ assms(4)] assms(2) by (simp add: world_def)
  have opts: "unlimited s'" using assms(1,2) thread_step_opts[of E now t s] by (simp add: world_def unlimited_def)
  have ok: "dm_ok (env_hash E) (meta (rest s))" "(\<forall>k. dm_get (env_hash E) k (meta (rest s)) \<noteq> None \<longrightarrow> k \<in> U)"
    "length (dm_shards (meta (rest s))) = M" using assms(2) by (simp_all add: world_def)
  have "dm_ok (env_hash E) (meta (rest s')) \<and> (\<forall>k. dm_get (env_hash E) k (meta (rest s')) \<noteq> None \<longrightarrow> k \<in> U) \<and> length (dm_shards (meta (rest s'))) = M"
  proof (cases t)
    case (At_act c q)
    then show ?thesis using assms(1) ok act_rest[of E c q s] by simp
  next
    case (At_look c)
    then show ?thesis using assms(1) ok by (auto simp: new_object_def split: option.splits hash_call.splits)
  next
    case (At_load c)
    then show ?thesis using assms(1) ok by (auto simp: new_object_def split_beta split: option.splits bool.splits)
  next
    case (At_put k all r)
    then show ?thesis using assms(1) ok by (auto simp: db_put_def split: option.splits)
  qed (use assms(1,3) ok in \<open>auto simp: dm.lookup_insert dm.lookup_remove set_object_def split: option.splits if_splits\<close>)
  then show "world E U M s'" using heap opts by (simp add: world_def)
  have persisting: "calls_in U (persisting c q r s)" for c q r by (simp add: persisting_def)
  show "calls_in U t'"
  proof (cases t)
    case (At_act c q)
    then show ?thesis using assms(1,3) persisting by (cases c) (auto simp: split_beta Let_def)
  qed (use assms(1,3) persisting in \<open>auto simp: new_object_def split_beta split: option.splits if_splits hash_call.splits bool.splits\<close>)
qed

lemma listed_shard:
  assumes "dm_ok h m" "visits_all ord" "i < length (dm_shards m)"
  shows "distinct (shard_keys ord (dm_shards m ! i))" "k \<in> set (shard_keys ord (dm_shards m ! i)) \<Longrightarrow> dm_get h k m \<noteq> None \<and> shard_index h m k = i"
proof -
  have shard: "shard_ok (dm_shards m ! i)" by (rule dm_okD(2)[OF assms(1,3)])
  show "distinct (shard_keys ord (dm_shards m ! i))" by (rule visits_all_distinct[OF assms(2) shard])
  assume "k \<in> set (shard_keys ord (dm_shards m ! i))"
  then obtain v where "map_of (dm_shards m ! i) k = Some v" using visits_all_set[OF assms(2) shard] by auto
  then show "dm_get h k m \<noteq> None \<and> shard_index h m k = i" using dm_get_shard[OF assms(1,3)] by simp
qed

lemma full_step_left:
  assumes "full_step E now t s = (t', s')" "world E U M s" "call_bounded E U s t" "visits_all (env_order E)" "finite U"
  shows "world E U M s' \<and> call_bounded E U s' t' \<and> length (objects s) \<le> length (objects s') \<and> call_left U M t' \<le> call_left U M t - 1"
proof (cases t)
  case (Handling c u)
  obtain u' where u: "thread_step E now u s = (u', s')" "t' = leave c u'" using assms(1) Handling by (auto simp: split_beta prod_eq_iff)
  have b: "calls_in U u" "holds u \<subseteq> {..<length (objects s)}" "steps_left u \<noteq> 0" using assms(3) Handling left_returned[of u] by simp_all
  have heap: "heap_ok E s" using assms(2) by (simp add: world_def)
  note left = step_left[OF u(1) heap b(2)] and w = thread_step_world[OF u(1) assms(2) b(1,2)]
  show ?thesis
  proof (cases "\<exists>r. u' = Returned r")
    case True
    then show ?thesis using left w(1) b(3) u(2) Handling by auto
  next
    case False
    then have "t' = Handling c u'" using u(2) by (cases u') simp_all
    then show ?thesis using left w b(3) False Handling by auto
  qed
next
  case (Listing i keys r)
  let ?m = "meta (rest s)" and ?h = "env_hash E"
  have m: "dm_ok ?h ?m" "\<forall>k. dm_get ?h k ?m \<noteq> None \<longrightarrow> k \<in> U" "length (dm_shards ?m) = M" using assms(2) by (simp_all add: world_def)
  have keys: "distinct keys" "set keys \<subseteq> U" "\<And>k. k \<in> set keys \<Longrightarrow> shard_index ?h ?m k < i" using assms(3) Listing by simp_all
  show ?thesis
  proof (cases "i < M")
    case True
    let ?new = "shard_keys (env_order E) (dm_shards ?m ! i)"
    have step: "t' = Listing (i + 1) (keys @ ?new) r" "s' = s" using assms(1) Listing True m(3) by auto
    note new = listed_shard[OF m(1) assms(4), of i]
    have "set keys \<inter> set ?new = {}" using keys(3) new(2) True m(3) by fastforce
    moreover have "set ?new \<subseteq> U" using new(2) True m(2,3) by blast
    moreover have "shard_index ?h ?m k < i + 1" if "k \<in> set keys \<union> set ?new" for k using that keys(3) new(2) True m(3) by fastforce
    ultimately show ?thesis using step keys new(1) True m(3) assms(2) Listing by auto
  next
    case False
    then have "t' = Checking keys 0 r" "s' = s" using assms(1) Listing m(3) by auto
    moreover have "length keys \<le> card U" using card_mono[OF assms(5) keys(2)] distinct_card[OF keys(1)] by simp
    ultimately show ?thesis using assms(2) Listing by simp
  qed
next
  case (Checking ks n r)
  then show ?thesis using assms by (cases ks) (auto split: option.splits if_splits)
next
  case (Expiring k ks n r)
  then show ?thesis using assms(1,2) by (auto simp: world_def heap_ok_def unlimited_def dm.lookup_remove split: if_splits)
next
  case (Cleaning j k ks n r)
  have s': "s' = clean_step E j k s" using assms(1) Cleaning by simp
  have "heap_ok E s'" using assms(2) unfolding s' world_def heap_ok_def clean_step_frame by (auto simp: dm.lookup_remove split: if_splits)
  then have "world E U M s'" "length (objects s) \<le> length (objects s')"
    using assms(2) by (simp_all add: s' world_def unlimited_def clean_step_frame)
  then show ?thesis using assms(1) Cleaning by (auto split: if_splits)
next
  case (Counting n r)
  then show ?thesis using assms(1,2) by (auto simp: world_def heap_ok_def unlimited_def)
next
  case (Evicting r)
  then show ?thesis using assms(3) by simp
qed (use assms(1,2) in auto)

lemma run_left:
  assumes "world E U M s" "\<forall>t \<in> set ts. call_bounded E U s t" "visits_all (env_order E)" "finite U" "i < length ts"
  shows "call_bounded E U (snd (full_run E sched ts s)) (fst (full_run E sched ts s) ! i) \<and>
    call_left U M (fst (full_run E sched ts s) ! i) \<le> call_left U M (ts ! i) - length (filter (\<lambda>(j, _). j = i) sched)"
  using assms
proof (induction E sched ts s rule: full_run.induct)
  case (1 E ts s)
  then show ?case by simp
next
  case (2 E j now sched ts s)
  show ?case
  proof (cases "j < length ts")
    case True
    obtain t' s' where step: "full_step E now (ts ! j) s = (t', s')" by fastforce
    have "call_bounded E U s (ts ! j)" using 2(4) True by simp
    note left = full_step_left[OF step 2(3) this 2(5,6)]
    have all: "\<forall>t \<in> set (ts[j := t']). call_bounded E U s' t"
      using left bounded_frame[OF 2(3)] 2(4) by (auto dest!: set_update_subset_insert[THEN subsetD])
    have "call_left U M (ts[j := t'] ! i) \<le> call_left U M (ts ! i) - (if j = i then 1 else 0)"
      using True left 2(7) by (cases "j = i") simp_all
    moreover have "call_left U M (fst (full_run E sched (ts[j := t']) s') ! i)
        \<le> call_left U M (ts[j := t'] ! i) - length (filter (\<lambda>(j, _). j = i) sched)"
      "call_bounded E U (snd (full_run E sched (ts[j := t']) s')) (fst (full_run E sched (ts[j := t']) s') ! i)"
      using 2(1)[OF True step[symmetric] refl _ all 2(5,6)] left 2(7) by simp_all
    ultimately show ?thesis using True by (auto simp: step split: if_splits)
  next
    case False
    then show ?thesis using 2 by auto
  qed
qed

section \<open>An acknowledged write stays\<close>

lemma hget_settled:
  assumes "settled E key p md s" "\<not> is_expired now md"
  shows "fst (eng_hget E now key field (engine_of s)) = at_field E field p s"
proof -
  have pin: "pinned E key p s" and meta: "dm_get (env_hash E) key (meta (rest s)) = Some md" using assms(1) by (simp_all add: settled_def)
  have "dm_ok (env_hash E) (pointers s)" using pin by (simp add: pinned_def)
  then have "slot_get E (hash_slot E) key (engine_of s) = Some (objects s ! p)"
    by (simp add: slot_get_def hash_slot_def engine_of_def dm_get_map pinned_get(1)[OF pin])
  moreover have "valid E now key (engine_of s) = (True, engine_of s)"
    using meta assms(2) by (simp add: valid_def is_valid_def same_meta)
  ultimately show ?thesis by (simp add: eng_hget_def get_or_create_hash_def get_or_create_def at_field_def)
qed

lemma begin_bounded: "call_key c \<in> U \<Longrightarrow> call_bounded E U s (begin_call c)" "call_left U M (begin_call c) \<le> 30 + M + 12 * card U"
  "ok c \<Longrightarrow> call_keeps key p ok (begin_call c)" "\<not> has_written (begin_call c)"
  by (cases c; simp add: begin_call_def)+

lemma left_answered: "call_bounded E U s t \<Longrightarrow> call_left U M t = 0 \<Longrightarrow> \<exists>r. t = Answered r"
  by (cases t) (auto simp: min_def split: if_splits)

lemma written_by: "call_bounded E U s t \<Longrightarrow> call_left U M t \<le> M + 12 * card U + 4 \<Longrightarrow> has_written t"
  by (cases t) (auto simp: left_returned)

text \<open>
  C6. A write to a live hash in memory is not lost there, however the threads interleave: in an engine without a memory limit any number
  of threads runs hash commands on any keys, with the cleanups that end their \<^verbatim>\<open>hset\<close> calls, and one of them sets a field that no
  other thread writes.  The hash is in the map and registered, and its expiry, if it has one, does not pass during the run.  After 26
  steps of its own \<^verbatim>\<open>hset\<close> has written, whatever the others have done in between, and from then on \<^verbatim>\<open>hget\<close> finds the value at any
  time before the expiry.  And \<^verbatim>\<open>hset\<close> returns: its steps are bounded by the number of shards and of the keys there are or
  the calls name, all of which its own cleanup may have to look at and remove.
\<close>

theorem hset_not_lost:
  assumes "shared_ok E s" "dm_get (env_hash E) key (pointers s) = Some p" "dm_ok (env_hash E) (objects s ! p)"
    and "dm_ok (env_hash E) (meta (rest s))" "dm_get (env_hash E) key (meta (rest s)) = Some md"
    and "unlimited s" "visits_all (env_order E)" "\<forall>(j, now) \<in> set sched. \<not> is_expired now md"
    and "i < length cs" "cs ! i = Call_hset key field v" "\<forall>j < length cs. j \<noteq> i \<longrightarrow> \<not> writes key field (cs ! j)"
    and "steps = length (filter (\<lambda>(j, _). j = i) sched)" "26 \<le> steps"
  shows "\<exists>ts' s'. full_run E sched (map begin_call cs) s = (ts', s') \<and> has_written (ts' ! i)
    \<and> (\<forall>now. \<not> is_expired now md \<longrightarrow> fst (eng_hget E now key field (engine_of s')) = Some v)
    \<and> (30 + length (dm_shards (meta (rest s))) + 12 * (dm_size (meta (rest s)) + length cs) \<le> steps \<longrightarrow> (\<exists>r. ts' ! i = Answered r))"
proof -
  let ?K = "{k. dm_get (env_hash E) k (meta (rest s)) \<noteq> None}" and ?M = "length (dm_shards (meta (rest s)))"
  let ?U = "?K \<union> call_key ` set cs"
  obtain ts' s' where run: "full_run E sched (map begin_call cs) s = (ts', s')" by fastforce
  have "pinned E key p s" using assms(1,2,3) unfolding shared_ok_def pinned_def by blast
  then have "one_writer E key field v p md i (map begin_call cs) s"
    using assms(4-6,9-11) begin_bounded(3,4) by (simp add: one_writer_def settled_def)
  from one_writer_run[OF this _ assms(8)] have end_state: "one_writer E key field v p md i ts' s'"
    using assms(9) by (simp add: run)
  have K: "finite ?K" "dm_size (meta (rest s)) = card ?K" using dm.finite_keys[OF assms(4)] dm.count_card[OF assms(4)] by simp_all
  have "card ?U \<le> card ?K + card (call_key ` set cs)" by (rule card_Un_le)
  also have "\<dots> \<le> dm_size (meta (rest s)) + length cs"
    using card_image_le[of "set cs" call_key] card_length[of cs] K(2) by simp
  finally have U: "card ?U \<le> dm_size (meta (rest s)) + length cs" .
  have "world E ?U ?M s" using shared_heap_ok[OF assms(1)] assms(4,6) by (simp add: world_def)
  moreover have "\<forall>t \<in> set (map begin_call cs). call_bounded E ?U s t" by (auto intro!: begin_bounded(1))
  ultimately have left: "call_bounded E ?U s' (ts' ! i)" "call_left ?U ?M (ts' ! i) \<le> call_left ?U ?M (begin_call (cs ! i)) - steps"
    using run_left[of E ?U ?M s "map begin_call cs" i sched] assms(7,9,12) K(1) by (simp_all add: run)
  have "call_left ?U ?M (ts' ! i) \<le> ?M + 12 * card ?U + 4" using left(2) begin_bounded(2)[of ?U ?M "cs ! i"] assms(13) by simp
  then have written: "has_written (ts' ! i)" by (rule written_by[OF left(1)])
  have "\<exists>r. ts' ! i = Answered r" if "30 + ?M + 12 * (dm_size (meta (rest s)) + length cs) \<le> steps"
    using left_answered[OF left(1), of ?M] left(2) begin_bounded(2)[of ?U ?M "cs ! i"] U that by simp
  moreover have "fst (eng_hget E now key field (engine_of s')) = Some v" if "\<not> is_expired now md" for now
    using end_state written hget_settled[OF _ that, of E key p s' field] by (simp add: one_writer_def)
  ultimately show ?thesis using run written by blast
qed

section \<open>The statements at concrete states\<close>

lemma unlimited_samples: "unlimited no_hashes" "unlimited one_hash"
  by (simp_all add: unlimited_def one_hash_def created_def register_def no_hashes_def sample_engine_def engine_new_def sample_options_def Let_def)

theorem thread_alone_refines_witness:
  "\<exists>n r s'. full_solo sample_env 7 n (begin_call (Call_hset [1] [2] [3])) no_hashes = (Answered r, s') \<and> shared_ok sample_env s'
    \<and> handled sample_env 7 (Call_hset [1] [2] [3]) (engine_of no_hashes) = (r, engine_of s')"
  by (rule thread_alone_refines[OF no_hashes(1) unlimited_samples(1)])

theorem hset_not_lost_witness:
  "\<exists>ts' s'. full_run sample_env (concat (replicate 90 [(1, 8), (0, 7)])) (map begin_call [Call_hset [1] [2] [3], Call_hset [1] [4] [5]]) one_hash = (ts', s')
    \<and> fst (eng_hget sample_env 9 [1] [2] (engine_of s')) = Some [3] \<and> (\<exists>r. ts' ! 0 = Answered r)"
proof -
  let ?m = "meta (rest one_hash)" and ?md = "(km_new kHash)\<lparr>version := 1\<rparr>" and ?cs = "[Call_hset [1] [2] [3], Call_hset [1] [4] [5]]"
  let ?sched = "concat (replicate 90 [(1 :: nat, 8 :: int), (0, 7)])"
  have old: "dm_ok (env_hash sample_env) (meta sample_engine)" "dm_get (env_hash sample_env) k (meta sample_engine) = None" for k
    using engine_okD(9)[OF sample_engine(1)] sample_engine(6)[of k] by (simp_all add: entry_def)
  have meta: "?m = snd (dm_insert (env_hash sample_env) [1] ?md (meta sample_engine))"
    using old(2)[of "[1]"] by (simp add: one_hash_def created_def no_hashes_def register_def register_key_def)
  have get: "dm_ok (env_hash sample_env) ?m" "dm_get (env_hash sample_env) k ?m = (if k = [1] then Some ?md else None)" for k
    using old by (simp_all add: meta dm.lookup_insert)
  then have "{k. dm_get (env_hash sample_env) k ?m \<noteq> None} = {[1]}" by auto
  then have size: "dm_size ?m = 1" using dm.count_card[OF get(1)] by simp
  have shards: "length (dm_shards ?m) = 16" unfolding meta by (simp add: sample_engine_def engine_new_def mm_new_def dm_new_def Let_def)
  have own: "length (filter (\<lambda>(j, _). j = 0) (concat (replicate n [(1 :: nat, 8 :: int), (0, 7)]))) = n" for n by (induction n) simp_all
  have expiry: "\<not> is_expired now ?md" for now by (simp add: is_expired_def km_new_def)
  have "\<exists>ts' s'. full_run sample_env ?sched (map begin_call ?cs) one_hash = (ts', s') \<and> has_written (ts' ! 0)
      \<and> (\<forall>now. \<not> is_expired now ?md \<longrightarrow> fst (eng_hget sample_env now [1] [2] (engine_of s')) = Some [3])
      \<and> (30 + length (dm_shards ?m) + 12 * (dm_size ?m + length ?cs) \<le> 90 \<longrightarrow> (\<exists>r. ts' ! 0 = Answered r))"
  proof (rule hset_not_lost[OF one_hash(1,2) _ get(1) _ unlimited_samples(2) sample_engine(3)])
    show "dm_ok (env_hash sample_env) (objects one_hash ! 0)" by (simp add: one_hash(3) dm_new_spec)
    show "dm_get (env_hash sample_env) [1] ?m = Some ?md" by (simp add: get)
    show "\<forall>(j, now) \<in> set ?sched. \<not> is_expired now ?md" using expiry by blast
    show "\<forall>j < length ?cs. j \<noteq> 0 \<longrightarrow> \<not> writes [1] [2] (?cs ! j)" by (simp add: less_Suc_eq)
    show "90 = length (filter (\<lambda>(j, _). j = 0) ?sched)" unfolding own ..
  qed simp_all
  then show ?thesis using expiry size shards by auto
qed

end
