(* ===== verification/C_Api.thy ===== *)
theory C_Api
  imports Engine_Properties
begin

text \<open>
  \<^verbatim>\<open>src/kv_impl.cpp\<close>: the C interface, a function for every handler of the engine.  A function returns its status, 0 or
  -1, and what it stores through its out pointers: \<open>None\<close> where it stores nothing.  A key or value is the byte list its
  pointer and length denote.

  \<^verbatim>\<open>malloc\<close> is the parameter \<open>A\<close>: \<open>A n\<close> is \<open>None\<close> when it returns NULL, and else the arbitrary contents of the \<open>n\<close> bytes.  The
  functions pass the clock on to the engine.
\<close>

section \<open>Buffers\<close>

type_synonym malloc = "nat \<Rightarrow> str option"

text \<open>A pointer, with the bytes it points at, and a length.\<close>

type_synonym buffer = "str option \<times> nat"

definition malloc_ok :: "malloc \<Rightarrow> bool" where
  "malloc_ok A \<longleftrightarrow> (\<forall>n m. A n = Some m \<longrightarrow> length m = n)"

definition status :: "bool \<Rightarrow> int" where
  "status ok = (if ok then 0 else -1)"

text \<open>Bytes copied to the start of fresh memory of a size, with the length that is reported.\<close>

definition fill :: "malloc \<Rightarrow> nat \<Rightarrow> nat \<Rightarrow> str \<Rightarrow> int \<times> buffer option" where
  "fill A n len v =
     (case A n of
        None \<Rightarrow> (-1, Some (None, len))
      | Some m \<Rightarrow> (0, Some (Some (v @ drop (length v) m), len)))"

text \<open>The endings of the functions that return one value, and of those that return a packed sequence.\<close>

definition give :: "malloc \<Rightarrow> str option \<Rightarrow> int \<times> buffer option" where
  "give A v = (case v of None \<Rightarrow> (-1, None) | Some v \<Rightarrow> fill A (length v) (length v) v)"

definition give_all :: "malloc \<Rightarrow> nat \<Rightarrow> str \<Rightarrow> int \<times> buffer option" where
  "give_all A n v = fill A n n v"

definition give_null :: "int \<times> buffer option" where
  "give_null = (0, Some (None, 0))"

section \<open>Opening\<close>

record c_options =
  c_path :: "str option"
  c_shards :: nat
  c_max_memory_mb :: nat

definition default_options :: options where
  "default_options = \<lparr>opt_path = [], opt_shards = 16, max_mb = 0, eviction = k2Q\<rparr>"

text \<open>\<open>throws\<close>: whether the construction of the engine throws, as when the directory cannot be created.\<close>

definition astrakv_open ::
    "('doc, 'ix, 'db) env \<Rightarrow> (options \<Rightarrow> bool) \<Rightarrow> c_options option \<Rightarrow> ('ix, 'db) engine option" where
  "astrakv_open E throws copts =
     (let o' = default_options;
          o' = (case copts of
                  None \<Rightarrow> o'
                | Some c \<Rightarrow>
                    (let o' = (case c_path c of None \<Rightarrow> o' | Some p \<Rightarrow> o'\<lparr>opt_path := p\<rparr>);
                         o' = (if c_shards c \<noteq> 0 then o'\<lparr>opt_shards := c_shards c\<rparr> else o')
                     in o'\<lparr>max_mb := c_max_memory_mb c\<rparr>))
      in if throws o' then None else Some (engine_new E o'))"

definition astrakv_last_error :: "('ix, 'db) engine \<Rightarrow> str" where
  "astrakv_last_error e = last_error e"

section \<open>Bytes, types and expiry\<close>

definition astrakv_put ::
    "('doc, 'ix, 'db) env \<Rightarrow> int \<Rightarrow> str \<Rightarrow> str \<Rightarrow> ('ix, 'db) engine \<Rightarrow> int \<times> ('ix, 'db) engine" where
  "astrakv_put E now key val e = (let (ok, e) = eng_put E now key val e in (status ok, e))"

definition astrakv_get ::
    "('doc, 'ix, 'db) env \<Rightarrow> malloc \<Rightarrow> int \<Rightarrow> str \<Rightarrow> ('ix, 'db) engine \<Rightarrow> (int \<times> buffer option) \<times> ('ix, 'db) engine" where
  "astrakv_get E A now key e = (let (v, e) = eng_get E now key e in (give A v, e))"

definition astrakv_del :: "('doc, 'ix, 'db) env \<Rightarrow> str \<Rightarrow> ('ix, 'db) engine \<Rightarrow> int \<times> ('ix, 'db) engine" where
  "astrakv_del E key e = (let (ok, e) = eng_del E key e in (status ok, e))"

definition astrakv_exists :: "('doc, 'ix, 'db) env \<Rightarrow> int \<Rightarrow> str \<Rightarrow> ('ix, 'db) engine \<Rightarrow> int \<times> ('ix, 'db) engine" where
  "astrakv_exists E now key e = (let (ok, e) = eng_exists E now key e in (status ok, e))"

fun type_number :: "key_type \<Rightarrow> int" where
  "type_number kNone = 0" | "type_number kBytes = 1" | "type_number kZSet = 2" | "type_number kList = 3"
| "type_number kHash = 4" | "type_number kSet = 5" | "type_number kStream = 6" | "type_number kJson = 7"
| "type_number kVector = 8"

definition astrakv_type :: "('doc, 'ix, 'db) env \<Rightarrow> int \<Rightarrow> str \<Rightarrow> ('ix, 'db) engine \<Rightarrow> (int \<times> int) \<times> ('ix, 'db) engine" where
  "astrakv_type E now key e = (let (t, e) = eng_type E now key e in ((0, type_number t), e))"

definition astrakv_expire :: "('doc, 'ix, 'db) env \<Rightarrow> int \<Rightarrow> str \<Rightarrow> int \<Rightarrow> ('ix, 'db) engine \<Rightarrow> int \<times> ('ix, 'db) engine" where
  "astrakv_expire E now key ms e = (let (ok, e) = eng_expire E now key ms e in (status ok, e))"

text \<open>A number where there is one.\<close>

definition answer :: "'a option \<Rightarrow> int \<times> 'a option" where
  "answer v = (status (v \<noteq> None), v)"

definition astrakv_ttl :: "('doc, 'ix, 'db) env \<Rightarrow> int \<Rightarrow> str \<Rightarrow> ('ix, 'db) engine \<Rightarrow> (int \<times> int option) \<times> ('ix, 'db) engine" where
  "astrakv_ttl E now key e = (let (v, e) = eng_ttl E now key e in (answer v, e))"

section \<open>Sorted sets\<close>

definition astrakv_zadd ::
    "('doc, 'ix, 'db) env \<Rightarrow> int \<Rightarrow> str \<Rightarrow> str \<Rightarrow> double \<Rightarrow> ('ix, 'db) engine \<Rightarrow> int \<times> ('ix, 'db) engine" where
  "astrakv_zadd E now key member score e = (let (ok, e) = eng_zadd E now key member score e in (status ok, e))"

definition astrakv_zscore ::
    "('doc, 'ix, 'db) env \<Rightarrow> int \<Rightarrow> str \<Rightarrow> str \<Rightarrow> ('ix, 'db) engine \<Rightarrow> (int \<times> double option) \<times> ('ix, 'db) engine" where
  "astrakv_zscore E now key member e = (let (v, e) = eng_zscore E now key member e in (answer v, e))"

definition astrakv_zrem :: "('doc, 'ix, 'db) env \<Rightarrow> str \<Rightarrow> str \<Rightarrow> ('ix, 'db) engine \<Rightarrow> int \<times> ('ix, 'db) engine" where
  "astrakv_zrem E key member e = (let (ok, e) = eng_zrem E key member e in (status ok, e))"

definition astrakv_zcard :: "('doc, 'ix, 'db) env \<Rightarrow> str \<Rightarrow> ('ix, 'db) engine \<Rightarrow> (int \<times> int) \<times> ('ix, 'db) engine" where
  "astrakv_zcard E key e = (let (n, e) = eng_zcard E key e in ((0, n), e))"

text \<open>The packed form of members and scores.\<close>

definition pack_scored :: "malloc \<Rightarrow> (str \<times> double) list \<Rightarrow> int \<times> buffer option" where
  "pack_scored A entries =
     (if entries = [] then give_null
      else give_all A (sum_list (map (\<lambda>(member, score). 4 + length member + 8) entries)) (concat (map put_scored entries)))"

definition astrakv_zrange ::
    "('doc, 'ix, 'db) env \<Rightarrow> malloc \<Rightarrow> str \<Rightarrow> int \<Rightarrow> int \<Rightarrow> int \<Rightarrow> ('ix, 'db) engine \<Rightarrow> (int \<times> buffer option) \<times> ('ix, 'db) engine" where
  "astrakv_zrange E A key start stop reverse e =
     (let (entries, e) = eng_zrange E key start stop (reverse \<noteq> 0) e in (pack_scored A entries, e))"

text \<open>\<open>None\<close>, as in the engine, would be a scan that does not end.\<close>

definition astrakv_zrangebyscore ::
    "('doc, 'ix, 'db) env \<Rightarrow> malloc \<Rightarrow> str \<Rightarrow> double \<Rightarrow> double \<Rightarrow> ('ix, 'db) engine
       \<Rightarrow> (int \<times> buffer option) option \<times> ('ix, 'db) engine" where
  "astrakv_zrangebyscore E A key lo hi e =
     (let (entries, e) = eng_zrangebyscore E key lo hi e in (map_option (pack_scored A) entries, e))"

section \<open>Lists\<close>

definition astrakv_lpush ::
    "('doc, 'ix, 'db) env \<Rightarrow> int \<Rightarrow> str \<Rightarrow> str \<Rightarrow> ('ix, 'db) engine \<Rightarrow> int \<times> ('ix, 'db) engine" where
  "astrakv_lpush E now key val e = (let (ok, e) = eng_lpush E now key val e in (status ok, e))"

definition astrakv_rpush ::
    "('doc, 'ix, 'db) env \<Rightarrow> int \<Rightarrow> str \<Rightarrow> str \<Rightarrow> ('ix, 'db) engine \<Rightarrow> int \<times> ('ix, 'db) engine" where
  "astrakv_rpush E now key val e = (let (ok, e) = eng_rpush E now key val e in (status ok, e))"

definition astrakv_lpop ::
    "('doc, 'ix, 'db) env \<Rightarrow> malloc \<Rightarrow> str \<Rightarrow> ('ix, 'db) engine \<Rightarrow> (int \<times> buffer option) \<times> ('ix, 'db) engine" where
  "astrakv_lpop E A key e = (let (v, e) = eng_lpop E key e in (give A v, e))"

definition astrakv_rpop ::
    "('doc, 'ix, 'db) env \<Rightarrow> malloc \<Rightarrow> str \<Rightarrow> ('ix, 'db) engine \<Rightarrow> (int \<times> buffer option) \<times> ('ix, 'db) engine" where
  "astrakv_rpop E A key e = (let (v, e) = eng_rpop E key e in (give A v, e))"

definition astrakv_llen :: "('doc, 'ix, 'db) env \<Rightarrow> str \<Rightarrow> ('ix, 'db) engine \<Rightarrow> (int \<times> int) \<times> ('ix, 'db) engine" where
  "astrakv_llen E key e = (let (n, e) = eng_llen E key e in ((0, n), e))"

section \<open>Hashes\<close>

definition astrakv_hset ::
    "('doc, 'ix, 'db) env \<Rightarrow> int \<Rightarrow> str \<Rightarrow> str \<Rightarrow> str \<Rightarrow> ('ix, 'db) engine \<Rightarrow> int \<times> ('ix, 'db) engine" where
  "astrakv_hset E now key field val e = (let (ok, e) = eng_hset E now key field val e in (status ok, e))"

definition astrakv_hget ::
    "('doc, 'ix, 'db) env \<Rightarrow> malloc \<Rightarrow> int \<Rightarrow> str \<Rightarrow> str \<Rightarrow> ('ix, 'db) engine \<Rightarrow> (int \<times> buffer option) \<times> ('ix, 'db) engine" where
  "astrakv_hget E A now key field e = (let (v, e) = eng_hget E now key field e in (give A v, e))"

definition astrakv_hdel :: "('doc, 'ix, 'db) env \<Rightarrow> str \<Rightarrow> str \<Rightarrow> ('ix, 'db) engine \<Rightarrow> int \<times> ('ix, 'db) engine" where
  "astrakv_hdel E key field e = (let (ok, e) = eng_hdel E key field e in (status ok, e))"

definition astrakv_hexists ::
    "('doc, 'ix, 'db) env \<Rightarrow> int \<Rightarrow> str \<Rightarrow> str \<Rightarrow> ('ix, 'db) engine \<Rightarrow> int \<times> ('ix, 'db) engine" where
  "astrakv_hexists E now key field e = (let (ok, e) = eng_hexists E now key field e in (status ok, e))"

text \<open>The packed form is gathered in a string by \<^verbatim>\<open>append\<close>, with the full bytes after a length of 32 bits.\<close>

definition append_sized :: "str \<Rightarrow> str \<Rightarrow> str" where
  "append_sized s buf = buf @ put_u32 (of_nat (length s)) @ s"

definition give_string :: "malloc \<Rightarrow> str \<Rightarrow> int \<times> buffer option" where
  "give_string A buf = (if buf = [] then give_null else give_all A (length buf) buf)"

definition astrakv_hgetall ::
    "('doc, 'ix, 'db) env \<Rightarrow> malloc \<Rightarrow> str \<Rightarrow> ('ix, 'db) engine \<Rightarrow> (int \<times> buffer option) \<times> ('ix, 'db) engine" where
  "astrakv_hgetall E A key e =
     (let (buf, e) = for_each_hash E key (\<lambda>field val buf. append_sized val (append_sized field buf)) [] e
      in (give_string A buf, e))"

definition astrakv_hlen :: "('doc, 'ix, 'db) env \<Rightarrow> str \<Rightarrow> ('ix, 'db) engine \<Rightarrow> (int \<times> int) \<times> ('ix, 'db) engine" where
  "astrakv_hlen E key e = (let (n, e) = eng_hlen E key e in ((0, n), e))"

definition astrakv_hincrby ::
    "('doc, 'ix, 'db) env \<Rightarrow> str \<Rightarrow> str \<Rightarrow> int \<Rightarrow> ('ix, 'db) engine \<Rightarrow> (int \<times> int) \<times> ('ix, 'db) engine" where
  "astrakv_hincrby E key field delta e = (let (v, e) = eng_hincrby E key field delta e in ((0, v), e))"

text \<open>The callback acts on a state of the caller's; the caller may pass none.\<close>

definition astrakv_hscan ::
    "('doc, 'ix, 'db) env \<Rightarrow> str \<Rightarrow> (str \<Rightarrow> str \<Rightarrow> 's \<Rightarrow> 's) option \<Rightarrow> 's \<Rightarrow> ('ix, 'db) engine \<Rightarrow> (int \<times> 's) \<times> ('ix, 'db) engine" where
  "astrakv_hscan E key cb userdata e =
     (case cb of
        None \<Rightarrow> ((-1, userdata), e)
      | Some cb \<Rightarrow> (let (userdata, e) = for_each_hash E key cb userdata e in ((0, userdata), e)))"

section \<open>Sets\<close>

definition astrakv_sadd ::
    "('doc, 'ix, 'db) env \<Rightarrow> int \<Rightarrow> str \<Rightarrow> str \<Rightarrow> ('ix, 'db) engine \<Rightarrow> int \<times> ('ix, 'db) engine" where
  "astrakv_sadd E now key member e = (let (ok, e) = eng_sadd E now key member e in (status ok, e))"

definition astrakv_srem :: "('doc, 'ix, 'db) env \<Rightarrow> str \<Rightarrow> str \<Rightarrow> ('ix, 'db) engine \<Rightarrow> int \<times> ('ix, 'db) engine" where
  "astrakv_srem E key member e = (let (ok, e) = eng_srem E key member e in (status ok, e))"

definition astrakv_sismember ::
    "('doc, 'ix, 'db) env \<Rightarrow> int \<Rightarrow> str \<Rightarrow> str \<Rightarrow> ('ix, 'db) engine \<Rightarrow> int \<times> ('ix, 'db) engine" where
  "astrakv_sismember E now key member e = (let (ok, e) = eng_sismember E now key member e in (status ok, e))"

definition astrakv_smembers ::
    "('doc, 'ix, 'db) env \<Rightarrow> malloc \<Rightarrow> str \<Rightarrow> ('ix, 'db) engine \<Rightarrow> (int \<times> buffer option) \<times> ('ix, 'db) engine" where
  "astrakv_smembers E A key e = (let (buf, e) = for_each_set E key append_sized [] e in (give_string A buf, e))"

definition astrakv_scard :: "('doc, 'ix, 'db) env \<Rightarrow> str \<Rightarrow> ('ix, 'db) engine \<Rightarrow> (int \<times> int) \<times> ('ix, 'db) engine" where
  "astrakv_scard E key e = (let (n, e) = eng_scard E key e in ((0, n), e))"

definition astrakv_sscan ::
    "('doc, 'ix, 'db) env \<Rightarrow> str \<Rightarrow> (str \<Rightarrow> 's \<Rightarrow> 's) option \<Rightarrow> 's \<Rightarrow> ('ix, 'db) engine \<Rightarrow> (int \<times> 's) \<times> ('ix, 'db) engine" where
  "astrakv_sscan E key cb userdata e =
     (case cb of
        None \<Rightarrow> ((-1, userdata), e)
      | Some cb \<Rightarrow> (let (userdata, e) = for_each_set E key cb userdata e in ((0, userdata), e)))"

section \<open>Streams\<close>

text \<open>The fields of a new entry are unpacked from the caller's bytes; a malformed rest is dropped.\<close>

lemma get_blob_shorter: "get_blob extra d = Some (s, d') \<Longrightarrow> length d' + 4 \<le> length d"
  by (auto simp: get_blob_def get_u32_def split: option.splits if_splits)

lemma get_pair_shorter: "get_pair extra d = Some (fv, d') \<Longrightarrow> length d' < length d"
  by (fastforce simp: get_pair_def dest!: get_blob_shorter split: option.splits)

function parse_fields :: "str \<Rightarrow> (str \<times> str) list \<Rightarrow> (str \<times> str) list" where
  "parse_fields d fvec =
     (if length d < 4 then fvec
      else (case get_pair 0 d of
              None \<Rightarrow> fvec
            | Some (fv, d') \<Rightarrow> parse_fields d' (fvec @ [fv])))"
  by pat_completeness auto
termination
  by (relation "measure (\<lambda>(d, fvec). length d)") (auto dest: get_pair_shorter)

declare parse_fields.simps [simp del]

definition astrakv_xadd ::
    "('doc, 'ix, 'db) env \<Rightarrow> malloc \<Rightarrow> int \<Rightarrow> str \<Rightarrow> str \<Rightarrow> str \<Rightarrow> ('ix, 'db) engine \<Rightarrow> (int \<times> str option option) \<times> ('ix, 'db) engine" where
  "astrakv_xadd E A now key ident flds e =
     (let (result_id, e) = eng_xadd E now key ident (parse_fields flds []) e in
      if result_id = [] then ((-1, None), e)
      else (case A (length result_id + 1) of
              None \<Rightarrow> ((-1, Some None), e)
            | Some m \<Rightarrow> ((0, Some (Some (result_id @ [0]))), e)))"

definition pack_entries :: "malloc \<Rightarrow> stream_entry list \<Rightarrow> int \<times> buffer option" where
  "pack_entries A entries =
     (if entries = [] then give_null
      else give_all A
        (4 + sum_list (map (\<lambda>e. 4 + length (entry_id e) + 4
               + sum_list (map (\<lambda>(f, v). 4 + length f + 4 + length v) (entry_fields e))) entries))
        (put_u32 (of_nat (length entries)) @ concat (map put_entry entries)))"

definition astrakv_xread ::
    "('doc, 'ix, 'db) env \<Rightarrow> malloc \<Rightarrow> int \<Rightarrow> str \<Rightarrow> str \<Rightarrow> int \<Rightarrow> ('ix, 'db) engine \<Rightarrow> (int \<times> buffer option) \<times> ('ix, 'db) engine" where
  "astrakv_xread E A now key start_id count e =
     (let (entries, e) = eng_xread E now key start_id count e in (pack_entries A entries, e))"

definition astrakv_xrange ::
    "('doc, 'ix, 'db) env \<Rightarrow> malloc \<Rightarrow> int \<Rightarrow> str \<Rightarrow> str \<Rightarrow> str \<Rightarrow> int \<Rightarrow> ('ix, 'db) engine \<Rightarrow> (int \<times> buffer option) \<times> ('ix, 'db) engine" where
  "astrakv_xrange E A now key start_id end_id count e =
     (let (entries, e) = eng_xrange E now key start_id end_id count e in (pack_entries A entries, e))"

definition astrakv_xlen :: "('doc, 'ix, 'db) env \<Rightarrow> int \<Rightarrow> str \<Rightarrow> ('ix, 'db) engine \<Rightarrow> (int \<times> int) \<times> ('ix, 'db) engine" where
  "astrakv_xlen E now key e = (let (n, e) = eng_xlen E now key e in ((0, n), e))"

definition astrakv_xdel ::
    "('doc, 'ix, 'db) env \<Rightarrow> int \<Rightarrow> str \<Rightarrow> str \<Rightarrow> ('ix, 'db) engine \<Rightarrow> int \<times> ('ix, 'db) engine" where
  "astrakv_xdel E now key ident e = (let (ok, e) = eng_xdel E now key ident e in (status ok, e))"

definition astrakv_xtrim ::
    "('doc, 'ix, 'db) env \<Rightarrow> int \<Rightarrow> str \<Rightarrow> int \<Rightarrow> ('ix, 'db) engine \<Rightarrow> (int \<times> int) \<times> ('ix, 'db) engine" where
  "astrakv_xtrim E now key maxlen e = (let (n, e) = eng_xtrim E now key maxlen e in ((0, n), e))"

section \<open>JSON\<close>

definition astrakv_jsonset ::
    "('doc, 'ix, 'db) env \<Rightarrow> str \<Rightarrow> str \<Rightarrow> str \<Rightarrow> ('ix, 'db) engine \<Rightarrow> int \<times> ('ix, 'db) engine" where
  "astrakv_jsonset E key path json_val e = (let (ok, e) = eng_jsonset E key path json_val e in (status ok, e))"

definition astrakv_jsonget ::
    "('doc, 'ix, 'db) env \<Rightarrow> malloc \<Rightarrow> int \<Rightarrow> str \<Rightarrow> str \<Rightarrow> ('ix, 'db) engine \<Rightarrow> (int \<times> buffer option) \<times> ('ix, 'db) engine" where
  "astrakv_jsonget E A now key path e =
     (let (v, e) = eng_jsonget E now key path e in
      (case v of None \<Rightarrow> (-1, None) | Some v \<Rightarrow> fill A (length v + 1) (length v) (v @ [0]), e))"

definition astrakv_jsondel :: "('doc, 'ix, 'db) env \<Rightarrow> str \<Rightarrow> str \<Rightarrow> ('ix, 'db) engine \<Rightarrow> int \<times> ('ix, 'db) engine" where
  "astrakv_jsondel E key path e = (let (ok, e) = eng_jsondel E key path e in (status ok, e))"

section \<open>Vectors\<close>

definition astrakv_vecadd ::
    "('doc, 'ix, 'db) env \<Rightarrow> int \<Rightarrow> str \<Rightarrow> str \<Rightarrow> float32 list \<Rightarrow> ('ix, 'db) engine \<Rightarrow> int \<times> ('ix, 'db) engine" where
  "astrakv_vecadd E now key ident v e = (let (ok, e) = eng_vecadd E now key ident v e in (status ok, e))"

text \<open>The length that is reported counts floats, four bytes each.\<close>

definition astrakv_vecget ::
    "('doc, 'ix, 'db) env \<Rightarrow> malloc \<Rightarrow> int \<Rightarrow> str \<Rightarrow> str \<Rightarrow> ('ix, 'db) engine \<Rightarrow> (int \<times> buffer option) \<times> ('ix, 'db) engine" where
  "astrakv_vecget E A now key ident e =
     (let (v, e) = eng_vecget E now key ident e in
      (if v = [] then (-1, None) else fill A (length v * 4) (length v) (concat (map put_float v)), e))"

definition astrakv_vecdel :: "('doc, 'ix, 'db) env \<Rightarrow> str \<Rightarrow> str \<Rightarrow> ('ix, 'db) engine \<Rightarrow> int \<times> ('ix, 'db) engine" where
  "astrakv_vecdel E key ident e = (let (ok, e) = eng_vecdel E key ident e in (status ok, e))"

definition put_distance :: "str \<times> float32 \<Rightarrow> str" where
  "put_distance p = (case p of (ident, distance) \<Rightarrow> put_blob ident @ put_float distance)"

definition pack_distances :: "malloc \<Rightarrow> (str \<times> float32) list \<Rightarrow> int \<times> buffer option" where
  "pack_distances A results =
     (if results = [] then give_null
      else give_all A (4 + sum_list (map (\<lambda>(ident, distance). 4 + length ident + 4) results))
        (put_u32 (of_nat (length results)) @ concat (map put_distance results)))"

definition astrakv_vecsearch ::
    "('doc, 'ix, 'db) env \<Rightarrow> malloc \<Rightarrow> int \<Rightarrow> str \<Rightarrow> float32 list \<Rightarrow> nat \<Rightarrow> ('ix, 'db) engine \<Rightarrow> (int \<times> buffer option) \<times> ('ix, 'db) engine" where
  "astrakv_vecsearch E A now key query k e =
     (let (results, e) = eng_vecsearch E now key query k e in (pack_distances A results, e))"

definition astrakv_vecsize :: "('doc, 'ix, 'db) env \<Rightarrow> str \<Rightarrow> ('ix, 'db) engine \<Rightarrow> (int \<times> int) \<times> ('ix, 'db) engine" where
  "astrakv_vecsize E key e = (let (n, e) = eng_vecsize E key e in ((0, n), e))"

section \<open>Iterators\<close>

record iter =
  iter_entries :: "(str \<times> str) list"
  iter_pos :: nat

definition astrakv_iter_create :: "('doc, 'ix, 'db) env \<Rightarrow> ('ix, 'db) engine \<Rightarrow> iter" where
  "astrakv_iter_create E e = \<lparr>iter_entries = eng_all_entries E e, iter_pos = 0\<rparr>"

text \<open>The copies are made without asking whether \<^verbatim>\<open>malloc\<close> returned NULL: \<open>None\<close> is the crash.\<close>

definition copy_out :: "malloc \<Rightarrow> str \<Rightarrow> buffer option" where
  "copy_out A v =
     (case A (length v) of
        None \<Rightarrow> if v = [] then Some (None, 0) else None
      | Some m \<Rightarrow> Some (Some v, length v))"

definition astrakv_iter_next :: "malloc \<Rightarrow> iter \<Rightarrow> (int \<times> (buffer \<times> buffer) option) option \<times> iter" where
  "astrakv_iter_next A it =
     (if iter_pos it \<ge> length (iter_entries it) then (Some (-1, None), it)
      else (let (k, v) = iter_entries it ! iter_pos it; it = it\<lparr>iter_pos := iter_pos it + 1\<rparr> in
            (case copy_out A k of
               None \<Rightarrow> (None, it)
             | Some key \<Rightarrow> (case copy_out A v of None \<Rightarrow> (None, it) | Some val \<Rightarrow> (Some (0, Some (key, val)), it)))))"

section \<open>Statistics and maintenance\<close>

definition astrakv_count :: "('ix, 'db) engine \<Rightarrow> int" where
  "astrakv_count e = eng_count e"

definition astrakv_memory_usage :: "('doc, 'ix, 'db) env \<Rightarrow> ('ix, 'db) engine \<Rightarrow> int" where
  "astrakv_memory_usage E e = memory_usage E e"

definition astrakv_stats :: "('doc, 'ix, 'db) env \<Rightarrow> ('ix, 'db) engine \<Rightarrow> int \<times> stats" where
  "astrakv_stats E e = (0, eng_stats E e)"

text \<open>
  The policies by their numbers.  The engine's enumeration has eight bits, to which the cast cuts the caller's number; the
  numbers that name no policy are not modelled.
\<close>

definition policies :: "eviction_policy list" where
  "policies = [kNoEviction, kAllKeysLRU, kVolatileLRU, kAllKeysLFU, kVolatileLFU, kAllKeysRandom, kVolatileRandom, kVolatileTTL, k2Q]"

definition policy_of :: "int \<Rightarrow> eviction_policy option" where
  "policy_of n = (let i = nat (n mod 256) in if i < length policies then Some (policies ! i) else None)"

definition policy_number :: "eviction_policy \<Rightarrow> int" where
  "policy_number p = int (length (takeWhile (\<lambda>q. q \<noteq> p) policies))"

definition astrakv_set_eviction :: "int \<Rightarrow> ('ix, 'db) engine \<Rightarrow> (int \<times> ('ix, 'db) engine) option" where
  "astrakv_set_eviction n e = (case policy_of n of None \<Rightarrow> None | Some p \<Rightarrow> Some (0, set_eviction p e))"

definition astrakv_get_eviction :: "('ix, 'db) engine \<Rightarrow> int \<times> int" where
  "astrakv_get_eviction e = (0, policy_number (get_eviction e))"

definition astrakv_cleanup_expired :: "('doc, 'ix, 'db) env \<Rightarrow> int \<Rightarrow> ('ix, 'db) engine \<Rightarrow> int \<times> ('ix, 'db) engine" where
  "astrakv_cleanup_expired E now e = cleanup_expired E now e"

end
