(* ===== verification/Kv_Api.thy ===== *)
theory Kv_Api
  imports C_Api
begin

text \<open>
  \<^verbatim>\<open>src/kv.cpp\<close>: the C++ class \<^verbatim>\<open>Kv\<close>.  Its only member is the handle of an engine, every method is the handler of the same
  name; the methods that only read are functions of the engine.
\<close>

section \<open>Construction\<close>

type_synonym ('ix, 'db) kv = "('ix, 'db) engine"

record kv_options =
  kv_path :: str
  kv_shards :: nat
  kv_max_memory_mb :: nat

definition kv_new :: "('doc, 'ix, 'db) env \<Rightarrow> kv_options \<Rightarrow> ('ix, 'db) kv" where
  "kv_new E o' =
     engine_new E \<lparr>opt_path = kv_path o', opt_shards = kv_shards o', max_mb = kv_max_memory_mb o', eviction = k2Q\<rparr>"

section \<open>Bytes and expiry\<close>

definition kv_put :: "('doc, 'ix, 'db) env \<Rightarrow> int \<Rightarrow> str \<Rightarrow> str \<Rightarrow> ('ix, 'db) kv \<Rightarrow> bool \<times> ('ix, 'db) kv" where
  "kv_put E now key val kv = eng_put E now key val kv"

definition kv_get :: "('doc, 'ix, 'db) env \<Rightarrow> int \<Rightarrow> str \<Rightarrow> ('ix, 'db) kv \<Rightarrow> str option \<times> ('ix, 'db) kv" where
  "kv_get E now key kv = eng_get E now key kv"

definition kv_del :: "('doc, 'ix, 'db) env \<Rightarrow> str \<Rightarrow> ('ix, 'db) kv \<Rightarrow> bool \<times> ('ix, 'db) kv" where
  "kv_del E key kv = eng_del E key kv"

definition kv_exists :: "('doc, 'ix, 'db) env \<Rightarrow> int \<Rightarrow> str \<Rightarrow> ('ix, 'db) kv \<Rightarrow> bool \<times> ('ix, 'db) kv" where
  "kv_exists E now key kv = eng_exists E now key kv"

definition kv_expire :: "('doc, 'ix, 'db) env \<Rightarrow> int \<Rightarrow> str \<Rightarrow> int \<Rightarrow> ('ix, 'db) kv \<Rightarrow> bool \<times> ('ix, 'db) kv" where
  "kv_expire E now key ms kv = eng_expire E now key ms kv"

definition kv_ttl :: "('doc, 'ix, 'db) env \<Rightarrow> int \<Rightarrow> str \<Rightarrow> ('ix, 'db) kv \<Rightarrow> int option \<times> ('ix, 'db) kv" where
  "kv_ttl E now key kv = eng_ttl E now key kv"

section \<open>Sorted sets\<close>

definition kv_zadd :: "('doc, 'ix, 'db) env \<Rightarrow> int \<Rightarrow> str \<Rightarrow> str \<Rightarrow> double \<Rightarrow> ('ix, 'db) kv \<Rightarrow> bool \<times> ('ix, 'db) kv" where
  "kv_zadd E now key member score kv = eng_zadd E now key member score kv"

definition kv_zscore :: "('doc, 'ix, 'db) env \<Rightarrow> int \<Rightarrow> str \<Rightarrow> str \<Rightarrow> ('ix, 'db) kv \<Rightarrow> double option \<times> ('ix, 'db) kv" where
  "kv_zscore E now key member kv = eng_zscore E now key member kv"

definition kv_zrem :: "('doc, 'ix, 'db) env \<Rightarrow> str \<Rightarrow> str \<Rightarrow> ('ix, 'db) kv \<Rightarrow> bool \<times> ('ix, 'db) kv" where
  "kv_zrem E key member kv = eng_zrem E key member kv"

definition kv_zcard :: "('doc, 'ix, 'db) env \<Rightarrow> str \<Rightarrow> ('ix, 'db) kv \<Rightarrow> int \<times> ('ix, 'db) kv" where
  "kv_zcard E key kv = eng_zcard E key kv"

definition kv_zrange :: "('doc, 'ix, 'db) env \<Rightarrow> str \<Rightarrow> int \<Rightarrow> int \<Rightarrow> bool \<Rightarrow> ('ix, 'db) kv \<Rightarrow> (str \<times> double) list \<times> ('ix, 'db) kv" where
  "kv_zrange E key start stop reverse kv = eng_zrange E key start stop reverse kv"

definition kv_zrangebyscore :: "('doc, 'ix, 'db) env \<Rightarrow> str \<Rightarrow> double \<Rightarrow> double \<Rightarrow> ('ix, 'db) kv \<Rightarrow> (str \<times> double) list option \<times> ('ix, 'db) kv" where
  "kv_zrangebyscore E key lo hi kv = eng_zrangebyscore E key lo hi kv"

section \<open>Lists\<close>

definition kv_lpush :: "('doc, 'ix, 'db) env \<Rightarrow> int \<Rightarrow> str \<Rightarrow> str \<Rightarrow> ('ix, 'db) kv \<Rightarrow> bool \<times> ('ix, 'db) kv" where
  "kv_lpush E now key val kv = eng_lpush E now key val kv"

definition kv_rpush :: "('doc, 'ix, 'db) env \<Rightarrow> int \<Rightarrow> str \<Rightarrow> str \<Rightarrow> ('ix, 'db) kv \<Rightarrow> bool \<times> ('ix, 'db) kv" where
  "kv_rpush E now key val kv = eng_rpush E now key val kv"

definition kv_lpop :: "('doc, 'ix, 'db) env \<Rightarrow> str \<Rightarrow> ('ix, 'db) kv \<Rightarrow> str option \<times> ('ix, 'db) kv" where
  "kv_lpop E key kv = eng_lpop E key kv"

definition kv_rpop :: "('doc, 'ix, 'db) env \<Rightarrow> str \<Rightarrow> ('ix, 'db) kv \<Rightarrow> str option \<times> ('ix, 'db) kv" where
  "kv_rpop E key kv = eng_rpop E key kv"

definition kv_llen :: "('doc, 'ix, 'db) env \<Rightarrow> str \<Rightarrow> ('ix, 'db) kv \<Rightarrow> int \<times> ('ix, 'db) kv" where
  "kv_llen E key kv = eng_llen E key kv"

section \<open>Hashes\<close>

definition kv_hset :: "('doc, 'ix, 'db) env \<Rightarrow> int \<Rightarrow> str \<Rightarrow> str \<Rightarrow> str \<Rightarrow> ('ix, 'db) kv \<Rightarrow> bool \<times> ('ix, 'db) kv" where
  "kv_hset E now key field val kv = eng_hset E now key field val kv"

definition kv_hget :: "('doc, 'ix, 'db) env \<Rightarrow> int \<Rightarrow> str \<Rightarrow> str \<Rightarrow> ('ix, 'db) kv \<Rightarrow> str option \<times> ('ix, 'db) kv" where
  "kv_hget E now key field kv = eng_hget E now key field kv"

definition kv_hdel :: "('doc, 'ix, 'db) env \<Rightarrow> str \<Rightarrow> str \<Rightarrow> ('ix, 'db) kv \<Rightarrow> bool \<times> ('ix, 'db) kv" where
  "kv_hdel E key field kv = eng_hdel E key field kv"

definition kv_hexists :: "('doc, 'ix, 'db) env \<Rightarrow> int \<Rightarrow> str \<Rightarrow> str \<Rightarrow> ('ix, 'db) kv \<Rightarrow> bool \<times> ('ix, 'db) kv" where
  "kv_hexists E now key field kv = eng_hexists E now key field kv"

definition kv_hgetall :: "('doc, 'ix, 'db) env \<Rightarrow> int \<Rightarrow> str \<Rightarrow> ('ix, 'db) kv \<Rightarrow> (str \<times> str) list \<times> ('ix, 'db) kv" where
  "kv_hgetall E now key kv = eng_hgetall E now key kv"

definition kv_hlen :: "('doc, 'ix, 'db) env \<Rightarrow> str \<Rightarrow> ('ix, 'db) kv \<Rightarrow> int \<times> ('ix, 'db) kv" where
  "kv_hlen E key kv = eng_hlen E key kv"

definition kv_hincrby :: "('doc, 'ix, 'db) env \<Rightarrow> str \<Rightarrow> str \<Rightarrow> int \<Rightarrow> ('ix, 'db) kv \<Rightarrow> int \<times> ('ix, 'db) kv" where
  "kv_hincrby E key field delta kv = eng_hincrby E key field delta kv"

section \<open>Sets\<close>

definition kv_sadd :: "('doc, 'ix, 'db) env \<Rightarrow> int \<Rightarrow> str \<Rightarrow> str \<Rightarrow> ('ix, 'db) kv \<Rightarrow> bool \<times> ('ix, 'db) kv" where
  "kv_sadd E now key member kv = eng_sadd E now key member kv"

definition kv_srem :: "('doc, 'ix, 'db) env \<Rightarrow> str \<Rightarrow> str \<Rightarrow> ('ix, 'db) kv \<Rightarrow> bool \<times> ('ix, 'db) kv" where
  "kv_srem E key member kv = eng_srem E key member kv"

definition kv_sismember :: "('doc, 'ix, 'db) env \<Rightarrow> int \<Rightarrow> str \<Rightarrow> str \<Rightarrow> ('ix, 'db) kv \<Rightarrow> bool \<times> ('ix, 'db) kv" where
  "kv_sismember E now key member kv = eng_sismember E now key member kv"

definition kv_smembers :: "('doc, 'ix, 'db) env \<Rightarrow> int \<Rightarrow> str \<Rightarrow> ('ix, 'db) kv \<Rightarrow> str list \<times> ('ix, 'db) kv" where
  "kv_smembers E now key kv = eng_smembers E now key kv"

definition kv_scard :: "('doc, 'ix, 'db) env \<Rightarrow> str \<Rightarrow> ('ix, 'db) kv \<Rightarrow> int \<times> ('ix, 'db) kv" where
  "kv_scard E key kv = eng_scard E key kv"

section \<open>Streams\<close>

definition kv_xadd :: "('doc, 'ix, 'db) env \<Rightarrow> int \<Rightarrow> str \<Rightarrow> str \<Rightarrow> (str \<times> str) list \<Rightarrow> ('ix, 'db) kv \<Rightarrow> str \<times> ('ix, 'db) kv" where
  "kv_xadd E now key ident flds kv = eng_xadd E now key ident flds kv"

definition kv_xread :: "('doc, 'ix, 'db) env \<Rightarrow> int \<Rightarrow> str \<Rightarrow> str \<Rightarrow> int \<Rightarrow> ('ix, 'db) kv \<Rightarrow> stream_entry list \<times> ('ix, 'db) kv" where
  "kv_xread E now key start_id count kv = eng_xread E now key start_id count kv"

definition kv_xrange :: "('doc, 'ix, 'db) env \<Rightarrow> int \<Rightarrow> str \<Rightarrow> str \<Rightarrow> str \<Rightarrow> int \<Rightarrow> ('ix, 'db) kv \<Rightarrow> stream_entry list \<times> ('ix, 'db) kv" where
  "kv_xrange E now key start_id end_id count kv = eng_xrange E now key start_id end_id count kv"

definition kv_xlen :: "('doc, 'ix, 'db) env \<Rightarrow> int \<Rightarrow> str \<Rightarrow> ('ix, 'db) kv \<Rightarrow> int \<times> ('ix, 'db) kv" where
  "kv_xlen E now key kv = eng_xlen E now key kv"

definition kv_xdel :: "('doc, 'ix, 'db) env \<Rightarrow> int \<Rightarrow> str \<Rightarrow> str \<Rightarrow> ('ix, 'db) kv \<Rightarrow> bool \<times> ('ix, 'db) kv" where
  "kv_xdel E now key ident kv = eng_xdel E now key ident kv"

definition kv_xtrim :: "('doc, 'ix, 'db) env \<Rightarrow> int \<Rightarrow> str \<Rightarrow> int \<Rightarrow> ('ix, 'db) kv \<Rightarrow> int \<times> ('ix, 'db) kv" where
  "kv_xtrim E now key maxlen kv = eng_xtrim E now key maxlen kv"

section \<open>JSON\<close>

definition kv_jsonset :: "('doc, 'ix, 'db) env \<Rightarrow> str \<Rightarrow> str \<Rightarrow> str \<Rightarrow> ('ix, 'db) kv \<Rightarrow> bool \<times> ('ix, 'db) kv" where
  "kv_jsonset E key path json_value kv = eng_jsonset E key path json_value kv"

definition kv_jsonget :: "('doc, 'ix, 'db) env \<Rightarrow> int \<Rightarrow> str \<Rightarrow> str \<Rightarrow> ('ix, 'db) kv \<Rightarrow> str option \<times> ('ix, 'db) kv" where
  "kv_jsonget E now key path kv = eng_jsonget E now key path kv"

definition kv_jsondel :: "('doc, 'ix, 'db) env \<Rightarrow> str \<Rightarrow> str \<Rightarrow> ('ix, 'db) kv \<Rightarrow> bool \<times> ('ix, 'db) kv" where
  "kv_jsondel E key path kv = eng_jsondel E key path kv"

section \<open>Vectors\<close>

definition kv_vecadd :: "('doc, 'ix, 'db) env \<Rightarrow> int \<Rightarrow> str \<Rightarrow> str \<Rightarrow> float32 list \<Rightarrow> ('ix, 'db) kv \<Rightarrow> bool \<times> ('ix, 'db) kv" where
  "kv_vecadd E now key ident v kv = eng_vecadd E now key ident v kv"

definition kv_vecget :: "('doc, 'ix, 'db) env \<Rightarrow> int \<Rightarrow> str \<Rightarrow> str \<Rightarrow> ('ix, 'db) kv \<Rightarrow> float32 list \<times> ('ix, 'db) kv" where
  "kv_vecget E now key ident kv = eng_vecget E now key ident kv"

definition kv_vecdel :: "('doc, 'ix, 'db) env \<Rightarrow> str \<Rightarrow> str \<Rightarrow> ('ix, 'db) kv \<Rightarrow> bool \<times> ('ix, 'db) kv" where
  "kv_vecdel E key ident kv = eng_vecdel E key ident kv"

definition kv_vecsearch :: "('doc, 'ix, 'db) env \<Rightarrow> int \<Rightarrow> str \<Rightarrow> float32 list \<Rightarrow> nat \<Rightarrow> ('ix, 'db) kv \<Rightarrow> (str \<times> float32) list \<times> ('ix, 'db) kv" where
  "kv_vecsearch E now key query k kv = eng_vecsearch E now key query k kv"

definition kv_vecsize :: "('doc, 'ix, 'db) env \<Rightarrow> str \<Rightarrow> ('ix, 'db) kv \<Rightarrow> int \<times> ('ix, 'db) kv" where
  "kv_vecsize E key kv = eng_vecsize E key kv"

section \<open>Statistics, policy, iteration\<close>

definition kv_stats :: "('doc, 'ix, 'db) env \<Rightarrow> ('ix, 'db) kv \<Rightarrow> stats" where
  "kv_stats E kv = eng_stats E kv"

definition kv_count :: "('ix, 'db) kv \<Rightarrow> int" where
  "kv_count kv = eng_count kv"

definition kv_memory_usage :: "('doc, 'ix, 'db) env \<Rightarrow> ('ix, 'db) kv \<Rightarrow> int" where
  "kv_memory_usage E kv = memory_usage E kv"

definition kv_set_eviction :: "eviction_policy \<Rightarrow> ('ix, 'db) kv \<Rightarrow> ('ix, 'db) kv" where
  "kv_set_eviction p kv = set_eviction p kv"

definition kv_get_eviction :: "('ix, 'db) kv \<Rightarrow> eviction_policy" where
  "kv_get_eviction kv = get_eviction kv"

definition kv_iter :: "('doc, 'ix, 'db) env \<Rightarrow> ('ix, 'db) kv \<Rightarrow> iter" where
  "kv_iter E kv = \<lparr>iter_entries = eng_all_entries E kv, iter_pos = 0\<rparr>"

definition kv_next :: "iter \<Rightarrow> (str \<times> str) option \<times> iter" where
  "kv_next it =
     (if iter_pos it \<ge> length (iter_entries it) then (None, it)
      else (Some (iter_entries it ! iter_pos it), it\<lparr>iter_pos := iter_pos it + 1\<rparr>))"

text \<open>The two overloads for strings of \<^verbatim>\<open>include/astrakv/kv.hpp\<close>.\<close>

definition put_str :: "('doc, 'ix, 'db) env \<Rightarrow> int \<Rightarrow> str \<Rightarrow> str \<Rightarrow> ('ix, 'db) kv \<Rightarrow> bool \<times> ('ix, 'db) kv" where
  "put_str E now key val kv = kv_put E now key val kv"

definition get_str :: "('doc, 'ix, 'db) env \<Rightarrow> int \<Rightarrow> str \<Rightarrow> ('ix, 'db) kv \<Rightarrow> str option \<times> ('ix, 'db) kv" where
  "get_str E now key kv = kv_get E now key kv"

end
