(* ===== verification/Engine_Eviction.thy ===== *)
theory Engine_Eviction
  imports Engine_Properties
begin

text \<open>
  What the eviction of \<^verbatim>\<open>check_memory_and_evict\<close> does to the state: a key is left alone, or the value of its registered
  type is moved to the database and its metadata entry dropped; and how many keys the policies that compare the access
  statistics really evict.
\<close>

section \<open>Moving one key\<close>

definition without :: "key_type \<Rightarrow> 'ix holding \<Rightarrow> 'ix holding" where
  "without t h =
     (case t of
        kBytes \<Rightarrow> h\<lparr>held_bytes := None\<rparr> | kZSet \<Rightarrow> h\<lparr>held_zset := None\<rparr> | kList \<Rightarrow> h\<lparr>held_list := None\<rparr>
      | kHash \<Rightarrow> h\<lparr>held_hash := None\<rparr> | kSet \<Rightarrow> h\<lparr>held_set := None\<rparr> | kStream \<Rightarrow> h\<lparr>held_stream := None\<rparr>
      | kJson \<Rightarrow> h\<lparr>held_json := None\<rparr> | kVector \<Rightarrow> h\<lparr>held_vector := None\<rparr> | kNone \<Rightarrow> h)"

text \<open>The byte form of the value of a type, where there is one.\<close>

definition saved :: "('doc, 'ix, 'db) env \<Rightarrow> key_type \<Rightarrow> 'ix holding \<Rightarrow> str option" where
  "saved E t h =
     (case t of
        kBytes \<Rightarrow> held_bytes h | kZSet \<Rightarrow> map_option (serialize_zset (env_order E)) (held_zset h)
      | kList \<Rightarrow> map_option serialize_list (held_list h) | kHash \<Rightarrow> map_option (serialize_hash (env_order E)) (held_hash h)
      | kSet \<Rightarrow> map_option (serialize_set (env_order E)) (held_set h) | kStream \<Rightarrow> map_option serialize_stream (held_stream h)
      | kJson \<Rightarrow> held_json h | kVector \<Rightarrow> map_option serialize_vector (held_vector h) | kNone \<Rightarrow> None)"

context container
begin

lemma remove_frame [simp]:
  "entry E (snd (slot_remove E s k' e)) k = entry E e k" "db_get E k (snd (slot_remove E s k' e)) = db_get E k e"
  "db_ready E C (snd (slot_remove E s k' e)) = db_ready E C e"
  by (simp_all add: entry_def db_get_def db_ready_def)

lemma persist_frame [simp]:
  "entry E (persist_value E s k' c e) k = entry E e k" "db_ready E C (persist_value E s k' c e) = db_ready E C e"
  "(rocksdb (persist_value E s k' c e) = None) = (rocksdb e = None)"
  by (auto simp: persist_value_def db_put_def entry_def db_ready_def split: option.splits)

lemma evict_slot_frame:
  "entry E (evict_slot E s k' e) k = entry E e k" "db_ready E C (evict_slot E s k' e) = db_ready E C e"
  "(rocksdb (evict_slot E s k' e) = None) = (rocksdb e = None)"
  by (simp_all add: evict_slot_def split: option.splits)

lemma evict_slot_opts: "opts (evict_slot E s k' e) = opts e"
  by (simp add: evict_slot_def persist_value_def split: option.splits)

lemma evict_slot_db:
  "db_ready E C e \<Longrightarrow> db_get E k (evict_slot E s k' e) =
     (case slot_get E s k' e of Some c \<Rightarrow> if k = k' \<and> rocksdb e \<noteq> None then Some (slot_write s c) else db_get E k e | None \<Rightarrow> db_get E k e)"
  by (simp add: evict_slot_def persist_value_def db_get_put[where C = C] split: option.splits)

end

text \<open>Eviction empties one map at one key.\<close>

lemma held_evict_slot:
  assumes "engine_ok E e"
  shows "held E (evict_slot E (bytes_slot E) k' e) k = (if k = k' then without kBytes (held E e k) else held E e k)"
    "held E (evict_slot E (zset_slot E) k' e) k = (if k = k' then without kZSet (held E e k) else held E e k)"
    "held E (evict_slot E (list_slot E) k' e) k = (if k = k' then without kList (held E e k) else held E e k)"
    "held E (evict_slot E (hash_slot E) k' e) k = (if k = k' then without kHash (held E e k) else held E e k)"
    "held E (evict_slot E (set_slot E) k' e) k = (if k = k' then without kSet (held E e k) else held E e k)"
    "held E (evict_slot E (stream_slot E now) k' e) k = (if k = k' then without kStream (held E e k) else held E e k)"
    "held E (evict_slot E (json_slot E) k' e) k = (if k = k' then without kJson (held E e k) else held E e k)"
    "held E (evict_slot E (vector_slot E) k' e) k = (if k = k' then without kVector (held E e k) else held E e k)"
  using assms
  by (auto simp: evict_slot_def slot_remove_def slot_get_def slot_defs persist_value_def db_put_def split_beta Let_def
      held_def without_def engine_okD split: option.splits)

lemma evict_value_held:
  "engine_ok E e \<Longrightarrow> held E (evict_value E now t k' e) k = (if k = k' then without t (held E e k) else held E e k)"
  by (cases t) (simp_all add: held_evict_slot, simp add: without_def)

lemma evict_value_frame:
  "entry E (evict_value E now t k' e) k = entry E e k" "db_ready E C (evict_value E now t k' e) = db_ready E C e"
  "(rocksdb (evict_value E now t k' e) = None) = (rocksdb e = None)"
  by (cases t; simp add: bytes_c.evict_slot_frame zset_c.evict_slot_frame list_c.evict_slot_frame hash_c.evict_slot_frame
      set_c.evict_slot_frame stream_c.evict_slot_frame json_c.evict_slot_frame vector_c.evict_slot_frame)+

lemma slot_get_all_held:
  "slot_get E (bytes_slot E) k e = held_bytes (held E e k)" "slot_get E (zset_slot E) k e = held_zset (held E e k)"
  "slot_get E (set_slot E) k e = held_set (held E e k)" "slot_get E (stream_slot E now) k e = held_stream (held E e k)"
  "slot_get E (json_slot E) k e = held_json (held E e k)" "slot_get E (vector_slot E) k e = held_vector (held E e k)"
  by (simp_all add: slot_get_def slot_defs held_def)

lemma slot_writes:
  "slot_write (bytes_slot E) = (\<lambda>v. v)" "slot_write (zset_slot E) = serialize_zset (env_order E)"
  "slot_write (list_slot E) = serialize_list" "slot_write (hash_slot E) = serialize_hash (env_order E)"
  "slot_write (set_slot E) = serialize_set (env_order E)" "slot_write (stream_slot E now) = serialize_stream"
  "slot_write (json_slot E) = (\<lambda>v. v)" "slot_write (vector_slot E) = serialize_vector"
  by (simp_all add: slot_defs)

lemmas evict_slot_dbs = bytes_c.evict_slot_db zset_c.evict_slot_db list_c.evict_slot_db hash_c.evict_slot_db
  set_c.evict_slot_db stream_c.evict_slot_db json_c.evict_slot_db vector_c.evict_slot_db

lemma evict_value_db:
  assumes "db_ready E C e" "rocksdb e \<noteq> None"
  shows "db_get E k (evict_value E now t k' e) =
     (case saved E t (held E e k') of Some b \<Rightarrow> if k = k' then Some b else db_get E k e | None \<Rightarrow> db_get E k e)"
  using assms(2)
  by (cases t) (simp_all add: saved_def slot_get_all_held slot_get_held slot_writes evict_slot_dbs[OF assms(1)] split: option.splits)

section \<open>The loop\<close>

text \<open>
  A key is left alone, or moved out: its metadata entry is gone, and with it its expiry and version; the value of its registered
  type, where memory holds one, is gone from its map and in the database in its byte form; values of other types under the same
  key stay where they are.
\<close>

definition left_alone :: "('doc, 'ix, 'db) env \<Rightarrow> str \<Rightarrow> ('ix, 'db) engine \<Rightarrow> ('ix, 'db) engine \<Rightarrow> bool" where
  "left_alone E k e e' \<longleftrightarrow> entry E e' k = entry E e k \<and> held E e' k = held E e k \<and> db_get E k e' = db_get E k e"

definition moved_out :: "('doc, 'ix, 'db) env \<Rightarrow> str \<Rightarrow> ('ix, 'db) engine \<Rightarrow> ('ix, 'db) engine \<Rightarrow> bool" where
  "moved_out E k e e' \<longleftrightarrow>
     (case entry E e k of
        None \<Rightarrow> False
      | Some md \<Rightarrow>
          entry E e' k = None \<and> held E e' k = without (km_type md) (held E e k)
          \<and> db_get E k e' = (case saved E (km_type md) (held E e k) of Some b \<Rightarrow> Some b | None \<Rightarrow> db_get E k e))"

lemma pick_victim_frame [simp]:
  "entry E (snd (pick_victim E now i cs e)) k = entry E e k" "held E (snd (pick_victim E now i cs e)) k = held E e k"
  "db_get E k (snd (pick_victim E now i cs e)) = db_get E k e" "db_ready E C (snd (pick_victim E now i cs e)) = db_ready E C e"
  "rocksdb (snd (pick_victim E now i cs e)) = rocksdb e" "meta (snd (pick_victim E now i cs e)) = meta e"
  "opts (snd (pick_victim E now i cs e)) = opts e"
  by (simp_all add: pick_victim_def entry_def held_def db_get_def db_ready_def split_beta Let_def)

text \<open>One round of the loop, on a victim.\<close>

definition evict_key ::
    "('doc, 'ix, 'db) env \<Rightarrow> int \<Rightarrow> str \<Rightarrow> ('ix, 'db) engine \<Rightarrow> bool \<times> ('ix, 'db) engine" where
  "evict_key E now v e =
     (let (t, m) = get_key_type (env_hash E) now v (meta e); e = e\<lparr>meta := m\<rparr> in
      case t of
        None \<Rightarrow> (False, e)
      | Some kt \<Rightarrow>
          if kt = kNone then (False, e) else (True, unregister E v (forget_access v (evict_value E now kt v e))))"

lemma evict_loop_step:
  "evict_loop E now limit cs (i # is) n e =
     (if \<not> memory_usage E e > limit then (n, e)
      else (case pick_victim E now i cs e of
              (None, e) \<Rightarrow> (n, e)
            | (Some v, e) \<Rightarrow>
                evict_loop E now limit cs is (if fst (evict_key E now v e) then n + 1 else n) (snd (evict_key E now v e))))"
  by (simp add: evict_key_def split_beta Let_def split: option.split)

lemma key_type_frame [simp]:
  "held E (e\<lparr>meta := m\<rparr>) k = held E e k" "db_get E k (e\<lparr>meta := m\<rparr>) = db_get E k e" "db_ready E C (e\<lparr>meta := m\<rparr>) = db_ready E C e"
  by (simp_all add: held_def db_get_def db_ready_def)

lemma evict_key_ok: "engine_ok E e \<Longrightarrow> engine_ok E (snd (evict_key E now v e))"
  using key_type_ok[of E e now v]
  by (auto simp: evict_key_def split_beta Let_def intro!: unregister_ok forget_access_ok evict_value_ok split: option.splits)

lemma evict_key_ready:
  "db_ready E C (snd (evict_key E now v e)) = db_ready E C e" "(rocksdb (snd (evict_key E now v e)) = None) = (rocksdb e = None)"
  by (simp_all add: evict_key_def split_beta Let_def evict_value_frame split: option.splits)
     (simp_all add: unregister_def forget_access_def evict_value_frame)

lemma entry_of_key_type:
  "engine_ok E e \<Longrightarrow> \<not> due E now e k \<Longrightarrow> entry E (e\<lparr>meta := snd (get_key_type (env_hash E) now v (meta e))\<rparr>) k = entry E e k"
  using get_is_valid[of "env_hash E" "meta e" k now v] engine_okD(9)[of E e]
  by (auto simp: entry_def get_key_type_eq due_def live_def split: option.splits)

lemma evict_key_spec:
  assumes "engine_ok E e" "db_ready E C e" "rocksdb e \<noteq> None" "\<not> due E now e k"
  shows "left_alone E k e (snd (evict_key E now v e)) \<or> moved_out E k e (snd (evict_key E now v e))"
proof -
  obtain t m where tm: "get_key_type (env_hash E) now v (meta e) = (t, m)" by (cases "get_key_type (env_hash E) now v (meta e)")
  let ?e = "e\<lparr>meta := m\<rparr>"
  have e: "engine_ok E ?e" "db_ready E C ?e" "rocksdb ?e \<noteq> None" "entry E ?e k = entry E e k"
    using key_type_ok[OF assms(1), of now v] entry_of_key_type[OF assms(1,4), of v] assms(2,3) by (simp_all add: tm)
  have type: "t = Some kt \<Longrightarrow> v = k \<Longrightarrow> \<exists>md. entry E e k = Some md \<and> km_type md = kt" for kt
    using tm by (auto simp: get_key_type_def entry_def split: option.splits if_splits)
  show ?thesis
  proof (cases "t = None \<or> t = Some kNone")
    case True
    then show ?thesis using e by (auto simp: evict_key_def tm left_alone_def)
  next
    case False
    then obtain kt where kt: "t = Some kt" "kt \<noteq> kNone" by auto
    define w where "w = evict_value E now kt v ?e"
    have w: "engine_ok E w" "entry E w k = entry E e k" "held E w k = (if k = v then without kt (held E e k) else held E e k)"
      "db_get E k w = (case saved E kt (held E e v) of Some b \<Rightarrow> if k = v then Some b else db_get E k e | None \<Rightarrow> db_get E k e)"
      using evict_value_ok[OF e(1), of now kt v] e(4) evict_value_frame(1)[of E now kt v ?e k] evict_value_held[OF e(1), of now kt v k]
        evict_value_db[OF e(2,3), of k now kt v, unfolded key_type_frame] by (simp_all add: w_def)
    have step: "snd (evict_key E now v e) = unregister E v (forget_access v w)" using kt by (simp add: evict_key_def tm w_def)
    show ?thesis
    proof (cases "v = k")
      case True
      then show ?thesis
        unfolding step using type[OF kt(1)] w by (auto simp: moved_out_def entry_unregister forget_access_ok split: option.splits)
    next
      case False
      then show ?thesis
        unfolding step using w by (auto simp: left_alone_def entry_unregister forget_access_ok split: option.splits)
    qed
  qed
qed

text \<open>Rounds compose: a key that was moved out is not found again.\<close>

lemma left_alone_trans: "left_alone E k e e' \<Longrightarrow> left_alone E k e' e'' \<or> moved_out E k e' e'' \<Longrightarrow> left_alone E k e e'' \<or> moved_out E k e e''"
  by (auto simp: left_alone_def moved_out_def split: option.splits)

lemma moved_out_trans: "moved_out E k e e' \<Longrightarrow> left_alone E k e' e'' \<or> moved_out E k e' e'' \<Longrightarrow> moved_out E k e e''"
  by (auto simp: left_alone_def moved_out_def split: option.splits)

lemma evict_loop_spec:
  assumes "engine_ok E e" "db_ready E C e" "rocksdb e \<noteq> None" "\<not> due E now e k"
  shows "left_alone E k e (snd (evict_loop E now limit cs is n e)) \<or> moved_out E k e (snd (evict_loop E now limit cs is n e))"
  using assms
proof (induction "is" arbitrary: n e)
  case Nil
  then show ?case by (simp add: left_alone_def)
next
  case (Cons i "is")
  obtain v p where p: "pick_victim E now i cs e = (v, p)" by (cases "pick_victim E now i cs e")
  note frame = pick_victim_frame[where E = E and now = now and i = i and cs = cs and e = e, unfolded p snd_conv]
  have ok: "engine_ok E p" "db_ready E C p" "rocksdb p \<noteq> None" "\<not> due E now p k"
    using pick_victim_ok[OF Cons.prems(1), of now i cs] Cons.prems frame by (simp_all add: p due_def)
  have same: "left_alone E k e p" using frame by (simp add: left_alone_def)
  show ?case
  proof (cases "memory_usage E e > limit \<and> v \<noteq> None")
    case False
    then show ?thesis using same by (auto simp: evict_loop_step p left_alone_def)
  next
    case True
    then obtain x where x: "v = Some x" by auto
    let ?q = "snd (evict_key E now x p)"
    have q: "engine_ok E ?q" "db_ready E C ?q" "rocksdb ?q \<noteq> None"
      using evict_key_ok[OF ok(1)] ok(2,3) by (simp_all add: evict_key_ready)
    have step: "left_alone E k p ?q \<or> moved_out E k p ?q" by (rule evict_key_spec[OF ok])
    then have "\<not> due E now ?q k" using ok(4) by (auto simp: left_alone_def moved_out_def due_def split: option.splits)
    from Cons.IH[OF q this] have "left_alone E k p (snd (evict_loop E now limit cs is m ?q)) \<or> moved_out E k p (snd (evict_loop E now limit cs is m ?q))" for m
      using step left_alone_trans[of E k p ?q] moved_out_trans[of E k p ?q] by blast
    then show ?thesis
      using left_alone_trans[OF same] True by (simp add: evict_loop_step p x del: evict_loop.simps)
  qed
qed

section \<open>What the check does to a key\<close>

lemma cleanup_key_rocksdb: "(rocksdb (snd (cleanup_key E now k p)) = None) = (rocksdb (snd p) = None)"
  by (cases p) (simp add: cleanup_key_def valid_def db_delete_def forget_access_def split_beta Let_def split: option.splits)

lemma cleanup_rocksdb: "(rocksdb (snd (cleanup_expired E now e)) = None) = (rocksdb e = None)"
proof -
  have "(rocksdb (snd (fold (cleanup_key E now) ks p)) = None) = (rocksdb (snd p) = None)" for ks p
    by (induction ks arbitrary: p) (simp_all add: cleanup_key_rocksdb)
  then show ?thesis by (simp add: cleanup_expired_def split_beta Let_def)
qed

lemma evicted_frame [simp]:
  "left_alone E k e (e'\<lparr>evicted := n\<rparr>) = left_alone E k e e'" "moved_out E k e (e'\<lparr>evicted := n\<rparr>) = moved_out E k e e'"
  by (simp_all add: left_alone_def moved_out_def entry_def held_def db_get_def split: option.splits)

text \<open>
  C5. In an engine with a working database, the check that follows every write does one of two things to a key that has not
  expired, under every policy and any memory limit: nothing, or it moves the key out.  Then the value of its registered type,
  where memory holds one, is removed from its map and the database holds the value's byte form; the metadata entry is lost
  with expiry and version, and values of other types under the key stay in memory.  The witness has a limit of one megabyte and
  a value above it, which the check does move.
\<close>

theorem eviction_moves:
  assumes "engine_ok E e" "db_ready E C e" "visits_all (env_order E)" "rocksdb e \<noteq> None" "\<not> due E now e k"
  shows "left_alone E k e (check_memory_and_evict E now e) \<or> moved_out E k e (check_memory_and_evict E now e)"
proof -
  define c where "c = snd (cleanup_expired E now e)"
  note spec = cleanup_spec[where now = now, OF assms(1-3), folded c_def]
  have same: "left_alone E k e c" using spec(5-7)[of k] assms(5) by (simp add: left_alone_def)
  have c: "engine_ok E c" "db_ready E C c" "rocksdb c \<noteq> None" "\<not> due E now c k"
    using spec(2,3) cleanup_rocksdb[of E now e] assms(4,5) same by (simp_all add: c_def[symmetric] left_alone_def due_def)
  have "left_alone E k e (snd (evict_loop E now limit cs is 0 c)) \<or> moved_out E k e (snd (evict_loop E now limit cs is 0 c))" for limit cs "is"
    by (rule left_alone_trans[OF same evict_loop_spec[OF c]])
  then show ?thesis
    using same unfolding check_memory_and_evict_def Let_def split_beta c_def[symmetric] by simp
qed

section \<open>The policies by access time and by frequency\<close>

text \<open>The loops of \<^verbatim>\<open>select_victim_lru\<close> and \<^verbatim>\<open>select_victim_lfu\<close> find the first key with the least score.\<close>

definition least_key :: "('k \<Rightarrow> 'a) \<Rightarrow> 'k list \<Rightarrow> 'a \<Rightarrow> ('k option \<times> 'a :: linorder)" where
  "least_key f keys b = fold (\<lambda>k (best, s). let t = f k in if t < s then (Some k, t) else (best, s)) keys (None, b)"

definition first_least :: "('k \<Rightarrow> 'a :: linorder) \<Rightarrow> 'k list \<Rightarrow> 'k \<Rightarrow> bool" where
  "first_least f keys v \<longleftrightarrow> (\<exists>ys zs. keys = ys @ v # zs \<and> (\<forall>y \<in> set ys. f v < f y) \<and> (\<forall>z \<in> set zs. f v \<le> f z))"

lemma first_least_in: "first_least f keys v \<Longrightarrow> v \<in> set keys"
  and first_least_le: "first_least f keys v \<Longrightarrow> x \<in> set keys \<Longrightarrow> f v \<le> f x"
  by (auto simp: first_least_def less_imp_le)

lemma first_least_new: "\<forall>y \<in> set keys. f k < f y \<Longrightarrow> first_least f (keys @ [k]) k"
  unfolding first_least_def by (rule exI[of _ keys], rule exI[of _ "[]"]) simp

lemma first_least_old:
  assumes "first_least f keys v" "f v \<le> f k"
  shows "first_least f (keys @ [k]) v"
proof -
  obtain ys zs where "keys = ys @ v # zs" "\<forall>y \<in> set ys. f v < f y" "\<forall>z \<in> set zs. f v \<le> f z"
    using assms(1) by (auto simp: first_least_def)
  then show ?thesis using assms(2) unfolding first_least_def by (intro exI[of _ ys] exI[of _ "zs @ [k]"]) simp
qed

lemma first_least_again:
  assumes "first_least f keys v" "first_least (f(v := z0)) keys w" "\<And>x. z0 \<le> x"
  shows "w = v"
proof (rule ccontr)
  assume ne: "w \<noteq> v"
  obtain ys zs where v: "keys = ys @ v # zs" "\<forall>y \<in> set ys. f v < f y" using assms(1) by (auto simp: first_least_def)
  obtain ys' zs' where w: "keys = ys' @ w # zs'" "\<forall>y \<in> set ys'. (f(v := z0)) w < (f(v := z0)) y"
    using assms(2) by (auto simp: first_least_def)
  have "f w \<le> z0" using first_least_le[OF assms(2) first_least_in[OF assms(1)]] ne by simp
  then have "f w \<le> f v" using assms(3)[of "f v"] by simp
  then have "w \<notin> set ys" using v(2) by auto
  moreover have "v \<notin> set ys'" using w(2) assms(3)[of "f w"] ne by (fastforce simp: not_less)
  ultimately show False using v(1) w(1) ne by (auto simp: append_eq_append_conv2 append_eq_Cons_conv Cons_eq_append_conv)
qed

lemma least_key_spec:
  "case fst (least_key f keys b) of
     None \<Rightarrow> snd (least_key f keys b) = b \<and> (\<forall>k \<in> set keys. b \<le> f k)
   | Some v \<Rightarrow> snd (least_key f keys b) = f v \<and> f v < b \<and> first_least f keys v"
proof (induction keys rule: rev_induct)
  case (snoc k keys)
  obtain r s where rs: "least_key f keys b = (r, s)" by (cases "least_key f keys b")
  have step: "least_key f (keys @ [k]) b = (if f k < s then (Some k, f k) else (r, s))"
    using rs by (simp add: least_key_def Let_def)
  have new: "f k < s \<Longrightarrow> first_least f (keys @ [k]) k"
    using snoc.IH rs by (intro first_least_new) (fastforce dest: first_least_le split: option.splits)
  have old: "\<not> f k < s \<Longrightarrow> r = Some v \<Longrightarrow> first_least f (keys @ [k]) v" for v
    using snoc.IH rs by (simp add: first_least_old)
  show ?case using snoc.IH rs step new old by (auto split: option.splits)
qed (simp add: least_key_def)

text \<open>Once the score of the chosen key drops to the least value there is, the same key is chosen again.\<close>

lemma least_key_again:
  assumes "fst (least_key f keys b) = Some v" "\<And>x. z0 \<le> (x :: 'a :: linorder)"
  shows "fst (least_key (f(v := z0)) keys b) = Some v"
proof -
  have v: "f v < b" "first_least f keys v" using assms(1) least_key_spec[of f keys b] by simp_all
  have "z0 < b" using assms(2)[of "f v"] v(1) by (rule le_less_trans)
  then show ?thesis
    using least_key_spec[of "f(v := z0)" keys b] first_least_in[OF v(2)] first_least_again[OF v(2) _ assms(2)]
    by (force split: option.splits)
qed

text \<open>The score a policy compares, and the bound the search starts from, in the order of the numbers.\<close>

definition by_score :: "eviction_policy \<Rightarrow> bool" where
  "by_score p \<longleftrightarrow> p = kAllKeysLRU \<or> p = kVolatileLRU \<or> p = kAllKeysLFU \<or> p = kVolatileLFU"

definition score :: "('doc, 'ix, 'db) env \<Rightarrow> ('ix, 'db) engine \<Rightarrow> str \<Rightarrow> nat" where
  "score E e k =
     (if eviction (opts e) = kAllKeysLRU \<or> eviction (opts e) = kVolatileLRU
      then unat (get_access_time (env_hash E) k (meta e)) else unat (get_lfu_counter (env_hash E) k (meta e)))"

definition score_bound :: "('ix, 'db) engine \<Rightarrow> nat" where
  "score_bound e = (if eviction (opts e) = kAllKeysLRU \<or> eviction (opts e) = kVolatileLRU then 0xFFFFFFFF else 0xFF)"

lemma least_key_unat: "fst (least_key f keys b) = fst (least_key (\<lambda>k. unat (f k)) keys (unat (b :: 'a :: len word)))"
proof -
  have "map_prod id unat (least_key f keys b) = least_key (\<lambda>k. unat (f k)) keys (unat b)"
    unfolding least_key_def by (induction keys rule: rev_induct) (auto simp: Let_def word_less_nat_alt split: prod.splits)
  then show ?thesis by (metis fst_map_prod id_apply)
qed

lemma select_victim_least:
  "select_victim_lru h keys m = fst (least_key (\<lambda>k. unat (get_access_time h k m)) keys 0xFFFFFFFF)"
  "select_victim_lfu h keys m = fst (least_key (\<lambda>k. unat (get_lfu_counter h k m)) keys 0xFF)"
  using least_key_unat[of "\<lambda>k. get_access_time h k m" keys "0xFFFFFFFF"] least_key_unat[of "\<lambda>k. get_lfu_counter h k m" keys "0xFF"]
  by (simp_all add: select_victim_lru_def select_victim_lfu_def least_key_def)

lemma pick_by_score:
  assumes "by_score (eviction (opts e))"
  shows "pick_victim E now i cs e = (fst (least_key (score E e) cs (score_bound e)), e)"
proof -
  have "score E e = (\<lambda>k. unat (get_access_time (env_hash E) k (meta e)))" if "eviction (opts e) = kAllKeysLRU \<or> eviction (opts e) = kVolatileLRU"
    using that by (auto simp: score_def)
  moreover have "score E e = (\<lambda>k. unat (get_lfu_counter (env_hash E) k (meta e)))"
    if "\<not> (eviction (opts e) = kAllKeysLRU \<or> eviction (opts e) = kVolatileLRU)"
    using that by (auto simp: score_def)
  ultimately show ?thesis using assms by (auto simp: by_score_def pick_victim_def Let_def select_victim_least score_bound_def)
qed

text \<open>A key that will not be evicted when it is chosen.\<close>

definition stale :: "('doc, 'ix, 'db) env \<Rightarrow> int \<Rightarrow> ('ix, 'db) engine \<Rightarrow> str \<Rightarrow> bool" where
  "stale E now e v \<longleftrightarrow> (\<forall>md. entry E e v = Some md \<longrightarrow> is_expired now md \<or> km_type md = kNone)"

lemma stale_not_evicted: "stale E now e v \<Longrightarrow> \<not> fst (evict_key E now v e)"
  by (auto simp: stale_def evict_key_def entry_def get_key_type_def split: option.splits)

lemma entry_get_key_type:
  "engine_ok E e \<Longrightarrow> entry E (e\<lparr>meta := snd (get_key_type (env_hash E) now v (meta e))\<rparr>) =
     (if alive E now e v then entry E e else (entry E e)(v := None))"
  by (rule ext) (simp add: entry_def get_key_type_eq get_is_valid engine_okD alive_live)

lemma fst_get_key_type: "fst (get_key_type (env_hash E) now v (meta e)) = (if alive E now e v then map_option km_type (entry E e v) else None)"
  by (simp add: get_key_type_eq alive_live entry_def)

lemma opts_evict_value: "opts (evict_value E now t k e) = opts e"
  by (cases t) (simp_all add: bytes_c.evict_slot_opts zset_c.evict_slot_opts list_c.evict_slot_opts hash_c.evict_slot_opts
      set_c.evict_slot_opts stream_c.evict_slot_opts json_c.evict_slot_opts vector_c.evict_slot_opts)

text \<open>After its round the chosen key is stale, and it is chosen again.\<close>

lemma stale_after:
  fixes now :: int and v :: str
  assumes "engine_ok E e"
  defines "e' \<equiv> snd (evict_key E now v e)"
  shows "stale E now e' v" and "opts e' = opts e" and "entry E e' = entry E e \<or> entry E e' = (entry E e)(v := None)"
proof -
  let ?m = "snd (get_key_type (env_hash E) now v (meta e))"
  let ?e = "e\<lparr>meta := ?m\<rparr>"
  have ok: "engine_ok E ?e" by (rule key_type_ok[OF assms(1)])
  note entry = entry_get_key_type[OF assms(1), of now v]
  have cases: "e' = (case fst (get_key_type (env_hash E) now v (meta e)) of None \<Rightarrow> ?e
      | Some kt \<Rightarrow> if kt = kNone then ?e else unregister E v (forget_access v (evict_value E now kt v ?e)))"
    by (simp add: e'_def evict_key_def split_beta Let_def split: option.splits)
  have gone: "entry E (unregister E v (forget_access v (evict_value E now kt v ?e))) = (entry E e)(v := None)" for kt
    using ok entry by (auto simp: entry_unregister forget_access_ok evict_value_ok evict_value_frame(1) fun_eq_iff split: if_splits)
  show "stale E now e' v"
  proof (cases "alive E now e v")
    case True
    then show ?thesis
      using gone[of "km_type (the (entry E e v))"] entry cases
      by (auto simp: stale_def fst_get_key_type alive_def split: option.splits if_splits)
  next
    case False
    then show ?thesis using entry cases by (simp add: stale_def fst_get_key_type)
  qed
  show "opts e' = opts e"
    by (simp add: cases opts_evict_value split: option.splits)
  show "entry E e' = entry E e \<or> entry E e' = (entry E e)(v := None)"
    using gone entry by (simp add: cases split: option.splits)
qed

lemma score_entry:
  "score E e k =
     (case entry E e k of None \<Rightarrow> 0
      | Some md \<Rightarrow> if eviction (opts e) = kAllKeysLRU \<or> eviction (opts e) = kVolatileLRU
          then unat (access_time_ms md) else unat (lfu_counter md))"
  by (simp add: score_def get_access_time_def get_lfu_counter_def entry_def split: option.splits)

lemma chosen_again:
  assumes "engine_ok E e" "by_score (eviction (opts e))" "pick_victim E now i cs e = (Some v, e)"
  shows "pick_victim E now j cs (snd (evict_key E now v e)) = (Some v, snd (evict_key E now v e))"
proof -
  let ?e = "snd (evict_key E now v e)"
  note after = stale_after[OF assms(1), of now v]
  have pick: "fst (least_key (score E e) cs (score_bound e)) = Some v" using assms(3) by (simp add: pick_by_score[OF assms(2)])
  have bound: "score_bound ?e = score_bound e" using after(2) by (simp add: score_bound_def)
  have "score E ?e = score E e \<or> score E ?e = (score E e)(v := 0)"
    using after(2,3) by (auto simp: score_entry[abs_def] fun_eq_iff split: option.splits)
  then have "fst (least_key (score E ?e) cs (score_bound e)) = Some v"
    using pick least_key_again[OF pick, of 0] by auto
  then show ?thesis using pick_by_score[of ?e E now j cs] assms(2) after(2) bound by simp
qed

lemma stale_loop:
  assumes "engine_ok E e" "by_score (eviction (opts e))" "\<And>i. pick_victim E now i cs e = (Some v, e)" "stale E now e v"
  shows "fst (evict_loop E now limit cs is n e) = n"
  using assms
proof (induction "is" arbitrary: e n)
  case (Cons j "is")
  let ?e = "snd (evict_key E now v e)"
  have after: "engine_ok E ?e" "by_score (eviction (opts ?e))" "stale E now ?e v" "pick_victim E now i cs ?e = (Some v, ?e)" for i
    using evict_key_ok[OF Cons.prems(1)] stale_after(1,2)[OF Cons.prems(1), of now v] Cons.prems(2)
      chosen_again[OF Cons.prems(1,2,3)] by simp_all
  show ?case
    using Cons.IH[OF after(1,2,4,3), of n] stale_not_evicted[OF Cons.prems(4)] Cons.prems(3)[of j]
    by (simp add: evict_loop_step del: evict_loop.simps)
qed simp

text \<open>The counter of evicted keys changes at the end of the check only.\<close>

lemma cleanup_counters: "opts (snd (cleanup_expired E now e)) = opts e" "evicted (snd (cleanup_expired E now e)) = evicted e"
proof -
  have "opts (snd (cleanup_key E now k p)) = opts (snd p) \<and> evicted (snd (cleanup_key E now k p)) = evicted (snd p)" for k p
    by (cases p) (simp add: cleanup_key_def valid_def remove_everywhere_def slot_remove_def slot_defs forget_access_def db_delete_def
        split_beta Let_def split: option.splits)
  then have "opts (snd (fold (cleanup_key E now) ks p)) = opts (snd p) \<and> evicted (snd (fold (cleanup_key E now) ks p)) = evicted (snd p)" for ks p
    by (induction ks arbitrary: p) simp_all
  then show "opts (snd (cleanup_expired E now e)) = opts e" "evicted (snd (cleanup_expired E now e)) = evicted e"
    by (simp_all add: cleanup_expired_def split_beta Let_def)
qed

lemma evict_loop_counter: "evicted (snd (evict_loop E now limit cs is n e)) = evicted e"
proof (induction "is" arbitrary: n e)
  case (Cons j "is")
  have "evicted (evict_value E now t k e) = evicted e" for t k e
    by (cases t) (simp_all add: evict_slot_def slot_remove_def slot_defs persist_value_def db_put_def split_beta Let_def split: option.splits)
  moreover have "evicted (snd (pick_victim E now j cs e)) = evicted e" by (simp add: pick_victim_def split_beta Let_def)
  ultimately have "evicted (snd (evict_key E now v (snd (pick_victim E now j cs e)))) = evicted e" for v
    by (simp add: evict_key_def unregister_def forget_access_def split_beta Let_def split: option.splits)
  then show ?case using Cons.IH \<open>evicted (snd (pick_victim E now j cs e)) = evicted e\<close>
    by (simp add: evict_loop_step split_beta del: evict_loop.simps split: prod.splits option.splits)
qed simp

text \<open>
  C36. The check after a write evicts at most one key under the policies that compare access times or access counters,
  whatever the memory limit and although its loop makes one round for every ten candidates: the scores of an evicted key
  read as zero, the candidates are not filtered again, so every later round chooses the key that has just been evicted.
\<close>

theorem one_key_by_score:
  fixes E :: "('doc, 'ix, 'db) env"
  assumes "engine_ok E e" "by_score (eviction (opts e))"
  shows "fst (evict_loop E now limit cs is n e) \<le> n + 1
    \<and> evicted (check_memory_and_evict E now e) \<le> evicted e + 1"
proof -
  have loop: "fst (evict_loop E now limit cs is n c) \<le> n + 1" if c: "engine_ok E c" "by_score (eviction (opts c))"
    for limit cs "is" n and c :: "('ix, 'db) engine"
  proof (cases "is")
    case (Cons j js)
    obtain v where v: "pick_victim E now j cs c = (v, c)" by (simp add: pick_by_score[OF c(2)])
    show ?thesis
    proof (cases v)
      case (Some x)
      let ?c = "snd (evict_key E now x c)"
      note after = stale_after[OF c(1), of now x]
      have pick: "pick_victim E now i cs ?c = (Some x, ?c)" for i
        using chosen_again[OF c, where v = x and i = j and j = i] v Some by simp
      have "fst (evict_loop E now limit cs js m ?c) = m" for m
        using stale_loop[OF evict_key_ok[OF c(1)] _ pick after(1)] after(2) c(2) by simp
      then show ?thesis by (simp add: Cons evict_loop_step v Some del: evict_loop.simps)
    qed (simp add: Cons evict_loop_step v del: evict_loop.simps)
  qed simp
  have "engine_ok E (snd (cleanup_expired E now e))" by (rule cleanup_expired_ok[OF assms(1)])
  then have "fst (evict_loop E now limit cs is 0 (snd (cleanup_expired E now e))) \<le> 1" for limit cs "is"
    using loop[of "snd (cleanup_expired E now e)" limit cs "is" 0] assms(2) by (simp add: cleanup_counters)
  then have "evicted (check_memory_and_evict E now e) \<le> evicted e + 1"
    by (simp add: check_memory_and_evict_def Let_def split_beta cleanup_counters evict_loop_counter)
  then show ?thesis using loop[OF assms] by simp
qed

text \<open>An engine with a policy by access time and one key.\<close>

definition lru_engine :: "(unit, (str \<times> str) list) engine" where
  "lru_engine = snd (eng_put sample_env 7 [1] [9] (set_eviction kAllKeysLRU sample_engine))"

lemma lru_engine:
  "engine_ok sample_env lru_engine" "db_ready sample_env map_of lru_engine" "\<not> due sample_env 8 lru_engine [1]"
  "rocksdb lru_engine \<noteq> None" "by_score (eviction (opts lru_engine))"
proof -
  let ?e = "set_eviction kAllKeysLRU sample_engine"
  have max: "max_mb (opts sample_engine) = 0" "rocksdb sample_engine \<noteq> None"
    by (simp_all add: sample_engine_def engine_new_def sample_options_def Let_def)
  have e: "engine_ok sample_env ?e" "db_ready sample_env map_of ?e" "no_eviction ?e"
    using sample_engine(1,2) max by (simp_all add: set_eviction_def db_ready_def no_eviction_def)
  note spec = put_spec[where now = 7 and key = "[1]" and v = "[9]", OF e(1,2) sample_engine(3) e(3)]
  show "engine_ok sample_env lru_engine" "db_ready sample_env map_of lru_engine" unfolding lru_engine_def by (rule spec)+
  show "\<not> due sample_env 8 lru_engine [1]" using spec(3)[of "[1]"] by (simp add: lru_engine_def due_def is_expired_def km_new_def)
  have "db_get sample_env [1] lru_engine = Some [9]"
    using spec(5)[of "[1]"] max(2) by (simp add: lru_engine_def set_eviction_def)
  then show "rocksdb lru_engine \<noteq> None" by (auto simp: db_get_def split: option.splits)
  show "by_score (eviction (opts lru_engine))"
    using max(1) by (simp add: lru_engine_def eng_put_def check_memory_and_evict_def cleanup_counters by_score_def set_eviction_def Let_def)
qed

text \<open>The same policy with a limit of one megabyte and a value of more than that.\<close>

definition big_value :: str where
  "big_value = replicate 1100000 9"

definition full_engine :: "(unit, (str \<times> str) list) engine" where
  "full_engine = (snd (eng_put sample_env 7 [1] big_value sample_engine))
     \<lparr>opts := \<lparr>opt_path = [47], opt_shards = 2, max_mb = 1, eviction = kAllKeysLRU\<rparr>\<rparr>"

lemma full_opts [simp]:
  "entry E (e\<lparr>opts := oo\<rparr>) k = entry E e k" "held E (e\<lparr>opts := oo\<rparr>) k = held E e k" "db_get E k (e\<lparr>opts := oo\<rparr>) = db_get E k e"
  "db_ready E C (e\<lparr>opts := oo\<rparr>) = db_ready E C e" "due E now (e\<lparr>opts := oo\<rparr>) k = due E now e k"
  by (simp_all add: entry_def held_def db_get_def db_ready_def due_def)

lemma full_engine:
  "engine_ok sample_env full_engine" "db_ready sample_env map_of full_engine" "\<not> due sample_env 8 full_engine k"
  "rocksdb full_engine \<noteq> None" "opts full_engine = \<lparr>opt_path = [47], opt_shards = 2, max_mb = 1, eviction = kAllKeysLRU\<rparr>"
  "held_bytes (held sample_env full_engine [1]) = Some big_value"
  "entry sample_env full_engine k = (if k = [1] then Some ((km_new kBytes)\<lparr>version := 1\<rparr>) else None)"
proof -
  note spec = put_spec[where now = 7 and key = "[1]" and v = big_value, OF sample_engine(1-4)]
  show "engine_ok sample_env full_engine" "db_ready sample_env map_of full_engine" using spec(1,2) by (simp_all add: full_engine_def)
  have version: "get_key_version (env_hash sample_env) [1] (meta sample_engine) = 0"
    using sample_engine(6)[of "[1]"] by (simp add: get_key_version_def entry_def)
  show entry: "entry sample_env full_engine k = (if k = [1] then Some ((km_new kBytes)\<lparr>version := 1\<rparr>) else None)" for k
    using spec(3)[of k] sample_engine(6)[of k] version by (simp add: full_engine_def)
  show "\<not> due sample_env 8 full_engine k" using entry by (simp add: due_def is_expired_def km_new_def)
  show "held_bytes (held sample_env full_engine [1]) = Some big_value" using spec(4)[of "[1]"] by (simp add: full_engine_def)
  show "opts full_engine = \<lparr>opt_path = [47], opt_shards = 2, max_mb = 1, eviction = kAllKeysLRU\<rparr>" by (simp add: full_engine_def)
  have "rocksdb sample_engine \<noteq> None" by (simp add: sample_engine_def engine_new_def sample_options_def Let_def)
  then have "db_get sample_env [1] full_engine = Some big_value" using spec(5)[of "[1]"] by (simp add: full_engine_def)
  then show "rocksdb full_engine \<noteq> None" by (auto simp: db_get_def split: option.splits)
qed

text \<open>A value in the map of the byte values counts in full.\<close>

lemma sum_list_nonneg_member: "(x :: int) \<in> set xs \<Longrightarrow> \<forall>y \<in> set xs. 0 \<le> y \<Longrightarrow> x \<le> sum_list xs"
  by (induction xs) (auto intro: order.trans add_increasing add_increasing2 sum_list_nonneg)

lemma slot_usage_nonneg: "0 \<le> slot_usage E s usage e"
  unfolding slot_usage_def by (rule sum_list_nonneg) (auto split: option.splits)

lemma usage_of_bytes:
  assumes "engine_ok E e" "visits_all (env_order E)" "held_bytes (held E e k) = Some v"
  shows "int (length v) \<le> memory_usage E e"
proof -
  have "(k, v) \<in> set (dm_all_entries (env_order E) (bytes e))"
    using set_all_entries[OF assms(2), of "env_hash E" "bytes e"] engine_okD(1)[OF assms(1)] assms(3) by (simp add: held_def)
  then have "int (length k + length v) \<in> set (map (\<lambda>(k, v). int (length k + length v)) (dm_all_entries (env_order E) (bytes e)))"
    by force
  then have "int (length k + length v) \<le> sum_list (map (\<lambda>(k, v). int (length k + length v)) (dm_all_entries (env_order E) (bytes e)))"
    by (rule sum_list_nonneg_member) auto
  then show ?thesis unfolding memory_usage_def
    using slot_usage_nonneg[of E "zset_slot E" "zs_memory_usage (sizeof_string E) (string_capacity E)" e]
      slot_usage_nonneg[of E "list_slot E" "\<lambda>l. ll_memory_usage (sizeof_string E) (list_capacity E l) l" e]
      slot_usage_nonneg[of E "hash_slot E" "\<lambda>h. dm_size h * 64" e] slot_usage_nonneg[of E "set_slot E" "\<lambda>s. dm_size s * 40" e]
      slot_usage_nonneg[of E "stream_slot E 0" stream_memory_usage e] slot_usage_nonneg[of E "json_slot E" "\<lambda>j. length j + 64" e]
      slot_usage_nonneg[of E "vector_slot E" "vd_memory_usage (sizeof_string E)" e] by linarith
qed

lemma full_engine_evicts: "entry sample_env (check_memory_and_evict sample_env 8 full_engine) [1] = None"
proof -
  define c where "c = snd (cleanup_expired sample_env 8 full_engine)"
  note e = full_engine(1,2) sample_engine(3)
  note spec = cleanup_spec[where now = 8, OF e, folded c_def]
  have c: "engine_ok sample_env c" "opts c = opts full_engine" "held_bytes (held sample_env c [1]) = Some big_value"
    "entry sample_env c = (\<lambda>k. if k = [1] then Some ((km_new kBytes)\<lparr>version := 1\<rparr>) else None)"
    using spec(2,4) spec(5,6) full_engine(3,6,7) by (auto simp: fun_eq_iff)
  have usage: "1100000 \<le> memory_usage sample_env c"
    using usage_of_bytes[OF c(1) sample_engine(3) c(3)] by (simp add: big_value_def)
  let ?ks = "get_all_keys (env_order sample_env) (meta c)"
  have ks: "set ?ks = {[1]}" "distinct ?ks"
    using set_all_keys[OF sample_engine(3) engine_okD(9)[OF c(1)]] distinct_all_keys[OF sample_engine(3) engine_okD(9)[OF c(1)]] c(4)
    by (auto simp: get_all_keys_def entry_def fun_eq_iff split: if_splits)
  then have "?ks = [[1]]" by (cases ?ks; cases "tl ?ks") auto
  moreover have pick: "pick_victim sample_env 8 0 [[1]] c = (Some [1], c)"
    using c(2) full_engine(5) c(4)
    by (simp add: pick_victim_def Let_def select_victim_lru_def get_access_time_def entry_def fun_eq_iff km_new_def split: if_splits)
  moreover have "entry sample_env (snd (evict_key sample_env 8 [1] c)) [1] = None"
    using stale_after(1,3)[OF c(1), of 8 "[1]"] c(4) by (auto simp: stale_def is_expired_def km_new_def)
  moreover have "max_mb (opts c) = 1" "eviction (opts c) = kAllKeysLRU" using c(2) full_engine(5) by simp_all
  ultimately show ?thesis
    using usage by (simp add: check_memory_and_evict_def c_def[symmetric] volatile_only_def evict_loop_step split_beta Let_def
        entry_def del: evict_loop.simps(2))
qed

theorem eviction_moves_witness:
  "moved_out sample_env [1] full_engine (check_memory_and_evict sample_env 8 full_engine)"
  using eviction_moves[OF full_engine(1,2) sample_engine(3) full_engine(4,3), of "[1]"] full_engine_evicts full_engine(7)
  by (simp add: left_alone_def)

theorem one_key_by_score_witness:
  "fst (evict_loop sample_env 8 (-1) [[1], [2], [3]] [0, 1, 2] 0 lru_engine) \<le> 1"
  using one_key_by_score[OF lru_engine(1,5), of 8 "-1" "[[1], [2], [3]]" "[0, 1, 2]" 0] by simp

end
