(* ===== verification/C_Properties.thy ===== *)
theory C_Properties
  imports Kv_Api Engine_Eviction
begin

text \<open>
  The C interface as its callers use it: which states its calls reach, what reading the packed buffers gives back, and
  where it differs from the C++ interface.
\<close>

section \<open>Steps of the C interface\<close>

text \<open>One call of a function that can change the engine, at any time and with any behaviour of \<^verbatim>\<open>malloc\<close>.\<close>

inductive c_step :: "('doc, 'ix, 'db) env \<Rightarrow> ('ix, 'db) engine \<Rightarrow> ('ix, 'db) engine \<Rightarrow> bool" for E where
  c_put: "c_step E e (snd (astrakv_put E now key val e))"
| c_get: "c_step E e (snd (astrakv_get E A now key e))"
| c_del: "c_step E e (snd (astrakv_del E key e))"
| c_exists: "c_step E e (snd (astrakv_exists E now key e))"
| c_type: "c_step E e (snd (astrakv_type E now key e))"
| c_expire: "c_step E e (snd (astrakv_expire E now key ms e))"
| c_ttl: "c_step E e (snd (astrakv_ttl E now key e))"
| c_zadd: "c_step E e (snd (astrakv_zadd E now key member sc e))"
| c_zscore: "c_step E e (snd (astrakv_zscore E now key member e))"
| c_zrem: "c_step E e (snd (astrakv_zrem E key member e))"
| c_zcard: "c_step E e (snd (astrakv_zcard E key e))"
| c_zrange: "c_step E e (snd (astrakv_zrange E A key start stop reverse e))"
| c_zrangebyscore: "c_step E e (snd (astrakv_zrangebyscore E A key lo hi e))"
| c_lpush: "c_step E e (snd (astrakv_lpush E now key val e))"
| c_rpush: "c_step E e (snd (astrakv_rpush E now key val e))"
| c_lpop: "c_step E e (snd (astrakv_lpop E A key e))"
| c_rpop: "c_step E e (snd (astrakv_rpop E A key e))"
| c_llen: "c_step E e (snd (astrakv_llen E key e))"
| c_hset: "c_step E e (snd (astrakv_hset E now key field val e))"
| c_hget: "c_step E e (snd (astrakv_hget E A now key field e))"
| c_hdel: "c_step E e (snd (astrakv_hdel E key field e))"
| c_hexists: "c_step E e (snd (astrakv_hexists E now key field e))"
| c_hgetall: "c_step E e (snd (astrakv_hgetall E A key e))"
| c_hlen: "c_step E e (snd (astrakv_hlen E key e))"
| c_hincrby: "c_step E e (snd (astrakv_hincrby E key field delta e))"
| c_sadd: "c_step E e (snd (astrakv_sadd E now key member e))"
| c_srem: "c_step E e (snd (astrakv_srem E key member e))"
| c_sismember: "c_step E e (snd (astrakv_sismember E now key member e))"
| c_smembers: "c_step E e (snd (astrakv_smembers E A key e))"
| c_scard: "c_step E e (snd (astrakv_scard E key e))"
| c_xadd: "c_step E e (snd (astrakv_xadd E A now key ident flds e))"
| c_xread: "c_step E e (snd (astrakv_xread E A now key ident count e))"
| c_xrange: "c_step E e (snd (astrakv_xrange E A now key ident ident' count e))"
| c_xlen: "c_step E e (snd (astrakv_xlen E now key e))"
| c_xdel: "c_step E e (snd (astrakv_xdel E now key ident e))"
| c_xtrim: "c_step E e (snd (astrakv_xtrim E now key maxlen e))"
| c_jsonset: "c_step E e (snd (astrakv_jsonset E key path text e))"
| c_jsonget: "c_step E e (snd (astrakv_jsonget E A now key path e))"
| c_jsondel: "c_step E e (snd (astrakv_jsondel E key path e))"
| c_vecadd: "c_step E e (snd (astrakv_vecadd E now key ident v e))"
| c_vecget: "c_step E e (snd (astrakv_vecget E A now key ident e))"
| c_vecdel: "c_step E e (snd (astrakv_vecdel E key ident e))"
| c_vecsearch: "c_step E e (snd (astrakv_vecsearch E A now key query k e))"
| c_vecsize: "c_step E e (snd (astrakv_vecsize E key e))"
| c_hscan: "c_step E e (snd (astrakv_hscan E key (Some (\<lambda>f v. (#) (f, v))) log e))"
| c_sscan: "c_step E e (snd (astrakv_sscan E key (Some (#)) log' e))"
| c_cleanup_expired: "c_step E e (snd (astrakv_cleanup_expired E now e))"
| c_set_eviction: "astrakv_set_eviction n e = Some (r, e') \<Longrightarrow> c_step E e e'"

inductive_cases c_stepE: "c_step E e e'"

lemmas c_wrapper_defs =
  astrakv_put_def astrakv_get_def astrakv_del_def astrakv_exists_def astrakv_type_def astrakv_expire_def astrakv_ttl_def
  astrakv_zadd_def astrakv_zscore_def astrakv_zrem_def astrakv_zcard_def astrakv_zrange_def astrakv_zrangebyscore_def
  astrakv_lpush_def astrakv_rpush_def astrakv_lpop_def astrakv_rpop_def astrakv_llen_def
  astrakv_hset_def astrakv_hget_def astrakv_hdel_def astrakv_hexists_def astrakv_hgetall_def astrakv_hlen_def astrakv_hincrby_def
  astrakv_hscan_def astrakv_sadd_def astrakv_srem_def astrakv_sismember_def astrakv_smembers_def astrakv_scard_def astrakv_sscan_def
  astrakv_xadd_def astrakv_xread_def astrakv_xrange_def astrakv_xlen_def astrakv_xdel_def astrakv_xtrim_def
  astrakv_jsonset_def astrakv_jsonget_def astrakv_jsondel_def
  astrakv_vecadd_def astrakv_vecget_def astrakv_vecdel_def astrakv_vecsearch_def astrakv_vecsize_def astrakv_cleanup_expired_def

lemmas eng_ok = eng_put_ok eng_get_ok eng_simple_ok eng_zset_ok eng_list_ok eng_hash_ok eng_hincrby_ok eng_set_ok
  eng_stream_ok eng_json_ok eng_vector_ok cleanup_expired_ok

lemma for_each_ok:
  assumes "engine_ok E e"
  shows "engine_ok E (snd (for_each_hash E key f acc e))" "engine_ok E (snd (for_each_set E key g acc' e))"
  using assms
  by (auto simp: for_each_hash_def for_each_set_def get_or_create_hash_def get_or_create_set_def
      split_beta hash_c.get_or_create_ok set_c.get_or_create_ok split: option.splits)

lemma c_step_ok: "c_step E e e' \<Longrightarrow> engine_ok E e \<Longrightarrow> engine_ok E e'"
  by (erule c_stepE)
     (simp_all add: c_wrapper_defs split_beta Let_def eng_ok for_each_ok astrakv_set_eviction_def set_eviction_def
       split: option.splits, auto)

lemma open_ok: "astrakv_open E throws copts = Some e \<Longrightarrow> engine_ok E e"
  by (auto simp: astrakv_open_def default_options_def Let_def intro!: engine_new_ok split: if_splits option.splits)

text \<open>
  C12. Every state that calls of the C interface reach from an opened engine is well formed: the eight maps and the metadata
  (each key once, in its shard, the counters right), the contents of lists, hashes, sets and vector indexes, and the queues of
  the 2Q policy.  Of sorted sets and streams it says that their maps are well formed; what their contents keep needs the
  conditions of \<open>zset_refines_map\<close> and \<open>stream_reachable_ordered\<close>.  Opening replaces a number of shards of zero, with which no map would work.
\<close>

theorem c_reachable_ok:
  assumes "astrakv_open E throws copts = Some e" "(c_step E)\<^sup>*\<^sup>* e e'"
  shows "engine_ok E e'"
  using assms(2)
proof (induction rule: rtranclp_induct)
  case base
  show ?case by (rule open_ok[OF assms(1)])
next
  case (step y z)
  then show ?case by (blast intro: c_step_ok)
qed

theorem c_reachable_ok_witness:
  "engine_ok sample_env (snd (astrakv_lpush sample_env 8 [2] [3] (snd (astrakv_put sample_env 7 [1] [9] (engine_new sample_env default_options)))))"
proof (rule c_reachable_ok[where throws = "\<lambda>_. False" and copts = None])
  show "astrakv_open sample_env (\<lambda>_. False) None = Some (engine_new sample_env default_options)"
    by (simp add: astrakv_open_def)
  show "(c_step sample_env)\<^sup>*\<^sup>* (engine_new sample_env default_options)
      (snd (astrakv_lpush sample_env 8 [2] [3] (snd (astrakv_put sample_env 7 [1] [9] (engine_new sample_env default_options)))))"
    by (rule rtranclp.rtrancl_into_rtrancl[OF r_into_rtranclp]) (rule c_put c_lpush)+
qed

section \<open>Reading the packed buffers\<close>

text \<open>A reader as the header describes it: items until the bytes end, or a counted number of items.\<close>

function unpack :: "(str \<Rightarrow> ('a \<times> str) option) \<Rightarrow> str \<Rightarrow> 'a list option" where
  "unpack get_item d =
     (if d = [] then Some []
      else (case get_item d of
              None \<Rightarrow> None
            | Some (x, d') \<Rightarrow> if length d' < length d then map_option ((#) x) (unpack get_item d') else None))"
  by pat_completeness auto
termination
  by (relation "measure (\<lambda>(get_item, d). length d)") auto

declare unpack.simps [simp del]

definition unpack_counted :: "(str \<Rightarrow> ('a \<times> str) option) \<Rightarrow> str \<Rightarrow> 'a list option" where
  "unpack_counted get_item d =
     (let (ok, xs) = read_counted get_item (\<lambda>x xs. xs @ [x]) d [] in if ok then Some xs else None)"

definition read_buffer :: "(str \<Rightarrow> 'a list option) \<Rightarrow> int \<times> buffer option \<Rightarrow> 'a list option" where
  "read_buffer reader r =
     (if fst r \<noteq> 0 then None
      else (case snd r of
              None \<Rightarrow> None
            | Some (None, n) \<Rightarrow> Some []
            | Some (Some b, n) \<Rightarrow> reader (take n b)))"

locale progress_format = item_format +
  assumes put_nonempty: "ok x \<Longrightarrow> put x \<noteq> []"
begin

lemma unpack_put: "\<forall>x \<in> set xs. ok x \<Longrightarrow> unpack get (concat (map put xs)) = Some xs"
proof (induction xs)
  case (Cons x xs)
  have "put x \<noteq> []" using Cons.prems by (simp add: put_nonempty)
  then show ?case using Cons by (subst unpack.simps) (simp add: get_put)
qed (simp add: unpack.simps)

lemma unpack_counted_put:
  assumes "fits32 xs" "\<forall>x \<in> set xs. ok x"
  shows "unpack_counted get (put_u32 (of_nat (length xs)) @ concat (map put xs)) = Some xs"
proof -
  have "fold (\<lambda>x ys. ys @ [x]) xs ys = ys @ xs" for ys by (induction xs arbitrary: ys) auto
  then show ?thesis using read_counted_put[OF assms, of "\<lambda>x xs. xs @ [x]" "[]" "[]"] by (simp add: unpack_counted_def)
qed

end

lemma put_blob_nonempty [simp]: "put_blob s \<noteq> []"
  using length_put_u32[of "of_nat (length s)"] by (auto simp: put_blob_def Let_def simp del: length_put_u32)

interpretation blob_packed: progress_format put_blob "get_blob 0" fits32
  by unfold_locales simp

interpretation pair_packed: progress_format put_pair "get_pair 0" pair_fits
  by unfold_locales (simp add: put_pair_def split_beta Let_def)





text \<open>What a caller reads when the memory for \<open>n\<close> bytes was or was not there.\<close>

definition received :: "malloc \<Rightarrow> nat \<Rightarrow> 'a list \<Rightarrow> 'a list option" where
  "received A n xs = (if xs \<noteq> [] \<and> A n = None then None else Some xs)"

lemma read_give_all:
  "malloc_ok A \<Longrightarrow> length v = n \<Longrightarrow> read_buffer reader (give_all A n v) = (case A n of None \<Rightarrow> None | Some _ \<Rightarrow> reader v)"
  by (auto simp: read_buffer_def give_all_def fill_def malloc_ok_def split: option.splits)

lemma read_null [simp]: "read_buffer reader give_null = Some []"
  by (simp add: read_buffer_def give_null_def)





section \<open>Values through the C interface\<close>

lemma parse_fields_put:
  "\<forall>p \<in> set fvs. pair_fits p \<Longrightarrow> parse_fields (concat (map put_pair fvs)) acc = acc @ fvs"
proof (induction fvs arbitrary: acc)
  case (Cons p fvs)
  have "\<not> length (put_pair p @ rest) < 4" for rest by (simp add: put_pair_def split_beta put_blob_def Let_def)
  then show ?case using Cons by (subst parse_fields.simps) (simp add: get_put_pair)
qed (simp add: parse_fields.simps)

text \<open>The fields a caller packs are the fields of the new entry.\<close>

lemma xadd_unpacks:
  assumes "\<forall>p \<in> set fvs. pair_fits p"
  shows "snd (astrakv_xadd E A now key ident (concat (map put_pair fvs)) e) = snd (kv_xadd E now key ident fvs e)"
    "fst (kv_xadd E now key ident fvs e) \<noteq> [] \<Longrightarrow> A (length (fst (kv_xadd E now key ident fvs e)) + 1) = Some m \<Longrightarrow>
      fst (astrakv_xadd E A now key ident (concat (map put_pair fvs)) e) = (0, Some (Some (fst (kv_xadd E now key ident fvs e) @ [0])))"
  by (simp_all add: astrakv_xadd_def kv_xadd_def parse_fields_put[OF assms] split_beta Let_def split: option.splits)

text \<open>
  A value that is there is reported as missing when there is no memory for it, which for an empty value may be on every call
  (\<^verbatim>\<open>malloc(0)\<close> may return NULL); a popped element is then gone.
\<close>

lemma get_needs_memory:
  assumes "fst (kv_get E now key e) = Some v" "malloc_ok A"
  shows "fst (astrakv_get E A now key e) = (if A (length v) = None then (-1, Some (None, length v)) else (0, Some (Some v, length v)))"
  using assms by (auto simp: astrakv_get_def kv_get_def split_beta Let_def give_def fill_def malloc_ok_def split: option.splits)

lemma pop_needs_memory:
  assumes "fst (kv_lpop E key e) = Some v" "A (length v) = None"
  shows "astrakv_lpop E A key e = ((-1, Some (None, length v)), snd (kv_lpop E key e))"
  using assms by (simp add: astrakv_lpop_def kv_lpop_def split_beta Let_def give_def fill_def)

section \<open>Expired containers\<close>

lemma append_pairs:
  "\<forall>p \<in> set xs. pair_fits p \<Longrightarrow>
     fold (\<lambda>(f, v) buf. append_sized v (append_sized f buf)) xs buf = buf @ concat (map put_pair xs)"
  by (induction xs arbitrary: buf) (auto simp: append_sized_def put_pair_def put_blob_def pair_fits_def Let_def)

lemma append_blobs: "\<forall>x \<in> set xs. fits32 x \<Longrightarrow> fold append_sized xs buf = buf @ concat (map put_blob xs)"
  by (induction xs arbitrary: buf) (auto simp: append_sized_def put_blob_def Let_def)

lemma read_give_string:
  "malloc_ok A \<Longrightarrow> unpack get_item buf = Some xs \<Longrightarrow> buf = [] \<longleftrightarrow> xs = [] \<Longrightarrow>
     read_buffer (unpack get_item) (give_string A buf) = received A (length buf) xs"
  by (simp add: give_string_def read_give_all received_def split: option.splits)

text \<open>
  C29. The two interfaces differ on a container that has expired and was not cleaned up yet: \<^verbatim>\<open>astrakv_hgetall\<close> and
  \<^verbatim>\<open>astrakv_smembers\<close> read the fields and members that are in memory whatever the time, while the methods of \<^verbatim>\<open>Kv\<close> return
  them as long as the key is live and nothing afterwards.
\<close>

theorem hgetall_ignores_expiry:
  assumes "malloc_ok A" "held_hash (held E e key) = Some h" "held_set (held E e key') = Some s"
    and "\<forall>p \<in> set (dm_all_entries (env_order E) h). pair_fits p" "\<forall>m \<in> set (dm_all_keys (env_order E) s). fits32 m"
  shows "read_buffer (unpack (get_pair 0)) (fst (astrakv_hgetall E A key e)) =
        received A (length (concat (map put_pair (dm_all_entries (env_order E) h)))) (dm_all_entries (env_order E) h)
    \<and> fst (kv_hgetall E now key e) = (if alive E now e key then dm_all_entries (env_order E) h else [])
    \<and> read_buffer (unpack (get_blob 0)) (fst (astrakv_smembers E A key' e)) =
        received A (length (concat (map put_blob (dm_all_keys (env_order E) s)))) (dm_all_keys (env_order E) s)
    \<and> fst (kv_smembers E now key' e) = (if alive E now e key' then dm_all_keys (env_order E) s else [])"
proof -
  let ?es = "dm_all_entries (env_order E) h" and ?ks = "dm_all_keys (env_order E) s"
  have hash: "slot_get E (hash_slot E) key e' = Some h" if "held E e' key = held E e key" for e'
    using that assms(2) by (simp add: slot_get_held)
  have set: "slot_get E (set_slot E) key' e' = Some s" if "held E e' key' = held E e key'" for e'
    using that assms(3) by (simp add: slot_get_def slot_defs held_def)
  have members: "map fst (dm_all_entries (env_order E) s) = ?ks" by (rule map_fst_entries)
  have "fold (\<lambda>(k, _). append_sized k) xs buf = fold append_sized (map fst xs) buf" for xs :: "(str \<times> byte) list" and buf
    by (induction xs arbitrary: buf) auto
  then have packed: "fst (for_each_hash E key (\<lambda>f v buf. append_sized v (append_sized f buf)) [] e) = concat (map put_pair ?es)"
    "fst (for_each_set E key' append_sized [] e) = concat (map put_blob ?ks)"
    using append_pairs[OF assms(4), of "[]"] append_blobs[OF assms(5), of "[]"]
    by (simp_all add: for_each_hash_def for_each_set_def get_or_create_hash_def get_or_create_set_def hash set
        hash_c.get_or_create_found set_c.get_or_create_found dm_for_each_fold members)
  have empty: "concat (map put_pair ?es) = [] \<longleftrightarrow> ?es = []" "concat (map put_blob ?ks) = [] \<longleftrightarrow> ?ks = []"
    by (cases ?es; simp add: put_pair_def split_beta) (cases ?ks; simp)
  show ?thesis
    using read_give_string[OF assms(1) pair_packed.unpack_put[OF assms(4)] empty(1)]
      read_give_string[OF assms(1) blob_packed.unpack_put[OF assms(5)] empty(2)]
    by (simp add: astrakv_hgetall_def astrakv_smembers_def split_beta Let_def packed kv_hgetall_def kv_smembers_def eng_hgetall_def
        eng_smembers_def get_or_create_hash_def get_or_create_set_def hash set hash_c.get_or_create_found set_c.get_or_create_found)
qed

text \<open>Memory that is always there, and an engine with a hash that has expired and a set that has not.\<close>

definition plenty :: malloc where
  "plenty = (\<lambda>n. Some (replicate n 0))"

definition mixed_engine :: "(unit, (str \<times> str) list) engine" where
  "mixed_engine =
     snd (eng_expire sample_env 7 [1] 5
       (snd (eng_sadd sample_env 7 [4] [5] (snd (eng_hset sample_env 7 [1] [2] [3] (snd (eng_zadd sample_env 7 [6] [97] 0 sample_engine)))))))"

theorem hgetall_ignores_expiry_witness:
  "read_buffer (unpack (get_pair 0)) (fst (astrakv_hgetall sample_env plenty [1] mixed_engine)) = Some [([2], [3])]
   \<and> fst (kv_hgetall sample_env 8 [1] mixed_engine) = [] \<and> fst (kv_hgetall sample_env 4 [1] mixed_engine) = [([2], [3])]
   \<and> read_buffer (unpack (get_blob 0)) (fst (astrakv_smembers sample_env plenty [4] mixed_engine)) = Some [[5]]"
proof -
  let ?h = "snd (dm_insert (env_hash sample_env) [2] [3] (dm_new 16)) :: hash_value"
  let ?s = "snd (dm_insert (env_hash sample_env) [5] 0 (dm_new 16)) :: set_value"
  have held: "held_hash (held sample_env mixed_engine [1]) = Some ?h" "held_set (held sample_env mixed_engine [4]) = Some ?s"
    by code_simp+
  have items: "dm_all_entries (env_order sample_env) ?h = [([2] :: str, [3] :: str)]" "dm_all_keys (env_order sample_env) ?s = [[5] :: str]"
    by code_simp+
  have alive: "\<not> alive sample_env 8 mixed_engine [1]" "alive sample_env 4 mixed_engine [1]"
    by code_simp+
  have plenty: "malloc_ok plenty" by (simp add: malloc_ok_def plenty_def)
  note at = hgetall_ignores_expiry[OF plenty held, unfolded items]
  show ?thesis using at[of 8] at[of 4] alive by (simp add: pair_fits_def fits32_def received_def plenty_def)
qed


section \<open>Two types under one key\<close>

lemma no_eviction_put: "no_eviction e \<Longrightarrow> no_eviction (snd (eng_put E now key v e))"
  by (auto simp: eng_put_def check_memory_and_evict_def cleanup_counters no_eviction_def Let_def)

lemma held_write_list:
  assumes "engine_ok E e" "held_list (held E e key) = None"
  shows "held E (write_back E (list_slot E) key ll_new l e) k =
    (if k = key then (held E e k)\<lparr>held_list := Some l\<rparr> else held E e k)"
proof -
  have insert: "held E (slot_insert E (list_slot E) key c e') k = (if k = key then (held E e' k)\<lparr>held_list := Some c\<rparr> else held E e' k)"
    if "engine_ok E e'" for c e' k
    using engine_okD(3)[OF that] by (simp add: held_def slot_insert_def slot_defs)
  have none: "slot_get E (list_slot E) key e = None" using assms(2) by (simp add: slot_get_held)
  have "engine_ok E (register E key (slot_type (list_slot E)) (slot_insert E (list_slot E) key ll_new e))"
    by (intro register_ok list_c.insert_ok assms(1)) simp
  then show ?thesis using insert[OF assms(1)] by (simp add: write_back_def find_or_insert_def none persist_value_def insert)
qed

text \<open>
  C30. No command checks the type of a key.  In an engine with a database and without eviction, take a key that holds nothing
  in memory: after \<^verbatim>\<open>put\<close> and then \<^verbatim>\<open>lpush\<close> on it both values live under it, \<^verbatim>\<open>type\<close> says list and \<^verbatim>\<open>llen\<close> counts one element, while \<^verbatim>\<open>get\<close> still returns the bytes.  The database keeps the list only, so the
  bytes are lost with the process.
\<close>

theorem two_types_at_once:
  fixes now now' :: int and v x :: str
  assumes "engine_ok E e" "db_ready E C e" "visits_all (env_order E)" "no_eviction e" "rocksdb e \<noteq> None" "held E e key = nothing"
  defines "e' \<equiv> snd (astrakv_lpush E now' key x (snd (astrakv_put E now key v e)))"
  shows "fst (astrakv_type E t key e') = (0, 3)
    \<and> fst (kv_get E t key e') = Some v
    \<and> fst (astrakv_llen E key e') = (0, 1)
    \<and> db_get E key e' = Some (serialize_list (push_left x ll_new))"
proof -
  define p where "p = snd (eng_put E now key v e)"
  note put = put_spec[where now = now and key = key and v = v, OF assms(1-4), folded p_def]
  have no: "no_eviction p" unfolding p_def by (rule no_eviction_put[OF assms(4)])
  have held: "held E p key = nothing\<lparr>held_bytes := Some v\<rparr>" using put(4)[of key] assms(6) by simp
  have db: "rocksdb p \<noteq> None" using put(5)[of key] assms(5) by (auto simp: db_get_def split: option.splits)
  define w where "w = write_back E (list_slot E) key ll_new (push_left x ll_new) p"
  have pushed: "ll_ok (push_left x ll_new)" by (simp add: ll.invar_push_l ll.invar_fresh)
  have none: "slot_get E (list_slot E) key p = None" using held by (simp add: slot_get_held nothing_def)
  note spec = list_c.write_back_spec[OF put(1) container_new_ok(2) pushed put(2), where key = key, folded w_def]
  have type: "slot_type (list_slot E) = kList" by (simp add: list_slot_def)
  have w: "no_eviction w" "entry E w key = Some ((km_new kList)\<lparr>version := get_key_version (env_hash E) key (meta p) + 1\<rparr>)"
    "db_get E key w = Some (serialize_list (push_left x ll_new))" "\<not> due E now' w key"
    using spec(3) spec(6,7)[of key] no none db by (auto simp: no_eviction_def due_def is_expired_def km_new_def type slot_writes)
  have held': "held E w key = nothing\<lparr>held_bytes := Some v, held_list := Some (push_left x ll_new)\<rparr>"
    using held_write_list[OF put(1), of key "push_left x ll_new" key] held by (simp add: w_def nothing_def)
  have e': "e' = check_memory_and_evict E now' w"
    using held by (simp add: e'_def astrakv_lpush_def astrakv_put_def split_beta Let_def lpush_write w_def p_def nothing_def)
  note chk = check_alive[where now = now', OF spec(1,2) assms(3) w(1), folded e']
  have end_state: "entry E e' key = entry E w key" "held E e' key = held E w key" "db_get E key e' = db_get E key w"
    using chk(1-3)[of key] w(4) by simp_all
  then have "alive E t e' key" using w(2) by (simp add: alive_def is_expired_def km_new_def)
  moreover have "slot_get E (list_slot E) key e' = Some (push_left x ll_new)" using held' end_state by (simp add: slot_get_held)
  then have "fst (eng_llen E key e') = 1"
    by (simp add: eng_llen_def get_or_create_list_def list_c.get_or_create_found ll_size_list ll.items_push_l ll.invar_fresh ll.items_fresh)
  ultimately show ?thesis
    using end_state w(2,3) held'
    by (simp add: astrakv_type_def kv_get_def astrakv_llen_def split_beta Let_def type_answer get_answer km_new_def)
qed

theorem two_types_at_once_witness:
  "fst (astrakv_type sample_env 9 [1] (snd (astrakv_lpush sample_env 8 [1] [5] (snd (astrakv_put sample_env 7 [1] [4] sample_engine))))) = (0, 3)
   \<and> fst (kv_get sample_env 9 [1] (snd (astrakv_lpush sample_env 8 [1] [5] (snd (astrakv_put sample_env 7 [1] [4] sample_engine))))) = Some [4]"
proof -
  have "rocksdb sample_engine \<noteq> None" by (simp add: sample_engine_def engine_new_def sample_options_def Let_def)
  then show ?thesis using two_types_at_once[OF sample_engine(1-4) _ sample_engine(5), of 9 "[1]" 8 "[5]" 7 "[4]"] by simp
qed

end
