(* ===== verification/Spec2Isabelle.thy ===== *)
theory Spec2Isabelle
  imports Tree_History Linked_List Eviction_2Q Key_Metadata Byte_Codec Zset Bitmap Hyperloglog Simd_Utils Hash_Checks C_Properties
begin

text \<open>
  AstraKV, an embedded key-value store in C++ (\<^verbatim>\<open>src/\<close> and \<^verbatim>\<open>include/\<close> of the repository), as a development of
  definitions that compute and theorems about them.

  \<^bold>\<open>The program.\<close>  An \<^verbatim>\<open>Engine\<close> keeps values of eight types (bytes, sorted sets, lists, hashes, sets, streams, JSON, vectors)
  in eight sharded hash maps, the type, expiry and access statistics of each key in a \<^verbatim>\<open>KeyMetadataManager\<close>, the order of
  eviction in an \<^verbatim>\<open>Eviction2Q\<close>, and, when a path is given, a byte form of each value in RocksDB.  A handler looks a container
  up in its map (or loads it), changes it, stores the byte form, and after most writes checks the memory, which drops expired
  keys and evicts others.  \<^verbatim>\<open>Kv\<close> is the C++ class around the engine, \<^verbatim>\<open>astrakv_*\<close> the C functions around it.

  \<^bold>\<open>Theories and sources.\<close>  In the order in which they build on each other:
  \<^item> \<^verbatim>\<open>Kv_Prelude\<close>: machine types, bytes and strings, list lemmas.  \<^verbatim>\<open>Number_Text\<close>: decimal text as \<^verbatim>\<open>to_string\<close>,
    \<^verbatim>\<open>strtoull\<close>, \<^verbatim>\<open>strtoll\<close> have it.
  \<^item> \<^verbatim>\<open>Dash_Map\<close>: \<^verbatim>\<open>dash_map.hpp\<close> (\<open>dm_insert\<close>, \<open>dm_get\<close>, ... are the methods of \<^verbatim>\<open>DashMap\<close>).  \<^verbatim>\<open>Linked_List\<close>:
    \<^verbatim>\<open>linked_list.hpp\<close> (\<open>push_left\<close>, \<open>ll_trim\<close>, ...).  \<^verbatim>\<open>Eviction_2Q\<close>: \<^verbatim>\<open>eviction_2q.cpp\<close> (\<open>eq_*\<close>).  \<^verbatim>\<open>Key_Metadata\<close>:
    \<^verbatim>\<open>metadata.hpp\<close>.  \<^verbatim>\<open>Stream_Data\<close>: \<^verbatim>\<open>stream_data.cpp\<close> (\<open>xadd\<close>, \<open>xread\<close>, ...).
  \<^item> \<^verbatim>\<open>BPlus_Node\<close>, \<^verbatim>\<open>BPlus_Tree\<close>, \<^verbatim>\<open>BPlus_Rank\<close>: \<^verbatim>\<open>zset/bplustree_internal.hpp\<close> and \<^verbatim>\<open>zset/bplustree.hpp\<close>, nodes with
    their slots and subtree counts, insertion, deletion, ranks and iteration.  \<^verbatim>\<open>Node_Memory\<close>, \<^verbatim>\<open>Node_Heap\<close>,
    \<^verbatim>\<open>Node_Trees\<close>: the same nodes as blocks of 256 bytes on a heap (\<open>nb_*\<close> on one block, \<open>nh_*\<close> between blocks), related to
    \<^verbatim>\<open>BPlus_Node\<close> by trees with addresses.  \<^verbatim>\<open>Scored_Tree\<close>: the order on (score, hash) and
    the tree as an ordered set.  \<^verbatim>\<open>Tree_Memory\<close>: \<^verbatim>\<open>Insert\<close>, \<^verbatim>\<open>Delete\<close>, \<^verbatim>\<open>Contains\<close>, \<^verbatim>\<open>Clear\<close> and
    \<^verbatim>\<open>ForceUpdate\<close> of \<^verbatim>\<open>zset/bplustree.hpp\<close> again, on the heap of blocks (\<open>mt_*\<close>); \<^verbatim>\<open>Tree_Frames\<close>: a stored tree around one
    of its nodes; \<^verbatim>\<open>Tree_Clear\<close>: the loop of \<^verbatim>\<open>Clear\<close> frees each block of the tree once; \<^verbatim>\<open>Tree_Insert\<close>, \<^verbatim>\<open>Tree_Grow\<close>,
    \<^verbatim>\<open>Tree_Shrink\<close>, \<^verbatim>\<open>Tree_History\<close>: the calls on blocks are those on nodes, over histories of calls.  \<^verbatim>\<open>Zset\<close>: \<^verbatim>\<open>zset/bplustree_zset.cpp\<close> (\<open>zs_*\<close>).
  \<^item> \<^verbatim>\<open>Byte_Codec\<close>: the \<^verbatim>\<open>serialize_*\<close> functions of \<^verbatim>\<open>engine.cpp\<close>.  \<^verbatim>\<open>Vector_Data\<close>: \<^verbatim>\<open>vector_data.cpp\<close> (\<open>vd_*\<close>) and its
    byte form.  \<^verbatim>\<open>Rocksdb_Adapter\<close>: \<^verbatim>\<open>rocksdb_adapter.cpp\<close> (\<open>ra_*\<close>).
  \<^item> \<^verbatim>\<open>Bitmap\<close>, \<^verbatim>\<open>Hyperloglog\<close>, \<^verbatim>\<open>Simd_Utils\<close>: \<^verbatim>\<open>bitmap.hpp\<close>, \<^verbatim>\<open>hll.hpp\<close>, \<^verbatim>\<open>simd_utils.hpp\<close>, which the engine does not
    use.
  \<^item> \<^verbatim>\<open>Engine_State\<close>: the record \<open>engine\<close> (the members of \<^verbatim>\<open>Engine\<close>), loading and storing through a \<open>slot\<close> (one of the eight
    maps with its byte form), the memory count, expiry and eviction.  \<^verbatim>\<open>Engine\<close>: the handlers \<open>eng_*\<close>.
    \<^verbatim>\<open>Engine_Invariant\<close>, \<^verbatim>\<open>Engine_Properties\<close>, \<^verbatim>\<open>Engine_Eviction\<close>: theorems about them.
  \<^item> \<^verbatim>\<open>Hash_Threads\<close>: the hash handlers as sequences of atomic calls on shared objects, for several threads, up to the check that
    ends \<^verbatim>\<open>hset\<close>.  \<^verbatim>\<open>Hash_Checks\<close>: the cleanup of that check in the same way, so that a call is followed to its return.
  \<^item> \<^verbatim>\<open>C_Api\<close>: \<^verbatim>\<open>kv_impl.cpp\<close> (\<open>astrakv_*\<close>).  \<^verbatim>\<open>Kv_Api\<close>: \<^verbatim>\<open>kv.cpp\<close>, \<^verbatim>\<open>kv.hpp\<close> (\<open>kv_*\<close>).  \<^verbatim>\<open>C_Properties\<close>: theorems about both.

  \<^bold>\<open>Interfaces.\<close>  \<open>counted_map\<close> (a map with a counter: both instantiations of \<^verbatim>\<open>DashMap\<close>), \<open>two_ended\<close> (the list in both
  representations), \<open>victim_source\<close> (a replacement policy: 2Q), \<open>item_order\<close> (what the tree needs of its comparison: scored
  members, as values and as sixteen bytes), \<open>item_format\<close> and \<open>progress_format\<close> (an item's bytes and their reader: every packed item of the database and of
  the C interface), \<open>slots\<close> (what the loops over keys and pointers need of a block: key slots, child pointers), \<open>container\<close> (a map of the engine with its byte form: all eight).  Each is interpreted on the model's own
  operations, and the theorems about clients rest on the interpretations.

  \<^bold>\<open>What the theorems show.\<close>
  \<^item> Data structures: sharding cannot be seen by a client; a list keeps exactly the range \<^verbatim>\<open>Trim\<close> names in both
    representations; the 2Q queues stay consistent; the B+ tree implements an ordered set with its ranks, for all sequences
    of operations, and so does its form in memory: the operations on blocks of bytes with pointers are those on lists, and the live
    blocks are always the blocks of the tree; a sorted set implements a map from members to scores read in score order, as long as no score is a NaN and
    no two members have the same hash, and both assumptions are needed.
    The mutex of the sorted set is state where one operation calls another.
  \<^item> Bytes: every byte form reads back as the container it was written from; a stream does when its sequence numbers have not
    wrapped around, since a wrap makes an entry that \<^verbatim>\<open>XAdd\<close> refuses on reading.
  \<^item> The engine: what each kind of command leaves, for the key it names and for all other keys; expiry, deletion and eviction as
    relations between what is in memory, in the metadata and in the database; well-formedness of every state that is
    reached from an opened engine (of the contents of sorted sets and streams the theorems about those components speak).  What a write leaves is
    stated for engines that evict nothing (no limit, or the policy without eviction), eviction for all.
  \<^item> Threads: in an engine without a memory limit a handler alone is the sequential handler, and a write to a live hash in memory
    is not lost there; schedules under which other acknowledged writes are lost.
  \<^item> Divergences: several theorems state what the code does where it is not what its interface or its tests say: expiry
    taken for a point in time, data of lazily expired keys that is never collected, containers in the database overwritten by
    the first write after a restart, at most one eviction under the LRU and LFU policies, a mutex locked twice, a loop that
    does not end, values of two types under one key, expired containers returned by the C interface.

  \<^bold>\<open>Parameters.\<close>  What is not part of the repository is an argument: the record \<open>env\<close> (the hash of strings, the order in
  which \<^verbatim>\<open>flat_hash_map\<close> is iterated, the floating-point bound of the protected queue, hnswlib, RocksDB, simdjson, sizes and
  capacities of the standard library's objects, \<^verbatim>\<open>rand\<close>), the clock \<open>now\<close>, \<^verbatim>\<open>malloc\<close>, the operations on \<^verbatim>\<open>double\<close> in
  \<^verbatim>\<open>Estimate\<close>, and whether a constructor throws.  The laws assumed of them are named: \<open>visits_all\<close>, \<open>db_laws\<close>, \<open>db_works\<close>,
  \<open>malloc_ok\<close>.  A \<^verbatim>\<open>double\<close> or \<^verbatim>\<open>float\<close> is its bit pattern, with the IEEE comparisons where the code compares.  The
  blocks \<^verbatim>\<open>operator new\<close> returns are an argument of the insertion in memory: distinct, not null, not live, of 256 bytes (\<open>fresh\<close>).

  \<^bold>\<open>Bounds and fuel.\<close>  Paths in a tree have room for the sixteen records of the source; a tree of fewer than \<open>2^32\<close> items is
  at most 14 nodes high, so a search on the heap, with one round of fuel for each record, ends, and an insertion needs at most
  sixteen new blocks.  A scan by score has one round of fuel for each member, and is shown to give its result.  The leading-zero loop of the sketch is a partial function whose \<open>None\<close> is a call that does not return.  The eviction loop runs the rounds the source computes, a tenth of the candidates.  The loop of
  \<^verbatim>\<open>Clear\<close> on blocks is a partial function too, shown to return on every tree.  A thread of \<^verbatim>\<open>hset\<close> on a hash in memory has written after
  26 steps of its own, and returns within a bound linear in the shards and keys its cleanup may meet.  Counts and lengths of 32 bits are words and wrap; sums the source forms in
  64 bits and that cannot leave that range are integers, and each theory says where that is so.

  \<^bold>\<open>Not modelled.\<close>  The destructors, \<^verbatim>\<open>astrakv_close\<close> and \<^verbatim>\<open>astrakv_iter_destroy\<close>, which only free memory; log messages; the
  creation of directories; the debugging aids of the tree; the raw access to the shards of a map; ranks and iteration of
  the tree on blocks (they are modelled on nodes); memory that is exhausted; invalid pointers and numbers of policies that the interface does not have;
  threads other than those of the hash commands, and evictions among several threads (a list has no lock, so two threads on one list are undefined behaviour); the
  build files, the macros, the examples, the tests and the Rust bindings.
\<close>

end
